(* ===== verification/Prelude.thy ===== *)
theory Prelude
  imports Main "HOL-Library.Word"
begin

section \<open>Bytes, machine integers and list windows\<close>

text \<open>
  What every component shares: the names of the C++ integer types, byte strings, little-endian
  integers, decimal printing, and the windows (\<open>subspan\<close>, \<open>memcpy\<close>) that the code takes of
  byte buffers. Two collections feed the automation of the component theories:
  \<open>slice_simps\<close> normalises windows of buffers and \<open>le_simps\<close> the little-endian codecs.
\<close>

named_theorems slice_simps
named_theorems le_simps

type_synonym u8 = "8 word"
type_synonym u16 = "16 word"
type_synonym u32 = "32 word"
type_synonym u64 = "64 word"
type_synonym byte = u8
type_synonym bytes = "byte list"

subsection \<open>Buffer windows\<close>

text \<open>\<open>slice b off n\<close> is \<open>b.subspan(off, n)\<close> for a window that lies inside the buffer.\<close>

definition slice :: "'a list \<Rightarrow> nat \<Rightarrow> nat \<Rightarrow> 'a list" where
  "slice b off n = take n (drop off b)"

text \<open>\<open>memcpy_at out off src\<close> overwrites \<open>out\<close> from \<open>off\<close> on with all of \<open>src\<close>.\<close>

definition memcpy_at :: "'a list \<Rightarrow> nat \<Rightarrow> 'a list \<Rightarrow> 'a list" where
  "memcpy_at out off src = take off out @ src @ drop (off + length src) out"

subsection \<open>Little-endian integers\<close>

primrec le_bytes :: "nat \<Rightarrow> nat \<Rightarrow> bytes" where
  "le_bytes 0 v = []"
| "le_bytes (Suc n) v = of_nat v # le_bytes n (v div 256)"

primrec le_val :: "bytes \<Rightarrow> nat" where
  "le_val [] = 0"
| "le_val (b # bs) = unat b + 256 * le_val bs"

subsection \<open>Text\<close>

definition char_byte :: "char \<Rightarrow> byte" where
  "char_byte c = of_char c"

definition str_bytes :: "string \<Rightarrow> bytes" where
  "str_bytes s = map char_byte s"

definition digit_char :: "nat \<Rightarrow> char" where
  "digit_char d = char_of (48 + d)"

fun dec_string :: "nat \<Rightarrow> string" where
  "dec_string n = (if n < 10 then [digit_char n] else dec_string (n div 10) @ [digit_char (n mod 10)])"

declare dec_string.simps [simp del]

subsection \<open>Lemmas on windows\<close>

lemma length_slice [simp]: "length (slice b off n) = min n (length b - off)"
  by (simp add: slice_def)

lemma slice_all [slice_simps]: "slice b 0 (length b) = b"
  by (simp add: slice_def)

lemma slice_zero [simp]: "slice b off 0 = []"
  by (simp add: slice_def)

lemma slice_append_left [slice_simps]:
  "off + n \<le> length a \<Longrightarrow> slice (a @ b) off n = slice a off n"
  by (simp add: slice_def)

lemma slice_append_right [slice_simps]:
  "length a \<le> off \<Longrightarrow> slice (a @ b) off n = slice b (off - length a) n"
  by (simp add: slice_def)

lemma slice_append_exact [slice_simps]:
  "off = length a \<Longrightarrow> n = length b \<Longrightarrow> slice (a @ b @ c) off n = b"
  by (simp add: slice_def)

lemma slice_slice [slice_simps]:
  "i + m \<le> n \<Longrightarrow> slice (slice b off n) i m = slice b (off + i) m"
  by (simp add: slice_def drop_take add.commute min_def)

lemma slice_split: "slice b off (n + m) = slice b off n @ slice b (off + n) m"
  by (simp add: slice_def take_add add.commute [of off])

lemma nth_slice [simp]:
  "i < n \<Longrightarrow> off + i < length b \<Longrightarrow> slice b off n ! i = b ! (off + i)"
  by (simp add: slice_def)

lemma length_memcpy_at [simp]:
  "off + length src \<le> length out \<Longrightarrow> length (memcpy_at out off src) = length out"
  by (simp add: memcpy_at_def)

lemma nth_memcpy_at:
  assumes "off + length src \<le> length out" "i < length out"
  shows "memcpy_at out off src ! i =
    (if off \<le> i \<and> i < off + length src then src ! (i - off) else out ! i)"
  using assms by (auto simp: memcpy_at_def nth_append min_def not_less)

lemma memcpy_at_append:
  assumes "length a = off" "length src + length c = length b"
  shows "memcpy_at (a @ b) off src = a @ src @ drop (length src) b"
  using assms by (simp add: memcpy_at_def)

text \<open>Buffers that are concatenations of equally long units.\<close>

lemma length_concat_uniform:
  "\<forall>x \<in> set xs. length x = k \<Longrightarrow> length (concat xs) = length xs * k"
  by (induction xs) auto

lemma nth_concat_uniform:
  assumes "\<forall>x \<in> set xs. length x = k" "i < length xs * k"
  shows "concat xs ! i = xs ! (i div k) ! (i mod k)"
  using assms
proof (induction xs arbitrary: i)
  case (Cons x xs)
  show ?case
  proof (cases "i < k")
    case True
    with Cons.prems show ?thesis by (simp add: nth_append)
  next
    case False
    have k: "0 < k"
      using Cons.prems(2) by (cases k) auto
    have "concat xs ! (i - k) = xs ! ((i - k) div k) ! ((i - k) mod k)"
      using Cons.prems False by (intro Cons.IH) auto
    moreover have "i div k = Suc ((i - k) div k)" "i mod k = (i - k) mod k"
      using False k by (simp_all add: le_div_geq le_mod_geq)
    ultimately show ?thesis
      using False Cons.prems by (simp add: nth_append)
  qed
qed simp

lemma slice_concat_unit:
  assumes "\<forall>x \<in> set xs. length x = k" "i < length xs"
  shows "slice (concat xs) (i * k) k = xs ! i"
  using assms
proof (induction xs arbitrary: i)
  case (Cons x xs)
  then show ?case
    by (cases i) (simp_all add: slice_def drop_append add.commute)
qed simp

lemma concat_slices: "k * n \<le> length b \<Longrightarrow> concat (map (\<lambda>i. slice b (i * n) n) [0..<k]) = take (k * n) b"
proof (induction k)
  case (Suc k)
  then show ?case
    by (simp add: slice_def add.commute [of n] take_add)
qed simp

text \<open>Sequences of element writes \<open>d[i] = v\<close>, and of bit-setting writes \<open>d[i] |= v\<close>.\<close>

definition scatter :: "(nat \<times> 'a) list \<Rightarrow> 'a list \<Rightarrow> 'a list" where
  "scatter us d = foldl (\<lambda>d (i, v). d[i := v]) d us"

definition or_scatter :: "(nat \<times> byte) list \<Rightarrow> bytes \<Rightarrow> bytes" where
  "or_scatter us d = foldl (\<lambda>d (i, v). d[i := or (d ! i) v]) d us"

lemma scatter_simps [simp]:
  "scatter [] d = d" "scatter ((i, v) # us) d = scatter us (d[i := v])"
  by (simp_all add: scatter_def)

lemma or_scatter_simps [simp]:
  "or_scatter [] d = d" "or_scatter ((i, v) # us) d = or_scatter us (d[i := or (d ! i) v])"
  by (simp_all add: or_scatter_def)

lemma length_scatter [simp]: "length (scatter us d) = length d"
  by (induction us arbitrary: d) auto

lemma length_or_scatter [simp]: "length (or_scatter us d) = length d"
  by (induction us arbitrary: d) auto

lemma scatter_other: "i \<notin> fst ` set us \<Longrightarrow> scatter us d ! i = d ! i"
  by (induction us arbitrary: d) auto

lemma scatter_nth:
  assumes "distinct (map fst us)" "(i, v) \<in> set us" "i < length d"
  shows "scatter us d ! i = v"
  using assms
proof (induction us arbitrary: d)
  case (Cons u us)
  obtain j w where u: "u = (j, w)" by (cases u)
  show ?case
  proof (cases "(i, v) = u")
    case True
    then show ?thesis
      using Cons.prems u by (simp add: scatter_other)
  next
    case False
    then show ?thesis
      unfolding u using Cons u by (auto intro: Cons.IH)
  qed
qed simp

lemma bit_or_scatter_nth:
  "p < length d \<Longrightarrow> bit (or_scatter us d ! p) n \<longleftrightarrow>
   bit (d ! p) n \<or> (\<exists>v. (p, v) \<in> set us \<and> bit v n)"
proof (induction us arbitrary: d)
  case (Cons u us)
  obtain j w where u: "u = (j, w)" by (cases u)
  show ?case
    using Cons by (cases "j = p") (auto simp: u bit_or_iff)
qed simp

lemma uniform_index:
  fixes k :: nat
  shows "i < n * k \<Longrightarrow> i div k < n \<and> i mod k < k"
  by (cases k) (auto simp: less_mult_imp_div_less)

lemma pair_code_inj:
  fixes k :: nat
  shows "r < k \<Longrightarrow> r' < k \<Longrightarrow> q * k + r = q' * k + r' \<Longrightarrow> q = q' \<and> r = r'"
  by (metis add.commute add_right_imp_eq div_less div_mult_self3 less_nat_zero_code
      mod_less mod_mult_self3 nat_add_left_cancel_less zero_less_iff_neq_zero plus_nat.add_0)

subsection \<open>Lemmas on little-endian integers\<close>

lemma length_le_bytes [simp]: "length (le_bytes n v) = n"
  by (induction n arbitrary: v) auto

lemma le_val_le_bytes [le_simps]: "le_val (le_bytes n v) = v mod 256 ^ n"
proof (induction n arbitrary: v)
  case (Suc n)
  have "unat (of_nat v :: byte) = v mod 256"
    by (simp add: unat_of_nat)
  then show ?case
    using Suc by (simp add: mod_mult2_eq mult.commute add.commute)
qed simp

lemma le_val_bound: "le_val bs < 256 ^ length bs"
proof (induction bs)
  case (Cons b bs)
  have "unat b < 256"
    using unsigned_less [of b] by simp
  with Cons show ?case
    by simp
qed simp

lemma le_bytes_le_val [le_simps]: "length bs = n \<Longrightarrow> le_bytes n (le_val bs) = bs"
proof (induction bs arbitrary: n)
  case (Cons b bs)
  have b: "unat b < 256"
    using unsigned_less [of b] by simp
  have "(of_nat (unat b + 256 * le_val bs) :: byte) = of_nat (unat b)"
    by (simp only: word_unat_eq_iff unat_of_nat) simp
  then have "(of_nat (unat b + 256 * le_val bs) :: byte) = b"
    by simp
  moreover have "(unat b + 256 * le_val bs) div 256 = le_val bs"
    using b by simp
  ultimately show ?case
    using Cons by (auto simp del: of_nat_add of_nat_mult)
qed simp

lemma unat_mod_width [simp]:
  "unat (x :: u64) mod 18446744073709551616 = unat x"
  "unat (y :: u32) mod 4294967296 = unat y"
  "unat (z :: u16) mod 65536 = unat z"
  using unsigned_less [of x, where ?'a = nat] unsigned_less [of y, where ?'a = nat]
    unsigned_less [of z, where ?'a = nat] by simp_all

lemma unat_mult_small: "a * u < 2 ^ 64 \<Longrightarrow> unat (of_nat a * of_nat u :: u64) = a * u"
  by (simp only: of_nat_mult [symmetric] unat_of_nat) simp

lemma unat_of_nat_small: "a < 2 ^ 64 \<Longrightarrow> unat (of_nat a :: u64) = a"
  by (simp add: unat_of_nat)

lemma ucast_u32_u64 [simp]: "ucast (ucast (x :: u32) :: u64) = x"
  by (rule bit_word_eqI) (simp add: bit_ucast_iff)

subsection \<open>Lemmas on text\<close>

lemma unat_char_byte [simp]: "unat (char_byte c) = of_char c"
proof -
  have "char_byte c = of_nat (of_char c)"
    by (simp add: char_byte_def of_nat_of_char)
  then show ?thesis
    using nat_of_char_less_256 [of c] by (simp only: unat_of_nat) simp
qed

lemma char_byte_inj: "char_byte c = char_byte d \<longleftrightarrow> c = d"
  by (metis unat_char_byte of_char_eq_iff)

lemma length_str_bytes [simp]: "length (str_bytes s) = length s"
  by (simp add: str_bytes_def)

lemma str_bytes_inj: "str_bytes s = str_bytes t \<Longrightarrow> s = t"
  unfolding str_bytes_def by (rule map_injective) (auto simp: inj_on_def char_byte_inj)

lemma dec_string_nonempty [simp]: "dec_string n \<noteq> []"
  by (subst dec_string.simps) simp

lemma digit_char_inj: "d < 10 \<Longrightarrow> e < 10 \<Longrightarrow> digit_char d = digit_char e \<Longrightarrow> d = e"
  unfolding digit_char_def
  by (drule arg_cong [where f = "of_char :: char \<Rightarrow> nat"]) simp

lemma of_char_digit_char: "d < 10 \<Longrightarrow> (of_char (digit_char d) :: nat) = 48 + d"
  by (simp add: digit_char_def)

lemma set_dec_string: "set (dec_string n) \<subseteq> digit_char ` {0..<10}"
proof (induction n rule: dec_string.induct)
  case (1 n)
  show ?case
  proof (cases "n < 10")
    case True
    then show ?thesis by (subst dec_string.simps) simp
  next
    case False
    with 1 have "set (dec_string (n div 10)) \<subseteq> digit_char ` {0..<10}" by simp
    with False show ?thesis by (subst dec_string.simps) auto
  qed
qed

lemma dec_string_inj: "dec_string n = dec_string m \<Longrightarrow> n = m"
proof (induction n arbitrary: m rule: dec_string.induct)
  case (1 n)
  have len1: "length (dec_string k) = 1 \<longleftrightarrow> k < 10" for k
    by (subst dec_string.simps) (auto simp: length_Suc_conv)
  show ?case
  proof (cases "n < 10")
    case True
    with 1(2) have "m < 10" using len1 by metis
    with True 1(2) show ?thesis
      by (simp add: dec_string.simps digit_char_inj)
  next
    case False
    with 1(2) have m: "\<not> m < 10" using len1 by metis
    from False m 1(2) have "dec_string (n div 10) = dec_string (m div 10)"
      and "digit_char (n mod 10) = digit_char (m mod 10)"
      by (auto simp: dec_string.simps [of n] dec_string.simps [of m])
    then have "n div 10 = m div 10" "n mod 10 = m mod 10"
      using 1(1) False by (auto intro: digit_char_inj)
    then show ?thesis by (metis div_mult_mod_eq)
  qed
qed

lemma length_dec_string: "n < 10 ^ Suc k \<Longrightarrow> length (dec_string n) \<le> Suc k"
proof (induction k arbitrary: n)
  case 0
  then show ?case by (simp add: dec_string.simps)
next
  case (Suc k)
  then have "n div 10 < 10 ^ Suc k"
    by (simp add: less_mult_imp_div_less)
  then have "length (dec_string (n div 10)) \<le> Suc k"
    by (rule Suc.IH)
  then show ?case by (subst dec_string.simps) simp
qed

end
