(* ===== verification/Core_Error.thy ===== *)
theory Core_Error
  imports Prelude
begin

section \<open>The error taxonomy and fallible results\<close>

text \<open>
  \<open>src/modules/core/include/synapsefs/core/error.hpp\<close> and \<open>error.cpp\<close>: the one error type of the
  system, the integrity predicate and the exit codes. \<open>'a res\<close> is what a call of the code can
  end in: \<open>Ok\<close> and \<open>Err\<close> are the two sides of \<open>std::expected\<close>; \<open>Abort\<close> collects the endings
  that are not values of the source, namely an exception that no handler of the function
  catches (\<open>Throw\<close>), an access outside a buffer or another undefined operation (\<open>UB\<close>), and a
  recursion of the model that reached its bound (\<open>NoFuel\<close>). The one-line human text of an
  error (\<open>Error::what\<close>) is read by no code and is not modelled; the context is.
\<close>

datatype ErrKind =
    Ok_kind
  | Io | NoSuchFile | PermissionDenied | NoSpace | Interrupted
  | NotARepository | RepositoryLocked | UnsupportedFormatVersion
  | RefNotFound | RefRaceLost | NotFastForward
  | ObjectNotFound | ObjectKindMismatch | MalformedObject | CanonicalizationMismatch
  | HashMismatch | ChunkDigestMismatch | FrameDigestMismatch
  | AncestorInvariantViolated | JournalTorn
  | NotSafetensors | UnsupportedDType | ShapeMismatch | TensorNotInBufferLayout
  | TopologyParse | TopologyIncomplete | BlockFactorMismatch
  | NotAlignable | InvalidPermutation
  | ChainTooDeep | MergeConflict
  | MountFailed | ReadOnlyFilesystem
  | ProtocolVersion | MalformedFrame | ConnectionLost | PeerError
  | NotImplemented | Cancelled | Internal

record error =
  ekind :: ErrKind
  econtext :: string

datatype abort = Throw | UB | NoFuel

datatype 'a res = Ok 'a | Err error | Abort abort

abbreviation SFS_ERR :: "ErrKind \<Rightarrow> string \<Rightarrow> 'a res" where
  "SFS_ERR k ctx \<equiv> Err \<lparr>ekind = k, econtext = ctx\<rparr>"

text \<open>The macro \<open>SFS_TRY\<close>: unwrap on success, return the failure otherwise.\<close>

primrec SFS_TRY :: "'a res \<Rightarrow> ('a \<Rightarrow> 'b res) \<Rightarrow> 'b res" where
  "SFS_TRY (Ok x) f = f x"
| "SFS_TRY (Err e) f = Err e"
| "SFS_TRY (Abort a) f = Abort a"

primrec is_Ok :: "'a res \<Rightarrow> bool" where
  "is_Ok (Ok x) = True"
| "is_Ok (Err e) = False"
| "is_Ok (Abort a) = False"

fun is_integrity :: "ErrKind \<Rightarrow> bool" where
  "is_integrity HashMismatch = True"
| "is_integrity ChunkDigestMismatch = True"
| "is_integrity FrameDigestMismatch = True"
| "is_integrity AncestorInvariantViolated = True"
| "is_integrity JournalTorn = True"
| "is_integrity _ = False"

definition exit_code :: "error \<Rightarrow> int" where
  "exit_code e =
     (if is_integrity (ekind e) then 4
      else case ekind e of
        Ok_kind \<Rightarrow> 0
      | NotARepository \<Rightarrow> 3
      | MergeConflict \<Rightarrow> 5
      | RepositoryLocked \<Rightarrow> 6
      | NotImplemented \<Rightarrow> 7
      | ProtocolVersion \<Rightarrow> 8
      | MalformedFrame \<Rightarrow> 8
      | ConnectionLost \<Rightarrow> 8
      | PeerError \<Rightarrow> 8
      | _ \<Rightarrow> 1)"

datatype errc = no_such_file_or_directory | permission_denied | no_space_on_device | interrupted | other_errc

definition from_errno :: "errc \<Rightarrow> string \<Rightarrow> error" where
  "from_errno ec context =
     \<lparr>ekind = (if ec = no_such_file_or_directory then NoSuchFile
               else if ec = permission_denied then PermissionDenied
               else if ec = no_space_on_device then NoSpace
               else if ec = interrupted then Interrupted
               else Io),
      econtext = context\<rparr>"

text \<open>Facts on \<open>SFS_TRY\<close> that every fallible composition uses.\<close>

lemma SFS_TRY_Ok_iff: "SFS_TRY m f = Ok y \<longleftrightarrow> (\<exists>x. m = Ok x \<and> f x = Ok y)"
  by (cases m) auto

lemma SFS_TRY_OkE [elim!]:
  assumes "SFS_TRY m f = Ok y"
  obtains x where "m = Ok x" "f x = Ok y"
  using assms by (auto simp: SFS_TRY_Ok_iff)

lemma SFS_TRY_not_UB: "SFS_TRY m f \<noteq> Abort UB \<longleftrightarrow> m \<noteq> Abort UB \<and> (\<forall>x. m = Ok x \<longrightarrow> f x \<noteq> Abort UB)"
  by (cases m) auto

lemma SFS_TRY_cong [fundef_cong]:
  "m = m' \<Longrightarrow> (\<And>x. m' = Ok x \<Longrightarrow> f x = g x) \<Longrightarrow> SFS_TRY m f = SFS_TRY m' g"
  by (cases m') auto

text \<open>
  Note: \<open>sfs\<close> exits with status 4 exactly on an integrity failure, with 0 exactly on no failure, and
  otherwise with one of the documented statuses; so a caller that reads the status can tell
  "the data is wrong" from "the program failed".
\<close>

theorem exit_code_separates_integrity:
  "(exit_code e = 4 \<longleftrightarrow> is_integrity (ekind e)) \<and>
   (exit_code e = 0 \<longleftrightarrow> ekind e = Ok_kind) \<and>
   exit_code e \<in> {0, 1, 3, 4, 5, 6, 7, 8}"
  by (cases "ekind e") (simp_all add: exit_code_def)

end
