(* ===== verification/Core_Oid.thy ===== *)
theory Core_Oid
  imports Core_Error
begin

section \<open>Object identifiers and content addresses\<close>

text \<open>
  \<open>src/modules/core/src/oid.cpp\<close>. An \<open>Oid\<close> is 32 raw bytes; \<open>wf_oid\<close> is what the C++ type
  \<open>std::array<std::byte, 32>\<close> fixes. BLAKE3 is third-party code and is the parameter
  \<open>blake3\<close> of every definition that hashes; the streaming \<open>Hasher\<close> is the hash of the
  concatenation of what it was fed. The main results: the frame that is hashed determines the
  kind and the payload, and the textual and path forms of an oid are inverse to parsing.
\<close>

unbundle bit_operations_syntax

datatype ObjectKind = KRaw | KDiff | KHeader | KManifest | KCommit | KTopology | KTree

type_synonym Oid = bytes

definition kOidBytes :: nat where "kOidBytes = 32"
definition kOidHexChars :: nat where "kOidHexChars = 64"
definition kAbbrevChars :: nat where "kAbbrevChars = 12"

definition wf_oid :: "Oid \<Rightarrow> bool" where
  "wf_oid oid \<longleftrightarrow> length oid = kOidBytes"

primrec kind_tag :: "ObjectKind \<Rightarrow> string" where
  "kind_tag KRaw = ''raw''"
| "kind_tag KDiff = ''diff''"
| "kind_tag KHeader = ''header''"
| "kind_tag KManifest = ''manifest''"
| "kind_tag KCommit = ''commit''"
| "kind_tag KTopology = ''topology''"
| "kind_tag KTree = ''tree''"

definition object_kind_from_string :: "string \<Rightarrow> ObjectKind res" where
  "object_kind_from_string s =
     (if s = ''raw'' then Ok KRaw
      else if s = ''diff'' then Ok KDiff
      else if s = ''header'' then Ok KHeader
      else if s = ''manifest'' then Ok KManifest
      else if s = ''commit'' then Ok KCommit
      else if s = ''topology'' then Ok KTopology
      else if s = ''tree'' then Ok KTree
      else SFS_ERR MalformedObject s)"

definition hex_nibble :: "char \<Rightarrow> int" where
  "hex_nibble ch =
     (let c = of_char ch :: int
      in if 48 \<le> c \<and> c \<le> 57 then c - 48
         else if 97 \<le> c \<and> c \<le> 102 then c - 97 + 10
         else if 65 \<le> c \<and> c \<le> 70 then c - 65 + 10
         else -1)"

definition kHex :: string where "kHex = ''0123456789abcdef''"

definition hex_byte :: "byte \<Rightarrow> string" where
  "hex_byte v = [kHex ! unat (drop_bit 4 v), kHex ! unat (v AND 15)]"

definition hex_bytes :: "bytes \<Rightarrow> string" where
  "hex_bytes bs = concat (map hex_byte bs)"

text \<open>\<open>snprintf(buf, 40, "%s%.*s %llu", ...)\<close> writes at most 39 characters and returns the full length.\<close>

definition frame_prefix_text :: "ObjectKind \<Rightarrow> u64 \<Rightarrow> string" where
  "frame_prefix_text kind len = ''synapsefs.'' @ kind_tag kind @ '' '' @ dec_string (unat len)"

text \<open>
  \<open>write_frame_prefix\<close> returns the bytes it put at the front of \<open>out\<close>; the result 0 of the code is
  the empty list. When the text does not fit the 40-byte stack buffer, the copy of \<open>n\<close> bytes
  out of it would read past its end.
\<close>

definition write_frame_prefix :: "ObjectKind \<Rightarrow> u64 \<Rightarrow> nat \<Rightarrow> bytes res" where
  "write_frame_prefix kind len out_size =
     (let txt = frame_prefix_text kind len; n = length txt; total = n + 1
      in if out_size < total then Ok []
         else if 40 < n then Abort UB
         else Ok (str_bytes (take 39 txt) @ (if n = 40 then [0] else []) @ [0]))"

text \<open>\<open>Oid::parse\<close>: the loop over the 32 pairs of hex digits.\<close>

fun parse_hex_pairs :: "string \<Rightarrow> bytes option" where
  "parse_hex_pairs [] = Some []"
| "parse_hex_pairs [c] = None"
| "parse_hex_pairs (h # l # rest) =
     (let hi = hex_nibble h; lo = hex_nibble l
      in if hi < 0 \<or> lo < 0 then None
         else map_option ((#) (push_bit 4 (of_int hi) OR of_int lo)) (parse_hex_pairs rest))"

definition oid_parse :: "string \<Rightarrow> Oid res" where
  "oid_parse s =
     (if length s \<noteq> 3 + kOidHexChars \<or> take 3 s \<noteq> ''b3:''
      then SFS_ERR MalformedObject s
      else case parse_hex_pairs (drop 3 s) of
        None \<Rightarrow> SFS_ERR MalformedObject s
      | Some bs \<Rightarrow> Ok bs)"

definition oid_from_bytes :: "bytes \<Rightarrow> Oid res" where
  "oid_from_bytes b = (if length b \<noteq> kOidBytes then SFS_ERR MalformedObject [] else Ok b)"

definition oid_to_string :: "Oid \<Rightarrow> string" where
  "oid_to_string oid = ''b3:'' @ hex_bytes oid"

definition oid_abbrev :: "Oid \<Rightarrow> string" where
  "oid_abbrev oid = take (3 + kAbbrevChars) (oid_to_string oid)"

definition oid_fanout_path :: "Oid \<Rightarrow> string" where
  "oid_fanout_path oid = hex_byte (oid ! 0) @ ''/'' @ hex_bytes (drop 1 oid)"

definition oid_is_null :: "Oid \<Rightarrow> bool" where
  "oid_is_null oid \<longleftrightarrow> list_all (\<lambda>b. b = 0) oid"

definition null_oid :: Oid where
  "null_oid = replicate kOidBytes 0"

text \<open>\<open>Hasher::begin_frame\<close>, \<open>update\<close>, \<open>finish\<close>: the fed bytes, hashed at the end.\<close>

definition begin_frame :: "ObjectKind \<Rightarrow> u64 \<Rightarrow> bytes" where
  "begin_frame kind payload_len =
     (case write_frame_prefix kind payload_len 40 of Ok p \<Rightarrow> p | _ \<Rightarrow> [])"

definition hasher_update :: "bytes \<Rightarrow> bytes \<Rightarrow> bytes" where
  "hasher_update fed data = fed @ data"

definition compute_oid :: "(bytes \<Rightarrow> bytes) \<Rightarrow> ObjectKind \<Rightarrow> bytes \<Rightarrow> Oid" where
  "compute_oid blake3 kind payload =
     blake3 (hasher_update (begin_frame kind (of_nat (length payload))) payload)"

definition digest :: "(bytes \<Rightarrow> bytes) \<Rightarrow> bytes \<Rightarrow> bytes" where
  "digest blake3 data = blake3 data"

subsection \<open>The frame prefix\<close>

lemma length_kind_tag: "length (kind_tag k) \<le> 8"
  by (cases k) simp_all

lemma length_frame_prefix_text: "length (frame_prefix_text k len) \<le> 39"
proof -
  have "unat len < 10 ^ Suc 19"
    using unsigned_less [of len, where ?'a = nat] by simp
  then have "length (dec_string (unat len)) \<le> 20"
    using length_dec_string [of "unat len" 19] by simp
  then show ?thesis
    using length_kind_tag [of k] by (simp add: frame_prefix_text_def)
qed

lemma write_frame_prefix_40:
  "write_frame_prefix k len 40 = Ok (str_bytes (frame_prefix_text k len) @ [0])"
  using length_frame_prefix_text [of k len] by (simp add: write_frame_prefix_def Let_def)

lemma begin_frame_eq: "begin_frame k len = str_bytes (frame_prefix_text k len) @ [0]"
  by (simp add: begin_frame_def write_frame_prefix_40)

text \<open>
  Note: with the documented 40 bytes of room the frame prefix of any kind and any 64-bit length is
  written whole: it is the text \<open>synapsefs.<kind> <len>\<close> and its NUL, at most 40 bytes, never
  truncated by the 40-byte stack buffer and never the failure result 0.
\<close>

theorem write_frame_prefix_fits:
  "write_frame_prefix k len 40 = Ok (str_bytes (frame_prefix_text k len) @ [0]) \<and>
   length (str_bytes (frame_prefix_text k len) @ [0]) \<le> 40"
  using length_frame_prefix_text [of k len] by (simp add: write_frame_prefix_40 str_bytes_def)

subsection \<open>Frames determine kind and payload\<close>

lemma kind_tag_inj: "kind_tag k = kind_tag k' \<longleftrightarrow> k = k'"
  by (cases k; cases k') simp_all

lemma space_notin_kind_tag: "CHR '' '' \<notin> set (kind_tag k)"
  by (cases k) simp_all

lemma split_at_first:
  "a @ c # x = b @ c # y \<Longrightarrow> c \<notin> set a \<Longrightarrow> c \<notin> set b \<Longrightarrow> a = b \<and> x = y"
proof (induction a arbitrary: b)
  case Nil
  then show ?case by (cases b) auto
next
  case (Cons z a)
  then show ?case by (cases b) auto
qed

lemma frame_prefix_text_inj:
  assumes "frame_prefix_text k n = frame_prefix_text k' n'"
  shows "k = k' \<and> n = n'"
proof -
  have "kind_tag k @ CHR '' '' # dec_string (unat n) = kind_tag k' @ CHR '' '' # dec_string (unat n')"
    using assms by (simp add: frame_prefix_text_def)
  then have "kind_tag k = kind_tag k'" and d: "dec_string (unat n) = dec_string (unat n')"
    using split_at_first space_notin_kind_tag by metis+
  moreover from dec_string_inj [OF d] have "n = n'"
    by (simp add: word_unat_eq_iff)
  ultimately show ?thesis
    by (simp add: kind_tag_inj)
qed

lemma zero_notin_frame_prefix_text: "0 \<notin> set (str_bytes (frame_prefix_text k n))"
proof -
  have "c \<in> set (frame_prefix_text k n) \<Longrightarrow> (of_char c :: nat) \<noteq> 0" for c
    using set_dec_string [of "unat n"]
    by (cases k) (auto simp: frame_prefix_text_def of_char_digit_char)
  moreover have "char_byte c = 0 \<Longrightarrow> (of_char c :: nat) = 0" for c
    using unat_char_byte [of c] by simp
  ultimately show ?thesis
    by (fastforce simp: str_bytes_def)
qed

text \<open>
  Note: the bytes that are hashed for an object determine its kind and its payload, so two different
  objects, in particular the same bytes stored under two kinds, can share an address only
  through a collision of the hash itself.
\<close>

theorem frame_injective:
  "begin_frame k (of_nat (length p)) @ p = begin_frame k' (of_nat (length p')) @ p' \<longleftrightarrow> k = k' \<and> p = p'"
proof
  assume "begin_frame k (of_nat (length p)) @ p = begin_frame k' (of_nat (length p')) @ p'"
  then have "str_bytes (frame_prefix_text k (of_nat (length p))) @ 0 # p =
        str_bytes (frame_prefix_text k' (of_nat (length p'))) @ 0 # p'"
    by (simp add: begin_frame_eq)
  from split_at_first [OF this zero_notin_frame_prefix_text zero_notin_frame_prefix_text]
  have eq: "str_bytes (frame_prefix_text k (of_nat (length p))) =
      str_bytes (frame_prefix_text k' (of_nat (length p')))" and p: "p = p'"
    by (rule conjunct1, rule conjunct2)
  show "k = k' \<and> p = p'"
    using frame_prefix_text_inj [OF str_bytes_inj [OF eq]] p by simp
qed auto

subsection \<open>Text forms of an oid\<close>

lemma hex_nibble_kHex: "n < 16 \<Longrightarrow> hex_nibble (kHex ! n) = int n"
proof -
  have "list_all (\<lambda>n. hex_nibble (kHex ! n) = int n) [0..<16]"
    by code_simp
  then show "n < 16 \<Longrightarrow> hex_nibble (kHex ! n) = int n"
    by (simp add: list_all_iff)
qed

lemma nibbles_join: "push_bit 4 (drop_bit 4 v) OR (v AND 15) = (v :: byte)"
proof (rule bit_eqI)
  fix n
  assume "possible_bit TYPE(byte) n"
  then have n: "n < 8" by simp
  have "bit (15 :: byte) n \<longleftrightarrow> n < 4"
    using bit_mask_iff [of 4 n, where ?'a = byte] by (auto simp: mask_eq_decr_exp)
  then show "bit (push_bit 4 (drop_bit 4 v) OR (v AND 15)) n = bit v n"
    using n by (auto simp: bit_simps)
qed

lemma unat_nibbles: "unat (drop_bit 4 (v :: byte)) < 16" "unat ((v :: byte) AND 15) < 16"
proof -
  have "unat v < 256"
    using unsigned_less [of v, where ?'a = nat] by simp
  then show "unat (drop_bit 4 v) < 16"
    by (simp add: drop_bit_eq_div unat_div)
  have "unat (v AND 15) \<le> unat (15 :: byte)"
    by (rule word_le_nat_alt [THEN iffD1]) (rule word_and_le1)
  then show "unat (v AND 15) < 16" by simp
qed

lemma parse_hex_byte:
  "parse_hex_pairs (hex_byte v @ rest) = map_option ((#) v) (parse_hex_pairs rest)"
  by (simp add: hex_byte_def hex_nibble_kHex unat_nibbles nibbles_join)

lemma parse_hex_bytes [simp]: "parse_hex_pairs (hex_bytes bs) = Some bs"
  by (induction bs) (simp_all add: hex_bytes_def parse_hex_byte)

lemma length_hex_byte [simp]: "length (hex_byte v) = 2"
  by (simp add: hex_byte_def)

lemma length_hex_bytes [simp]: "length (hex_bytes bs) = 2 * length bs"
  by (induction bs) (simp_all add: hex_bytes_def)

lemma parse_hex_pairs_length: "parse_hex_pairs s = Some bs \<Longrightarrow> length s = 2 * length bs"
  by (induction s arbitrary: bs rule: parse_hex_pairs.induct) (auto simp: Let_def split: if_splits)

lemma oid_parse_to_string [simp]: "wf_oid oid \<Longrightarrow> oid_parse (oid_to_string oid) = Ok oid"
  by (simp add: oid_parse_def oid_to_string_def wf_oid_def kOidBytes_def kOidHexChars_def)

lemma oid_parse_wf: "oid_parse s = Ok oid \<Longrightarrow> wf_oid oid"
  by (auto simp: oid_parse_def wf_oid_def kOidBytes_def kOidHexChars_def
      dest!: parse_hex_pairs_length split: if_splits option.splits)

lemma oid_parse_not_Abort [simp]: "oid_parse s \<noteq> Abort a"
  by (auto simp: oid_parse_def split: if_splits option.splits)

lemma oid_fanout_rejoin:
  assumes "wf_oid oid"
  shows "take 2 (oid_fanout_path oid) @ drop 3 (oid_fanout_path oid) = hex_bytes oid"
  using assms
  by (cases oid) (simp_all add: oid_fanout_path_def hex_bytes_def wf_oid_def kOidBytes_def hex_byte_def)

lemma oid_fanout_inj: "wf_oid a \<Longrightarrow> wf_oid b \<Longrightarrow> oid_fanout_path a = oid_fanout_path b \<longleftrightarrow> a = b"
  by (metis oid_fanout_rejoin option.inject parse_hex_bytes)

text \<open>
  Note: the two persistent names of an object are faithful. Printing an oid and parsing it back gives
  the oid; whatever parses has exactly 32 bytes; and the fan-out path on disk, rejoined the way
  the directory scan of the store and of abbreviation lookup does it, parses to the oid it was made
  from.
\<close>

theorem oid_text_roundtrip:
  assumes "wf_oid oid"
  shows "oid_parse (oid_to_string oid) = Ok oid \<and>
    oid_parse (''b3:'' @ take 2 (oid_fanout_path oid) @ drop 3 (oid_fanout_path oid)) = Ok oid \<and>
    (\<forall>s oid'. oid_parse s = Ok oid' \<longrightarrow> wf_oid oid')"
proof -
  have "oid_parse (''b3:'' @ hex_bytes oid) = Ok oid"
    using oid_parse_to_string [OF assms] by (simp add: oid_to_string_def)
  then show ?thesis
    using oid_parse_wf oid_parse_to_string [OF assms] by (simp add: oid_fanout_rejoin [OF assms])
qed

theorem oid_text_roundtrip_witness:
  "oid_parse (oid_to_string (replicate 32 171)) = Ok (replicate 32 171) \<and>
   oid_to_string (replicate 32 171) = ''b3:'' @ concat (replicate 32 ''ab'')"
proof -
  have "wf_oid (replicate 32 171)"
    by (simp add: wf_oid_def kOidBytes_def)
  moreover have "hex_byte 171 = ''ab''"
    by code_simp
  ultimately show ?thesis
    using oid_text_roundtrip [of "replicate 32 171"]
    by (simp add: oid_to_string_def hex_bytes_def)
qed

end
