(* ===== verification/Core_Tensor.thy ===== *)
theory Core_Tensor
  imports Core_Oid
begin

section \<open>Element types, tensors and permutation groups\<close>

text \<open>
  \<open>src/modules/core\<close>: \<open>dtype\<close>, \<open>endian\<close>, \<open>tensor\<close> and \<open>topology\<close>. Shapes, offsets and byte counts
  keep their 64-bit width; entries of a permutation are natural numbers with the 32-bit
  wrap-around of \<open>expand_permutation\<close> written out. An \<open>unordered_map\<close> is the association list of its
  entries in iteration order. The main results: \<open>is_valid_permutation\<close> decides "bijection on
  \<open>[0, n)\<close>", \<open>invert_permutation\<close> inverts, \<open>expand_permutation\<close> of a bijection along a validated
  axis is a bijection of that axis, and \<open>to_runs\<close> loses no index.
\<close>

subsection \<open>Element types\<close>

datatype DType = F16 | BF16 | F32 | F64 | I8 | I16 | I32 | I64 | U8 | U16 | U32 | U64 | Bool

primrec dtype_to_string :: "DType \<Rightarrow> string" where
  "dtype_to_string F16 = ''F16''"
| "dtype_to_string BF16 = ''BF16''"
| "dtype_to_string F32 = ''F32''"
| "dtype_to_string F64 = ''F64''"
| "dtype_to_string I8 = ''I8''"
| "dtype_to_string I16 = ''I16''"
| "dtype_to_string I32 = ''I32''"
| "dtype_to_string I64 = ''I64''"
| "dtype_to_string U8 = ''U8''"
| "dtype_to_string U16 = ''U16''"
| "dtype_to_string U32 = ''U32''"
| "dtype_to_string U64 = ''U64''"
| "dtype_to_string Bool = ''BOOL''"

definition dtype_from_string :: "string \<Rightarrow> DType res" where
  "dtype_from_string s =
     (if s = ''F16'' then Ok F16
      else if s = ''BF16'' then Ok BF16
      else if s = ''F32'' then Ok F32
      else if s = ''F64'' then Ok F64
      else if s = ''I8'' then Ok I8
      else if s = ''I16'' then Ok I16
      else if s = ''I32'' then Ok I32
      else if s = ''I64'' then Ok I64
      else if s = ''U8'' then Ok U8
      else if s = ''U16'' then Ok U16
      else if s = ''U32'' then Ok U32
      else if s = ''U64'' then Ok U64
      else if s = ''BOOL'' then Ok Bool
      else SFS_ERR UnsupportedDType s)"

primrec dtype_size :: "DType \<Rightarrow> nat" where
  "dtype_size Bool = 1"
| "dtype_size I8 = 1"
| "dtype_size U8 = 1"
| "dtype_size F16 = 2"
| "dtype_size BF16 = 2"
| "dtype_size I16 = 2"
| "dtype_size U16 = 2"
| "dtype_size F32 = 4"
| "dtype_size I32 = 4"
| "dtype_size U32 = 4"
| "dtype_size F64 = 8"
| "dtype_size I64 = 8"
| "dtype_size U64 = 8"

definition is_float :: "DType \<Rightarrow> bool" where
  "is_float d \<longleftrightarrow> d = F16 \<or> d = BF16 \<or> d = F32 \<or> d = F64"

subsection \<open>Little-endian fields of a buffer\<close>

definition load_le_u16 :: "bytes \<Rightarrow> nat \<Rightarrow> u16" where
  "load_le_u16 b off = of_nat (le_val (slice b off 2))"

definition load_le_u32 :: "bytes \<Rightarrow> nat \<Rightarrow> u32" where
  "load_le_u32 b off = of_nat (le_val (slice b off 4))"

definition load_le_u64 :: "bytes \<Rightarrow> nat \<Rightarrow> u64" where
  "load_le_u64 b off = of_nat (le_val (slice b off 8))"

definition store_le_u16 :: "bytes \<Rightarrow> nat \<Rightarrow> u16 \<Rightarrow> bytes" where
  "store_le_u16 b off v = memcpy_at b off (le_bytes 2 (unat v))"

definition store_le_u32 :: "bytes \<Rightarrow> nat \<Rightarrow> u32 \<Rightarrow> bytes" where
  "store_le_u32 b off v = memcpy_at b off (le_bytes 4 (unat v))"

definition store_le_u64 :: "bytes \<Rightarrow> nat \<Rightarrow> u64 \<Rightarrow> bytes" where
  "store_le_u64 b off v = memcpy_at b off (le_bytes 8 (unat v))"

subsection \<open>Tensors\<close>

record BufferEntry =
  be_tensor :: string
  be_off :: u64
  be_nbytes :: u64
  be_group :: string

record TensorMeta =
  shape_owner :: string
  tm_shape :: "u64 list"
  tm_dtype :: DType
  data_off :: u64
  tm_nbytes :: u64

definition elem_count :: "TensorMeta \<Rightarrow> u64" where
  "elem_count m = (if tm_shape m = [] then 0 else foldl (*) 1 (tm_shape m))"

definition unit_bytes :: "TensorMeta \<Rightarrow> nat \<Rightarrow> u64 res" where
  "unit_bytes m dim =
     (if dim \<ge> length (tm_shape m) then SFS_ERR ShapeMismatch (shape_owner m)
      else let units = tm_shape m ! dim
           in if units = 0 then SFS_ERR ShapeMismatch (shape_owner m)
              else if tm_nbytes m mod units \<noteq> 0 then SFS_ERR ShapeMismatch (shape_owner m)
              else Ok (tm_nbytes m div units))"

record UnitRun =
  run_first :: nat
  run_count :: nat

text \<open>\<open>to_runs\<close>: the loop carries the open run \<open>(start, count)\<close>.\<close>

fun to_runs_loop :: "nat \<Rightarrow> nat \<Rightarrow> nat list \<Rightarrow> UnitRun list" where
  "to_runs_loop start count [] = [\<lparr>run_first = start, run_count = count\<rparr>]"
| "to_runs_loop start count (i # is) =
     (if i = start + count then to_runs_loop start (count + 1) is
      else \<lparr>run_first = start, run_count = count\<rparr> # to_runs_loop i 1 is)"

definition to_runs :: "nat list \<Rightarrow> UnitRun list" where
  "to_runs indices = (case indices of [] \<Rightarrow> [] | i # is \<Rightarrow> to_runs_loop i 1 is)"

subsection \<open>Topology\<close>

record PermGroup =
  pg_size :: u32
  pinned :: bool

record AxisBinding =
  ax_dim :: nat
  ax_group :: string
  ax_block :: u32

record Topology =
  topo_groups :: "(string \<times> PermGroup) list"
  topo_tensors :: "(string \<times> AxisBinding list) list"

definition topo_find_group :: "Topology \<Rightarrow> string \<Rightarrow> PermGroup option" where
  "topo_find_group topo name = map_of (topo_groups topo) name"

fun validate_groups :: "(string \<times> PermGroup) list \<Rightarrow> unit res" where
  "validate_groups [] = Ok ()"
| "validate_groups ((group_name, g) # rest) =
     (if pg_size g = 0 then SFS_ERR TopologyParse group_name else validate_groups rest)"

fun validate_axes :: "Topology \<Rightarrow> string \<Rightarrow> u64 list \<Rightarrow> AxisBinding list \<Rightarrow> unit res" where
  "validate_axes topo tensor_name shape [] = Ok ()"
| "validate_axes topo tensor_name shape (axis # rest) =
     (if ax_dim axis \<ge> length shape then SFS_ERR TopologyParse tensor_name
      else case topo_find_group topo (ax_group axis) of
        None \<Rightarrow> SFS_ERR TopologyParse (ax_group axis)
      | Some g \<Rightarrow>
          if shape ! ax_dim axis \<noteq> ucast (pg_size g) * ucast (ax_block axis)
          then SFS_ERR BlockFactorMismatch (ax_group axis)
          else validate_axes topo tensor_name shape rest)"

fun validate_tensors ::
  "Topology \<Rightarrow> (string \<rightharpoonup> u64 list) \<Rightarrow> (string \<times> AxisBinding list) list \<Rightarrow> unit res" where
  "validate_tensors topo shapes [] = Ok ()"
| "validate_tensors topo shapes ((tensor_name, axes) # rest) =
     (case shapes tensor_name of
        None \<Rightarrow> SFS_ERR TopologyIncomplete tensor_name
      | Some shape \<Rightarrow>
          SFS_TRY (validate_axes topo tensor_name shape axes) (\<lambda>_. validate_tensors topo shapes rest))"

definition topology_validate :: "Topology \<Rightarrow> (string \<rightharpoonup> u64 list) \<Rightarrow> unit res" where
  "topology_validate topo shapes =
     SFS_TRY (validate_groups (topo_groups topo)) (\<lambda>_.
       validate_tensors topo shapes (topo_tensors topo))"

definition expand_permutation :: "nat list \<Rightarrow> nat \<Rightarrow> nat list" where
  "expand_permutation perm block =
     concat (map (\<lambda>p. map (\<lambda>b. (p * block + b) mod 2 ^ 32) [0..<block]) perm)"

fun valid_permutation_loop :: "nat \<Rightarrow> bool list \<Rightarrow> nat list \<Rightarrow> bool" where
  "valid_permutation_loop n seen [] = True"
| "valid_permutation_loop n seen (p # ps) =
     (if p \<ge> n \<or> seen ! p then False else valid_permutation_loop n (seen[p := True]) ps)"

definition is_valid_permutation :: "nat list \<Rightarrow> nat \<Rightarrow> bool" where
  "is_valid_permutation perm n =
     (if length perm \<noteq> n then False else valid_permutation_loop n (replicate n False) perm)"

fun invert_loop :: "nat \<Rightarrow> nat list \<Rightarrow> nat list \<Rightarrow> nat list" where
  "invert_loop i acc [] = acc"
| "invert_loop i acc (p # ps) = invert_loop (i + 1) (acc[p := i]) ps"

definition invert_permutation :: "nat list \<Rightarrow> nat list res" where
  "invert_permutation perm =
     (if list_all (\<lambda>p. p < length perm) perm
      then Ok (invert_loop 0 (replicate (length perm) 0) perm)
      else Abort UB)"

subsection \<open>Little-endian fields round-trip\<close>

lemma load_store_le [le_simps]:
  "off + 2 \<le> length b \<Longrightarrow> load_le_u16 (store_le_u16 b off v16) off = v16"
  "off + 4 \<le> length b \<Longrightarrow> load_le_u32 (store_le_u32 b off v32) off = v32"
  "off + 8 \<le> length b \<Longrightarrow> load_le_u64 (store_le_u64 b off v64) off = v64"
  by (simp_all add: load_le_u16_def store_le_u16_def load_le_u32_def store_le_u32_def
      load_le_u64_def store_le_u64_def memcpy_at_def slice_def le_simps)

lemma dtype_string_roundtrip: "dtype_from_string (dtype_to_string d) = Ok d"
  by (cases d) (simp_all add: dtype_from_string_def)

lemma dtype_size_cases: "dtype_size d \<in> {1, 2, 4, 8}"
  by (cases d) simp_all

subsection \<open>Runs\<close>

definition run_units :: "UnitRun \<Rightarrow> nat list" where
  "run_units r = [run_first r..<run_first r + run_count r]"

lemma to_runs_loop_units:
  "concat (map run_units (to_runs_loop start count is)) = [start..<start + count] @ is"
  by (induction start count "is" rule: to_runs_loop.induct) (auto simp: run_units_def)

lemma to_runs_units: "concat (map run_units (to_runs indices)) = indices"
  by (cases indices) (simp_all add: to_runs_def to_runs_loop_units)

lemma to_runs_loop_nonempty: "0 < count \<Longrightarrow> r \<in> set (to_runs_loop start count is) \<Longrightarrow> 0 < run_count r"
  by (induction start count "is" rule: to_runs_loop.induct) (auto split: if_splits)

lemma to_runs_nonempty: "r \<in> set (to_runs indices) \<Longrightarrow> 0 < run_count r"
  by (cases indices) (auto simp: to_runs_def dest: to_runs_loop_nonempty [rotated])

lemma to_runs_loop_first [simp]: "run_first (hd (to_runs_loop start count is)) = start"
  by (induction start count "is" rule: to_runs_loop.induct) auto

text \<open>Consecutive runs never touch: each starts anywhere but right after the one before it.\<close>

lemma to_runs_loop_maximal:
  "successively (\<lambda>r s. run_first s \<noteq> run_first r + run_count r) (to_runs_loop start count is)"
  by (induction start count "is" rule: to_runs_loop.induct)
    (auto simp: successively_Cons)

lemma to_runs_maximal:
  "successively (\<lambda>r s. run_first s \<noteq> run_first r + run_count r) (to_runs indices)"
  by (cases indices) (simp_all add: to_runs_def to_runs_loop_maximal)

subsection \<open>Permutations\<close>

lemma valid_permutation_loop_iff:
  assumes "length seen = n"
  shows "valid_permutation_loop n seen ps \<longleftrightarrow>
    distinct ps \<and> (\<forall>p \<in> set ps. p < n \<and> \<not> seen ! p)"
  using assms
proof (induction ps arbitrary: seen)
  case (Cons p ps)
  show ?case
  proof (cases "p < n \<and> \<not> seen ! p")
    case True
    with Cons show ?thesis
      by (auto simp: nth_list_update)
  qed auto
qed simp

lemma is_valid_permutation_iff:
  "is_valid_permutation perm n \<longleftrightarrow> length perm = n \<and> distinct perm \<and> set perm = {0..<n}"
proof -
  have "is_valid_permutation perm n \<longleftrightarrow> length perm = n \<and> distinct perm \<and> set perm \<subseteq> {0..<n}"
    by (auto simp: is_valid_permutation_def valid_permutation_loop_iff)
  moreover have "length perm = n \<Longrightarrow> distinct perm \<Longrightarrow> set perm \<subseteq> {0..<n} \<Longrightarrow> set perm = {0..<n}"
    by (rule card_subset_eq) (simp_all add: distinct_card)
  ultimately show ?thesis
    by auto
qed

lemma is_valid_permutation_nth: "is_valid_permutation perm n \<Longrightarrow> i < n \<Longrightarrow> perm ! i < n"
  using nth_mem by (fastforce simp: is_valid_permutation_iff)

lemma length_invert_loop [simp]: "length (invert_loop i acc ps) = length acc"
  by (induction ps arbitrary: i acc) auto

lemma invert_loop_other: "q \<notin> set ps \<Longrightarrow> invert_loop i acc ps ! q = acc ! q"
  by (induction ps arbitrary: i acc) auto

lemma invert_loop_nth:
  "distinct ps \<Longrightarrow> \<forall>p \<in> set ps. p < length acc \<Longrightarrow> j < length ps \<Longrightarrow>
   invert_loop i acc ps ! (ps ! j) = i + j"
proof (induction ps arbitrary: i acc j)
  case (Cons p ps)
  show ?case
  proof (cases j)
    case 0
    with Cons.prems show ?thesis by (simp add: invert_loop_other)
  next
    case (Suc k)
    with Cons.prems have "invert_loop (i + 1) (acc[p := i]) ps ! (ps ! k) = (i + 1) + k"
      by (intro Cons.IH) auto
    with Suc show ?thesis by simp
  qed
qed simp

lemma invert_permutation_valid:
  assumes "is_valid_permutation perm n"
  obtains q where "invert_permutation perm = Ok q" "is_valid_permutation q n"
    "\<And>i. i < n \<Longrightarrow> q ! (perm ! i) = i" "\<And>i. i < n \<Longrightarrow> perm ! (q ! i) = i"
proof -
  define q where "q = invert_loop 0 (replicate n 0) perm"
  have perm: "length perm = n" "distinct perm" "set perm = {0..<n}"
    using assms by (simp_all add: is_valid_permutation_iff)
  have eq: "invert_permutation perm = Ok q"
    using perm by (simp add: invert_permutation_def q_def list_all_iff)
  have left: "q ! (perm ! i) = i" if "i < n" for i
    using perm that by (simp add: q_def invert_loop_nth)
  have right: "perm ! (q ! j) = j" and range: "q ! j < n" if "j < n" for j
  proof -
    have "j \<in> set perm"
      using that perm(3) by simp
    then obtain i where "i < n" "perm ! i = j"
      using perm(1) by (auto simp: in_set_conv_nth)
    then show "perm ! (q ! j) = j" "q ! j < n"
      using left [of i] by simp_all
  qed
  have "distinct q"
  proof (intro distinct_conv_nth [THEN iffD2] allI impI)
    fix i j
    assume "i < length q" "j < length q" "i \<noteq> j"
    then show "q ! i \<noteq> q ! j"
      using right [of i] right [of j] by (auto simp: q_def)
  qed
  moreover have "set q \<subseteq> {0..<n}"
    using range by (auto simp: in_set_conv_nth q_def)
  ultimately have "is_valid_permutation q n"
    by (auto simp: is_valid_permutation_def valid_permutation_loop_iff q_def)
  then show thesis
    using that eq left right by blast
qed

lemma length_expand_permutation [simp]: "length (expand_permutation perm block) = length perm * block"
  unfolding expand_permutation_def by (subst length_concat_uniform [where k = block]) auto

lemma nth_expand_permutation:
  "i < length perm * block \<Longrightarrow>
   expand_permutation perm block ! i = (perm ! (i div block) * block + i mod block) mod 2 ^ 32"
  using uniform_index [of i "length perm" block]
  unfolding expand_permutation_def by (subst nth_concat_uniform [where k = block]) auto

lemma expand_permutation_valid:
  assumes "is_valid_permutation perm n" "n * block \<le> 2 ^ 32"
  shows "is_valid_permutation (expand_permutation perm block) (n * block)"
    and "i < n * block \<Longrightarrow> expand_permutation perm block ! i = perm ! (i div block) * block + i mod block"
proof -
  have perm: "length perm = n" "distinct perm"
    using assms(1) by (simp_all add: is_valid_permutation_iff)
  have bound: "perm ! (i div block) * block + i mod block < n * block" if "i < n * block" for i
  proof -
    have "perm ! (i div block) + 1 \<le> n"
      using uniform_index [OF that] is_valid_permutation_nth [OF assms(1)] by (simp add: Suc_leI)
    then have "(perm ! (i div block) + 1) * block \<le> n * block"
      by (rule mult_le_mono1)
    then show ?thesis
      using uniform_index [OF that] by simp
  qed
  show nth: "expand_permutation perm block ! i = perm ! (i div block) * block + i mod block"
    if "i < n * block" for i
    using bound [OF that] assms(2) that perm by (simp add: nth_expand_permutation)
  have "distinct (expand_permutation perm block)"
    unfolding distinct_conv_nth
  proof (intro allI impI)
    fix i j
    assume ij: "i < length (expand_permutation perm block)" "j < length (expand_permutation perm block)"
      "i \<noteq> j"
    then have i: "i < n * block" and j: "j < n * block"
      using perm by simp_all
    show "expand_permutation perm block ! i \<noteq> expand_permutation perm block ! j"
    proof
      assume "expand_permutation perm block ! i = expand_permutation perm block ! j"
      then have "perm ! (i div block) = perm ! (j div block) \<and> i mod block = j mod block"
        using uniform_index [OF i] uniform_index [OF j] by (intro pair_code_inj) (simp_all add: nth i j)
      then have "i div block = j div block \<and> i mod block = j mod block"
        using perm uniform_index [OF i] uniform_index [OF j] by (simp add: nth_eq_iff_index_eq)
      then show False
        using ij(3) by (metis div_mult_mod_eq)
    qed
  qed
  moreover have "set (expand_permutation perm block) \<subseteq> {0..<n * block}"
    using nth bound perm by (fastforce simp: in_set_conv_nth)
  ultimately show "is_valid_permutation (expand_permutation perm block) (n * block)"
    using perm by (auto simp: is_valid_permutation_def valid_permutation_loop_iff)
qed

subsection \<open>Validated topologies\<close>

lemma unat_ucast_mult: "unat (ucast (a :: u32) * ucast (b :: u32) :: u64) = unat a * unat b"
proof -
  have "unat a < 2 ^ 32" "unat b < 2 ^ 32"
    using unsigned_less [of a, where ?'a = nat] unsigned_less [of b, where ?'a = nat] by simp_all
  then have "unat a * unat b \<le> (2 ^ 32 - 1) * (2 ^ 32 - 1)"
    by (intro mult_le_mono) simp_all
  then show ?thesis
    using \<open>unat a < 2 ^ 32\<close> \<open>unat b < 2 ^ 32\<close>
    by (simp add: unat_word_ariths unsigned_ucast_eq take_bit_eq_mod)
qed

lemma validate_groups_Ok: "validate_groups gs = Ok () \<longleftrightarrow> (\<forall>(n, g) \<in> set gs. pg_size g \<noteq> 0)"
  by (induction gs rule: validate_groups.induct) auto

definition axis_ok :: "Topology \<Rightarrow> u64 list \<Rightarrow> AxisBinding \<Rightarrow> bool" where
  "axis_ok topo shape ax \<longleftrightarrow> ax_dim ax < length shape \<and>
     (\<exists>g. topo_find_group topo (ax_group ax) = Some g \<and>
          unat (shape ! ax_dim ax) = unat (pg_size g) * unat (ax_block ax))"

lemma validate_axes_Ok:
  "validate_axes topo t shape axes = Ok () \<longleftrightarrow> (\<forall>ax \<in> set axes. axis_ok topo shape ax)"
  by (induction topo t shape axes rule: validate_axes.induct)
    (auto simp: axis_ok_def word_unat_eq_iff unat_ucast_mult split: option.splits)

lemma validate_tensors_Ok:
  "validate_tensors topo shapes ts = Ok () \<longleftrightarrow>
   (\<forall>(t, axes) \<in> set ts. \<exists>shape. shapes t = Some shape \<and> (\<forall>ax \<in> set axes. axis_ok topo shape ax))"
  by (induction topo shapes ts rule: validate_tensors.induct)
    (auto simp: SFS_TRY_Ok_iff validate_axes_Ok split: option.splits)

lemma topology_validate_Ok:
  "topology_validate topo shapes = Ok () \<longleftrightarrow>
   (\<forall>(n, g) \<in> set (topo_groups topo). pg_size g \<noteq> 0) \<and>
   (\<forall>(t, axes) \<in> set (topo_tensors topo).
      \<exists>shape. shapes t = Some shape \<and> (\<forall>ax \<in> set axes. axis_ok topo shape ax))"
  by (simp add: topology_validate_def SFS_TRY_Ok_iff validate_groups_Ok validate_tensors_Ok)

subsection \<open>Properties\<close>

text \<open>
  Note: \<open>is_valid_permutation\<close>, which guards every permutation read from a file, accepts exactly the
  arrays that are bijections of \<open>[0, n)\<close> onto itself: nothing it accepts can index out of range
  or name a unit twice, and nothing it refuses was usable.
\<close>

theorem is_valid_permutation_bijection:
  "is_valid_permutation perm n \<longleftrightarrow> length perm = n \<and> bij_betw ((!) perm) {0..<n} {0..<n}"
proof -
  have "set perm = (!) perm ` {0..<length perm}"
    by (metis image_set map_nth set_upt)
  moreover have "distinct perm \<longleftrightarrow> inj_on ((!) perm) {0..<length perm}"
    by (auto simp: distinct_conv_nth inj_on_def) blast
  ultimately show ?thesis
    by (auto simp: is_valid_permutation_iff bij_betw_def)
qed

text \<open>
  Note: \<open>invert_permutation\<close> of a valid permutation writes inside its array only and returns a valid
  permutation that undoes it on both sides.
\<close>

theorem invert_permutation_inverse:
  assumes "is_valid_permutation perm n"
  shows "\<exists>q. invert_permutation perm = Ok q \<and> is_valid_permutation q n \<and>
    (\<forall>i < n. q ! (perm ! i) = i \<and> perm ! (q ! i) = i)"
  using invert_permutation_valid [OF assms] by metis

theorem invert_permutation_inverse_witness:
  "is_valid_permutation [2, 0, 1] 3 \<and>
   (\<exists>q. invert_permutation [2, 0, 1] = Ok q \<and> is_valid_permutation q 3 \<and>
    (\<forall>i < 3. q ! ([2, 0, 1] ! i) = i \<and> [2, 0, 1] ! (q ! i) = i))"
proof -
  have v: "is_valid_permutation [2, 0, 1] 3"
    by code_simp
  show ?thesis
    using v invert_permutation_inverse [OF v] by blast
qed

text \<open>
  Note: in a topology that \<open>Topology::validate\<close> accepts, a valid permutation of a group expands, over
  the blocking factor of any bound axis, to a valid permutation of exactly that axis (the axis
  being shorter than the 32-bit range of the entries): the silent wrong-shape failure the
  blocking factor was introduced against cannot happen.
\<close>

theorem validated_axis_expands:
  assumes "topology_validate topo shapes = Ok ()"
    and "(tensor, axes) \<in> set (topo_tensors topo)" and "ax \<in> set axes"
    and "shapes tensor = Some shape" and "topo_find_group topo (ax_group ax) = Some g"
    and "is_valid_permutation perm (unat (pg_size g))" and "unat (shape ! ax_dim ax) \<le> 2 ^ 32"
  shows "is_valid_permutation (expand_permutation perm (unat (ax_block ax))) (unat (shape ! ax_dim ax))"
proof -
  have "axis_ok topo shape ax"
    using assms(1-4) by (fastforce simp: topology_validate_Ok)
  then have "unat (shape ! ax_dim ax) = unat (pg_size g) * unat (ax_block ax)"
    using assms(5) by (simp add: axis_ok_def)
  then show ?thesis
    using expand_permutation_valid(1) [OF assms(6)] assms(7) by simp
qed

definition example_topology :: Topology where
  "example_topology =
     \<lparr>topo_groups = [(''g0'', \<lparr>pg_size = 2, pinned = False\<rparr>)],
      topo_tensors = [(''w'', [\<lparr>ax_dim = 0, ax_group = ''g0'', ax_block = 3\<rparr>])]\<rparr>"

definition example_axis :: AxisBinding where
  "example_axis = \<lparr>ax_dim = 0, ax_group = ''g0'', ax_block = 3\<rparr>"

theorem validated_axis_expands_witness:
  "is_valid_permutation (expand_permutation [1, 0] 3) 6 \<and> expand_permutation [1, 0] 3 = [3, 4, 5, 0, 1, 2]"
proof -
  have h: "topology_validate example_topology [''w'' \<mapsto> [6]] = Ok ()"
      "(''w'', [example_axis]) \<in> set (topo_tensors example_topology)"
      "example_axis \<in> set [example_axis]"
      "[''w'' \<mapsto> [6]] ''w'' = Some [6]"
    by (simp_all add: example_topology_def example_axis_def topology_validate_def topo_find_group_def)
  have g: "topo_find_group example_topology (ax_group example_axis) = Some \<lparr>pg_size = 2, pinned = False\<rparr>"
    by (simp add: example_topology_def example_axis_def topo_find_group_def)
  have v: "is_valid_permutation [1, 0] (unat (pg_size \<lparr>pg_size = 2, pinned = False\<rparr>))"
    by (simp add: is_valid_permutation_def)
  have w: "unat ([6 :: u64] ! ax_dim example_axis) \<le> 2 ^ 32"
    by (simp add: example_axis_def)
  have "is_valid_permutation (expand_permutation [1, 0] (unat (ax_block example_axis)))
      (unat ([6 :: u64] ! ax_dim example_axis))"
    by (rule validated_axis_expands [OF h g v w])
  moreover have "expand_permutation [1, 0] 3 = [3, 4, 5, 0, 1, 2]"
    by (simp add: expand_permutation_def upt_rec)
  ultimately show ?thesis
    by (simp add: example_axis_def)
qed

text \<open>
  Note: collapsing unit indices into runs loses and reorders nothing: reading the runs one after the
  other reads exactly the indices, every run is non-empty, and no run could have been merged
  with the one before it.
\<close>

theorem to_runs_exact:
  "concat (map run_units (to_runs indices)) = indices \<and>
   list_all (\<lambda>r. 0 < run_count r) (to_runs indices) \<and>
   successively (\<lambda>r s. run_first s \<noteq> run_first r + run_count r) (to_runs indices)"
  using to_runs_nonempty by (auto simp: to_runs_units to_runs_maximal list_all_iff)

end
