(* ===== verification/External.thy ===== *)
theory External
  imports Core_Error "HOL-Library.List_Lexorder" "HOL-Library.Char_ord" "HOL-Library.Countable"
begin

unbundle bit_operations_syntax

section \<open>The third-party libraries\<close>

text \<open>
  SynapseFS calls BLAKE3, zstd and nlohmann's JSON library; none of them is part of the
  repository. They are the fields of a record \<open>Ext\<close> that every definition using them takes as an
  argument; a JSON value is of an unspecified type \<open>'j\<close>. \<open>None\<close> stands for a call that throws (JSON) or
  reports an error code (zstd). A double is the 64-bit pattern that holds it. What the code relies on is stated by
  three predicates, \<open>blake3_ok\<close>, \<open>zstd_ok\<close> and \<open>json_ok\<close>, which the theorems name as hypotheses, and
  \<open>toy_ext\<close> is an instance that satisfies all three (one value \<open>j0\<close> of its choice is printed as a single
  byte, so that sizes stay small where a witness needs them).
\<close>

record 'j Ext =
  x_blake3 :: "bytes \<Rightarrow> bytes"
  x_compress :: "int \<Rightarrow> bool \<Rightarrow> bytes \<Rightarrow> bytes option"
  x_decompress :: "bytes \<Rightarrow> nat \<Rightarrow> bytes option"
  j_parse :: "bytes \<Rightarrow> 'j option"
  j_dump :: "'j \<Rightarrow> bytes option"
  j_obj :: "(string \<times> 'j) list \<Rightarrow> 'j"
  j_arr :: "'j list \<Rightarrow> 'j"
  j_str :: "string \<Rightarrow> 'j"
  j_u64 :: "u64 \<Rightarrow> 'j"
  j_bool :: "bool \<Rightarrow> 'j"
  j_double :: "u64 \<Rightarrow> 'j"
  j_is_object :: "'j \<Rightarrow> bool"
  j_is_array :: "'j \<Rightarrow> bool"
  j_is_string :: "'j \<Rightarrow> bool"
  j_at :: "'j \<Rightarrow> string \<Rightarrow> 'j option"
  j_contains :: "'j \<Rightarrow> string \<Rightarrow> bool"
  j_items :: "'j \<Rightarrow> (string option \<times> 'j) list"
  j_get_str :: "'j \<Rightarrow> string option"
  j_get_u32 :: "'j \<Rightarrow> u32 option"
  j_get_u64 :: "'j \<Rightarrow> u64 option"
  j_get_bool :: "'j \<Rightarrow> bool option"
  j_get_double :: "'j \<Rightarrow> u64 option"

subsection \<open>Calls from the code\<close>

text \<open>An uncaught exception ends the function with \<open>Abort Throw\<close>; a \<open>catch\<close> turns it into an error.\<close>

primrec thrown :: "'a option \<Rightarrow> 'a res" where
  "thrown None = Abort Throw"
| "thrown (Some x) = Ok x"

definition catching :: "ErrKind \<Rightarrow> 'a res \<Rightarrow> 'a res" where
  "catching k m = (if m = Abort Throw then SFS_ERR k [] else m)"

definition json_at :: "'j Ext \<Rightarrow> 'j \<Rightarrow> string \<Rightarrow> 'j res" where
  "json_at X j k = thrown (j_at X j k)"

definition at_str :: "'j Ext \<Rightarrow> 'j \<Rightarrow> string \<Rightarrow> string res" where
  "at_str X j k = SFS_TRY (json_at X j k) (\<lambda>v. thrown (j_get_str X v))"

definition at_u32 :: "'j Ext \<Rightarrow> 'j \<Rightarrow> string \<Rightarrow> u32 res" where
  "at_u32 X j k = SFS_TRY (json_at X j k) (\<lambda>v. thrown (j_get_u32 X v))"

definition at_u64 :: "'j Ext \<Rightarrow> 'j \<Rightarrow> string \<Rightarrow> u64 res" where
  "at_u64 X j k = SFS_TRY (json_at X j k) (\<lambda>v. thrown (j_get_u64 X v))"

text \<open>\<open>json::value(key, default)\<close>, with the conversion it is instantiated at.\<close>

definition json_value :: "'j Ext \<Rightarrow> ('j \<Rightarrow> 'a option) \<Rightarrow> 'j \<Rightarrow> string \<Rightarrow> 'a \<Rightarrow> 'a res" where
  "json_value X get j k d =
     (if \<not> j_is_object X j then Abort Throw
      else if j_contains X j k then SFS_TRY (json_at X j k) (\<lambda>v. thrown (get v))
      else Ok d)"

definition json_elems :: "'j Ext \<Rightarrow> 'j \<Rightarrow> 'j list" where
  "json_elems X j = map snd (j_items X j)"

text \<open>A loop whose body can fail, collecting what each round produces.\<close>

primrec map_res :: "('a \<Rightarrow> 'b res) \<Rightarrow> 'a list \<Rightarrow> 'b list res" where
  "map_res f [] = Ok []"
| "map_res f (x # xs) = SFS_TRY (f x) (\<lambda>y. SFS_TRY (map_res f xs) (\<lambda>ys. Ok (y # ys)))"

subsection \<open>What the code relies on\<close>

definition finite_double :: "u64 \<Rightarrow> bool" where
  "finite_double d \<longleftrightarrow> (drop_bit 52 d AND 2047) \<noteq> 2047"

text \<open>The values that are serialised: built from finite numbers, text, booleans, arrays and objects.\<close>

inductive plain :: "'j Ext \<Rightarrow> 'j \<Rightarrow> bool" for X where
  plain_str: "plain X (j_str X s)"
| plain_u64: "plain X (j_u64 X n)"
| plain_bool: "plain X (j_bool X b)"
| plain_double: "finite_double d \<Longrightarrow> plain X (j_double X d)"
| plain_arr: "(\<And>x. x \<in> set xs \<Longrightarrow> plain X x) \<Longrightarrow> plain X (j_arr X xs)"
| plain_obj: "distinct (map fst kvs) \<Longrightarrow> (\<And>k v. (k, v) \<in> set kvs \<Longrightarrow> plain X v) \<Longrightarrow> plain X (j_obj X kvs)"

definition blake3_ok :: "'j Ext \<Rightarrow> bool" where
  "blake3_ok X \<longleftrightarrow> (\<forall>b. length (x_blake3 X b) = 32)"

definition zstd_ok :: "'j Ext \<Rightarrow> bool" where
  "zstd_ok X \<longleftrightarrow>
     (\<forall>level checksum b z cap. x_compress X level checksum b = Some z \<longrightarrow> length b \<le> cap \<longrightarrow>
        x_decompress X z cap = Some b) \<and>
     (\<forall>z cap b. x_decompress X z cap = Some b \<longrightarrow> length b \<le> cap)"

definition json_ok :: "'j Ext \<Rightarrow> bool" where
  "json_ok X \<longleftrightarrow>
     j_parse X [] = None \<and>
     (\<forall>j b. plain X j \<longrightarrow> j_dump X j = Some b \<longrightarrow> j_parse X b = Some j) \<and>
     (\<forall>kvs. distinct (map fst kvs) \<longrightarrow>
        j_is_object X (j_obj X kvs) \<and>
        (\<forall>k. j_at X (j_obj X kvs) k = map_of kvs k) \<and>
        (\<forall>k. j_contains X (j_obj X kvs) k \<longleftrightarrow> k \<in> fst ` set kvs) \<and>
        j_items X (j_obj X kvs) = map (\<lambda>(k, v). (Some k, v)) (sort_key fst kvs)) \<and>
     (\<forall>xs. j_is_array X (j_arr X xs) \<and> map snd (j_items X (j_arr X xs)) = xs) \<and>
     (\<forall>s. j_is_string X (j_str X s) \<and> j_get_str X (j_str X s) = Some s) \<and>
     (\<forall>n. j_get_u64 X (j_u64 X n) = Some n \<and> j_get_u32 X (j_u64 X n) = Some (ucast n)) \<and>
     (\<forall>b. j_get_bool X (j_bool X b) = Some b) \<and>
     (\<forall>d. finite_double d \<longrightarrow> j_get_double X (j_double X d) = Some d)"

subsection \<open>Lemmas\<close>

lemma thrown_Ok [simp]: "thrown m = Ok x \<longleftrightarrow> m = Some x"
  by (cases m) auto

lemma thrown_only_throws [simp]: "a \<noteq> Throw \<Longrightarrow> thrown m \<noteq> Abort a"
  by (cases m) auto

lemma catching_Ok [simp]: "catching k m = Ok x \<longleftrightarrow> m = Ok x"
  by (auto simp: catching_def)

lemma map_res_Ok: "map_res f xs = Ok ys \<longleftrightarrow> list_all2 (\<lambda>x y. f x = Ok y) xs ys"
  by (induction xs arbitrary: ys) (auto simp: SFS_TRY_Ok_iff list_all2_Cons1)

lemma map_res_map: "(\<And>x. x \<in> set xs \<Longrightarrow> f (g x) = Ok (h x)) \<Longrightarrow> map_res f (map g xs) = Ok (map h xs)"
  by (induction xs) auto

lemma map_res_length: "map_res f xs = Ok ys \<Longrightarrow> length ys = length xs"
  by (auto simp: map_res_Ok dest: list_all2_lengthD)

lemma map_res_cong [fundef_cong]:
  "xs = ys \<Longrightarrow> (\<And>x. x \<in> set ys \<Longrightarrow> f x = g x) \<Longrightarrow> map_res f xs = map_res g ys"
  by (induction ys arbitrary: xs) auto

lemma zstd_roundtrip: "zstd_ok X \<Longrightarrow> x_compress X l c b = Some z \<Longrightarrow> length b \<le> cap \<Longrightarrow> x_decompress X z cap = Some b"
  unfolding zstd_ok_def by blast

lemma zstd_bound: "zstd_ok X \<Longrightarrow> x_decompress X z cap = Some b \<Longrightarrow> length b \<le> cap"
  unfolding zstd_ok_def by blast

lemma json_parse_empty: "json_ok X \<Longrightarrow> j_parse X [] = None"
  unfolding json_ok_def by blast

lemma json_parse_dump: "json_ok X \<Longrightarrow> plain X j \<Longrightarrow> j_dump X j = Some b \<Longrightarrow> j_parse X b = Some j"
  unfolding json_ok_def by blast

lemma json_obj_laws:
  assumes "json_ok X" "distinct (map fst kvs)"
  shows "j_is_object X (j_obj X kvs)" "j_at X (j_obj X kvs) k = map_of kvs k"
    "j_contains X (j_obj X kvs) k \<longleftrightarrow> k \<in> fst ` set kvs"
    "j_items X (j_obj X kvs) = map (\<lambda>(k, v). (Some k, v)) (sort_key fst kvs)"
  using assms unfolding json_ok_def by blast+

lemma json_leaf_laws:
  assumes "json_ok X"
  shows "j_is_array X (j_arr X xs)" "map snd (j_items X (j_arr X xs)) = xs" "j_get_str X (j_str X s) = Some s"
    "j_get_u64 X (j_u64 X n) = Some n" "j_get_u32 X (j_u64 X n) = Some (ucast n)" "j_get_bool X (j_bool X b) = Some b"
    "finite_double d \<Longrightarrow> j_get_double X (j_double X d) = Some d"
  using assms unfolding json_ok_def by blast+

lemma json_elems_arr: "json_ok X \<Longrightarrow> json_elems X (j_arr X xs) = xs"
  by (simp add: json_elems_def json_leaf_laws)

lemmas json_laws = json_obj_laws json_leaf_laws json_elems_arr
lemmas json_access = json_at_def at_str_def at_u32_def at_u64_def json_value_def

subsection \<open>An instance\<close>

datatype toy_json = TUInt nat | TBool bool | TFloat nat | TStr string | TArr "toy_json list" | TObj "(string \<times> toy_json) list"

instance toy_json :: countable
  by countable_datatype

fun toy_at :: "toy_json \<Rightarrow> string \<Rightarrow> toy_json option" where
  "toy_at (TObj kvs) k = map_of kvs k"
| "toy_at _ k = None"

fun toy_items :: "toy_json \<Rightarrow> (string option \<times> toy_json) list" where
  "toy_items (TObj kvs) = map (\<lambda>(k, v). (Some k, v)) kvs"
| "toy_items (TArr xs) = map (\<lambda>x. (None, x)) xs"
| "toy_items j = [(None, j)]"

definition toy_blake3 :: "bytes \<Rightarrow> bytes" where
  "toy_blake3 b = le_bytes 32 (length b + 256 * le_val (take 30 b))"

definition toy_ext :: "toy_json \<Rightarrow> toy_json Ext" where
  "toy_ext j0 = \<lparr>
     x_blake3 = toy_blake3,
     x_compress = (\<lambda>level checksum b. Some b),
     x_decompress = (\<lambda>z cap. if length z \<le> cap then Some z else None),
     j_parse = (\<lambda>b. if b = [] then None else if b = [1] then Some j0 else Some (from_nat (length b - 1))),
     j_dump = (\<lambda>j. Some (if j = j0 then [1] else replicate (Suc (to_nat j)) 0)),
     j_obj = (\<lambda>kvs. TObj (sort_key fst kvs)), j_arr = TArr, j_str = TStr, j_u64 = (\<lambda>n. TUInt (unat n)),
     j_bool = TBool, j_double = (\<lambda>d. TFloat (unat d)),
     j_is_object = (\<lambda>j. case j of TObj _ \<Rightarrow> True | _ \<Rightarrow> False),
     j_is_array = (\<lambda>j. case j of TArr _ \<Rightarrow> True | _ \<Rightarrow> False),
     j_is_string = (\<lambda>j. case j of TStr _ \<Rightarrow> True | _ \<Rightarrow> False),
     j_at = toy_at, j_contains = (\<lambda>j k. toy_at j k \<noteq> None), j_items = toy_items,
     j_get_str = (\<lambda>j. case j of TStr s \<Rightarrow> Some s | _ \<Rightarrow> None),
     j_get_u32 = (\<lambda>j. case j of TUInt n \<Rightarrow> Some (ucast (of_nat n :: u64)) | _ \<Rightarrow> None),
     j_get_u64 = (\<lambda>j. case j of TUInt n \<Rightarrow> Some (of_nat n) | _ \<Rightarrow> None),
     j_get_bool = (\<lambda>j. case j of TBool b \<Rightarrow> Some b | _ \<Rightarrow> None),
     j_get_double = (\<lambda>j. case j of TFloat d \<Rightarrow> Some (of_nat d) | _ \<Rightarrow> None)\<rparr>"

lemma length_toy_blake3 [simp]: "length (toy_blake3 b) = 32"
  by (simp add: toy_blake3_def)

lemma map_of_sort_key: "distinct (map fst kvs) \<Longrightarrow> map_of (sort_key fst kvs) = map_of kvs"
proof -
  assume d: "distinct (map fst kvs)"
  then have "distinct (map fst (sort_key fst kvs))"
    by (simp add: distinct_map)
  then show ?thesis
    using d by (intro map_of_inject_set [THEN iffD2]) auto
qed

lemma toy_ext_simps [simp]:
  "x_blake3 (toy_ext j0) = toy_blake3" "x_compress (toy_ext j0) l c b = Some b"
  "x_decompress (toy_ext j0) z cap = (if length z \<le> cap then Some z else None)"
  "j_dump (toy_ext j0) j0 = Some [1]" "j_parse (toy_ext j0) [1] = Some j0"
  "j_obj (toy_ext j0) kvs = TObj (sort_key fst kvs)" "j_arr (toy_ext j0) xs = TArr xs" "j_str (toy_ext j0) s = TStr s"
  "j_u64 (toy_ext j0) n = TUInt (unat n)" "j_bool (toy_ext j0) b' = TBool b'" "j_double (toy_ext j0) d = TFloat (unat d)"
  by (simp_all add: toy_ext_def)

lemma toy_blake3_ok: "blake3_ok (toy_ext j0)"
  by (simp add: blake3_ok_def toy_ext_def)

lemma toy_zstd_ok: "zstd_ok (toy_ext j0)"
  by (simp add: zstd_ok_def toy_ext_def split: if_splits)

lemma toy_json_ok: "json_ok (toy_ext j0)"
  unfolding json_ok_def toy_ext_def
  by (auto simp: map_of_sort_key comp_def map_of_eq_None_iff intro: rev_image_eqI)

end
