(* ===== verification/Codec_Gather.thy ===== *)
theory Codec_Gather
  imports Core_Tensor External
begin

section \<open>Permuting and gathering units\<close>

text \<open>
  \<open>src/modules/codec/src/permute.cpp\<close> and the gather loop that \<open>gather_base_bytes\<close> of \<open>reconstruct.cpp\<close> and
  \<open>gather_base_units\<close> of \<open>diff_encoder.cpp\<close> share: read the base units a frame depends on run by run into a scratch
  buffer, remember where each unit landed, copy them out in target order. Byte counts are 64-bit and wrap; an access
  outside a buffer is \<open>Abort UB\<close>; a vector larger than \<open>2 ^ 63 - 1\<close> bytes cannot be allocated (\<open>Abort Throw\<close>).
  The main result: over any reader that returns the bytes of the base, the gather returns exactly the permuted units.
\<close>

text \<open>A loop over the elements of a list that updates a state and can fail.\<close>

primrec fold_res :: "('a \<Rightarrow> 's \<Rightarrow> 's res) \<Rightarrow> 'a list \<Rightarrow> 's \<Rightarrow> 's res" where
  "fold_res f [] s = Ok s"
| "fold_res f (x # xs) s = SFS_TRY (f x s) (fold_res f xs)"

lemma fold_res_append: "fold_res f (xs @ ys) s = SFS_TRY (fold_res f xs s) (fold_res f ys)"
proof (induction xs arbitrary: s)
  case (Cons x xs)
  then show ?case by (cases "f x s") auto
qed simp

lemma fold_res_cong [fundef_cong]:
  "xs = ys \<Longrightarrow> s = t \<Longrightarrow> (\<And>x s. x \<in> set ys \<Longrightarrow> f x s = g x s) \<Longrightarrow> fold_res f xs s = fold_res g ys t"
proof (induction ys arbitrary: xs s t)
  case (Cons y ys)
  then show ?case by (cases "g y t") auto
qed simp

lemma fold_res_invariant:
  assumes "fold_res f xs s = Ok s'" "P s" "\<And>x s s'. x \<in> set xs \<Longrightarrow> P s \<Longrightarrow> f x s = Ok s' \<Longrightarrow> P s'"
  shows "P s'"
  using assms by (induction xs arbitrary: s) auto

definition permute_step :: "bytes \<Rightarrow> nat \<Rightarrow> nat \<times> nat \<Rightarrow> bytes \<Rightarrow> bytes res" where
  "permute_step src ub = (\<lambda>(i, p) dst.
     if length dst < i * ub + ub \<or> length src < p * ub + ub then Abort UB
     else Ok (memcpy_at dst (i * ub) (slice src (p * ub) ub)))"

definition permute_units :: "bytes \<Rightarrow> bytes \<Rightarrow> nat list \<Rightarrow> nat \<Rightarrow> bytes res" where
  "permute_units dst src perm ub = fold_res (permute_step src ub) (zip [0..<length perm] perm) dst"

definition dependency_runs :: "nat list \<Rightarrow> nat \<Rightarrow> nat \<Rightarrow> UnitRun list res" where
  "dependency_runs perm first count =
     (if length perm < first + count then Abort UB else Ok (to_runs (sort (slice perm first count))))"

definition expand :: "nat list \<Rightarrow> nat \<Rightarrow> nat list" where
  "expand perm block = expand_permutation perm block"

subsection \<open>The gather loop\<close>

definition gather_run ::
  "(UnitRun \<Rightarrow> bytes \<Rightarrow> bytes res) \<Rightarrow> u64 \<Rightarrow> UnitRun \<Rightarrow> bytes \<times> (nat \<rightharpoonup> nat) \<Rightarrow> (bytes \<times> (nat \<rightharpoonup> nat)) res" where
  "gather_run read ub run = (\<lambda>(scratch, unit_to_scratch_off).
     let off = length scratch; n = of_nat (run_count run) * ub; size = unat (of_nat off + n)
     in if 2 ^ 63 \<le> size then Abort Throw
        else if size < off + unat n then Abort UB
        else SFS_TRY (read run (replicate (unat n) 0)) (\<lambda>b.
          Ok (scratch @ b,
              foldl (\<lambda>m k. m(run_first run + k \<mapsto> off + unat (of_nat k * ub))) unit_to_scratch_off [0..<run_count run])))"

definition gather_copy ::
  "nat list \<Rightarrow> nat \<Rightarrow> u64 \<Rightarrow> bytes \<Rightarrow> (nat \<rightharpoonup> nat) \<Rightarrow> nat \<Rightarrow> bytes \<Rightarrow> bytes res" where
  "gather_copy perm first ub scratch unit_to_scratch_off i out =
     (case unit_to_scratch_off (perm ! (first + i)) of
        None \<Rightarrow> SFS_ERR Internal []
      | Some o' \<Rightarrow>
          let pos = unat (of_nat i * ub)
          in if length out < pos + unat ub \<or> length scratch < o' + unat ub then Abort UB
             else Ok (memcpy_at out pos (slice scratch o' (unat ub))))"

definition gather_units ::
  "(UnitRun \<Rightarrow> bytes \<Rightarrow> bytes res) \<Rightarrow> nat list \<Rightarrow> nat \<Rightarrow> nat \<Rightarrow> u64 \<Rightarrow> bytes \<Rightarrow> bytes res" where
  "gather_units read perm first count ub out =
     SFS_TRY (dependency_runs perm first count) (\<lambda>runs.
     SFS_TRY (fold_res (gather_run read ub) runs ([], Map.empty)) (\<lambda>(scratch, unit_to_scratch_off).
     fold_res (gather_copy perm first ub scratch unit_to_scratch_off) [0..<count] out))"

subsection \<open>Units of a buffer\<close>

definition units_of :: "bytes \<Rightarrow> nat \<Rightarrow> nat list \<Rightarrow> bytes" where
  "units_of B u ps = concat (map (\<lambda>p. slice B (p * u) u) ps)"

definition unit_window :: "bytes \<Rightarrow> nat \<Rightarrow> nat \<Rightarrow> nat \<Rightarrow> bytes" where
  "unit_window B u first count = slice B (first * u) (count * u)"

lemma length_units_of:
  "\<forall>p \<in> set ps. Suc p * u \<le> length B \<Longrightarrow> length (units_of B u ps) = length ps * u"
  unfolding units_of_def by (subst length_concat_uniform [where k = u]) auto

lemma units_of_append: "units_of B u (ps @ qs) = units_of B u ps @ units_of B u qs"
  by (simp add: units_of_def)

lemma units_of_snoc: "units_of B u (ps @ [p]) = units_of B u ps @ slice B (p * u) u"
  by (simp add: units_of_def)

lemma units_of_upt: "(first + count) * u \<le> length B \<Longrightarrow> units_of B u [first..<first + count] = unit_window B u first count"
proof (induction count)
  case (Suc count)
  then have "units_of B u [first..<first + Suc count] = unit_window B u first count @ slice B ((first + count) * u) u"
    by (simp add: units_of_snoc)
  also have "\<dots> = unit_window B u first (Suc count)"
    using slice_split [of B "first * u" "count * u" u] by (simp add: unit_window_def algebra_simps)
  finally show ?case .
qed (simp add: units_of_def unit_window_def)

text \<open>A reader returns, for a run inside the buffer, the bytes of its units.\<close>

definition reads_units :: "(UnitRun \<Rightarrow> bytes \<Rightarrow> bytes res) \<Rightarrow> bytes \<Rightarrow> nat \<Rightarrow> bool" where
  "reads_units read B u \<longleftrightarrow>
     (\<forall>r buf. (run_first r + run_count r) * u \<le> length B \<longrightarrow> length buf = run_count r * u \<longrightarrow>
        read r buf = Ok (unit_window B u (run_first r) (run_count r)))"

lemma slice_units_of:
  assumes "\<forall>p \<in> set ps. Suc p * u \<le> length B" "i < length ps"
  shows "slice (units_of B u ps) (i * u) u = slice B (ps ! i * u) u"
  using slice_concat_unit [of "map (\<lambda>p. slice B (p * u) u) ps" u i] assms by (fastforce simp: units_of_def)

lemma slice_append_same: "off + n \<le> length a \<Longrightarrow> slice (a @ b) off n = slice a off n"
  by (simp add: slice_simps)

subsection \<open>Permuting\<close>

lemma permute_units_prefix:
  assumes "\<forall>p \<in> set perm. Suc p * u \<le> length src" "k \<le> length perm" "length dst = length perm * u"
  shows "fold_res (permute_step src u) (zip [0..<k] (take k perm)) dst = Ok (units_of src u (take k perm) @ drop (k * u) dst)"
  using assms(2)
proof (induction k)
  case (Suc k)
  have zip: "zip [0..<Suc k] (take (Suc k) perm) = zip [0..<k] (take k perm) @ [(k, perm ! k)]"
    using Suc.prems by (simp add: take_Suc_conv_app_nth)
  have fit: "perm ! k * u + u \<le> length src"
    using assms(1) Suc.prems by (auto simp: add.commute)
  have len: "length (units_of src u (take k perm)) = k * u"
    using assms(1) Suc.prems by (subst length_units_of) (auto dest: in_set_takeD)
  have "Suc k * u \<le> length perm * u"
    using Suc.prems by (intro mult_le_mono1)
  then have room: "k * u + u \<le> length dst"
    using assms(3) by simp
  then have "permute_step src u (k, perm ! k) (units_of src u (take k perm) @ drop (k * u) dst) =
      Ok (units_of src u (take k perm) @ slice src (perm ! k * u) u @ drop (k * u + u) dst)"
    using fit len by (simp add: permute_step_def memcpy_at_def add.commute)
  then show ?case
    using Suc by (simp add: zip fold_res_append take_Suc_conv_app_nth units_of_snoc add.commute)
qed (simp add: units_of_def)

lemma permute_units_eq:
  assumes "\<forall>p \<in> set perm. Suc p * u \<le> length src" "length dst = length perm * u"
  shows "permute_units dst src perm u = Ok (units_of src u perm)"
  using permute_units_prefix [OF assms(1) order_refl assms(2)] assms(2) by (simp add: permute_units_def)

subsection \<open>Gathering\<close>

text \<open>Where the scratch map points, the scratch buffer holds the unit.\<close>

definition holds_units :: "bytes \<Rightarrow> nat \<Rightarrow> bytes \<Rightarrow> (nat \<rightharpoonup> nat) \<Rightarrow> bool" where
  "holds_units B u scratch m \<longleftrightarrow>
     (\<forall>p off. m p = Some off \<longrightarrow> off + u \<le> length scratch \<and> slice scratch off u = slice B (p * u) u)"

lemma foldl_map_upd:
  "foldl (\<lambda>m k. m(a + k \<mapsto> g k)) m [0..<n] p = (if a \<le> p \<and> p < a + n then Some (g (p - a)) else m p)"
  by (induction n) auto

lemma gather_run_holds:
  assumes reads: "reads_units read B u" and size: "length B < 2 ^ 62" "length scratch < 2 ^ 62" and u: "u < 2 ^ 62"
    and run: "(run_first r + run_count r) * u \<le> length B" and holds: "holds_units B u scratch m"
  shows "\<exists>m'. gather_run read (of_nat u) r (scratch, m) =
      Ok (scratch @ unit_window B u (run_first r) (run_count r), m') \<and>
    holds_units B u (scratch @ unit_window B u (run_first r) (run_count r)) m' \<and>
    dom m' = dom m \<union> set (run_units r)"
proof -
  let ?c = "run_count r" and ?f = "run_first r" and ?W = "unit_window B u (run_first r) (run_count r)"
  have cu: "?c * u \<le> length B"
    using run by (simp add: algebra_simps)
  then have n: "unat (of_nat ?c * of_nat u :: u64) = ?c * u"
    using size by (intro unat_mult_small) simp
  then have sz: "unat (of_nat (length scratch) + of_nat ?c * of_nat u :: u64) = length scratch + ?c * u"
    using size cu by (simp add: unat_word_ariths unat_of_nat_small)
  have lenW: "length ?W = ?c * u"
    using run by (simp add: unit_window_def algebra_simps)
  define m' where "m' = foldl (\<lambda>m k. m(?f + k \<mapsto> length scratch + unat (of_nat k * of_nat u :: u64))) m [0..<?c]"
  have "read r (replicate (?c * u) 0) = Ok ?W"
    using reads run by (simp add: reads_units_def)
  then have step: "gather_run read (of_nat u) r (scratch, m) = Ok (scratch @ ?W, m')"
    using sz n size cu by (simp add: gather_run_def Let_def m'_def)
  have m': "m' p = (if ?f \<le> p \<and> p < ?f + ?c then Some (length scratch + (p - ?f) * u) else m p)" for p
  proof -
    have "unat (of_nat k * of_nat u :: u64) = k * u" if "k < ?c" for k
    proof -
      have "k * u \<le> ?c * u"
        using that by (intro mult_le_mono1) simp
      also have "\<dots> < 2 ^ 64"
        using cu size(1) by simp
      finally have "k * u < 2 ^ 64" .
      then show ?thesis
        by (rule unat_mult_small)
    qed
    then show ?thesis
      by (auto simp: m'_def foldl_map_upd simp del: of_nat_diff)
  qed
  have "off + u \<le> length (scratch @ ?W) \<and> slice (scratch @ ?W) off u = slice B (p * u) u" if "m' p = Some off" for p off
  proof (cases "?f \<le> p \<and> p < ?f + ?c")
    case True
    define k where "k = p - ?f"
    have k: "p = ?f + k" "k < ?c"
      using True by (auto simp: k_def)
    have off: "off = length scratch + k * u"
      using that True m' [of p] by (simp add: k_def)
    have "Suc k * u \<le> ?c * u"
      using k(2) by (intro mult_le_mono1) simp
    then show ?thesis
      using off lenW k(1) by (simp add: slice_simps unit_window_def algebra_simps)
  next
    case False
    then have "m p = Some off"
      using that m' [of p] by (auto split: if_splits)
    then have "off + u \<le> length scratch" "slice scratch off u = slice B (p * u) u"
      using holds by (auto simp: holds_units_def)
    then show ?thesis
      by (simp add: slice_append_same)
  qed
  then have "holds_units B u (scratch @ ?W) m'"
    by (simp add: holds_units_def)
  moreover have "dom m' = dom m \<union> set (run_units r)"
    by (auto simp: m' run_units_def dom_def)
  ultimately show ?thesis
    using step by blast
qed


lemma length_run_units [simp]: "length (run_units r) = run_count r"
  by (simp add: run_units_def)

lemma gather_runs_hold:
  assumes reads: "reads_units read B u" and size: "length B < 2 ^ 62" and u: "u < 2 ^ 62"
    and runs: "\<forall>r \<in> set rs. (run_first r + run_count r) * u \<le> length B"
    and room: "length scratch + length (concat (map run_units rs)) * u < 2 ^ 62" and holds: "holds_units B u scratch m"
  shows "\<exists>scratch' m'. fold_res (gather_run read (of_nat u)) rs (scratch, m) = Ok (scratch', m') \<and>
    holds_units B u scratch' m' \<and> dom m' = dom m \<union> set (concat (map run_units rs))"
  using runs room holds
proof (induction rs arbitrary: scratch m)
  case (Cons r rs)
  let ?s = "scratch @ unit_window B u (run_first r) (run_count r)"
  obtain m' where m': "gather_run read (of_nat u) r (scratch, m) = Ok (?s, m')" "holds_units B u ?s m'"
    "dom m' = dom m \<union> set (run_units r)"
    using gather_run_holds [OF reads size _ u, of scratch r m] Cons.prems by auto
  have "(run_first r + run_count r) * u \<le> length B"
    using Cons.prems(1) by simp
  then have "length ?s = length scratch + run_count r * u"
    by (simp add: unit_window_def algebra_simps)
  then have "length ?s + length (concat (map run_units rs)) * u < 2 ^ 62"
    using Cons.prems(2) by (simp add: algebra_simps)
  then obtain s'' m'' where "fold_res (gather_run read (of_nat u)) rs (?s, m') = Ok (s'', m'')"
    "holds_units B u s'' m''" "dom m'' = dom m' \<union> set (concat (map run_units rs))"
    using Cons.IH [of ?s m'] Cons.prems(1) m'(2) by auto
  then show ?case
    using m' by (intro exI [of _ s''] exI [of _ m'']) auto
qed auto

lemma gather_copy_units:
  assumes holds: "holds_units B u scratch m" and dom: "\<forall>p \<in> set ps. p \<in> dom m" and ps: "ps = slice perm first count"
    and fits: "\<forall>p \<in> set ps. Suc p * u \<le> length B" and len: "first + count \<le> length perm" and size: "count * u < 2 ^ 62"
    and u: "u < 2 ^ 62" and out: "length out = count * u"
  shows "k \<le> count \<Longrightarrow> fold_res (gather_copy perm first (of_nat u) scratch m) [0..<k] out =
    Ok (units_of B u (take k ps) @ drop (k * u) out)"
proof (induction k)
  case (Suc k)
  have lps: "length ps = count"
    using ps len by simp
  then have nth: "perm ! (first + k) = ps ! k"
    using ps len Suc.prems by simp
  then obtain off where off: "m (perm ! (first + k)) = Some off"
    using dom Suc.prems lps by fastforce
  then have held: "off + u \<le> length scratch" "slice scratch off u = slice B (ps ! k * u) u"
    using holds nth by (auto simp: holds_units_def)
  have "Suc k * u \<le> count * u"
    using Suc.prems by (intro mult_le_mono1)
  then have room: "k * u + u \<le> length out" and pos: "unat (of_nat k * of_nat u :: u64) = k * u"
    using out size unat_mult_small [of k u] by simp_all
  have ub: "unat (of_nat u :: u64) = u"
    using u by (simp add: unat_of_nat_small)
  have ulen: "length (units_of B u (take k ps)) = k * u"
    using fits Suc.prems lps by (subst length_units_of) (auto dest: in_set_takeD)
  have unit: "length (slice B (ps ! k * u) u) = u"
    using fits [rule_format, of "ps ! k"] Suc.prems lps by (simp add: algebra_simps)
  have "gather_copy perm first (of_nat u) scratch m k (units_of B u (take k ps) @ drop (k * u) out) =
      Ok (units_of B u (take k ps) @ slice B (ps ! k * u) u @ drop (k * u + u) out)"
    using off held room ulen ub pos unit by (simp add: gather_copy_def memcpy_at_def add.commute)
  then show ?case
    using Suc lps by (simp add: fold_res_append take_Suc_conv_app_nth units_of_snoc add.commute)
qed (simp add: units_of_def)

lemma runs_inside:
  assumes "\<forall>p \<in> set ps. Suc p * u \<le> length B" "r \<in> set (to_runs (sort ps))"
  shows "(run_first r + run_count r) * u \<le> length B"
proof -
  have "0 < run_count r"
    using assms(2) by (rule to_runs_nonempty)
  then have "run_first r + run_count r - 1 \<in> set (concat (map run_units (to_runs (sort ps))))"
    using assms(2) by (auto simp: run_units_def intro!: bexI [of _ r])
  then have "run_first r + run_count r - 1 \<in> set ps"
    by (simp only: to_runs_units set_sort)
  then show ?thesis
    using assms(1) \<open>0 < run_count r\<close> by fastforce
qed

lemma gather_units_eq:
  assumes reads: "reads_units read B u" and size: "length B < 2 ^ 62" "count * u < 2 ^ 62" and u: "u < 2 ^ 62"
    and len: "first + count \<le> length perm" and fits: "\<forall>p \<in> set (slice perm first count). Suc p * u \<le> length B"
    and out: "length out = count * u"
  shows "gather_units read perm first count (of_nat u) out = Ok (units_of B u (slice perm first count))"
proof -
  let ?ps = "slice perm first count" and ?rs = "to_runs (sort (slice perm first count))"
  have units: "concat (map run_units ?rs) = sort ?ps"
    by (rule to_runs_units)
  have lps: "length ?ps = count"
    using len by simp
  have room: "length [] + length (concat (map run_units ?rs)) * u < 2 ^ 62"
    unfolding units using size(2) lps by simp
  have inside: "\<forall>r \<in> set ?rs. (run_first r + run_count r) * u \<le> length B"
    using runs_inside [OF fits] by blast
  have empty: "holds_units B u [] Map.empty"
    by (simp add: holds_units_def)
  obtain scratch m where fold: "fold_res (gather_run read (of_nat u)) ?rs ([], Map.empty) = Ok (scratch, m)"
    and holds: "holds_units B u scratch m" and dom: "dom m = dom Map.empty \<union> set (concat (map run_units ?rs))"
    using gather_runs_hold [OF reads size(1) u inside room empty] by blast
  have "dom m = set ?ps"
    using dom unfolding units by simp
  then have "\<forall>p \<in> set ?ps. p \<in> dom m"
    by simp
  from gather_copy_units [OF holds this refl fits len size(2) u out order_refl]
  show ?thesis
    using fold len out lps by (simp add: gather_units_def dependency_runs_def)
qed


lemma unit_window_units_of:
  assumes "\<forall>p \<in> set perm. Suc p * u \<le> length B" "first + count \<le> length perm"
  shows "unit_window (units_of B u perm) u first count = units_of B u (slice perm first count)"
proof -
  have "perm = take first perm @ slice perm first count @ drop (first + count) perm"
    by (simp add: slice_def append_take_drop_id add.commute flip: drop_drop)
  then have split: "units_of B u perm =
      units_of B u (take first perm) @ units_of B u (slice perm first count) @ units_of B u (drop (first + count) perm)"
    by (metis units_of_append)
  have "length (units_of B u (take first perm)) = first * u"
    using assms by (subst length_units_of) (auto dest: in_set_takeD)
  moreover have "length (units_of B u (slice perm first count)) = count * u"
    using assms by (subst length_units_of) (auto simp: slice_def dest: in_set_takeD in_set_dropD)
  ultimately show ?thesis
    unfolding unit_window_def split by (intro slice_append_exact) simp_all
qed

text \<open>
  Note: Gathering through sorted runs and a scratch map is the same as permuting: for a valid permutation of the
  base units and a reader that returns the base's bytes, the gathered window is the same window of the
  base permuted as a whole by \<open>permute_units\<close>. Neither of the two leaves its buffers.
\<close>

theorem gather_is_permutation:
  assumes "reads_units read B u" "is_valid_permutation perm n" "length B = n * u" "n * u < 2 ^ 62" "u < 2 ^ 62"
    and "first + count \<le> n" "length out = count * u"
  shows "\<exists>P. permute_units (replicate (n * u) 0) B perm u = Ok P \<and>
    gather_units read perm first count (of_nat u) out = Ok (unit_window P u first count)"
proof -
  have perm: "length perm = n" "\<forall>p \<in> set perm. p < n"
    using assms(2) by (auto simp: is_valid_permutation_iff)
  have fits: "\<forall>p \<in> set perm. Suc p * u \<le> length B"
    using perm(2) assms(3) by (auto intro!: mult_le_mono1 simp only: Suc_le_eq)
  then have fits': "\<forall>p \<in> set (slice perm first count). Suc p * u \<le> length B"
    by (auto simp: slice_def dest: in_set_takeD in_set_dropD)
  have "count * u \<le> n * u"
    using assms(6) by (intro mult_le_mono1) simp
  then have "count * u < 2 ^ 62"
    using assms(4) by (rule le_less_trans)
  then have "gather_units read perm first count (of_nat u) out = Ok (units_of B u (slice perm first count))"
    using assms perm fits' by (intro gather_units_eq) auto
  then show ?thesis
    using permute_units_eq [OF fits] unit_window_units_of [OF fits] perm(1) assms(6) by simp
qed

theorem gather_is_permutation_witness:
  "gather_units (\<lambda>r buf. Ok (unit_window [10, 11, 20, 21, 30, 31] 2 (run_first r) (run_count r))) [2, 0, 1] 0 2 2
     (replicate 4 0) = Ok [30, 31, 10, 11]"
proof -
  have perm: "is_valid_permutation [2, 0, 1] 3"
    by (simp add: is_valid_permutation_def eval_nat_numeral)
  have "reads_units (\<lambda>r buf. Ok (unit_window [10, 11, 20, 21, 30, 31] 2 (run_first r) (run_count r)))
      [10, 11, 20, 21, 30, 31] 2"
    by (simp add: reads_units_def)
  from gather_is_permutation [OF this perm, of 0 2 "replicate 4 0"]
  obtain P where P: "permute_units (replicate 6 0) [10, 11, 20, 21, 30, 31] [2, 0, 1] 2 = Ok P"
    "gather_units (\<lambda>r buf. Ok (unit_window [10, 11, 20, 21, 30, 31] 2 (run_first r) (run_count r))) [2, 0, 1] 0 2 2
       (replicate 4 0) = Ok (unit_window P 2 0 2)"
    by auto
  have "replicate 6 (0 :: byte) = [0, 0, 0, 0, 0, 0]"
    by (simp add: eval_nat_numeral)
  then have "P = [30, 31, 10, 11, 20, 21]"
    using P(1) by (simp add: permute_units_def permute_step_def memcpy_at_def slice_def upt_rec)
  then show ?thesis
    using P(2) by (simp add: unit_window_def slice_def)
qed

end
