(* ===== verification/Codec_Residual.thy ===== *)
theory Codec_Residual
  imports Core_Tensor
begin

section \<open>Residual kernels and byte transforms\<close>

text \<open>
  \<open>src/modules/codec\<close>: the scalar, AVX2 and AVX-512 kernels with their dispatch, the byte-plane and
  bit-shuffle transforms of \<open>compress.cpp\<close>, the zigzag encoder of \<open>diff_encoder.cpp\<close> and
  \<open>apply_residual\<close>. A kernel writes through a pointer, so its model takes the destination buffer and
  returns it overwritten. A vector register is the list of its lanes, and an intrinsic works lane by
  lane. The main results: every instruction set computes what the scalar oracle computes, the
  transforms are inverse to each other, and \<open>apply_residual\<close> undoes the encoder for every residual
  kind, transform and element type.
\<close>

datatype ResidualKind = RRaw | XorAfterPermute | ZigzagAfterPermute

datatype Transform = TNone | BytePlane | Bitshuffle

datatype Isa = Scalar | Avx2 | Avx512

subsection \<open>XOR kernels\<close>

definition xor_bytes :: "bytes \<Rightarrow> bytes \<Rightarrow> nat \<Rightarrow> nat \<Rightarrow> bytes" where
  "xor_bytes base resid i n = map (\<lambda>j. base ! j XOR resid ! j) [i..<n]"

definition xor_apply_scalar :: "bytes \<Rightarrow> bytes \<Rightarrow> bytes \<Rightarrow> nat \<Rightarrow> bytes" where
  "xor_apply_scalar dst base resid n = memcpy_at dst 0 (xor_bytes base resid 0 n)"

definition xor_encode_scalar :: "bytes \<Rightarrow> bytes \<Rightarrow> bytes \<Rightarrow> nat \<Rightarrow> bytes" where
  "xor_encode_scalar dst base target n = memcpy_at dst 0 (xor_bytes base target 0 n)"

text \<open>The vector loop, one register of \<open>W\<close> bytes at a time, then the byte-wise tail.\<close>

function xor_simd_loop :: "nat \<Rightarrow> bytes \<Rightarrow> bytes \<Rightarrow> nat \<Rightarrow> nat \<Rightarrow> bytes" where
  "xor_simd_loop W base resid i n =
     (if 0 < W \<and> i + W \<le> n
      then map2 (XOR) (slice base i W) (slice resid i W) @ xor_simd_loop W base resid (i + W) n
      else xor_bytes base resid i n)"
  by pat_completeness auto
termination
  by (relation "measure (\<lambda>(W, base, resid, i, n). n - i)") auto

declare xor_simd_loop.simps [simp del]

definition xor_apply_avx2 :: "bytes \<Rightarrow> bytes \<Rightarrow> bytes \<Rightarrow> nat \<Rightarrow> bytes" where
  "xor_apply_avx2 dst base resid n = memcpy_at dst 0 (xor_simd_loop 32 base resid 0 n)"

definition xor_encode_avx2 :: "bytes \<Rightarrow> bytes \<Rightarrow> bytes \<Rightarrow> nat \<Rightarrow> bytes" where
  "xor_encode_avx2 dst base target n = xor_apply_avx2 dst base target n"

definition xor_apply_avx512 :: "bytes \<Rightarrow> bytes \<Rightarrow> bytes \<Rightarrow> nat \<Rightarrow> bytes" where
  "xor_apply_avx512 dst base resid n = memcpy_at dst 0 (xor_simd_loop 64 base resid 0 n)"

definition xor_encode_avx512 :: "bytes \<Rightarrow> bytes \<Rightarrow> bytes \<Rightarrow> nat \<Rightarrow> bytes" where
  "xor_encode_avx512 dst base target n = xor_apply_avx512 dst base target n"

subsection \<open>Zigzag kernels\<close>

text \<open>One element of \<open>zigzag_apply_width\<close> and of \<open>zigzag_encode_width\<close>, at the width of the dtype.\<close>

definition zigzag_apply_elem :: "'a::len word \<Rightarrow> 'a word \<Rightarrow> 'a word" where
  "zigzag_apply_elem b z =
     (let mask = NOT (z AND 1) + 1; delta_bits = drop_bit 1 z XOR mask in b + delta_bits)"

definition zigzag_encode_elem :: "'a::len word \<Rightarrow> 'a word \<Rightarrow> 'a word" where
  "zigzag_encode_elem b t =
     (let kTop = push_bit (LENGTH('a) - 1) 1; delta_bits = t - b;
          sign_mask = (if (delta_bits AND kTop) \<noteq> 0 then NOT 0 else 0)
      in push_bit 1 delta_bits XOR sign_mask)"

definition load_elem :: "bytes \<Rightarrow> nat \<Rightarrow> 'a::len word" where
  "load_elem b i = of_nat (le_val (slice b (i * (LENGTH('a) div 8)) (LENGTH('a) div 8)))"

definition store_elem :: "'a::len word \<Rightarrow> bytes" where
  "store_elem x = le_bytes (LENGTH('a) div 8) (unat x)"

definition zigzag_apply_width :: "'a::len itself \<Rightarrow> bytes \<Rightarrow> bytes \<Rightarrow> nat \<Rightarrow> bytes" where
  "zigzag_apply_width T base resid count =
     concat (map (\<lambda>i. store_elem (zigzag_apply_elem (load_elem base i :: 'a word) (load_elem resid i)))
       [0..<count])"

definition zigzag_encode_width :: "'a::len itself \<Rightarrow> bytes \<Rightarrow> bytes \<Rightarrow> nat \<Rightarrow> bytes" where
  "zigzag_encode_width T base target count =
     concat (map (\<lambda>i. store_elem (zigzag_encode_elem (load_elem base i :: 'a word) (load_elem target i)))
       [0..<count])"

definition zigzag_apply_scalar :: "bytes \<Rightarrow> bytes \<Rightarrow> bytes \<Rightarrow> nat \<Rightarrow> nat \<Rightarrow> bytes" where
  "zigzag_apply_scalar dst base resid n elem_bytes =
     (if elem_bytes = 1 then memcpy_at dst 0 (zigzag_apply_width TYPE(8) base resid (n div 1))
      else if elem_bytes = 2 then memcpy_at dst 0 (zigzag_apply_width TYPE(16) base resid (n div 2))
      else if elem_bytes = 4 then memcpy_at dst 0 (zigzag_apply_width TYPE(32) base resid (n div 4))
      else if elem_bytes = 8 then memcpy_at dst 0 (zigzag_apply_width TYPE(64) base resid (n div 8))
      else dst)"

definition zigzag_encode :: "bytes \<Rightarrow> bytes \<Rightarrow> bytes \<Rightarrow> nat \<Rightarrow> nat \<Rightarrow> bytes" where
  "zigzag_encode dst base target n elem_bytes =
     (if elem_bytes = 1 then memcpy_at dst 0 (zigzag_encode_width TYPE(8) base target (n div 1))
      else if elem_bytes = 2 then memcpy_at dst 0 (zigzag_encode_width TYPE(16) base target (n div 2))
      else if elem_bytes = 4 then memcpy_at dst 0 (zigzag_encode_width TYPE(32) base target (n div 4))
      else if elem_bytes = 8 then memcpy_at dst 0 (zigzag_encode_width TYPE(64) base target (n div 8))
      else dst)"

text \<open>A register of \<open>L\<close> 16-bit lanes, and the lane-wise zigzag step of the two vector kernels.\<close>

definition load_lanes :: "nat \<Rightarrow> bytes \<Rightarrow> nat \<Rightarrow> u16 list" where
  "load_lanes L b i = map (\<lambda>k. load_elem b (i + k)) [0..<L]"

definition store_lanes :: "u16 list \<Rightarrow> bytes" where
  "store_lanes r = concat (map store_elem r)"

definition zigzag_lanes :: "nat \<Rightarrow> u16 list \<Rightarrow> u16 list \<Rightarrow> u16 list" where
  "zigzag_lanes L b z =
     (let one = replicate L 1;
          low_bit = map2 (AND) z one;
          mask = map2 (-) (replicate L 0) low_bit;
          delta_bits = map2 (XOR) (map (drop_bit 1) z) mask
      in map2 (+) b delta_bits)"

function zigzag_simd_loop :: "nat \<Rightarrow> bytes \<Rightarrow> bytes \<Rightarrow> nat \<Rightarrow> nat \<Rightarrow> bytes" where
  "zigzag_simd_loop L base resid i count =
     (if 0 < L \<and> i + L \<le> count
      then store_lanes (zigzag_lanes L (load_lanes L base i) (load_lanes L resid i))
           @ zigzag_simd_loop L base resid (i + L) count
      else if i < count
      then zigzag_apply_scalar (replicate ((count - i) * 2) 0) (drop (i * 2) base) (drop (i * 2) resid)
             ((count - i) * 2) 2
      else [])"
  by pat_completeness auto
termination
  by (relation "measure (\<lambda>(L, base, resid, i, count). count - i)") auto

declare zigzag_simd_loop.simps [simp del]

definition zigzag_apply_avx2 :: "bytes \<Rightarrow> bytes \<Rightarrow> bytes \<Rightarrow> nat \<Rightarrow> nat \<Rightarrow> bytes" where
  "zigzag_apply_avx2 dst base resid n elem_bytes =
     (if elem_bytes = 2 then memcpy_at dst 0 (zigzag_simd_loop 16 base resid 0 (n div 2))
      else zigzag_apply_scalar dst base resid n elem_bytes)"

definition zigzag_apply_avx512 :: "bytes \<Rightarrow> bytes \<Rightarrow> bytes \<Rightarrow> nat \<Rightarrow> nat \<Rightarrow> bytes" where
  "zigzag_apply_avx512 dst base resid n elem_bytes =
     (if elem_bytes = 2 then memcpy_at dst 0 (zigzag_simd_loop 32 base resid 0 (n div 2))
      else zigzag_apply_scalar dst base resid n elem_bytes)"

subsection \<open>Dispatch\<close>

primrec xor_apply_dispatch :: "Isa \<Rightarrow> bytes \<Rightarrow> bytes \<Rightarrow> bytes \<Rightarrow> nat \<Rightarrow> bytes" where
  "xor_apply_dispatch Avx512 = xor_apply_avx512"
| "xor_apply_dispatch Avx2 = xor_apply_avx2"
| "xor_apply_dispatch Scalar = xor_apply_scalar"

primrec xor_encode_dispatch :: "Isa \<Rightarrow> bytes \<Rightarrow> bytes \<Rightarrow> bytes \<Rightarrow> nat \<Rightarrow> bytes" where
  "xor_encode_dispatch Avx512 = xor_encode_avx512"
| "xor_encode_dispatch Avx2 = xor_encode_avx2"
| "xor_encode_dispatch Scalar = xor_encode_scalar"

primrec zigzag_apply_dispatch :: "Isa \<Rightarrow> bytes \<Rightarrow> bytes \<Rightarrow> bytes \<Rightarrow> nat \<Rightarrow> nat \<Rightarrow> bytes" where
  "zigzag_apply_dispatch Avx512 = zigzag_apply_avx512"
| "zigzag_apply_dispatch Avx2 = zigzag_apply_avx2"
| "zigzag_apply_dispatch Scalar = zigzag_apply_scalar"

subsection \<open>Byte transforms\<close>

definition whole_elems :: "nat \<Rightarrow> nat \<Rightarrow> nat" where
  "whole_elems total_bytes elem_bytes = (if elem_bytes = 0 then 0 else total_bytes div elem_bytes)"

definition byteplane_split :: "bytes \<Rightarrow> nat \<Rightarrow> bytes" where
  "byteplane_split src elem_bytes =
     (if elem_bytes \<le> 1 then src
      else let n = whole_elems (length src) elem_bytes
           in concat (map (\<lambda>plane. map (\<lambda>i. src ! (i * elem_bytes + plane)) [0..<n]) [0..<elem_bytes])
              @ drop (elem_bytes * n) src)"

definition byteplane_writes :: "bytes \<Rightarrow> nat \<Rightarrow> nat \<Rightarrow> (nat \<times> byte) list" where
  "byteplane_writes src elem_bytes n =
     concat (map (\<lambda>plane. map (\<lambda>i. (i * elem_bytes + plane, src ! (plane * n + i))) [0..<n]) [0..<elem_bytes])"

definition byteplane_join :: "bytes \<Rightarrow> bytes \<Rightarrow> nat \<Rightarrow> bytes" where
  "byteplane_join src dst elem_bytes =
     (if elem_bytes \<le> 1 then memcpy_at dst 0 src
      else let n = whole_elems (length dst) elem_bytes;
               dst1 = scatter (byteplane_writes src elem_bytes n) dst
           in memcpy_at dst1 (elem_bytes * n) (slice src (elem_bytes * n) (length dst - elem_bytes * n)))"

definition pack_bits :: "bytes \<Rightarrow> nat \<Rightarrow> nat \<Rightarrow> nat \<Rightarrow> byte" where
  "pack_bits src elem_bytes bit_ix g =
     foldl (\<lambda>packed k. packed OR
              push_bit k (drop_bit (bit_ix mod 8) (src ! ((g * 8 + k) * elem_bytes + bit_ix div 8)) AND 1))
       0 [0..<8]"

definition bitshuffle :: "bytes \<Rightarrow> nat \<Rightarrow> bytes" where
  "bitshuffle src elem_bytes =
     (if elem_bytes = 0 \<or> src = [] then src
      else let n = whole_elems (length src) elem_bytes;
               n8 = (n div 8) * 8;
               total_bits = elem_bytes * 8;
               bytes_per_plane = n8 div 8;
               shuffled_bytes = total_bits * bytes_per_plane
           in concat (map (\<lambda>bit_ix. map (pack_bits src elem_bytes bit_ix) [0..<bytes_per_plane]) [0..<total_bits])
              @ drop shuffled_bytes src)"

definition bit_writes :: "bytes \<Rightarrow> nat \<Rightarrow> nat \<Rightarrow> (nat \<times> byte) list" where
  "bit_writes src elem_bytes bytes_per_plane =
     concat (map (\<lambda>bit_ix. concat (map (\<lambda>g. map (\<lambda>k.
        ((g * 8 + k) * elem_bytes + bit_ix div 8,
         push_bit (bit_ix mod 8) (drop_bit k (src ! (bit_ix * bytes_per_plane + g)) AND 1)))
        [0..<8]) [0..<bytes_per_plane])) [0..<elem_bytes * 8])"

definition bitunshuffle :: "bytes \<Rightarrow> bytes \<Rightarrow> nat \<Rightarrow> bytes" where
  "bitunshuffle src dst elem_bytes =
     (if elem_bytes = 0 \<or> src = [] then memcpy_at dst 0 src
      else let n = whole_elems (length dst) elem_bytes;
               n8 = (n div 8) * 8;
               total_bits = elem_bytes * 8;
               bytes_per_plane = n8 div 8;
               shuffled_bytes = total_bits * bytes_per_plane;
               dst0 = memcpy_at dst 0 (replicate shuffled_bytes 0);
               dst1 = or_scatter (bit_writes src elem_bytes bytes_per_plane) dst0
           in memcpy_at dst1 shuffled_bytes (slice src shuffled_bytes (length dst - shuffled_bytes)))"

subsection \<open>Applying a residual\<close>

definition apply_residual ::
  "Isa \<Rightarrow> ResidualKind \<Rightarrow> Transform \<Rightarrow> DType \<Rightarrow> bytes \<Rightarrow> bytes \<Rightarrow> bytes \<Rightarrow> bytes res" where
  "apply_residual isa kind transform dtype base residual out =
     (if length out \<noteq> length residual then SFS_ERR Internal []
      else let elem_bytes = dtype_size dtype
      in if elem_bytes = 0 then SFS_ERR UnsupportedDType []
      else let payload =
             (if transform = TNone then residual
              else if transform = BytePlane
              then byteplane_join residual (replicate (length residual) 0) elem_bytes
              else bitunshuffle residual (replicate (length residual) 0) elem_bytes)
      in case kind of
           RRaw \<Rightarrow> Ok (memcpy_at out 0 payload)
         | XorAfterPermute \<Rightarrow>
             (if length base \<noteq> length payload then SFS_ERR MalformedObject []
              else Ok (xor_apply_dispatch isa out base payload (length out)))
         | ZigzagAfterPermute \<Rightarrow>
             (if length base \<noteq> length payload then SFS_ERR MalformedObject []
              else if length payload mod elem_bytes \<noteq> 0 then SFS_ERR MalformedObject []
              else Ok (zigzag_apply_dispatch isa out base payload (length out) elem_bytes)))"

text \<open>
  The encoder's half, from the frame loop of \<open>encode_group\<close>: the residual of one frame against the
  gathered base bytes, and the transform of it that is then compressed.
\<close>

definition encode_residual :: "Isa \<Rightarrow> ResidualKind \<Rightarrow> DType \<Rightarrow> bytes \<Rightarrow> bytes \<Rightarrow> bytes" where
  "encode_residual isa kind dtype base_gathered target_bytes =
     (case kind of
        RRaw \<Rightarrow> target_bytes
      | XorAfterPermute \<Rightarrow>
          xor_encode_dispatch isa (replicate (length target_bytes) 0) base_gathered target_bytes (length target_bytes)
      | ZigzagAfterPermute \<Rightarrow>
          zigzag_encode (replicate (length target_bytes) 0) base_gathered target_bytes (length target_bytes)
            (dtype_size dtype))"

definition transform_residual :: "Transform \<Rightarrow> DType \<Rightarrow> bytes \<Rightarrow> bytes" where
  "transform_residual transform dtype resid =
     (case transform of
        TNone \<Rightarrow> resid
      | BytePlane \<Rightarrow> byteplane_split resid (dtype_size dtype)
      | Bitshuffle \<Rightarrow> bitshuffle resid (dtype_size dtype))"

subsection \<open>XOR lemmas\<close>

lemma xor_bytes_split: "i \<le> j \<Longrightarrow> j \<le> n \<Longrightarrow> xor_bytes a b i n = xor_bytes a b i j @ xor_bytes a b j n"
  using upt_add_eq_append [of i j "n - j"] by (simp add: xor_bytes_def)

lemma map2_slice_xor:
  "i + W \<le> length a \<Longrightarrow> i + W \<le> length b \<Longrightarrow>
   map2 (XOR) (slice a i W) (slice b i W) = xor_bytes a b i (i + W)"
  by (rule nth_equalityI) (auto simp: xor_bytes_def)

lemma xor_simd_loop_eq:
  "n \<le> length a \<Longrightarrow> n \<le> length b \<Longrightarrow> i \<le> n \<Longrightarrow> xor_simd_loop W a b i n = xor_bytes a b i n"
proof (induction W a b i n rule: xor_simd_loop.induct)
  case (1 W a b i n)
  then show ?case
    by (subst xor_simd_loop.simps) (simp add: map2_slice_xor flip: xor_bytes_split)
qed

lemma memcpy_at_all: "length src = length dst \<Longrightarrow> memcpy_at dst 0 src = src"
  by (simp add: memcpy_at_def)

lemma length_xor_bytes [simp]: "length (xor_bytes a b i n) = n - i"
  by (simp add: xor_bytes_def)

lemma xor_bytes_cancel:
  "length t = n \<Longrightarrow> xor_bytes b (xor_bytes b t 0 n) 0 n = t"
  by (rule nth_equalityI) (simp_all add: xor_bytes_def flip: xor.assoc)

subsection \<open>Zigzag lemmas\<close>

lemma neg_low_bit: "NOT (z AND 1) + 1 = (if bit z 0 then - 1 else (0 :: 'a::len word))"
proof -
  have "NOT (z AND 1) + 1 = - (z AND 1)"
    by (rule minus_eq_not_plus_1 [symmetric])
  then show ?thesis
    by (simp add: and_one_eq bit_0 mod_2_eq_odd)
qed

lemma bit_zigzag_bits:
  fixes d :: "'a::len word"
  assumes "n < LENGTH('a)"
  shows "bit (push_bit 1 d XOR (if (d AND push_bit (LENGTH('a) - 1) 1) \<noteq> 0 then NOT 0 else 0)) n \<longleftrightarrow>
    ((n \<noteq> 0 \<and> bit d (n - 1)) \<noteq> bit d (LENGTH('a) - 1))"
proof -
  have top: "(d AND push_bit (LENGTH('a) - 1) 1) \<noteq> 0 \<longleftrightarrow> bit d (LENGTH('a) - 1)"
    by (rule bit_iff_and_push_bit_not_eq_0 [symmetric])
  have "bit (push_bit 1 d) n \<longleftrightarrow> n \<noteq> 0 \<and> bit d (n - 1)"
    using assms by (simp only: bit_push_bit_iff possible_bit_word) auto
  then show ?thesis
    unfolding top bit_xor_iff using assms by (simp add: bit_not_iff)
qed

lemma bit_zigzag_code:
  assumes "n < LENGTH('a)"
  shows "bit (zigzag_encode_elem b t :: 'a::len word) n \<longleftrightarrow>
    ((n \<noteq> 0 \<and> bit (t - b) (n - 1)) \<noteq> bit (t - b) (LENGTH('a) - 1))"
  unfolding zigzag_encode_elem_def Let_def by (rule bit_zigzag_bits [OF assms])

lemma zigzag_delta:
  fixes b t :: "'a::len word"
  defines "z \<equiv> zigzag_encode_elem b t"
  shows "drop_bit 1 z XOR (NOT (z AND 1) + 1) = t - b"
proof (rule bit_word_eqI)
  fix n
  assume n: "n < LENGTH('a)"
  let ?s = "bit (t - b) (LENGTH('a) - 1)"
  have low: "bit z 0 \<longleftrightarrow> ?s"
    by (simp add: z_def bit_zigzag_code)
  have high: "bit (drop_bit 1 z) n \<longleftrightarrow> Suc n < LENGTH('a) \<and> (bit (t - b) n \<noteq> ?s)"
    by (cases "Suc n < LENGTH('a)")
      (auto simp: z_def bit_drop_bit_eq bit_zigzag_code dest: bit_imp_le_length)
  have neg: "bit (NOT (z AND 1) + 1) n \<longleftrightarrow> ?s"
    using n by (simp only: neg_low_bit low) simp
  show "bit (drop_bit 1 z XOR (NOT (z AND 1) + 1)) n = bit (t - b) n"
  proof (cases "Suc n < LENGTH('a)")
    case True
    then show ?thesis
      by (simp only: bit_xor_iff high neg) blast
  next
    case False
    with n have "bit (t - b) n = ?s"
      by (metis Suc_lessI diff_Suc_1)
    with False show ?thesis
      by (simp only: bit_xor_iff high neg) blast
  qed
qed

lemma zigzag_elem_roundtrip [simp]: "zigzag_apply_elem b (zigzag_encode_elem b t) = t"
  unfolding zigzag_apply_elem_def Let_def zigzag_delta by simp


lemma length_store_elem [simp]: "length (store_elem (x :: 'a::len word)) = LENGTH('a) div 8"
  by (simp add: store_elem_def)

lemma load_store_elem:
  assumes "8 dvd LENGTH('a)" "\<forall>x \<in> set xs. length x = LENGTH('a) div 8" "i < length xs"
    and "xs ! i = store_elem (v :: 'a::len word)"
  shows "load_elem (concat xs) i = v"
proof -
  have "256 ^ (LENGTH('a) div 8) = (2 :: nat) ^ LENGTH('a)"
    using assms(1) by (auto simp: power_mult elim!: dvdE)
  then have "unat v mod 256 ^ (LENGTH('a) div 8) = unat v"
    using unsigned_less [of v, where ?'a = nat] by simp
  then show ?thesis
    unfolding load_elem_def slice_concat_unit [OF assms(2,3)] assms(4) store_elem_def le_val_le_bytes
    by simp
qed

lemma store_load_elem:
  assumes "8 dvd LENGTH('a)" "Suc i * (LENGTH('a) div 8) \<le> length b"
  shows "store_elem (load_elem b i :: 'a::len word) = slice b (i * (LENGTH('a) div 8)) (LENGTH('a) div 8)"
proof -
  let ?s = "slice b (i * (LENGTH('a) div 8)) (LENGTH('a) div 8)"
  have w: "256 ^ (LENGTH('a) div 8) = (2 :: nat) ^ LENGTH('a)"
    using assms(1) by (auto simp: power_mult elim!: dvdE)
  have l: "length ?s = LENGTH('a) div 8"
    using assms(2) by simp
  then have "le_val ?s < 2 ^ LENGTH('a)"
    using le_val_bound [of ?s] w by simp
  then have "unat (of_nat (le_val ?s) :: 'a word) = le_val ?s"
    by (simp add: unat_of_nat)
  then show ?thesis
    unfolding store_elem_def load_elem_def by (simp only: le_bytes_le_val [OF l])
qed

lemma zigzag_width_roundtrip:
  assumes "8 dvd LENGTH('a)" "length t = count * (LENGTH('a) div 8)"
  shows "zigzag_apply_width TYPE('a::len) b (zigzag_encode_width TYPE('a) b t count) count = t"
proof -
  have "store_elem (zigzag_apply_elem (load_elem b i :: 'a word)
      (load_elem (zigzag_encode_width TYPE('a) b t count) i)) =
      slice t (i * (LENGTH('a) div 8)) (LENGTH('a) div 8)" if "i < count" for i
  proof -
    have "load_elem (zigzag_encode_width TYPE('a) b t count) i =
        zigzag_encode_elem (load_elem b i :: 'a word) (load_elem t i)"
      unfolding zigzag_encode_width_def using assms(1) that by (intro load_store_elem) auto
    moreover have "Suc i * (LENGTH('a) div 8) \<le> length t"
      unfolding assms(2) using that by (intro mult_le_mono1) simp
    ultimately show ?thesis
      using store_load_elem [OF assms(1)] by simp
  qed
  then have "zigzag_apply_width TYPE('a) b (zigzag_encode_width TYPE('a) b t count) count =
      concat (map (\<lambda>i. slice t (i * (LENGTH('a) div 8)) (LENGTH('a) div 8)) [0..<count])"
    unfolding zigzag_apply_width_def by (intro arg_cong [where f = concat] map_cong) auto
  then show ?thesis
    using concat_slices [of count "LENGTH('a) div 8" t] assms(2) by simp
qed

lemma length_zigzag_width [simp]:
  "length (zigzag_apply_width TYPE('a::len) b r n) = n * (LENGTH('a) div 8)"
  "length (zigzag_encode_width TYPE('a::len) b r n) = n * (LENGTH('a) div 8)"
  unfolding zigzag_apply_width_def zigzag_encode_width_def
  by (subst length_concat_uniform [where k = "LENGTH('a) div 8"]; auto)+

lemma zigzag_scalar_roundtrip:
  assumes "e \<in> {1, 2, 4, 8}" "length b = length t" "length out = length t" "length t mod e = 0"
  shows "zigzag_apply_scalar out b (zigzag_encode (replicate (length t) 0) b t (length t) e) (length t) e = t"
proof -
  have m: "length t div e * e = length t"
    using assms(4) by auto
  consider "e = 1" | "e = 2" | "e = 4" | "e = 8"
    using assms(1) by auto
  then show ?thesis
  proof cases
    case 1
    then show ?thesis
      using zigzag_width_roundtrip [where 'a = 8, of t "length t" b] assms(2,3)
      by (simp add: zigzag_apply_scalar_def zigzag_encode_def memcpy_at_all)
  next
    case 2
    then show ?thesis
      using zigzag_width_roundtrip [where 'a = 16, of t "length t div 2" b] assms(2,3) m
      by (simp add: zigzag_apply_scalar_def zigzag_encode_def memcpy_at_all)
  next
    case 3
    then show ?thesis
      using zigzag_width_roundtrip [where 'a = 32, of t "length t div 4" b] assms(2,3) m
      by (simp add: zigzag_apply_scalar_def zigzag_encode_def memcpy_at_all)
  next
    case 4
    then show ?thesis
      using zigzag_width_roundtrip [where 'a = 64, of t "length t div 8" b] assms(2,3) m
      by (simp add: zigzag_apply_scalar_def zigzag_encode_def memcpy_at_all)
  qed
qed

lemma zigzag_apply_width_0 [simp]: "zigzag_apply_width T b r 0 = []"
  by (simp add: zigzag_apply_width_def)

subsection \<open>The vector kernels compute what the scalar kernels compute\<close>

lemma zigzag_apply_elem_neg: "zigzag_apply_elem b z = b + (drop_bit 1 z XOR (0 - (z AND 1)))"
  unfolding zigzag_apply_elem_def Let_def by (simp only: minus_eq_not_plus_1 [symmetric] diff_0)

lemma zigzag_lanes_eq:
  assumes "length b = L" "length z = L"
  shows "zigzag_lanes L b z = map2 zigzag_apply_elem b z"
proof (rule nth_equalityI)
  fix i
  assume "i < length (zigzag_lanes L b z)"
  with assms have "i < L"
    by (simp add: zigzag_lanes_def)
  then show "zigzag_lanes L b z ! i = map2 zigzag_apply_elem b z ! i"
    using assms by (simp add: zigzag_lanes_def zigzag_apply_elem_neg)
qed (use assms in \<open>simp add: zigzag_lanes_def\<close>)

lemma store_zigzag_lanes:
  "store_lanes (zigzag_lanes L (load_lanes L base i) (load_lanes L resid i)) =
   concat (map (\<lambda>j. store_elem (zigzag_apply_elem (load_elem base j :: u16) (load_elem resid j))) [i..<i + L])"
proof -
  have "map2 zigzag_apply_elem (load_lanes L base i) (load_lanes L resid i) =
      map (\<lambda>j. zigzag_apply_elem (load_elem base j :: u16) (load_elem resid j)) [i..<i + L]"
    by (rule nth_equalityI) (simp_all add: load_lanes_def)
  then show ?thesis
    by (simp add: zigzag_lanes_eq load_lanes_def store_lanes_def o_def)
qed

lemma load_elem_drop:
  "i * (LENGTH('a) div 8) = k \<Longrightarrow> load_elem (drop k b) j = (load_elem b (i + j) :: 'a::len word)"
  by (simp add: load_elem_def slice_def add_mult_distrib add.commute)

lemma zigzag_tail:
  "concat (map (\<lambda>j. store_elem (zigzag_apply_elem (load_elem base j :: u16) (load_elem resid j))) [i..<count]) =
   zigzag_apply_width TYPE(16) (drop (i * 2) base) (drop (i * 2) resid) (count - i)"
proof -
  have "map (\<lambda>j. store_elem (zigzag_apply_elem (load_elem base j :: u16) (load_elem resid j))) [i..<count] =
      map (\<lambda>j. store_elem (zigzag_apply_elem (load_elem (drop (i * 2) base) j :: u16)
                 (load_elem (drop (i * 2) resid) j))) [0..<count - i]"
    by (rule nth_equalityI) (simp_all add: load_elem_drop [of i "i * 2"])
  then show ?thesis
    unfolding zigzag_apply_width_def by simp
qed

lemma zigzag_simd_loop_eq:
  "zigzag_simd_loop L base resid i count =
   concat (map (\<lambda>j. store_elem (zigzag_apply_elem (load_elem base j :: u16) (load_elem resid j))) [i..<count])"
proof (induction L base resid i count rule: zigzag_simd_loop.induct)
  case (1 L base resid i count)
  show ?case
  proof (cases "0 < L \<and> i + L \<le> count")
    case True
    then have "[i..<count] = [i..<i + L] @ [i + L..<count]"
      using upt_add_eq_append [of i "i + L" "count - (i + L)"] by simp
    with True 1 show ?thesis
      by (subst zigzag_simd_loop.simps) (simp add: store_zigzag_lanes)
  next
    case False
    have "zigzag_apply_scalar (replicate ((count - i) * 2) 0) (drop (i * 2) base) (drop (i * 2) resid)
        ((count - i) * 2) 2 = zigzag_apply_width TYPE(16) (drop (i * 2) base) (drop (i * 2) resid) (count - i)"
      by (simp add: zigzag_apply_scalar_def memcpy_at_all)
    with False show ?thesis
      by (subst zigzag_simd_loop.simps) (auto simp: zigzag_tail)
  qed
qed

lemma xor_dispatch_eq:
  assumes "length base = n" "length resid = n" "length dst = n"
  shows "xor_apply_dispatch isa dst base resid n = xor_bytes base resid 0 n"
    and "xor_encode_dispatch isa dst base resid n = xor_bytes base resid 0 n"
  using assms
  by (cases isa; simp add: xor_apply_scalar_def xor_encode_scalar_def xor_apply_avx2_def xor_encode_avx2_def
      xor_apply_avx512_def xor_encode_avx512_def xor_simd_loop_eq memcpy_at_all)+

lemma zigzag_dispatch_eq: "zigzag_apply_dispatch isa = zigzag_apply_scalar"
  by (intro ext, cases isa)
    (simp_all add: zigzag_apply_avx2_def zigzag_apply_avx512_def zigzag_simd_loop_eq zigzag_apply_scalar_def
      zigzag_apply_width_def)

subsection \<open>The transforms are inverse to each other\<close>

lemma scatter_consistent:
  assumes "\<And>w. (i, w) \<in> set us \<Longrightarrow> w = v" "(i, v) \<in> set us" "i < length d"
  shows "scatter us d ! i = v"
  using assms
proof (induction us arbitrary: d)
  case (Cons u us)
  obtain j w where u: "u = (j, w)" by (cases u)
  show ?case
  proof (cases "(i, v) \<in> set us")
    case True
    with Cons u show ?thesis by simp
  next
    case False
    then have "i \<notin> fst ` set us"
      using Cons.prems(1) by force
    moreover have "j = i" "w = v"
      using Cons.prems(2) False u by auto
    ultimately show ?thesis
      using u Cons.prems(3) by (simp add: scatter_other)
  qed
qed simp

lemma byteplane_split_shape:
  fixes src :: bytes and e :: nat
  assumes "1 < e"
  defines "n \<equiv> length src div e"
  shows "length (byteplane_split src e) = length src"
    and "\<lbrakk>plane < e; i < n\<rbrakk> \<Longrightarrow> byteplane_split src e ! (plane * n + i) = src ! (i * e + plane)"
    and "drop (e * n) (byteplane_split src e) = drop (e * n) src"
proof -
  let ?P = "concat (map (\<lambda>plane. map (\<lambda>i. src ! (i * e + plane)) [0..<n]) [0..<e])"
  have u: "\<forall>x \<in> set (map (\<lambda>plane. map (\<lambda>i. src ! (i * e + plane)) [0..<n]) [0..<e]). length x = n"
    by auto
  have eq: "byteplane_split src e = ?P @ drop (e * n) src"
    using assms(1) by (simp add: byteplane_split_def whole_elems_def n_def Let_def)
  have len: "length ?P = e * n"
    using length_concat_uniform [OF u] by simp
  show "length (byteplane_split src e) = length src"
    unfolding eq length_append len by (simp add: n_def)
  show "drop (e * n) (byteplane_split src e) = drop (e * n) src"
    unfolding eq using len by simp
  show "byteplane_split src e ! (plane * n + i) = src ! (i * e + plane)" if "plane < e" "i < n"
  proof -
    have "Suc plane * n \<le> e * n"
      using that(1) by (intro mult_le_mono1) simp
    then have lt: "plane * n + i < e * n"
      using that(2) by simp
    then have "?P ! (plane * n + i) = src ! (i * e + plane)"
      using nth_concat_uniform [OF u, of "plane * n + i"] that by simp
    then show ?thesis
      unfolding eq using lt len by (simp add: nth_append)
  qed
qed

lemma in_set_concat_mapI: "x \<in> set xs \<Longrightarrow> y \<in> set (f x) \<Longrightarrow> y \<in> set (concat (map f xs))"
  by auto

lemma byteplane_writesI:
  "plane < e \<Longrightarrow> i < n \<Longrightarrow> (i * e + plane, S ! (plane * n + i)) \<in> set (byteplane_writes S e n)"
  unfolding byteplane_writes_def by (rule in_set_concat_mapI [of plane]) auto

lemma bit_writesI:
  "bi < e * 8 \<Longrightarrow> g < m \<Longrightarrow> k < 8 \<Longrightarrow>
   ((g * 8 + k) * e + bi div 8, push_bit (bi mod 8) (drop_bit k (S ! (bi * m + g)) AND 1))
     \<in> set (bit_writes S e m)"
  unfolding bit_writes_def
  by (rule in_set_concat_mapI [of bi], simp, rule in_set_concat_mapI [of g], simp) (auto intro: rev_image_eqI)

lemma byteplane_join_split:
  assumes "length dst = length src"
  shows "byteplane_join (byteplane_split src e) dst e = src"
proof (cases "e \<le> 1")
  case True
  then show ?thesis
    using assms by (simp add: byteplane_join_def byteplane_split_def memcpy_at_all)
next
  case False
  define n where "n = length src div e"
  define S where "S = byteplane_split src e"
  define W where "W = byteplane_writes S e n"
  note shape = byteplane_split_shape [where src = src and e = e, folded n_def S_def]
  have e: "1 < e" using False by simp
  have le: "e * n \<le> length src" by (simp add: n_def)
  have written: "scatter W dst ! p = src ! p" if "p < e * n" for p
  proof (rule scatter_consistent)
    have pq: "p div e < n" "p mod e < e"
      using that uniform_index [of p n e] by (simp_all add: mult.commute)
    have "(p, src ! p) = (p div e * e + p mod e, S ! (p mod e * n + p div e))"
      using shape(2) [OF e, of "p mod e" "p div e"] pq by simp
    then show "(p, src ! p) \<in> set W"
      unfolding W_def using byteplane_writesI [OF pq(2,1)] by (simp only:)
    show "w = src ! p" if "(p, w) \<in> set W" for w
      using that shape(2) [OF e] by (auto simp: W_def byteplane_writes_def)
    show "p < length dst"
      using that le assms by simp
  qed
  have "byteplane_join S dst e = memcpy_at (scatter W dst) (e * n) (slice S (e * n) (length dst - e * n))"
    using e assms by (simp add: byteplane_join_def whole_elems_def n_def W_def Let_def)
  also have "\<dots> = take (e * n) (scatter W dst) @ drop (e * n) src"
    using shape(1,3) [OF e] assms le by (simp add: memcpy_at_def slice_def)
  also have "take (e * n) (scatter W dst) = take (e * n) src"
    using written le assms by (intro nth_equalityI) auto
  finally show ?thesis
    by (simp add: S_def)
qed

lemma bit_of_shifted_bit:
  assumes "j < 8"
  shows "bit (push_bit k (drop_bit m x AND 1) :: byte) j \<longleftrightarrow> j = k \<and> bit x m"
proof -
  have b: "drop_bit m x AND 1 = (if bit x m then 1 else 0)"
    by (simp add: and_one_eq bit_iff_odd_drop_bit mod_2_eq_odd)
  show ?thesis
    unfolding b using assms by (cases "bit x m") (auto simp: bit_push_bit_iff bit_1_iff simp del: push_bit_of_1)
qed

lemma bit_pack_bits:
  assumes "k < 8"
  shows "bit (pack_bits src e bi g) k \<longleftrightarrow> bit (src ! ((g * 8 + k) * e + bi div 8)) (bi mod 8)"
proof -
  define f where "f k = src ! ((g * 8 + k) * e + bi div 8)" for k
  have fold: "bit (foldl (\<lambda>packed k. packed OR push_bit k (drop_bit m (f k) AND 1)) x ks :: byte) j \<longleftrightarrow>
      bit x j \<or> (j \<in> set ks \<and> bit (f j) m)" if "j < 8" for x :: byte and ks j and m :: nat
  proof (induction ks arbitrary: x)
    case (Cons k ks)
    show ?case
      unfolding foldl_Cons Cons bit_or_iff bit_of_shifted_bit [OF that] by auto
  qed simp
  show ?thesis
    using fold [OF assms, of "bi mod 8" 0 "[0..<8]"] assms by (simp add: pack_bits_def f_def)
qed

lemma bitshuffle_shape:
  fixes src :: bytes and e :: nat
  assumes "0 < e" "src \<noteq> []"
  defines "m \<equiv> length src div e div 8"
  shows "length (bitshuffle src e) = length src"
    and "\<lbrakk>bi < e * 8; g < m\<rbrakk> \<Longrightarrow> bitshuffle src e ! (bi * m + g) = pack_bits src e bi g"
    and "drop (e * 8 * m) (bitshuffle src e) = drop (e * 8 * m) src"
    and "e * 8 * m \<le> length src"
proof -
  let ?P = "concat (map (\<lambda>bi. map (pack_bits src e bi) [0..<m]) [0..<e * 8])"
  have u: "\<forall>x \<in> set (map (\<lambda>bi. map (pack_bits src e bi) [0..<m]) [0..<e * 8]). length x = m"
    by auto
  have eq: "bitshuffle src e = ?P @ drop (e * 8 * m) src"
    using assms(1,2) by (simp add: bitshuffle_def whole_elems_def m_def Let_def)
  have len: "length ?P = e * 8 * m"
    using length_concat_uniform [OF u] by simp
  have "m = length src div (e * 8)"
    by (simp add: m_def div_mult2_eq)
  then show le: "e * 8 * m \<le> length src"
    by simp
  show "length (bitshuffle src e) = length src"
    unfolding eq length_append len using le by simp
  show "drop (e * 8 * m) (bitshuffle src e) = drop (e * 8 * m) src"
    unfolding eq using len by simp
  show "bitshuffle src e ! (bi * m + g) = pack_bits src e bi g" if "bi < e * 8" "g < m"
  proof -
    have "Suc bi * m \<le> e * 8 * m"
      using that(1) by (intro mult_le_mono1) simp
    then have lt: "bi * m + g < e * 8 * m"
      using that(2) by simp
    then have "?P ! (bi * m + g) = pack_bits src e bi g"
      using nth_concat_uniform [OF u, of "bi * m + g"] that by simp
    then show ?thesis
      unfolding eq using lt len by (simp add: nth_append)
  qed
qed

lemma bitunshuffle_bitshuffle:
  assumes "length dst = length src"
  shows "bitunshuffle (bitshuffle src e) dst e = src"
proof (cases "e = 0 \<or> src = []")
  case True
  then show ?thesis
    using assms by (auto simp: bitunshuffle_def bitshuffle_def memcpy_at_all)
next
  case False
  define m where "m = length src div e div 8"
  define S where "S = bitshuffle src e"
  define d0 where "d0 = memcpy_at dst 0 (replicate (e * 8 * m) 0)"
  define W where "W = bit_writes S e m"
  have e: "0 < e" "src \<noteq> []" using False by auto
  note shape = bitshuffle_shape [OF e, folded m_def S_def]
  have d0: "length d0 = length src" "\<And>p. p < e * 8 * m \<Longrightarrow> d0 ! p = 0"
    using shape(4) assms by (simp_all add: d0_def nth_memcpy_at)
  have written: "or_scatter W d0 ! p = src ! p" if p: "p < e * 8 * m" for p
  proof (rule bit_word_eqI)
    fix n
    assume "n < LENGTH(8)"
    then have n: "n < 8" by simp
    have "(\<exists>v. (p, v) \<in> set W \<and> bit v n) \<longleftrightarrow> bit (src ! p) n"
    proof
      assume "\<exists>v. (p, v) \<in> set W \<and> bit v n"
      then obtain bi g k where w: "bi < e * 8" "g < m" "k < 8" "p = (g * 8 + k) * e + bi div 8"
        and b: "bit (push_bit (bi mod 8) (drop_bit k (S ! (bi * m + g)) AND 1) :: byte) n"
        by (auto simp: W_def bit_writes_def)
      then show "bit (src ! p) n"
        using bit_of_shifted_bit [OF n, of "bi mod 8" k "S ! (bi * m + g)"] shape(2) bit_pack_bits by simp
    next
      assume b: "bit (src ! p) n"
      define q r where "q = p div e" and "r = p mod e"
      have q: "q < m * 8" "r < e"
        using p uniform_index [of p "m * 8" e] by (simp_all add: q_def r_def ac_simps)
      define bi g k where "bi = r * 8 + n" and "g = q div 8" and "k = q mod 8"
      have w: "bi < e * 8" "g < m" "k < 8" "bi div 8 = r" "bi mod 8 = n"
        using q n by (auto simp: bi_def g_def k_def)
      have pos: "(g * 8 + k) * e + bi div 8 = p"
        using w by (simp add: g_def k_def q_def r_def)
      let ?v = "push_bit (bi mod 8) (drop_bit k (S ! (bi * m + g)) AND 1) :: byte"
      have "bit ?v n"
        using bit_of_shifted_bit [OF n, of "bi mod 8" k "S ! (bi * m + g)"] shape(2) [OF w(1,2)] bit_pack_bits [OF w(3)] pos w(5) b
        by simp
      moreover have "(p, ?v) \<in> set W"
        using bit_writesI [OF w(1-3)] unfolding W_def pos .
      ultimately show "\<exists>v. (p, v) \<in> set W \<and> bit v n"
        by blast
    qed
    then show "bit (or_scatter W d0 ! p) n = bit (src ! p) n"
      using p shape(4) d0 by (simp add: bit_or_scatter_nth)
  qed
  have "S \<noteq> []" using shape(1) e by auto
  then have "bitunshuffle S dst e =
      memcpy_at (or_scatter W d0) (e * 8 * m) (slice S (e * 8 * m) (length dst - e * 8 * m))"
    using e assms by (simp add: bitunshuffle_def whole_elems_def m_def W_def d0_def Let_def)
  also have "\<dots> = take (e * 8 * m) (or_scatter W d0) @ drop (e * 8 * m) src"
    using shape(1,3,4) assms d0 by (simp add: memcpy_at_def slice_def)
  also have "take (e * 8 * m) (or_scatter W d0) = take (e * 8 * m) src"
    using written shape(4) d0 by (intro nth_equalityI) auto
  finally show ?thesis
    by (simp add: S_def)
qed

lemma length_byteplane_split: "length (byteplane_split src e) = length src"
proof (cases "e \<le> 1")
  case False
  then show ?thesis
    using byteplane_split_shape(1) [where src = src and e = e] by simp
qed (simp add: byteplane_split_def)

lemma length_bitshuffle: "length (bitshuffle src e) = length src"
proof (cases "e = 0 \<or> src = []")
  case False
  then show ?thesis
    using bitshuffle_shape(1) [where src = src and e = e] by simp
qed (auto simp: bitshuffle_def)

text \<open>
  What \<open>apply_residual\<close> relies on: a transform keeps the length, and its inverse writes the original
  bytes over any destination of that length.
\<close>

locale byte_transform =
  fixes fwd :: "bytes \<Rightarrow> nat \<Rightarrow> bytes" and bwd :: "bytes \<Rightarrow> bytes \<Rightarrow> nat \<Rightarrow> bytes"
  assumes length_fwd: "length (fwd src e) = length src"
    and bwd_fwd: "length dst = length src \<Longrightarrow> bwd (fwd src e) dst e = src"
begin

lemma fwd_inj:
  assumes "fwd a e = fwd b e"
  shows "a = b"
proof -
  have "length a = length b"
    using assms length_fwd by metis
  then show ?thesis
    using bwd_fwd [of a b e] bwd_fwd [of a a e] assms by simp
qed

lemma recovered: "bwd (fwd src e) (replicate (length (fwd src e)) 0) e = src"
  by (simp add: bwd_fwd length_fwd)

end

interpretation plain: byte_transform "\<lambda>src e. src" "\<lambda>src dst e. src"
  by unfold_locales auto

interpretation byteplane: byte_transform byteplane_split byteplane_join
  by unfold_locales (auto simp: length_byteplane_split byteplane_join_split)

interpretation bitshuffled: byte_transform bitshuffle bitunshuffle
  by unfold_locales (auto simp: length_bitshuffle bitunshuffle_bitshuffle)

lemma length_transform_residual [simp]: "length (transform_residual tr dt r) = length r"
  by (cases tr) (simp_all add: transform_residual_def byteplane.length_fwd bitshuffled.length_fwd)

lemma length_zigzag_encode:
  "e \<in> {1, 2, 4, 8} \<Longrightarrow> length t mod e = 0 \<Longrightarrow>
   length (zigzag_encode (replicate (length t) 0) b t (length t) e) = length t"
  by (auto simp: zigzag_encode_def)

lemma dtype_size_pos [simp]: "dtype_size dt \<noteq> 0"
  by (cases dt) simp_all

lemma apply_transformed:
  assumes "length out = length r"
  shows "apply_residual isa kind tr dt base (transform_residual tr dt r) out =
         apply_residual isa kind TNone dt base r out"
  using assms byteplane.recovered [of r "dtype_size dt"] bitshuffled.recovered [of r "dtype_size dt"]
  by (cases tr) (simp_all add: apply_residual_def transform_residual_def Let_def byteplane.length_fwd bitshuffled.length_fwd)

lemma length_encode_residual:
  assumes "length base = length target" "length target mod dtype_size dt = 0"
  shows "length (encode_residual isa kind dt base target) = length target"
  using assms dtype_size_cases [of dt]
  by (cases kind) (simp_all add: encode_residual_def xor_dispatch_eq length_zigzag_encode)

text \<open>
  C39: Every instruction set computes what the scalar oracle computes: the XOR kernels in both
  directions and the zigzag kernel, for buffers of any length and any element width.
\<close>

theorem kernels_agree:
  assumes "length base = n" "length resid = n" "length dst = n"
  shows "xor_apply_dispatch isa dst base resid n = xor_apply_scalar dst base resid n \<and>
    xor_encode_dispatch isa dst base resid n = xor_encode_scalar dst base resid n \<and>
    zigzag_apply_dispatch isa dst base resid n e = zigzag_apply_scalar dst base resid n e"
  using xor_dispatch_eq [OF assms, of isa] xor_dispatch_eq [OF assms, of Scalar] zigzag_dispatch_eq [of isa]
  by simp

theorem kernels_agree_witness:
  "xor_apply_dispatch Avx512 [0, 0] [1, 2] [3, 5] 2 = [2, 7] \<and>
   zigzag_apply_dispatch Avx2 [0, 0] [1, 2] [3, 5] 2 2 = zigzag_apply_scalar [0, 0] [1, 2] [3, 5] 2 2"
proof -
  have "xor_apply_scalar [0, 0] [1, 2] [3, 5] 2 = [2, 7]"
    by (simp add: xor_apply_scalar_def xor_bytes_def memcpy_at_def upt_rec)
  then show ?thesis
    using kernels_agree [of "[1, 2]" 2 "[3, 5]" "[0, 0]" Avx512] kernels_agree [of "[1, 2]" 2 "[3, 5]" "[0, 0]" Avx2 2]
    by simp
qed

lemma apply_encoded:
  assumes "length base = length target" "length target mod dtype_size dt = 0" "length out = length target"
  shows "apply_residual isa kind TNone dt base (encode_residual isa' kind dt base target) out = Ok target"
proof -
  note len = length_encode_residual [OF assms(1,2), of isa' kind]
  note e = dtype_size_cases [of dt]
  show ?thesis
  proof (cases kind)
    case XorAfterPermute
    then show ?thesis
      using assms len by (simp add: apply_residual_def encode_residual_def xor_dispatch_eq xor_bytes_cancel)
  next
    case ZigzagAfterPermute
    then show ?thesis
      using assms len e
      by (simp add: apply_residual_def encode_residual_def zigzag_dispatch_eq zigzag_scalar_roundtrip)
  qed (use assms in \<open>simp add: apply_residual_def encode_residual_def memcpy_at_all\<close>)
qed

text \<open>
  C27: A frame survives the codec: \<open>apply_residual\<close> on the transformed residual of a frame gives the
  frame's bytes back, for every residual kind, transform and element type, whatever instruction sets
  the encoding and the decoding machine have.
\<close>

theorem residual_roundtrip:
  assumes "length base = length target" "length target mod dtype_size dt = 0"
    and "length out = length target"
  shows "apply_residual isa kind tr dt base
           (transform_residual tr dt (encode_residual isa' kind dt base target)) out = Ok target"
  using apply_transformed [of out "encode_residual isa' kind dt base target" isa kind tr dt base]
    apply_encoded [OF assms, of isa kind isa'] length_encode_residual [OF assms(1,2), of isa' kind] assms(3)
  by simp

theorem residual_roundtrip_witness:
  "apply_residual Avx2 ZigzagAfterPermute BytePlane F16 [1, 2, 3, 4]
     (transform_residual BytePlane F16 (encode_residual Scalar ZigzagAfterPermute F16 [1, 2, 3, 4] [9, 8, 7, 255]))
     [0, 0, 0, 0] = Ok [9, 8, 7, 255]"
  using residual_roundtrip [of "[1, 2, 3, 4]" "[9, 8, 7, 255]" F16 "[0, 0, 0, 0]" Avx2 ZigzagAfterPermute BytePlane Scalar]
  by simp

end
