(* ===== verification/Format_Diff.thy ===== *)
theory Format_Diff
  imports Codec_Residual External
begin

section \<open>Diff artifacts\<close>

text \<open>
  \<open>src/modules/format/src/residual_hdr.cpp\<close> with \<open>write_permutation\<close> and the final assembly of
  \<open>src/modules/codec/src/diff_encoder.cpp\<close>: the JSON header of a diff artifact, the permutation in its
  payload, and the split of an artifact into the two. Offsets and lengths that come from the file are
  64-bit and wrap as in the code; a read outside the artifact is \<open>Abort UB\<close>, and a JSON exception that
  \<open>DiffHeader::parse\<close> does not catch is \<open>Abort Throw\<close>. The main results: a header and a permutation are
  read back as they were written, whatever permutation is read is a bijection, the tiling check makes
  every unit belong to a frame, and the exact condition under which a malformed length escapes the
  bounds checks.
\<close>

datatype Codec = DCNone | DCZstd

datatype PermKind = PIdentity | PExplicit

record PermutationRef =
  pr_kind :: PermKind
  pr_n :: u32
  pr_width :: u8
  pr_off :: u64
  pr_len :: u64

record FrameIndexEntry =
  unit_begin :: u64
  unit_end :: u64
  fr_off :: u64
  fr_len :: u64
  fr_digest :: bytes

record TensorDiff =
  td_name :: string
  td_shape :: "u64 list"
  td_dtype :: DType
  td_residual :: ResidualKind
  td_transform :: Transform
  td_frames :: "FrameIndexEntry list"

record AlignmentInfo =
  al_method :: string
  cost_raw :: u64
  cost_normalized :: u64

record DiffHeader =
  dh_version :: u32
  dh_group :: string
  dh_codec :: Codec
  dh_permutation :: PermutationRef
  dh_tensors :: "TensorDiff list"
  dh_alignable :: bool
  dh_alignment :: AlignmentInfo

definition kDiffMagic :: string where "kDiffMagic = ''SYNDIFF''"

subsection \<open>Enumerations as text\<close>

primrec residual_kind_to_string :: "ResidualKind \<Rightarrow> string" where
  "residual_kind_to_string RRaw = ''raw''"
| "residual_kind_to_string XorAfterPermute = ''xor_after_permute''"
| "residual_kind_to_string ZigzagAfterPermute = ''zigzag_after_permute''"

definition residual_kind_from_string :: "string \<Rightarrow> ResidualKind res" where
  "residual_kind_from_string s =
     (if s = ''raw'' then Ok RRaw
      else if s = ''xor_after_permute'' then Ok XorAfterPermute
      else if s = ''zigzag_after_permute'' then Ok ZigzagAfterPermute
      else SFS_ERR MalformedObject s)"

primrec transform_to_string :: "Transform \<Rightarrow> string" where
  "transform_to_string TNone = ''none''"
| "transform_to_string BytePlane = ''byteplane''"
| "transform_to_string Bitshuffle = ''bitshuffle''"

definition transform_from_string :: "string \<Rightarrow> Transform res" where
  "transform_from_string s =
     (if s = ''none'' then Ok TNone
      else if s = ''byteplane'' then Ok BytePlane
      else if s = ''bitshuffle'' then Ok Bitshuffle
      else SFS_ERR MalformedObject s)"

primrec codec_to_string :: "Codec \<Rightarrow> string" where
  "codec_to_string DCNone = ''none''"
| "codec_to_string DCZstd = ''zstd''"

definition codec_from_string :: "string \<Rightarrow> Codec res" where
  "codec_from_string s =
     (if s = ''none'' then Ok DCNone
      else if s = ''zstd'' then Ok DCZstd
      else SFS_ERR MalformedObject s)"

definition hex_encode :: "bytes \<Rightarrow> string" where
  "hex_encode b = concat (map hex_byte b)"

definition hex_decode_digest :: "string \<Rightarrow> bytes res" where
  "hex_decode_digest s =
     (if length s \<noteq> kOidBytes * 2 then SFS_ERR MalformedObject s
      else case parse_hex_pairs s of
        None \<Rightarrow> SFS_ERR MalformedObject []
      | Some b \<Rightarrow> Ok b)"

subsection \<open>Header to JSON\<close>

definition permutation_ref_to_json :: "'j Ext \<Rightarrow> PermutationRef \<Rightarrow> 'j" where
  "permutation_ref_to_json X p =
     (if pr_kind p = PIdentity then j_obj X [(''kind'', j_str X ''identity'')]
      else j_obj X
        [(''kind'', j_str X ''explicit''),
         (''n'', j_u64 X (ucast (pr_n p))),
         (''dtype'', j_str X (if pr_width p = 2 then ''u16'' else ''u32'')),
         (''off'', j_u64 X (pr_off p)),
         (''len'', j_u64 X (pr_len p))])"

definition frame_to_json :: "'j Ext \<Rightarrow> FrameIndexEntry \<Rightarrow> 'j" where
  "frame_to_json X f = j_obj X
     [(''units'', j_arr X [j_u64 X (unit_begin f), j_u64 X (unit_end f)]),
      (''off'', j_u64 X (fr_off f)),
      (''len'', j_u64 X (fr_len f)),
      (''digest'', j_str X (hex_encode (fr_digest f)))]"

definition tensor_diff_to_json :: "'j Ext \<Rightarrow> TensorDiff \<Rightarrow> 'j" where
  "tensor_diff_to_json X t = j_obj X
     [(''name'', j_str X (td_name t)),
      (''shape'', j_arr X (map (j_u64 X) (td_shape t))),
      (''dtype'', j_str X (dtype_to_string (td_dtype t))),
      (''residual'', j_str X (residual_kind_to_string (td_residual t))),
      (''transform'', j_str X (transform_to_string (td_transform t))),
      (''frames'', j_arr X (map (frame_to_json X) (td_frames t)))]"

definition diff_header_json :: "'j Ext \<Rightarrow> DiffHeader \<Rightarrow> 'j" where
  "diff_header_json X h = j_obj X
     [(''magic'', j_str X kDiffMagic),
      (''format_version'', j_u64 X (ucast (dh_version h))),
      (''group'', j_str X (dh_group h)),
      (''codec'', j_str X (codec_to_string (dh_codec h))),
      (''permutation'', permutation_ref_to_json X (dh_permutation h)),
      (''tensors'', j_arr X (map (tensor_diff_to_json X) (dh_tensors h))),
      (''alignable'', j_bool X (dh_alignable h)),
      (''alignment'', j_obj X
        [(''method'', j_str X (al_method (dh_alignment h))),
         (''cost_raw'', j_double X (cost_raw (dh_alignment h))),
         (''cost_normalized'', j_double X (cost_normalized (dh_alignment h)))])]"

definition diff_header_to_canonical_json :: "'j Ext \<Rightarrow> DiffHeader \<Rightarrow> bytes res" where
  "diff_header_to_canonical_json X h = thrown (j_dump X (diff_header_json X h))"

subsection \<open>JSON to header\<close>

definition identity_ref :: PermutationRef where
  "identity_ref = \<lparr>pr_kind = PIdentity, pr_n = 0, pr_width = 2, pr_off = 0, pr_len = 0\<rparr>"

definition permutation_ref_from_json :: "'j Ext \<Rightarrow> 'j \<Rightarrow> PermutationRef res" where
  "permutation_ref_from_json X j =
     SFS_TRY (at_str X j ''kind'') (\<lambda>kind.
     if kind = ''identity'' then Ok identity_ref
     else if kind \<noteq> ''explicit'' then SFS_ERR MalformedObject kind
     else
     SFS_TRY (at_u32 X j ''n'') (\<lambda>n.
     SFS_TRY (at_str X j ''dtype'') (\<lambda>dt.
     SFS_TRY (if dt = ''u16'' then Ok 2 else if dt = ''u32'' then Ok 4 else SFS_ERR MalformedObject dt) (\<lambda>width.
     SFS_TRY (at_u64 X j ''off'') (\<lambda>off.
     SFS_TRY (at_u64 X j ''len'') (\<lambda>len.
     Ok \<lparr>pr_kind = PExplicit, pr_n = n, pr_width = width, pr_off = off, pr_len = len\<rparr>))))))"

definition frame_from_json :: "'j Ext \<Rightarrow> string \<Rightarrow> 'j \<Rightarrow> FrameIndexEntry res" where
  "frame_from_json X name fj =
     SFS_TRY (json_at X fj ''units'') (\<lambda>units.
     if \<not> j_is_array X units \<or> length (json_elems X units) \<noteq> 2 then SFS_ERR MalformedObject name
     else
     SFS_TRY (thrown (j_get_u64 X (json_elems X units ! 0))) (\<lambda>ub.
     SFS_TRY (thrown (j_get_u64 X (json_elems X units ! 1))) (\<lambda>ue.
     SFS_TRY (at_u64 X fj ''off'') (\<lambda>off.
     SFS_TRY (at_u64 X fj ''len'') (\<lambda>len.
     SFS_TRY (at_str X fj ''digest'') (\<lambda>ds.
     SFS_TRY (hex_decode_digest ds) (\<lambda>dig.
     Ok \<lparr>unit_begin = ub, unit_end = ue, fr_off = off, fr_len = len, fr_digest = dig\<rparr>)))))))"

definition tensor_diff_from_json :: "'j Ext \<Rightarrow> 'j \<Rightarrow> TensorDiff res" where
  "tensor_diff_from_json X tj =
     SFS_TRY (at_str X tj ''name'') (\<lambda>name.
     SFS_TRY (json_at X tj ''shape'') (\<lambda>sj.
     SFS_TRY (map_res (\<lambda>d. thrown (j_get_u64 X d)) (json_elems X sj)) (\<lambda>shape.
     SFS_TRY (at_str X tj ''dtype'') (\<lambda>dts.
     SFS_TRY (dtype_from_string dts) (\<lambda>dt.
     SFS_TRY (at_str X tj ''residual'') (\<lambda>rs.
     SFS_TRY (residual_kind_from_string rs) (\<lambda>r.
     SFS_TRY (at_str X tj ''transform'') (\<lambda>ts.
     SFS_TRY (transform_from_string ts) (\<lambda>tr.
     SFS_TRY (json_at X tj ''frames'') (\<lambda>fsj.
     SFS_TRY (map_res (frame_from_json X name) (json_elems X fsj)) (\<lambda>frames.
     Ok \<lparr>td_name = name, td_shape = shape, td_dtype = dt, td_residual = r, td_transform = tr,
         td_frames = frames\<rparr>)))))))))))"

definition alignment_from_json :: "'j Ext \<Rightarrow> 'j \<Rightarrow> AlignmentInfo res" where
  "alignment_from_json X j =
     (if j_contains X j ''alignment''
      then SFS_TRY (json_at X j ''alignment'') (\<lambda>aj.
           SFS_TRY (json_value X (j_get_str X) aj ''method'' ''weight_matching_lap'') (\<lambda>meth.
           SFS_TRY (json_value X (j_get_double X) aj ''cost_raw'' 0) (\<lambda>raw.
           SFS_TRY (json_value X (j_get_double X) aj ''cost_normalized'' 0) (\<lambda>norm.
           Ok \<lparr>al_method = meth, cost_raw = raw, cost_normalized = norm\<rparr>))))
      else Ok \<lparr>al_method = ''weight_matching_lap'', cost_raw = 0, cost_normalized = 0\<rparr>)"

definition diff_header_parse :: "'j Ext \<Rightarrow> bytes \<Rightarrow> DiffHeader res" where
  "diff_header_parse X b =
     (case j_parse X b of
        None \<Rightarrow> SFS_ERR MalformedObject []
      | Some j \<Rightarrow>
          if \<not> j_is_object X j then SFS_ERR MalformedObject []
          else
          SFS_TRY (json_value X (j_get_str X) j ''magic'' []) (\<lambda>magic.
          if magic \<noteq> kDiffMagic then SFS_ERR MalformedObject magic
          else
          SFS_TRY (at_u32 X j ''format_version'') (\<lambda>version.
          SFS_TRY (at_str X j ''group'') (\<lambda>group.
          SFS_TRY (at_str X j ''codec'') (\<lambda>cs.
          SFS_TRY (codec_from_string cs) (\<lambda>codec.
          SFS_TRY (json_at X j ''permutation'') (\<lambda>pj.
          SFS_TRY (permutation_ref_from_json X pj) (\<lambda>perm.
          SFS_TRY (json_at X j ''tensors'') (\<lambda>tsj.
          SFS_TRY (map_res (tensor_diff_from_json X) (json_elems X tsj)) (\<lambda>tensors.
          SFS_TRY (json_value X (j_get_bool X) j ''alignable'' True) (\<lambda>alignable.
          SFS_TRY (alignment_from_json X j) (\<lambda>alignment.
          Ok \<lparr>dh_version = version, dh_group = group, dh_codec = codec, dh_permutation = perm,
              dh_tensors = tensors, dh_alignable = alignable, dh_alignment = alignment\<rparr>))))))))))))"

subsection \<open>Frames\<close>

fun frames_contiguous :: "FrameIndexEntry list \<Rightarrow> bool" where
  "frames_contiguous (f # g # fs) = (unit_end f = unit_begin g \<and> frames_contiguous (g # fs))"
| "frames_contiguous _ = True"

definition validate_tiling :: "TensorDiff \<Rightarrow> u64 \<Rightarrow> unit res" where
  "validate_tiling t group_size =
     (if td_frames t = [] then (if group_size = 0 then Ok () else SFS_ERR MalformedObject (td_name t))
      else if unit_begin (hd (td_frames t)) \<noteq> 0 then SFS_ERR MalformedObject (td_name t)
      else if \<not> frames_contiguous (td_frames t) then SFS_ERR MalformedObject (td_name t)
      else if unit_end (last (td_frames t)) \<noteq> group_size then SFS_ERR MalformedObject (td_name t)
      else Ok ())"

fun frame_scan :: "u64 \<Rightarrow> nat \<Rightarrow> FrameIndexEntry list \<Rightarrow> u64" where
  "frame_scan unit_ix i [] = - 1"
| "frame_scan unit_ix i (f # fs) =
     (if unit_begin f \<le> unit_ix \<and> unit_ix < unit_end f then of_nat i else frame_scan unit_ix (i + 1) fs)"

definition frame_for_unit :: "TensorDiff \<Rightarrow> u64 \<Rightarrow> u64" where
  "frame_for_unit t unit_ix = frame_scan unit_ix 0 (td_frames t)"

subsection \<open>The artifact and the permutation in its payload\<close>

definition parse_diff_artifact :: "'j Ext \<Rightarrow> bytes \<Rightarrow> (DiffHeader \<times> bytes) res" where
  "parse_diff_artifact X b =
     (if length b < 8 then SFS_ERR MalformedObject []
      else let header_len = load_le_u64 b 0
      in if header_len = 0 \<or> length b < unat (8 + header_len) then SFS_ERR MalformedObject []
      else if length b < 8 + unat header_len then Abort UB
      else SFS_TRY (diff_header_parse X (slice b 8 (unat header_len))) (\<lambda>hdr.
        Ok (hdr, drop (8 + unat header_len) b)))"

definition assemble_artifact :: "bytes \<Rightarrow> bytes \<Rightarrow> bytes" where
  "assemble_artifact header_json payload =
     (let a0 = replicate (8 + length header_json + length payload) 0;
          a1 = store_le_u64 a0 0 (of_nat (length header_json));
          a2 = memcpy_at a1 8 header_json
      in memcpy_at a2 (8 + length header_json) payload)"

definition load_perm_elem :: "bytes \<Rightarrow> u8 \<Rightarrow> nat \<Rightarrow> nat \<Rightarrow> nat res" where
  "load_perm_elem payload width off i =
     (if width = 2
      then (if length payload < off + (i * 2) mod 2 ^ 32 + 2 then Abort UB
            else Ok (unat (load_le_u16 payload (off + (i * 2) mod 2 ^ 32))))
      else (if length payload < off + (i * 4) mod 2 ^ 32 + 4 then Abort UB
            else Ok (unat (load_le_u32 payload (off + (i * 4) mod 2 ^ 32)))))"

definition read_permutation :: "PermutationRef \<Rightarrow> bytes \<Rightarrow> nat list res" where
  "read_permutation ref payload =
     (if pr_kind ref = PIdentity then Ok []
      else if pr_len ref \<noteq> ucast (pr_n ref) * ucast (pr_width ref) then SFS_ERR MalformedObject []
      else if length payload < unat (pr_off ref + pr_len ref) then SFS_ERR MalformedObject []
      else SFS_TRY (map_res (load_perm_elem payload (pr_width ref) (unat (pr_off ref))) [0..<unat (pr_n ref)])
        (\<lambda>out. if \<not> is_valid_permutation out (unat (pr_n ref)) then SFS_ERR InvalidPermutation []
               else Ok out))"

definition store_perm_elem :: "u8 \<Rightarrow> nat \<Rightarrow> nat list \<Rightarrow> nat \<Rightarrow> bytes \<Rightarrow> bytes" where
  "store_perm_elem width base perm i payload =
     (if width = 2 then store_le_u16 payload (base + (i * 2) mod 2 ^ 32) (of_nat (perm ! i))
      else store_le_u32 payload (base + (i * 4) mod 2 ^ 32) (of_nat (perm ! i)))"

definition write_permutation :: "bytes \<Rightarrow> nat list \<Rightarrow> bytes \<times> PermutationRef" where
  "write_permutation payload perm =
     (let n = of_nat (length perm) :: u32
      in if list_all (\<lambda>i. perm ! i = i) [0..<length perm] then (payload, identity_ref\<lparr>pr_n := n\<rparr>)
         else let width = (if n \<le> 65536 then 2 else 4 :: u8);
                  len = ucast n * ucast width :: u64;
                  base = length payload
              in (fold (store_perm_elem width base perm) [0..<unat n] (payload @ replicate (unat len) 0),
                  \<lparr>pr_kind = PExplicit, pr_n = n, pr_width = width, pr_off = of_nat base, pr_len = len\<rparr>))"


subsection \<open>Frames: lemmas\<close>

lemma frame_scan_covers:
  assumes "frames_contiguous (f # fs)" "unit_begin f \<le> u" "u < unit_end (last (f # fs))"
  shows "\<exists>i < length (f # fs). frame_scan u k (f # fs) = of_nat (k + i) \<and>
    unit_begin ((f # fs) ! i) \<le> u \<and> u < unit_end ((f # fs) ! i)"
  using assms
proof (induction fs arbitrary: f k)
  case Nil
  then show ?case by auto
next
  case (Cons g gs)
  show ?case
  proof (cases "u < unit_end f")
    case True
    with Cons.prems(2) show ?thesis by (intro exI [of _ 0]) simp
  next
    case False
    with Cons.prems have "unit_begin g \<le> u" "frames_contiguous (g # gs)" "u < unit_end (last (g # gs))"
      by auto
    from Cons.IH [OF this(2,1,3), of "k + 1"] obtain i where "i < length (g # gs)"
      "frame_scan u (k + 1) (g # gs) = of_nat (k + 1 + i)"
      "unit_begin ((g # gs) ! i) \<le> u" "u < unit_end ((g # gs) ! i)"
      by auto
    with False show ?thesis
      by (intro exI [of _ "Suc i"]) simp
  qed
qed

lemma frames_contiguous_ordered:
  "frames_contiguous fs \<Longrightarrow> \<forall>f \<in> set fs. unit_begin f \<le> unit_end f \<Longrightarrow> i < j \<Longrightarrow> j < length fs \<Longrightarrow>
   unit_end (fs ! i) \<le> unit_begin (fs ! j)"
proof (induction fs arbitrary: i j rule: frames_contiguous.induct)
  case (1 f g fs)
  have first: "unit_begin g \<le> unit_begin ((g # fs) ! j')" if "j' < length (g # fs)" for j'
  proof (cases j')
    case (Suc k)
    have "unit_end ((g # fs) ! 0) \<le> unit_begin ((g # fs) ! j')"
      using 1 that Suc by (intro "1.IH") auto
    moreover have "unit_begin g \<le> unit_end g"
      using 1 by simp
    ultimately show ?thesis by simp
  qed simp
  show ?case
  proof (cases i)
    case 0
    with 1 first [of "j - 1"] show ?thesis by (cases j) auto
  next
    case (Suc i')
    with 1 show ?thesis by (cases j) auto
  qed
qed auto

text \<open>
  Note: A tensor diff whose frames pass \<open>validate_tiling\<close> leaves no unit out: \<open>frame_for_unit\<close> finds, for every
  unit of the group, a frame that contains it. When moreover no frame is inverted, which
  \<open>validate_tiling\<close> does not check, two different frames never share a unit.
\<close>

theorem validate_tiling_covers:
  assumes "validate_tiling t group_size = Ok ()"
  shows "(\<forall>u < group_size. \<exists>i < length (td_frames t). frame_for_unit t u = of_nat i \<and>
           unit_begin (td_frames t ! i) \<le> u \<and> u < unit_end (td_frames t ! i)) \<and>
         ((\<forall>f \<in> set (td_frames t). unit_begin f \<le> unit_end f) \<longrightarrow>
           (\<forall>i j. i < j \<longrightarrow> j < length (td_frames t) \<longrightarrow>
              unit_end (td_frames t ! i) \<le> unit_begin (td_frames t ! j)))"
proof (cases "td_frames t")
  case Nil
  with assms show ?thesis
    by (auto simp: validate_tiling_def split: if_splits)
next
  case (Cons f fs)
  with assms have c: "unit_begin f = 0" "frames_contiguous (f # fs)" "unit_end (last (f # fs)) = group_size"
    by (auto simp: validate_tiling_def split: if_splits)
  have "\<exists>i < length (f # fs). frame_scan u 0 (f # fs) = of_nat i \<and>
      unit_begin ((f # fs) ! i) \<le> u \<and> u < unit_end ((f # fs) ! i)" if "u < group_size" for u
    using frame_scan_covers [OF c(2), of u 0] c(1,3) that by simp
  then show ?thesis
    using frames_contiguous_ordered [OF c(2)] by (simp add: frame_for_unit_def Cons)
qed

definition example_tiling :: TensorDiff where
  "example_tiling = \<lparr>td_name = ''w'', td_shape = [6], td_dtype = F16, td_residual = RRaw, td_transform = TNone,
     td_frames = [\<lparr>unit_begin = 0, unit_end = 4, fr_off = 0, fr_len = 8, fr_digest = []\<rparr>,
                  \<lparr>unit_begin = 4, unit_end = 6, fr_off = 8, fr_len = 4, fr_digest = []\<rparr>]\<rparr>"

theorem validate_tiling_covers_witness:
  "validate_tiling example_tiling 6 = Ok () \<and>
   (\<exists>i < length (td_frames example_tiling). frame_for_unit example_tiling 5 = of_nat i)"
proof -
  have "validate_tiling example_tiling 6 = Ok ()"
    by (simp add: validate_tiling_def example_tiling_def)
  then show ?thesis
    using validate_tiling_covers [of example_tiling 6, THEN conjunct1, rule_format, of 5] by auto
qed

subsection \<open>The permutation: lemmas\<close>

lemma load_perm_elem_cases:
  "load_perm_elem payload w off i =
     (let k = (if w = 2 then 2 else 4)
      in if length payload < off + (i * k) mod 2 ^ 32 + k then Abort UB
         else Ok (le_val (slice payload (off + (i * k) mod 2 ^ 32) k)))"
proof -
  have "unat (load_le_u16 b p) = le_val (slice b p 2)" if "p + 2 \<le> length b" for b p
    using le_val_bound [of "slice b p 2"] that by (simp add: load_le_u16_def unat_of_nat)
  moreover have "unat (load_le_u32 b p) = le_val (slice b p 4)" if "p + 4 \<le> length b" for b p
    using le_val_bound [of "slice b p 4"] that by (simp add: load_le_u32_def unat_of_nat)
  ultimately show ?thesis
    by (simp add: load_perm_elem_def Let_def)
qed

lemma map_res_not_abort: "(\<And>x. x \<in> set xs \<Longrightarrow> \<exists>y. f x = Ok y) \<Longrightarrow> \<exists>ys. map_res f xs = Ok ys"
  by (induction xs) fastforce+

lemma perm_len_nat:
  "w \<in> {2, 4} \<Longrightarrow> unat (ucast (n :: u32) * ucast (w :: u8) :: u64) = unat n * unat w"
proof -
  assume w: "w \<in> {2, 4}"
  have n: "unat n < 2 ^ 32"
    using unsigned_less [of n, where ?'a = nat] by simp
  have b: "unat w < 2 ^ 8"
    using unsigned_less [of w, where ?'a = nat] by simp
  have "unat n * unat w < 2 ^ 64"
    using w n by auto
  then show ?thesis
    using n b by (simp add: unat_word_ariths unsigned_ucast_eq take_bit_eq_mod)
qed


lemma read_permutation_ub:
  assumes "pr_kind ref = PExplicit" "pr_width ref \<in> {2, 4}" "length payload < 2 ^ 63"
  shows "read_permutation ref payload = Abort UB \<longleftrightarrow>
    pr_len ref = ucast (pr_n ref) * ucast (pr_width ref) \<and>
    2 ^ 64 \<le> unat (pr_off ref) + unat (pr_len ref) \<and> unat (pr_off ref + pr_len ref) \<le> length payload"
    (is "_ \<longleftrightarrow> ?L \<and> ?W \<and> ?F")
proof (cases "?L \<and> ?F")
  case False
  then show ?thesis
    using assms by (auto simp: read_permutation_def)
next
  case True
  let ?n = "unat (pr_n ref)" and ?off = "unat (pr_off ref)"
  let ?k = "if pr_width ref = 2 then 2 else 4 :: nat"
  have k: "?k = unat (pr_width ref)"
    using assms(2) by auto
  have len: "unat (pr_len ref) = ?n * ?k"
    using True perm_len_nat [OF assms(2), of "pr_n ref"] k by simp
  have n: "?n < 2 ^ 32"
    using unsigned_less [of "pr_n ref", where ?'a = nat] by simp
  have read: "read_permutation ref payload =
      SFS_TRY (map_res (load_perm_elem payload (pr_width ref) ?off) [0..<?n])
        (\<lambda>out. if \<not> is_valid_permutation out ?n then SFS_ERR InvalidPermutation [] else Ok out)"
    using True assms(1) by (auto simp: read_permutation_def)
  show ?thesis
  proof (cases ?W)
    case True
    note W = True
    have "0 < ?n"
      using W len unsigned_less [of "pr_off ref", where ?'a = nat] by (cases ?n) auto
    have "2 ^ 63 \<le> ?off"
      using W len n by (auto split: if_splits)
    then have "load_perm_elem payload (pr_width ref) ?off 0 = Abort UB"
      using assms(3) by (simp add: load_perm_elem_cases)
    then have "map_res (load_perm_elem payload (pr_width ref) ?off) [0..<?n] = Abort UB"
      using \<open>0 < ?n\<close> by (simp add: upt_rec)
    then show ?thesis
      using read \<open>?L \<and> ?F\<close> W by auto
  next
    case False
    then have sum: "unat (pr_off ref + pr_len ref) = ?off + unat (pr_len ref)"
      by (simp add: unat_word_ariths)
    have "\<exists>y. load_perm_elem payload (pr_width ref) ?off i = Ok y" if "i < ?n" for i
    proof -
      have "(i * ?k) mod 2 ^ 32 + ?k \<le> Suc i * ?k"
        by (simp add: mod_less_eq_dividend)
      also have "\<dots> \<le> ?n * ?k"
        using that by (intro mult_le_mono1) simp
      finally show ?thesis
        using \<open>?L \<and> ?F\<close> sum len by (simp add: load_perm_elem_cases Let_def)
    qed
    then obtain out where "map_res (load_perm_elem payload (pr_width ref) ?off) [0..<?n] = Ok out"
      using map_res_not_abort [of "[0..<?n]" "load_perm_elem payload (pr_width ref) ?off"] by auto
    then show ?thesis
      using read False by simp
  qed
qed

text \<open>
  Note: Reading a permutation out of an artifact is the memory-safety gate of the codec. Whatever it returns
  for an explicit permutation is a bijection on \<open>[0, n)\<close>, so it can index units. It reads outside
  the payload exactly when the stored offset and length are consistent but their 64-bit sum wraps around to a
  value inside the payload.
\<close>

theorem read_permutation_safe:
  assumes "pr_kind ref = PExplicit" "pr_width ref \<in> {2, 4}" "length payload < 2 ^ 63"
  shows "(\<forall>out. read_permutation ref payload = Ok out \<longrightarrow> is_valid_permutation out (unat (pr_n ref))) \<and>
    (read_permutation ref payload = Abort UB \<longleftrightarrow>
      pr_len ref = ucast (pr_n ref) * ucast (pr_width ref) \<and>
      2 ^ 64 \<le> unat (pr_off ref) + unat (pr_len ref) \<and> unat (pr_off ref + pr_len ref) \<le> length payload)"
  using read_permutation_ub [OF assms] assms(1)
  by (auto simp: read_permutation_def split: if_splits)

theorem read_permutation_safe_witness:
  "read_permutation \<lparr>pr_kind = PExplicit, pr_n = 2, pr_width = 2, pr_off = - 4, pr_len = 4\<rparr> [0] = Abort UB"
  using read_permutation_safe [of "\<lparr>pr_kind = PExplicit, pr_n = 2, pr_width = 2, pr_off = - 4, pr_len = 4\<rparr>" "[0]"]
  by simp


subsection \<open>A permutation survives the artifact\<close>

lemma store_perm_elem_eq:
  assumes "w = 2 \<or> w = 4" "k = unat w" "i * k < 2 ^ 32" "perm ! i < 256 ^ k"
  shows "store_perm_elem w base perm i payload = memcpy_at payload (base + i * k) (le_bytes k (perm ! i))"
  using assms by (auto simp: store_perm_elem_def store_le_u16_def store_le_u32_def unat_of_nat)

lemma memcpy_at_middle:
  "length a = off \<Longrightarrow> length b = length src \<Longrightarrow> memcpy_at (a @ b @ c) off src = a @ src @ c"
  by (simp add: memcpy_at_def)

lemma fold_store_perm:
  assumes w: "w = 2 \<or> w = 4" "k = unat w" and n: "n * k \<le> 2 ^ 32" "n \<le> length perm"
    and fit: "\<forall>p \<in> set perm. p < 256 ^ k"
  shows "m \<le> n \<Longrightarrow> fold (store_perm_elem w (length payload) perm) [0..<m] (payload @ replicate (n * k) 0) =
    payload @ concat (map (le_bytes k) (take m perm)) @ replicate ((n - m) * k) 0"
proof (induction m)
  case (Suc m)
  have "Suc m * k \<le> n * k"
    using Suc.prems by (intro mult_le_mono1)
  moreover have "0 < k"
    using w by auto
  ultimately have ik: "m * k < 2 ^ 32"
    using n(1) by simp
  have fits: "perm ! m < 256 ^ k"
    using fit n(2) Suc.prems by simp
  let ?done = "payload @ concat (map (le_bytes k) (take m perm))"
  have len: "length ?done = length payload + m * k"
    using Suc.prems n(2) by (simp add: length_concat_uniform [where k = k])
  have rest: "replicate ((n - m) * k) (0 :: byte) = replicate k 0 @ replicate ((n - Suc m) * k) 0"
    using Suc.prems by (simp flip: replicate_add mult_Suc add: Suc_diff_Suc)
  have "fold (store_perm_elem w (length payload) perm) [0..<Suc m] (payload @ replicate (n * k) 0) =
      memcpy_at (?done @ replicate k 0 @ replicate ((n - Suc m) * k) 0) (length payload + m * k) (le_bytes k (perm ! m))"
    using Suc by (simp add: store_perm_elem_eq [where w = w and i = m, OF w ik fits] rest)
  also have "\<dots> = ?done @ le_bytes k (perm ! m) @ replicate ((n - Suc m) * k) 0"
    by (rule memcpy_at_middle) (simp_all only: len length_replicate length_le_bytes)
  finally show ?case
    using Suc.prems n(2) by (simp add: take_Suc_conv_app_nth)
qed simp

lemma read_stored_permutation:
  assumes w: "w = 2 \<or> w = 4" "k = unat w" and n: "length perm * k \<le> 2 ^ 32" "length perm < 2 ^ 32"
    and fit: "\<forall>p \<in> set perm. p < 256 ^ k" and valid: "is_valid_permutation perm (length perm)"
    and size: "length payload + length perm * k < 2 ^ 64"
  shows "read_permutation \<lparr>pr_kind = PExplicit, pr_n = of_nat (length perm), pr_width = w,
      pr_off = of_nat (length payload), pr_len = ucast (of_nat (length perm) :: u32) * ucast w\<rparr>
      (payload @ concat (map (le_bytes k) perm) @ tail) = Ok perm"
proof -
  let ?n = "of_nat (length perm) :: u32" and ?buf = "payload @ concat (map (le_bytes k) perm) @ tail"
  let ?len = "ucast ?n * ucast w :: u64"
  have un: "unat ?n = length perm"
    using n(2) by (simp add: unat_of_nat)
  have off: "unat (of_nat (length payload) :: u64) = length payload"
    using size by (simp add: unat_of_nat)
  have len: "unat ?len = length perm * k"
    using perm_len_nat [of w ?n] w un by auto
  have clen: "length (concat (map (le_bytes k) perm)) = length perm * k"
    by (simp add: length_concat_uniform [where k = k])
  have sum: "unat (of_nat (length payload) + ?len) = length payload + length perm * k"
    using size off len by (simp add: unat_word_ariths)
  have k: "(if w = 2 then 2 else 4) = k"
    using w by auto
  have elem: "load_perm_elem ?buf w (length payload) i = Ok (perm ! i)" if "i < length perm" for i
  proof -
    have "Suc i * k \<le> length perm * k"
      using that by (intro mult_le_mono1) simp
    moreover have "0 < k" using w by auto
    ultimately have i: "i * k < 2 ^ 32" "length payload + i * k + k \<le> length ?buf"
      using n(1) clen by simp_all
    have "slice ?buf (length payload + i * k) k = slice (concat (map (le_bytes k) perm)) (i * k) k"
      using clen \<open>Suc i * k \<le> length perm * k\<close> by (simp add: slice_simps)
    also have "\<dots> = le_bytes k (perm ! i)"
      using that by (subst slice_concat_unit) auto
    finally have "le_val (slice ?buf (length payload + i * k) k) = perm ! i"
      using fit that by (simp add: le_simps)
    then show ?thesis
      using i by (simp add: load_perm_elem_cases k Let_def)
  qed
  have "map_res (load_perm_elem ?buf w (length payload)) [0..<length perm] = Ok (map ((!) perm) [0..<length perm])"
    using map_res_map [of "[0..<length perm]" "load_perm_elem ?buf w (length payload)" id "(!) perm"] elem by simp
  then show ?thesis
    using valid clen un off sum by (simp add: read_permutation_def map_nth)
qed

lemma written_permutation:
  assumes "is_valid_permutation perm (length perm)" "length perm \<le> 2 ^ 30" "length payload < 2 ^ 63"
  shows "case write_permutation payload perm of (payload', ref) \<Rightarrow>
    (\<exists>ext. payload' = payload @ ext \<and> (perm = [0..<length perm] \<longrightarrow> ext = []) \<and> length ext \<le> 4 * length perm) \<and>
    pr_kind ref = (if perm = [0..<length perm] then PIdentity else PExplicit) \<and>
    (pr_kind ref = PExplicit \<longrightarrow> unat (pr_n ref) = length perm \<and> pr_width ref \<in> {2, 4}) \<and>
    read_permutation ref (payload' @ tail) =
      Ok (if perm = [0..<length perm] then [] else perm)"
proof -
  define n where "n = (of_nat (length perm) :: u32)"
  have un: "unat n = length perm"
    using assms(2) by (simp add: n_def unat_of_nat)
  have ident: "list_all (\<lambda>i. perm ! i = i) [0..<length perm] \<longleftrightarrow> perm = [0..<length perm]"
    by (auto simp: list_all_iff intro!: nth_equalityI) (metis add_0 nth_upt)
  show ?thesis
  proof (cases "perm = [0..<length perm]")
    case True
    then show ?thesis
      using ident by (simp add: write_permutation_def read_permutation_def identity_ref_def Let_def)
  next
    case False
    define w where "w = (if n \<le> 65536 then 2 else 4 :: u8)"
    define k where "k = unat w"
    have w: "w = 2 \<or> w = 4"
      by (auto simp: w_def)
    have small: "length perm \<le> 65536" if "w = 2"
      using that un by (auto simp: w_def word_le_nat_alt split: if_splits)
    have bound: "\<forall>p \<in> set perm. p < length perm"
      using assms(1) by (auto simp: is_valid_permutation_iff)
    have fit: "\<forall>p \<in> set perm. p < 256 ^ k"
      using w
    proof
      assume "w = 2"
      then show ?thesis
        using bound small by (fastforce simp: k_def)
    next
      assume "w = 4"
      then show ?thesis
        using bound assms(2) by (fastforce simp: k_def)
    qed
    have nk: "length perm * k \<le> 2 ^ 32"
      using w assms(2) by (auto simp: k_def)
    have len: "unat (ucast n * ucast w :: u64) = length perm * k"
      using perm_len_nat [of w n] w un by (auto simp: k_def)
    have "write_permutation payload perm =
       (payload @ concat (map (le_bytes k) perm),
        \<lparr>pr_kind = PExplicit, pr_n = n, pr_width = w, pr_off = of_nat (length payload), pr_len = ucast n * ucast w\<rparr>)"
      using ident False fold_store_perm [OF w k_def nk order_refl fit, of "length perm" payload] len un
      by (simp add: write_permutation_def Let_def flip: n_def w_def)
    moreover have "length (concat (map (le_bytes k) perm)) \<le> 4 * length perm"
      using w by (auto simp: k_def length_concat_uniform [where k = k])
    ultimately show ?thesis
      using False read_stored_permutation [OF w k_def nk _ fit assms(1), of payload tail] assms(2,3) nk un w
      by (simp add: n_def)
  qed
qed

text \<open>
  Note: A permutation survives the artifact: what \<open>write_permutation\<close> appended to the payload is read back by
  \<open>read_permutation\<close> unchanged, also after the frames were appended behind it; the identity costs no byte and
  reads back as the empty list that callers take for it. Permutations of up to \<open>2 ^ 30\<close> units (4 GiB of
  32-bit indices) are covered; beyond that the 32-bit index arithmetic of both sides wraps.
\<close>

theorem permutation_roundtrip:
  assumes "is_valid_permutation perm (length perm)" "length perm \<le> 2 ^ 30" "length payload < 2 ^ 63"
  shows "case write_permutation payload perm of (payload', ref) \<Rightarrow>
    take (length payload) payload' = payload \<and>
    read_permutation ref (payload' @ tail) =
      Ok (if perm = [0..<length perm] then [] else perm) \<and>
    (perm = [0..<length perm] \<longrightarrow> payload' = payload)"
  using written_permutation [OF assms, of tail] by (auto split: prod.splits)

theorem permutation_roundtrip_witness:
  "case write_permutation [9] [2, 0, 1] of (payload', ref) \<Rightarrow> read_permutation ref (payload' @ [7]) = Ok [2, 0, 1]"
  using permutation_roundtrip [of "[2, 0, 1]" "[9]" "[7]"]
  by (auto simp: is_valid_permutation_def upt_rec split: prod.splits)


subsection \<open>A header survives the artifact\<close>

definition wf_diff_header :: "DiffHeader \<Rightarrow> bool" where
  "wf_diff_header h \<longleftrightarrow>
     (\<forall>t \<in> set (dh_tensors h). \<forall>f \<in> set (td_frames t). length (fr_digest f) = kOidBytes) \<and>
     finite_double (cost_raw (dh_alignment h)) \<and> finite_double (cost_normalized (dh_alignment h)) \<and>
     (pr_kind (dh_permutation h) = PExplicit \<longrightarrow> pr_width (dh_permutation h) \<in> {2, 4})"

text \<open>The identity permutation is written without its size, so it is read back with the defaults.\<close>

definition as_read :: "DiffHeader \<Rightarrow> DiffHeader" where
  "as_read h = (if pr_kind (dh_permutation h) = PIdentity then h\<lparr>dh_permutation := identity_ref\<rparr> else h)"

lemma enum_text_roundtrips [simp]:
  "residual_kind_from_string (residual_kind_to_string k) = Ok k"
  "transform_from_string (transform_to_string t) = Ok t"
  "codec_from_string (codec_to_string c) = Ok c"
  by (cases k; cases t; cases c; simp add: residual_kind_from_string_def transform_from_string_def codec_from_string_def)+

lemma hex_decode_encode: "length d = kOidBytes \<Longrightarrow> hex_decode_digest (hex_encode d) = Ok d"
  using parse_hex_bytes [of d] length_hex_bytes [of d]
  by (simp add: hex_decode_digest_def hex_encode_def flip: hex_bytes_def)

lemma plain_diff_header: "wf_diff_header h \<Longrightarrow> plain X (diff_header_json X h)"
  unfolding diff_header_json_def tensor_diff_to_json_def frame_to_json_def permutation_ref_to_json_def wf_diff_header_def
  by (auto intro!: plain.intros)

lemma permutation_ref_json:
  assumes "json_ok X" "pr_kind p = PExplicit \<longrightarrow> pr_width p \<in> {2, 4}"
  shows "permutation_ref_from_json X (permutation_ref_to_json X p) = Ok (if pr_kind p = PIdentity then identity_ref else p)"
  using assms(2) by (cases "pr_kind p") (auto simp: permutation_ref_from_json_def permutation_ref_to_json_def json_access
      json_laws [OF assms(1)] intro!: PermutationRef.equality)

lemma frame_json:
  assumes "json_ok X" "length (fr_digest f) = kOidBytes"
  shows "frame_from_json X name (frame_to_json X f) = Ok f"
  using assms(2) by (simp add: frame_from_json_def frame_to_json_def json_access json_laws [OF assms(1)] hex_decode_encode)

lemma tensor_diff_json:
  assumes "json_ok X" "\<forall>f \<in> set (td_frames t). length (fr_digest f) = kOidBytes"
  shows "tensor_diff_from_json X (tensor_diff_to_json X t) = Ok t"
proof -
  have "map_res (frame_from_json X (td_name t)) (map (frame_to_json X) (td_frames t)) = Ok (map id (td_frames t))"
    using assms by (intro map_res_map) (simp add: frame_json)
  moreover have "map_res (\<lambda>d. thrown (j_get_u64 X d)) (map (j_u64 X) (td_shape t)) = Ok (map id (td_shape t))"
    by (intro map_res_map) (simp add: json_laws [OF assms(1)])
  ultimately show ?thesis
    by (simp add: tensor_diff_from_json_def tensor_diff_to_json_def json_access json_laws [OF assms(1)]
        dtype_string_roundtrip)
qed

lemma alignment_json:
  assumes "json_ok X" "finite_double (cost_raw a)" "finite_double (cost_normalized a)" "j_contains X j ''alignment''"
    and "j_at X j ''alignment'' = Some (j_obj X
        [(''method'', j_str X (al_method a)), (''cost_raw'', j_double X (cost_raw a)),
         (''cost_normalized'', j_double X (cost_normalized a))])"
  shows "alignment_from_json X j = Ok a"
  using assms(2-) by (simp add: alignment_from_json_def json_access json_laws [OF assms(1)])

lemma diff_header_roundtrip:
  assumes "json_ok X" "wf_diff_header h" "diff_header_to_canonical_json X h = Ok hj"
  shows "diff_header_parse X hj = Ok (as_read h)"
proof -
  have parse: "j_parse X hj = Some (diff_header_json X h)"
    using assms json_parse_dump [OF assms(1) plain_diff_header [OF assms(2)]]
    by (simp add: diff_header_to_canonical_json_def)
  have ts: "map_res (tensor_diff_from_json X) (map (tensor_diff_to_json X) (dh_tensors h)) = Ok (map id (dh_tensors h))"
    using assms by (intro map_res_map) (auto simp: tensor_diff_json wf_diff_header_def)
  have al: "alignment_from_json X (diff_header_json X h) = Ok (dh_alignment h)"
    using assms(2) by (intro alignment_json [OF assms(1)])
      (simp_all add: wf_diff_header_def diff_header_json_def json_laws [OF assms(1)])
  have perm: "permutation_ref_from_json X (permutation_ref_to_json X (dh_permutation h)) =
      Ok (if pr_kind (dh_permutation h) = PIdentity then identity_ref else dh_permutation h)"
    using assms by (intro permutation_ref_json) (simp_all add: wf_diff_header_def)
  show ?thesis
    unfolding diff_header_parse_def parse using ts al perm
    by (auto simp: diff_header_json_def json_access json_laws [OF assms(1)] as_read_def intro!: DiffHeader.equality)
qed

lemma header_json_nonempty:
  assumes "json_ok X" "wf_diff_header h" "diff_header_to_canonical_json X h = Ok hj"
  shows "hj \<noteq> []"
  using diff_header_roundtrip [OF assms] json_parse_empty [OF assms(1)] by (auto simp: diff_header_parse_def)

lemma assemble_artifact_eq:
  assumes "length hj < 2 ^ 64"
  shows "assemble_artifact hj payload = le_bytes 8 (length hj) @ hj @ payload"
  using assms
  by (simp add: assemble_artifact_def store_le_u64_def memcpy_at_def unat_of_nat)

lemma parse_diff_artifact_split:
  assumes "length hj < 2 ^ 63" "hj \<noteq> []"
  shows "parse_diff_artifact X (le_bytes 8 (length hj) @ hj @ payload) =
    SFS_TRY (diff_header_parse X hj) (\<lambda>hdr. Ok (hdr, payload))"
proof -
  have len: "load_le_u64 (le_bytes 8 (length hj) @ hj @ payload) 0 = of_nat (length hj)"
    using assms(1) by (simp add: load_le_u64_def slice_def le_simps)
  have nat: "unat (of_nat (length hj) :: u64) = length hj" "unat (8 + of_nat (length hj) :: u64) = 8 + length hj"
    using assms(1) by (simp_all add: unat_of_nat unat_word_ariths)
  have "(of_nat (length hj) :: u64) \<noteq> 0"
    using nat(1) assms(2) by (metis length_0_conv unat_0)
  then show ?thesis
    using nat by (simp add: parse_diff_artifact_def len slice_def Let_def)
qed

lemma SFS_TRY_Abort_iff: "SFS_TRY m f = Abort a \<longleftrightarrow> m = Abort a \<or> (\<exists>x. m = Ok x \<and> f x = Abort a)"
  by (cases m) auto

lemma map_res_Abort: "map_res f xs = Abort a \<Longrightarrow> \<exists>x \<in> set xs. f x = Abort a"
  by (induction xs) (auto simp: SFS_TRY_Abort_iff)

lemma text_only_throws [simp]:
  "a \<noteq> Throw \<Longrightarrow> residual_kind_from_string s \<noteq> Abort a" "a \<noteq> Throw \<Longrightarrow> transform_from_string s \<noteq> Abort a" "a \<noteq> Throw \<Longrightarrow> codec_from_string s \<noteq> Abort a"
  "a \<noteq> Throw \<Longrightarrow> dtype_from_string s \<noteq> Abort a" "a \<noteq> Throw \<Longrightarrow> hex_decode_digest s \<noteq> Abort a"
  by (simp_all add: residual_kind_from_string_def transform_from_string_def codec_from_string_def
      dtype_from_string_def hex_decode_digest_def split: option.splits)

lemma json_access_only_throws [simp]:
  "a \<noteq> Throw \<Longrightarrow> json_at X j k \<noteq> Abort a" "a \<noteq> Throw \<Longrightarrow> at_str X j k \<noteq> Abort a" "a \<noteq> Throw \<Longrightarrow> at_u32 X j k \<noteq> Abort a" "a \<noteq> Throw \<Longrightarrow> at_u64 X j k \<noteq> Abort a"
  "a \<noteq> Throw \<Longrightarrow> json_value X get j k d \<noteq> Abort a"
  by (simp_all add: json_access SFS_TRY_Abort_iff)

lemma header_parts_only_throws [simp]:
  "a \<noteq> Throw \<Longrightarrow> permutation_ref_from_json X j \<noteq> Abort a" "a \<noteq> Throw \<Longrightarrow> frame_from_json X name j \<noteq> Abort a" "a \<noteq> Throw \<Longrightarrow> alignment_from_json X j \<noteq> Abort a"
  by (auto simp: permutation_ref_from_json_def frame_from_json_def alignment_from_json_def SFS_TRY_Abort_iff
      split: if_splits)

lemma tensor_diff_from_json_only_throws [simp]: "a \<noteq> Throw \<Longrightarrow> tensor_diff_from_json X j \<noteq> Abort a"
  by (auto simp: tensor_diff_from_json_def SFS_TRY_Abort_iff dest!: map_res_Abort)

lemma diff_header_parse_only_throws [simp]: "a \<noteq> Throw \<Longrightarrow> diff_header_parse X b \<noteq> Abort a"
  by (auto simp: diff_header_parse_def SFS_TRY_Abort_iff split: option.splits if_splits dest!: map_res_Abort)

text \<open>
  Note: Splitting an artifact reads outside its bytes exactly when the 64-bit sum \<open>8 + header_len\<close> wraps around
  to a value that fits: the truncation check lets such a length through. No other input does, and in
  particular no header JSON.
\<close>

theorem parse_diff_artifact_bounds:
  assumes "length b < 2 ^ 63"
  shows "parse_diff_artifact X b = Abort UB \<longleftrightarrow>
    8 \<le> length b \<and> 2 ^ 64 \<le> 8 + unat (load_le_u64 b 0)
      \<and> unat (8 + load_le_u64 b 0) \<le> length b"
proof -
  let ?h = "load_le_u64 b 0"
  have wrap: "unat (8 + ?h) = (if 2 ^ 64 \<le> 8 + unat ?h then 8 + unat ?h - 2 ^ 64 else 8 + unat ?h)"
    using unsigned_less [of ?h, where ?'a = nat] by (simp add: unat_word_ariths le_mod_geq)
  then show ?thesis
    using assms by (auto simp: parse_diff_artifact_def Let_def SFS_TRY_Abort_iff split: if_splits)
qed

theorem parse_diff_artifact_bounds_witness:
  "parse_diff_artifact (toy_ext (TBool True)) [255, 255, 255, 255, 255, 255, 255, 255] = Abort UB"
proof -
  have "load_le_u64 [255, 255, 255, 255, 255, 255, 255, 255] 0 = 18446744073709551615"
    by (simp add: load_le_u64_def slice_def)
  then show ?thesis
    using parse_diff_artifact_bounds [of "[255, 255, 255, 255, 255, 255, 255, 255]" "toy_ext (TBool True)"] by simp
qed

text \<open>
  Note: A diff artifact survives a write and a read: the header and the payload that were assembled into an
  artifact are what \<open>parse_diff_artifact\<close> returns, for every header with 32-byte digests, finite costs and
  a two- or four-byte permutation width (the identity's unused size is not stored).
\<close>

theorem diff_artifact_roundtrip:
  assumes "json_ok X" "wf_diff_header h" "diff_header_to_canonical_json X h = Ok hj" "length hj < 2 ^ 63"
  shows "parse_diff_artifact X (assemble_artifact hj payload) = Ok (as_read h, payload)"
  using parse_diff_artifact_split [OF assms(4) header_json_nonempty [OF assms(1-3)], of X payload]
    diff_header_roundtrip [OF assms(1-3)] assms(4)
  by (simp add: assemble_artifact_eq)

definition example_header :: DiffHeader where
  "example_header = \<lparr>dh_version = 1, dh_group = ''g0'', dh_codec = DCZstd, dh_permutation = identity_ref,
     dh_tensors = [], dh_alignable = True,
     dh_alignment = \<lparr>al_method = ''weight_matching_lap'', cost_raw = 0, cost_normalized = 0\<rparr>\<rparr>"

lemma diff_header_json_toy: "diff_header_json (toy_ext j1) h = diff_header_json (toy_ext j2) h"
  by (simp add: diff_header_json_def permutation_ref_to_json_def tensor_diff_to_json_def frame_to_json_def
      toy_ext_simps(6-) [abs_def] cong: map_cong)

theorem diff_artifact_roundtrip_witness:
  "\<exists>j0. parse_diff_artifact (toy_ext j0) (assemble_artifact [1] [5, 6]) = Ok (example_header, [5, 6])"
proof -
  define j0 where "j0 = diff_header_json (toy_ext (TBool True)) example_header"
  have "diff_header_to_canonical_json (toy_ext j0) example_header = Ok [1]"
    by (simp add: diff_header_to_canonical_json_def diff_header_json_toy [of j0 _ "TBool True"] flip: j0_def)
  moreover have "wf_diff_header example_header"
    by (simp add: wf_diff_header_def example_header_def identity_ref_def finite_double_def)
  moreover have "as_read example_header = example_header"
    by (simp add: as_read_def example_header_def identity_ref_def)
  ultimately show ?thesis
    using diff_artifact_roundtrip [OF toy_json_ok, of example_header j0 "[1]" "[5, 6]"] by auto
qed

end
