(* ===== verification/Format_Manifest.thy ===== *)
theory Format_Manifest
  imports Core_Oid Core_Tensor External
begin

section \<open>Commits, manifests, trees and safetensors headers\<close>

text \<open>
  \<open>src/modules/format/src\<close>: \<open>commit.cpp\<close>, \<open>manifest.cpp\<close>, \<open>tree.cpp\<close> and \<open>st_header.cpp\<close>. A \<open>std::map\<close> is an
  association list in key order; the hash maps of the safetensors header are association lists in their
  iteration order. Each parser maps a JSON exception of its guarded part to \<open>MalformedObject\<close>; exceptions elsewhere
  escape (\<open>Abort Throw\<close>). The main results: what a parser accepts is exactly the canonical serialisation of what it
  returns, a canonical serialisation is accepted, so an object and its address determine each other up to hash
  collisions; and an accepted buffer layout tiles the file.
\<close>

subsection \<open>Commits\<close>

record Commit =
  c_version :: u32
  c_parents :: "Oid list"
  c_manifest :: Oid
  c_topology :: Oid
  c_timestamp :: string
  c_author :: string
  c_message :: string

definition is_digit :: "char \<Rightarrow> bool" where
  "is_digit c \<longleftrightarrow> 48 \<le> (of_char c :: nat) \<and> (of_char c :: nat) \<le> 57"

fun matches :: "string \<Rightarrow> string \<Rightarrow> bool" where
  "matches [] [] = True"
| "matches (p # ps) (c # cs) = ((if p = CHR ''d'' then is_digit c else c = p) \<and> matches ps cs)"
| "matches _ _ = False"

definition is_valid_timestamp :: "string \<Rightarrow> bool" where
  "is_valid_timestamp s \<longleftrightarrow> matches ''dddd-dd-ddTdd:dd:ddZ'' s"

definition commit_json :: "'j Ext \<Rightarrow> Commit \<Rightarrow> 'j" where
  "commit_json X c = j_obj X
     [(''format_version'', j_u64 X (ucast (c_version c))),
      (''parents'', j_arr X (map (\<lambda>p. j_str X (oid_to_string p)) (c_parents c))),
      (''manifest'', j_str X (oid_to_string (c_manifest c))),
      (''topology'', j_str X (oid_to_string (c_topology c))),
      (''timestamp'', j_str X (c_timestamp c)),
      (''author'', j_str X (c_author c)),
      (''message'', j_str X (c_message c))]"

definition commit_to_canonical_json :: "'j Ext \<Rightarrow> Commit \<Rightarrow> bytes res" where
  "commit_to_canonical_json X c = thrown (j_dump X (commit_json X c))"

definition commit_oid :: "'j Ext \<Rightarrow> Commit \<Rightarrow> Oid res" where
  "commit_oid X c = SFS_TRY (commit_to_canonical_json X c) (\<lambda>b. Ok (compute_oid (x_blake3 X) KCommit b))"

definition at_oid :: "'j Ext \<Rightarrow> 'j \<Rightarrow> string \<Rightarrow> Oid res" where
  "at_oid X j k = SFS_TRY (at_str X j k) oid_parse"

definition commit_fields :: "'j Ext \<Rightarrow> 'j \<Rightarrow> Commit res" where
  "commit_fields X j =
     SFS_TRY (at_u32 X j ''format_version'') (\<lambda>version.
     SFS_TRY (json_at X j ''parents'') (\<lambda>psj.
     SFS_TRY (map_res (\<lambda>p. SFS_TRY (thrown (j_get_str X p)) oid_parse) (json_elems X psj)) (\<lambda>parents.
     if length parents > 2 then SFS_ERR MalformedObject []
     else
     SFS_TRY (at_oid X j ''manifest'') (\<lambda>manifest.
     SFS_TRY (at_oid X j ''topology'') (\<lambda>topology.
     SFS_TRY (at_str X j ''timestamp'') (\<lambda>timestamp.
     SFS_TRY (json_value X (j_get_str X) j ''author'' []) (\<lambda>author.
     SFS_TRY (json_value X (j_get_str X) j ''message'' []) (\<lambda>message.
     Ok \<lparr>c_version = version, c_parents = parents, c_manifest = manifest, c_topology = topology,
         c_timestamp = timestamp, c_author = author, c_message = message\<rparr>))))))))"

definition commit_parse :: "'j Ext \<Rightarrow> bytes \<Rightarrow> Commit res" where
  "commit_parse X b =
     (case j_parse X b of
        None \<Rightarrow> SFS_ERR MalformedObject []
      | Some j \<Rightarrow>
          SFS_TRY (catching MalformedObject (commit_fields X j)) (\<lambda>c.
          if \<not> is_valid_timestamp (c_timestamp c) then SFS_ERR MalformedObject (c_timestamp c)
          else
          SFS_TRY (commit_to_canonical_json X c) (\<lambda>reserialized.
          if reserialized \<noteq> b then SFS_ERR CanonicalizationMismatch [] else Ok c)))"

subsection \<open>Manifests\<close>

datatype GroupMode = Full | Delta

record DeltaBase =
  db_commit :: Oid
  db_group :: string

record GroupEntry =
  ge_mode :: GroupMode
  ge_block :: "Oid option"
  ge_base :: "DeltaBase option"
  ge_diff_block :: "Oid option"
  ge_chain_depth :: u32

record FileInfo =
  fi_name :: string
  fi_header_block :: Oid
  fi_total_bytes :: u64
  fi_sha256 :: string

record Manifest =
  m_version :: u32
  m_hash_algo :: string
  m_file :: FileInfo
  m_buffer :: "BufferEntry list"
  m_groups :: "(string \<times> GroupEntry) list"

definition find_group :: "Manifest \<Rightarrow> string \<Rightarrow> GroupEntry option" where
  "find_group m name = map_of (m_groups m) name"

definition max_chain_depth :: "Manifest \<Rightarrow> u32" where
  "max_chain_depth m = foldl (\<lambda>d (n, g). max d (ge_chain_depth g)) 0 (m_groups m)"

fun validate_buffer :: "Manifest \<Rightarrow> u64 \<Rightarrow> BufferEntry list \<Rightarrow> u64 res" where
  "validate_buffer m cursor [] = Ok cursor"
| "validate_buffer m cursor (e # es) =
     (if be_off e \<noteq> cursor then SFS_ERR TensorNotInBufferLayout (be_tensor e)
      else if be_nbytes e = 0 then SFS_ERR TensorNotInBufferLayout (be_tensor e)
      else if find_group m (be_group e) = None then SFS_ERR MalformedObject (be_group e)
      else validate_buffer m (cursor + be_nbytes e) es)"

fun validate_group_entries :: "(string \<times> GroupEntry) list \<Rightarrow> unit res" where
  "validate_group_entries [] = Ok ()"
| "validate_group_entries ((name, g) # gs) =
     (case ge_mode g of
        Full \<Rightarrow>
          (if ge_block g = None then SFS_ERR MalformedObject name
           else if ge_chain_depth g \<noteq> 0 then SFS_ERR MalformedObject name
           else validate_group_entries gs)
      | Delta \<Rightarrow>
          (if ge_base g = None \<or> ge_diff_block g = None then SFS_ERR MalformedObject name
           else validate_group_entries gs))"

definition manifest_validate :: "Manifest \<Rightarrow> unit res" where
  "manifest_validate m =
     (if m_buffer m = [] then SFS_ERR MalformedObject []
      else SFS_TRY (validate_buffer m (be_off (hd (m_buffer m))) (m_buffer m)) (\<lambda>cursor.
           if cursor \<noteq> fi_total_bytes (m_file m) then SFS_ERR TensorNotInBufferLayout []
           else validate_group_entries (m_groups m)))"

definition group_entry_json :: "'j Ext \<Rightarrow> GroupEntry \<Rightarrow> 'j" where
  "group_entry_json X g = j_obj X
     ([(''mode'', j_str X (if ge_mode g = Full then ''full'' else ''delta''))] @
      (case ge_block g of None \<Rightarrow> [] | Some b \<Rightarrow> [(''block'', j_str X (oid_to_string b))]) @
      (case ge_base g of None \<Rightarrow> []
       | Some db \<Rightarrow> [(''base'', j_obj X [(''commit'', j_str X (oid_to_string (db_commit db))),
                                      (''group'', j_str X (db_group db))])]) @
      (case ge_diff_block g of None \<Rightarrow> [] | Some d \<Rightarrow> [(''diff_block'', j_str X (oid_to_string d))]) @
      [(''chain_depth'', j_u64 X (ucast (ge_chain_depth g)))])"

definition buffer_entry_json :: "'j Ext \<Rightarrow> BufferEntry \<Rightarrow> 'j" where
  "buffer_entry_json X e = j_obj X
     [(''tensor'', j_str X (be_tensor e)), (''off'', j_u64 X (be_off e)),
      (''nbytes'', j_u64 X (be_nbytes e)), (''group'', j_str X (be_group e))]"

definition manifest_json :: "'j Ext \<Rightarrow> Manifest \<Rightarrow> 'j" where
  "manifest_json X m = j_obj X
     [(''format_version'', j_u64 X (ucast (m_version m))),
      (''hash_algo'', j_str X (m_hash_algo m)),
      (''file'', j_obj X
        [(''name'', j_str X (fi_name (m_file m))),
         (''header_block'', j_str X (oid_to_string (fi_header_block (m_file m)))),
         (''total_bytes'', j_u64 X (fi_total_bytes (m_file m))),
         (''sha256'', j_str X (fi_sha256 (m_file m)))]),
      (''buffer'', j_arr X (map (buffer_entry_json X) (m_buffer m))),
      (''groups'', j_obj X (map (\<lambda>(name, g). (name, group_entry_json X g)) (m_groups m)))]"

definition manifest_to_canonical_json :: "'j Ext \<Rightarrow> Manifest \<Rightarrow> bytes res" where
  "manifest_to_canonical_json X m = thrown (j_dump X (manifest_json X m))"

definition manifest_oid :: "'j Ext \<Rightarrow> Manifest \<Rightarrow> Oid res" where
  "manifest_oid X m = SFS_TRY (manifest_to_canonical_json X m) (\<lambda>b. Ok (compute_oid (x_blake3 X) KManifest b))"

definition file_info_from_json :: "'j Ext \<Rightarrow> 'j \<Rightarrow> FileInfo res" where
  "file_info_from_json X fj =
     SFS_TRY (at_str X fj ''name'') (\<lambda>name.
     SFS_TRY (at_oid X fj ''header_block'') (\<lambda>hb.
     SFS_TRY (at_u64 X fj ''total_bytes'') (\<lambda>total_bytes.
     SFS_TRY (json_value X (j_get_str X) fj ''sha256'' []) (\<lambda>sha256.
     Ok \<lparr>fi_name = name, fi_header_block = hb, fi_total_bytes = total_bytes, fi_sha256 = sha256\<rparr>))))"

definition buffer_entry_from_json :: "'j Ext \<Rightarrow> 'j \<Rightarrow> BufferEntry res" where
  "buffer_entry_from_json X be =
     SFS_TRY (at_str X be ''tensor'') (\<lambda>tensor.
     SFS_TRY (at_u64 X be ''off'') (\<lambda>off.
     SFS_TRY (at_u64 X be ''nbytes'') (\<lambda>nbytes.
     SFS_TRY (at_str X be ''group'') (\<lambda>group.
     Ok \<lparr>be_tensor = tensor, be_off = off, be_nbytes = nbytes, be_group = group\<rparr>))))"

definition optional_oid :: "'j Ext \<Rightarrow> 'j \<Rightarrow> string \<Rightarrow> Oid option res" where
  "optional_oid X j k = (if j_contains X j k then SFS_TRY (at_oid X j k) (\<lambda>d. Ok (Some d)) else Ok None)"

definition delta_base_from_json :: "'j Ext \<Rightarrow> 'j \<Rightarrow> DeltaBase option res" where
  "delta_base_from_json X v =
     (if j_contains X v ''base''
      then SFS_TRY (json_at X v ''base'') (\<lambda>bj.
           SFS_TRY (at_oid X bj ''commit'') (\<lambda>c.
           SFS_TRY (at_str X bj ''group'') (\<lambda>g.
           Ok (Some \<lparr>db_commit = c, db_group = g\<rparr>))))
      else Ok None)"

definition group_entry_from_json :: "'j Ext \<Rightarrow> string option \<times> 'j \<Rightarrow> (string \<times> GroupEntry) res" where
  "group_entry_from_json X = (\<lambda>(key, v).
     SFS_TRY (at_str X v ''mode'') (\<lambda>mode.
     SFS_TRY (optional_oid X v ''block'') (\<lambda>block.
     SFS_TRY (delta_base_from_json X v) (\<lambda>base.
     SFS_TRY (optional_oid X v ''diff_block'') (\<lambda>diff_block.
     SFS_TRY (json_value X (j_get_u32 X) v ''chain_depth'' 0) (\<lambda>chain_depth.
     SFS_TRY (thrown key) (\<lambda>name.
     Ok (name, \<lparr>ge_mode = (if mode = ''full'' then Full else Delta), ge_block = block, ge_base = base,
                ge_diff_block = diff_block, ge_chain_depth = chain_depth\<rparr>))))))))"

definition manifest_fields :: "'j Ext \<Rightarrow> 'j \<Rightarrow> Manifest res" where
  "manifest_fields X j =
     SFS_TRY (at_u32 X j ''format_version'') (\<lambda>version.
     SFS_TRY (at_str X j ''hash_algo'') (\<lambda>hash_algo.
     SFS_TRY (json_at X j ''file'') (\<lambda>fj.
     SFS_TRY (file_info_from_json X fj) (\<lambda>fi.
     SFS_TRY (json_at X j ''buffer'') (\<lambda>bj.
     SFS_TRY (map_res (buffer_entry_from_json X) (json_elems X bj)) (\<lambda>buffer.
     SFS_TRY (json_at X j ''groups'') (\<lambda>gj.
     SFS_TRY (map_res (group_entry_from_json X) (j_items X gj)) (\<lambda>groups.
     Ok \<lparr>m_version = version, m_hash_algo = hash_algo, m_file = fi, m_buffer = buffer, m_groups = groups\<rparr>))))))))"

definition manifest_parse :: "'j Ext \<Rightarrow> bytes \<Rightarrow> Manifest res" where
  "manifest_parse X b =
     (case j_parse X b of
        None \<Rightarrow> SFS_ERR MalformedObject []
      | Some j \<Rightarrow>
          SFS_TRY (catching MalformedObject (manifest_fields X j)) (\<lambda>m.
          SFS_TRY (manifest_validate m) (\<lambda>_.
          SFS_TRY (manifest_to_canonical_json X m) (\<lambda>reserialized.
          if reserialized \<noteq> b then SFS_ERR CanonicalizationMismatch [] else Ok m))))"

subsection \<open>Trees\<close>

record TreeEntry =
  te_name :: string
  te_manifest :: Oid

record Tree =
  t_version :: u32
  t_entries :: "TreeEntry list"

definition kTreeFormatVersion :: u32 where "kTreeFormatVersion = 2"

definition is_valid_tree_entry_name :: "string \<Rightarrow> bool" where
  "is_valid_tree_entry_name name \<longleftrightarrow>
     name \<noteq> [] \<and> name \<noteq> ''.'' \<and> name \<noteq> ''..'' \<and>
     list_all (\<lambda>c. c \<noteq> CHR ''/'' \<and> c \<noteq> CHR 0x5C \<and> \<not> ((of_char c :: nat) < 32 \<or> (of_char c :: nat) = 127)) name"

fun validate_entries :: "string option \<Rightarrow> TreeEntry list \<Rightarrow> unit res" where
  "validate_entries prev [] = Ok ()"
| "validate_entries prev (e # es) =
     (if \<not> is_valid_tree_entry_name (te_name e) then SFS_ERR MalformedObject (te_name e)
      else if oid_is_null (te_manifest e) then SFS_ERR MalformedObject (te_name e)
      else if (case prev of None \<Rightarrow> False | Some p \<Rightarrow> \<not> p < te_name e) then SFS_ERR MalformedObject (te_name e)
      else validate_entries (Some (te_name e)) es)"

definition tree_validate :: "Tree \<Rightarrow> unit res" where
  "tree_validate t =
     (if t_version t \<noteq> kTreeFormatVersion
      then SFS_ERR UnsupportedFormatVersion (dec_string (unat (t_version t)))
      else if t_entries t = [] then SFS_ERR MalformedObject []
      else validate_entries None (t_entries t))"

definition tree_make :: "TreeEntry list \<Rightarrow> Tree res" where
  "tree_make es =
     (let t = \<lparr>t_version = kTreeFormatVersion, t_entries = sort_key te_name es\<rparr>
      in SFS_TRY (tree_validate t) (\<lambda>_. Ok t))"

text \<open>\<open>std::lower_bound\<close> over the entries, by halving.\<close>

function lower_bound :: "TreeEntry list \<Rightarrow> string \<Rightarrow> nat \<Rightarrow> nat \<Rightarrow> nat" where
  "lower_bound es name first count =
     (if count = 0 then first
      else let step = count div 2; it = first + step
           in if te_name (es ! it) < name then lower_bound es name (it + 1) (count - (step + 1))
              else lower_bound es name first step)"
  by pat_completeness auto
termination
  by (relation "measure (\<lambda>(es, name, first, count). count)") auto

declare lower_bound.simps [simp del]

definition tree_find :: "Tree \<Rightarrow> string \<Rightarrow> TreeEntry option" where
  "tree_find t name =
     (let it = lower_bound (t_entries t) name 0 (length (t_entries t))
      in if it = length (t_entries t) \<or> te_name (t_entries t ! it) \<noteq> name then None
         else Some (t_entries t ! it))"

definition tree_json :: "'j Ext \<Rightarrow> Tree \<Rightarrow> 'j" where
  "tree_json X t = j_obj X
     [(''format_version'', j_u64 X (ucast (t_version t))),
      (''entries'', j_arr X (map (\<lambda>e. j_obj X
         [(''name'', j_str X (te_name e)), (''manifest'', j_str X (oid_to_string (te_manifest e)))]) (t_entries t)))]"

definition tree_to_canonical_json :: "'j Ext \<Rightarrow> Tree \<Rightarrow> bytes res" where
  "tree_to_canonical_json X t = thrown (j_dump X (tree_json X t))"

definition tree_oid :: "'j Ext \<Rightarrow> Tree \<Rightarrow> Oid res" where
  "tree_oid X t = SFS_TRY (tree_to_canonical_json X t) (\<lambda>b. Ok (compute_oid (x_blake3 X) KTree b))"

definition tree_entry_from_json :: "'j Ext \<Rightarrow> 'j \<Rightarrow> TreeEntry res" where
  "tree_entry_from_json X e =
     SFS_TRY (at_str X e ''name'') (\<lambda>name.
     SFS_TRY (at_oid X e ''manifest'') (\<lambda>m.
     Ok \<lparr>te_name = name, te_manifest = m\<rparr>))"

definition tree_fields :: "'j Ext \<Rightarrow> 'j \<Rightarrow> Tree res" where
  "tree_fields X j =
     SFS_TRY (at_u32 X j ''format_version'') (\<lambda>version.
     SFS_TRY (json_at X j ''entries'') (\<lambda>ej.
     if \<not> j_is_array X ej then SFS_ERR MalformedObject []
     else
     SFS_TRY (map_res (tree_entry_from_json X) (json_elems X ej)) (\<lambda>es.
     Ok \<lparr>t_version = version, t_entries = es\<rparr>)))"

definition tree_parse :: "'j Ext \<Rightarrow> bytes \<Rightarrow> Tree res" where
  "tree_parse X b =
     (case j_parse X b of
        None \<Rightarrow> SFS_ERR MalformedObject []
      | Some j \<Rightarrow>
          SFS_TRY (catching MalformedObject (tree_fields X j)) (\<lambda>t.
          SFS_TRY (tree_validate t) (\<lambda>_.
          SFS_TRY (tree_to_canonical_json X t) (\<lambda>reserialized.
          if reserialized \<noteq> b then SFS_ERR CanonicalizationMismatch [] else Ok t))))"

subsection \<open>Safetensors headers\<close>

record StHeader =
  header_extent :: u64
  st_tensors :: "(string \<times> TensorMeta) list"
  st_metadata :: "(string \<times> string) list"

definition buffer_layout :: "StHeader \<Rightarrow> BufferEntry list" where
  "buffer_layout h =
     map (\<lambda>(name, t). \<lparr>be_tensor = name, be_off = data_off t, be_nbytes = tm_nbytes t, be_group = name\<rparr>)
       (sort_key (\<lambda>(name, t). data_off t) (st_tensors h))"

definition read_header_len :: "bytes \<Rightarrow> u64 res" where
  "read_header_len first8 =
     (if length first8 < 8 then SFS_ERR NotSafetensors [] else Ok (load_le_u64 first8 0))"

definition metadata_from_json :: "'j Ext \<Rightarrow> 'j \<Rightarrow> (string \<times> string) list res" where
  "metadata_from_json X v =
     (if j_is_object X v
      then map_res (\<lambda>(k, w). SFS_TRY (thrown k) (\<lambda>key. SFS_TRY (thrown (j_get_str X w)) (\<lambda>s. Ok (key, s))))
             (filter (\<lambda>(k, w). j_is_string X w) (j_items X v))
      else Ok [])"

definition tensor_from_json :: "'j Ext \<Rightarrow> u64 \<Rightarrow> string \<Rightarrow> 'j \<Rightarrow> TensorMeta res" where
  "tensor_from_json X extent key v =
     SFS_TRY (at_str X v ''dtype'') (\<lambda>dts.
     SFS_TRY (dtype_from_string dts) (\<lambda>dt.
     SFS_TRY (if j_contains X v ''shape''
              then SFS_TRY (json_at X v ''shape'') (\<lambda>sj.
                   map_res (\<lambda>d. thrown (j_get_u64 X d)) (json_elems X sj))
              else Ok []) (\<lambda>shape.
     SFS_TRY (json_at X v ''data_offsets'') (\<lambda>off.
     if \<not> j_is_array X off \<or> length (json_elems X off) \<noteq> 2 then SFS_ERR NotSafetensors key
     else
     SFS_TRY (thrown (j_get_u64 X (json_elems X off ! 0))) (\<lambda>begin_off.
     SFS_TRY (thrown (j_get_u64 X (json_elems X off ! 1))) (\<lambda>end_off.
     if begin_off > end_off then SFS_ERR NotSafetensors key
     else Ok \<lparr>shape_owner = key, tm_shape = shape, tm_dtype = dt, data_off = extent + begin_off,
              tm_nbytes = end_off - begin_off\<rparr>))))))"

fun st_header_items :: "'j Ext \<Rightarrow> (string option \<times> 'j) list \<Rightarrow> StHeader \<Rightarrow> StHeader res" where
  "st_header_items X [] hdr = Ok hdr"
| "st_header_items X ((k, v) # its) hdr =
     SFS_TRY (thrown k) (\<lambda>key.
     if key = ''__metadata__''
     then SFS_TRY (metadata_from_json X v) (\<lambda>md. st_header_items X its (hdr\<lparr>st_metadata := md\<rparr>))
     else if \<not> j_contains X v ''dtype'' \<or> \<not> j_contains X v ''data_offsets'' then st_header_items X its hdr
     else SFS_TRY (tensor_from_json X (header_extent hdr) key v) (\<lambda>t.
          st_header_items X its (hdr\<lparr>st_tensors := st_tensors hdr @ [(key, t)]\<rparr>)))"

definition parse_st_header :: "'j Ext \<Rightarrow> bytes \<Rightarrow> StHeader res" where
  "parse_st_header X file_prefix =
     SFS_TRY (read_header_len file_prefix) (\<lambda>n.
     if n = 0 \<or> length file_prefix < unat (8 + n) then SFS_ERR NotSafetensors []
     else if length file_prefix < 8 + unat n then Abort UB
     else case j_parse X (slice file_prefix 8 (unat n)) of
        None \<Rightarrow> SFS_ERR NotSafetensors []
      | Some j \<Rightarrow>
          if \<not> j_is_object X j then SFS_ERR NotSafetensors []
          else st_header_items X (j_items X j) \<lparr>header_extent = 8 + n, st_tensors = [], st_metadata = []\<rparr>)"

fun validate_layout_loop :: "u64 \<Rightarrow> BufferEntry list \<Rightarrow> u64 res" where
  "validate_layout_loop cursor [] = Ok cursor"
| "validate_layout_loop cursor (e # es) =
     (if be_off e \<noteq> cursor then SFS_ERR TensorNotInBufferLayout (be_tensor e)
      else if be_nbytes e = 0 then SFS_ERR TensorNotInBufferLayout (be_tensor e)
      else validate_layout_loop (cursor + be_nbytes e) es)"

definition validate_buffer_layout :: "BufferEntry list \<Rightarrow> u64 \<Rightarrow> u64 \<Rightarrow> unit res" where
  "validate_buffer_layout entries extent total_bytes =
     SFS_TRY (validate_layout_loop extent entries) (\<lambda>cursor.
     if cursor \<noteq> total_bytes then SFS_ERR TensorNotInBufferLayout [] else Ok ())"

subsection \<open>Canonical serialisations: lemmas\<close>

definition wf_commit :: "Commit \<Rightarrow> bool" where
  "wf_commit c \<longleftrightarrow> length (c_parents c) \<le> 2 \<and> list_all wf_oid (c_parents c) \<and> wf_oid (c_manifest c) \<and>
     wf_oid (c_topology c) \<and> is_valid_timestamp (c_timestamp c)"

lemma map_res_oids:
  "map_res (\<lambda>p. SFS_TRY (thrown (j_get_str X p)) oid_parse) xs = Ok ys \<Longrightarrow> list_all wf_oid ys"
  by (induction xs arbitrary: ys) (auto dest: oid_parse_wf)

lemma at_oid_wf: "at_oid X j k = Ok oid \<Longrightarrow> wf_oid oid"
  by (auto simp: at_oid_def dest: oid_parse_wf)

lemma commit_fields_wf:
  "commit_fields X j = Ok c \<Longrightarrow>
   length (c_parents c) \<le> 2 \<and> list_all wf_oid (c_parents c) \<and> wf_oid (c_manifest c) \<and> wf_oid (c_topology c)"
  unfolding commit_fields_def by (auto split: if_splits dest!: map_res_oids at_oid_wf)

lemma plain_commit: "plain X (commit_json X c)"
  unfolding commit_json_def by (auto intro!: plain.intros)

lemma at_oid_obj: "j_at X j k = Some (j_str X (oid_to_string d)) \<Longrightarrow> json_ok X \<Longrightarrow> wf_oid d \<Longrightarrow> at_oid X j k = Ok d"
  by (simp add: at_oid_def json_access json_leaf_laws)

lemma commit_fields_json:
  assumes "json_ok X" "wf_commit c"
  shows "commit_fields X (commit_json X c) = Ok c"
proof -
  have "map_res (\<lambda>p. SFS_TRY (thrown (j_get_str X p)) oid_parse) (map (\<lambda>p. j_str X (oid_to_string p)) (c_parents c)) =
      Ok (map id (c_parents c))"
    using assms by (intro map_res_map) (simp add: json_laws [OF assms(1)] wf_commit_def list_all_iff)
  moreover have "at_oid X (commit_json X c) ''manifest'' = Ok (c_manifest c)"
    "at_oid X (commit_json X c) ''topology'' = Ok (c_topology c)"
    using assms by (auto intro!: at_oid_obj simp: wf_commit_def commit_json_def json_laws [OF assms(1)])
  ultimately show ?thesis
    using assms(2) unfolding commit_fields_def
    by (simp add: commit_json_def json_access json_laws [OF assms(1)] wf_commit_def)
qed

lemma commit_parse_sound: "commit_parse X b = Ok c \<Longrightarrow> wf_commit c \<and> commit_to_canonical_json X c = Ok b"
  by (auto simp: commit_parse_def wf_commit_def split: option.splits if_splits dest!: commit_fields_wf)

lemma commit_parse_written:
  assumes "json_ok X" "wf_commit c" "commit_to_canonical_json X c = Ok b"
  shows "commit_parse X b = Ok c"
proof -
  have "j_parse X b = Some (commit_json X c)"
    using assms(3) json_parse_dump [OF assms(1) plain_commit] by (simp add: commit_to_canonical_json_def)
  then show ?thesis
    using assms commit_fields_json [OF assms(1,2)] by (simp add: commit_parse_def catching_def wf_commit_def)
qed

text \<open>
  Note: A commit object and its bytes determine each other: \<open>Commit::parse\<close> accepts exactly the canonical
  serialisations of well-formed commits (at most two parents, 32-byte ids, an RFC 3339 UTC timestamp) and returns the commit that was
  serialised; the address \<open>Commit::oid\<close> recomputes is the address of the accepted bytes.
\<close>

theorem commit_parse_canonical:
  assumes "json_ok X"
  shows "(commit_parse X b = Ok c \<longleftrightarrow> wf_commit c \<and> commit_to_canonical_json X c = Ok b) \<and>
    (commit_parse X b = Ok c \<longrightarrow> commit_oid X c = Ok (compute_oid (x_blake3 X) KCommit b))"
  using commit_parse_sound [of X b c] commit_parse_written [OF assms, of c b] by (auto simp: commit_oid_def)

definition example_commit :: Commit where
  "example_commit = \<lparr>c_version = 1, c_parents = [replicate 32 7], c_manifest = replicate 32 1, c_topology = replicate 32 2,
     c_timestamp = ''2026-01-31T23:59:59Z'', c_author = ''a'', c_message = ''m''\<rparr>"

lemma commit_json_toy: "commit_json (toy_ext j1) c = commit_json (toy_ext j2) c"
  by (simp add: commit_json_def toy_ext_simps(6-) [abs_def])

theorem commit_parse_canonical_witness:
  "\<exists>j0. commit_parse (toy_ext j0) [1] = Ok example_commit"
proof -
  define j0 where "j0 = commit_json (toy_ext (TBool True)) example_commit"
  have "commit_to_canonical_json (toy_ext j0) example_commit = Ok [1]"
    by (simp add: commit_to_canonical_json_def commit_json_toy [of j0 _ "TBool True"] flip: j0_def)
  moreover have "wf_commit example_commit"
    by (simp add: wf_commit_def example_commit_def wf_oid_def kOidBytes_def is_valid_timestamp_def is_digit_def)
  ultimately show ?thesis
    using commit_parse_canonical [OF toy_json_ok, of j0 "[1]" example_commit] by auto
qed

lemma plain_tree: "plain X (tree_json X t)"
  unfolding tree_json_def by (auto intro!: plain.intros)

lemma tree_fields_wf: "tree_fields X j = Ok t \<Longrightarrow> list_all (\<lambda>e. wf_oid (te_manifest e)) (t_entries t)"
proof -
  have "map_res (tree_entry_from_json X) js = Ok es \<Longrightarrow> list_all (\<lambda>e. wf_oid (te_manifest e)) es" for js es
    by (induction js arbitrary: es) (auto simp: tree_entry_from_json_def dest!: at_oid_wf)
  then show "tree_fields X j = Ok t \<Longrightarrow> ?thesis"
    by (auto simp: tree_fields_def split: if_splits)
qed

lemma tree_fields_json:
  assumes "json_ok X" "list_all (\<lambda>e. wf_oid (te_manifest e)) (t_entries t)"
  shows "tree_fields X (tree_json X t) = Ok t"
proof -
  let ?ej = "\<lambda>e. j_obj X [(''name'', j_str X (te_name e)), (''manifest'', j_str X (oid_to_string (te_manifest e)))]"
  have "map_res (tree_entry_from_json X) (map ?ej (t_entries t)) = Ok (map id (t_entries t))"
    using assms(2)
    by (intro map_res_map) (simp add: tree_entry_from_json_def at_oid_def json_access json_laws [OF assms(1)] list_all_iff)
  then show ?thesis
    unfolding tree_fields_def by (simp add: tree_json_def json_access json_laws [OF assms(1)])
qed

text \<open>
  Note: A tree object and its bytes determine each other: \<open>Tree::parse\<close> accepts exactly the canonical
  serialisations of the trees that \<open>Tree::validate\<close> accepts.
\<close>

theorem tree_parse_canonical:
  assumes "json_ok X"
  shows "tree_parse X b = Ok t \<longleftrightarrow>
    tree_validate t = Ok () \<and> list_all (\<lambda>e. wf_oid (te_manifest e)) (t_entries t) \<and> tree_to_canonical_json X t = Ok b"
proof
  show "tree_validate t = Ok () \<and> list_all (\<lambda>e. wf_oid (te_manifest e)) (t_entries t) \<and> tree_to_canonical_json X t = Ok b"
    if "tree_parse X b = Ok t"
    using that by (auto simp: tree_parse_def split: option.splits if_splits dest!: tree_fields_wf)
next
  assume t: "tree_validate t = Ok () \<and> list_all (\<lambda>e. wf_oid (te_manifest e)) (t_entries t) \<and> tree_to_canonical_json X t = Ok b"
  then have "j_parse X b = Some (tree_json X t)"
    using json_parse_dump [OF assms plain_tree] by (simp add: tree_to_canonical_json_def)
  then show "tree_parse X b = Ok t"
    using t tree_fields_json [OF assms] by (simp add: tree_parse_def catching_def)
qed

definition example_tree :: Tree where
  "example_tree = \<lparr>t_version = 2, t_entries = [\<lparr>te_name = ''a.st'', te_manifest = replicate 32 1\<rparr>,
     \<lparr>te_name = ''b.st'', te_manifest = replicate 32 2\<rparr>]\<rparr>"

lemma validate_example_tree: "tree_validate example_tree = Ok ()"
  by (simp add: tree_validate_def example_tree_def kTreeFormatVersion_def is_valid_tree_entry_name_def oid_is_null_def
      list_all_iff less_char_def)

lemma tree_json_toy: "tree_json (toy_ext j1) c = tree_json (toy_ext j2) c"
  by (simp add: tree_json_def toy_ext_simps(6-) [abs_def])

theorem tree_parse_canonical_witness: "\<exists>j0. tree_parse (toy_ext j0) [1] = Ok example_tree"
proof -
  define j0 where "j0 = tree_json (toy_ext (TBool True)) example_tree"
  have "tree_to_canonical_json (toy_ext j0) example_tree = Ok [1]"
    by (simp add: tree_to_canonical_json_def tree_json_toy [of j0 _ "TBool True"] flip: j0_def)
  moreover have "list_all (\<lambda>e. wf_oid (te_manifest e)) (t_entries example_tree)"
    by (simp add: example_tree_def wf_oid_def kOidBytes_def)
  ultimately show ?thesis
    using tree_parse_canonical [OF toy_json_ok, of j0 "[1]" example_tree] validate_example_tree by auto
qed

subsection \<open>Looking a file up in a tree\<close>

lemma validate_entries_sorted:
  "validate_entries prev es = Ok () \<Longrightarrow>
   sorted_wrt (<) (map te_name es) \<and> (\<forall>p. prev = Some p \<longrightarrow> (\<forall>e \<in> set es. p < te_name e))"
proof (induction es arbitrary: prev)
  case (Cons e es)
  then have ih: "sorted_wrt (<) (map te_name es)" "\<forall>e' \<in> set es. te_name e < te_name e'"
    and prev: "\<forall>p. prev = Some p \<longrightarrow> p < te_name e"
    by (auto split: if_splits option.splits)
  then show ?case
    by (auto intro: less_trans)
qed simp

lemma lower_bound_partition:
  assumes "sorted_wrt (<) (map te_name es)" "first + count \<le> length es"
    and "\<forall>i < first. te_name (es ! i) < name" "\<forall>i. first + count \<le> i \<longrightarrow> i < length es \<longrightarrow> \<not> te_name (es ! i) < name"
  shows "lower_bound es name first count \<le> length es \<and>
    (\<forall>i < lower_bound es name first count. te_name (es ! i) < name) \<and>
    (\<forall>i. lower_bound es name first count \<le> i \<longrightarrow> i < length es \<longrightarrow> \<not> te_name (es ! i) < name)"
  using assms
proof (induction es name first count rule: lower_bound.induct)
  case (1 es name first count)
  have mono: "te_name (es ! i) < te_name (es ! j)" if "i < j" "j < length es" for i j
    using sorted_wrt_nth_less [OF "1.prems"(1), of i j] that by simp
  show ?case
  proof (cases "count = 0")
    case True
    then have "lower_bound es name first count = first"
      by (subst lower_bound.simps) simp
    with True "1.prems"(2-4) show ?thesis by simp
  next
    case False
    define step where "step = count div 2"
    let ?it = "first + step"
    have it: "?it < length es" "step < count"
      using False "1.prems"(2) by (auto simp: step_def)
    show ?thesis
    proof (cases "te_name (es ! ?it) < name")
      case True
      have eq: "lower_bound es name first count = lower_bound es name (?it + 1) (count - (step + 1))"
        using False True unfolding lower_bound.simps [of es name first count] Let_def step_def by (simp only: if_True if_False)
      have below: "\<forall>i < ?it + 1. te_name (es ! i) < name"
      proof (intro allI impI)
        fix i assume "i < ?it + 1"
        then show "te_name (es ! i) < name"
          using True mono [of i ?it] it(1) by (cases "i = ?it") (auto dest: less_trans)
      qed
      have sum: "?it + 1 + (count - (step + 1)) = first + count"
        using it(2) by simp
      show ?thesis
        unfolding eq
        by (rule "1.IH"(1) [OF False step_def refl True "1.prems"(1) _ below]) (use sum "1.prems"(2,4) in simp_all)
    next
      case F: False
      have eq: "lower_bound es name first count = lower_bound es name first step"
        using False F unfolding lower_bound.simps [of es name first count] Let_def step_def by (simp only: if_True if_False)
      have above: "\<forall>i. first + step \<le> i \<longrightarrow> i < length es \<longrightarrow> \<not> te_name (es ! i) < name"
      proof (intro allI impI)
        fix i assume "?it \<le> i" "i < length es"
        then show "\<not> te_name (es ! i) < name"
          using F mono [of ?it i] by (cases "i = ?it") (auto dest: less_trans)
      qed
      show ?thesis
        unfolding eq
        by (rule "1.IH"(2) [OF False step_def refl F "1.prems"(1) _ "1.prems"(3) above]) (use it(1) in simp)
    qed
  qed
qed

text \<open>
  Note: In a tree that \<open>Tree::validate\<close> accepts, names are strictly ascending, and the binary search of \<open>Tree::find\<close>
  returns an entry exactly when one with that name is there, and then that entry.
\<close>

theorem tree_find_correct:
  assumes "tree_validate t = Ok ()"
  shows "sorted_wrt (<) (map te_name (t_entries t)) \<and>
    tree_find t name = find (\<lambda>e. te_name e = name) (t_entries t)"
proof -
  let ?es = "t_entries t"
  have sorted: "sorted_wrt (<) (map te_name ?es)"
    using assms validate_entries_sorted [of None ?es] by (auto simp: tree_validate_def split: if_splits)
  let ?it = "lower_bound ?es name 0 (length ?es)"
  have it: "?it \<le> length ?es" "\<forall>i < ?it. te_name (?es ! i) < name"
    "\<forall>i. ?it \<le> i \<longrightarrow> i < length ?es \<longrightarrow> \<not> te_name (?es ! i) < name"
    using lower_bound_partition [OF sorted, of 0 "length ?es" name] by auto
  have "tree_find t name = find (\<lambda>e. te_name e = name) ?es"
  proof (cases "?it < length ?es \<and> te_name (?es ! ?it) = name")
    case True
    then have "find (\<lambda>e. te_name e = name) ?es = Some (?es ! ?it)"
      using it(2) by (auto simp: find_Some_iff intro!: exI [of _ ?it])
    with True show ?thesis
      by (simp add: tree_find_def Let_def)
  next
    case False
    have "te_name (?es ! i) \<noteq> name" if "i < length ?es" for i
    proof (cases "i < ?it")
      case True
      then show ?thesis using it(2) by auto
    next
      case ge: False
      with that it(3) have "\<not> te_name (?es ! ?it) < name" "?it < length ?es"
        by auto
      moreover have "te_name (?es ! ?it) \<le> te_name (?es ! i)"
        using sorted_wrt_nth_less [OF sorted, of ?it i] ge that by (cases "i = ?it") auto
      ultimately show ?thesis
        using False by (metis linorder_neqE order.strict_trans1 order_less_irrefl)
    qed
    then have "find (\<lambda>e. te_name e = name) ?es = None"
      by (auto simp: find_None_iff in_set_conv_nth)
    with False it(1) show ?thesis
      by (auto simp: tree_find_def Let_def)
  qed
  with sorted show ?thesis by blast
qed

theorem tree_find_correct_witness:
  "tree_find example_tree ''b.st'' = Some \<lparr>te_name = ''b.st'', te_manifest = replicate 32 2\<rparr> \<and>
   tree_find example_tree ''c.st'' = None"
  using tree_find_correct [OF validate_example_tree, of "''b.st''"] tree_find_correct [OF validate_example_tree, of "''c.st''"]
  by (simp add: example_tree_def)

subsection \<open>Manifests: lemmas\<close>

definition wf_group_entry :: "GroupEntry \<Rightarrow> bool" where
  "wf_group_entry g \<longleftrightarrow> (\<forall>b. ge_block g = Some b \<longrightarrow> wf_oid b) \<and>
     (\<forall>db. ge_base g = Some db \<longrightarrow> wf_oid (db_commit db)) \<and> (\<forall>d. ge_diff_block g = Some d \<longrightarrow> wf_oid d)"

definition wf_manifest :: "Manifest \<Rightarrow> bool" where
  "wf_manifest m \<longleftrightarrow> wf_oid (fi_header_block (m_file m)) \<and> sorted_wrt (<) (map fst (m_groups m)) \<and>
     (\<forall>(name, g) \<in> set (m_groups m). wf_group_entry g)"

lemma plain_group_entry: "plain X (group_entry_json X g)"
  unfolding group_entry_json_def
  by (cases "ge_block g"; cases "ge_base g"; cases "ge_diff_block g") (auto intro!: plain.intros)

lemma plain_manifest:
  assumes "sorted_wrt (<) (map fst (m_groups m))"
  shows "plain X (manifest_json X m)"
proof -
  have "distinct (map fst (m_groups m))"
    using assms by (simp add: strict_sorted_iff)
  then have "plain X (j_obj X (map (\<lambda>(name, g). (name, group_entry_json X g)) (m_groups m)))"
    by (intro plain_obj) (auto simp: comp_def case_prod_beta intro: plain_group_entry)
  then show ?thesis
    unfolding manifest_json_def buffer_entry_json_def by (auto intro!: plain.intros)
qed

lemma group_entry_roundtrip:
  assumes "json_ok X" "wf_group_entry g"
  shows "group_entry_from_json X (Some name, group_entry_json X g) = Ok (name, g)"
  using assms(2) unfolding group_entry_from_json_def group_entry_json_def
  by (cases "ge_block g"; cases "ge_base g"; cases "ge_diff_block g"; cases "ge_mode g")
    (simp_all add: json_access optional_oid_def delta_base_from_json_def at_oid_def json_laws [OF assms(1)] wf_group_entry_def)

lemma buffer_entry_roundtrip: "json_ok X \<Longrightarrow> buffer_entry_from_json X (buffer_entry_json X e) = Ok e"
  by (simp add: buffer_entry_from_json_def buffer_entry_json_def json_access json_laws)

lemma group_entries_roundtrip:
  assumes "json_ok X" "wf_manifest m"
  shows "map_res (group_entry_from_json X) (j_items X (j_obj X (map (\<lambda>(name, g). (name, group_entry_json X g)) (m_groups m)))) =
    Ok (m_groups m)"
proof -
  let ?kvs = "map (\<lambda>(name, g). (name, group_entry_json X g)) (m_groups m)"
  have keys: "map fst ?kvs = map fst (m_groups m)"
    by (simp add: comp_def case_prod_beta)
  have s: "sorted_wrt (<) (map fst (m_groups m))"
    using assms(2) by (simp add: wf_manifest_def)
  then have "sort_key fst ?kvs = ?kvs"
    by (intro sort_key_id_if_sorted) (simp only: keys strict_sorted_iff)
  moreover have "distinct (map fst ?kvs)"
    using s by (simp only: keys strict_sorted_iff)
  ultimately have items: "j_items X (j_obj X ?kvs) = map (\<lambda>(name, g). (Some name, group_entry_json X g)) (m_groups m)"
    using json_obj_laws(4) [OF assms(1), of ?kvs] by (simp add: comp_def case_prod_beta)
  have "map_res (group_entry_from_json X) (map (\<lambda>(name, g). (Some name, group_entry_json X g)) (m_groups m)) =
      Ok (map id (m_groups m))"
    using assms by (intro map_res_map) (auto simp: wf_manifest_def group_entry_roundtrip)
  then show ?thesis
    by (simp add: items)
qed

lemma manifest_fields_json:
  assumes "json_ok X" "wf_manifest m"
  shows "manifest_fields X (manifest_json X m) = Ok m"
proof -
  have "map_res (buffer_entry_from_json X) (map (buffer_entry_json X) (m_buffer m)) = Ok (map id (m_buffer m))"
    by (intro map_res_map) (simp add: buffer_entry_roundtrip [OF assms(1)])
  moreover have "file_info_from_json X (j_obj X
        [(''name'', j_str X (fi_name (m_file m))),
         (''header_block'', j_str X (oid_to_string (fi_header_block (m_file m)))),
         (''total_bytes'', j_u64 X (fi_total_bytes (m_file m))),
         (''sha256'', j_str X (fi_sha256 (m_file m)))]) = Ok (m_file m)"
    using assms(2) by (simp add: file_info_from_json_def at_oid_def json_access json_laws [OF assms(1)] wf_manifest_def)
  ultimately show ?thesis
    using group_entries_roundtrip [OF assms] unfolding manifest_fields_def
    by (simp add: manifest_json_def json_access json_laws [OF assms(1)])
qed

lemma manifest_parse_sound: "manifest_parse X b = Ok m \<Longrightarrow> manifest_validate m = Ok () \<and> manifest_to_canonical_json X m = Ok b"
  by (auto simp: manifest_parse_def split: option.splits if_splits)

lemma manifest_parse_written:
  assumes "json_ok X" "wf_manifest m" "manifest_validate m = Ok ()" "manifest_to_canonical_json X m = Ok b"
  shows "manifest_parse X b = Ok m"
proof -
  have "j_parse X b = Some (manifest_json X m)"
    using assms json_parse_dump [OF assms(1) plain_manifest] by (simp add: manifest_to_canonical_json_def wf_manifest_def)
  then show ?thesis
    using assms manifest_fields_json [OF assms(1), of m] by (simp add: manifest_parse_def catching_def)
qed

text \<open>
  C40: A manifest and its bytes determine each other: whatever \<open>Manifest::parse\<close> accepts is valid and is the
  canonical serialisation of what it returns, so its recomputed address is the address of the bytes; and the
  canonical serialisation of a valid manifest (32-byte ids, groups in key order as a \<open>std::map\<close> keeps them)
  is accepted and gives that manifest back.
\<close>

theorem manifest_parse_canonical:
  assumes "json_ok X"
  shows "(manifest_parse X b = Ok m \<longrightarrow> manifest_validate m = Ok () \<and> manifest_to_canonical_json X m = Ok b \<and>
        manifest_oid X m = Ok (compute_oid (x_blake3 X) KManifest b)) \<and>
    (wf_manifest m \<longrightarrow> manifest_validate m = Ok () \<longrightarrow> manifest_to_canonical_json X m = Ok b \<longrightarrow>
        manifest_parse X b = Ok m)"
  using manifest_parse_sound [of X b m] manifest_parse_written [OF assms, of m b] by (auto simp: manifest_oid_def)

definition example_manifest :: Manifest where
  "example_manifest = \<lparr>m_version = 1, m_hash_algo = ''blake3'',
     m_file = \<lparr>fi_name = ''a.st'', fi_header_block = replicate 32 3, fi_total_bytes = 24, fi_sha256 = []\<rparr>,
     m_buffer = [\<lparr>be_tensor = ''w'', be_off = 16, be_nbytes = 4, be_group = ''w''\<rparr>,
                 \<lparr>be_tensor = ''x'', be_off = 20, be_nbytes = 4, be_group = ''x''\<rparr>],
     m_groups = [(''w'', \<lparr>ge_mode = Full, ge_block = Some (replicate 32 4), ge_base = None, ge_diff_block = None,
                         ge_chain_depth = 0\<rparr>),
                 (''x'', \<lparr>ge_mode = Delta, ge_block = None, ge_base = Some \<lparr>db_commit = replicate 32 5, db_group = ''x''\<rparr>,
                         ge_diff_block = Some (replicate 32 6), ge_chain_depth = 1\<rparr>)]\<rparr>"

lemma validate_example_manifest: "manifest_validate example_manifest = Ok ()"
  by (simp add: manifest_validate_def example_manifest_def find_group_def)

lemma manifest_json_toy: "manifest_json (toy_ext j1) m = manifest_json (toy_ext j2) m"
  by (simp add: manifest_json_def buffer_entry_json_def group_entry_json_def toy_ext_simps(6-) [abs_def] cong: option.case_cong)

theorem manifest_parse_canonical_witness: "\<exists>j0. manifest_parse (toy_ext j0) [1] = Ok example_manifest"
proof -
  define j0 where "j0 = manifest_json (toy_ext (TBool True)) example_manifest"
  have "manifest_to_canonical_json (toy_ext j0) example_manifest = Ok [1]"
    by (simp add: manifest_to_canonical_json_def manifest_json_toy [of j0 _ "TBool True"] flip: j0_def)
  moreover have "wf_manifest example_manifest"
    by (simp add: wf_manifest_def wf_group_entry_def example_manifest_def wf_oid_def kOidBytes_def less_char_def)
  ultimately show ?thesis
    using manifest_parse_canonical [OF toy_json_ok, of j0 "[1]" example_manifest] validate_example_manifest by auto
qed

subsection \<open>Buffer layouts tile the file\<close>

definition covers :: "BufferEntry \<Rightarrow> nat \<Rightarrow> bool" where
  "covers e x \<longleftrightarrow> unat (be_off e) \<le> x \<and> x < unat (be_off e) + unat (be_nbytes e)"

definition layout_bytes :: "BufferEntry list \<Rightarrow> nat" where
  "layout_bytes es = sum_list (map (\<lambda>e. unat (be_nbytes e)) es)"

lemma layout_loop_spec:
  assumes "validate_layout_loop c es = Ok c'" "unat c + layout_bytes es < 2 ^ 64"
  shows "unat c' = unat c + layout_bytes es \<and>
    (\<forall>e \<in> set es. unat c \<le> unat (be_off e) \<and> unat (be_off e) + unat (be_nbytes e) \<le> unat c') \<and>
    (\<forall>x. unat c \<le> x \<and> x < unat c' \<longrightarrow> (\<exists>!i. i < length es \<and> covers (es ! i) x))"
  using assms
proof (induction es arbitrary: c)
  case Nil
  then show ?case by (auto simp: layout_bytes_def)
next
  case (Cons e es)
  then have e: "be_off e = c" and loop: "validate_layout_loop (c + be_nbytes e) es = Ok c'"
    by (auto split: if_splits)
  have next_c: "unat (c + be_nbytes e) = unat c + unat (be_nbytes e)"
    using Cons.prems(2) by (simp add: layout_bytes_def unat_word_ariths)
  note ih = Cons.IH [OF loop]
  have bytes: "layout_bytes (e # es) = unat (be_nbytes e) + layout_bytes es"
    by (simp add: layout_bytes_def)
  have tail: "unat c' = unat c + layout_bytes (e # es)"
    "\<forall>e' \<in> set es. unat c + unat (be_nbytes e) \<le> unat (be_off e') \<and> unat (be_off e') + unat (be_nbytes e') \<le> unat c'"
    "\<And>x. unat c + unat (be_nbytes e) \<le> x \<Longrightarrow> x < unat c' \<Longrightarrow> \<exists>!i. i < length es \<and> covers (es ! i) x"
    using ih next_c Cons.prems(2) bytes by auto
  have "\<exists>!i. i < length (e # es) \<and> covers ((e # es) ! i) x" if x: "unat c \<le> x" "x < unat c'" for x
  proof (cases "x < unat c + unat (be_nbytes e)")
    case True
    have "\<not> covers (es ! i) x" if "i < length es" for i
      using tail(2) that True nth_mem [OF that] by (fastforce simp: covers_def)
    then show ?thesis
      using True x e by (intro ex1I [of _ 0]) (auto simp: covers_def nth_Cons split: nat.splits)
  next
    case False
    then have "\<exists>!i. i < length es \<and> covers (es ! i) x"
      using tail(3) [of x] x by simp
    then obtain i where i: "i < length es \<and> covers (es ! i) x"
      and uniq: "\<forall>j. j < length es \<and> covers (es ! j) x \<longrightarrow> j = i"
      by (rule ex1E)
    have "\<not> covers e x"
      using False e by (simp add: covers_def)
    then have "j = Suc i" if "j < length (e # es) \<and> covers ((e # es) ! j) x" for j
      using that uniq [rule_format, of "j - 1"] by (cases j) simp_all
    with i show ?thesis
      by (intro ex1I [of _ "Suc i"]) simp_all
  qed
  then show ?case
    using tail(1,2) e by (auto simp: bytes)
qed

lemma validate_buffer_layout_loop: "validate_buffer m c es = Ok c' \<Longrightarrow> validate_layout_loop c es = Ok c'"
  by (induction m c es rule: validate_buffer.induct) (auto split: if_splits)

text \<open>
  Note: The byte layout of an accepted file has no gap and no overlap: in a manifest that \<open>Manifest::validate\<close>
  accepts, every byte from the first tensor to the end of the file belongs to exactly one buffer entry, every entry
  lies inside the file and names a group of the manifest, and the entries add up to the file. The 64-bit cursor of the check
  must not wrap for this.
\<close>

theorem manifest_validate_tiles:
  assumes "manifest_validate m = Ok ()" "unat (be_off (hd (m_buffer m))) + layout_bytes (m_buffer m) < 2 ^ 64"
  shows "unat (fi_total_bytes (m_file m)) = unat (be_off (hd (m_buffer m))) + layout_bytes (m_buffer m) \<and>
    (\<forall>x. unat (be_off (hd (m_buffer m))) \<le> x \<and> x < unat (fi_total_bytes (m_file m)) \<longrightarrow>
       (\<exists>!i. i < length (m_buffer m) \<and> covers (m_buffer m ! i) x)) \<and>
    (\<forall>e \<in> set (m_buffer m). unat (be_off e) + unat (be_nbytes e) \<le> unat (fi_total_bytes (m_file m)) \<and>
       find_group m (be_group e) \<noteq> None)"
proof -
  have loop: "validate_buffer m (be_off (hd (m_buffer m))) (m_buffer m) = Ok (fi_total_bytes (m_file m))"
    using assms(1) by (auto simp: manifest_validate_def split: if_splits)
  have "validate_buffer m c es = Ok c' \<Longrightarrow> e \<in> set es \<Longrightarrow> find_group m (be_group e) \<noteq> None" for c es c' e
    by (induction m c es rule: validate_buffer.induct) (auto split: if_splits)
  then show ?thesis
    using layout_loop_spec [OF validate_buffer_layout_loop [OF loop] assms(2)] loop by blast
qed

theorem manifest_validate_tiles_witness:
  "unat (fi_total_bytes (m_file example_manifest)) = 16 + layout_bytes (m_buffer example_manifest) \<and>
   (\<exists>!i. i < length (m_buffer example_manifest) \<and> covers (m_buffer example_manifest ! i) 21)"
proof -
  have small: "unat (be_off (hd (m_buffer example_manifest))) + layout_bytes (m_buffer example_manifest) < 2 ^ 64"
    by (simp add: example_manifest_def layout_bytes_def)
  show ?thesis
    using manifest_validate_tiles [OF validate_example_manifest small]
    by (simp add: example_manifest_def)
qed

text \<open>
  Note: The safetensors layout check has the same guarantee from the end of the header on: an accepted layout covers the
  data section of the file exactly once, provided that the 64-bit cursor does not wrap.
\<close>

theorem validate_buffer_layout_tiles:
  assumes "validate_buffer_layout es extent total_bytes = Ok ()" "unat extent + layout_bytes es < 2 ^ 64"
  shows "unat total_bytes = unat extent + layout_bytes es \<and>
    (\<forall>x. unat extent \<le> x \<and> x < unat total_bytes \<longrightarrow> (\<exists>!i. i < length es \<and> covers (es ! i) x))"
proof -
  have "validate_layout_loop extent es = Ok total_bytes"
    using assms(1) by (auto simp: validate_buffer_layout_def split: if_splits)
  from layout_loop_spec [OF this assms(2)] show ?thesis
    by blast
qed

theorem validate_buffer_layout_tiles_witness:
  "validate_buffer_layout (m_buffer example_manifest) 16 24 = Ok () \<and>
   (\<exists>!i. i < length (m_buffer example_manifest) \<and> covers (m_buffer example_manifest ! i) 17)"
proof -
  have ok: "validate_buffer_layout (m_buffer example_manifest) 16 24 = Ok ()"
    by (simp add: validate_buffer_layout_def example_manifest_def)
  have "unat (16 :: u64) + layout_bytes (m_buffer example_manifest) < 2 ^ 64"
    by (simp add: example_manifest_def layout_bytes_def)
  from validate_buffer_layout_tiles [OF ok this] show ?thesis
    using ok by simp
qed

text \<open>
  Note: The condition on the cursor is needed: there is a manifest that \<open>Manifest::validate\<close> accepts although its second
  entry lies before its first one, because the sum of the sizes wraps around 64 bits.
\<close>

theorem manifest_validate_wraps:
  "\<exists>m e f. manifest_validate m = Ok () \<and> m_buffer m = [e, f] \<and> be_off f < be_off e \<and>
     unat (fi_total_bytes (m_file m)) < unat (be_off e) + unat (be_nbytes e)"
proof -
  let ?e = "\<lparr>be_tensor = ''w'', be_off = 16, be_nbytes = - 8, be_group = ''w''\<rparr>"
  let ?f = "\<lparr>be_tensor = ''x'', be_off = 8, be_nbytes = 8, be_group = ''w''\<rparr>"
  have "unat (- 8 :: u64) = 2 ^ 64 - 8"
    by simp
  then show ?thesis
    by (intro exI [of _ "example_manifest\<lparr>m_buffer := [?e, ?f], m_file := (m_file example_manifest)\<lparr>fi_total_bytes := 16\<rparr>\<rparr>"]
        exI [of _ ?e] exI [of _ ?f])
      (simp add: manifest_validate_def example_manifest_def find_group_def)
qed

end
