(* ===== verification/Format_Object.thy ===== *)
theory Format_Object
  imports Core_Tensor External
begin

section \<open>The loose-object container and its chunk digests\<close>

text \<open>
  \<open>src/modules/format/src/object.cpp\<close> with the bit helpers of \<open>src/modules/util\<close> it uses and the
  chunk arithmetic of \<open>src/modules/codec\<close> (\<open>chunk.hpp\<close>, \<open>chunk.cpp\<close>). A container file is the
  40-byte header, the table of chunk digests, and the payload. The header keeps the kind and the
  compression as the raw bytes of the file, because \<open>decode\<close> casts them unchecked. The main results:
  the header round-trips, an encoded object carries its payload and a table against which every
  chunk of it verifies, and the chunks a read touches cover the read.
\<close>

subsection \<open>Bit helpers\<close>

definition ceil_div :: "u64 \<Rightarrow> u64 \<Rightarrow> u64" where
  "ceil_div a b = (a + b - 1) div b"

definition is_pow2 :: "u64 \<Rightarrow> bool" where
  "is_pow2 v \<longleftrightarrow> v \<noteq> 0 \<and> (v AND (v - 1)) = 0"

definition align_down :: "u64 \<Rightarrow> u64 \<Rightarrow> u64" where
  "align_down v align = (v AND NOT (align - 1))"

definition countr_zero :: "u64 \<Rightarrow> nat" where
  "countr_zero v = length (takeWhile (\<lambda>i. \<not> bit v i) [0..<64])"

definition log2_exact :: "u64 \<Rightarrow> u32" where
  "log2_exact v = of_nat (countr_zero v)"

subsection \<open>Header\<close>

primrec kind_code :: "ObjectKind \<Rightarrow> u8" where
  "kind_code KRaw = 0"
| "kind_code KDiff = 1"
| "kind_code KHeader = 2"
| "kind_code KManifest = 3"
| "kind_code KCommit = 4"
| "kind_code KTopology = 5"
| "kind_code KTree = 6"

datatype Compression = CNone | CZstd

primrec compression_code :: "Compression \<Rightarrow> u8" where
  "compression_code CNone = 0"
| "compression_code CZstd = 1"

record ObjectHeader =
  oh_kind :: u8
  oh_compression :: u8
  chunk_log2 :: u32
  payload_len :: u64
  stored_len :: u64
  chunk_count :: u32

definition kSize :: nat where "kSize = 40"

definition kMagic :: bytes where
  "kMagic = [83, 70, 83, 79, 66, 74, 0, 1]"

definition object_header_encode :: "ObjectHeader \<Rightarrow> bytes" where
  "object_header_encode h =
     kMagic @ [oh_kind h, oh_compression h] @ le_bytes 4 (unat (chunk_log2 h)) @
     le_bytes 8 (unat (payload_len h)) @ le_bytes 8 (unat (stored_len h)) @
     le_bytes 4 (unat (chunk_count h)) @ replicate 6 0"

definition object_header_decode :: "bytes \<Rightarrow> ObjectHeader res" where
  "object_header_decode b =
     (if length b < kSize then SFS_ERR MalformedObject []
      else if slice b 0 8 \<noteq> kMagic then SFS_ERR MalformedObject []
      else Ok \<lparr>oh_kind = b ! 8, oh_compression = b ! 9, chunk_log2 = load_le_u32 b 10,
               payload_len = load_le_u64 b 14, stored_len = load_le_u64 b 22,
               chunk_count = load_le_u32 b 30\<rparr>)"

subsection \<open>Chunk digests\<close>

definition chunk_of :: "bytes \<Rightarrow> nat \<Rightarrow> nat \<Rightarrow> bytes" where
  "chunk_of payload chunk_bytes i =
     slice payload (i * chunk_bytes) (min chunk_bytes (length payload - i * chunk_bytes))"

definition compute_chunk_digests :: "(bytes \<Rightarrow> bytes) \<Rightarrow> bytes \<Rightarrow> u64 \<Rightarrow> bytes" where
  "compute_chunk_digests blake3 payload chunk_bytes =
     (if payload = [] then []
      else concat (map (\<lambda>i. digest blake3 (chunk_of payload (unat chunk_bytes) i))
             [0..<unat (ceil_div (of_nat (length payload)) chunk_bytes)]))"

definition verify_chunk :: "(bytes \<Rightarrow> bytes) \<Rightarrow> bytes \<Rightarrow> bytes \<Rightarrow> u32 \<Rightarrow> unit res" where
  "verify_chunk blake3 chunk_bytes digest_table chunk_index =
     (let off = unat chunk_index * kOidBytes
      in if off + kOidBytes > length digest_table then SFS_ERR MalformedObject []
         else if digest blake3 chunk_bytes \<noteq> slice digest_table off kOidBytes
         then SFS_ERR ChunkDigestMismatch (dec_string (unat chunk_index))
         else Ok ())"

definition verify_chunk_digest ::
  "(bytes \<Rightarrow> bytes) \<Rightarrow> bytes \<Rightarrow> bytes \<Rightarrow> u32 \<Rightarrow> Oid \<Rightarrow> unit res" where
  "verify_chunk_digest blake3 chunk digest_table index object =
     (let off = unat index * kOidBytes;
          context = oid_to_string object @ '' chunk '' @ dec_string (unat index)
      in if off + kOidBytes > length digest_table then SFS_ERR MalformedObject context
         else if digest blake3 chunk \<noteq> slice digest_table off kOidBytes
         then SFS_ERR ChunkDigestMismatch context
         else Ok ())"

definition encode_object ::
  "(bytes \<Rightarrow> bytes) \<Rightarrow> ObjectKind \<Rightarrow> bytes \<Rightarrow> Compression \<Rightarrow> u64 \<Rightarrow> bytes res" where
  "encode_object blake3 kind payload compression chunk_bytes =
     (if compression \<noteq> CNone then SFS_ERR NotImplemented []
      else if \<not> is_pow2 chunk_bytes then SFS_ERR Internal []
      else let digests = compute_chunk_digests blake3 payload chunk_bytes;
               hdr = \<lparr>oh_kind = kind_code kind, oh_compression = compression_code CNone,
                      chunk_log2 = log2_exact chunk_bytes,
                      payload_len = of_nat (length payload), stored_len = of_nat (length payload),
                      chunk_count = of_nat (length digests div kOidBytes)\<rparr>
           in Ok (object_header_encode hdr @ digests @ payload))"

subsection \<open>The chunks a read touches\<close>

record ChunkRange =
  cr_first :: u32
  cr_last :: u32

definition chunks_covering :: "u64 \<Rightarrow> u64 \<Rightarrow> u64 \<Rightarrow> ChunkRange" where
  "chunks_covering offset len chunk_bytes =
     (if len = 0 then \<lparr>cr_first = 0, cr_last = 0\<rparr>
      else \<lparr>cr_first = ucast (offset div chunk_bytes),
            cr_last = ucast ((offset + len - 1) div chunk_bytes)\<rparr>)"

definition chunk_extent :: "u32 \<Rightarrow> u64 \<Rightarrow> u64 \<Rightarrow> u64 \<times> u64" where
  "chunk_extent index chunk_bytes total_len =
     (let begin = ucast index * chunk_bytes
      in (begin, if begin + chunk_bytes > total_len then total_len - begin else chunk_bytes))"

subsection \<open>Powers of two\<close>

lemma pow2_nat: "v \<noteq> 0 \<Longrightarrow> (v AND (v - 1)) = (0 :: nat) \<Longrightarrow> \<exists>k. v = 2 ^ k"
proof (induction v rule: nat_bit_induct)
  case (even n)
  have "(2 * n - 1) div 2 = n - 1"
    using even.hyps by arith
  then have "(2 * n AND (2 * n - 1)) = 2 * (n AND (n - 1))"
    by (subst and_rec) simp
  with even show ?case
    by (auto intro: exI [of _ "Suc _"])
next
  case (odd n)
  have "(Suc (2 * n) AND 2 * n) = 2 * n"
    by (subst and_rec) simp
  with odd show ?case
    by (auto intro: exI [of _ 0])
qed simp

lemma countr_zero_pow2: "k < 64 \<Longrightarrow> countr_zero (2 ^ k) = k"
proof -
  assume k: "k < 64"
  have "takeWhile (\<lambda>i. \<not> bit (2 ^ k :: u64) i) ([0..<k] @ [k..<64]) = [0..<k]"
    using k by (subst takeWhile_append2) (auto simp: bit_exp_iff takeWhile_eq_Nil_iff upt_rec)
  moreover have "[0..<64] = [0..<k] @ [k..<64]"
    using k by (metis le_add_same_cancel1 less_imp_le upt_add_eq_append zero_le le_Suc_ex)
  ultimately show "countr_zero (2 ^ k) = k"
    by (simp add: countr_zero_def)
qed

lemma is_pow2_log2:
  assumes "is_pow2 v"
  shows "unat v = 2 ^ unat (log2_exact v)" "unat (log2_exact v) < 64"
proof -
  have v: "v \<noteq> 0" "(v AND (v - 1)) = 0"
    using assms by (simp_all add: is_pow2_def)
  have "unat (v AND (v - 1)) = (unat v AND (unat v - 1))"
    using v(1) by (simp add: unsigned_and_eq unat_minus_one)
  then obtain k where k: "unat v = 2 ^ k"
    using pow2_nat [of "unat v"] v by (auto simp: unat_eq_0)
  have "k < 64"
  proof (rule ccontr)
    assume "\<not> k < 64"
    then have "(2 :: nat) ^ 64 \<le> 2 ^ k"
      by (intro power_increasing) simp_all
    then show False
      using unsigned_less [of v, where ?'a = nat] k by simp
  qed
  moreover have "v = 2 ^ k"
  proof -
    have "(of_nat (unat v) :: u64) = 2 ^ k"
      unfolding k by simp
    then show ?thesis by simp
  qed
  ultimately have "unat (log2_exact v) = k"
    by (simp add: log2_exact_def countr_zero_pow2 unat_of_nat)
  then show "unat v = 2 ^ unat (log2_exact v)" "unat (log2_exact v) < 64"
    using k \<open>k < 64\<close> by simp_all
qed

lemma unat_ceil_div:
  assumes "C \<noteq> 0" "n + unat C \<le> 2 ^ 64"
  shows "unat (ceil_div (of_nat n) C) = (n + unat C - 1) div unat C"
proof -
  have C: "0 < unat C"
    using assms(1) by (simp add: unat_gt_0)
  have "unat (of_nat n + C - 1) = n + unat C - 1"
  proof -
    have eq: "of_nat n + C - 1 = (of_nat (n + unat C - 1) :: u64)"
      using C by (simp add: of_nat_diff)
    show ?thesis
      unfolding eq unat_of_nat using assms(2) C by simp
  qed
  then show ?thesis
    by (simp add: ceil_div_def unat_div)
qed

subsection \<open>The container round-trips\<close>

lemma length_object_header_encode [simp]: "length (object_header_encode h) = kSize"
  by (simp add: object_header_encode_def kMagic_def kSize_def)

lemma object_header_decode_encode [simp]:
  "object_header_decode (object_header_encode h @ rest) = Ok h"
  by (simp add: object_header_decode_def object_header_encode_def kMagic_def kSize_def slice_def
      load_le_u32_def load_le_u64_def le_simps)

definition chunk_total :: "nat \<Rightarrow> nat \<Rightarrow> nat" where
  "chunk_total len C = (len + C - 1) div C"

lemma chunk_total_bounds:
  assumes "0 < C"
  shows "len \<le> chunk_total len C * C" "i < chunk_total len C \<longleftrightarrow> i * C < len"
proof -
  have "len + C - 1 < (chunk_total len C + 1) * C"
    using assms unfolding chunk_total_def by (metis add.commute div_less_iff_less_mult less_add_one)
  then show le: "len \<le> chunk_total len C * C"
    by simp
  have "i * C < len \<longleftrightarrow> (i + 1) * C \<le> len + C - 1"
    using assms by auto
  also have "\<dots> \<longleftrightarrow> i + 1 \<le> chunk_total len C"
    using assms unfolding chunk_total_def by (simp add: less_eq_div_iff_mult_less_eq)
  finally show "i < chunk_total len C \<longleftrightarrow> i * C < len"
    by auto
qed

lemma compute_chunk_digests_eq:
  assumes "C \<noteq> 0" "length payload + unat C \<le> 2 ^ 64"
  shows "compute_chunk_digests blake3 payload C =
    concat (map (\<lambda>i. digest blake3 (chunk_of payload (unat C) i)) [0..<chunk_total (length payload) (unat C)])"
proof (cases "payload = []")
  case True
  then show ?thesis
    using assms(1) by (simp add: compute_chunk_digests_def chunk_total_def unat_gt_0)
next
  case False
  then show ?thesis
    using assms by (simp add: compute_chunk_digests_def chunk_total_def unat_ceil_div)
qed

lemma length_compute_chunk_digests:
  assumes "C \<noteq> 0" "length payload + unat C \<le> 2 ^ 64" "\<forall>x. length (blake3 x) = kOidBytes"
  shows "length (compute_chunk_digests blake3 payload C) = chunk_total (length payload) (unat C) * kOidBytes"
  using assms by (simp add: compute_chunk_digests_eq length_concat_uniform [where k = kOidBytes] digest_def)

lemma slice_compute_chunk_digests:
  assumes "C \<noteq> 0" "length payload + unat C \<le> 2 ^ 64" "\<forall>x. length (blake3 x) = kOidBytes"
    and "i < chunk_total (length payload) (unat C)"
  shows "slice (compute_chunk_digests blake3 payload C) (i * kOidBytes) kOidBytes =
    digest blake3 (chunk_of payload (unat C) i)"
  using assms
  by (simp add: compute_chunk_digests_eq slice_concat_unit digest_def)

lemma verify_chunk_own_digest:
  assumes "C \<noteq> 0" "length payload + unat C \<le> 2 ^ 64" "\<forall>x. length (blake3 x) = kOidBytes"
    and "unat i < chunk_total (length payload) (unat C)"
  shows "verify_chunk blake3 (chunk_of payload (unat C) (unat i))
    (compute_chunk_digests blake3 payload C) i = Ok ()"
proof -
  have "(unat i + 1) * kOidBytes \<le> chunk_total (length payload) (unat C) * kOidBytes"
    using assms(4) by (intro mult_le_mono1) simp
  then show ?thesis
    using assms by (simp add: verify_chunk_def Let_def length_compute_chunk_digests slice_compute_chunk_digests)
qed

text \<open>
  The facts a reader of an encoded object relies on, in one place: the header it decodes, the
  length of the file, the window that holds the digest table, and the window that holds a chunk.
\<close>

lemma encode_object_Ok:
  assumes "is_pow2 C"
  obtains hdr where
    "encode_object blake3 kind payload CNone C =
       Ok (object_header_encode hdr @ compute_chunk_digests blake3 payload C @ payload)"
    "oh_kind hdr = kind_code kind" "oh_compression hdr = compression_code CNone"
    "chunk_log2 hdr = log2_exact C" "payload_len hdr = of_nat (length payload)"
    "chunk_count hdr = of_nat (length (compute_chunk_digests blake3 payload C) div kOidBytes)"
  using assms by (simp add: encode_object_def Let_def)

lemma kind_code_inj: "kind_code k = kind_code k' \<longleftrightarrow> k = k'"
  by (cases k; cases k') simp_all

subsection \<open>Properties\<close>

text \<open>
  Note: encoding a loose-object header and decoding the file that starts with it gives back every
  field, whatever follows it; and decoding accepts nothing shorter than 40 bytes and nothing
  without the magic.
\<close>

theorem object_header_roundtrip:
  "object_header_decode (object_header_encode h @ rest) = Ok h \<and>
   (\<forall>b h'. object_header_decode b = Ok h' \<longrightarrow> kSize \<le> length b \<and> take 8 b = kMagic)"
proof (intro conjI allI impI)
  show "object_header_decode (object_header_encode h @ rest) = Ok h" by simp
next
  fix b h'
  assume "object_header_decode b = Ok h'"
  then show "kSize \<le> length b" "take 8 b = kMagic"
    by (simp_all add: object_header_decode_def slice_def not_less split: if_splits)
qed

theorem object_header_roundtrip_witness:
  "object_header_decode (object_header_encode
      \<lparr>oh_kind = 1, oh_compression = 0, chunk_log2 = 16, payload_len = 300, stored_len = 300, chunk_count = 1\<rparr> @ [7]) =
    Ok \<lparr>oh_kind = 1, oh_compression = 0, chunk_log2 = 16, payload_len = 300, stored_len = 300, chunk_count = 1\<rparr>"
  using object_header_roundtrip by blast

text \<open>
  Note: a container written by \<open>encode_object\<close> carries a digest table against which every chunk of the
  payload verifies, one entry per chunk and no more: the header counts the chunks, the table is
  the window right after the header, and the payload is the rest of the file.
\<close>

theorem encode_object_chunks_verify:
  assumes hash: "\<forall>x. length (blake3 x) = kOidBytes"
    and C: "is_pow2 C" and size: "length payload + unat C \<le> 2 ^ 64"
    and few: "chunk_total (length payload) (unat C) < 2 ^ 32"
    and enc: "encode_object blake3 kind payload CNone C = Ok file"
  shows "\<exists>hdr. object_header_decode file = Ok hdr \<and>
    unat (chunk_count hdr) = chunk_total (length payload) (unat C) \<and>
    drop (kSize + unat (chunk_count hdr) * kOidBytes) file = payload \<and>
    (\<forall>i. unat i < unat (chunk_count hdr) \<longrightarrow>
       verify_chunk blake3 (chunk_of payload (2 ^ unat (chunk_log2 hdr)) (unat i))
         (slice file kSize (unat (chunk_count hdr) * kOidBytes)) i = Ok ())"
proof -
  have C0: "C \<noteq> 0"
    using C by (simp add: is_pow2_def)
  obtain hdr where hdr:
      "encode_object blake3 kind payload CNone C =
         Ok (object_header_encode hdr @ compute_chunk_digests blake3 payload C @ payload)"
      "chunk_log2 hdr = log2_exact C"
      "chunk_count hdr = of_nat (length (compute_chunk_digests blake3 payload C) div kOidBytes)"
    using encode_object_Ok [OF C, of blake3 kind payload] by metis
  let ?T = "compute_chunk_digests blake3 payload C" and ?n = "chunk_total (length payload) (unat C)"
  have len: "length ?T = ?n * kOidBytes"
    by (rule length_compute_chunk_digests [OF C0 size hash])
  have count: "unat (chunk_count hdr) = ?n"
    using few by (simp add: hdr(3) len unat_of_nat kOidBytes_def)
  have feq: "file = object_header_encode hdr @ ?T @ payload"
    using enc hdr(1) by simp
  have "slice file kSize (?n * kOidBytes) = ?T"
    by (simp add: feq slice_simps flip: len)
  moreover have "drop (kSize + ?n * kOidBytes) file = payload"
    by (simp add: feq len)
  moreover have "2 ^ unat (chunk_log2 hdr) = unat C"
    by (simp add: hdr(2) is_pow2_log2(1) [OF C])
  ultimately show ?thesis
    using verify_chunk_own_digest [OF C0 size hash] by (intro exI [of _ hdr]) (simp add: count, simp add: feq)
qed

lemma toy_blake3_length: "\<forall>x. length (toy_blake3 x) = kOidBytes"
  by (simp add: kOidBytes_def)

theorem encode_object_chunks_verify_witness:
  "\<exists>file hdr. encode_object toy_blake3 KRaw [1, 2, 3, 4, 5] CNone 4 = Ok file \<and>
     object_header_decode file = Ok hdr \<and> unat (chunk_count hdr) = 2 \<and>
     drop (kSize + 2 * kOidBytes) file = [1, 2, 3, 4, 5]"
proof -
  have C: "is_pow2 4"
    by (simp add: is_pow2_def)
  obtain f where enc: "encode_object toy_blake3 KRaw [1, 2, 3, 4, 5] CNone 4 = Ok f"
    using encode_object_Ok [OF C] by metis
  show ?thesis
    using encode_object_chunks_verify [OF toy_blake3_length C _ _ enc] enc by (auto simp: chunk_total_def)
qed

text \<open>
  Note: the inclusive chunk range of a read covers exactly the chunks that hold one of its bytes (for
  reads that end inside the 64-bit range, in objects of fewer than \<open>2 ^ 32\<close> chunks): verification
  granularity equals read granularity.
\<close>

theorem chunks_covering_exact:
  assumes "C \<noteq> 0" "len \<noteq> 0" "unat off + unat len \<le> 2 ^ 64"
    and "(unat off + unat len - 1) div unat C < 2 ^ 32"
  shows "{unat (cr_first (chunks_covering off len C))..unat (cr_last (chunks_covering off len C))} =
    (\<lambda>x. x div unat C) ` {unat off..<unat off + unat len}"
proof -
  have C: "0 < unat C" and len: "0 < unat len"
    using assms(1,2) by (simp_all add: unat_gt_0)
  have last: "unat (off + len - 1) = unat off + unat len - 1"
  proof -
    have eq: "off + len - 1 = (of_nat (unat off + unat len - 1) :: u64)"
      using len by (simp add: of_nat_diff)
    show ?thesis
      unfolding eq unat_of_nat using assms(3) len by simp
  qed
  have "unat off div unat C \<le> (unat off + unat len - 1) div unat C"
    using len by (intro div_le_mono) simp
  then have ends: "unat (cr_first (chunks_covering off len C)) = unat off div unat C"
      "unat (cr_last (chunks_covering off len C)) = (unat off + unat len - 1) div unat C"
    using assms(2,4) by (simp_all add: chunks_covering_def unsigned_ucast_eq unat_div last take_bit_eq_mod)
  show ?thesis
    unfolding ends
  proof (rule set_eqI, rule iffI)
    fix k
    assume k: "k \<in> {unat off div unat C..(unat off + unat len - 1) div unat C}"
    define x where "x = max (unat off) (k * unat C)"
    have "k * unat C \<le> unat off + unat len - 1"
      using k C by (simp add: less_eq_div_iff_mult_less_eq)
    moreover have "x div unat C = k"
    proof (cases "unat off \<le> k * unat C")
      case True
      then show ?thesis using C by (simp add: x_def max_def)
    next
      case False
      then have "k \<le> unat off div unat C"
        using C by (simp add: less_eq_div_iff_mult_less_eq)
      then show ?thesis using False k by (simp add: x_def max_def)
    qed
    ultimately show "k \<in> (\<lambda>x. x div unat C) ` {unat off..<unat off + unat len}"
      using len by (intro image_eqI [of _ _ x]) (auto simp: x_def)
  next
    fix k
    assume "k \<in> (\<lambda>x. x div unat C) ` {unat off..<unat off + unat len}"
    then show "k \<in> {unat off div unat C..(unat off + unat len - 1) div unat C}"
      by (auto intro!: div_le_mono)
  qed
qed

theorem chunks_covering_exact_witness:
  "{unat (cr_first (chunks_covering 5 10 4))..unat (cr_last (chunks_covering 5 10 4))} =
    (\<lambda>x. x div unat (4 :: u64)) ` {unat (5 :: u64)..<unat (5 :: u64) + unat (10 :: u64)}"
  by (rule chunks_covering_exact) simp_all

end
