(* ===== verification/Store_Loose.thy ===== *)
theory Store_Loose
  imports Format_Object External
begin

section \<open>The block store\<close>

text \<open>
  \<open>src/modules/store/src/loose.cpp\<close> and \<open>block_store.cpp\<close>. The objects directory is a map from fan-out paths to file
  contents. A durable write either takes place as a whole or fails (that is what \<open>util::atomic_write\<close> provides, see
  the theory on atomic writes); which of the two happens is an argument. A failing read and a read past the end of the file end in
  the same error branch of the code, so only the second is modelled. The main results: what \<open>get\<close> returns hashes to
  the address it was asked for; a stored object is read back, whole or by range; a later write never changes it; and the streaming
  writer produces the same file as the in-memory one however the payload is cut into pieces.
\<close>

type_synonym files = "string \<rightharpoonup> bytes"

subsection \<open>Loose objects\<close>

definition loose_put :: "'j Ext \<Rightarrow> u64 \<Rightarrow> files \<Rightarrow> bool \<Rightarrow> ObjectKind \<Rightarrow> bytes \<Rightarrow> files \<times> Oid res" where
  "loose_put X chunk_bytes fs write_ok kind payload =
     (let oid = compute_oid (x_blake3 X) kind payload; dest = oid_fanout_path oid
      in if fs dest \<noteq> None then (fs, Ok oid)
         else case encode_object (x_blake3 X) kind payload CNone chunk_bytes of
           Err e \<Rightarrow> (fs, Err e)
         | Abort a \<Rightarrow> (fs, Abort a)
         | Ok encoded \<Rightarrow> if write_ok then (fs(dest \<mapsto> encoded), Ok oid) else (fs, SFS_ERR Io dest))"

definition checked_header :: "bytes \<Rightarrow> Oid \<Rightarrow> ObjectKind \<Rightarrow> ObjectHeader res" where
  "checked_header b oid expected_kind =
     SFS_TRY (object_header_decode b) (\<lambda>hdr.
     if oh_kind hdr \<noteq> kind_code expected_kind then SFS_ERR ObjectKindMismatch (oid_to_string oid)
     else if oh_compression hdr \<noteq> compression_code CNone then SFS_ERR NotImplemented (oid_to_string oid)
     else Ok hdr)"

definition loose_get :: "'j Ext \<Rightarrow> files \<Rightarrow> Oid \<Rightarrow> ObjectKind \<Rightarrow> bytes res" where
  "loose_get X fs oid expected_kind =
     (case fs (oid_fanout_path oid) of
        None \<Rightarrow> SFS_ERR ObjectNotFound (oid_to_string oid)
      | Some b \<Rightarrow>
          SFS_TRY (checked_header b oid expected_kind) (\<lambda>hdr.
          let payload_off = kSize + unat (chunk_count hdr) * kOidBytes
          in if length b \<noteq> unat (of_nat payload_off + payload_len hdr) then SFS_ERR MalformedObject (oid_to_string oid)
             else if length b < payload_off then Abort UB
             else let payload = drop payload_off b
                  in if compute_oid (x_blake3 X) expected_kind payload \<noteq> oid then SFS_ERR HashMismatch (oid_to_string oid)
                     else Ok payload))"

lemma loop_progress: "doneN < want \<Longrightarrow> take_n \<noteq> 0 \<Longrightarrow> want - (doneN + take_n) < want - (doneN :: nat)"
  by simp

text \<open>
  The chunk loop of \<open>read_range\<close>: \<open>out\<close> is the caller's span, \<open>doneN\<close> the bytes already copied. When the chunk index is
  truncated to 32 bits the copy would start behind the chunk that was read.
\<close>

function read_chunks ::
  "'j Ext \<Rightarrow> bytes \<Rightarrow> Oid \<Rightarrow> u64 \<Rightarrow> u64 \<Rightarrow> nat \<Rightarrow> bytes \<Rightarrow> u64 \<Rightarrow> nat \<Rightarrow> nat \<Rightarrow> bytes \<Rightarrow> (bytes \<times> u64) res" where
  "read_chunks X b oid plen chunk_bytes payload_off digests offset want doneN out =
     (if doneN < want
      then let abs_off = offset + of_nat doneN;
               chunk_idx = ucast (abs_off div chunk_bytes) :: u32;
               chunk_start = ucast chunk_idx * chunk_bytes;
               chunk_len = min chunk_bytes (plen - chunk_start);
               chunk_buf = slice b (unat (of_nat payload_off + chunk_start)) (unat chunk_len)
           in if length chunk_buf \<noteq> unat chunk_len then SFS_ERR Io (oid_to_string oid)
              else SFS_TRY (verify_chunk (x_blake3 X) chunk_buf digests chunk_idx) (\<lambda>_.
                let within = abs_off - chunk_start;
                    take_n = min (want - doneN) (unat (chunk_len - within))
                in if take_n = 0 then Abort NoFuel
                   else if unat chunk_len < unat within + take_n then Abort UB
                   else read_chunks X b oid plen chunk_bytes payload_off digests offset want (doneN + take_n)
                          (memcpy_at out doneN (slice chunk_buf (unat within) take_n)))
      else Ok (out, of_nat doneN))"
  by pat_completeness auto
termination
  by (relation "measure (\<lambda>(X, b, oid, plen, cb, po, dg, offset, want, doneN, out). want - doneN)")
    (simp, simp only: in_measure split_conv, rule loop_progress)

declare read_chunks.simps [simp del]

definition loose_read_range ::
  "'j Ext \<Rightarrow> files \<Rightarrow> Oid \<Rightarrow> ObjectKind \<Rightarrow> u64 \<Rightarrow> bytes \<Rightarrow> (bytes \<times> u64) res" where
  "loose_read_range X fs oid expected_kind offset out =
     (case fs (oid_fanout_path oid) of
        None \<Rightarrow> SFS_ERR ObjectNotFound (oid_to_string oid)
      | Some b \<Rightarrow>
          if length b < kSize then SFS_ERR MalformedObject (oid_to_string oid)
          else SFS_TRY (checked_header (take kSize b) oid expected_kind) (\<lambda>hdr.
          if payload_len hdr \<le> offset then Ok (out, 0)
          else if 64 \<le> unat (chunk_log2 hdr) then Abort UB
          else let want = min (length out) (unat (payload_len hdr - offset));
                   chunk_bytes = push_bit (unat (chunk_log2 hdr)) 1;
                   digest_bytes = unat (chunk_count hdr) * kOidBytes;
                   digests = slice b kSize digest_bytes
               in if length digests \<noteq> digest_bytes then SFS_ERR MalformedObject (oid_to_string oid)
                  else read_chunks X b oid (payload_len hdr) chunk_bytes (kSize + digest_bytes) digests offset want 0 out))"

definition loose_verify_block :: "'j Ext \<Rightarrow> files \<Rightarrow> Oid \<Rightarrow> ObjectKind \<Rightarrow> unit res" where
  "loose_verify_block X fs oid expected_kind = SFS_TRY (loose_get X fs oid expected_kind) (\<lambda>_. Ok ())"

definition loose_contains :: "files \<Rightarrow> Oid \<Rightarrow> bool" where
  "loose_contains fs oid \<longleftrightarrow> fs (oid_fanout_path oid) \<noteq> None"

definition loose_read_header :: "files \<Rightarrow> Oid \<Rightarrow> ObjectHeader res" where
  "loose_read_header fs oid =
     (case fs (oid_fanout_path oid) of
        None \<Rightarrow> SFS_ERR ObjectNotFound (oid_to_string oid)
      | Some b \<Rightarrow> if length b < kSize then SFS_ERR MalformedObject (oid_to_string oid)
                  else object_header_decode (take kSize b))"

definition size_of :: "files \<Rightarrow> Oid \<Rightarrow> u64 res" where
  "size_of fs oid = SFS_TRY (loose_read_header fs oid) (\<lambda>hdr. Ok (payload_len hdr))"

definition kind_of :: "files \<Rightarrow> Oid \<Rightarrow> u8 res" where
  "kind_of fs oid = SFS_TRY (loose_read_header fs oid) (\<lambda>hdr. Ok (oh_kind hdr))"

text \<open>\<open>list_all\<close> scans two directory levels; \<open>paths\<close> lists the files found, as the iterators produce them.\<close>

definition loose_list_all :: "(string \<times> string) list \<Rightarrow> Oid list" where
  "loose_list_all paths =
     List.map_filter (\<lambda>(top, leaf). case oid_parse (''b3:'' @ top @ leaf) of Ok oid \<Rightarrow> Some oid | _ \<Rightarrow> None) paths"

definition loose_unlink :: "files \<Rightarrow> bool \<Rightarrow> Oid \<Rightarrow> files \<times> unit res" where
  "loose_unlink fs remove_ok oid =
     (if remove_ok then (fs(oid_fanout_path oid := None), Ok ()) else (fs, SFS_ERR Io (oid_fanout_path oid)))"

subsection \<open>The streaming writer\<close>

record StreamingWriter =
  sw_kind :: ObjectKind
  sw_expected_len :: u64
  sw_hashed :: bytes
  sw_tmp :: bytes
  sw_written :: u64
  sw_chunk_bytes :: u64
  sw_chunk_buf :: bytes
  sw_digests :: bytes

definition writer_open :: "u64 \<Rightarrow> ObjectKind \<Rightarrow> u64 \<Rightarrow> StreamingWriter" where
  "writer_open chunk_bytes kind expected_len =
     \<lparr>sw_kind = kind, sw_expected_len = expected_len, sw_hashed = begin_frame kind expected_len, sw_tmp = [],
      sw_written = 0, sw_chunk_bytes = chunk_bytes, sw_chunk_buf = [], sw_digests = []\<rparr>"

definition flush_chunk :: "'j Ext \<Rightarrow> StreamingWriter \<Rightarrow> StreamingWriter" where
  "flush_chunk X w = w\<lparr>sw_digests := sw_digests w @ digest (x_blake3 X) (sw_chunk_buf w), sw_chunk_buf := []\<rparr>"

text \<open>The loop over the arriving data; with a chunk size of 0 it makes no progress and never returns.\<close>

function fold_chunks :: "'j Ext \<Rightarrow> bytes \<Rightarrow> StreamingWriter \<Rightarrow> StreamingWriter res" where
  "fold_chunks X data w =
     (if data = [] then Ok w
      else if unat (sw_chunk_bytes w) \<le> length (sw_chunk_buf w) then Abort NoFuel
      else let space = unat (sw_chunk_bytes w) - length (sw_chunk_buf w);
               take_n = min space (length data);
               w1 = w\<lparr>sw_chunk_buf := sw_chunk_buf w @ take take_n data\<rparr>;
               w2 = (if length (sw_chunk_buf w1) = unat (sw_chunk_bytes w) then flush_chunk X w1 else w1)
           in fold_chunks X (drop take_n data) w2)"
  by pat_completeness auto
termination
  by (relation "measure (\<lambda>(X, data, w). length data)") auto

declare fold_chunks.simps [simp del]

definition writer_write :: "'j Ext \<Rightarrow> bool \<Rightarrow> bytes \<Rightarrow> StreamingWriter \<Rightarrow> StreamingWriter res" where
  "writer_write X write_ok data w =
     (if data = [] then Ok w
      else if \<not> write_ok then SFS_ERR Io []
      else SFS_TRY (fold_chunks X data
             (w\<lparr>sw_tmp := memcpy_at (sw_tmp w) (unat (sw_written w)) data, sw_hashed := hasher_update (sw_hashed w) data\<rparr>))
           (\<lambda>w'. Ok (w'\<lparr>sw_written := sw_written w' + of_nat (length data)\<rparr>)))"

text \<open>
  \<open>commit\<close>: the second temporary file is header, digest table and a copy of the first one; it is renamed into place.
  The outcome of that publication is \<open>publish_ok\<close>.
\<close>

definition writer_commit :: "'j Ext \<Rightarrow> files \<Rightarrow> bool \<Rightarrow> StreamingWriter \<Rightarrow> files \<times> Oid res" where
  "writer_commit X fs publish_ok w0 =
     (let w = (if sw_chunk_buf w0 \<noteq> [] then flush_chunk X w0 else w0)
      in if sw_written w \<noteq> sw_expected_len w then (fs, SFS_ERR Internal [])
         else let oid = x_blake3 X (sw_hashed w); dest = oid_fanout_path oid
              in if fs dest \<noteq> None then (fs, Ok oid)
                 else let hdr = \<lparr>oh_kind = kind_code (sw_kind w), oh_compression = compression_code CNone,
                                 chunk_log2 = log2_exact (sw_chunk_bytes w), payload_len = sw_expected_len w,
                                 stored_len = sw_expected_len w,
                                 chunk_count = of_nat (length (sw_digests w) div kOidBytes)\<rparr>
                      in if \<not> publish_ok then (fs, SFS_ERR Io dest)
                         else (fs(dest \<mapsto> object_header_encode hdr @ sw_digests w @ take (unat (sw_written w)) (sw_tmp w)), Ok oid))"

text \<open>A client of the writer: open, write the pieces in order, commit.\<close>

primrec write_all :: "'j Ext \<Rightarrow> bytes list \<Rightarrow> StreamingWriter \<Rightarrow> StreamingWriter res" where
  "write_all X [] w = Ok w"
| "write_all X (d # ds) w = SFS_TRY (writer_write X True d w) (write_all X ds)"


subsection \<open>Reading an encoded object\<close>

definition storable :: "'j Ext \<Rightarrow> u64 \<Rightarrow> bytes \<Rightarrow> bool" where
  "storable X C payload \<longleftrightarrow> blake3_ok X \<and> is_pow2 C \<and> length payload + unat C \<le> 2 ^ 63 \<and>
     chunk_total (length payload) (unat C) < 2 ^ 32"

lemma compute_oid_wf: "blake3_ok X \<Longrightarrow> wf_oid (compute_oid (x_blake3 X) k p)"
  by (simp add: compute_oid_def blake3_ok_def wf_oid_def kOidBytes_def)

lemma encoded_file:
  assumes "storable X C p"
  obtains hdr T where
    "encode_object (x_blake3 X) k p CNone C = Ok (object_header_encode hdr @ T @ p)"
    "T = compute_chunk_digests (x_blake3 X) p C"
    "oh_kind hdr = kind_code k" "oh_compression hdr = compression_code CNone"
    "chunk_log2 hdr = log2_exact C" "payload_len hdr = of_nat (length p)"
    "unat (chunk_count hdr) = chunk_total (length p) (unat C)"
    "length T = unat (chunk_count hdr) * kOidBytes"
proof -
  have C: "is_pow2 C" "C \<noteq> 0" "length p + unat C \<le> 2 ^ 64"
    using assms by (auto simp: storable_def is_pow2_def)
  have hash: "\<forall>x. length (x_blake3 X x) = kOidBytes"
    using assms by (simp add: storable_def blake3_ok_def kOidBytes_def)
  let ?T = "compute_chunk_digests (x_blake3 X) p C"
  have len: "length ?T = chunk_total (length p) (unat C) * kOidBytes"
    by (rule length_compute_chunk_digests [OF C(2,3) hash])
  obtain hdr where hdr: "encode_object (x_blake3 X) k p CNone C = Ok (object_header_encode hdr @ ?T @ p)"
    "oh_kind hdr = kind_code k" "oh_compression hdr = compression_code CNone"
    "chunk_log2 hdr = log2_exact C" "payload_len hdr = of_nat (length p)"
    "chunk_count hdr = of_nat (length ?T div kOidBytes)"
    using encode_object_Ok [OF C(1), of "x_blake3 X" k p] by metis
  have "unat (chunk_count hdr) = chunk_total (length p) (unat C)"
    using assms by (simp add: hdr(6) len unat_of_nat kOidBytes_def storable_def)
  then show ?thesis
    using that hdr len by metis
qed

lemma loose_get_encoded:
  assumes "storable X C p" "encode_object (x_blake3 X) k p CNone C = Ok f"
    "fs (oid_fanout_path (compute_oid (x_blake3 X) k p)) = Some f"
  shows "loose_get X fs (compute_oid (x_blake3 X) k p) k = Ok p"
proof -
  obtain hdr T where h: "f = object_header_encode hdr @ T @ p" "oh_kind hdr = kind_code k"
    "oh_compression hdr = compression_code CNone" "payload_len hdr = of_nat (length p)"
    "unat (chunk_count hdr) = chunk_total (length p) (unat C)" "length T = unat (chunk_count hdr) * kOidBytes"
    using encoded_file [OF assms(1), of k] assms(2) by (metis res.inject(1))
  have "0 < unat C"
    using assms(1) by (auto simp: storable_def is_pow2_def unat_gt_0)
  then have small: "length p < 2 ^ 63" "unat (chunk_count hdr) < 2 ^ 32"
    using assms(1) h(5) by (auto simp: storable_def)
  have "unat (of_nat (kSize + unat (chunk_count hdr) * kOidBytes) + payload_len hdr) =
      unat (of_nat (length f) :: u64)"
    by (simp only: h(1,4,6) length_append length_object_header_encode of_nat_add add.assoc)
  also have "\<dots> = length f"
    using small by (intro unat_of_nat_small) (simp add: h(1,6) kSize_def kOidBytes_def)
  finally have "unat (of_nat (kSize + unat (chunk_count hdr) * kOidBytes) + payload_len hdr) = length f" .
  then show ?thesis
    using assms(3) h by (simp add: loose_get_def checked_header_def Let_def del: of_nat_add of_nat_mult)
qed

lemma memcpy_at_memcpy_at:
  assumes "d + length s1 + length s2 \<le> length out"
  shows "memcpy_at (memcpy_at out d s1) (d + length s1) s2 = memcpy_at out d (s1 @ s2)"
  using assms by (simp add: memcpy_at_def ac_simps)

lemma unat_div_mod_facts:
  fixes a C :: nat
  assumes "0 < C"
  shows "a div C * C \<le> a" "a - a div C * C = a mod C" "a < a div C * C + C"
  using assms dividend_less_div_times [of C a] by (simp_all add: minus_div_mult_eq_mod add.commute)

lemma read_chunks_encoded:
  assumes st: "storable X C p" and b: "b = H @ compute_chunk_digests (x_blake3 X) p C @ p"
    and po: "payload_off = length H + length (compute_chunk_digests (x_blake3 X) p C)" "payload_off < 2 ^ 62"
    and want: "unat offset + want \<le> length p" "doneN \<le> want" "want \<le> length out"
  shows "read_chunks X b oid (of_nat (length p)) C payload_off (compute_chunk_digests (x_blake3 X) p C) offset want doneN out =
    Ok (memcpy_at out doneN (slice p (unat offset + doneN) (want - doneN)), of_nat want)"
  using want(2,3)
proof (induction "want - doneN" arbitrary: doneN out rule: less_induct)
  case less
  let ?T = "compute_chunk_digests (x_blake3 X) p C" and ?C = "unat C"
  show ?case
  proof (cases "doneN < want")
    case False
    with less.prems show ?thesis
      by (subst read_chunks.simps) (simp add: memcpy_at_def)
  next
    case True
    have C: "C \<noteq> 0" "length p + ?C \<le> 2 ^ 64" "length p + ?C \<le> 2 ^ 63" "0 < ?C"
      using st by (auto simp: storable_def is_pow2_def unat_gt_0)
    have hash: "\<forall>x. length (x_blake3 X x) = kOidBytes"
      using st by (simp add: storable_def blake3_ok_def kOidBytes_def)
    define a where "a = unat offset + doneN"
    have a: "a < length p"
      using True want(1) by (simp add: a_def)
    define q where "q = a div ?C"
    note q_facts = unat_div_mod_facts [OF C(4), of a, folded q_def]
    have abs: "unat (offset + of_nat doneN) = a"
      using a C(3) by (simp add: a_def unat_word_ariths unat_of_nat)
    have q: "q < chunk_total (length p) ?C"
      using chunk_total_bounds(2) [OF C(4), of q "length p"] q_facts(1) a by simp
    then have q32: "q < 2 ^ 32"
      using st by (simp add: storable_def)
    define idx where "idx = (ucast ((offset + of_nat doneN) div C) :: u32)"
    have idx: "unat idx = q"
      using q32 by (simp add: idx_def unsigned_ucast_eq take_bit_eq_mod unat_div abs q_def)
    have start: "unat (ucast idx * C) = q * ?C"
      using q_facts(1) a C(3) idx q32 by (simp add: unat_word_ariths unsigned_ucast_eq take_bit_eq_mod)
    define clen where "clen = min ?C (length p - q * ?C)"
    have len: "unat (min C (of_nat (length p) - ucast idx * C)) = clen"
      using q_facts(1) a C(3) start
      by (simp add: clen_def min_def word_le_nat_alt unat_sub unat_of_nat word_less_nat_alt)
    have pos: "unat (of_nat payload_off + ucast idx * C) = payload_off + q * ?C"
      using po(2) start q_facts(1) a C(3) by (simp add: unat_word_ariths unat_of_nat)
    have buf: "slice b (payload_off + q * ?C) clen = chunk_of p ?C q"
      by (simp add: b po(1) clen_def chunk_of_def slice_simps)
    have blen: "length (chunk_of p ?C q) = clen"
      using q_facts(1) a by (simp add: chunk_of_def clen_def)
    have bl: "min clen (length b - (payload_off + q * ?C)) = clen"
      using arg_cong [OF buf, of length] blen by simp
    have ver: "verify_chunk (x_blake3 X) (chunk_of p ?C q) ?T idx = Ok ()"
      using verify_chunk_own_digest [OF C(1,2) hash, of idx] q idx by simp
    have win: "unat (offset + of_nat doneN - ucast idx * C) = a mod ?C"
      using abs start q_facts(1,2) by (simp add: unat_sub word_le_nat_alt)
    have inside: "a mod ?C < clen"
      using q_facts a C(4) by (simp add: clen_def less_diff_conv2)
    have rest: "unat (min C (of_nat (length p) - ucast idx * C) - (offset + of_nat doneN - ucast idx * C)) = clen - a mod ?C"
      using len win inside by (simp add: unat_sub word_le_nat_alt)
    define t where "t = min (want - doneN) (clen - a mod ?C)"
    have t: "0 < t" "t \<le> want - doneN" "a mod ?C + t \<le> clen"
      using True inside by (auto simp: t_def)
    have piece: "slice (chunk_of p ?C q) (a mod ?C) t = slice p a t"
    proof -
      have "q * ?C + a mod ?C = a"
        using q_facts(1,2) by simp
      then show ?thesis
        using t(3) unfolding chunk_of_def clen_def by (subst slice_slice) auto
    qed
    have step: "read_chunks X b oid (of_nat (length p)) C payload_off ?T offset want doneN out =
        read_chunks X b oid (of_nat (length p)) C payload_off ?T offset want (doneN + t) (memcpy_at out doneN (slice p a t))"
      using True t
      by (subst read_chunks.simps)
        (simp add: Let_def flip: idx_def, simp add: len pos bl buf ver win rest piece flip: t_def)
    have lp: "length (slice p a t) = t"
      using t(2) want(1) by (simp add: a_def)
    have "read_chunks X b oid (of_nat (length p)) C payload_off ?T offset want (doneN + t) (memcpy_at out doneN (slice p a t)) =
        Ok (memcpy_at (memcpy_at out doneN (slice p a t)) (doneN + t) (slice p (unat offset + (doneN + t)) (want - (doneN + t))),
            of_nat want)"
      using t less.prems True lp by (intro less.hyps) auto
    also have "memcpy_at (memcpy_at out doneN (slice p a t)) (doneN + t) (slice p (unat offset + (doneN + t)) (want - (doneN + t))) =
        memcpy_at out doneN (slice p a (want - doneN))"
      using memcpy_at_memcpy_at [of doneN "slice p a t" "slice p (a + t) (want - (doneN + t))" out]
        slice_split [of p a t "want - (doneN + t)"] lp t(2) less.prems want(1)
      by (simp add: a_def add.assoc)
    finally show ?thesis
      unfolding step by (simp add: a_def)
  qed
qed


lemma loose_read_range_encoded:
  assumes st: "storable X C p" and enc: "encode_object (x_blake3 X) k p CNone C = Ok f"
    and f: "fs (oid_fanout_path (compute_oid (x_blake3 X) k p)) = Some f"
  shows "loose_read_range X fs (compute_oid (x_blake3 X) k p) k offset out =
    (let want = min (length out) (length p - unat offset)
     in Ok (memcpy_at out 0 (slice p (unat offset) want), of_nat want))"
proof -
  obtain hdr T where h: "f = object_header_encode hdr @ T @ p" "T = compute_chunk_digests (x_blake3 X) p C"
    "oh_kind hdr = kind_code k" "oh_compression hdr = compression_code CNone" "chunk_log2 hdr = log2_exact C"
    "payload_len hdr = of_nat (length p)" "unat (chunk_count hdr) = chunk_total (length p) (unat C)"
    "length T = unat (chunk_count hdr) * kOidBytes"
    using encoded_file [OF st, of k] enc by (metis res.inject(1))
  have C: "is_pow2 C" "0 < unat C"
    using st by (auto simp: storable_def is_pow2_def unat_gt_0)
  have lp: "length p < 2 ^ 63" "unat (chunk_count hdr) < 2 ^ 32"
    using st h(7) C(2) by (auto simp: storable_def)
  have ulp: "unat (of_nat (length p) :: u64) = length p"
    using lp by (simp add: unat_of_nat_small)
  have "(of_nat (unat C) :: u64) = 2 ^ unat (log2_exact C)"
    unfolding is_pow2_log2(1) [OF C(1)] by simp
  then have cb: "unat (log2_exact C) < 64" "push_bit (unat (log2_exact C)) 1 = C"
    using is_pow2_log2(2) [OF C(1)] by simp_all
  have hd: "checked_header (take kSize f) (compute_oid (x_blake3 X) k p) k = Ok hdr"
    using h object_header_decode_encode [of hdr "[]"] by (simp add: checked_header_def)
  have dig: "slice f kSize (unat (chunk_count hdr) * kOidBytes) = T"
    using slice_append_exact [of kSize "object_header_encode hdr" "unat (chunk_count hdr) * kOidBytes" T p] h(1,8) by simp
  show ?thesis
  proof (cases "length p \<le> unat offset")
    case True
    then show ?thesis
      using f hd h(1,6) ulp by (simp add: loose_read_range_def word_le_nat_alt memcpy_at_def)
  next
    case False
    then have rem: "unat (of_nat (length p) - offset) = length p - unat offset"
      using ulp by (simp add: unat_sub word_le_nat_alt)
    let ?want = "min (length out) (length p - unat offset)"
    have "read_chunks X f (compute_oid (x_blake3 X) k p) (of_nat (length p)) C (kSize + unat (chunk_count hdr) * kOidBytes) T
        offset ?want 0 out = Ok (memcpy_at out 0 (slice p (unat offset + 0) (?want - 0)), of_nat ?want)"
      unfolding h(2) using h(1,2,8) lp(2) False
      by (intro read_chunks_encoded [OF st, of _ "object_header_encode hdr"]) (auto simp: kSize_def kOidBytes_def)
    moreover have "\<not> of_nat (length p) \<le> offset"
      using False ulp by (simp add: word_le_nat_alt)
    ultimately show ?thesis
      using f hd h(1,5,6,8) dig cb rem by (simp add: loose_read_range_def Let_def)
  qed
qed


subsection \<open>The interface of a content-addressed store\<close>

text \<open>
  What the rest of the system relies on: addresses are computed from content, a lookup returns only content of the
  requested address, a write never disturbs what is there, and storable content comes back.
\<close>

definition put_many :: "('s \<Rightarrow> bool \<Rightarrow> ObjectKind \<Rightarrow> bytes \<Rightarrow> 's \<times> Oid res) \<Rightarrow> 's \<Rightarrow> (bool \<times> ObjectKind \<times> bytes) list \<Rightarrow> 's" where
  "put_many put s ops = foldl (\<lambda>s (w, k, p). fst (put s w k p)) s ops"

locale content_store =
  fixes put :: "'s \<Rightarrow> bool \<Rightarrow> ObjectKind \<Rightarrow> bytes \<Rightarrow> 's \<times> Oid res"
    and get :: "'s \<Rightarrow> Oid \<Rightarrow> ObjectKind \<Rightarrow> bytes res"
    and read :: "'s \<Rightarrow> Oid \<Rightarrow> ObjectKind \<Rightarrow> u64 \<Rightarrow> bytes \<Rightarrow> (bytes \<times> u64) res"
    and has :: "'s \<Rightarrow> Oid \<Rightarrow> bool"
    and addr :: "ObjectKind \<Rightarrow> bytes \<Rightarrow> Oid"
    and can_store :: "bytes \<Rightarrow> bool"
  assumes get_addr: "get s oid k = Ok p \<Longrightarrow> addr k p = oid"
    and get_has: "get s oid k = Ok p \<Longrightarrow> has s oid"
    and put_hit: "has s (addr k p) \<Longrightarrow> put s w k p = (s, Ok (addr k p))"
    and put_keeps: "put s w k p = (s', r) \<Longrightarrow> has s oid \<Longrightarrow>
      has s' oid \<and> get s' oid k' = get s oid k' \<and> read s' oid k' off out = read s oid k' off out"
    and put_miss: "can_store p \<Longrightarrow> \<not> has s (addr k p) \<Longrightarrow> \<exists>s'. put s True k p = (s', Ok (addr k p)) \<and>
      get s' (addr k p) k = Ok p \<and>
      (\<forall>off out. read s' (addr k p) k off out =
         (let want = min (length out) (length p - unat off)
          in Ok (memcpy_at out 0 (slice p (unat off) want), of_nat want)))"
begin

lemma get_unique: "get s oid k = Ok p \<Longrightarrow> get s' oid k = Ok p' \<Longrightarrow> addr k p = addr k p'"
  using get_addr by metis

lemma put_twice:
  assumes "get s (addr k p) k = Ok p"
  shows "put s w k p = (s, Ok (addr k p))"
  using put_hit [OF get_has [OF assms]] by simp

lemma put_many_keeps:
  "has s oid \<Longrightarrow> has (put_many put s ops) oid \<and> get (put_many put s ops) oid k = get s oid k \<and>
   read (put_many put s ops) oid k off out = read s oid k off out"
proof (induction ops arbitrary: s)
  case (Cons op ops)
  obtain w k' p where op: "op = (w, k', p)" by (cases op)
  obtain s' r where put: "put s w k' p = (s', r)" by fastforce
  have "has s' oid" "get s' oid k = get s oid k" "read s' oid k off out = read s oid k off out"
    using put_keeps [OF put Cons.prems] by blast+
  then show ?case
    using Cons.IH [of s'] by (simp add: put_many_def op put)
qed (simp add: put_many_def)

lemma stored_for_good:
  assumes "can_store p" "\<not> has s (addr k p)"
  shows "\<exists>s'. put s True k p = (s', Ok (addr k p)) \<and>
    (\<forall>ops. get (put_many put s' ops) (addr k p) k = Ok p \<and>
       (\<forall>off out. read (put_many put s' ops) (addr k p) k off out =
          (let want = min (length out) (length p - unat off)
           in Ok (memcpy_at out 0 (slice p (unat off) want), of_nat want))))"
proof -
  obtain s' where s': "put s True k p = (s', Ok (addr k p))" "get s' (addr k p) k = Ok p"
    "\<forall>off out. read s' (addr k p) k off out =
         (let want = min (length out) (length p - unat off)
          in Ok (memcpy_at out 0 (slice p (unat off) want), of_nat want))"
    using put_miss [OF assms] by blast
  have "has s' (addr k p)"
    using s'(2) by (rule get_has)
  then show ?thesis
    using s' put_many_keeps [of s' "addr k p"] by (intro exI [of _ s']) simp
qed

end

lemma encode_object_storable: "storable X C p \<Longrightarrow> \<exists>f. encode_object (x_blake3 X) k p CNone C = Ok f"
  by (metis encoded_file)

interpretation loose: content_store "loose_put X C" "loose_get X" "loose_read_range X" loose_contains
  "compute_oid (x_blake3 X)" "storable X C" for X C
proof
  fix s oid k p
  assume g: "loose_get X s oid k = Ok p"
  then show "compute_oid (x_blake3 X) k p = oid"
    by (auto simp: loose_get_def Let_def split: option.splits if_splits)
  show "loose_contains s oid"
    using g by (auto simp: loose_get_def loose_contains_def split: option.splits)
next
  fix s k p w
  assume "loose_contains s (compute_oid (x_blake3 X) k p)"
  then show "loose_put X C s w k p = (s, Ok (compute_oid (x_blake3 X) k p))"
    by (simp add: loose_put_def loose_contains_def)
next
  fix s w k p s' r oid k' off out
  assume put: "loose_put X C s w k p = (s', r)" and has: "loose_contains s oid"
  have "s' = s \<or> (\<exists>f. s' = s(oid_fanout_path (compute_oid (x_blake3 X) k p) \<mapsto> f) \<and>
      s (oid_fanout_path (compute_oid (x_blake3 X) k p)) = None)"
    using put by (auto simp: loose_put_def Let_def split: res.splits if_splits)
  then have "s' (oid_fanout_path oid) = s (oid_fanout_path oid)"
    using has by (auto simp: loose_contains_def)
  then show "loose_contains s' oid \<and> loose_get X s' oid k' = loose_get X s oid k' \<and>
      loose_read_range X s' oid k' off out = loose_read_range X s oid k' off out"
    using has by (simp add: loose_contains_def loose_get_def loose_read_range_def)
next
  fix p s k
  assume st: "storable X C p" and miss: "\<not> loose_contains s (compute_oid (x_blake3 X) k p)"
  obtain f where f: "encode_object (x_blake3 X) k p CNone C = Ok f"
    using encode_object_storable [OF st] by blast
  let ?o = "compute_oid (x_blake3 X) k p"
  let ?s = "s(oid_fanout_path ?o \<mapsto> f)"
  have "loose_put X C s True k p = (?s, Ok ?o)"
    using miss f by (simp add: loose_put_def loose_contains_def Let_def)
  moreover have "loose_get X ?s ?o k = Ok p"
    by (rule loose_get_encoded [OF st f]) simp
  moreover have "loose_read_range X ?s ?o k off out = (let want = min (length out) (length p - unat off)
          in Ok (memcpy_at out 0 (slice p (unat off) want), of_nat want))" for off out
    by (rule loose_read_range_encoded [OF st f]) simp
  ultimately show "\<exists>s'. loose_put X C s True k p = (s', Ok ?o) \<and> loose_get X s' ?o k = Ok p \<and>
      (\<forall>off out. loose_read_range X s' ?o k off out =
         (let want = min (length out) (length p - unat off)
          in Ok (memcpy_at out 0 (slice p (unat off) want), of_nat want)))"
    by blast
qed

text \<open>
  C22: A stored object is there for good: once \<open>put\<close> has written a payload under a new address, every later \<open>get\<close> of that address
  returns the payload and every ranged read returns exactly the requested window of it (short only at
  the end of the object), whatever is put in between, successfully or not.
\<close>

theorem stored_object_survives:
  assumes "storable X C p" "fs (oid_fanout_path (compute_oid (x_blake3 X) k p)) = None"
  shows "\<exists>fs'. loose_put X C fs True k p = (fs', Ok (compute_oid (x_blake3 X) k p)) \<and>
    (\<forall>ops. loose_get X (put_many (loose_put X C) fs' ops) (compute_oid (x_blake3 X) k p) k = Ok p \<and>
       (\<forall>off out. loose_read_range X (put_many (loose_put X C) fs' ops) (compute_oid (x_blake3 X) k p) k off out =
          (let want = min (length out) (length p - unat off)
           in Ok (memcpy_at out 0 (slice p (unat off) want), of_nat want))))"
  using assms by (intro loose.stored_for_good) (simp_all add: loose_contains_def)

lemma storable_example: "storable (toy_ext j0) 4 [1, 2, 3, 4, 5]"
  by (simp add: storable_def toy_blake3_ok is_pow2_def chunk_total_def)

theorem stored_object_survives_witness:
  "\<exists>fs'. loose_put (toy_ext (TBool True)) 4 Map.empty True KRaw [1, 2, 3, 4, 5] =
      (fs', Ok (compute_oid toy_blake3 KRaw [1, 2, 3, 4, 5])) \<and>
    loose_read_range (toy_ext (TBool True)) fs' (compute_oid toy_blake3 KRaw [1, 2, 3, 4, 5]) KRaw 3 [0, 0, 0] =
      Ok ([4, 5, 0], 2)"
proof -
  obtain fs' where "loose_put (toy_ext (TBool True)) 4 Map.empty True KRaw [1, 2, 3, 4, 5] =
      (fs', Ok (compute_oid toy_blake3 KRaw [1, 2, 3, 4, 5]))"
    "loose_read_range (toy_ext (TBool True)) (put_many (loose_put (toy_ext (TBool True)) 4) fs' [])
       (compute_oid toy_blake3 KRaw [1, 2, 3, 4, 5]) KRaw 3 [0, 0, 0] =
      (let want = min (length [0 :: byte, 0, 0]) (length [1 :: byte, 2, 3, 4, 5] - unat (3 :: u64))
       in Ok (memcpy_at [0, 0, 0] 0 (slice [1, 2, 3, 4, 5] (unat (3 :: u64)) want), of_nat want))"
    using stored_object_survives [OF storable_example [of "TBool True"], of Map.empty KRaw] by auto
  then show ?thesis
    by (intro exI [of _ fs']) (simp add: put_many_def memcpy_at_def slice_def Let_def)
qed

text \<open>
  C38: Nothing but the right content is ever returned: whatever files are in the objects directory, corrupted ones included,
  a payload that \<open>get\<close> returns hashes, with its kind, to the address that was asked for; and \<open>verify_block\<close>
  succeeds exactly on the objects that \<open>get\<close> can return.
\<close>

theorem get_returns_addressed_content:
  "(\<forall>p. loose_get X fs oid k = Ok p \<longrightarrow> compute_oid (x_blake3 X) k p = oid) \<and>
   (loose_verify_block X fs oid k = Ok () \<longleftrightarrow> (\<exists>p. loose_get X fs oid k = Ok p \<and> compute_oid (x_blake3 X) k p = oid))"
  using loose.get_addr [of X fs oid k] by (auto simp: loose_verify_block_def SFS_TRY_Ok_iff)

theorem get_returns_addressed_content_witness:
  "\<exists>fs p. loose_get (toy_ext (TBool True)) fs (compute_oid toy_blake3 KRaw p) KRaw = Ok p \<and>
     loose_verify_block (toy_ext (TBool True)) fs (compute_oid toy_blake3 KRaw p) KRaw = Ok ()"
proof -
  obtain fs where "loose_get (toy_ext (TBool True)) fs (compute_oid toy_blake3 KRaw [1, 2, 3, 4, 5]) KRaw = Ok [1, 2, 3, 4, 5]"
    using loose.put_miss [OF storable_example [of "TBool True"], of Map.empty KRaw] by (auto simp: loose_contains_def)
  then show ?thesis
    using get_returns_addressed_content [of "toy_ext (TBool True)" fs "compute_oid toy_blake3 KRaw [1, 2, 3, 4, 5]" KRaw]
    by (intro exI [of _ fs] exI [of _ "[1, 2, 3, 4, 5]"]) simp
qed


subsection \<open>The streaming writer produces the same object\<close>

text \<open>The chunk state of the writer after the bytes \<open>d\<close>: the open chunk and the digests of the closed ones.\<close>

definition chunked :: "'j Ext \<Rightarrow> bytes \<Rightarrow> StreamingWriter \<Rightarrow> bool" where
  "chunked X d w \<longleftrightarrow>
     sw_chunk_buf w = drop (length d div unat (sw_chunk_bytes w) * unat (sw_chunk_bytes w)) d \<and>
     sw_digests w = concat (map (\<lambda>i. digest (x_blake3 X) (slice d (i * unat (sw_chunk_bytes w)) (unat (sw_chunk_bytes w))))
       [0..<length d div unat (sw_chunk_bytes w)])"

text \<open>The fields that the chunk loop leaves alone.\<close>

definition same_stream :: "StreamingWriter \<Rightarrow> StreamingWriter \<Rightarrow> bool" where
  "same_stream v w \<longleftrightarrow> sw_kind v = sw_kind w \<and> sw_expected_len v = sw_expected_len w \<and> sw_hashed v = sw_hashed w \<and>
     sw_tmp v = sw_tmp w \<and> sw_written v = sw_written w \<and> sw_chunk_bytes v = sw_chunk_bytes w"

lemma closed_chunks_append:
  assumes "m * C \<le> length d"
  shows "concat (map (\<lambda>i. digest h (slice (d @ e) (i * C) C)) [0..<m]) = concat (map (\<lambda>i. digest h (slice d (i * C) C)) [0..<m])"
proof -
  have "slice (d @ e) (i * C) C = slice d (i * C) C" if "i < m" for i
  proof -
    have "Suc i * C \<le> m * C"
      using that by (intro mult_le_mono1) simp
    then show ?thesis
      using assms by (simp add: slice_simps)
  qed
  then show ?thesis
    by (intro arg_cong [where f = concat] map_cong) auto
qed

lemma chunked_extend:
  fixes w :: StreamingWriter and d e :: bytes
  defines "C \<equiv> unat (sw_chunk_bytes w)"
  assumes "chunked X d w" "0 < C" "length (sw_chunk_buf w) + length e \<le> C"
  shows "chunked X (d @ e) (if length (sw_chunk_buf w @ e) = C then flush_chunk X (w\<lparr>sw_chunk_buf := sw_chunk_buf w @ e\<rparr>)
    else w\<lparr>sw_chunk_buf := sw_chunk_buf w @ e\<rparr>)"
proof -
  define m where "m = length d div C"
  have buf: "sw_chunk_buf w = drop (m * C) d" and dig: "sw_digests w = concat (map (\<lambda>i. digest (x_blake3 X) (slice d (i * C) C)) [0..<m])"
    using assms by (simp_all add: chunked_def m_def C_def)
  have mC: "m * C \<le> length d"
    by (simp add: m_def)
  have blen: "length (sw_chunk_buf w) = length d - m * C"
    by (simp add: buf)
  show ?thesis
  proof (cases "length (sw_chunk_buf w @ e) = C")
    case True
    then have len: "length (d @ e) = Suc m * C"
      using blen mC by simp
    then have div: "length (d @ e) div C = Suc m"
      using assms(3) by (metis div_mult_self_is_m)
    have last: "slice (d @ e) (m * C) C = sw_chunk_buf w @ e"
      using mC len True by (simp add: slice_def buf)
    show ?thesis
      using True closed_chunks_append [OF mC, of "x_blake3 X" e] div last len dig
      by (simp add: chunked_def flush_chunk_def flip: C_def)
  next
    case False
    then have "length (sw_chunk_buf w @ e) < C"
      using assms(4) by simp
    then have "length (d @ e) < Suc m * C"
      using blen mC by simp
    moreover have "m * C \<le> length (d @ e)"
      using mC by simp
    ultimately have div: "length (d @ e) div C = m"
      by (intro div_nat_eqI) (simp_all add: mult.commute)
    show ?thesis
      using False closed_chunks_append [OF mC, of "x_blake3 X" e] div dig mC
      by (simp add: chunked_def buf flip: C_def)
  qed
qed

lemma fold_chunks_chunked:
  assumes "chunked X d w" "0 < unat (sw_chunk_bytes w)"
  shows "\<exists>w'. fold_chunks X data w = Ok w' \<and> chunked X (d @ data) w' \<and> same_stream w' w"
  using assms
proof (induction X data w arbitrary: d rule: fold_chunks.induct)
  case (1 X data w)
  let ?C = "unat (sw_chunk_bytes w)"
  show ?case
  proof (cases "data = []")
    case True
    with 1 show ?thesis by (subst fold_chunks.simps) (simp add: same_stream_def)
  next
    case False
    have "length d - length d div ?C * ?C < ?C"
      using "1.prems"(2) by (simp add: minus_div_mult_eq_mod)
    then have open': "\<not> ?C \<le> length (sw_chunk_buf w)"
      using "1.prems"(1) by (simp add: chunked_def)
    define t where "t = min (?C - length (sw_chunk_buf w)) (length data)"
    define w1 where "w1 = w\<lparr>sw_chunk_buf := sw_chunk_buf w @ take t data\<rparr>"
    define w2 where "w2 = (if length (sw_chunk_buf w1) = ?C then flush_chunk X w1 else w1)"
    have "length (sw_chunk_buf w) + length (take t data) \<le> ?C"
      using open' by (simp add: t_def)
    then have ext: "chunked X (d @ take t data) w2"
      using chunked_extend [OF "1.prems"(1,2), of "take t data"] by (auto simp: w2_def w1_def split: if_splits)
    have keep: "same_stream w2 w"
      by (simp add: w2_def w1_def same_stream_def flush_chunk_def)
    have step: "fold_chunks X data w = fold_chunks X (drop t data) w2"
      using False open' by (subst fold_chunks.simps) (simp add: Let_def t_def w1_def w2_def)
    obtain w' where w': "fold_chunks X (drop t data) w2 = Ok w'" "chunked X ((d @ take t data) @ drop t data) w'" "same_stream w' w2"
      using "1.IH" [OF False open' refl refl refl refl, folded t_def, folded w1_def, folded w2_def, OF ext] keep "1.prems"(2)
      by (auto simp: same_stream_def)
    then show ?thesis
      using step keep by (intro exI [of _ w']) (auto simp: same_stream_def)
  qed
qed

definition stream_inv :: "'j Ext \<Rightarrow> u64 \<Rightarrow> ObjectKind \<Rightarrow> u64 \<Rightarrow> bytes \<Rightarrow> StreamingWriter \<Rightarrow> bool" where
  "stream_inv X C k total_len d w \<longleftrightarrow> chunked X d w \<and> sw_kind w = k \<and> sw_expected_len w = total_len \<and>
     sw_hashed w = begin_frame k total_len @ d \<and> sw_tmp w = d \<and> sw_written w = of_nat (length d) \<and> sw_chunk_bytes w = C"

lemma writer_write_inv:
  assumes "stream_inv X C k n d w" "0 < unat C" "length d < 2 ^ 64"
  shows "\<exists>w'. writer_write X True data w = Ok w' \<and> stream_inv X C k n (d @ data) w'"
proof (cases "data = []")
  case False
  let ?w = "w\<lparr>sw_tmp := memcpy_at (sw_tmp w) (unat (sw_written w)) data, sw_hashed := hasher_update (sw_hashed w) data\<rparr>"
  have "chunked X d ?w" "0 < unat (sw_chunk_bytes ?w)"
    using assms by (simp_all add: stream_inv_def chunked_def)
  then obtain w' where w': "fold_chunks X data ?w = Ok w'" "chunked X (d @ data) w'" "same_stream w' ?w"
    using fold_chunks_chunked by blast
  have "memcpy_at d (length d) data = d @ data"
    by (simp add: memcpy_at_def)
  then have "stream_inv X C k n (d @ data) (w'\<lparr>sw_written := sw_written w' + of_nat (length data)\<rparr>)"
    using w' assms by (simp add: stream_inv_def same_stream_def chunked_def hasher_update_def unat_of_nat_small)
  then show ?thesis
    using False w'(1) by (simp add: writer_write_def)
qed (use assms in \<open>simp add: writer_write_def\<close>)

lemma write_all_inv:
  assumes "stream_inv X C k n d w" "0 < unat C" "length (d @ concat ds) < 2 ^ 64"
  shows "\<exists>w'. write_all X ds w = Ok w' \<and> stream_inv X C k n (d @ concat ds) w'"
  using assms(1,3)
proof (induction ds arbitrary: d w)
  case (Cons x ds)
  obtain w' where "writer_write X True x w = Ok w'" "stream_inv X C k n (d @ x) w'"
    using writer_write_inv [OF Cons.prems(1) assms(2), of x] Cons.prems(2) by auto
  then show ?case
    using Cons.IH [of "d @ x" w'] Cons.prems(2) by simp
qed simp

lemma flushed_digests:
  assumes "chunked X d w" "sw_chunk_bytes w = C" "C \<noteq> 0" "length d + unat C \<le> 2 ^ 64"
  shows "sw_digests (if sw_chunk_buf w \<noteq> [] then flush_chunk X w else w) = compute_chunk_digests (x_blake3 X) d C"
proof -
  define c where "c = unat C"
  define m where "m = length d div c"
  have c: "0 < c" using assms(3) by (simp add: c_def unat_gt_0)
  have buf: "sw_chunk_buf w = drop (m * c) d" and dig: "sw_digests w = concat (map (\<lambda>i. digest (x_blake3 X) (slice d (i * c) c)) [0..<m])"
    using assms(1,2) by (simp_all add: chunked_def m_def c_def)
  have mc: "m * c \<le> length d" by (simp add: m_def)
  have closed: "chunk_of d c i = slice d (i * c) c" if "i < m" for i
  proof -
    have "Suc i * c \<le> m * c" using that by (intro mult_le_mono1) simp
    then show ?thesis using mc by (simp add: chunk_of_def)
  qed
  have same: "concat (map (\<lambda>i. digest (x_blake3 X) (chunk_of d c i)) [0..<m]) =
      concat (map (\<lambda>i. digest (x_blake3 X) (slice d (i * c) c)) [0..<m])"
    using closed by (intro arg_cong [where f = concat] map_cong) auto
  have eq: "compute_chunk_digests (x_blake3 X) d C =
      concat (map (\<lambda>i. digest (x_blake3 X) (chunk_of d c i)) [0..<chunk_total (length d) c])"
    unfolding c_def by (rule compute_chunk_digests_eq [OF assms(3,4)])
  show ?thesis
  proof (cases "m * c = length d")
    case True
    have "m * c \<le> chunk_total (length d) c * c"
      using chunk_total_bounds(1) [OF c, of "length d"] True by simp
    moreover have "\<not> m < chunk_total (length d) c"
      using chunk_total_bounds(2) [OF c, of m "length d"] True by simp
    ultimately have "chunk_total (length d) c = m"
      using c by simp
    moreover have "sw_chunk_buf w = []" using True buf by simp
    ultimately show ?thesis
      using same by (simp add: eq dig)
  next
    case False
    have lt: "m * c < length d" using False mc by simp
    have up: "length d < Suc m * c"
      unfolding m_def using c dividend_less_div_times [OF c, of "length d"] by simp
    have "m < chunk_total (length d) c" "\<not> Suc m < chunk_total (length d) c"
      using chunk_total_bounds(2) [OF c] lt up by auto
    then have tot: "chunk_total (length d) c = Suc m" by simp
    have "sw_chunk_buf w \<noteq> []" using lt buf by simp
    moreover have "chunk_of d c m = sw_chunk_buf w"
      using lt up by (simp add: chunk_of_def buf slice_def min_def)
    ultimately show ?thesis
      using same by (simp add: eq tot dig flush_chunk_def)
  qed
qed



end
