(* ===== verification/Codec_Reconstruct.thy ===== *)
theory Codec_Reconstruct
  imports Codec_Gather Codec_Residual Format_Diff Format_Manifest Store_Loose
begin

section \<open>Reading a group back\<close>

text \<open>
  \<open>src/modules/codec/src/reconstruct.cpp\<close>, the one reconstructor behind checkout, mount and verify, with
  \<open>compress_frame\<close> and \<open>decompress_frame\<close> of \<open>compress.cpp\<close>. A read of a group goes to the block store when the
  group is full; when it is a delta, every frame that overlaps the request is rebuilt from the base group, which is
  read in the same way at the base commit. All offsets are 64-bit and wrap, an access outside a buffer is \<open>Abort UB\<close>.
  The recursion through commits is not bounded by the code when the chain depths of the manifests are wrong, so it
  carries fuel; \<open>read_range_fuel\<close> below says how much is enough.
  The main results: whatever the base, the residual and the permutation are, a read that succeeds returns the
  target's bytes; and a group that was written as a chain of deltas reads back.
\<close>

subsection \<open>Compression of a frame\<close>

definition compress_frame :: "'j Ext \<Rightarrow> int \<Rightarrow> bool \<Rightarrow> bytes \<Rightarrow> bytes res" where
  "compress_frame X level checksum src =
     (case x_compress X level checksum src of None \<Rightarrow> SFS_ERR Internal [] | Some z \<Rightarrow> Ok z)"

definition decompress_frame :: "'j Ext \<Rightarrow> bytes \<Rightarrow> nat \<Rightarrow> bytes res" where
  "decompress_frame X src cap =
     (case x_decompress X src cap of None \<Rightarrow> SFS_ERR MalformedObject [] | Some b \<Rightarrow> Ok b)"

subsection \<open>The context of a read\<close>

text \<open>
  \<open>IBlockStore\<close> as the two operations a read uses, \<open>IObjectSource\<close> as the lookup of a commit's manifest; a null
  pointer is \<open>None\<close>. The frame cache pointer is never used by the reconstructor.
\<close>

record BlockIf =
  bi_get :: "Oid \<Rightarrow> ObjectKind \<Rightarrow> bytes res"
  bi_read_range :: "Oid \<Rightarrow> ObjectKind \<Rightarrow> u64 \<Rightarrow> bytes \<Rightarrow> (bytes \<times> u64) res"

record ReadCtx =
  rc_blocks :: "BlockIf option"
  rc_manifest :: "Manifest option"
  rc_history :: "(Oid \<Rightarrow> Manifest res) option"
  rc_max_depth :: u32
  rc_topology :: "Topology option"

type_synonym reader = "u64 \<Rightarrow> bytes \<Rightarrow> (bytes \<times> u64) res"

definition full_read :: "string \<Rightarrow> reader \<Rightarrow> u64 \<Rightarrow> u64 \<Rightarrow> bytes \<Rightarrow> bytes res" where
  "full_read base_group_name read off n buf =
     SFS_TRY (read off buf) (\<lambda>(b, got). if got \<noteq> n then SFS_ERR MalformedObject base_group_name else Ok b)"

definition gather_base_bytes :: "reader \<Rightarrow> string \<Rightarrow> nat list \<Rightarrow> u64 \<Rightarrow> u64 \<Rightarrow> u64 \<Rightarrow> bytes res" where
  "gather_base_bytes read base_group_name expanded_perm ub ue u =
     (let count = ue - ub; n = count * u
      in if 2 ^ 63 \<le> unat n then Abort Throw
         else let out = replicate (unat n) 0
         in if expanded_perm = [] then full_read base_group_name read (ub * u) n out
            else gather_units
              (\<lambda>run. full_read base_group_name read (of_nat (run_first run) * u) (of_nat (run_count run) * u))
              expanded_perm (unat ub) (unat count) u out)"

record SecondaryAxis =
  sa_perm :: "nat list"
  sa_unit_bytes :: u32

definition no_secondary :: SecondaryAxis where
  "no_secondary = \<lparr>sa_perm = [], sa_unit_bytes = 0\<rparr>"

definition owner_of :: "Topology \<Rightarrow> string \<Rightarrow> string option" where
  "owner_of topo g = map_option fst
     (find (\<lambda>(name, axes). name \<noteq> [] \<and> list_ex (\<lambda>ax. ax_dim ax = 0 \<and> ax_group ax = g) axes) (topo_tensors topo))"

definition owner_permutation :: "'j Ext \<Rightarrow> ReadCtx \<Rightarrow> string \<Rightarrow> nat list res" where
  "owner_permutation X ctx owner_name =
     (case rc_manifest ctx of
        None \<Rightarrow> SFS_ERR Internal []
      | Some m \<Rightarrow>
     (case find_group m owner_name of
        None \<Rightarrow> SFS_ERR MalformedObject owner_name
      | Some g \<Rightarrow>
          if ge_mode g \<noteq> Delta then Ok []
          else
     (case (ge_diff_block g, rc_blocks ctx) of
        (None, _) \<Rightarrow> SFS_ERR MalformedObject owner_name
      | (Some _, None) \<Rightarrow> Abort UB
      | (Some oid, Some blocks) \<Rightarrow>
          SFS_TRY (bi_get blocks oid KDiff) (\<lambda>owner_bytes.
          SFS_TRY (parse_diff_artifact X owner_bytes) (\<lambda>(header, payload).
          if pr_kind (dh_permutation header) = PIdentity then Ok []
          else read_permutation (dh_permutation header) payload)))))"

definition resolve_secondary_permutation :: "'j Ext \<Rightarrow> ReadCtx \<Rightarrow> TensorDiff \<Rightarrow> SecondaryAxis res" where
  "resolve_secondary_permutation X ctx tdiff =
     (case rc_topology ctx of
        None \<Rightarrow> Ok no_secondary
      | Some topo \<Rightarrow>
     (case map_of (topo_tensors topo) (td_name tdiff) of
        None \<Rightarrow> Ok no_secondary
      | Some axes \<Rightarrow>
     (case find (\<lambda>ax. ax_dim ax \<noteq> 0) axes of
        None \<Rightarrow> Ok no_secondary
      | Some secondary \<Rightarrow>
          if (case topo_find_group topo (ax_group secondary) of None \<Rightarrow> False | Some pg \<Rightarrow> pinned pg)
          then Ok no_secondary
          else let trailing = foldl (*) (1 :: u64) (drop (ax_dim secondary + 1) (td_shape tdiff));
                   sub = ucast trailing * of_nat (dtype_size (td_dtype tdiff))
          in case owner_of topo (ax_group secondary) of
               None \<Rightarrow> SFS_ERR Internal (ax_group secondary)
             | Some owner_name \<Rightarrow>
                 SFS_TRY (owner_permutation X ctx owner_name) (\<lambda>owner_perm.
                 if owner_perm = [] then Ok no_secondary
                 else Ok \<lparr>sa_perm = expand owner_perm (unat (ax_block secondary)), sa_unit_bytes = sub\<rparr>))))"

subsection \<open>One tensor of a delta\<close>

definition permute_row :: "bytes \<Rightarrow> SecondaryAxis \<Rightarrow> u64 \<Rightarrow> nat \<Rightarrow> bytes \<times> bytes \<Rightarrow> (bytes \<times> bytes) res" where
  "permute_row base_bytes secondary u r = (\<lambda>(reordered, scratch).
     let pos = unat (of_nat r * u)
     in if length base_bytes < pos + unat u then Abort UB
        else SFS_TRY (permute_units scratch (slice base_bytes pos (unat u)) (sa_perm secondary)
                        (unat (sa_unit_bytes secondary))) (\<lambda>row.
          if length reordered < pos + unat u then Abort UB
          else Ok (memcpy_at reordered pos row, row)))"

definition permute_columns :: "SecondaryAxis \<Rightarrow> u64 \<Rightarrow> u64 \<Rightarrow> bytes \<Rightarrow> bytes res" where
  "permute_columns secondary u row_count base_bytes =
     (if sa_perm secondary = [] then Ok base_bytes
      else if 2 ^ 63 \<le> unat u then Abort Throw
      else SFS_TRY (fold_res (permute_row base_bytes secondary u) [0..<unat row_count]
             (replicate (length base_bytes) 0, replicate (unat u) 0)) (\<lambda>(reordered, _). Ok reordered))"

definition reconstruct_frame ::
  "'j Ext \<Rightarrow> Isa \<Rightarrow> reader \<Rightarrow> string \<Rightarrow> TensorDiff \<Rightarrow> bytes \<Rightarrow> nat list \<Rightarrow> SecondaryAxis \<Rightarrow> u64 \<Rightarrow>
   FrameIndexEntry \<Rightarrow> bytes res" where
  "reconstruct_frame X isa read base_group_name tdiff payload expanded_perm secondary u frame =
     (if length payload < unat (fr_off frame + fr_len frame) then SFS_ERR MalformedObject (td_name tdiff)
      else
      SFS_TRY (gather_base_bytes read base_group_name expanded_perm (unit_begin frame) (unit_end frame) u) (\<lambda>gathered.
      SFS_TRY (permute_columns secondary u (unit_end frame - unit_begin frame) gathered) (\<lambda>base_bytes.
      let frame_bytes_raw = unat (unit_end frame * u - unit_begin frame * u)
      in if length payload < unat (fr_off frame) + unat (fr_len frame) then Abort UB
         else
         SFS_TRY (decompress_frame X (slice payload (unat (fr_off frame)) (unat (fr_len frame))) frame_bytes_raw) (\<lambda>decompressed.
         if length decompressed \<noteq> frame_bytes_raw then SFS_ERR MalformedObject (td_name tdiff)
         else
         SFS_TRY (apply_residual isa (td_residual tdiff) (td_transform tdiff) (td_dtype tdiff) base_bytes decompressed
                    (replicate frame_bytes_raw 0)) (\<lambda>reconstructed.
         if digest (x_blake3 X) reconstructed \<noteq> fr_digest frame then SFS_ERR FrameDigestMismatch (td_name tdiff)
         else Ok reconstructed)))))"

definition read_frame :: "(FrameIndexEntry \<Rightarrow> bytes res) \<Rightarrow> u64 \<Rightarrow> u64 \<Rightarrow> FrameIndexEntry \<Rightarrow> bytes \<times> u64 \<Rightarrow> (bytes \<times> u64) res" where
  "read_frame rebuild u local_offset frame = (\<lambda>(out, written).
     let want_end = local_offset + of_nat (length out);
         frame_begin = unit_begin frame * u;
         frame_end = unit_end frame * u
     in if frame_end \<le> local_offset \<or> want_end \<le> frame_begin then Ok (out, written)
        else SFS_TRY (rebuild frame) (\<lambda>reconstructed.
          let lo = max frame_begin local_offset;
              hi = min frame_end want_end
          in if length out < unat (lo - local_offset) + unat (hi - lo)
               \<or> length reconstructed < unat (lo - frame_begin) + unat (hi - lo) then Abort UB
             else Ok (memcpy_at out (unat (lo - local_offset)) (slice reconstructed (unat (lo - frame_begin)) (unat (hi - lo))),
                      written + (hi - lo))))"

definition tensor_bytes :: "TensorDiff \<Rightarrow> u64" where
  "tensor_bytes tdiff = foldl (*) 1 (td_shape tdiff) * of_nat (dtype_size (td_dtype tdiff))"

definition expanded_permutation :: "DiffHeader \<Rightarrow> bytes \<Rightarrow> TensorDiff \<Rightarrow> u64 \<Rightarrow> nat list res" where
  "expanded_permutation header payload tdiff axis_length =
     (let ref = dh_permutation header
      in if pr_kind ref = PIdentity then Ok []
         else SFS_TRY (read_permutation ref payload) (\<lambda>group_perm.
           if pr_n ref = 0 \<or> axis_length mod ucast (pr_n ref) \<noteq> 0 then SFS_ERR BlockFactorMismatch (td_name tdiff)
           else let block = ucast (axis_length div ucast (pr_n ref)) :: u32
                in Ok (expand group_perm (unat block))))"

definition read_tensor_range ::
  "'j Ext \<Rightarrow> Isa \<Rightarrow> ReadCtx \<Rightarrow> reader \<Rightarrow> DiffHeader \<Rightarrow> bytes \<Rightarrow> TensorDiff \<Rightarrow> string \<Rightarrow> u64 \<Rightarrow> bytes \<Rightarrow> (bytes \<times> u64) res" where
  "read_tensor_range X isa ctx read header payload tdiff base_group_name local_offset out =
     (if td_frames tdiff = [] then SFS_ERR MalformedObject (td_name tdiff)
      else let axis_length = unit_end (last (td_frames tdiff))
      in if axis_length = 0 \<or> tensor_bytes tdiff mod axis_length \<noteq> 0 then SFS_ERR MalformedObject (td_name tdiff)
      else let u = tensor_bytes tdiff div axis_length
      in SFS_TRY (expanded_permutation header payload tdiff axis_length) (\<lambda>expanded_perm.
         SFS_TRY (resolve_secondary_permutation X ctx tdiff) (\<lambda>secondary.
         if sa_perm secondary \<noteq> [] \<and> u \<noteq> of_nat (length (sa_perm secondary)) * ucast (sa_unit_bytes secondary)
         then SFS_ERR BlockFactorMismatch (td_name tdiff)
         else fold_res
           (read_frame (reconstruct_frame X isa read base_group_name tdiff payload expanded_perm secondary u) u local_offset)
           (td_frames tdiff) (out, 0))))"

subsection \<open>Groups and files\<close>

definition read_delta_range ::
  "'j Ext \<Rightarrow> Isa \<Rightarrow> (ReadCtx \<Rightarrow> string \<Rightarrow> reader) \<Rightarrow> ReadCtx \<Rightarrow> BlockIf \<Rightarrow> GroupEntry \<Rightarrow> string \<Rightarrow> reader" where
  "read_delta_range X isa read ctx blocks grp group_name offset out =
     (case (ge_base grp, ge_diff_block grp) of
        (Some base, Some diff_block) \<Rightarrow>
          if rc_max_depth ctx < ge_chain_depth grp then SFS_ERR ChainTooDeep group_name
          else (case rc_history ctx of
             None \<Rightarrow> SFS_ERR Internal []
           | Some manifest_for \<Rightarrow>
               SFS_TRY (bi_get blocks diff_block KDiff) (\<lambda>diff_bytes.
               SFS_TRY (parse_diff_artifact X diff_bytes) (\<lambda>(header, payload).
               case find (\<lambda>t. td_name t = group_name) (dh_tensors header) of
                 None \<Rightarrow> SFS_ERR MalformedObject group_name
               | Some tdiff \<Rightarrow>
                   SFS_TRY (manifest_for (db_commit base)) (\<lambda>base_manifest.
                   read_tensor_range X isa ctx (read (ctx\<lparr>rc_manifest := Some base_manifest\<rparr>) (db_group base))
                     header payload tdiff (db_group base) offset out))))
      | _ \<Rightarrow> SFS_ERR MalformedObject group_name)"

fun read_range_impl :: "'j Ext \<Rightarrow> Isa \<Rightarrow> nat \<Rightarrow> ReadCtx \<Rightarrow> string \<Rightarrow> reader" where
  "read_range_impl X isa 0 ctx group_name offset out = Abort NoFuel"
| "read_range_impl X isa (Suc fuel) ctx group_name offset out =
     (case (rc_blocks ctx, rc_manifest ctx) of
        (Some blocks, Some manifest) \<Rightarrow>
          (case find_group manifest group_name of
             None \<Rightarrow> SFS_ERR MalformedObject group_name
           | Some grp \<Rightarrow>
               if ge_mode grp = Delta
               then read_delta_range X isa (read_range_impl X isa fuel) ctx blocks grp group_name offset out
               else (case ge_block grp of
                  None \<Rightarrow> SFS_ERR MalformedObject group_name
                | Some block \<Rightarrow> bi_read_range blocks block KRaw offset out))
      | _ \<Rightarrow> SFS_ERR Internal [])"

definition read_range :: "'j Ext \<Rightarrow> Isa \<Rightarrow> nat \<Rightarrow> ReadCtx \<Rightarrow> string \<Rightarrow> reader" where
  "read_range X isa fuel ctx group_name offset out = read_range_impl X isa fuel ctx group_name offset out"

definition kStreamChunk :: nat where "kStreamChunk = 4 * 2 ^ 20"

text \<open>The sink is a step on the caller's state that may refuse the bytes.\<close>

function stream_entry ::
  "('s \<Rightarrow> bytes \<Rightarrow> 's res) \<Rightarrow> reader \<Rightarrow> string \<Rightarrow> nat \<Rightarrow> nat \<Rightarrow> bytes \<times> 's \<Rightarrow> (bytes \<times> 's) res" where
  "stream_entry sink read grp nbytes done_n (buf, s) =
     (if nbytes \<le> done_n then Ok (buf, s)
      else let want = min kStreamChunk (nbytes - done_n)
      in SFS_TRY (read (of_nat done_n) (take want buf)) (\<lambda>(b, n).
         if n \<noteq> of_nat want then SFS_ERR MalformedObject grp
         else SFS_TRY (sink s b) (\<lambda>s'. stream_entry sink read grp nbytes (done_n + want) (memcpy_at buf 0 b, s'))))"
  by pat_completeness auto
termination
  by (relation "measure (\<lambda>(sink, read, grp, nbytes, done_n, st). nbytes - done_n)") (auto simp: kStreamChunk_def)

definition reconstruct_file ::
  "'j Ext \<Rightarrow> Isa \<Rightarrow> nat \<Rightarrow> ReadCtx \<Rightarrow> ('s \<Rightarrow> bytes \<Rightarrow> 's res) \<Rightarrow> 's \<Rightarrow> 's res" where
  "reconstruct_file X isa fuel ctx sink s =
     (case (rc_manifest ctx, rc_blocks ctx) of
        (None, _) \<Rightarrow> SFS_ERR Internal []
      | (Some m, None) \<Rightarrow> Abort UB
      | (Some m, Some blocks) \<Rightarrow>
          SFS_TRY (bi_get blocks (fi_header_block (m_file m)) KHeader) (\<lambda>header.
          SFS_TRY (sink s header) (\<lambda>s.
          SFS_TRY (fold_res (\<lambda>entry st.
              case find_group m (be_group entry) of
                None \<Rightarrow> SFS_ERR MalformedObject (be_group entry)
              | Some _ \<Rightarrow> stream_entry sink (read_range X isa fuel ctx (be_group entry)) (be_group entry)
                           (unat (be_nbytes entry)) 0 st)
            (m_buffer m) (replicate kStreamChunk 0, s)) (\<lambda>(_, s). Ok s))))"

definition chain_depth :: "ReadCtx \<Rightarrow> string \<Rightarrow> u32 res" where
  "chain_depth ctx group_name =
     (case rc_manifest ctx of
        None \<Rightarrow> SFS_ERR Internal []
      | Some m \<Rightarrow> (case find_group m group_name of None \<Rightarrow> SFS_ERR MalformedObject group_name | Some g \<Rightarrow> Ok (ge_chain_depth g)))"

subsection \<open>The frame loop\<close>

text \<open>Frames that follow one another without a gap from unit \<open>a\<close> to unit \<open>b\<close>.\<close>

fun tiles :: "FrameIndexEntry list \<Rightarrow> nat \<Rightarrow> nat \<Rightarrow> bool" where
  "tiles [] a b \<longleftrightarrow> a = b"
| "tiles (f # fs) a b \<longleftrightarrow> unat (unit_begin f) = a \<and> a \<le> unat (unit_end f) \<and> tiles fs (unat (unit_end f)) b"

lemma tiles_le: "tiles fs a b \<Longrightarrow> a \<le> b"
  by (induction fs arbitrary: a) fastforce+

lemma tiles_frame:
  "tiles fs a b \<Longrightarrow> f \<in> set fs \<Longrightarrow> a \<le> unat (unit_begin f) \<and> unat (unit_begin f) \<le> unat (unit_end f) \<and> unat (unit_end f) \<le> b"
proof (induction fs arbitrary: a)
  case (Cons g fs)
  then show ?case using tiles_le [of fs "unat (unit_end g)" b] by fastforce
qed simp

lemma tiles_last: "tiles fs a b \<Longrightarrow> fs \<noteq> [] \<Longrightarrow> unat (unit_end (last fs)) = b"
  by (induction fs arbitrary: a) (auto split: if_splits)

lemma tiles_snoc: "tiles fs a b \<Longrightarrow> unat (unit_begin f) = b \<Longrightarrow> b \<le> unat (unit_end f) \<Longrightarrow> tiles (fs @ [f]) a (unat (unit_end f))"
  by (induction fs arbitrary: a) auto

definition frame_slice :: "bytes \<Rightarrow> nat \<Rightarrow> FrameIndexEntry \<Rightarrow> bytes" where
  "frame_slice T u f = slice T (unat (unit_begin f) * u) ((unat (unit_end f) - unat (unit_begin f)) * u)"

definition overlaps :: "nat \<Rightarrow> nat \<Rightarrow> nat \<Rightarrow> FrameIndexEntry \<Rightarrow> bool" where
  "overlaps u off n f \<longleftrightarrow> off < unat (unit_end f) * u \<and> unat (unit_begin f) * u < off + n"

text \<open>The buffer and the count after the bytes of \<open>T\<close> up to unit \<open>a\<close> have been copied.\<close>

definition read_upto :: "bytes \<Rightarrow> nat \<Rightarrow> nat \<Rightarrow> bytes \<Rightarrow> nat \<Rightarrow> bytes \<times> u64" where
  "read_upto T u off out a =
     (let n = min (a * u) (off + length out) - off in (memcpy_at out 0 (slice T off n), of_nat n))"

lemma length_memcpy_slice: "n \<le> length out \<Longrightarrow> length (memcpy_at out 0 (slice T off n)) = length out"
  by (simp add: memcpy_at_def)

lemma read_frame_step:
  assumes f: "unat (unit_begin f) \<le> unat (unit_end f)" "unat (unit_end f) * u \<le> length T"
    and T: "length T < 2 ^ 62" and off: "unat off + length out < 2 ^ 64"
    and rebuild: "overlaps u (unat off) (length out) f \<Longrightarrow> rebuild f = Ok (frame_slice T u f)"
  shows "read_frame rebuild (of_nat u) off f (read_upto T u (unat off) out (unat (unit_begin f))) =
    Ok (read_upto T u (unat off) out (unat (unit_end f)))"
proof -
  let ?o = "unat off" and ?n = "length out"
  define A where "A = unat (unit_begin f) * u"
  define B where "B = unat (unit_end f) * u"
  have AB: "A \<le> B" "B \<le> length T"
    using f by (simp_all add: A_def B_def)
  have begin_u: "unit_begin f * of_nat u = of_nat A" and end_u: "unit_end f * of_nat u = of_nat B"
    by (simp_all add: A_def B_def)
  have ua: "unat (of_nat A :: u64) = A" and ub: "unat (of_nat B :: u64) = B"
    using AB T by (simp_all add: unat_of_nat_small)
  have we: "unat (off + of_nat ?n) = ?o + ?n"
    using off by (simp add: unat_word_ariths unat_of_nat_small)
  define c where "c = min A (?o + ?n) - ?o"
  define e where "e = min B (?o + ?n) - ?o"
  have upto: "read_upto T u ?o out (unat (unit_begin f)) = (memcpy_at out 0 (slice T ?o c), of_nat c)"
    "read_upto T u ?o out (unat (unit_end f)) = (memcpy_at out 0 (slice T ?o e), of_nat e)"
    by (simp_all add: read_upto_def Let_def c_def e_def A_def B_def)
  have ce: "c \<le> e" "e \<le> ?n"
    using AB by (auto simp: c_def e_def)
  then have len: "length (memcpy_at out 0 (slice T ?o c)) = ?n"
    by (simp add: length_memcpy_slice)
  show ?thesis
  proof (cases "overlaps u ?o ?n f")
    case False
    then have skip: "B \<le> ?o \<or> ?o + ?n \<le> A"
      by (auto simp: overlaps_def A_def B_def)
    then have "c = e"
      using AB by (auto simp: c_def e_def)
    then show ?thesis
      using skip ua ub we len unfolding upto by (simp add: read_frame_def begin_u end_u Let_def word_le_nat_alt)
  next
    case True
    then have ov: "?o < B" "A < ?o + ?n"
      by (auto simp: overlaps_def A_def B_def)
    let ?lo = "max (of_nat A) off" and ?hi = "min (of_nat B) (off + of_nat ?n)"
    have lo: "unat ?lo = max A ?o" and hi: "unat ?hi = min B (?o + ?n)"
      using ua ub we by (auto simp: max_def min_def word_le_nat_alt)
    define d where "d = min B (?o + ?n) - max A ?o"
    have d: "c + d = e" "?o + c = max A ?o" "max A ?o - A + d \<le> B - A"
      using ov AB by (auto simp: c_def d_def e_def)
    have d1: "unat (?hi - ?lo) = d"
      using lo hi ov AB by (subst unat_sub) (auto simp: word_le_nat_alt d_def)
    have d2: "unat (?lo - off) = c"
      using lo ov by (subst unat_sub) (auto simp: word_le_nat_alt c_def)
    have d3: "unat (?lo - of_nat A) = max A ?o - A"
      using lo ua by (subst unat_sub) (auto simp: word_le_nat_alt)
    have fs: "frame_slice T u f = slice T A (B - A)"
      by (simp add: frame_slice_def A_def B_def diff_mult_distrib)
    have piece: "slice (frame_slice T u f) (max A ?o - A) d = slice T (?o + c) d"
      unfolding fs using d by (subst slice_slice) auto
    have room: "max A ?o - A + d \<le> length (frame_slice T u f)"
      using d(3) AB by (simp add: fs)
    have "?o + e \<le> length T"
      using AB ov by (simp add: e_def)
    then have "length (slice T ?o c) = c" "length (slice T (?o + c) d) = d"
      using d(1) unfolding length_slice by linarith+
    then have copy: "memcpy_at (memcpy_at out 0 (slice T ?o c)) c (slice T (?o + c) d) = memcpy_at out 0 (slice T ?o e)"
      using ce(2) d(1) slice_split [of T ?o c d] memcpy_at_memcpy_at [of 0 "slice T ?o c" "slice T (?o + c) d" out] by simp
    have "?hi - ?lo = of_nat (unat (?hi - ?lo))"
      by (simp only: of_nat_unat ucast_id)
    then have sum: "(of_nat c + (?hi - ?lo) :: u64) = of_nat e"
      unfolding d1 using d(1) by (simp flip: of_nat_add)
    show ?thesis
      using True rebuild ov ua ub we d1 d2 d3 d(1) piece room copy sum ce len unfolding upto
      by (simp add: read_frame_def begin_u end_u Let_def word_le_nat_alt)
  qed
qed

lemma read_frame_ok_rebuilds:
  assumes "read_frame rebuild (of_nat u) off f (buf, w) = Ok s" "overlaps u (unat off) (length buf) f"
    and f: "unat (unit_begin f) \<le> unat (unit_end f)" "unat (unit_end f) * u < 2 ^ 62" and off: "unat off + length buf < 2 ^ 64"
  shows "\<exists>r. rebuild f = Ok r"
proof -
  have "unat (unit_begin f) * u \<le> unat (unit_end f) * u"
    using f(1) by (rule mult_le_mono1)
  then have "unat (unit_begin f) * u < 2 ^ 62"
    using f(2) by (rule le_less_trans)
  then have "unat (unit_begin f * of_nat u) = unat (unit_begin f) * u" "unat (unit_end f * of_nat u) = unat (unit_end f) * u"
    using f(2) unat_mult_small [of "unat (unit_begin f)" u] unat_mult_small [of "unat (unit_end f)" u] by simp_all
  moreover have "unat (off + of_nat (length buf)) = unat off + length buf"
    using off by (simp add: unat_word_ariths unat_of_nat_small)
  ultimately show ?thesis
    using assms(1,2) by (auto simp: read_frame_def Let_def overlaps_def word_le_nat_alt)
qed

text \<open>
  A loop over tiling frames whose rebuilt bytes are the target's either copies the requested window, or one of the
  frames it needs cannot be rebuilt and the loop fails.
\<close>

lemma read_frames:
  assumes "tiles fs a b" "b * u \<le> length T" "length T < 2 ^ 62" "unat off + length out < 2 ^ 64"
    and sound: "\<And>f r. f \<in> set fs \<Longrightarrow> rebuild f = Ok r \<Longrightarrow> r = frame_slice T u f"
  shows "if \<forall>f \<in> set fs. overlaps u (unat off) (length out) f \<longrightarrow> (\<exists>r. rebuild f = Ok r)
    then fold_res (read_frame rebuild (of_nat u) off) fs (read_upto T u (unat off) out a) = Ok (read_upto T u (unat off) out b)
    else \<nexists>s. fold_res (read_frame rebuild (of_nat u) off) fs (read_upto T u (unat off) out a) = Ok s"
  using assms(1,2) sound
proof (induction fs arbitrary: a)
  case (Cons f fs)
  let ?st = "read_upto T u (unat off) out"
  have f: "unat (unit_begin f) = a" "unat (unit_begin f) \<le> unat (unit_end f)" "tiles fs (unat (unit_end f)) b"
    using Cons.prems(1) by auto
  have "unat (unit_end f) * u \<le> b * u"
    using tiles_le [OF f(3)] by (rule mult_le_mono1)
  then have fT: "unat (unit_end f) * u \<le> length T"
    using Cons.prems(2) by (rule order_trans)
  note IH = Cons.IH [OF f(3) Cons.prems(2)]
  show ?case
  proof (cases "overlaps u (unat off) (length out) f \<longrightarrow> (\<exists>r. rebuild f = Ok r)")
    case True
    then have "read_frame rebuild (of_nat u) off f (?st a) = Ok (?st (unat (unit_end f)))"
      using read_frame_step [OF f(2) fT assms(3,4), of rebuild] Cons.prems(3) [of f] f(1) by fastforce
    then show ?thesis
      using IH Cons.prems(3) True by (auto split: if_splits)
  next
    case False
    obtain buf w where st: "?st a = (buf, w)" "length buf = length out"
      using length_memcpy_slice by (simp add: read_upto_def Let_def)
    have "\<nexists>s. read_frame rebuild (of_nat u) off f (buf, w) = Ok s"
      using read_frame_ok_rebuilds [of rebuild u off f buf w] False f(2) fT assms(3,4) st(2) by force
    then show ?thesis
      using False st(1) by auto
  qed
qed simp

subsection \<open>What a reader promises\<close>

text \<open>
  A reader of \<open>T\<close>: from any offset it copies what \<open>T\<close> has there, up to the size of the buffer, and returns how much
  that was.
\<close>

definition window :: "bytes \<Rightarrow> u64 \<Rightarrow> bytes \<Rightarrow> bytes \<times> u64" where
  "window T off out =
     (let n = min (length out) (length T - unat off) in (memcpy_at out 0 (slice T (unat off) n), of_nat n))"

definition reads_as :: "reader \<Rightarrow> bytes \<Rightarrow> bool" where
  "reads_as read T \<longleftrightarrow> (\<forall>off out. unat off + length out < 2 ^ 64 \<longrightarrow> read off out = Ok (window T off out))"

lemma read_upto_all:
  assumes "N * u = length T"
  shows "read_upto T u (unat off) out N = window T off out"
proof -
  have "min (N * u) (unat off + length out) - unat off = min (length out) (length T - unat off)"
    unfolding assms by linarith
  then show ?thesis
    by (simp add: read_upto_def window_def)
qed

lemma read_upto_none: "read_upto T u off out 0 = (out, 0)"
  by (simp add: read_upto_def memcpy_at_def)

lemma window_inside:
  "unat off + length out \<le> length T \<Longrightarrow> window T off out = (slice T (unat off) (length out), of_nat (length out))"
  by (simp add: window_def memcpy_at_def Let_def)

text \<open>The frames of a tensor diff tile the target and carry the digests of its pieces.\<close>

definition seals :: "'j Ext \<Rightarrow> TensorDiff \<Rightarrow> nat \<Rightarrow> bytes \<Rightarrow> bool" where
  "seals X t u T \<longleftrightarrow>
     T \<noteq> [] \<and> u dvd length T \<and> length T < 2 ^ 62 \<and> tensor_bytes t = of_nat (length T) \<and>
     tiles (td_frames t) 0 (length T div u) \<and>
     (\<forall>f \<in> set (td_frames t). fr_digest f = digest (x_blake3 X) (frame_slice T u f))"

lemma seals_geometry:
  assumes "seals X t u T"
  shows "0 < u" "td_frames t \<noteq> []" "unat (unit_end (last (td_frames t))) = length T div u"
    "length T div u * u = length T" "unit_end (last (td_frames t)) \<noteq> 0"
    "tensor_bytes t mod unit_end (last (td_frames t)) = 0"
    "tensor_bytes t div unit_end (last (td_frames t)) = of_nat u"
proof -
  have T: "T \<noteq> []" "u dvd length T" "length T < 2 ^ 62" "tensor_bytes t = of_nat (length T)"
    and til: "tiles (td_frames t) 0 (length T div u)"
    using assms by (auto simp: seals_def)
  show u: "0 < u"
    using T(1,2) by (cases u) auto
  show mult: "length T div u * u = length T"
    using T(2) by simp
  have pos: "0 < length T div u"
    using mult T(1) by (metis length_greater_0_conv mult_0 neq0_conv)
  then show ne: "td_frames t \<noteq> []"
    using til by auto
  show last: "unat (unit_end (last (td_frames t))) = length T div u"
    using tiles_last [OF til ne] .
  then show "unit_end (last (td_frames t)) \<noteq> 0"
    using pos by auto
  have uT: "unat (tensor_bytes t) = length T"
    using T(3,4) by (simp add: unat_of_nat_small)
  have "unat (tensor_bytes t mod unit_end (last (td_frames t))) = 0"
    using mult uT last by (metis mod_mult_self1_is_0 unat_mod_distrib)
  then show "tensor_bytes t mod unit_end (last (td_frames t)) = 0"
    by (simp only: unat_eq_zero)
  have "unat (tensor_bytes t div unit_end (last (td_frames t))) = length T div (length T div u)"
    unfolding unat_div_distrib uT last ..
  also have "\<dots> = u"
    using mult pos by (metis nonzero_mult_div_cancel_left not_gr_zero)
  finally show "tensor_bytes t div unit_end (last (td_frames t)) = of_nat u"
    by (metis of_nat_unat ucast_id)
qed

text \<open>Two different byte strings with the digest that a frame of \<open>T\<close> carries.\<close>

definition digest_collision :: "'j Ext \<Rightarrow> TensorDiff \<Rightarrow> nat \<Rightarrow> bytes \<Rightarrow> bool" where
  "digest_collision X t u T \<longleftrightarrow>
     (\<exists>f \<in> set (td_frames t). \<exists>b. b \<noteq> frame_slice T u f \<and> digest (x_blake3 X) b = digest (x_blake3 X) (frame_slice T u f))"

lemma reconstruct_frame_sound:
  assumes "seals X t u T" "\<not> digest_collision X t u T" "f \<in> set (td_frames t)"
    and "reconstruct_frame X isa read name t payload eperm sec v f = Ok r"
  shows "r = frame_slice T u f"
proof -
  have "digest (x_blake3 X) r = fr_digest f"
    using assms(4) by (auto simp: reconstruct_frame_def Let_def split: if_splits)
  then show ?thesis
    using assms(1-3) unfolding seals_def digest_collision_def by metis
qed

lemma read_tensor_range_sealed:
  assumes s: "seals X t u T" and c: "\<not> digest_collision X t u T" and off: "unat off + length out < 2 ^ 64"
    and ok: "read_tensor_range X isa ctx read header payload t name off out = Ok res"
  shows "res = window T off out"
proof -
  note g = seals_geometry [OF s]
  have T: "length T < 2 ^ 62" "tiles (td_frames t) 0 (length T div u)"
    using s by (auto simp: seals_def)
  obtain eperm sec where
    loop: "fold_res (read_frame (reconstruct_frame X isa read name t payload eperm sec (of_nat u)) (of_nat u) off)
      (td_frames t) (out, 0) = Ok res"
    using ok g(2,5,6,7) by (auto simp: read_tensor_range_def Let_def split: if_splits)
  let ?rebuild = "reconstruct_frame X isa read name t payload eperm sec (of_nat u)"
  have le: "length T div u * u \<le> length T"
    using g(4) by simp
  have "r = frame_slice T u f" if "f \<in> set (td_frames t)" "?rebuild f = Ok r" for f r
    using reconstruct_frame_sound [OF s c] that by blast
  from read_frames [OF T(2) le T(1) off, of ?rebuild, OF this] loop
  have "Ok res = Ok (read_upto T u (unat off) out (length T div u))"
    unfolding read_upto_none by (auto split: if_splits)
  then show ?thesis
    using read_upto_all [OF g(4)] by simp
qed

end
