(* ===== verification/Codec_Chain.thy ===== *)
theory Codec_Chain
  imports Codec_Reconstruct
begin

section \<open>Chains of deltas\<close>

text \<open>
  What the operations of \<open>Codec_Reconstruct\<close> give when the base is good: a frame is rebuilt from the gathered and
  permuted base, a delta over a reader of the base is a reader of the target, and so, by induction along the chain,
  every group that was stored as deltas over a full group reads back. \<open>reads_as\<close> is the contract of a reader that
  every level of the chain relies on and provides, \<open>holds_group\<close> the chain. At the end: the depth of the
  recursion, the digest check as a guarantee that does not depend on the base, and whole files.
\<close>

subsection \<open>Rebuilding a frame from a good base\<close>

lemma unat_mult_of_nat: "unat w * n < 2 ^ 64 \<Longrightarrow> unat (w * of_nat n :: u64) = unat w * n"
  using unat_mult_small [of "unat w" n] by simp

text \<open>
  The base as a frame sees it: its units in the order of the expanded permutation (the empty list stands for the
  identity), each unit with its columns permuted by the secondary axis.
\<close>

definition row_view :: "SecondaryAxis \<Rightarrow> bytes \<Rightarrow> bytes" where
  "row_view sec row = (if sa_perm sec = [] then row else units_of row (unat (sa_unit_bytes sec)) (sa_perm sec))"

definition unit_order :: "nat list \<Rightarrow> nat \<Rightarrow> nat list" where
  "unit_order eperm N = (if eperm = [] then [0..<N] else eperm)"

definition base_view :: "SecondaryAxis \<Rightarrow> nat list \<Rightarrow> nat \<Rightarrow> bytes \<Rightarrow> bytes" where
  "base_view sec order u B = concat (map (\<lambda>p. row_view sec (slice B (p * u) u)) order)"

definition secondary_fits :: "SecondaryAxis \<Rightarrow> nat \<Rightarrow> bool" where
  "secondary_fits sec u \<longleftrightarrow> sa_perm sec = [] \<or>
     length (sa_perm sec) * unat (sa_unit_bytes sec) = u \<and>
     (\<forall>q \<in> set (sa_perm sec). q < length (sa_perm sec))"

lemma secondary_units_inside:
  assumes "secondary_fits sec u" "q \<in> set (sa_perm sec)"
  shows "Suc q * unat (sa_unit_bytes sec) \<le> u"
proof -
  have "sa_perm sec \<noteq> []"
    using assms(2) by auto
  then have fit: "length (sa_perm sec) * unat (sa_unit_bytes sec) = u" "Suc q \<le> length (sa_perm sec)"
    using assms by (auto simp: secondary_fits_def Suc_le_eq)
  then show ?thesis
    by (metis mult_le_mono1)
qed

lemma length_row_view: "secondary_fits sec u \<Longrightarrow> length row = u \<Longrightarrow> length (row_view sec row) = u"
  using secondary_units_inside [of sec u] by (auto simp: row_view_def length_units_of secondary_fits_def)

lemma length_unit_row:
  assumes "secondary_fits sec u" "p < N" "length B = N * u"
  shows "length (row_view sec (slice B (p * u) u)) = u"
proof -
  have "Suc p * u \<le> N * u"
    using assms(2) by (intro mult_le_mono1) simp
  then have "length (slice B (p * u) u) = u"
    using assms(3) by simp
  then show ?thesis
    by (rule length_row_view [OF assms(1)])
qed

lemma permute_row_units:
  assumes "secondary_fits sec u" "sa_perm sec \<noteq> []" "length row = u" "length scratch = u"
  shows "permute_units scratch row (sa_perm sec) (unat (sa_unit_bytes sec)) = Ok (row_view sec row)"
  using assms permute_units_eq [of "sa_perm sec" "unat (sa_unit_bytes sec)" row scratch] secondary_units_inside [OF assms(1)]
  by (auto simp: row_view_def secondary_fits_def)

lemma permute_rows_prefix:
  assumes fits: "secondary_fits sec u" "sa_perm sec \<noteq> []" and base: "length b = k * u" "k * u < 2 ^ 62" "u < 2 ^ 62"
  shows "j \<le> k \<Longrightarrow> \<exists>scratch. length scratch = u \<and>
    fold_res (permute_row b sec (of_nat u)) [0..<j] (replicate (k * u) 0, replicate u 0) =
      Ok (concat (map (\<lambda>r. row_view sec (slice b (r * u) u)) [0..<j]) @ replicate ((k - j) * u) 0, scratch)"
proof (induction j)
  case (Suc j)
  let ?V = "concat (map (\<lambda>r. row_view sec (slice b (r * u) u)) [0..<j])"
  obtain scratch where IH: "length scratch = u"
    "fold_res (permute_row b sec (of_nat u)) [0..<j] (replicate (k * u) 0, replicate u 0) =
       Ok (?V @ replicate ((k - j) * u) 0, scratch)"
    using Suc by auto
  have inside: "r * u + u \<le> k * u" if "r \<le> j" for r
    using mult_le_mono1 [of "Suc r" k u] that Suc.prems by simp
  have uu: "unat (of_nat u :: u64) = u" "unat (of_nat j * of_nat u :: u64) = j * u"
    using base inside [of j] by (auto simp: unat_of_nat_small intro: unat_mult_small)
  have rows: "length (row_view sec (slice b (r * u) u)) = u" if "r \<le> j" for r
    using inside [OF that] base(1) by (intro length_row_view [OF fits(1)]) simp
  then have lenV: "length ?V = j * u"
    by (subst length_concat_uniform [where k = u]) auto
  define row where "row = row_view sec (slice b (j * u) u)"
  have lrow: "length row = u"
    using rows [of j] by (simp add: row_def)
  have "permute_units scratch (slice b (j * u) u) (sa_perm sec) (unat (sa_unit_bytes sec)) = Ok row"
    unfolding row_def using inside [of j] base(1) IH(1) by (intro permute_row_units [OF fits]) auto
  moreover have "(k - j) * u = u + (k - Suc j) * u"
    using Suc.prems by (metis Suc_diff_Suc Suc_le_lessD mult_Suc)
  ultimately have "permute_row b sec (of_nat u) j (?V @ replicate ((k - j) * u) 0, scratch) =
      Ok (?V @ row @ replicate ((k - Suc j) * u) 0, row)"
    using uu inside [of j] base(1) lenV lrow by (simp add: permute_row_def Let_def memcpy_at_def replicate_add)
  then show ?case
    using IH lrow by (simp add: fold_res_append row_def)
qed simp

lemma permute_columns_eq:
  assumes fits: "secondary_fits sec u" and base: "length b = unat k * u" "unat k * u < 2 ^ 62" "u < 2 ^ 62"
  shows "permute_columns sec (of_nat u) k b = Ok (concat (map (\<lambda>r. row_view sec (slice b (r * u) u)) [0..<unat k]))"
proof (cases "sa_perm sec = []")
  case True
  then show ?thesis
    using concat_slices [of "unat k" u b] base(1) by (simp add: permute_columns_def row_view_def)
next
  case False
  have "unat (of_nat u :: u64) = u"
    using base(3) by (simp add: unat_of_nat_small)
  then show ?thesis
    using permute_rows_prefix [OF fits False base order_refl] False base
    by (auto simp: permute_columns_def)
qed

lemma reads_units_full_read:
  assumes "reads_as read B" "length B < 2 ^ 62" "u < 2 ^ 62"
  shows "reads_units (\<lambda>run. full_read name read (of_nat (run_first run) * of_nat u) (of_nat (run_count run) * of_nat u)) B u"
  unfolding reads_units_def
proof (intro allI impI)
  fix r :: UnitRun and buf :: bytes
  assume inside: "(run_first r + run_count r) * u \<le> length B" and buf: "length buf = run_count r * u"
  have first: "unat (of_nat (run_first r) * of_nat u :: u64) = run_first r * u"
    using inside assms(2) by (intro unat_mult_small) (simp add: algebra_simps)
  have fit: "run_first r * u + length buf \<le> length B"
    using inside buf by (simp add: algebra_simps)
  then have "read (of_nat (run_first r) * of_nat u) buf = Ok (window B (of_nat (run_first r) * of_nat u) buf)"
    using assms(1,2) first by (simp add: reads_as_def)
  also have "\<dots> = Ok (slice B (run_first r * u) (length buf), of_nat (length buf))"
    using fit first by (simp add: window_inside)
  finally show "full_read name read (of_nat (run_first r) * of_nat u) (of_nat (run_count r) * of_nat u) buf =
      Ok (unit_window B u (run_first r) (run_count r))"
    using buf by (simp add: full_read_def unit_window_def)
qed

lemma gather_base_bytes_eq:
  assumes read: "reads_as read B" and B: "length B = N * u" "length B < 2 ^ 62" and u: "u < 2 ^ 62"
    and f: "unat ub \<le> unat ue" "unat ue \<le> N" and perm: "eperm \<noteq> [] \<longrightarrow> length eperm = N \<and> (\<forall>p \<in> set eperm. p < N)"
  shows "gather_base_bytes read name eperm ub ue (of_nat u) =
    Ok (units_of B u (slice (unit_order eperm N) (unat ub) (unat ue - unat ub)))"
proof -
  let ?c = "unat ue - unat ub"
  have count: "unat (ue - ub) = ?c"
    using f(1) by (simp add: unat_sub word_le_nat_alt)
  have cu: "unat ub * u + ?c * u \<le> N * u"
    using mult_le_mono1 [OF f(2), of u] f(1) by (simp add: diff_mult_distrib)
  have n: "unat ((ue - ub) * of_nat u) = ?c * u"
    using unat_mult_of_nat [of "ue - ub" u] cu B unfolding count by simp
  have fits: "\<forall>p \<in> set (unit_order eperm N). Suc p * u \<le> length B"
    using perm B(1) by (auto simp: unit_order_def Suc_le_eq intro!: mult_le_mono1 simp del: mult_Suc)
  show ?thesis
  proof (cases "eperm = []")
    case True
    have off: "unat (ub * of_nat u) = unat ub * u"
      using cu B by (intro unat_mult_of_nat) simp
    have "read (ub * of_nat u) (replicate (?c * u) 0) = Ok (window B (ub * of_nat u) (replicate (?c * u) 0))"
      using read cu B off by (simp add: reads_as_def)
    also have "window B (ub * of_nat u) (replicate (?c * u) 0) = (slice B (unat ub * u) (?c * u), of_nat (?c * u))"
      using window_inside [of "ub * of_nat u" "replicate (?c * u) 0" B] off cu B by simp
    finally have "full_read name read (ub * of_nat u) ((ue - ub) * of_nat u) (replicate (?c * u) 0) =
        Ok (slice B (unat ub * u) (?c * u))"
      using n unfolding full_read_def by simp (metis of_nat_mult of_nat_unat ucast_id)
    moreover have "slice B (unat ub * u) (?c * u) = units_of B u (slice [0..<N] (unat ub) ?c)"
      using units_of_upt [of "unat ub" ?c u B] f cu B
      by (simp add: unit_window_def slice_def drop_upt take_upt algebra_simps)
    ultimately show ?thesis
      using True n cu B by (simp add: gather_base_bytes_def Let_def unit_order_def)
  next
    case False
    have "gather_units (\<lambda>run. full_read name read (of_nat (run_first run) * of_nat u) (of_nat (run_count run) * of_nat u))
        eperm (unat ub) ?c (of_nat u) (replicate (?c * u) 0) = Ok (units_of B u (slice eperm (unat ub) ?c))"
      using False fits perm f cu B u
      by (intro gather_units_eq [OF reads_units_full_read [OF read B(2) u]])
        (auto simp: unit_order_def slice_def dest: in_set_takeD in_set_dropD)
    then show ?thesis
      using False n count cu B by (simp add: gather_base_bytes_def Let_def unit_order_def)
  qed
qed

lemma slice_concat_units:
  assumes "\<forall>x \<in> set xs. length (g x) = u" "a + c \<le> length xs"
  shows "slice (concat (map g xs)) (a * u) (c * u) = concat (map g (slice xs a c))"
proof -
  have "xs = take a xs @ slice xs a c @ drop (a + c) xs"
    by (simp add: slice_def) (metis add.commute append_take_drop_id drop_drop)
  then have split: "concat (map g xs) =
      concat (map g (take a xs)) @ concat (map g (slice xs a c)) @ concat (map g (drop (a + c) xs))"
    by (metis concat_append map_append)
  have "length (concat (map g (take a xs))) = a * u"
    using assms by (subst length_concat_uniform [where k = u]) (auto dest: in_set_takeD)
  moreover have "length (concat (map g (slice xs a c))) = c * u"
    using assms by (subst length_concat_uniform [where k = u]) (auto simp: slice_def dest: in_set_takeD in_set_dropD)
  ultimately show ?thesis
    unfolding split by (intro slice_append_exact) simp_all
qed

text \<open>A frame's payload is the compressed, transformed residual of its piece of \<open>T\<close> against its piece of \<open>P\<close>.\<close>

definition frame_encoded :: "'j Ext \<Rightarrow> TensorDiff \<Rightarrow> bytes \<Rightarrow> nat \<Rightarrow> bytes \<Rightarrow> bytes \<Rightarrow> FrameIndexEntry \<Rightarrow> bool" where
  "frame_encoded X t payload u P T f \<longleftrightarrow>
     unat (fr_off f) + unat (fr_len f) \<le> length payload \<and>
     (\<exists>isa l c. x_compress X l c
        (transform_residual (td_transform t) (td_dtype t)
          (encode_residual isa (td_residual t) (td_dtype t) (frame_slice P u f) (frame_slice T u f))) =
        Some (slice payload (unat (fr_off f)) (unat (fr_len f))))"

text \<open>The diff of \<open>T\<close> against \<open>B\<close>, seen through the expanded permutation and the secondary axis.\<close>

definition delta_of ::
  "'j Ext \<Rightarrow> TensorDiff \<Rightarrow> bytes \<Rightarrow> SecondaryAxis \<Rightarrow> nat list \<Rightarrow> nat \<Rightarrow> bytes \<Rightarrow> bytes \<Rightarrow> bool" where
  "delta_of X t payload sec eperm u B T \<longleftrightarrow>
     seals X t u T \<and> length B = length T \<and> u mod dtype_size (td_dtype t) = 0 \<and> secondary_fits sec u \<and>
     length payload < 2 ^ 63 \<and>
     (eperm \<noteq> [] \<longrightarrow> length eperm = length T div u \<and> (\<forall>p \<in> set eperm. p < length T div u)) \<and>
     (\<forall>f \<in> set (td_frames t).
        frame_encoded X t payload u (base_view sec (unit_order eperm (length T div u)) u B) T f)"

lemma base_view_frame:
  assumes fits: "secondary_fits sec u" and order: "length order = N" "\<forall>p \<in> set order. p < N" and B: "length B = N * u"
    and f: "unat (unit_begin f) \<le> unat (unit_end f)" "unat (unit_end f) \<le> N" and small: "N * u < 2 ^ 62" "u < 2 ^ 62"
  shows "permute_columns sec (of_nat u) (unit_end f - unit_begin f)
      (units_of B u (slice order (unat (unit_begin f)) (unat (unit_end f) - unat (unit_begin f)))) =
    Ok (frame_slice (base_view sec order u B) u f)"
proof -
  let ?a = "unat (unit_begin f)" and ?c = "unat (unit_end f) - unat (unit_begin f)"
  let ?ps = "slice order ?a ?c"
  have count: "unat (unit_end f - unit_begin f) = ?c"
    using f(1) by (simp add: unat_sub word_le_nat_alt)
  have inside: "p * u + u \<le> length B" if "p \<in> set order" for p
    using mult_le_mono1 [of "Suc p" N u] order(2) B that by (simp add: Suc_le_eq)
  have rows: "\<forall>p \<in> set order. length (row_view sec (slice B (p * u) u)) = u"
    using length_unit_row [OF fits _ B] order(2) by blast
  have "\<forall>p \<in> set order. Suc p * u \<le> length B"
    using inside by (simp add: add.commute)
  then have ps: "\<forall>p \<in> set ?ps. Suc p * u \<le> length B"
    by (auto simp: slice_def dest!: in_set_takeD in_set_dropD)
  have lps: "length ?ps = ?c"
    using f order(1) by simp
  then have G: "length (units_of B u ?ps) = ?c * u"
    using length_units_of [OF ps] by simp
  have "?c * u \<le> N * u"
    using f(2) by (intro mult_le_mono1) simp
  then have "?c * u < 2 ^ 62"
    using small(1) by (rule le_less_trans)
  then have "permute_columns sec (of_nat u) (unit_end f - unit_begin f) (units_of B u ?ps) =
      Ok (concat (map (\<lambda>r. row_view sec (slice (units_of B u ?ps) (r * u) u)) [0..<?c]))"
    using permute_columns_eq [OF fits, of "units_of B u ?ps" "unit_end f - unit_begin f"] G small unfolding count by simp
  also have "concat (map (\<lambda>r. row_view sec (slice (units_of B u ?ps) (r * u) u)) [0..<?c]) =
      concat (map (\<lambda>r. row_view sec (slice B (?ps ! r * u) u)) [0..<?c])"
    using slice_units_of [OF ps] lps by (intro arg_cong [where f = concat] map_cong) auto
  also have "\<dots> = concat (map (\<lambda>p. row_view sec (slice B (p * u) u)) ?ps)"
    using lps by (intro arg_cong [where f = concat] nth_equalityI) auto
  also have "\<dots> = frame_slice (base_view sec order u B) u f"
    unfolding frame_slice_def base_view_def
    using rows f order(1) by (intro slice_concat_units [symmetric]) auto
  finally show ?thesis .
qed

lemma length_frame_slice:
  assumes "unat (unit_begin f) \<le> unat (unit_end f)" "unat (unit_end f) * u \<le> length T"
  shows "length (frame_slice T u f) = (unat (unit_end f) - unat (unit_begin f)) * u"
  using assms mult_le_mono1 [OF assms(1), of u] by (simp add: frame_slice_def diff_mult_distrib)

lemma frame_bytes_raw:
  assumes "unat (unit_begin f) \<le> unat (unit_end f)" "unat (unit_end f) * u < 2 ^ 62"
  shows "unat (unit_end f * of_nat u - unit_begin f * of_nat u) = (unat (unit_end f) - unat (unit_begin f)) * u"
proof -
  have le: "unat (unit_begin f) * u \<le> unat (unit_end f) * u"
    using assms(1) by (rule mult_le_mono1)
  then have b: "unat (unit_begin f * of_nat u) = unat (unit_begin f) * u" and e: "unat (unit_end f * of_nat u) = unat (unit_end f) * u"
    using le_less_trans [OF le assms(2)] assms(2) by (simp_all add: unat_mult_of_nat)
  then show ?thesis
    using le by (simp add: unat_sub word_le_nat_alt diff_mult_distrib)
qed

lemma length_base_view:
  assumes "secondary_fits sec u" "\<forall>p \<in> set order. p < N" "length B = N * u"
  shows "length (base_view sec order u B) = length order * u"
  using length_unit_row [OF assms(1) _ assms(3)] assms(2) unfolding base_view_def
  by (subst length_concat_uniform [where k = u]) auto

lemma reconstruct_frame_complete:
  assumes z: "zstd_ok X" and read: "reads_as read B" and d: "delta_of X t payload sec eperm u B T" and f: "f \<in> set (td_frames t)"
  shows "reconstruct_frame X isa read name t payload eperm sec (of_nat u) f = Ok (frame_slice T u f)"
proof -
  define N where "N = length T div u"
  define order where "order = unit_order eperm N"
  define P where "P = base_view sec order u B"
  have s: "seals X t u T" and lenB: "length B = length T" and el: "u mod dtype_size (td_dtype t) = 0" and fits: "secondary_fits sec u"
    and pl: "length payload < 2 ^ 63" and perm: "eperm \<noteq> [] \<longrightarrow> length eperm = N \<and> (\<forall>p \<in> set eperm. p < N)"
    and enc: "frame_encoded X t payload u P T f"
    using d f by (auto simp: delta_of_def N_def order_def P_def)
  note g = seals_geometry [OF s, folded N_def]
  have T: "length T < 2 ^ 62" "tiles (td_frames t) 0 N" "fr_digest f = digest (x_blake3 X) (frame_slice T u f)"
    using s f by (auto simp: seals_def N_def)
  have ord: "length order = N" "\<forall>p \<in> set order. p < N"
    using perm by (auto simp: order_def unit_order_def)
  have fr: "unat (unit_begin f) \<le> unat (unit_end f)" "unat (unit_end f) \<le> N"
    using tiles_frame [OF T(2) f] by auto
  have u: "u < 2 ^ 62"
    using s dvd_imp_le [of u "length T"] by (auto simp: seals_def)
  have gather: "gather_base_bytes read name eperm (unit_begin f) (unit_end f) (of_nat u) =
      Ok (units_of B u (slice order (unat (unit_begin f)) (unat (unit_end f) - unat (unit_begin f))))"
    unfolding order_def using lenB g(4) T(1) by (intro gather_base_bytes_eq [OF read _ _ u fr perm]) auto
  have cols: "permute_columns sec (of_nat u) (unit_end f - unit_begin f)
      (units_of B u (slice order (unat (unit_begin f)) (unat (unit_end f) - unat (unit_begin f)))) = Ok (frame_slice P u f)"
    unfolding P_def using base_view_frame [OF fits ord _ fr _ u, of B] lenB g(4) T(1) by simp
  let ?n = "(unat (unit_end f) - unat (unit_begin f)) * u"
  have en: "unat (unit_end f) * u \<le> length T"
    using mult_le_mono1 [OF fr(2), of u] g(4) by simp
  note raw = frame_bytes_raw [OF fr(1) le_less_trans [OF en T(1)]]
  have "length P = length T"
    using length_base_view [OF fits ord(2), of B] ord(1) lenB g(4) by (simp add: P_def)
  then have lens: "length (frame_slice T u f) = ?n" "length (frame_slice P u f) = ?n"
    using en fr(1) by (simp_all add: length_frame_slice)
  have mod: "length (frame_slice T u f) mod dtype_size (td_dtype t) = 0"
    unfolding lens using el by (metis mod_mult_right_eq mult_0_right mod_0)
  define z where "z = slice payload (unat (fr_off f)) (unat (fr_len f))"
  obtain isa' l c where comp: "x_compress X l c (transform_residual (td_transform t) (td_dtype t)
      (encode_residual isa' (td_residual t) (td_dtype t) (frame_slice P u f) (frame_slice T u f))) = Some z"
    and room: "unat (fr_off f) + unat (fr_len f) \<le> length payload"
    using enc by (auto simp: frame_encoded_def z_def)
  let ?r = "encode_residual isa' (td_residual t) (td_dtype t) (frame_slice P u f) (frame_slice T u f)"
  have lr: "length ?r = ?n"
    using length_encode_residual [OF _ mod] lens by simp
  have dec: "decompress_frame X z ?n = Ok (transform_residual (td_transform t) (td_dtype t) ?r)"
    using zstd_roundtrip [OF z comp, of ?n] lr by (simp add: decompress_frame_def)
  have app: "apply_residual isa (td_residual t) (td_transform t) (td_dtype t) (frame_slice P u f)
      (transform_residual (td_transform t) (td_dtype t) ?r) (replicate ?n 0) = Ok (frame_slice T u f)"
    using apply_encoded [of "frame_slice P u f" "frame_slice T u f" "td_dtype t" "replicate ?n 0" isa "td_residual t" isa']
      mod lens lr by (simp add: apply_transformed)
  have "unat (fr_off f + fr_len f) = unat (fr_off f) + unat (fr_len f)"
    using room pl by (simp add: unat_word_ariths)
  then show ?thesis
    using gather cols room raw dec app T(3) lr by (simp add: reconstruct_frame_def Let_def flip: z_def)
qed

text \<open>A delta of \<open>T\<close> over a reader of its base is a reader of \<open>T\<close>.\<close>

lemma read_tensor_range_delta:
  assumes z: "zstd_ok X" and read: "reads_as read B" and d: "delta_of X t payload sec eperm u B T"
    and perm: "expanded_permutation header payload t (of_nat (length T div u)) = Ok eperm"
    and sec: "resolve_secondary_permutation X ctx t = Ok sec"
  shows "reads_as (read_tensor_range X isa ctx read header payload t name) T"
  unfolding reads_as_def
proof (intro allI impI)
  fix off :: u64 and out :: bytes
  assume off: "unat off + length out < 2 ^ 64"
  have s: "seals X t u T" and fits: "secondary_fits sec u"
    using d by (auto simp: delta_of_def)
  note g = seals_geometry [OF s]
  have T: "length T < 2 ^ 62" "tiles (td_frames t) 0 (length T div u)"
    using s by (auto simp: seals_def)
  let ?rebuild = "reconstruct_frame X isa read name t payload eperm sec (of_nat u)"
  have ok: "?rebuild f = Ok (frame_slice T u f)" if "f \<in> set (td_frames t)" for f
    using reconstruct_frame_complete [OF z read d that] .
  have "length T div u * u \<le> length T"
    using g(4) by simp
  from read_frames [OF T(2) this T(1) off, of ?rebuild] ok
  have loop: "fold_res (read_frame ?rebuild (of_nat u) off) (td_frames t) (out, 0) = Ok (window T off out)"
    by (simp add: read_upto_none read_upto_all [OF g(4)])
  have axis: "unit_end (last (td_frames t)) = of_nat (length T div u)"
    using g(3) by (metis of_nat_unat ucast_id)
  have "of_nat u = of_nat (length (sa_perm sec)) * (ucast (sa_unit_bytes sec) :: u64)" if "sa_perm sec \<noteq> []"
    using fits that unfolding secondary_fits_def by (metis of_nat_mult of_nat_unat)
  then show "read_tensor_range X isa ctx read header payload t name off out = Ok (window T off out)"
    using g(2,5,6,7) perm sec loop unfolding axis by (auto simp: read_tensor_range_def Let_def axis)
qed

subsection \<open>A group held by a chain of deltas\<close>

text \<open>
  \<open>holds_group X ctx name T d\<close>: in the context \<open>ctx\<close>, group \<open>name\<close> stands for the bytes \<open>T\<close>, \<open>d\<close> deltas above a
  full group. Every delta was taken against the bytes of its base group, which the base commit's manifest holds.
\<close>

inductive holds_group :: "'j Ext \<Rightarrow> ReadCtx \<Rightarrow> string \<Rightarrow> bytes \<Rightarrow> nat \<Rightarrow> bool" for X :: "'j Ext" where
  full: "\<lbrakk>rc_blocks ctx = Some blocks; rc_manifest ctx = Some m; find_group m name = Some g; ge_mode g = Full;
     ge_block g = Some oid; reads_as (bi_read_range blocks oid KRaw) T\<rbrakk> \<Longrightarrow> holds_group X ctx name T 0"
| delta: "\<lbrakk>rc_blocks ctx = Some blocks; rc_manifest ctx = Some m; find_group m name = Some g; ge_mode g = Delta;
     ge_base g = Some base; ge_diff_block g = Some oid; ge_chain_depth g \<le> rc_max_depth ctx;
     rc_history ctx = Some manifest_for; manifest_for (db_commit base) = Ok bm;
     holds_group X (ctx\<lparr>rc_manifest := Some bm\<rparr>) (db_group base) B d;
     bi_get blocks oid KDiff = Ok artifact; parse_diff_artifact X artifact = Ok (header, payload);
     find (\<lambda>t. td_name t = name) (dh_tensors header) = Some t;
     expanded_permutation header payload t (of_nat (length T div u)) = Ok eperm;
     resolve_secondary_permutation X ctx t = Ok sec;
     delta_of X t payload sec eperm u B T\<rbrakk> \<Longrightarrow> holds_group X ctx name T (Suc d)"

inductive_cases holds_group_fullE: "holds_group X ctx name T 0"

lemma holds_group_reads:
  assumes "zstd_ok X" "holds_group X ctx name T d" "d < fuel"
  shows "reads_as (read_range_impl X isa fuel ctx name) T"
  using assms(2,3)
proof (induction arbitrary: fuel rule: holds_group.induct)
  case (full ctx blocks m name g oid T)
  then obtain n where "fuel = Suc n"
    using gr0_implies_Suc by blast
  then show ?case
    using full by (simp add: reads_as_def)
next
  case (delta ctx blocks m name g base oid manifest_for bm B d artifact header payload t T u eperm sec)
  then obtain n where n: "fuel = Suc n" "d < n"
    by (cases fuel) auto
  note rd = read_tensor_range_delta [OF assms(1) delta.IH [OF n(2)] delta.hyps(16,14,15)]
  show ?case
    unfolding reads_as_def n(1)
  proof (intro allI impI)
    fix off :: u64 and out :: bytes
    assume "unat off + length out < 2 ^ 64"
    then have rt: "read_tensor_range X isa ctx (read_range_impl X isa n (ctx\<lparr>rc_manifest := Some bm\<rparr>) (db_group base)) header
        payload t (db_group base) off out = Ok (window T off out)"
      using rd by (simp only: reads_as_def)
    show "read_range_impl X isa (Suc n) ctx name off out = Ok (window T off out)"
      using delta.hyps rt by (simp add: read_delta_range_def)
  qed
qed

text \<open>
  C5: A group that was stored as a chain of deltas reads back: from any offset into any buffer, \<open>read_range\<close>
  returns exactly the bytes of the group, however the deltas were permuted, transformed and compressed, and
  on every instruction set. A fuel above the length of the chain is enough.
\<close>

theorem read_range_chain:
  assumes "zstd_ok X" "holds_group X ctx name T d" "d < fuel" "unat off + length out < 2 ^ 64"
  shows "read_range X isa fuel ctx name off out = Ok (window T off out)"
  using holds_group_reads [OF assms(1-3), of isa] assms(4) by (simp add: reads_as_def read_range_def)

subsection \<open>The depth of the recursion\<close>

text \<open>
  The chain depths of a manifest decrease along the bases, as the planner writes them: the depth of a delta is one
  more than that of its base.
\<close>

definition depths_decrease :: "(Oid \<Rightarrow> Manifest res) \<Rightarrow> Manifest \<Rightarrow> bool" where
  "depths_decrease manifest_for m \<longleftrightarrow>
     (\<forall>name g base. find_group m name = Some g \<longrightarrow> ge_mode g = Delta \<longrightarrow> ge_base g = Some base \<longrightarrow>
        0 < ge_chain_depth g \<and>
        (\<forall>bm g'. manifest_for (db_commit base) = Ok bm \<longrightarrow> find_group bm (db_group base) = Some g' \<longrightarrow>
           ge_chain_depth g' < ge_chain_depth g))"

lemma read_range_impl_fuel:
  assumes "rc_history ctx = Some h" "\<And>c m. h c = Ok m \<Longrightarrow> depths_decrease h m"
    and "rc_manifest ctx = Some m" "depths_decrease h m" "find_group m name = Some g"
    and "unat (ge_chain_depth g) < fuel" "unat (ge_chain_depth g) < fuel'"
  shows "read_range_impl X isa fuel ctx name off out = read_range_impl X isa fuel' ctx name off out"
  using assms(1,3-)
proof (induction "unat (ge_chain_depth g)" arbitrary: ctx m name g fuel fuel' off out rule: less_induct)
  case less
  obtain n n' where n: "fuel = Suc n" "fuel' = Suc n'"
    using less.prems(5,6) by (cases fuel; cases fuel') auto
  have same: "read_range_impl X isa n (ctx\<lparr>rc_manifest := Some bm\<rparr>) (db_group base) =
      read_range_impl X isa n' (ctx\<lparr>rc_manifest := Some bm\<rparr>) (db_group base)"
    if g: "ge_mode g = Delta" "ge_base g = Some base" and bm: "h (db_commit base) = Ok bm" for base bm
  proof (intro ext)
    fix off out
    have pos: "0 < n" "0 < n'"
      using less.prems(3-6) g n by (fastforce simp: depths_decrease_def word_less_nat_alt)+
    show "read_range_impl X isa n (ctx\<lparr>rc_manifest := Some bm\<rparr>) (db_group base) off out =
      read_range_impl X isa n' (ctx\<lparr>rc_manifest := Some bm\<rparr>) (db_group base) off out"
    proof (cases "find_group bm (db_group base)")
      case None
      then show ?thesis
        using pos by (cases n; cases n') (auto split: option.splits)
    next
      case (Some g')
      then have "unat (ge_chain_depth g') < unat (ge_chain_depth g)"
        using less.prems(3,4) g bm by (auto simp: depths_decrease_def word_less_nat_alt)
      then show ?thesis
        using less.hyps [of g' "ctx\<lparr>rc_manifest := Some bm\<rparr>" bm "db_group base" n n'] less.prems(1,5,6) Some
          assms(2) [OF bm] n by simp
    qed
  qed
  show ?case
    unfolding n using less.prems(1,2,4) same
    by (auto simp: read_delta_range_def split: option.splits intro!: SFS_TRY_cong)
qed

lemma fold_res_Abort: "fold_res f xs s = Abort a \<Longrightarrow> \<exists>x \<in> set xs. \<exists>s. f x s = Abort a"
  by (induction xs arbitrary: s) (auto simp: SFS_TRY_Abort_iff)

text \<open>No step but the recursion itself runs out of fuel.\<close>

named_theorems fuelled

lemma parse_diff_artifact_fuelled [fuelled]: "parse_diff_artifact X b \<noteq> Abort NoFuel"
  by (auto simp: parse_diff_artifact_def Let_def SFS_TRY_Abort_iff)

lemma read_permutation_fuelled [fuelled]: "read_permutation ref payload \<noteq> Abort NoFuel"
  by (auto simp: read_permutation_def load_perm_elem_def SFS_TRY_Abort_iff dest!: map_res_Abort split: if_splits)

lemma permute_columns_fuelled [fuelled]: "permute_columns sec u k b \<noteq> Abort NoFuel"
  by (auto simp: permute_columns_def permute_row_def permute_units_def permute_step_def SFS_TRY_Abort_iff Let_def
      dest!: fold_res_Abort split: if_splits)

lemma apply_residual_fuelled [fuelled]: "apply_residual isa kind tr dt b r out \<noteq> Abort a"
  by (auto simp: apply_residual_def Let_def split: ResidualKind.splits)

lemma gather_units_fuelled:
  "(\<And>r buf. read r buf \<noteq> Abort NoFuel) \<Longrightarrow> gather_units read perm first count u out \<noteq> Abort NoFuel"
  by (auto simp: gather_units_def gather_run_def gather_copy_def dependency_runs_def Let_def SFS_TRY_Abort_iff
      dest!: fold_res_Abort split: if_splits option.splits)

lemma gather_base_bytes_fuelled:
  assumes "\<forall>off buf. read off buf \<noteq> Abort NoFuel"
  shows "gather_base_bytes read name perm ub ue u \<noteq> Abort NoFuel"
proof -
  have "full_read name read off n buf \<noteq> Abort NoFuel" for off n buf
    using assms by (auto simp: full_read_def SFS_TRY_Abort_iff)
  then show ?thesis
    by (auto simp: gather_base_bytes_def Let_def gather_units_fuelled)
qed

lemma reconstruct_frame_fuelled:
  assumes "\<forall>off buf. read off buf \<noteq> Abort NoFuel"
  shows "reconstruct_frame X isa read name t payload eperm sec u f \<noteq> Abort NoFuel"
  using gather_base_bytes_fuelled [OF assms]
  by (auto simp: reconstruct_frame_def decompress_frame_def Let_def SFS_TRY_Abort_iff fuelled split: option.splits)

lemma resolve_secondary_permutation_fuelled:
  assumes "rc_blocks ctx = Some blocks" "\<And>oid k. bi_get blocks oid k \<noteq> Abort NoFuel"
  shows "resolve_secondary_permutation X ctx t \<noteq> Abort NoFuel"
  using assms
  by (auto simp: resolve_secondary_permutation_def owner_permutation_def Let_def SFS_TRY_Abort_iff fuelled
      split: option.splits if_splits)

lemma read_tensor_range_fuelled:
  assumes "rc_blocks ctx = Some blocks" "\<And>oid k. bi_get blocks oid k \<noteq> Abort NoFuel"
    and "\<forall>off buf. read off buf \<noteq> Abort NoFuel"
  shows "read_tensor_range X isa ctx read header payload t name off out \<noteq> Abort NoFuel"
proof -
  have "read_frame (reconstruct_frame X isa read name t payload eperm sec u) u off f s \<noteq> Abort NoFuel" for eperm sec u f s
    using reconstruct_frame_fuelled [OF assms(3), of X]
    by (cases s) (auto simp: read_frame_def Let_def SFS_TRY_Abort_iff split: if_splits)
  then have "fold_res (read_frame (reconstruct_frame X isa read name t payload eperm sec u) u off) fs s \<noteq> Abort NoFuel"
    for eperm sec u fs s
    by (blast dest: fold_res_Abort)
  moreover have "expanded_permutation header payload t n \<noteq> Abort NoFuel" for n
    by (auto simp: expanded_permutation_def Let_def SFS_TRY_Abort_iff fuelled)
  ultimately show ?thesis
    using resolve_secondary_permutation_fuelled [OF assms(1,2), of X]
    by (auto simp: read_tensor_range_def Let_def SFS_TRY_Abort_iff)
qed

text \<open>The block store and the history answer.\<close>

definition answering :: "BlockIf \<Rightarrow> (Oid \<Rightarrow> Manifest res) \<Rightarrow> bool" where
  "answering blocks manifest_for \<longleftrightarrow>
     (\<forall>oid k. bi_get blocks oid k \<noteq> Abort NoFuel) \<and> (\<forall>oid k off out. bi_read_range blocks oid k off out \<noteq> Abort NoFuel) \<and>
     (\<forall>c. manifest_for c \<noteq> Abort NoFuel)"

lemma read_range_impl_fuelled:
  assumes "rc_blocks ctx = Some blocks" "rc_history ctx = Some h" "answering blocks h"
    and "\<And>c m. h c = Ok m \<Longrightarrow> depths_decrease h m"
    and "rc_manifest ctx = Some m" "depths_decrease h m" "find_group m name = Some g" "unat (ge_chain_depth g) < fuel"
  shows "read_range_impl X isa fuel ctx name off out \<noteq> Abort NoFuel"
  using assms(1,2,5-)
proof (induction fuel arbitrary: ctx m name g off out)
  case (Suc n)
  have rec: "read_range_impl X isa n (ctx\<lparr>rc_manifest := Some bm\<rparr>) (db_group base) off out \<noteq> Abort NoFuel"
    if g: "ge_mode g = Delta" "ge_base g = Some base" and bm: "h (db_commit base) = Ok bm" for base bm off out
  proof (cases "find_group bm (db_group base)")
    case None
    have "0 < n"
      using Suc.prems(4-6) g by (fastforce simp: depths_decrease_def word_less_nat_alt)
    then show ?thesis
      using None by (cases n) (auto split: option.splits)
  next
    case (Some g')
    then have "unat (ge_chain_depth g') < n"
      using Suc.prems(4-6) g bm by (fastforce simp: depths_decrease_def word_less_nat_alt)
    then show ?thesis
      using Suc.IH [of "ctx\<lparr>rc_manifest := Some bm\<rparr>" bm "db_group base" g'] Suc.prems(1,2) assms(4) [OF bm] Some by simp
  qed
  have tensor: "read_tensor_range X isa ctx (read_range_impl X isa n (ctx\<lparr>rc_manifest := Some bm\<rparr>) (db_group base))
      header payload t name off out \<noteq> Abort NoFuel"
    if "ge_mode g = Delta" "ge_base g = Some base" "h (db_commit base) = Ok bm" for base bm header payload t name off out
    using read_tensor_range_fuelled [OF Suc.prems(1), of "read_range_impl X isa n (ctx\<lparr>rc_manifest := Some bm\<rparr>) (db_group base)"]
      rec [OF that] assms(3) by (simp add: answering_def)
  have "read_delta_range X isa (read_range_impl X isa n) ctx blocks g name off out \<noteq> Abort NoFuel" if "ge_mode g = Delta"
    using Suc.prems(1,2) assms(3) tensor [OF that]
    by (auto simp: read_delta_range_def answering_def SFS_TRY_Abort_iff fuelled split: option.splits if_splits)
  then show ?case
    using Suc.prems assms(3) by (auto simp: answering_def split: option.splits)
qed simp

text \<open>
  C31: A read ends. When the manifests' chain depths decrease along the bases, as the planner writes them, the
  recursion of a read never goes deeper than \<open>max_depth\<close> hops: \<open>max_depth + 1\<close> units of fuel are never used up, and
  more fuel never changes the result, whatever the result is. (The code checks only the depth that the manifest
  claims, so on manifests that lie about it the recursion is unbounded.)
\<close>

theorem read_range_terminates:
  assumes "rc_blocks ctx = Some blocks" "rc_history ctx = Some h" "answering blocks h"
    and "\<forall>c m. h c = Ok m \<longrightarrow> depths_decrease h m"
    and "rc_manifest ctx = Some m" "depths_decrease h m" "unat (rc_max_depth ctx) < fuel"
  shows "read_range X isa fuel ctx name off out \<noteq> Abort NoFuel \<and>
    read_range X isa fuel ctx name off out = read_range X isa (Suc (unat (rc_max_depth ctx))) ctx name off out"
proof -
  obtain n where n: "fuel = Suc n"
    using assms(7) by (cases fuel) auto
  show ?thesis
  proof (cases "find_group m name")
    case None
    then show ?thesis
      using assms(1,5) n by (simp add: read_range_def)
  next
    case (Some g)
    show ?thesis
    proof (cases "rc_max_depth ctx < ge_chain_depth g")
      case True
      then show ?thesis
        using assms(1-3,5) n Some by (auto simp: read_range_def read_delta_range_def answering_def split: option.splits)
    next
      case False
      then have "unat (ge_chain_depth g) < fuel" "unat (ge_chain_depth g) < Suc (unat (rc_max_depth ctx))"
        using assms(7) by (simp_all add: word_less_nat_alt)
      then show ?thesis
        using read_range_impl_fuelled [OF assms(1-3) _ assms(5,6) Some] assms(4)
          read_range_impl_fuel [OF assms(2) _ assms(5,6) Some]
        unfolding read_range_def by blast
    qed
  qed
qed

text \<open>
  C4: Tampering is detected. Whatever the base commit, the residual, the permutation and the history hold (also when
  they were corrupted, or the fuel is arbitrary), a read of a delta group that returns bytes returns the bytes of the
  target \<open>T\<close> whose pieces were digested into the frame index, and exactly as many as \<open>T\<close> has in the requested window.
  The only other way to succeed is a second preimage of one of the frame digests. The hypotheses speak of the manifest entry and the
  frame index alone: the index tiles the target, as \<open>encode_group\<close> writes it.
\<close>

theorem read_range_integrity:
  assumes "rc_blocks ctx = Some blocks" "rc_manifest ctx = Some m" "find_group m name = Some g" "ge_mode g = Delta"
    and "ge_diff_block g = Some oid" "bi_get blocks oid KDiff = Ok artifact"
    and "parse_diff_artifact X artifact = Ok (header, payload)"
    and "find (\<lambda>t. td_name t = name) (dh_tensors header) = Some t" "seals X t u T"
    and "unat off + length out < 2 ^ 64" "read_range X isa fuel ctx name off out = Ok res"
  shows "res = window T off out \<or> digest_collision X t u T"
proof (cases fuel)
  case 0
  then show ?thesis using assms by (simp add: read_range_def)
next
  case (Suc n)
  then obtain read base where "read_tensor_range X isa ctx read header payload t base off out = Ok res"
    using assms by (auto simp: read_range_def read_delta_range_def split: option.splits if_splits)
  then show ?thesis
    using read_tensor_range_sealed [OF assms(9) _ assms(10)] by blast
qed


subsection \<open>Whole files\<close>

lemma stream_entry_appends:
  assumes "reads_as read T" "length T < 2 ^ 62" "d \<le> length T" "length buf = kStreamChunk"
  shows "\<exists>buf'. length buf' = kStreamChunk \<and>
    stream_entry (\<lambda>s b. Ok (s @ b)) read grp (length T) d (buf, s) = Ok (buf', s @ drop d T)"
  using assms(3,4)
proof (induction "length T - d" arbitrary: d buf s rule: less_induct)
  case less
  show ?case
  proof (cases "length T \<le> d")
    case False
    define want where "want = min kStreamChunk (length T - d)"
    define b where "b = slice T d want"
    have want: "0 < want" "d + want \<le> length T" "want \<le> length buf"
      using False less.prems(2) by (auto simp: want_def kStreamChunk_def)
    have d: "unat (of_nat d :: u64) = d"
      using less.prems(1) assms(2) by (simp add: unat_of_nat_small)
    have "read (of_nat d) (take want buf) = Ok (b, of_nat want)"
      using assms(1,2) want d by (simp add: reads_as_def window_inside b_def)
    then have step: "stream_entry (\<lambda>s b. Ok (s @ b)) read grp (length T) d (buf, s) =
        stream_entry (\<lambda>s b. Ok (s @ b)) read grp (length T) (d + want) (memcpy_at buf 0 b, s @ b)"
      using False by (simp add: Let_def flip: want_def)
    have lb: "length b = want"
      using want by (simp add: b_def)
    then have "\<exists>buf'. length buf' = kStreamChunk \<and>
        stream_entry (\<lambda>s b. Ok (s @ b)) read grp (length T) (d + want) (memcpy_at buf 0 b, s @ b) =
          Ok (buf', (s @ b) @ drop (d + want) T)"
      using want less.prems(2) False by (intro less.hyps) (auto simp: memcpy_at_def)
    moreover have "b @ drop (d + want) T = drop d T"
      unfolding b_def slice_def by (metis add.commute append_take_drop_id drop_drop)
    ultimately show ?thesis
      using step by simp
  qed (use less.prems in simp)
qed

declare stream_entry.simps [simp del]

lemma holds_group_found:
  "holds_group X ctx name T d \<Longrightarrow> rc_manifest ctx = Some m \<Longrightarrow> \<exists>g. find_group m name = Some g"
  by (erule holds_group.cases) auto

definition buffer_holds :: "'j Ext \<Rightarrow> ReadCtx \<Rightarrow> nat \<Rightarrow> BufferEntry \<Rightarrow> bytes \<Rightarrow> bool" where
  "buffer_holds X ctx fuel e T \<longleftrightarrow>
     (\<exists>d < fuel. holds_group X ctx (be_group e) T d) \<and> length T = unat (be_nbytes e) \<and> length T < 2 ^ 62"

lemma stream_entries:
  assumes "zstd_ok X" "rc_manifest ctx = Some m" "list_all2 (buffer_holds X ctx fuel) es Ts" "length buf = kStreamChunk"
  shows "\<exists>buf'. fold_res (\<lambda>entry st.
      case find_group m (be_group entry) of
        None \<Rightarrow> SFS_ERR MalformedObject (be_group entry)
      | Some _ \<Rightarrow> stream_entry (\<lambda>s b. Ok (s @ b)) (read_range X isa fuel ctx (be_group entry)) (be_group entry)
                   (unat (be_nbytes entry)) 0 st) es (buf, s) = Ok (buf', s @ concat Ts)"
  using assms(3,4)
proof (induction es Ts arbitrary: buf s rule: list_all2_induct)
  case (Cons e es T Ts)
  then obtain d where d: "d < fuel" "holds_group X ctx (be_group e) T d"
    by (auto simp: buffer_holds_def)
  then obtain g where g: "d < fuel" "holds_group X ctx (be_group e) T d" "find_group m (be_group e) = Some g"
    using holds_group_found [OF d(2) assms(2)] by blast
  have T: "length T = unat (be_nbytes e)" "length T < 2 ^ 62"
    using Cons.hyps(1) by (auto simp: buffer_holds_def)
  have "reads_as (read_range X isa fuel ctx (be_group e)) T"
    using holds_group_reads [OF assms(1) g(2,1)] by (simp add: read_range_def [abs_def])
  then obtain buf' where "length buf' = kStreamChunk"
    "stream_entry (\<lambda>s b. Ok (s @ b)) (read_range X isa fuel ctx (be_group e)) (be_group e) (unat (be_nbytes e)) 0 (buf, s) =
       Ok (buf', s @ T)"
    using stream_entry_appends [OF _ T(2), of "read_range X isa fuel ctx (be_group e)" 0 buf "be_group e" s] Cons.prems T(1)
    by auto
  then show ?case
    using Cons.IH [of buf' "s @ T"] g(3) by simp
qed simp

text \<open>
  Note: Checkout is byte-exact: when every entry of the buffer names a group that holds the entry's bytes, full or through
  any chain of deltas, \<open>reconstruct_file\<close> writes the stored header block followed by those bytes in buffer order,
  whatever mixture of chunks it is streamed in.
\<close>

theorem reconstruct_file_exact:
  assumes "zstd_ok X" "rc_manifest ctx = Some m" "rc_blocks ctx = Some blocks"
    and "bi_get blocks (fi_header_block (m_file m)) KHeader = Ok H"
    and "list_all2 (buffer_holds X ctx fuel) (m_buffer m) Ts"
  shows "reconstruct_file X isa fuel ctx (\<lambda>s b. Ok (s @ b)) [] = Ok (H @ concat Ts)"
proof -
  obtain buf' where "fold_res (\<lambda>entry st.
      case find_group m (be_group entry) of
        None \<Rightarrow> SFS_ERR MalformedObject (be_group entry)
      | Some _ \<Rightarrow> stream_entry (\<lambda>s b. Ok (s @ b)) (read_range X isa fuel ctx (be_group entry)) (be_group entry)
                   (unat (be_nbytes entry)) 0 st) (m_buffer m) (replicate kStreamChunk 0, H) = Ok (buf', H @ concat Ts)"
    using stream_entries [OF assms(1,2,5), of "replicate kStreamChunk 0" isa H] by auto
  then show ?thesis
    using assms by (simp add: reconstruct_file_def)
qed

text \<open>What the loose store holds, its ranged reads return: the block store is a reader of every stored payload.\<close>

definition loose_blocks :: "'j Ext \<Rightarrow> files \<Rightarrow> BlockIf" where
  "loose_blocks X fs = \<lparr>bi_get = loose_get X fs, bi_read_range = loose_read_range X fs\<rparr>"

text \<open>
  Note: A full group written through the store reads back: when a payload is put under a new address and a manifest entry
  names that address, the group holds the payload, also after any sequence of later writes to the store.
\<close>

theorem stored_group_holds:
  assumes "storable X C T" "fs (oid_fanout_path (compute_oid (x_blake3 X) KRaw T)) = None"
    and "rc_manifest ctx = Some m" "find_group m name = Some g" "ge_mode g = Full"
    and "ge_block g = Some (compute_oid (x_blake3 X) KRaw T)"
  shows "\<exists>fs'. loose_put X C fs True KRaw T = (fs', Ok (compute_oid (x_blake3 X) KRaw T)) \<and>
    (\<forall>ops. holds_group X (ctx\<lparr>rc_blocks := Some (loose_blocks X (put_many (loose_put X C) fs' ops))\<rparr>) name T 0)"
proof -
  obtain fs' where fs': "loose_put X C fs True KRaw T = (fs', Ok (compute_oid (x_blake3 X) KRaw T))"
    and rd: "\<And>ops off out. loose_read_range X (put_many (loose_put X C) fs' ops) (compute_oid (x_blake3 X) KRaw T) KRaw off out =
          (let want = min (length out) (length T - unat off)
           in Ok (memcpy_at out 0 (slice T (unat off) want), of_nat want))"
    using loose.stored_for_good [OF assms(1), of fs KRaw] assms(2) by (auto simp: loose_contains_def)
  have "holds_group X (ctx\<lparr>rc_blocks := Some (loose_blocks X (put_many (loose_put X C) fs' ops))\<rparr>) name T 0" for ops
    by (rule holds_group.full [where g = g and m = m and oid = "compute_oid (x_blake3 X) KRaw T"
          and blocks = "loose_blocks X (put_many (loose_put X C) fs' ops)"])
      (simp_all add: assms loose_blocks_def reads_as_def rd window_def Let_def)
  then show ?thesis
    using fs' by blast
qed

subsection \<open>An example: one delta over a full group\<close>

definition example_base :: bytes where "example_base = [1, 2, 3, 4]"

definition example_target :: bytes where "example_target = [5, 6, 7, 8]"

definition example_tdiff :: TensorDiff where
  "example_tdiff = \<lparr>td_name = ''w'', td_shape = [4], td_dtype = U8, td_residual = XorAfterPermute, td_transform = TNone,
     td_frames = [\<lparr>unit_begin = 0, unit_end = 4, fr_off = 0, fr_len = 4, fr_digest = toy_blake3 example_target\<rparr>]\<rparr>"

definition example_diff_header :: DiffHeader where
  "example_diff_header = example_header\<lparr>dh_tensors := [example_tdiff]\<rparr>"

definition example_X :: "toy_json Ext" where
  "example_X = toy_ext (diff_header_json (toy_ext (TBool True)) example_diff_header)"

definition chain_manifest :: "GroupEntry \<Rightarrow> Manifest" where
  "chain_manifest g = \<lparr>m_version = 1, m_hash_algo = ''blake3'',
     m_file = \<lparr>fi_name = ''m'', fi_header_block = replicate 32 7, fi_total_bytes = 5, fi_sha256 = []\<rparr>,
     m_buffer = [\<lparr>be_tensor = ''w'', be_off = 1, be_nbytes = 4, be_group = ''w''\<rparr>], m_groups = [(''w'', g)]\<rparr>"

definition example_full :: GroupEntry where
  "example_full = \<lparr>ge_mode = Full, ge_block = Some (replicate 32 8), ge_base = None, ge_diff_block = None, ge_chain_depth = 0\<rparr>"

definition example_delta :: GroupEntry where
  "example_delta = \<lparr>ge_mode = Delta, ge_block = None, ge_base = Some \<lparr>db_commit = replicate 32 9, db_group = ''w''\<rparr>,
     ge_diff_block = Some (replicate 32 10), ge_chain_depth = 1\<rparr>"

definition example_blocks :: BlockIf where
  "example_blocks = \<lparr>
     bi_get = (\<lambda>oid k. if k = KHeader then Ok [42] else Ok (assemble_artifact [1] [4, 4, 4, 12])),
     bi_read_range = (\<lambda>oid k off out. Ok (window example_base off out))\<rparr>"

definition example_ctx :: ReadCtx where
  "example_ctx = \<lparr>rc_blocks = Some example_blocks, rc_manifest = Some (chain_manifest example_delta),
     rc_history = Some (\<lambda>c. Ok (chain_manifest example_full)), rc_max_depth = 5, rc_topology = None\<rparr>"

lemmas example_defs = example_X_def example_ctx_def example_blocks_def chain_manifest_def example_full_def
  example_delta_def find_group_def

lemma example_seals: "seals example_X example_tdiff 1 example_target"
  by (simp add: seals_def example_tdiff_def example_target_def example_X_def tensor_bytes_def digest_def frame_slice_def slice_def)

lemma example_dump: "diff_header_to_canonical_json example_X example_diff_header = Ok [1]"
proof -
  define j0 where "j0 = diff_header_json (toy_ext (TBool True)) example_diff_header"
  show ?thesis
    unfolding example_X_def j0_def [symmetric]
    by (simp add: diff_header_to_canonical_json_def diff_header_json_toy [of j0 _ "TBool True"] flip: j0_def)
qed

lemma example_parse: "parse_diff_artifact example_X (assemble_artifact [1] [4, 4, 4, 12]) = Ok (example_diff_header, [4, 4, 4, 12])"
proof -
  have wf: "wf_diff_header example_diff_header"
    by (simp add: wf_diff_header_def example_diff_header_def example_header_def example_tdiff_def identity_ref_def
        finite_double_def kOidBytes_def)
  have js: "json_ok example_X"
    by (simp add: example_X_def toy_json_ok)
  have "as_read example_diff_header = example_diff_header"
    by (simp add: as_read_def example_diff_header_def example_header_def identity_ref_def)
  then have parse: "diff_header_parse example_X [1] = Ok example_diff_header"
    using diff_header_roundtrip [OF js wf example_dump] by (simp only:)
  have "assemble_artifact [1] [4, 4, 4, 12] = le_bytes 8 (length [1 :: byte]) @ [1] @ [4, 4, 4, 12]"
    by (rule assemble_artifact_eq) simp
  then show ?thesis
    using parse_diff_artifact_split [of "[1]" example_X "[4, 4, 4, 12]"] parse by (simp only: SFS_TRY.simps) simp
qed

lemma example_delta_of: "delta_of example_X example_tdiff [4, 4, 4, 12] no_secondary [] 1 example_base example_target"
proof -
  have xor: "encode_residual Scalar XorAfterPermute U8 example_base example_target = [4, 4, 4, 12]"
    by (simp add: encode_residual_def xor_dispatch_eq xor_bytes_def xor_encode_scalar_def memcpy_at_def example_base_def example_target_def upt_rec)
  have view: "base_view no_secondary (unit_order [] (length example_target div 1)) 1 example_base = example_base"
    by (simp add: base_view_def unit_order_def row_view_def no_secondary_def example_base_def example_target_def slice_def upt_rec)
  have pieces: "frame_slice example_base 1 f = example_base" "frame_slice example_target 1 f = example_target"
    if "f \<in> set (td_frames example_tdiff)" for f
    using that by (auto simp: example_tdiff_def frame_slice_def slice_def example_base_def example_target_def)
  have "frame_encoded example_X example_tdiff [4, 4, 4, 12] 1 example_base example_target f" if "f \<in> set (td_frames example_tdiff)" for f
    using that xor unfolding frame_encoded_def pieces [OF that]
    by (auto simp: example_tdiff_def example_X_def transform_residual_def slice_def intro!: exI [of _ Scalar])
  moreover have "length example_base = length example_target" "secondary_fits no_secondary 1"
    by (simp_all add: example_base_def example_target_def secondary_fits_def no_secondary_def)
  moreover have "dtype_size (td_dtype example_tdiff) = 1"
    by (simp add: example_tdiff_def)
  ultimately show ?thesis
    using example_seals unfolding delta_of_def view by simp
qed

lemma example_holds_base:
  "holds_group example_X (example_ctx\<lparr>rc_manifest := Some (chain_manifest example_full)\<rparr>) ''w'' example_base 0"
  by (rule holds_group.full [where g = example_full and oid = "replicate 32 8" and blocks = example_blocks
        and m = "chain_manifest example_full"]) (simp_all add: example_defs reads_as_def)

lemma example_holds: "holds_group example_X example_ctx ''w'' example_target 1"
proof -
  have find: "find_group (chain_manifest example_delta) ''w'' = Some example_delta"
    by (simp add: example_defs)
  have perm: "expanded_permutation example_diff_header [4, 4, 4, 12] example_tdiff (of_nat (length example_target div 1)) = Ok []"
    by (simp add: expanded_permutation_def example_diff_header_def example_header_def identity_ref_def)
  have sec: "resolve_secondary_permutation example_X example_ctx example_tdiff = Ok no_secondary"
    by (simp add: resolve_secondary_permutation_def example_ctx_def)
  have "holds_group example_X example_ctx ''w'' example_target (Suc 0)"
    using example_holds_base example_parse
    by (intro holds_group.delta [where blocks = example_blocks and oid = "replicate 32 10"
          and base = "\<lparr>db_commit = replicate 32 9, db_group = ''w''\<rparr>", OF _ _ find _ _ _ _ _ _ _ _ _ _ perm sec example_delta_of])
      (simp_all add: example_ctx_def example_blocks_def example_delta_def example_diff_header_def example_tdiff_def)
  then show ?thesis by simp
qed

theorem read_range_chain_witness: "read_range example_X Avx2 2 example_ctx ''w'' 1 [0, 0] = Ok ([6, 7], 2)"
  using read_range_chain [OF _ example_holds, of 2 1 "[0, 0]" Avx2]
  by (simp add: example_X_def toy_zstd_ok window_def example_target_def slice_def memcpy_at_def)

theorem read_range_terminates_witness:
  "read_range example_X Avx2 9 example_ctx ''w'' 1 [0, 0] = read_range example_X Avx2 6 example_ctx ''w'' 1 [0, 0]"
proof -
  have full: "depths_decrease (\<lambda>c. Ok (chain_manifest example_full)) (chain_manifest example_full)"
    by (auto simp: depths_decrease_def example_defs split: if_splits)
  have "depths_decrease (\<lambda>c. Ok (chain_manifest example_full)) (chain_manifest example_delta)"
    by (auto simp: depths_decrease_def example_defs split: if_splits)
  moreover have "answering example_blocks (\<lambda>c. Ok (chain_manifest example_full))"
    by (simp add: answering_def example_blocks_def)
  ultimately show ?thesis
    using read_range_terminates [of example_ctx example_blocks "\<lambda>c. Ok (chain_manifest example_full)"
        "chain_manifest example_delta" 9 example_X Avx2 "''w''" 1 "[0, 0]"] full
    by (simp add: example_ctx_def)
qed

theorem read_range_integrity_witness:
  "read_range example_X Avx2 2 example_ctx ''w'' 1 [0, 0] = Ok (window example_target 1 [0, 0]) \<or>
   digest_collision example_X example_tdiff 1 example_target"
proof -
  have "read_range example_X Avx2 2 example_ctx ''w'' 1 [0, 0] = Ok (window example_target 1 [0, 0])"
    using holds_group_reads [OF _ example_holds, of 2 Avx2] by (simp add: example_X_def toy_zstd_ok reads_as_def read_range_def)
  then show ?thesis
    using read_range_integrity [OF _ _ _ _ _ _ example_parse _ example_seals, of example_ctx example_blocks
        "chain_manifest example_delta" "''w''" example_delta "replicate 32 10" 1 "[0, 0]" Avx2 2 "window example_target 1 [0, 0]"]
    by (simp add: example_ctx_def example_blocks_def find_group_def chain_manifest_def example_delta_def
        example_diff_header_def example_tdiff_def)
qed

theorem reconstruct_file_exact_witness:
  "reconstruct_file example_X Scalar 2 example_ctx (\<lambda>s b. Ok (s @ b)) [] = Ok [42, 5, 6, 7, 8]"
proof -
  have "\<exists>d < 2. holds_group example_X example_ctx ''w'' example_target d"
    using example_holds by (intro exI [of _ 1]) simp
  then have "list_all2 (buffer_holds example_X example_ctx 2) (m_buffer (chain_manifest example_delta)) [example_target]"
    by (auto simp: buffer_holds_def chain_manifest_def example_target_def)
  then show ?thesis
    using reconstruct_file_exact [of example_X example_ctx "chain_manifest example_delta" example_blocks "[42]" 2 "[example_target]" Scalar]
    by (simp add: example_X_def toy_zstd_ok example_ctx_def example_blocks_def example_target_def)
qed

theorem stored_group_holds_witness:
  "\<exists>fs. holds_group (toy_ext (TBool True)) (example_ctx\<lparr>
      rc_manifest := Some (chain_manifest (example_full\<lparr>ge_block := Some (compute_oid toy_blake3 KRaw [1, 2, 3, 4, 5])\<rparr>)),
      rc_blocks := Some (loose_blocks (toy_ext (TBool True)) fs)\<rparr>) ''w'' [1, 2, 3, 4, 5] 0"
proof -
  let ?g = "example_full\<lparr>ge_block := Some (compute_oid toy_blake3 KRaw [1, 2, 3, 4, 5])\<rparr>"
  obtain fs' where "\<forall>ops. holds_group (toy_ext (TBool True)) (example_ctx\<lparr>rc_manifest := Some (chain_manifest ?g),
      rc_blocks := Some (loose_blocks (toy_ext (TBool True)) (put_many (loose_put (toy_ext (TBool True)) 4) fs' ops))\<rparr>)
      ''w'' [1, 2, 3, 4, 5] 0"
    using stored_group_holds [OF storable_example [of "TBool True"], of Map.empty
        "example_ctx\<lparr>rc_manifest := Some (chain_manifest ?g)\<rparr>" "chain_manifest ?g" "''w''" ?g]
    by (auto simp: find_group_def chain_manifest_def example_full_def)
  then show ?thesis
    by blast
qed

end
