(* ===== verification/Codec_Encode.thy ===== *)
theory Codec_Encode
  imports Codec_Chain
begin

section \<open>Writing a diff artifact\<close>

text \<open>
  \<open>encode_group\<close> of \<open>src/modules/codec/src/diff_encoder.cpp\<close>: for every tensor whose first axis is bound to the
  permutation group, the frames of the target are read, the base is gathered in the order of the expanded
  permutation, the residual is taken, transformed, compressed and appended to the payload, and the digest of the target
  bytes goes into the frame index. \<open>ITensorSource\<close> is a record of the two calls the encoder makes. The ratio, a
  \<open>double\<close> computed from the two sizes for reporting, is left out.
  The main result: what the encoder writes is a delta in the sense of \<open>delta_of\<close>, so the reader gets the target back.
\<close>

record TensorSource =
  ts_meta :: "string \<Rightarrow> TensorMeta option"
  ts_read_units :: "string \<Rightarrow> u64 \<Rightarrow> u64 \<Rightarrow> bytes \<Rightarrow> (bytes \<times> u64) res"

record EncodeOptions =
  eo_residual :: ResidualKind
  eo_transform :: Transform
  eo_codec :: Codec
  eo_level :: int
  eo_checksum :: bool
  eo_frame_bytes :: u64
  eo_verify_round_trip :: bool

record EncodeResult =
  er_artifact :: bytes
  er_payload_bytes :: u64
  er_full_bytes :: u64

definition gather_base_units ::
  "TensorSource \<Rightarrow> string \<Rightarrow> nat list \<Rightarrow> nat \<Rightarrow> nat \<Rightarrow> u64 \<Rightarrow> bytes \<Rightarrow> bytes res" where
  "gather_base_units base name expanded_perm first count u out =
     gather_units (\<lambda>run buf. SFS_TRY (ts_read_units base name (of_nat (run_first run)) (of_nat (run_count run)) buf) (\<lambda>(b, _). Ok b))
       expanded_perm first count u out"

text \<open>The residual of one frame, with the optional check that the reader's kernel undoes it.\<close>

definition frame_residual ::
  "Isa \<Rightarrow> EncodeOptions \<Rightarrow> TensorSource \<Rightarrow> string \<Rightarrow> DType \<Rightarrow> nat list \<Rightarrow> nat \<Rightarrow> nat \<Rightarrow> u64 \<Rightarrow> bytes \<Rightarrow> bytes res" where
  "frame_residual isa opts base name dtype expanded_perm a count u target_bytes =
     (if eo_residual opts = RRaw then Ok (encode_residual isa RRaw dtype [] target_bytes)
      else SFS_TRY (gather_base_units base name expanded_perm a count u (replicate (length target_bytes) 0)) (\<lambda>base_gathered.
        let resid = encode_residual isa (eo_residual opts) dtype base_gathered target_bytes
        in if eo_verify_round_trip opts
           then SFS_TRY (apply_residual isa (eo_residual opts) TNone dtype base_gathered resid (replicate (length target_bytes) 0))
             (\<lambda>check. if check \<noteq> target_bytes then SFS_ERR Internal name else Ok resid)
           else Ok resid))"

definition encode_frame ::
  "'j Ext \<Rightarrow> Isa \<Rightarrow> EncodeOptions \<Rightarrow> TensorSource \<Rightarrow> TensorSource \<Rightarrow> string \<Rightarrow> DType \<Rightarrow> nat list \<Rightarrow> u64 \<Rightarrow> nat \<Rightarrow> nat \<Rightarrow>
   bytes \<Rightarrow> (FrameIndexEntry \<times> bytes \<times> u64) res" where
  "encode_frame X isa opts base target name dtype expanded_perm u a b payload =
     (let n = of_nat (b - a) * u
      in if 2 ^ 63 \<le> unat n then Abort Throw
      else
      SFS_TRY (ts_read_units target name (of_nat a) (of_nat (b - a)) (replicate (unat n) 0)) (\<lambda>(target_bytes, tr).
      SFS_TRY (frame_residual isa opts base name dtype expanded_perm a (b - a) u target_bytes) (\<lambda>resid.
      SFS_TRY (compress_frame X (eo_level opts) (eo_checksum opts) (transform_residual (eo_transform opts) dtype resid)) (\<lambda>comp.
      Ok (\<lparr>unit_begin = of_nat a, unit_end = of_nat b, fr_off = of_nat (length payload), fr_len = of_nat (length comp),
           fr_digest = digest (x_blake3 X) target_bytes\<rparr>, payload @ comp, tr)))))"

function encode_frames ::
  "(nat \<Rightarrow> nat \<Rightarrow> bytes \<Rightarrow> (FrameIndexEntry \<times> bytes \<times> u64) res) \<Rightarrow> nat \<Rightarrow> nat \<Rightarrow> nat \<Rightarrow>
   bytes \<times> FrameIndexEntry list \<times> u64 \<Rightarrow> (bytes \<times> FrameIndexEntry list \<times> u64) res" where
  "encode_frames enc total_units frame_units a (payload, frames, full_bytes) =
     (if total_units \<le> a \<or> frame_units = 0 then Ok (payload, frames, full_bytes)
      else SFS_TRY (enc a (min total_units (a + frame_units)) payload) (\<lambda>(entry, payload', tr).
        encode_frames enc total_units frame_units (a + frame_units) (payload', frames @ [entry], full_bytes + tr)))"
  by pat_completeness auto
termination
  by (relation "measure (\<lambda>(enc, total, fu, a, st). total - a)") auto

definition encode_tensor ::
  "'j Ext \<Rightarrow> Isa \<Rightarrow> EncodeOptions \<Rightarrow> TensorSource \<Rightarrow> TensorSource \<Rightarrow> nat list \<Rightarrow> string \<Rightarrow> AxisBinding \<Rightarrow>
   bytes \<times> TensorDiff list \<times> u64 \<Rightarrow> (bytes \<times> TensorDiff list \<times> u64) res" where
  "encode_tensor X isa opts base target permutation name binding = (\<lambda>(payload, tensors, full_bytes).
     case ts_meta target name of
       None \<Rightarrow> SFS_ERR TensorNotInBufferLayout name
     | Some meta \<Rightarrow>
         SFS_TRY (unit_bytes meta (ax_dim binding)) (\<lambda>u.
         let expanded_perm = expand permutation (unat (ax_block binding));
             total_units = length expanded_perm
         in if tm_shape meta ! ax_dim binding \<noteq> of_nat total_units then SFS_ERR BlockFactorMismatch name
            else let frame_units = max 1 (unat (eo_frame_bytes opts div max 1 u))
            in SFS_TRY (encode_frames (encode_frame X isa opts base target name (tm_dtype meta) expanded_perm u)
                 total_units frame_units 0 (payload, [], full_bytes)) (\<lambda>(payload', frames, full_bytes').
               let tdiff = \<lparr>td_name = name, td_shape = tm_shape meta, td_dtype = tm_dtype meta, td_residual = eo_residual opts,
                            td_transform = eo_transform opts, td_frames = frames\<rparr>
               in SFS_TRY (validate_tiling tdiff (of_nat total_units)) (\<lambda>_. Ok (payload', tensors @ [tdiff], full_bytes')))))"

definition dim0_binding :: "string \<Rightarrow> AxisBinding list \<Rightarrow> AxisBinding option" where
  "dim0_binding grp axes = find (\<lambda>ax. ax_dim ax = 0 \<and> ax_group ax = grp) axes"

definition encode_group ::
  "'j Ext \<Rightarrow> Isa \<Rightarrow> TensorSource \<Rightarrow> TensorSource \<Rightarrow> Topology \<Rightarrow> string \<Rightarrow> nat list \<Rightarrow> bool \<Rightarrow> AlignmentInfo \<Rightarrow>
   EncodeOptions \<Rightarrow> EncodeResult res" where
  "encode_group X isa base target topology grp permutation alignable alignment_info opts =
     (let (payload0, ref) = write_permutation [] permutation
      in SFS_TRY (fold_res (\<lambda>(name, axes) st.
             case dim0_binding grp axes of
               None \<Rightarrow> Ok st
             | Some binding \<Rightarrow> encode_tensor X isa opts base target permutation name binding st)
           (topo_tensors topology) (payload0, [], 0)) (\<lambda>(payload, tensors, full_bytes).
         SFS_TRY (diff_header_to_canonical_json X
             \<lparr>dh_version = 1, dh_group = grp, dh_codec = eo_codec opts, dh_permutation = ref, dh_tensors = tensors,
              dh_alignable = alignable, dh_alignment = alignment_info\<rparr>) (\<lambda>header_json.
         Ok \<lparr>er_artifact = assemble_artifact header_json payload, er_payload_bytes = of_nat (length payload),
             er_full_bytes = full_bytes\<rparr>)))"

subsection \<open>What a tensor source promises\<close>

definition source_reads :: "TensorSource \<Rightarrow> string \<Rightarrow> nat \<Rightarrow> bytes \<Rightarrow> bool" where
  "source_reads src name u T \<longleftrightarrow>
     (\<forall>first count buf. (unat first + unat count) * u \<le> length T \<longrightarrow> length buf = unat count * u \<longrightarrow>
        ts_read_units src name first count buf = Ok (unit_window T u (unat first) (unat count), of_nat (unat count * u)))"

lemma source_reads_at:
  assumes "source_reads src name u T" "0 < u" "length T < 2 ^ 62" "(first + count) * u \<le> length T" "length buf = count * u"
  shows "ts_read_units src name (of_nat first) (of_nat count) buf = Ok (unit_window T u first count, of_nat (count * u))"
proof -
  have "first + count \<le> (first + count) * u"
    using assms(2) by simp
  then have "first + count < 2 ^ 62"
    using le_less_trans [OF assms(4,3)] by (rule le_less_trans)
  then have un: "unat (of_nat first :: u64) = first" "unat (of_nat count :: u64) = count"
    by (simp_all add: unat_of_nat_small)
  show ?thesis
    using assms(1) [unfolded source_reads_def, rule_format, of "of_nat first" "of_nat count" buf, unfolded un, OF assms(4,5)] .
qed

lemma base_view_window:
  assumes "secondary_fits sec u" "\<forall>p \<in> set order. p < N" "length B = N * u" "a + c \<le> length order"
  shows "slice (base_view sec order u B) (a * u) (c * u) = base_view sec (slice order a c) u B"
  unfolding base_view_def using assms length_unit_row [OF assms(1) _ assms(3)]
  by (intro slice_concat_units) auto

lemma units_of_base_view:
  assumes "secondary_fits sec u" "length B = N * u" "\<forall>p \<in> set ps. p < N"
  shows "units_of (base_view sec [0..<N] u B) u ps = base_view sec ps u B"
proof -
  have "slice (base_view sec [0..<N] u B) (p * u) u = row_view sec (slice B (p * u) u)" if "p \<in> set ps" for p
  proof -
    have "p < N"
      using assms(3) that by blast
    moreover have "slice (base_view sec [0..<N] u B) (p * u) (1 * u) = base_view sec (slice [0..<N] p 1) u B"
      using \<open>p < N\<close> by (intro base_view_window [OF assms(1) _ assms(2)]) auto
    moreover have "slice [0..<N] p 1 = [p]"
      using \<open>p < N\<close> by (simp add: slice_def drop_upt)
    ultimately show ?thesis
      by (simp add: base_view_def)
  qed
  then show ?thesis
    unfolding units_of_def base_view_def [of sec ps] by (intro arg_cong [where f = concat] map_cong) auto
qed

text \<open>
  The setting of one tensor: \<open>N\<close> units of \<open>u\<close> bytes, the target \<open>T\<close>, the base \<open>B\<close> whose columns the source has permuted
  already, and the expanded permutation \<open>order\<close> of its units.
\<close>

definition encodable ::
  "EncodeOptions \<Rightarrow> TensorSource \<Rightarrow> TensorSource \<Rightarrow> string \<Rightarrow> DType \<Rightarrow> SecondaryAxis \<Rightarrow> nat list \<Rightarrow> nat \<Rightarrow> nat \<Rightarrow> bytes \<Rightarrow> bytes \<Rightarrow> bool" where
  "encodable opts base target name dt sec order N u B T \<longleftrightarrow>
     0 < u \<and> 0 < N \<and> u mod dtype_size dt = 0 \<and> length T = N * u \<and> length B = N * u \<and> N * u < 2 ^ 62 \<and> secondary_fits sec u \<and>
     length order = N \<and> (\<forall>p \<in> set order. p < N) \<and>
     source_reads base name u (base_view sec [0..<N] u B) \<and> source_reads target name u T"

lemma gather_base_units_eq:
  assumes e: "encodable opts base target name dt sec order N u B T" and a: "a + c \<le> N"
  shows "gather_base_units base name order a c (of_nat u) (replicate (c * u) 0) =
    Ok (slice (base_view sec order u B) (a * u) (c * u))"
proof -
  let ?P = "base_view sec [0..<N] u B"
  have e': "0 < u" "length B = N * u" "N * u < 2 ^ 62" "secondary_fits sec u" "length order = N" "\<forall>p \<in> set order. p < N"
    "source_reads base name u ?P" "0 < N"
    using e by (auto simp: encodable_def)
  have lenP: "length ?P = N * u"
    using length_base_view [OF e'(4) _ e'(2), of "[0..<N]"] by simp
  have rd: "reads_units (\<lambda>run buf. SFS_TRY (ts_read_units base name (of_nat (run_first run)) (of_nat (run_count run)) buf)
      (\<lambda>(b, _). Ok b)) ?P u"
    unfolding reads_units_def using source_reads_at [OF e'(7,1)] lenP e'(3) by simp
  have "c * u \<le> N * u"
    using a by (intro mult_le_mono1) simp
  then have "c * u < 2 ^ 62"
    using e'(3) by (rule le_less_trans)
  moreover have "u < 2 ^ 62"
    using e'(3,8) by (cases N) auto
  moreover have "\<forall>p \<in> set (slice order a c). Suc p * u \<le> length ?P"
    unfolding lenP using e'(6) by (auto simp: slice_def Suc_le_eq simp del: mult_Suc intro!: mult_le_mono1 dest!: in_set_takeD in_set_dropD)
  ultimately have "gather_base_units base name order a c (of_nat u) (replicate (c * u) 0) = Ok (units_of ?P u (slice order a c))"
    unfolding gather_base_units_def using e' lenP a
    by (intro gather_units_eq [OF rd]) (auto simp: not_less)
  also have "units_of ?P u (slice order a c) = base_view sec (slice order a c) u B"
    using e'(6) by (intro units_of_base_view [OF e'(4,2)]) (auto simp: slice_def dest!: in_set_takeD in_set_dropD)
  also have "\<dots> = slice (base_view sec order u B) (a * u) (c * u)"
    using a e'(5) by (intro base_view_window [symmetric, OF e'(4,6,2)]) simp
  finally show ?thesis .
qed

subsection \<open>Frames as the reader expects them\<close>

text \<open>The entry that the encoder writes for the units \<open>[a, b)\<close> and the compressed bytes it appends.\<close>

definition written_frame :: "'j Ext \<Rightarrow> nat \<Rightarrow> bytes \<Rightarrow> nat \<Rightarrow> nat \<Rightarrow> bytes \<Rightarrow> bytes \<Rightarrow> FrameIndexEntry" where
  "written_frame X u T a b payload z =
     \<lparr>unit_begin = of_nat a, unit_end = of_nat b, fr_off = of_nat (length payload), fr_len = of_nat (length z),
      fr_digest = digest (x_blake3 X) (slice T (a * u) ((b - a) * u))\<rparr>"

lemma frame_residual_eq:
  assumes e: "encodable opts base target name dt sec order N u B T" and ab: "a \<le> b" "b \<le> N"
  shows "frame_residual isa opts base name dt order a (b - a) (of_nat u) (slice T (a * u) ((b - a) * u)) =
    Ok (encode_residual isa (eo_residual opts) dt (slice (base_view sec order u B) (a * u) ((b - a) * u)) (slice T (a * u) ((b - a) * u)))"
proof -
  let ?P = "base_view sec order u B"
  have e': "length T = N * u" "length B = N * u" "secondary_fits sec u" "length order = N" "\<forall>p \<in> set order. p < N"
    "u mod dtype_size dt = 0"
    using e by (auto simp: encodable_def)
  have room: "a * u + (b - a) * u \<le> N * u"
    using mult_le_mono1 [OF ab(2), of u] ab(1) by (simp add: diff_mult_distrib)
  have lenP: "length ?P = N * u"
    using length_base_view [OF e'(3,5,2)] e'(4) by simp
  have len: "length (slice T (a * u) ((b - a) * u)) = (b - a) * u" "length (slice ?P (a * u) ((b - a) * u)) = (b - a) * u"
    using room e'(1) lenP by simp_all
  have mod: "length (slice T (a * u) ((b - a) * u)) mod dtype_size dt = 0"
    unfolding len using e'(6) by (metis mod_mult_right_eq mult_0_right mod_0)
  have gather: "gather_base_units base name order a (b - a) (of_nat u) (replicate ((b - a) * u) 0) =
      Ok (slice ?P (a * u) ((b - a) * u))"
    using ab by (intro gather_base_units_eq [OF e]) simp
  have "apply_residual isa (eo_residual opts) TNone dt (slice ?P (a * u) ((b - a) * u))
      (encode_residual isa (eo_residual opts) dt (slice ?P (a * u) ((b - a) * u)) (slice T (a * u) ((b - a) * u)))
      (replicate ((b - a) * u) 0) = Ok (slice T (a * u) ((b - a) * u))"
    using len mod by (intro apply_encoded) simp_all
  then show ?thesis
    using gather unfolding frame_residual_def len(1) by (simp add: Let_def encode_residual_def)
qed

lemma encode_frame_eq:
  assumes e: "encodable opts base target name dt sec order N u B T" and ab: "a \<le> b" "b \<le> N"
    and comp: "x_compress X (eo_level opts) (eo_checksum opts) (transform_residual (eo_transform opts) dt
      (encode_residual isa (eo_residual opts) dt (slice (base_view sec order u B) (a * u) ((b - a) * u)) (slice T (a * u) ((b - a) * u)))) =
      Some z"
  shows "encode_frame X isa opts base target name dt order (of_nat u) a b payload =
    Ok (written_frame X u T a b payload z, payload @ z, of_nat ((b - a) * u))"
proof -
  have e': "0 < u" "length T = N * u" "N * u < 2 ^ 62" "source_reads target name u T"
    using e by (auto simp: encodable_def)
  have room: "(a + (b - a)) * u \<le> length T"
    using mult_le_mono1 [OF ab(2), of u] ab(1) e'(2) by simp
  then have "(b - a) * u < 2 ^ 62"
    using e'(2,3) by (simp add: add_mult_distrib)
  then have n: "unat (of_nat (b - a) * of_nat u :: u64) = (b - a) * u" "\<not> 2 ^ 63 \<le> (b - a) * u"
    using unat_mult_small [of "b - a" u] by (simp_all del: of_nat_diff)
  have len: "length T < 2 ^ 62"
    using e'(2,3) by simp
  have rd: "ts_read_units target name (of_nat a) (of_nat (b - a)) (replicate ((b - a) * u) 0) =
      Ok (slice T (a * u) ((b - a) * u), of_nat ((b - a) * u))"
    using source_reads_at [OF e'(4,1) len room, of "replicate ((b - a) * u) 0"] by (simp only: length_replicate unit_window_def)
  show ?thesis
    unfolding encode_frame_def Let_def n(1) rd using n(2) frame_residual_eq [OF e ab] comp
    by (simp add: compress_frame_def written_frame_def)
qed

text \<open>A frame is written when it lies in the payload and its digest and residual are those of the target.\<close>

definition good_frame :: "'j Ext \<Rightarrow> TensorDiff \<Rightarrow> bytes \<Rightarrow> nat \<Rightarrow> bytes \<Rightarrow> bytes \<Rightarrow> FrameIndexEntry \<Rightarrow> bool" where
  "good_frame X t payload u P T f \<longleftrightarrow>
     fr_digest f = digest (x_blake3 X) (frame_slice T u f) \<and> frame_encoded X t payload u P T f"

lemma good_written_frame:
  assumes ab: "a \<le> b" "b < 2 ^ 62" and fit: "length (payload @ z) < 2 ^ 63"
    and comp: "x_compress X l c (transform_residual (td_transform t) (td_dtype t)
      (encode_residual isa (td_residual t) (td_dtype t) (slice P (a * u) ((b - a) * u)) (slice T (a * u) ((b - a) * u)))) = Some z"
  shows "good_frame X t (payload @ z @ tail) u P T (written_frame X u T a b payload z)"
proof -
  let ?f = "written_frame X u T a b payload z"
  have units: "unat (of_nat a :: u64) = a" "unat (of_nat b :: u64) = b"
    using ab by (simp_all add: unat_of_nat_small)
  have pos: "unat (of_nat (length payload) :: u64) = length payload" "unat (of_nat (length z) :: u64) = length z"
    using fit by (simp_all add: unat_of_nat_small)
  have pieces: "frame_slice Y u ?f = slice Y (a * u) ((b - a) * u)" for Y
    unfolding frame_slice_def written_frame_def by (simp only: FrameIndexEntry.simps units)
  have "slice (payload @ z @ tail) (unat (fr_off ?f)) (unat (fr_len ?f)) = z"
    unfolding written_frame_def by (simp only: FrameIndexEntry.simps pos) (simp add: slice_append_exact)
  moreover have "unat (fr_off ?f) + unat (fr_len ?f) \<le> length (payload @ z @ tail)"
    unfolding written_frame_def by (simp only: FrameIndexEntry.simps pos) simp
  moreover have "fr_digest ?f = digest (x_blake3 X) (frame_slice T u ?f)"
    unfolding pieces by (simp add: written_frame_def)
  ultimately show ?thesis
    using comp unfolding good_frame_def frame_encoded_def pieces by metis
qed

declare encode_frames.simps [simp del]

definition tdiff_template :: "EncodeOptions \<Rightarrow> string \<Rightarrow> u64 list \<Rightarrow> DType \<Rightarrow> FrameIndexEntry list \<Rightarrow> TensorDiff" where
  "tdiff_template opts name shape dt frames = \<lparr>td_name = name, td_shape = shape, td_dtype = dt, td_residual = eo_residual opts,
     td_transform = eo_transform opts, td_frames = frames\<rparr>"

lemma good_frame_template:
  "good_frame X (tdiff_template opts name shape dt frames) payload u P T f =
   good_frame X (tdiff_template opts name' shape' dt frames') payload u P T f"
  by (simp add: good_frame_def frame_encoded_def tdiff_template_def)

lemma encode_frames_good:
  assumes e: "encodable opts base target name dt sec order N u B T" and fu: "0 < fu"
    and total: "\<forall>b. \<exists>z. x_compress X (eo_level opts) (eo_checksum opts) b = Some z"
  shows "\<exists>ext fs. encode_frames (encode_frame X isa opts base target name dt order (of_nat u)) N fu a (payload, frames, full) =
      Ok (payload @ ext, frames @ fs, full + of_nat ((N - a) * u)) \<and> tiles fs (min a N) N \<and>
    (length (payload @ ext) < 2 ^ 63 \<longrightarrow> (\<forall>tail. \<forall>f \<in> set fs.
       good_frame X (tdiff_template opts name [] dt []) (payload @ ext @ tail) u (base_view sec order u B) T f))"
proof (induction "N - a" arbitrary: a payload frames full rule: less_induct)
  case less
  show ?case
  proof (cases "N \<le> a")
    case True
    then show ?thesis
      by (simp add: encode_frames.simps min_def)
  next
    case False
    define b where "b = min N (a + fu)"
    have ab: "a \<le> b" "b \<le> N" "a < b"
      using False fu by (auto simp: b_def)
    have e': "0 < u" "N * u < 2 ^ 62"
      using e by (auto simp: encodable_def)
    then have "N \<le> N * u"
      by simp
    then have small: "N < 2 ^ 62"
      using e'(2) by (rule le_less_trans)
    obtain z where z: "x_compress X (eo_level opts) (eo_checksum opts) (transform_residual (eo_transform opts) dt
      (encode_residual isa (eo_residual opts) dt (slice (base_view sec order u B) (a * u) ((b - a) * u)) (slice T (a * u) ((b - a) * u)))) =
      Some z"
      using total by blast
    define f where "f = written_frame X u T a b payload z"
    obtain ext fs where IH: "encode_frames (encode_frame X isa opts base target name dt order (of_nat u)) N fu (a + fu)
        (payload @ z, frames @ [f], full + of_nat ((b - a) * u)) =
        Ok ((payload @ z) @ ext, (frames @ [f]) @ fs, full + of_nat ((b - a) * u) + of_nat ((N - (a + fu)) * u))"
      "tiles fs (min (a + fu) N) N"
      "length ((payload @ z) @ ext) < 2 ^ 63 \<Longrightarrow> \<forall>tail. \<forall>f \<in> set fs.
         good_frame X (tdiff_template opts name [] dt []) ((payload @ z) @ ext @ tail) u (base_view sec order u B) T f"
      using less.hyps [of "a + fu" "payload @ z" "frames @ [f]" "full + of_nat ((b - a) * u)"] False fu by force
    have "encode_frames (encode_frame X isa opts base target name dt order (of_nat u)) N fu a (payload, frames, full) =
        encode_frames (encode_frame X isa opts base target name dt order (of_nat u)) N fu (a + fu)
          (payload @ z, frames @ [f], full + of_nat ((b - a) * u))"
      using encode_frame_eq [OF e ab(1,2) z, of payload] False fu
      by (subst encode_frames.simps) (simp add: f_def del: of_nat_mult of_nat_diff flip: b_def)
    moreover have "(b - a) * u + (N - (a + fu)) * u = (N - a) * u"
      using False by (auto simp: b_def min_def simp flip: add_mult_distrib)
    then have "full + of_nat ((b - a) * u) + of_nat ((N - (a + fu)) * u) = full + of_nat ((N - a) * u)"
      unfolding add.assoc of_nat_add [symmetric] by simp
    note IH' = IH(1) [unfolded this]
    have units: "unat (of_nat a :: u64) = a" "unat (of_nat b :: u64) = b"
      using ab small by (simp_all add: unat_of_nat_small)
    have "tiles (f # fs) (min a N) N"
      using IH(2) ab False units unfolding f_def written_frame_def tiles.simps FrameIndexEntry.simps units
      by (simp add: b_def min.commute)
    moreover have "good_frame X (tdiff_template opts name [] dt []) (payload @ z @ ext @ tail) u (base_view sec order u B) T f"
      if "length (payload @ z @ ext) < 2 ^ 63" for tail
      unfolding f_def using ab small z that
      by (intro good_written_frame [where l = "eo_level opts" and c = "eo_checksum opts" and isa = isa]) (simp_all add: tdiff_template_def)
    ultimately show ?thesis
      using IH' IH(3) by (intro exI [of _ "z @ ext"] exI [of _ "f # fs"]) (simp del: of_nat_mult of_nat_diff tiles.simps)
  qed
qed

subsection \<open>Tensors and groups\<close>

lemma tiles_contiguous: "tiles fs a b \<Longrightarrow> frames_contiguous fs"
proof (induction fs arbitrary: a rule: frames_contiguous.induct)
  case (1 f g fs)
  have "tiles (g # fs) (unat (unit_end f)) b"
    using 1(2) by simp
  then show ?case
    using 1(1) by (simp add: word_unat_eq_iff)
qed auto

lemma tiles_validate:
  assumes "tiles (td_frames t) 0 N" "0 < N" "N < 2 ^ 64"
  shows "validate_tiling t (of_nat N) = Ok ()"
proof -
  have ne: "td_frames t \<noteq> []"
    using assms(1,2) by auto
  then have "unat (unit_begin (hd (td_frames t))) = 0"
    using assms(1) by (cases "td_frames t") auto
  then have first: "unit_begin (hd (td_frames t)) = 0"
    by (simp only: unat_eq_zero)
  have "unat (of_nat N :: u64) = N"
    using assms(3) by (simp add: unat_of_nat_small)
  then have last: "unit_end (last (td_frames t)) = of_nat N"
    using tiles_last [OF assms(1) ne] by (simp only: word_unat_eq_iff)
  then show ?thesis
    using ne first tiles_contiguous [OF assms(1)] by (simp add: validate_tiling_def)
qed

text \<open>A tensor the encoder can handle: its metadata agree with the geometry and the sources.\<close>

definition tensor_ready ::
  "EncodeOptions \<Rightarrow> TensorSource \<Rightarrow> TensorSource \<Rightarrow> nat list \<Rightarrow> string \<Rightarrow> AxisBinding \<Rightarrow> TensorMeta \<Rightarrow> SecondaryAxis \<Rightarrow> nat \<Rightarrow>
   bytes \<Rightarrow> bytes \<Rightarrow> bool" where
  "tensor_ready opts base target permutation name binding meta sec u B T \<longleftrightarrow>
     (let N = length permutation * unat (ax_block binding)
      in ts_meta target name = Some meta \<and> unit_bytes meta (ax_dim binding) = Ok (of_nat u) \<and>
         tm_shape meta ! ax_dim binding = of_nat N \<and>
         foldl (*) 1 (tm_shape meta) * of_nat (dtype_size (tm_dtype meta)) = (of_nat (N * u) :: u64) \<and>
         encodable opts base target name (tm_dtype meta) sec (expand permutation (unat (ax_block binding))) N u B T)"

lemma delta_of_good_frames:
  assumes e: "encodable opts base target name dt sec order N u B T" and til: "tiles fs 0 N"
    and bytes: "foldl (*) 1 shape * of_nat (dtype_size dt) = (of_nat (N * u) :: u64)"
    and good: "\<forall>f \<in> set fs. good_frame X (tdiff_template opts name [] dt []) payload u (base_view sec order u B) T f"
    and eperm: "eperm = order \<or> eperm = [] \<and> order = [0..<N]" and fit: "length payload < 2 ^ 63"
  shows "delta_of X (tdiff_template opts name shape dt fs) payload sec eperm u B T"
proof -
  let ?t = "tdiff_template opts name shape dt fs"
  have e': "0 < u" "0 < N" "u mod dtype_size dt = 0" "length T = N * u" "length B = N * u" "N * u < 2 ^ 62" "secondary_fits sec u"
    "length order = N" "\<forall>p \<in> set order. p < N"
    using e by (auto simp: encodable_def)
  have N: "length T div u = N"
    using e' by simp
  have ord: "unit_order eperm N = order"
    using eperm e'(2,8) by (auto simp: unit_order_def)
  have g: "good_frame X ?t payload u (base_view sec order u B) T f" if "f \<in> set fs" for f
    using good that good_frame_template [of X opts name shape dt fs payload u _ T f name "[]" "[]"] by simp
  have "T \<noteq> []"
    using e' by auto
  then have "seals X ?t u T"
    unfolding seals_def N using e' til bytes g by (auto simp: tensor_bytes_def tdiff_template_def good_frame_def)
  then show ?thesis
    unfolding delta_of_def N ord using e' eperm fit g by (auto simp: tdiff_template_def good_frame_def)
qed

lemma encode_tensor_good:
  assumes r: "tensor_ready opts base target permutation name binding meta sec u B T"
    and total: "\<forall>b. \<exists>z. x_compress X (eo_level opts) (eo_checksum opts) b = Some z"
    and eperm: "eperm = expand permutation (unat (ax_block binding)) \<or>
      eperm = [] \<and> expand permutation (unat (ax_block binding)) = [0..<length permutation * unat (ax_block binding)]"
  shows "\<exists>ext fs. encode_tensor X isa opts base target permutation name binding (payload, tensors, full) =
      Ok (payload @ ext, tensors @ [tdiff_template opts name (tm_shape meta) (tm_dtype meta) fs], full + of_nat (length T)) \<and>
    (\<forall>tail. length (payload @ ext @ tail) < 2 ^ 63 \<longrightarrow>
       delta_of X (tdiff_template opts name (tm_shape meta) (tm_dtype meta) fs) (payload @ ext @ tail) sec eperm u B T)"
proof -
  define N where "N = length permutation * unat (ax_block binding)"
  define order where "order = expand permutation (unat (ax_block binding))"
  have m: "ts_meta target name = Some meta" "unit_bytes meta (ax_dim binding) = Ok (of_nat u)"
    "tm_shape meta ! ax_dim binding = of_nat N"
    "foldl (*) 1 (tm_shape meta) * of_nat (dtype_size (tm_dtype meta)) = (of_nat (N * u) :: u64)"
    and e: "encodable opts base target name (tm_dtype meta) sec order N u B T"
    using r unfolding tensor_ready_def Let_def N_def order_def by blast+
  have e': "length order = N" "0 < N" "0 < u" "N * u < 2 ^ 62" "length T = N * u"
    using e by (auto simp: encodable_def)
  have "N \<le> N * u"
    using e'(3) by simp
  then have "N < 2 ^ 62"
    using e'(4) by (rule le_less_trans)
  then have small: "N < 2 ^ 64"
    by simp
  define fu where "fu = max (Suc 0) (unat (eo_frame_bytes opts div max 1 (of_nat u)))"
  have "0 < fu"
    by (simp add: fu_def)
  from encode_frames_good [OF e this total, of isa 0 payload "[]" full]
  obtain ext fs where fr: "encode_frames (encode_frame X isa opts base target name (tm_dtype meta) order (of_nat u)) N fu 0
      (payload, [], full) = Ok (payload @ ext, fs, full + of_nat (N * u))" "tiles fs 0 N"
    "length (payload @ ext) < 2 ^ 63 \<Longrightarrow> \<forall>tail. \<forall>f \<in> set fs.
       good_frame X (tdiff_template opts name [] (tm_dtype meta) []) (payload @ ext @ tail) u (base_view sec order u B) T f"
    by (auto simp del: of_nat_mult)
  let ?t = "tdiff_template opts name (tm_shape meta) (tm_dtype meta) fs"
  have "validate_tiling ?t (of_nat N) = Ok ()"
    using fr(2) e'(2) small by (intro tiles_validate) (simp_all add: tdiff_template_def)
  then have "encode_tensor X isa opts base target permutation name binding (payload, tensors, full) =
      Ok (payload @ ext, tensors @ [?t], full + of_nat (length T))"
    unfolding encode_tensor_def using m(1,2,3) e'(1,5) fr(1)
    by (simp add: Let_def tdiff_template_def del: of_nat_mult flip: order_def fu_def)
  moreover have "delta_of X ?t (payload @ ext @ tail) sec eperm u B T" if "length (payload @ ext @ tail) < 2 ^ 63" for tail
    using that fr(2,3) eperm by (intro delta_of_good_frames [OF e _ m(4)]) (auto simp: order_def N_def)
  ultimately show ?thesis
    by blast
qed

text \<open>
  The tensors of a group, each with the geometry and the bytes that \<open>ready\<close> assigns to its name.
\<close>

definition group_ready ::
  "EncodeOptions \<Rightarrow> TensorSource \<Rightarrow> TensorSource \<Rightarrow> nat list \<Rightarrow> string \<Rightarrow> (string \<Rightarrow> TensorMeta \<times> SecondaryAxis \<times> nat \<times> bytes \<times> bytes) \<Rightarrow>
   (string \<times> AxisBinding list) list \<Rightarrow> bool" where
  "group_ready opts base target permutation grp spec ts \<longleftrightarrow>
     (\<forall>(name, axes) \<in> set ts. \<forall>binding. dim0_binding grp axes = Some binding \<longrightarrow>
        (case spec name of (meta, sec, u, B, T) \<Rightarrow>
          tensor_ready opts base target permutation name binding meta sec u B T))"

text \<open>The tensor diff of \<open>name\<close> in a list of written ones, good for the payload.\<close>

definition written_tensor ::
  "'j Ext \<Rightarrow> EncodeOptions \<Rightarrow> nat list \<Rightarrow> (string \<Rightarrow> TensorMeta \<times> SecondaryAxis \<times> nat \<times> bytes \<times> bytes) \<Rightarrow> bytes \<Rightarrow>
   string \<Rightarrow> AxisBinding \<Rightarrow> TensorDiff \<Rightarrow> bool" where
  "written_tensor X opts permutation spec payload name binding t \<longleftrightarrow>
     (case spec name of (meta, sec, u, B, T) \<Rightarrow>
        (\<exists>fs. t = tdiff_template opts name (tm_shape meta) (tm_dtype meta) fs) \<and>
        delta_of X t payload sec (if permutation = [0..<length permutation] then [] else expand permutation (unat (ax_block binding))) u B T)"

lemma expand_identity:
  assumes "n * block \<le> 2 ^ 32"
  shows "expand [0..<n] block = [0..<n * block]"
proof -
  have "is_valid_permutation [0..<n] n"
    by (simp add: is_valid_permutation_iff)
  from expand_permutation_valid(2) [OF this assms]
  have "expand_permutation [0..<n] block ! i = i" if "i < n * block" for i
    using that uniform_index [of i n block] by simp
  then show ?thesis
    unfolding expand_def by (intro nth_equalityI) simp_all
qed

lemma encode_tensors_good:
  assumes "group_ready opts base target permutation grp spec ts"
    and total: "\<forall>b. \<exists>z. x_compress X (eo_level opts) (eo_checksum opts) b = Some z"
    and small: "\<forall>(name, axes) \<in> set ts. \<forall>binding. dim0_binding grp axes = Some binding \<longrightarrow>
      length permutation * unat (ax_block binding) \<le> 2 ^ 32"
  shows "\<exists>ext tds full'. fold_res (\<lambda>(name, axes) st.
             case dim0_binding grp axes of
               None \<Rightarrow> Ok st
             | Some binding \<Rightarrow> encode_tensor X isa opts base target permutation name binding st) ts (payload, tensors, full) =
      Ok (payload @ ext, tensors @ tds, full') \<and>
    map td_name tds = map fst (filter (\<lambda>(name, axes). dim0_binding grp axes \<noteq> None) ts) \<and>
    (\<forall>tail. length (payload @ ext @ tail) < 2 ^ 63 \<longrightarrow>
       (\<forall>(name, axes) \<in> set ts. \<forall>binding. dim0_binding grp axes = Some binding \<longrightarrow>
          (\<exists>t \<in> set tds. written_tensor X opts permutation spec (payload @ ext @ tail) name binding t)))"
  using assms(1,3)
proof (induction ts arbitrary: payload tensors full)
  case (Cons x ts)
  obtain name axes where x: "x = (name, axes)"
    by fastforce
  have ready: "group_ready opts base target permutation grp spec ts"
    using Cons.prems(1) by (simp add: group_ready_def)
  have small': "\<forall>(name, axes) \<in> set ts. \<forall>binding. dim0_binding grp axes = Some binding \<longrightarrow>
      length permutation * unat (ax_block binding) \<le> 2 ^ 32"
    using Cons.prems(2) by simp
  show ?case
  proof (cases "dim0_binding grp axes")
    case None
    then show ?thesis
      using Cons.IH [OF ready small', of payload tensors full] x by simp
  next
    case (Some binding)
    obtain meta sec u B T where sp: "spec name = (meta, sec, u, B, T)"
      by (metis prod_cases5)
    then have r: "tensor_ready opts base target permutation name binding meta sec u B T"
      using Cons.prems(1) Some x by (auto simp: group_ready_def)
    define eperm where "eperm = (if permutation = [0..<length permutation] then [] else expand permutation (unat (ax_block binding)))"
    have "length permutation * unat (ax_block binding) \<le> 2 ^ 32"
      using Cons.prems(2) Some x by auto
    then have ep: "eperm = expand permutation (unat (ax_block binding)) \<or>
      eperm = [] \<and> expand permutation (unat (ax_block binding)) = [0..<length permutation * unat (ax_block binding)]"
      using expand_identity [of "length permutation" "unat (ax_block binding)"] by (auto simp: eperm_def)
    obtain ext1 fs where one: "encode_tensor X isa opts base target permutation name binding (payload, tensors, full) =
      Ok (payload @ ext1, tensors @ [tdiff_template opts name (tm_shape meta) (tm_dtype meta) fs], full + of_nat (length T))"
      "\<And>tail. length (payload @ ext1 @ tail) < 2 ^ 63 \<Longrightarrow>
       delta_of X (tdiff_template opts name (tm_shape meta) (tm_dtype meta) fs) (payload @ ext1 @ tail) sec eperm u B T"
      using encode_tensor_good [OF r total ep, of isa payload tensors full] by blast
    let ?t = "tdiff_template opts name (tm_shape meta) (tm_dtype meta) fs"
    obtain ext2 tds full' where rest: "fold_res (\<lambda>(name, axes) st.
             case dim0_binding grp axes of
               None \<Rightarrow> Ok st
             | Some binding \<Rightarrow> encode_tensor X isa opts base target permutation name binding st) ts
               (payload @ ext1, tensors @ [?t], full + of_nat (length T)) =
      Ok ((payload @ ext1) @ ext2, (tensors @ [?t]) @ tds, full')"
      "map td_name tds = map fst (filter (\<lambda>(name, axes). dim0_binding grp axes \<noteq> None) ts)"
      "\<And>tail. length ((payload @ ext1) @ ext2 @ tail) < 2 ^ 63 \<Longrightarrow>
       \<forall>(name, axes) \<in> set ts. \<forall>binding. dim0_binding grp axes = Some binding \<longrightarrow>
          (\<exists>t \<in> set tds. written_tensor X opts permutation spec ((payload @ ext1) @ ext2 @ tail) name binding t)"
      using Cons.IH [OF ready small', of "payload @ ext1" "tensors @ [?t]" "full + of_nat (length T)"] by blast
    have "written_tensor X opts permutation spec (payload @ (ext1 @ ext2) @ tail) name binding ?t"
      if "length (payload @ (ext1 @ ext2) @ tail) < 2 ^ 63" for tail
      using one(2) [of "ext2 @ tail"] that unfolding written_tensor_def sp eperm_def by auto
    then show ?thesis
      using Some one(1) rest x
      by (intro exI [of _ "ext1 @ ext2"] exI [of _ "?t # tds"] exI [of _ full'])
        (fastforce simp: tdiff_template_def)
  qed
qed simp

subsection \<open>The reader gets the target back\<close>

lemma find_by_key: "distinct (map f xs) \<Longrightarrow> x \<in> set xs \<Longrightarrow> find (\<lambda>y. f y = f x) xs = Some x"
  by (induction xs) (auto simp: rev_image_eqI)

text \<open>
  The head commit names \<open>artifact\<close> as the delta of group \<open>name\<close> over a base group that holds \<open>B\<close>.
\<close>

definition names_delta :: "'j Ext \<Rightarrow> ReadCtx \<Rightarrow> string \<Rightarrow> bytes \<Rightarrow> bytes \<Rightarrow> nat \<Rightarrow> bool" where
  "names_delta X ctx name artifact B d \<longleftrightarrow>
     (\<exists>blocks m g base oid manifest_for bm.
        rc_blocks ctx = Some blocks \<and> rc_manifest ctx = Some m \<and> find_group m name = Some g \<and> ge_mode g = Delta \<and>
        ge_base g = Some base \<and> ge_diff_block g = Some oid \<and> ge_chain_depth g \<le> rc_max_depth ctx \<and>
        rc_history ctx = Some manifest_for \<and> manifest_for (db_commit base) = Ok bm \<and>
        bi_get blocks oid KDiff = Ok artifact \<and>
        holds_group X (ctx\<lparr>rc_manifest := Some bm\<rparr>) (db_group base) B d)"

lemma expanded_permutation_written:
  assumes valid: "is_valid_permutation perm (length perm)" "length perm \<le> 2 ^ 30" "perm \<noteq> []"
    and w: "write_permutation [] perm = (payload0, ref)" and h: "dh_permutation h = ref"
    and block: "length perm * unat block \<le> 2 ^ 32"
  shows "expanded_permutation (as_read h) (payload0 @ ext) t (of_nat (length perm * unat (block :: u32))) =
    Ok (if perm = [0..<length perm] then [] else expand perm (unat block))"
proof -
  have wp: "pr_kind ref = (if perm = [0..<length perm] then PIdentity else PExplicit)"
    "pr_kind ref = PExplicit \<Longrightarrow> unat (pr_n ref) = length perm"
    "read_permutation ref (payload0 @ ext) = Ok (if perm = [0..<length perm] then [] else perm)"
    using written_permutation [OF valid(1,2), of "[]" ext] w by auto
  show ?thesis
  proof (cases "perm = [0..<length perm]")
    case True
    then show ?thesis
      using wp(1) h by (simp add: expanded_permutation_def as_read_def identity_ref_def)
  next
    case False
    then have k: "pr_kind ref = PExplicit" and n: "unat (pr_n ref) = length perm"
      using wp(1,2) by auto
    let ?N = "of_nat (length perm * unat block) :: u64"
    have un: "unat (ucast (pr_n ref) :: u64) = length perm"
      using n unsigned_less [of "pr_n ref", where ?'a = nat] by (simp add: unsigned_ucast_eq take_bit_eq_mod)
    have uN: "unat ?N = length perm * unat block"
      using block by (intro unat_of_nat_small) simp
    have pos: "0 < length perm"
      using valid(3) by simp
    have n0: "pr_n ref \<noteq> 0"
      using n pos by auto
    have "unat (?N mod ucast (pr_n ref)) = 0"
      unfolding unat_mod_distrib uN un by simp
    then have m: "?N mod ucast (pr_n ref) = 0"
      by (simp only: unat_eq_zero)
    have "unat (?N div ucast (pr_n ref)) = unat block"
      unfolding unat_div_distrib uN un using pos by simp
    then have "unat (ucast (?N div ucast (pr_n ref)) :: u32) = unat block"
      using unsigned_less [of block, where ?'a = nat] by (simp add: unsigned_ucast_eq take_bit_eq_mod del: of_nat_mult)
    then show ?thesis
      using False k wp(3) h m n0 by (simp add: expanded_permutation_def as_read_def Let_def del: of_nat_mult)
  qed
qed

lemma written_tensorD:
  assumes "written_tensor X opts perm spec payload name binding t"
  shows "\<exists>meta sec u B T fs. spec name = (meta, sec, u, B, T) \<and> t = tdiff_template opts name (tm_shape meta) (tm_dtype meta) fs \<and>
    delta_of X t payload sec (if perm = [0..<length perm] then [] else expand perm (unat (ax_block binding))) u B T"
proof -
  obtain meta sec u B T where "spec name = (meta, sec, u, B, T)"
    by (metis prod_cases5)
  then show ?thesis
    using assms by (auto simp: written_tensor_def)
qed

text \<open>
  What \<open>encode_group\<close> returns: the artifact parses to a header and a payload that contain, for every tensor of the group,
  a delta of its target against its base.
\<close>

lemma encode_group_artifact:
  assumes X: "json_ok X" "blake3_ok X" and perm: "is_valid_permutation perm (length perm)" "length perm \<le> 2 ^ 30"
    and ready: "group_ready opts base target perm grp spec (topo_tensors topo)"
    and bound: "\<forall>(name, axes) \<in> set (topo_tensors topo). \<forall>binding. dim0_binding grp axes = Some binding \<longrightarrow>
      length perm * unat (ax_block binding) \<le> 2 ^ 32"
    and total: "\<forall>b. \<exists>z. x_compress X (eo_level opts) (eo_checksum opts) b = Some z"
    and keys: "distinct (map fst (topo_tensors topo))"
    and fin: "finite_double (cost_raw info)" "finite_double (cost_normalized info)"
    and enc: "encode_group X isa base target topo grp perm alignable info opts = Ok res" "length (er_artifact res) < 2 ^ 63"
    and name: "(name, axes) \<in> set (topo_tensors topo)" "dim0_binding grp axes = Some binding"
  shows "\<exists>payload0 ref ext h t. write_permutation [] perm = (payload0, ref) \<and> dh_permutation h = ref \<and>
    parse_diff_artifact X (er_artifact res) = Ok (as_read h, payload0 @ ext) \<and>
    find (\<lambda>t. td_name t = name) (dh_tensors h) = Some t \<and> written_tensor X opts perm spec (payload0 @ ext) name binding t"
proof -
  obtain payload0 ref where w: "write_permutation [] perm = (payload0, ref)"
    by fastforce
  let ?h = "\<lambda>tds. \<lparr>dh_version = 1, dh_group = grp, dh_codec = eo_codec opts, dh_permutation = ref, dh_tensors = tds,
              dh_alignable = alignable, dh_alignment = info\<rparr>"
  let ?step = "\<lambda>(name, axes) st.
             case dim0_binding grp axes of
               None \<Rightarrow> Ok st
             | Some binding \<Rightarrow> encode_tensor X isa opts base target perm name binding st"
  from encode_tensors_good [OF ready total bound, of isa payload0 "[]" 0]
  obtain ext tds full where tds: "fold_res ?step (topo_tensors topo) (payload0, [], 0) = Ok (payload0 @ ext, [] @ tds, full)"
    "map td_name tds = map fst (filter (\<lambda>(name, axes). dim0_binding grp axes \<noteq> None) (topo_tensors topo))"
    "\<forall>tail. length (payload0 @ ext @ tail) < 2 ^ 63 \<longrightarrow>
       (\<forall>(name, axes) \<in> set (topo_tensors topo). \<forall>binding. dim0_binding grp axes = Some binding \<longrightarrow>
          (\<exists>t \<in> set tds. written_tensor X opts perm spec (payload0 @ ext @ tail) name binding t))"
    by (elim exE conjE) (rule that)
  have fold: "fold_res ?step (topo_tensors topo) (payload0, [], 0) = Ok (payload0 @ ext, tds, full)"
    using tds(1) by simp
  note names = tds(2)
  have good: "\<forall>(name, axes) \<in> set (topo_tensors topo). \<forall>binding. dim0_binding grp axes = Some binding \<longrightarrow>
          (\<exists>t \<in> set tds. written_tensor X opts perm spec (payload0 @ ext) name binding t)"
    if "length (payload0 @ ext) < 2 ^ 63"
    using tds(3) [rule_format, of "[]"] that by simp
  obtain hj where hj: "diff_header_to_canonical_json X (?h tds) = Ok hj" "er_artifact res = assemble_artifact hj (payload0 @ ext)"
    using enc(1) fold by (auto simp: encode_group_def w)
  have "length (assemble_artifact hj p) = 8 + length hj + length p" for p
    by (simp add: assemble_artifact_def Let_def store_le_u64_def memcpy_at_def)
  then have len: "length hj < 2 ^ 63" "length (payload0 @ ext) < 2 ^ 63"
    using enc(2) hj(2) by simp_all
  note good' = good [OF len(2)]
  have dist: "distinct (map td_name tds)"
    unfolding names using keys by (rule distinct_map_filter)
  have each: "\<exists>name binding. written_tensor X opts perm spec (payload0 @ ext) name binding t" if t: "t \<in> set tds" for t
  proof -
    have "td_name t \<in> set (map td_name tds)"
      using t by simp
    then obtain axes binding where "(td_name t, axes) \<in> set (topo_tensors topo)" "dim0_binding grp axes = Some binding"
      unfolding names by auto
    then obtain t' where t': "t' \<in> set tds" "written_tensor X opts perm spec (payload0 @ ext) (td_name t) binding t'"
      using good' by blast
    then have "td_name t' = td_name t"
      by (auto dest!: written_tensorD simp: tdiff_template_def)
    then have "t' = t"
      using dist t t'(1) by (metis distinct_map inj_onD)
    then show ?thesis
      using t'(2) by blast
  qed
  have "length (fr_digest f) = kOidBytes" if t: "t \<in> set tds" and f: "f \<in> set (td_frames t)" for t f
  proof -
    obtain u T where "seals X t u T"
      using each [OF t] by (auto dest!: written_tensorD simp: delta_of_def)
    then show ?thesis
      using f X(2) by (auto simp: seals_def digest_def blake3_ok_def kOidBytes_def)
  qed
  moreover have "pr_kind ref = PExplicit \<longrightarrow> pr_width ref \<in> {2, 4}"
    using written_permutation [OF perm, of "[]" "[]"] w by auto
  ultimately have wf: "wf_diff_header (?h tds)"
    using fin by (simp add: wf_diff_header_def)
  have parse: "parse_diff_artifact X (er_artifact res) = Ok (as_read (?h tds), payload0 @ ext)"
    using parse_diff_artifact_split [OF len(1) header_json_nonempty [OF X(1) wf hj(1)], of X "payload0 @ ext"]
      diff_header_roundtrip [OF X(1) wf hj(1)] len(1) hj(2)
    by (simp add: assemble_artifact_eq)
  obtain t where t: "t \<in> set tds" "written_tensor X opts perm spec (payload0 @ ext) name binding t"
    using good' name by blast
  then have "td_name t = name"
    by (auto dest!: written_tensorD simp: tdiff_template_def)
  then have "find (\<lambda>t. td_name t = name) tds = Some t"
    using find_by_key [OF dist t(1)] by simp
  then show ?thesis
    using w parse t(2) by (intro exI [of _ payload0] exI [of _ ref] exI [of _ ext] exI [of _ "?h tds"] exI [of _ t]) simp
qed

lemma encode_group_holds:
  assumes "json_ok X" "blake3_ok X" "is_valid_permutation perm (length perm)" "length perm \<le> 2 ^ 30"
    and "group_ready opts base target perm grp spec (topo_tensors topo)"
    and "\<forall>(name, axes) \<in> set (topo_tensors topo). \<forall>binding. dim0_binding grp axes = Some binding \<longrightarrow>
      length perm * unat (ax_block binding) \<le> 2 ^ 32"
    and "\<forall>b. \<exists>z. x_compress X (eo_level opts) (eo_checksum opts) b = Some z"
    and "distinct (map fst (topo_tensors topo))"
    and "finite_double (cost_raw info)" "finite_double (cost_normalized info)"
    and "encode_group X isa base target topo grp perm alignable info opts = Ok res" "length (er_artifact res) < 2 ^ 63"
    and "(name, axes) \<in> set (topo_tensors topo)" "dim0_binding grp axes = Some binding" "spec name = (meta, sec, u, B, T)"
    and "\<forall>fs. resolve_secondary_permutation X ctx (tdiff_template opts name (tm_shape meta) (tm_dtype meta) fs) = Ok sec"
    and "names_delta X ctx name (er_artifact res) B d"
  shows "holds_group X ctx name T (Suc d)"
proof -
  obtain payload0 ref ext h t where w: "write_permutation [] perm = (payload0, ref)" "dh_permutation h = ref"
    and parse: "parse_diff_artifact X (er_artifact res) = Ok (as_read h, payload0 @ ext)"
    and find: "find (\<lambda>t. td_name t = name) (dh_tensors h) = Some t"
    and t: "written_tensor X opts perm spec (payload0 @ ext) name binding t"
    using encode_group_artifact [OF assms(1-14)] by blast
  let ?ep = "if perm = [0..<length perm] then [] else expand perm (unat (ax_block binding))"
  obtain fs where tt: "t = tdiff_template opts name (tm_shape meta) (tm_dtype meta) fs"
    and delta: "delta_of X t (payload0 @ ext) sec ?ep u B T"
    using t assms(15) by (auto simp: written_tensor_def)
  have "tensor_ready opts base target perm name binding meta sec u B T"
    using assms(5,13-15) by (auto simp: group_ready_def)
  then have e: "0 < u" "0 < length perm * unat (ax_block binding)" "length T = length perm * unat (ax_block binding) * u"
    by (auto simp: tensor_ready_def encodable_def Let_def)
  then have N: "length T div u = length perm * unat (ax_block binding)" and ne: "perm \<noteq> []"
    by auto
  have "length perm * unat (ax_block binding) \<le> 2 ^ 32"
    using assms(6,13,14) by blast
  from expanded_permutation_written [OF assms(3,4) ne w this, of ext t]
  have ep: "expanded_permutation (as_read h) (payload0 @ ext) t (of_nat (length T div u)) = Ok ?ep"
    unfolding N .
  have find': "find (\<lambda>t. td_name t = name) (dh_tensors (as_read h)) = Some t"
    using find by (simp add: as_read_def)
  have sec: "resolve_secondary_permutation X ctx t = Ok sec"
    using assms(16) tt by simp
  show ?thesis
    using assms(17) unfolding names_delta_def
    by (elim exE conjE) (rule holds_group.delta [OF _ _ _ _ _ _ _ _ _ _ _ parse find' ep sec delta])
qed

text \<open>
  C3: Commit and read are inverse: take any group of tensors whose sources deliver \<open>N\<close> units of \<open>u\<close> bytes, any valid
  permutation of the group and any encoder options. When the artifact that \<open>encode_group\<close> returns is stored as the delta
  of a tensor of the group, over a base group that holds the base's bytes, then \<open>read_range\<close> returns the
  target's bytes from every offset. The secondary axis that the reader resolves must be the one the base source
  was permuted with; the compressor must accept every input and invert.
\<close>

theorem encode_read_roundtrip:
  assumes "zstd_ok X" "json_ok X" "blake3_ok X" "is_valid_permutation perm (length perm)" "length perm \<le> 2 ^ 30"
    and "group_ready opts base target perm grp spec (topo_tensors topo)"
    and "\<forall>(name, axes) \<in> set (topo_tensors topo). \<forall>binding. dim0_binding grp axes = Some binding \<longrightarrow>
      length perm * unat (ax_block binding) \<le> 2 ^ 32"
    and "\<forall>b. \<exists>z. x_compress X (eo_level opts) (eo_checksum opts) b = Some z"
    and "distinct (map fst (topo_tensors topo))"
    and "finite_double (cost_raw info)" "finite_double (cost_normalized info)"
    and "encode_group X isa base target topo grp perm alignable info opts = Ok res" "length (er_artifact res) < 2 ^ 63"
    and "(name, axes) \<in> set (topo_tensors topo)" "dim0_binding grp axes = Some binding" "spec name = (meta, sec, u, B, T)"
    and "\<forall>fs. resolve_secondary_permutation X ctx (tdiff_template opts name (tm_shape meta) (tm_dtype meta) fs) = Ok sec"
    and "names_delta X ctx name (er_artifact res) B d" "Suc d < fuel" "unat off + length out < 2 ^ 64"
  shows "read_range X isa' fuel ctx name off out = Ok (window T off out)"
  using holds_group_reads [OF assms(1) encode_group_holds [OF assms(2-18)] assms(19), of isa'] assms(20)
  by (simp add: reads_as_def read_range_def)

subsection \<open>The example, encoded\<close>

definition example_meta :: TensorMeta where
  "example_meta = \<lparr>shape_owner = ''w'', tm_shape = [4], tm_dtype = U8, data_off = 0, tm_nbytes = 4\<rparr>"

definition example_source :: "bytes \<Rightarrow> TensorSource" where
  "example_source Y = \<lparr>ts_meta = (\<lambda>name. if name = ''w'' then Some example_meta else None),
     ts_read_units = (\<lambda>name first count buf. Ok (unit_window Y 1 (unat first) (unat count), of_nat (unat count * 1)))\<rparr>"

definition example_options :: EncodeOptions where
  "example_options = \<lparr>eo_residual = XorAfterPermute, eo_transform = TNone, eo_codec = DCZstd, eo_level = 3, eo_checksum = False,
     eo_frame_bytes = 1024, eo_verify_round_trip = True\<rparr>"

definition example_binding :: AxisBinding where
  "example_binding = \<lparr>ax_dim = 0, ax_group = ''g0'', ax_block = 1\<rparr>"

definition encode_topology :: Topology where
  "encode_topology = \<lparr>topo_groups = [(''g0'', \<lparr>pg_size = 4, pinned = False\<rparr>)], topo_tensors = [(''w'', [example_binding])]\<rparr>"

definition example_alignment :: AlignmentInfo where
  "example_alignment = \<lparr>al_method = ''weight_matching_lap'', cost_raw = 0, cost_normalized = 0\<rparr>"

lemma example_expand: "expand [0, 1, 2, 3] 1 = [0, 1, 2, 3]"
  by (simp add: expand_def expand_permutation_def)

lemma example_view: "base_view no_secondary [0, 1, 2, 3] 1 example_base = example_base"
  by (simp add: base_view_def row_view_def no_secondary_def example_base_def slice_def)

lemma example_encodable:
  "encodable example_options (example_source example_base) (example_source example_target) ''w'' U8 no_secondary
     [0, 1, 2, 3] 4 1 example_base example_target"
proof -
  have upt: "[0..<4] = [0, 1, 2, 3 :: nat]"
    by (simp add: upt_rec)
  show ?thesis
    unfolding encodable_def upt example_view
    by (simp add: source_reads_def example_source_def secondary_fits_def no_secondary_def example_base_def example_target_def)
qed

lemma example_facts:
  "ts_meta (example_source Y) ''w'' = Some example_meta" "unit_bytes example_meta (ax_dim example_binding) = Ok 1"
  "unat (ax_block example_binding) = 1" "tm_shape example_meta ! ax_dim example_binding = 4" "tm_dtype example_meta = U8"
  "tm_shape example_meta = [4]"
  by (simp_all add: example_source_def example_meta_def example_binding_def unit_bytes_def)

lemma example_ready:
  "tensor_ready example_options (example_source example_base) (example_source example_target) [0, 1, 2, 3] ''w'' example_binding
     example_meta no_secondary 1 example_base example_target"
proof -
  have N: "length [0, 1, 2, 3 :: nat] * 1 = 4"
    by simp
  show ?thesis
    unfolding tensor_ready_def Let_def example_facts(1-5) N example_expand
    using example_encodable by (simp add: example_facts)
qed

lemma example_options_fields:
  "eo_residual example_options = XorAfterPermute" "eo_transform example_options = TNone" "eo_codec example_options = DCZstd"
  "eo_frame_bytes example_options = 1024"
  by (simp_all add: example_options_def)

lemma example_frame:
  "encode_frame example_X Scalar example_options (example_source example_base) (example_source example_target) ''w'' U8 [0, 1, 2, 3] 1 0 4 [] =
   Ok (hd (td_frames example_tdiff), [4, 4, 4, 12], 4)"
proof -
  have "x_compress example_X (eo_level example_options) (eo_checksum example_options) (transform_residual (eo_transform example_options) U8
      (encode_residual Scalar (eo_residual example_options) U8 (slice (base_view no_secondary [0, 1, 2, 3] 1 example_base) (0 * 1) ((4 - 0) * 1))
        (slice example_target (0 * 1) ((4 - 0) * 1)))) = Some [4, 4, 4, 12]"
    unfolding example_view
    by (simp add: example_X_def example_options_def transform_residual_def encode_residual_def xor_encode_scalar_def xor_bytes_def
        memcpy_at_def slice_def example_base_def example_target_def upt_rec)
  from encode_frame_eq [OF example_encodable _ _ this, of "[]"] show ?thesis
    by (simp add: written_frame_def example_tdiff_def example_X_def digest_def slice_def example_target_def)
qed

lemma example_encoded:
  "encode_group example_X Scalar (example_source example_base) (example_source example_target) encode_topology ''g0'' [0, 1, 2, 3] True
     example_alignment example_options =
   Ok \<lparr>er_artifact = assemble_artifact [1] [4, 4, 4, 12], er_payload_bytes = 4, er_full_bytes = 4\<rparr>"
proof -
  have w: "write_permutation [] [0, 1, 2, 3] = ([], identity_ref\<lparr>pr_n := 4\<rparr>)"
    by (simp add: write_permutation_def upt_rec)
  have frames: "encode_frames (encode_frame example_X Scalar example_options (example_source example_base) (example_source example_target)
      ''w'' U8 [0, 1, 2, 3] 1) (Suc (Suc (Suc (Suc 0)))) 1024 0 ([], [], 0) = Ok ([4, 4, 4, 12], td_frames example_tdiff, 4)"
    using example_frame by (simp add: encode_frames.simps example_tdiff_def eval_nat_numeral(2,3))
  have fu: "max 1 (unat (1024 div max 1 (1 :: u64))) = 1024"
    by simp
  have "validate_tiling example_tdiff 4 = Ok ()"
    by (simp add: validate_tiling_def example_tdiff_def)
  then have tensor: "encode_tensor example_X Scalar example_options (example_source example_base) (example_source example_target) [0, 1, 2, 3]
      ''w'' example_binding ([], [], 0) = Ok ([4, 4, 4, 12], [example_tdiff], 4)"
    using frames fu
    by (simp add: encode_tensor_def example_facts example_expand Let_def example_options_fields del: One_nat_def)
      (simp add: example_tdiff_def example_binding_def)
  have "diff_header_json example_X \<lparr>dh_version = 1, dh_group = ''g0'', dh_codec = DCZstd, dh_permutation = identity_ref\<lparr>pr_n := 4\<rparr>,
      dh_tensors = [example_tdiff], dh_alignable = True, dh_alignment = example_alignment\<rparr> = diff_header_json example_X example_diff_header"
    by (simp add: diff_header_json_def permutation_ref_to_json_def identity_ref_def example_diff_header_def example_header_def
        example_alignment_def)
  then have json: "diff_header_to_canonical_json example_X \<lparr>dh_version = 1, dh_group = ''g0'', dh_codec = DCZstd,
      dh_permutation = identity_ref\<lparr>pr_n := 4\<rparr>, dh_tensors = [example_tdiff], dh_alignable = True, dh_alignment = example_alignment\<rparr> = Ok [1]"
    using example_dump by (simp add: diff_header_to_canonical_json_def)
  have "dim0_binding ''g0'' [example_binding] = Some example_binding"
    by (simp add: dim0_binding_def example_binding_def)
  then show ?thesis
    using tensor json by (simp add: encode_group_def w encode_topology_def example_options_fields del: One_nat_def)
qed

theorem encode_read_roundtrip_witness: "read_range example_X Avx2 3 example_ctx ''w'' 2 [0, 0, 0] = Ok ([7, 8, 0], 2)"
proof -
  let ?spec = "\<lambda>name. (example_meta, no_secondary, 1, example_base, example_target)"
  have bind: "dim0_binding ''g0'' [example_binding] = Some example_binding"
    by (simp add: dim0_binding_def example_binding_def)
  have ready: "group_ready example_options (example_source example_base) (example_source example_target) [0, 1, 2, 3] ''g0'' ?spec
      (topo_tensors encode_topology)"
    using example_ready bind by (simp add: group_ready_def encode_topology_def)
  have "holds_group example_X (example_ctx\<lparr>rc_manifest := Some (chain_manifest example_full)\<rparr>) ''w'' example_base 0"
    by (rule example_holds_base)
  then have names: "names_delta example_X example_ctx ''w'' (assemble_artifact [1] [4, 4, 4, 12]) example_base 0"
    unfolding names_delta_def by (simp add: example_ctx_def example_blocks_def example_delta_def chain_manifest_def find_group_def)
  have "is_valid_permutation [0, 1, 2, 3] (length [0, 1, 2, 3 :: nat])"
    by (simp add: is_valid_permutation_def eval_nat_numeral)
  moreover have "length (assemble_artifact [1] [4, 4, 4, 12]) < 2 ^ 63"
    by (simp add: assemble_artifact_eq)
  moreover have "\<forall>fs. resolve_secondary_permutation example_X example_ctx
      (tdiff_template example_options ''w'' (tm_shape example_meta) (tm_dtype example_meta) fs) = Ok no_secondary"
    by (simp add: resolve_secondary_permutation_def example_ctx_def)
  moreover have "\<forall>b. \<exists>z. x_compress example_X (eo_level example_options) (eo_checksum example_options) b = Some z"
    by (simp add: example_X_def)
  moreover have "finite_double (cost_raw example_alignment)" "finite_double (cost_normalized example_alignment)"
    by (simp_all add: example_alignment_def finite_double_def)
  moreover have "zstd_ok example_X" "json_ok example_X" "blake3_ok example_X"
    by (simp_all add: example_X_def toy_zstd_ok toy_json_ok toy_blake3_ok)
  ultimately have "read_range example_X Avx2 3 example_ctx ''w'' 2 [0, 0, 0] = Ok (window example_target 2 [0, 0, 0])"
    using bind names example_encoded ready example_facts(3)
    by (intro encode_read_roundtrip [where perm = "[0, 1, 2, 3]" and spec = ?spec and binding = example_binding
          and res = "\<lparr>er_artifact = assemble_artifact [1] [4, 4, 4, 12], er_payload_bytes = 4, er_full_bytes = 4\<rparr>"
          and axes = "[example_binding]" and topo = encode_topology and grp = "''g0''" and d = 0])
      (simp_all add: encode_topology_def)
  then show ?thesis
    by (simp add: window_def example_target_def slice_def memcpy_at_def)
qed

end
