(* ===== verification/Store_Refs.thy ===== *)
theory Store_Refs
  imports Store_Loose "HOL-Library.AList"
begin

section \<open>Branch refs and HEAD\<close>

text \<open>
  \<open>src/modules/store/src/refs.cpp\<close>. The state is what the store keeps on disk: the text of \<open>HEAD\<close>, if there is one, and the
  files below \<open>refs/heads\<close> as an association list from the path relative to that directory to the text, in directory order.
  A branch name is taken as a relative path, without normalising \<open>..\<close> or a leading slash; \<open>a/b\<close> makes \<open>a\<close> a directory, which exists
  and reads as empty. The answer of the operating system to \<open>util::atomic_write\<close> is the argument \<open>w\<close>; what a failed or
  interrupted write leaves behind is the subject of \<open>Util_Atomic\<close>.
\<close>

record RefFiles =
  rf_head :: "string option"
  rf_heads :: "(string \<times> string) list"

record Ref =
  ref_name :: string
  ref_target :: Oid

record Head =
  hd_symbolic :: "string option"
  hd_detached :: "Oid option"

abbreviation refs_prefix :: string where
  "refs_prefix \<equiv> ''refs/heads/''"

definition newline :: string where
  "newline = [CHR 0x0A]"

definition trim_eol :: "string \<Rightarrow> string" where
  "trim_eol s = rev (dropWhile (\<lambda>c. c = CHR 0x0A \<or> c = CHR 0x0D) (rev s))"

definition is_dir :: "RefFiles \<Rightarrow> string \<Rightarrow> bool" where
  "is_dir R p \<longleftrightarrow> p = [] \<or> (\<exists>(q, _) \<in> set (rf_heads R). take (Suc (length p)) q = p @ ''/'')"

definition ref_exists :: "RefFiles \<Rightarrow> string \<Rightarrow> bool" where
  "ref_exists R p \<longleftrightarrow> map_of (rf_heads R) p \<noteq> None \<or> is_dir R p"

definition read_trimmed :: "RefFiles \<Rightarrow> string \<Rightarrow> string res" where
  "read_trimmed R p =
     (case map_of (rf_heads R) p of
        Some text \<Rightarrow> Ok (trim_eol text)
      | None \<Rightarrow> if is_dir R p then Ok [] else SFS_ERR RefNotFound p)"

definition write_line :: "RefFiles \<Rightarrow> bool \<Rightarrow> string \<Rightarrow> string \<Rightarrow> RefFiles \<times> unit res" where
  "write_line R w p line =
     (if w then (R\<lparr>rf_heads := AList.update p (line @ newline) (rf_heads R)\<rparr>, Ok ()) else (R, SFS_ERR Io p))"

definition branch_ref_path :: "string \<Rightarrow> string" where
  "branch_ref_path name_or_ref =
     (if take (length refs_prefix) name_or_ref = refs_prefix then drop (length refs_prefix) name_or_ref else name_or_ref)"

definition read_head :: "RefFiles \<Rightarrow> Head res" where
  "read_head R =
     (case rf_head R of
        None \<Rightarrow> SFS_ERR RefNotFound ''HEAD''
      | Some text \<Rightarrow>
          let content = trim_eol text
          in if take 5 content = ''ref: '' then Ok \<lparr>hd_symbolic = Some (drop 5 content), hd_detached = None\<rparr>
             else SFS_TRY (oid_parse content) (\<lambda>oid. Ok \<lparr>hd_symbolic = None, hd_detached = Some oid\<rparr>))"

definition set_head :: "RefFiles \<Rightarrow> bool \<Rightarrow> string \<Rightarrow> RefFiles \<times> unit res" where
  "set_head R w line = (if w then (R\<lparr>rf_head := Some (line @ newline)\<rparr>, Ok ()) else (R, SFS_ERR Io ''HEAD''))"

definition set_head_symbolic :: "RefFiles \<Rightarrow> bool \<Rightarrow> string \<Rightarrow> RefFiles \<times> unit res" where
  "set_head_symbolic R w name = set_head R w (''ref: '' @ name)"

definition set_head_detached :: "RefFiles \<Rightarrow> bool \<Rightarrow> Oid \<Rightarrow> RefFiles \<times> unit res" where
  "set_head_detached R w oid = set_head R w (oid_to_string oid)"

text \<open>
  \<open>objects\<close> lists the object directory as (fan-out directory, file name) pairs. The recursion of \<open>rev_parse\<close> through \<open>HEAD\<close> carries fuel.
\<close>

definition matches_abbrev :: "string \<Rightarrow> string \<times> string \<Rightarrow> Oid option" where
  "matches_abbrev hex_prefix = (\<lambda>(top, leaf).
     if length hex_prefix \<ge> 2 \<and> top \<noteq> take 2 hex_prefix then None
     else if take (length hex_prefix) (top @ leaf) = hex_prefix
     then (case oid_parse (''b3:'' @ top @ leaf) of Ok oid \<Rightarrow> Some oid | _ \<Rightarrow> None)
     else None)"

definition resolve_abbrev :: "(string \<times> string) list \<Rightarrow> string \<Rightarrow> Oid res" where
  "resolve_abbrev objects spec =
     (case List.map_filter (matches_abbrev (drop 3 spec)) objects of
        [oid] \<Rightarrow> Ok oid
      | [] \<Rightarrow> SFS_ERR RefNotFound spec
      | _ \<Rightarrow> SFS_ERR MalformedObject spec)"

fun rev_parse :: "nat \<Rightarrow> (string \<times> string) list \<Rightarrow> RefFiles \<Rightarrow> string \<Rightarrow> Oid res" where
  "rev_parse 0 objects R spec = Abort NoFuel"
| "rev_parse (Suc n) objects R spec =
     (if spec = ''HEAD'' then
        SFS_TRY (read_head R) (\<lambda>h.
          case hd_detached h of
            Some oid \<Rightarrow> Ok oid
          | None \<Rightarrow> (case hd_symbolic h of Some s \<Rightarrow> rev_parse n objects R s | None \<Rightarrow> Abort UB))
      else if ref_exists R (branch_ref_path spec)
      then SFS_TRY (read_trimmed R (branch_ref_path spec)) oid_parse
      else if take 3 spec = ''b3:'' then
        (if length spec = 3 + kOidHexChars then oid_parse spec else resolve_abbrev objects spec)
      else SFS_ERR RefNotFound spec)"

definition resolve :: "nat \<Rightarrow> (string \<times> string) list \<Rightarrow> RefFiles \<Rightarrow> string \<Rightarrow> Oid res" where
  "resolve fuel objects R name_or_oid = rev_parse fuel objects R name_or_oid"

definition list_heads :: "RefFiles \<Rightarrow> Ref list" where
  "list_heads R = List.map_filter (\<lambda>(p, text).
     if CHR ''/'' \<in> set p then None
     else case oid_parse (trim_eol text) of Ok oid \<Rightarrow> Some \<lparr>ref_name = p, ref_target = oid\<rparr> | _ \<Rightarrow> None) (rf_heads R)"

definition ref_update :: "RefFiles \<Rightarrow> bool \<Rightarrow> string \<Rightarrow> Oid option \<Rightarrow> Oid \<Rightarrow> RefFiles \<times> unit res" where
  "ref_update R w name expected desired =
     (let p = branch_ref_path name
      in case expected of
           Some e \<Rightarrow>
             if \<not> ref_exists R p then (R, SFS_ERR RefRaceLost name)
             else (case read_trimmed R p of
                     Ok current \<Rightarrow> if current \<noteq> oid_to_string e then (R, SFS_ERR RefRaceLost name)
                                   else write_line R w p (oid_to_string desired)
                   | Err er \<Rightarrow> (R, Err er)
                   | Abort a \<Rightarrow> (R, Abort a))
         | None \<Rightarrow> if ref_exists R p then (R, SFS_ERR RefRaceLost name) else write_line R w p (oid_to_string desired))"

definition create_branch :: "RefFiles \<Rightarrow> bool \<Rightarrow> string \<Rightarrow> Oid \<Rightarrow> RefFiles \<times> unit res" where
  "create_branch R w name at = ref_update R w name None at"

text \<open>\<open>u\<close> is the answer of the operating system to the removal.\<close>

definition delete_branch :: "RefFiles \<Rightarrow> bool \<Rightarrow> string \<Rightarrow> bool \<Rightarrow> RefFiles \<times> unit res" where
  "delete_branch R u name force =
     (let p = branch_ref_path name
      in if \<not> ref_exists R p then (R, SFS_ERR RefNotFound name)
         else if \<not> u then (R, SFS_ERR Io name)
         else (R\<lparr>rf_heads := AList.delete p (rf_heads R)\<rparr>, Ok ()))"

section \<open>Compare-and-swap\<close>

text \<open>
  The contract that commits, merges and pulls rely on: a named register that is advanced only from the value its caller saw.
  \<open>holds s k e\<close> says that register \<open>k\<close> has the value \<open>e\<close>, absent when \<open>e\<close> is \<open>None\<close>.
\<close>

locale cas_register =
  fixes holds :: "'s \<Rightarrow> string \<Rightarrow> Oid option \<Rightarrow> bool"
    and update :: "'s \<Rightarrow> bool \<Rightarrow> string \<Rightarrow> Oid option \<Rightarrow> Oid \<Rightarrow> 's \<times> unit res"
  assumes holds_unique: "holds s k e \<Longrightarrow> holds s k e' \<Longrightarrow> e = e'"
    and update_applies: "holds s k e \<Longrightarrow> wf_oid d \<Longrightarrow> \<exists>s'. update s True k e d = (s', Ok ())"
    and update_ok: "update s w k e d = (s', Ok ()) \<Longrightarrow> list_all wf_oid (d # (case e of None \<Rightarrow> [] | Some v \<Rightarrow> [v])) \<Longrightarrow>
      holds s k e \<and> holds s' k (Some d)"
    and update_fails: "update s w k e d = (s', r) \<Longrightarrow> r \<noteq> Ok () \<Longrightarrow> s' = s"
begin

text \<open>Of two writers that saw the same value, only the first advances the register.\<close>

lemma lost_race:
  assumes "update s w k e d = (s', Ok ())" "wf_oid d" "\<forall>v. e = Some v \<longrightarrow> wf_oid v" "e \<noteq> Some d" "wf_oid d'"
  shows "\<exists>r. update s' w' k e d' = (s', r) \<and> r \<noteq> Ok ()"
proof -
  have wf: "list_all wf_oid (x # (case e of None \<Rightarrow> [] | Some v \<Rightarrow> [v]))" if "wf_oid x" for x
    using that assms(3) by (cases e) auto
  then have h: "holds s' k (Some d)"
    using update_ok [OF assms(1)] assms(2) by simp
  obtain s2 r where u: "update s' w' k e d' = (s2, r)"
    by fastforce
  have "r \<noteq> Ok ()"
    using update_ok [of s' w' k e d' s2] u h holds_unique [of s' k e "Some d"] assms(4) wf [OF assms(5)] by auto
  then show ?thesis
    using u update_fails by blast
qed

end

lemma trim_eol_newline: "s = [] \<or> last s \<notin> {CHR 0x0A, CHR 0x0D} \<Longrightarrow> trim_eol (s @ newline) = s"
  by (cases s rule: rev_cases) (auto simp: trim_eol_def newline_def)

lemma set_hex_bytes: "set (hex_bytes bs) \<subseteq> set kHex"
proof -
  have "length kHex = 16"
    by (simp add: kHex_def)
  then show ?thesis
    by (auto simp: hex_bytes_def hex_byte_def unat_nibbles intro!: nth_mem)
qed

lemma trim_oid [simp]: "trim_eol (oid_to_string oid @ newline) = oid_to_string oid"
proof (rule trim_eol_newline)
  have "last (oid_to_string oid) \<in> set (oid_to_string oid)"
    by (rule last_in_set) (simp add: oid_to_string_def)
  also have "\<dots> \<subseteq> set (''b3:'' @ kHex)"
    using set_hex_bytes by (auto simp: oid_to_string_def)
  finally show "oid_to_string oid = [] \<or> last (oid_to_string oid) \<notin> {CHR 0x0A, CHR 0x0D}"
    by (auto simp: kHex_def)
qed

definition ref_holds :: "RefFiles \<Rightarrow> string \<Rightarrow> Oid option \<Rightarrow> bool" where
  "ref_holds R name e \<longleftrightarrow>
     (case e of
        None \<Rightarrow> \<not> ref_exists R (branch_ref_path name)
      | Some oid \<Rightarrow> wf_oid oid \<and>
          (\<exists>text. map_of (rf_heads R) (branch_ref_path name) = Some text \<and> trim_eol text = oid_to_string oid))"

lemma oid_to_string_inj: "wf_oid a \<Longrightarrow> wf_oid b \<Longrightarrow> oid_to_string a = oid_to_string b \<Longrightarrow> a = b"
  by (metis oid_parse_to_string res.inject(1))

lemma oid_to_string_nonempty [simp]: "oid_to_string a \<noteq> []" "[] \<noteq> oid_to_string a"
  by (simp_all add: oid_to_string_def)

lemma ref_update_cases:
  assumes "\<forall>v. e = Some v \<longrightarrow> wf_oid v"
  shows "ref_update R w name e d =
    (if ref_holds R name e then write_line R w (branch_ref_path name) (oid_to_string d) else (R, SFS_ERR RefRaceLost name))"
  using assms by (auto simp: ref_update_def ref_holds_def read_trimmed_def ref_exists_def Let_def split: option.splits)

interpretation refs: cas_register ref_holds ref_update
proof
  fix s k e e'
  assume "ref_holds s k e" "ref_holds s k e'"
  then show "e = e'"
    by (auto simp: ref_holds_def ref_exists_def split: option.splits intro: oid_to_string_inj)
next
  fix s k e d
  assume "ref_holds s k e" "wf_oid d"
  then show "\<exists>s'. ref_update s True k e d = (s', Ok ())"
    by (subst ref_update_cases) (auto simp: ref_holds_def write_line_def)
next
  fix s s' w k e d
  assume "ref_update s w k e d = (s', Ok ())" "list_all wf_oid (d # (case e of None \<Rightarrow> [] | Some v \<Rightarrow> [v]))"
  then show "ref_holds s k e \<and> ref_holds s' k (Some d)"
    by (subst (asm) ref_update_cases) (auto simp: write_line_def ref_holds_def update_conv' split: if_splits)
next
  fix s s' w k e d r
  assume "ref_update s w k e d = (s', r)" "r \<noteq> Ok ()"
  then show "s' = s"
    by (auto simp: ref_update_def write_line_def Let_def split: option.splits res.splits if_splits)
qed

section \<open>What the operations promise\<close>


lemma read_head_cases:
  obtains (bad) e where "read_head R = Err e"
    | (symbolic) s where "read_head R = Ok \<lparr>hd_symbolic = Some s, hd_detached = None\<rparr>"
    | (detached) oid where "read_head R = Ok \<lparr>hd_symbolic = None, hd_detached = Some oid\<rparr>"
proof (cases "rf_head R")
  case (Some line)
  then show ?thesis
    using bad symbolic detached
    by (cases "take 5 (trim_eol line) = ''ref: ''"; cases "oid_parse (trim_eol line)") (simp_all add: read_head_def Let_def)
qed (use bad in \<open>simp add: read_head_def\<close>)

lemma head_apart [simp]:
  "is_dir (R\<lparr>rf_head := h\<rparr>) p = is_dir R p"
  "ref_exists (R\<lparr>rf_head := h\<rparr>) p = ref_exists R p"
  "read_trimmed (R\<lparr>rf_head := h\<rparr>) p = read_trimmed R p"
proof -
  show "is_dir (R\<lparr>rf_head := h\<rparr>) p = is_dir R p" for p
    by (simp add: is_dir_def)
  then show "ref_exists (R\<lparr>rf_head := h\<rparr>) p = ref_exists R p" "read_trimmed (R\<lparr>rf_head := h\<rparr>) p = read_trimmed R p"
    by (simp_all add: ref_exists_def read_trimmed_def)
qed

text \<open>
  Note: \<open>rev_parse\<close> ends: two levels are enough for every name and every content of the refs, except that a HEAD which points at
  \<open>HEAD\<close> makes the lookup of HEAD recurse for ever.
\<close>

theorem rev_parse_terminates:
  "if spec = ''HEAD'' \<and> read_head R = Ok \<lparr>hd_symbolic = Some ''HEAD'', hd_detached = None\<rparr>
   then rev_parse n objects R spec = Abort NoFuel
   else rev_parse (Suc (Suc n)) objects R spec = rev_parse 2 objects R spec \<and> rev_parse 2 objects R spec \<noteq> Abort NoFuel"
proof (cases "spec = ''HEAD'' \<and> read_head R = Ok \<lparr>hd_symbolic = Some ''HEAD'', hd_detached = None\<rparr>")
  case True
  then show ?thesis
    by (induction n) auto
next
  case False
  have stop: "rev_parse (Suc m) objects R s = rev_parse (Suc 0) objects R s \<and> rev_parse (Suc 0) objects R s \<noteq> Abort NoFuel"
    if "s \<noteq> ''HEAD''" for m s
    using that by (auto simp: read_trimmed_def resolve_abbrev_def oid_parse_not_Abort split: option.splits list.splits)
  show ?thesis
  proof (cases "spec = ''HEAD''")
    case True
    then show ?thesis
      using False stop by (cases R rule: read_head_cases) (auto simp: numeral_2_eq_2 simp del: rev_parse.simps(1))
  next
    case other: False
    then show ?thesis
      using stop [of spec "Suc n"] stop [of spec "Suc 0"] False by (simp add: numeral_2_eq_2 del: rev_parse.simps)
  qed
qed

text \<open>
  Note: HEAD round trip: after \<open>set_head_symbolic\<close> the name is read back as the branch HEAD points at, after \<open>set_head_detached\<close>
  the object id is, and resolving HEAD gives the value of that branch or that object id; no branch is touched.
\<close>

theorem set_head_roundtrip:
  assumes "wf_oid oid" "name \<noteq> []" "last name \<notin> {CHR 0x0A, CHR 0x0D}" "name \<noteq> ''HEAD''"
  shows "(case set_head_symbolic R True name of (R', r) \<Rightarrow> r = Ok () \<and> rf_heads R' = rf_heads R \<and>
      read_head R' = Ok \<lparr>hd_symbolic = Some name, hd_detached = None\<rparr> \<and>
      resolve (Suc (Suc n)) objects R' ''HEAD'' = resolve (Suc n) objects R name) \<and>
    (case set_head_detached R True oid of (R', r) \<Rightarrow> r = Ok () \<and> rf_heads R' = rf_heads R \<and>
      read_head R' = Ok \<lparr>hd_symbolic = None, hd_detached = Some oid\<rparr> \<and> resolve (Suc n) objects R' ''HEAD'' = Ok oid)"
proof
  have trim: "trim_eol (''ref: '' @ name @ newline) = ''ref: '' @ name"
    using trim_eol_newline [of "''ref: '' @ name"] assms(2,3) by simp
  have same: "rev_parse (Suc n) objects (R\<lparr>rf_head := h\<rparr>) name = rev_parse (Suc n) objects R name" for h
    using assms(4) by simp
  have head: "read_head (R\<lparr>rf_head := Some (''ref: '' @ name @ newline)\<rparr>) = Ok \<lparr>hd_symbolic = Some name, hd_detached = None\<rparr>"
    using trim by (simp add: read_head_def)
  show "case set_head_symbolic R True name of (R', r) \<Rightarrow> r = Ok () \<and> rf_heads R' = rf_heads R \<and>
      read_head R' = Ok \<lparr>hd_symbolic = Some name, hd_detached = None\<rparr> \<and>
      resolve (Suc (Suc n)) objects R' ''HEAD'' = resolve (Suc n) objects R name"
    using head same by (simp add: set_head_symbolic_def set_head_def resolve_def rev_parse.simps(2) [of "Suc n"])
  have "take 5 (oid_to_string oid) \<noteq> ''ref: ''"
    by (simp add: oid_to_string_def)
  then show "case set_head_detached R True oid of (R', r) \<Rightarrow> r = Ok () \<and> rf_heads R' = rf_heads R \<and>
      read_head R' = Ok \<lparr>hd_symbolic = None, hd_detached = Some oid\<rparr> \<and> resolve (Suc n) objects R' ''HEAD'' = Ok oid"
    using assms(1) by (simp add: set_head_detached_def set_head_def resolve_def read_head_def)
qed

section \<open>A concrete repository\<close>

definition example_refs :: RefFiles where
  "example_refs = \<lparr>rf_head = Some (''ref: refs/heads/main'' @ newline),
     rf_heads = [(''main'', oid_to_string (replicate 32 1) @ newline), (''topic'', oid_to_string (replicate 32 2) @ newline)]\<rparr>"

lemma example_main: "ref_holds example_refs ''refs/heads/main'' (Some (replicate 32 1))"
  by (simp add: ref_holds_def example_refs_def branch_ref_path_def wf_oid_def kOidBytes_def)


theorem set_head_roundtrip_witness:
  "\<exists>R'. set_head_symbolic example_refs True ''refs/heads/topic'' = (R', Ok ()) \<and>
     resolve 2 [] R' ''HEAD'' = resolve 1 [] example_refs ''refs/heads/topic''"
proof -
  have "wf_oid (replicate 32 (7 :: byte))"
    by (simp add: wf_oid_def kOidBytes_def)
  from set_head_roundtrip [OF this, of "''refs/heads/topic''" example_refs 0 "[]"] show ?thesis
    by (auto simp: numeral_2_eq_2 simp del: rev_parse.simps)
qed

end
