(* ===== verification/Store_Journal.thy ===== *)
theory Store_Journal
  imports Store_Refs Format_Manifest Format_Diff
begin

section \<open>The intent journal\<close>

text \<open>
  \<open>src/modules/store/src/journal.cpp\<close> and the end of \<open>run_merge\<close> in \<open>src/apps/sfs/cmd/merge.cpp\<close>. The journal directory is an association list from file names to
  contents, in directory order. A record is written and removed in one step each, which is what \<open>util::atomic_write\<close> (see
  \<open>Util_Atomic\<close>) and unlinking provide; the answers of the operating system are arguments.
\<close>

datatype JournalOp = Merge | Pack

record JournalRecord =
  jr_version :: u32
  jr_op :: JournalOp
  jr_seq :: u64
  jr_timestamp :: string
  jr_ref_name :: string
  jr_ref_old :: "Oid option"
  jr_ref_new :: "Oid option"
  jr_pack_name :: string
  jr_subsumed :: "Oid list"

type_synonym journal_dir = "(string \<times> bytes) list"

definition oid_or_empty :: "Oid option \<Rightarrow> string" where
  "oid_or_empty o_opt = (case o_opt of None \<Rightarrow> [] | Some oid \<Rightarrow> oid_to_string oid)"

definition journal_json :: "'j Ext \<Rightarrow> JournalRecord \<Rightarrow> 'j" where
  "journal_json X r = j_obj X
     [(''format_version'', j_u64 X (ucast (jr_version r))),
      (''op'', j_str X (if jr_op r = Merge then ''merge'' else ''pack'')),
      (''seq'', j_u64 X (jr_seq r)),
      (''timestamp'', j_str X (jr_timestamp r)),
      (''ref_name'', j_str X (jr_ref_name r)),
      (''ref_old'', j_str X (oid_or_empty (jr_ref_old r))),
      (''ref_new'', j_str X (oid_or_empty (jr_ref_new r))),
      (''pack_name'', j_str X (jr_pack_name r)),
      (''subsumed'', j_arr X (map (\<lambda>oid. j_str X (oid_to_string oid)) (jr_subsumed r)))]"

definition frame_record :: "'j Ext \<Rightarrow> bytes \<Rightarrow> bytes" where
  "frame_record X payload = le_bytes 4 (unat (of_nat (length payload) :: u32)) @ payload @ digest (x_blake3 X) payload"

definition journal_encode :: "'j Ext \<Rightarrow> JournalRecord \<Rightarrow> bytes res" where
  "journal_encode X r = SFS_TRY (thrown (j_dump X (journal_json X r))) (\<lambda>payload. Ok (frame_record X payload))"

definition parse_optional_oid :: "string \<Rightarrow> Oid option res" where
  "parse_optional_oid s = (if s = [] then Ok None else SFS_TRY (oid_parse s) (\<lambda>oid. Ok (Some oid)))"

definition journal_fields :: "'j Ext \<Rightarrow> 'j \<Rightarrow> JournalRecord res" where
  "journal_fields X j =
     SFS_TRY (at_u32 X j ''format_version'') (\<lambda>version.
     SFS_TRY (at_str X j ''op'') (\<lambda>op.
     SFS_TRY (at_u64 X j ''seq'') (\<lambda>seq.
     SFS_TRY (at_str X j ''timestamp'') (\<lambda>timestamp.
     SFS_TRY (json_value X (j_get_str X) j ''ref_name'' []) (\<lambda>name.
     SFS_TRY (json_value X (j_get_str X) j ''ref_old'' []) (\<lambda>old_s.
     SFS_TRY (parse_optional_oid old_s) (\<lambda>old.
     SFS_TRY (json_value X (j_get_str X) j ''ref_new'' []) (\<lambda>new_s.
     SFS_TRY (parse_optional_oid new_s) (\<lambda>new.
     SFS_TRY (json_value X (j_get_str X) j ''pack_name'' []) (\<lambda>pack.
     SFS_TRY (if j_contains X j ''subsumed''
              then SFS_TRY (json_at X j ''subsumed'') (\<lambda>sj.
                map_res (\<lambda>s. SFS_TRY (thrown (j_get_str X s)) oid_parse) (json_elems X sj))
              else Ok []) (\<lambda>subsumed.
     Ok \<lparr>jr_version = version, jr_op = (if op = ''merge'' then Merge else Pack), jr_seq = seq, jr_timestamp = timestamp,
         jr_ref_name = name, jr_ref_old = old, jr_ref_new = new, jr_pack_name = pack, jr_subsumed = subsumed\<rparr>)))))))))))"

definition journal_decode :: "'j Ext \<Rightarrow> bytes \<Rightarrow> JournalRecord res" where
  "journal_decode X b =
     (if length b < 4 + kOidBytes then SFS_ERR JournalTorn []
      else
        let len = (of_nat (le_val (slice b 0 4)) :: u32); digest_at = 4 + len
        in if length b \<noteq> unat digest_at + kOidBytes then SFS_ERR JournalTorn []
           else if length b < 4 + unat len then Abort UB
           else
             let payload = slice b 4 (unat len); stored_digest = slice b (unat digest_at) kOidBytes
             in if digest (x_blake3 X) payload \<noteq> stored_digest then SFS_ERR JournalTorn []
                else case j_parse X payload of
                       None \<Rightarrow> SFS_ERR JournalTorn []
                     | Some j \<Rightarrow> catching JournalTorn (journal_fields X j))"

subsection \<open>Journal operations\<close>

definition record_path :: "u64 \<Rightarrow> string" where
  "record_path seq = ''j.'' @ dec_string (unat seq)"

definition journal_begin :: "'j Ext \<Rightarrow> journal_dir \<Rightarrow> bool \<Rightarrow> JournalRecord \<Rightarrow> (journal_dir \<times> u64) res" where
  "journal_begin X J w r =
     SFS_TRY (journal_encode X r) (\<lambda>b.
     if w then Ok (AList.update (record_path (jr_seq r)) b J, jr_seq r) else SFS_ERR Io (record_path (jr_seq r)))"

definition journal_commit :: "journal_dir \<Rightarrow> bool \<Rightarrow> u64 \<Rightarrow> journal_dir \<times> unit res" where
  "journal_commit J u seq = (if u then (AList.delete (record_path seq) J, Ok ()) else (J, SFS_ERR Io (record_path seq)))"

definition pending :: "'j Ext \<Rightarrow> journal_dir \<Rightarrow> JournalRecord list res" where
  "pending X J = map_res (journal_decode X) (map snd (filter (\<lambda>(name, _). take 2 name = ''j.'') J))"

text \<open>
  One record of \<open>recover\<close>: the refs and the journal after it, and the status. \<open>fuel\<close> and \<open>objects\<close> are those of
  \<open>rev_parse\<close>; \<open>w\<close> and \<open>u\<close> answer the write of the ref and the removal of the record, whose failure is ignored.
\<close>

type_synonym repo_refs = "RefFiles \<times> journal_dir"

definition replay ::
  "nat \<Rightarrow> (string \<times> string) list \<Rightarrow> (JournalRecord \<Rightarrow> bool) \<Rightarrow> RefFiles \<Rightarrow> JournalRecord \<Rightarrow> RefFiles \<times> unit res" where
  "replay fuel objects w R r =
     (case jr_op r of
        Pack \<Rightarrow> (R, SFS_ERR NotImplemented (jr_pack_name r))
      | Merge \<Rightarrow>
          (case resolve fuel objects R (jr_ref_name r) of
             Abort a \<Rightarrow> (R, Abort a)
           | current \<Rightarrow>
               (case jr_ref_new r of
                  None \<Rightarrow> (R, Ok ())
                | Some new \<Rightarrow>
                    if current = Ok new then (R, Ok ())
                    else (case ref_update R (w r) (jr_ref_name r) (jr_ref_old r) new of
                            (R', Err e) \<Rightarrow> (R', if ekind e = RefRaceLost then Ok () else Err e)
                          | R'_st \<Rightarrow> R'_st))))"

fun recover_records ::
  "nat \<Rightarrow> (string \<times> string) list \<Rightarrow> (JournalRecord \<Rightarrow> bool) \<Rightarrow> (JournalRecord \<Rightarrow> bool) \<Rightarrow> repo_refs \<Rightarrow>
   JournalRecord list \<Rightarrow> repo_refs \<times> unit res" where
  "recover_records fuel objects w u (R, J) [] = ((R, J), Ok ())"
| "recover_records fuel objects w u (R, J) (r # rs) =
     (case replay fuel objects w R r of
        (R', Ok _) \<Rightarrow>
          recover_records fuel objects w u (R', if u r then AList.delete (record_path (jr_seq r)) J else J) rs
      | (R', st) \<Rightarrow> ((R', J), st))"

definition recover ::
  "'j Ext \<Rightarrow> nat \<Rightarrow> (string \<times> string) list \<Rightarrow> (JournalRecord \<Rightarrow> bool) \<Rightarrow> (JournalRecord \<Rightarrow> bool) \<Rightarrow> repo_refs \<Rightarrow>
   repo_refs \<times> unit res" where
  "recover X fuel objects w u S =
     (case pending X (snd S) of
        Ok records \<Rightarrow> recover_records fuel objects w u S records
      | Err e \<Rightarrow> (S, Err e)
      | Abort a \<Rightarrow> (S, Abort a))"

text \<open>How \<open>run_merge\<close> publishes a merge commit; \<open>w1\<close>, \<open>w2\<close> and \<open>u\<close> answer the three changes of the disk.\<close>

definition merge_record :: "string \<Rightarrow> string \<Rightarrow> Oid \<Rightarrow> Oid \<Rightarrow> JournalRecord" where
  "merge_record timestamp name ours merge_oid =
     \<lparr>jr_version = 1, jr_op = Merge, jr_seq = 0, jr_timestamp = timestamp, jr_ref_name = name, jr_ref_old = Some ours,
      jr_ref_new = Some merge_oid, jr_pack_name = [], jr_subsumed = []\<rparr>"

definition publish_merge ::
  "'j Ext \<Rightarrow> bool \<Rightarrow> bool \<Rightarrow> bool \<Rightarrow> string \<Rightarrow> string \<Rightarrow> Oid \<Rightarrow> Oid \<Rightarrow> repo_refs \<Rightarrow> repo_refs \<times> unit res" where
  "publish_merge X w1 w2 u timestamp name ours merge_oid = (\<lambda>(R, J).
     case journal_begin X J w1 (merge_record timestamp name ours merge_oid) of
       Ok (J1, seq) \<Rightarrow>
         (case ref_update R w2 name (Some ours) merge_oid of
            (R1, Ok _) \<Rightarrow> (case journal_commit J1 u seq of (J2, st) \<Rightarrow> ((R1, J2), st))
          | (R1, st) \<Rightarrow> ((R1, J1), st))
     | Err e \<Rightarrow> ((R, J), Err e)
     | Abort a \<Rightarrow> ((R, J), Abort a))"

section \<open>Records come back, torn records do not\<close>

definition wf_record :: "JournalRecord \<Rightarrow> bool" where
  "wf_record r \<longleftrightarrow> (\<forall>oid \<in> set_option (jr_ref_old r) \<union> set_option (jr_ref_new r) \<union> set (jr_subsumed r). wf_oid oid)"

lemma plain_journal: "plain X (journal_json X r)"
  unfolding journal_json_def by (auto intro!: plain.intros)

lemma parse_optional_oid_text: "\<forall>oid \<in> set_option o_opt. wf_oid oid \<Longrightarrow> parse_optional_oid (oid_or_empty o_opt) = Ok o_opt"
  by (cases o_opt) (auto simp: parse_optional_oid_def oid_or_empty_def)

lemma journal_fields_json:
  assumes "json_ok X" "wf_record r"
  shows "journal_fields X (journal_json X r) = Ok r"
proof -
  have "map_res (\<lambda>s. SFS_TRY (thrown (j_get_str X s)) oid_parse) (map (\<lambda>oid. j_str X (oid_to_string oid)) (jr_subsumed r)) =
      Ok (map id (jr_subsumed r))"
    using assms by (intro map_res_map) (simp add: json_laws [OF assms(1)] wf_record_def)
  moreover have "parse_optional_oid (oid_or_empty (jr_ref_old r)) = Ok (jr_ref_old r)"
    "parse_optional_oid (oid_or_empty (jr_ref_new r)) = Ok (jr_ref_new r)"
    using assms(2) by (simp_all add: parse_optional_oid_text wf_record_def)
  ultimately show ?thesis
    unfolding journal_fields_def
    by (cases "jr_op r") (simp_all add: journal_json_def json_access json_laws [OF assms(1)])
qed

lemma length_frame_record: "blake3_ok X \<Longrightarrow> length (frame_record X p) = 4 + length p + 32"
  by (simp add: frame_record_def digest_def blake3_ok_def)

lemma frame_record_parts:
  assumes "blake3_ok X" "length p < 2 ^ 32"
  shows "slice (frame_record X p) 0 4 = le_bytes 4 (length p)"
    "slice (frame_record X p) 4 (length p) = p" "slice (frame_record X p) (4 + length p) 32 = digest (x_blake3 X) p"
proof -
  have f: "frame_record X p = le_bytes 4 (length p) @ p @ digest (x_blake3 X) p"
    using assms(2) by (simp add: frame_record_def unat_of_nat)
  have d: "length (digest (x_blake3 X) p) = 32"
    using assms(1) by (simp add: digest_def blake3_ok_def)
  show "slice (frame_record X p) 0 4 = le_bytes 4 (length p)" "slice (frame_record X p) 4 (length p) = p"
    "slice (frame_record X p) (4 + length p) 32 = digest (x_blake3 X) p"
    using d by (simp_all add: f slice_def)
qed

lemma unat_4_plus: "unat (4 + (len :: u32)) = (4 + unat len) mod 2 ^ 32"
  by (simp add: unat_word_ariths)

lemma journal_fields_only_throws: "a \<noteq> Throw \<Longrightarrow> journal_fields X j \<noteq> Abort a"
  by (auto simp: journal_fields_def parse_optional_oid_def SFS_TRY_Abort_iff split: if_splits dest!: map_res_Abort)

lemma journal_decode_bounded: "journal_decode X b \<noteq> Abort UB"
proof -
  define len where "len = (of_nat (le_val (slice b 0 4)) :: u32)"
  have "unat len < 2 ^ 32"
    using unsigned_less [of len, where ?'a = nat] by simp
  then have "\<not> length b < 4 + unat len" if "\<not> length b < 36" "length b = unat (4 + len) + 32"
    using that unat_4_plus [of len] by (cases "4 + unat len < 2 ^ 32") (simp_all add: mod_if split: if_splits)
  moreover have "catching JournalTorn (journal_fields X j) \<noteq> Abort UB" for j
    by (simp add: catching_def journal_fields_only_throws)
  ultimately show ?thesis
    by (auto simp: journal_decode_def Let_def kOidBytes_def split: option.splits simp flip: len_def)
qed

lemma encoded_parts:
  assumes "blake3_ok X" "journal_encode X r = Ok b" "length b < 2 ^ 32"
  obtains p where "j_dump X (journal_json X r) = Some p" "length b = 4 + length p + 32" "slice b 0 4 = le_bytes 4 (length p)"
    "slice b 4 (length p) = p" "slice b (4 + length p) 32 = digest (x_blake3 X) p"
    "length p < 2 ^ 32" "unat (of_nat (length p) :: u32) = length p" "unat (4 + of_nat (length p) :: u32) = 4 + length p"
proof -
  from assms(2) obtain p where p: "j_dump X (journal_json X r) = Some p" "b = frame_record X p"
    by (auto simp: journal_encode_def)
  note lb = length_frame_record [OF assms(1), of p]
  have lp: "length p < 2 ^ 32" "length p + 4 < 2 ^ 32"
    using assms(3) lb p(2) by simp_all
  have len: "unat (of_nat (length p) :: u32) = length p" "unat (4 + of_nat (length p) :: u32) = 4 + length p"
    using lp by (simp_all add: unat_4_plus unat_of_nat)
  show ?thesis
    using that [OF p(1)] lb frame_record_parts [OF assms(1) lp(1)] lp(1) len p(2) by simp
qed

lemma journal_decode_encoded:
  assumes "json_ok X" "blake3_ok X" "wf_record r" "journal_encode X r = Ok b" "length b < 2 ^ 32"
  shows "journal_decode X b = Ok r"
proof -
  from encoded_parts [OF assms(2,4,5)] obtain p where p: "j_dump X (journal_json X r) = Some p" "length b = 4 + length p + 32"
    "slice b 0 4 = le_bytes 4 (length p)" "slice b 4 (length p) = p" "slice b (4 + length p) 32 = digest (x_blake3 X) p"
    "length p < 2 ^ 32" "unat (of_nat (length p) :: u32) = length p" "unat (4 + of_nat (length p) :: u32) = 4 + length p" .
  have "j_parse X p = Some (journal_json X r)"
    using json_parse_dump [OF assms(1) plain_journal p(1)] .
  then show ?thesis
    using p journal_fields_json [OF assms(1,3)]
    by (simp add: journal_decode_def Let_def catching_def kOidBytes_def le_simps)
qed

text \<open>
  C32: the record of an interrupted operation is either whole or refused. What \<open>encode\<close> wrote, \<open>decode\<close> returns; of a write that
  was cut short, at any point, \<open>decode\<close> reports \<open>JournalTorn\<close>; and \<open>decode\<close> never reads outside the bytes it was given.
\<close>

theorem journal_record_roundtrip:
  assumes "json_ok X" "blake3_ok X" "wf_record r" "journal_encode X r = Ok b" "length b < 2 ^ 32"
  shows "journal_decode X b = Ok r \<and> (\<forall>n < length b. \<exists>ctx. journal_decode X (take n b) = SFS_ERR JournalTorn ctx) \<and>
    journal_decode X b' \<noteq> Abort UB"
proof (intro conjI allI impI)
  show "journal_decode X b = Ok r"
    by (rule journal_decode_encoded [OF assms])
  show "\<exists>ctx. journal_decode X (take n b) = SFS_ERR JournalTorn ctx" if n: "n < length b" for n
  proof (cases "n < 36")
    case False
    from encoded_parts [OF assms(2,4,5)] obtain p where "j_dump X (journal_json X r) = Some p"
      and p: "length b = 4 + length p + 32" "slice b 0 4 = le_bytes 4 (length p)"
        "slice b 4 (length p) = p" "slice b (4 + length p) 32 = digest (x_blake3 X) p" "length p < 2 ^ 32"
        "unat (of_nat (length p) :: u32) = length p" "unat (4 + of_nat (length p) :: u32) = 4 + length p" .
    have "slice (take n b) 0 4 = le_bytes 4 (length p)"
      using p(2) False by (simp add: slice_def min_def)
    then show ?thesis
      using n False p by (simp add: journal_decode_def kOidBytes_def Let_def le_simps)
  qed (use n in \<open>simp add: journal_decode_def kOidBytes_def\<close>)
  show "journal_decode X b' \<noteq> Abort UB"
    by (rule journal_decode_bounded)
qed

section \<open>A merge that is interrupted\<close>

text \<open>
  \<open>run_merge\<close> as a machine that may stop after every change of the disk. A crash leaves one of the states it can reach, and
  \<open>recover\<close> runs on that state.
\<close>

datatype phase = Start | Recorded | Moved | Cleared

inductive publish_step :: "'j Ext \<Rightarrow> JournalRecord \<Rightarrow> phase \<times> repo_refs \<Rightarrow> phase \<times> repo_refs \<Rightarrow> bool" for X r where
  record_step: "journal_begin X J True r = Ok (J', seq) \<Longrightarrow> publish_step X r (Start, R, J) (Recorded, R, J')"
| move_step: "jr_ref_new r = Some new \<Longrightarrow> ref_update R True (jr_ref_name r) (jr_ref_old r) new = (R', Ok ()) \<Longrightarrow>
    publish_step X r (Recorded, R, J) (Moved, R', J)"
| clear_step: "journal_commit J True (jr_seq r) = (J', Ok ()) \<Longrightarrow> publish_step X r (Moved, R, J) (Cleared, R, J')"

lemma publish_merge_runs:
  assumes "publish_merge X True True True timestamp name ours merge_oid (R, J) = (S, Ok ())"
  shows "(publish_step X (merge_record timestamp name ours merge_oid))\<^sup>*\<^sup>* (Start, R, J) (Cleared, S)"
proof -
  let ?r = "merge_record timestamp name ours merge_oid"
  from assms obtain J1 seq R1 where b: "journal_begin X J True ?r = Ok (J1, seq)"
    and m: "ref_update R True name (Some ours) merge_oid = (R1, Ok ())"
    and S: "S = (R1, AList.delete (record_path seq) J1)"
    by (auto simp: publish_merge_def journal_commit_def split: res.splits prod.splits)
  have "seq = jr_seq ?r"
    using b by (auto simp: journal_begin_def)
  then have "publish_step X ?r (Moved, R1, J1) (Cleared, S)"
    unfolding S by (intro clear_step) (simp add: journal_commit_def)
  moreover have "publish_step X ?r (Recorded, R, J1) (Moved, R1, J1)"
    using m by (intro move_step) (simp_all add: merge_record_def)
  ultimately show ?thesis
    using record_step [OF b, of R] by (meson converse_rtranclp_into_rtranclp r_into_rtranclp)
qed

definition clean_journal :: "journal_dir \<Rightarrow> bool" where
  "clean_journal J \<longleftrightarrow> (\<forall>(name, _) \<in> set J. take 2 name \<noteq> ''j.'')"

lemma pending_clean: "clean_journal J \<Longrightarrow> pending X J = Ok []"
  by (induction J) (auto simp: pending_def clean_journal_def)

lemma update_fresh: "k \<notin> fst ` set al \<Longrightarrow> AList.update k v al = al @ [(k, v)]"
  by (induction al) auto

lemma delete_snoc: "k \<notin> fst ` set al \<Longrightarrow> AList.delete k (al @ [(k, v)]) = al"
  by (induction al) auto

lemma clean_fresh: "clean_journal J \<Longrightarrow> record_path seq \<notin> fst ` set J"
  by (fastforce simp: clean_journal_def record_path_def)

lemma clean_delete: "clean_journal J \<Longrightarrow> AList.delete (record_path seq) (J @ [(record_path seq, b)]) = J"
  by (rule delete_snoc [OF clean_fresh])

lemma clean_begin:
  assumes "clean_journal J"
  shows "journal_begin X J True r = Ok (J1, seq) \<longleftrightarrow>
    (\<exists>b. journal_encode X r = Ok b \<and> J1 = J @ [(record_path (jr_seq r), b)] \<and> seq = jr_seq r)"
  using update_fresh [OF clean_fresh [OF assms]] by (auto simp: journal_begin_def)

lemma pending_begun:
  assumes "clean_journal J" "journal_decode X b = Ok r"
  shows "pending X (J @ [(record_path seq, b)]) = Ok [r]"
proof -
  have "filter (\<lambda>(name, _). take 2 name = ''j.'') J = []"
    using assms(1) by (auto simp: clean_journal_def filter_empty_conv)
  then show ?thesis
    using assms(2) by (simp add: pending_def record_path_def)
qed

text \<open>Replaying the record of a merge whose branch still has the old value, or already the new one, ends at the new value.\<close>

lemma resolve_branch:
  "ref_holds R (refs_prefix @ branch) (Some v) \<Longrightarrow> resolve (Suc n) objects R (refs_prefix @ branch) = Ok v"
  "ref_holds R (refs_prefix @ branch) None \<Longrightarrow> resolve (Suc n) objects R (refs_prefix @ branch) \<noteq> Ok v"
  "resolve (Suc n) objects R (refs_prefix @ branch) \<noteq> Abort a"
  by (auto simp: resolve_def ref_holds_def branch_ref_path_def read_trimmed_def ref_exists_def split: option.splits)

lemma replay_merge:
  assumes "jr_op r = Merge" "jr_ref_name r = refs_prefix @ branch" "jr_ref_new r = Some new" "wf_oid new"
    and "\<forall>v. jr_ref_old r = Some v \<longrightarrow> wf_oid v" "ref_holds R (jr_ref_name r) (jr_ref_old r) \<or> ref_holds R (jr_ref_name r) (Some new)"
  shows "\<exists>R'. replay (Suc n) objects (\<lambda>_. True) R r = (R', Ok ()) \<and> ref_holds R' (jr_ref_name r) (Some new)"
proof (cases "ref_holds R (jr_ref_name r) (Some new)")
  case True
  then show ?thesis
    using assms resolve_branch(1) [of R branch new n objects] by (simp add: replay_def)
next
  case False
  then have old: "ref_holds R (jr_ref_name r) (jr_ref_old r)"
    using assms(6) by simp
  then obtain R' where u: "ref_update R True (jr_ref_name r) (jr_ref_old r) new = (R', Ok ())"
    using refs.update_applies assms(4) by blast
  then have "ref_holds R' (jr_ref_name r) (Some new)"
    using refs.update_ok [OF u] assms(4,5) by (cases "jr_ref_old r") simp_all
  moreover have "resolve (Suc n) objects R (jr_ref_name r) \<noteq> Ok new"
    using old False resolve_branch(1) [of R branch _ n objects] resolve_branch(2) [of R branch n objects] unfolding assms(2) by (cases "jr_ref_old r") auto
  ultimately show ?thesis
    using assms(1,3) u resolve_branch(3) [of n objects R branch] unfolding assms(2)
    by (cases "resolve (Suc n) objects R (refs_prefix @ branch)") (auto simp: replay_def assms(2))
qed

lemma publish_reachable:
  assumes "(publish_step X r)\<^sup>*\<^sup>* (Start, R, J) (ph, S)" "clean_journal J"
    and "\<forall>oid \<in> set_option (jr_ref_old r) \<union> set_option (jr_ref_new r). wf_oid oid" "ref_holds R (jr_ref_name r) (jr_ref_old r)"
  shows "\<exists>R' J'. S = (R', J') \<and>
    (ph \<in> {Start, Cleared} \<longrightarrow> J' = J) \<and>
    (ph \<in> {Recorded, Moved} \<longrightarrow> (\<exists>b. journal_encode X r = Ok b \<and> J' = J @ [(record_path (jr_seq r), b)])) \<and>
    (ph \<in> {Start, Recorded} \<longrightarrow> R' = R) \<and>
    (ph \<in> {Moved, Cleared} \<longrightarrow> (\<exists>new. jr_ref_new r = Some new \<and> ref_holds R' (jr_ref_name r) (Some new)))"
  using assms(1)
proof (induction "(ph, S)" arbitrary: ph S rule: rtranclp_induct)
  case (step st)
  obtain ph0 R0 J0 where st: "st = (ph0, R0, J0)"
    by (cases st)
  from step.hyps(2) show ?case
    unfolding st
  proof (cases rule: publish_step.cases)
    case (record_step J2 seq)
    then show ?thesis
      using step.hyps(3) [OF st] by (auto simp: clean_begin [OF assms(2)])
  next
    case (move_step new R2)
    then have "ref_holds R2 (jr_ref_name r) (Some new)"
      using refs.update_ok [of R0 True "jr_ref_name r" "jr_ref_old r" new R2] assms(3) by (cases "jr_ref_old r") simp_all
    then show ?thesis
      using step.hyps(3) [OF st] move_step by auto
  next
    case (clear_step J2)
    then show ?thesis
      using step.hyps(3) [OF st] by (auto simp: journal_commit_def clean_delete [OF assms(2)])
  qed
qed auto

text \<open>
  C18: a merge is all or nothing across a crash. Whatever state the repository is in when \<open>run_merge\<close> stops, \<open>recover\<close> then
  succeeds and leaves no record; if the record had been written the branch ends at the merge commit, and if it had not the
  repository is as before the merge.
\<close>

theorem merge_crash_safe:
  assumes "json_ok X" "blake3_ok X" "clean_journal J" "ref_holds R (refs_prefix @ branch) (Some ours)" "wf_oid ours" "wf_oid merge_oid"
    and "\<forall>b. journal_encode X (merge_record timestamp (refs_prefix @ branch) ours merge_oid) = Ok b \<longrightarrow> length b < 2 ^ 32"
    and "(publish_step X (merge_record timestamp (refs_prefix @ branch) ours merge_oid))\<^sup>*\<^sup>* (Start, R, J) (ph, S)"
  shows "\<exists>R'. recover X (Suc n) objects (\<lambda>_. True) (\<lambda>_. True) S = ((R', J), Ok ()) \<and>
    (if ph = Start then R' = R else ref_holds R' (refs_prefix @ branch) (Some merge_oid))"
proof -
  define r where "r = merge_record timestamp (refs_prefix @ branch) ours merge_oid"
  have r: "jr_op r = Merge" "jr_ref_name r = refs_prefix @ branch" "jr_ref_old r = Some ours" "jr_ref_new r = Some merge_oid"
    "wf_record r"
    using assms(5,6) by (simp_all add: r_def merge_record_def wf_record_def)
  obtain R1 J1 where S: "S = (R1, J1)" "ph \<in> {Start, Cleared} \<longrightarrow> J1 = J" "ph \<in> {Start, Recorded} \<longrightarrow> R1 = R"
    "ph \<in> {Recorded, Moved} \<longrightarrow> (\<exists>b. journal_encode X r = Ok b \<and> J1 = J @ [(record_path (jr_seq r), b)])"
    "ph \<in> {Moved, Cleared} \<longrightarrow> ref_holds R1 (refs_prefix @ branch) (Some merge_oid)"
    using publish_reachable [OF assms(8) [folded r_def] assms(3)] r assms(4-6) by auto
  show ?thesis
  proof (cases "ph \<in> {Start, Cleared}")
    case True
    then show ?thesis
      using S pending_clean [OF assms(3), of X] by (auto simp: recover_def)
  next
    case False
    then obtain b where b: "journal_encode X r = Ok b" "J1 = J @ [(record_path (jr_seq r), b)]"
      using S(4) by (cases ph) auto
    have "journal_decode X b = Ok r"
      using journal_decode_encoded [OF assms(1,2) r(5) b(1)] assms(7) b(1) by (simp add: r_def)
    then have p: "pending X J1 = Ok [r]"
      unfolding b(2) by (rule pending_begun [OF assms(3)])
    have "ref_holds R1 (jr_ref_name r) (jr_ref_old r) \<or> ref_holds R1 (jr_ref_name r) (Some merge_oid)"
      using False S(3,5) assms(4) r by (cases ph) auto
    then obtain R' where "replay (Suc n) objects (\<lambda>_. True) R1 r = (R', Ok ())" "ref_holds R' (jr_ref_name r) (Some merge_oid)"
      using replay_merge [OF r(1,2,4) assms(6), of R1 n objects] r(3) assms(5) by auto
    moreover have "AList.delete (record_path (jr_seq r)) J1 = J"
      unfolding b(2) by (rule clean_delete [OF assms(3)])
    ultimately show ?thesis
      using p S(1) r(2) False by (auto simp: recover_def)
  qed
qed

section \<open>A concrete merge\<close>

definition example_record :: JournalRecord where
  "example_record = merge_record ''2026-01-31T23:59:59Z'' (refs_prefix @ ''main'') (replicate 32 1) (replicate 32 3)"

lemma journal_json_toy: "journal_json (toy_ext j1) r = journal_json (toy_ext j2) r"
  by (simp add: journal_json_def toy_ext_simps(6-) [abs_def])

lemma example_journal_bytes:
  "\<exists>j0 b. journal_encode (toy_ext j0) example_record = Ok b \<and> length b = 37"
proof (intro exI conjI)
  let ?j0 = "journal_json (toy_ext (TBool True)) example_record"
  show "journal_encode (toy_ext ?j0) example_record = Ok (frame_record (toy_ext ?j0) [1])"
    by (simp add: journal_encode_def journal_json_toy [of ?j0 _ "TBool True"])
  show "length (frame_record (toy_ext ?j0) [1]) = 37"
    by (simp add: length_frame_record [OF toy_blake3_ok])
qed

lemma example_record_wf: "wf_record example_record"
  by (simp add: wf_record_def example_record_def merge_record_def wf_oid_def kOidBytes_def)

theorem journal_record_roundtrip_witness:
  "\<exists>j0 b. journal_encode (toy_ext j0) example_record = Ok b \<and> journal_decode (toy_ext j0) b = Ok example_record"
proof -
  obtain j0 b where b: "journal_encode (toy_ext j0) example_record = Ok b" "length b = 37"
    using example_journal_bytes by blast
  then show ?thesis
    using journal_record_roundtrip [OF toy_json_ok toy_blake3_ok example_record_wf b(1), of b] by auto
qed

theorem merge_crash_safe_witness:
  "\<exists>j0 S R'. (publish_step (toy_ext j0) example_record)\<^sup>*\<^sup>* (Start, example_refs, []) (Recorded, S) \<and>
     recover (toy_ext j0) 1 [] (\<lambda>_. True) (\<lambda>_. True) S = ((R', []), Ok ()) \<and>
     ref_holds R' (refs_prefix @ ''main'') (Some (replicate 32 3))"
proof -
  obtain j0 b where b: "journal_encode (toy_ext j0) example_record = Ok b" "length b = 37"
    using example_journal_bytes by blast
  have J: "clean_journal []"
    by (simp add: clean_journal_def)
  have step: "publish_step (toy_ext j0) example_record (Start, example_refs, []) (Recorded, example_refs, [(record_path 0, b)])"
    using b(1) by (intro record_step [where seq = 0]) (simp add: journal_begin_def example_record_def merge_record_def)
  then have run: "(publish_step (toy_ext j0) example_record)\<^sup>*\<^sup>* (Start, example_refs, []) (Recorded, example_refs, [(record_path 0, b)])"
    by blast
  have wf: "wf_oid (replicate 32 (x :: byte))" for x
    by (simp add: wf_oid_def kOidBytes_def)
  have main: "ref_holds example_refs (refs_prefix @ ''main'') (Some (replicate 32 1))"
    using example_main by simp
  have small: "\<forall>b'. journal_encode (toy_ext j0) example_record = Ok b' \<longrightarrow> length b' < 2 ^ 32"
    using b by simp
  from merge_crash_safe [OF toy_json_ok toy_blake3_ok J main wf wf small [unfolded example_record_def] run [unfolded example_record_def],
    of 0 "[]"] run
  show ?thesis
    by (auto)
qed

end
