(* ===== verification/Store_Dag.thy ===== *)
theory Store_Dag
  imports Format_Manifest
begin

section \<open>The commit graph\<close>

text \<open>
  \<open>src/modules/store/src/dag.cpp\<close>. The walks take \<open>read\<close>, the meaning of \<open>CommitStore::read\<close> (a pure lookup: its cache
  is transparent, see \<open>Store_Commits\<close>), as an argument. The loops end because the visited set grows and a store
  holds finitely many commits; the model gives them fuel, and the theorems say that three units for every readable commit and
  a few more are enough. A \<open>std::vector\<close> used as a stack is a list with its back first; a priority queue of
  (timestamp, oid) pairs is a list in descending order.
\<close>

type_synonym commit_reader = "Oid \<Rightarrow> Commit res"

fun dfs_ancestor :: "commit_reader \<Rightarrow> Oid \<Rightarrow> nat \<Rightarrow> Oid set \<Rightarrow> Oid list \<Rightarrow> bool res" where
  "dfs_ancestor read maybe_ancestor 0 visited stack = Abort NoFuel"
| "dfs_ancestor read maybe_ancestor (Suc n) visited [] = Ok False"
| "dfs_ancestor read maybe_ancestor (Suc n) visited (cur # stack) =
     (if cur \<in> visited then dfs_ancestor read maybe_ancestor n visited stack
      else if cur = maybe_ancestor then Ok True
      else SFS_TRY (read cur) (\<lambda>c. dfs_ancestor read maybe_ancestor n (insert cur visited) (rev (c_parents c) @ stack)))"

definition is_ancestor :: "commit_reader \<Rightarrow> nat \<Rightarrow> Oid \<Rightarrow> Oid \<Rightarrow> bool res" where
  "is_ancestor read fuel maybe_ancestor of_oid =
     (if maybe_ancestor = of_oid then Ok True else dfs_ancestor read maybe_ancestor fuel {} [of_oid])"

fun collect_ancestors :: "commit_reader \<Rightarrow> nat \<Rightarrow> Oid set \<Rightarrow> Oid list \<Rightarrow> Oid set res" where
  "collect_ancestors read 0 a_ancestors stack = Abort NoFuel"
| "collect_ancestors read (Suc n) a_ancestors [] = Ok a_ancestors"
| "collect_ancestors read (Suc n) a_ancestors (cur # stack) =
     (if cur \<in> a_ancestors then collect_ancestors read n a_ancestors stack
      else SFS_TRY (read cur) (\<lambda>c. collect_ancestors read n (insert cur a_ancestors) (rev (c_parents c) @ stack)))"

fun bfs_common :: "commit_reader \<Rightarrow> Oid set \<Rightarrow> nat \<Rightarrow> Oid set \<Rightarrow> Oid list \<Rightarrow> Oid option res" where
  "bfs_common read a_ancestors 0 visited q = Abort NoFuel"
| "bfs_common read a_ancestors (Suc n) visited [] = Ok None"
| "bfs_common read a_ancestors (Suc n) visited (cur # q) =
     (if cur \<in> visited then bfs_common read a_ancestors n visited q
      else if cur \<in> a_ancestors then Ok (Some cur)
      else SFS_TRY (read cur) (\<lambda>c. bfs_common read a_ancestors n (insert cur visited) (q @ c_parents c)))"

definition merge_base :: "commit_reader \<Rightarrow> nat \<Rightarrow> Oid \<Rightarrow> Oid \<Rightarrow> Oid option res" where
  "merge_base read fuel a b =
     SFS_TRY (collect_ancestors read fuel {} [a]) (\<lambda>a_ancestors. bfs_common read a_ancestors fuel {} [b])"

subsection \<open>The walk\<close>

type_synonym pq = "(string \<times> Oid) list"

definition later :: "string \<times> Oid \<Rightarrow> string \<times> Oid \<Rightarrow> bool" where
  "later x y \<longleftrightarrow> fst y < fst x \<or> fst y = fst x \<and> snd y < snd x"

fun emplace :: "string \<times> Oid \<Rightarrow> pq \<Rightarrow> pq" where
  "emplace x [] = [x]"
| "emplace x (y # q) = (if later y x then y # emplace x q else x # y # q)"

definition enqueue_new :: "commit_reader \<Rightarrow> Oid \<Rightarrow> Oid set \<times> pq \<Rightarrow> (Oid set \<times> pq) res" where
  "enqueue_new read oid = (\<lambda>(seen, q).
     if oid \<in> seen then Ok (seen, q)
     else SFS_TRY (read oid) (\<lambda>c. Ok (insert oid seen, emplace (c_timestamp c, oid) q)))"

primrec enqueue_all :: "commit_reader \<Rightarrow> Oid list \<Rightarrow> Oid set \<times> pq \<Rightarrow> (Oid set \<times> pq) res" where
  "enqueue_all read [] st = Ok st"
| "enqueue_all read (oid # oids) st = SFS_TRY (enqueue_new read oid st) (enqueue_all read oids)"

text \<open>The visitor keeps what it has done when the walk fails: a walk ends in a state and a status.\<close>

definition with_state :: "'s \<Rightarrow> 'a res \<Rightarrow> ('a \<Rightarrow> 's \<times> unit res) \<Rightarrow> 's \<times> unit res" where
  "with_state s r f = (case r of Ok x \<Rightarrow> f x | Err e \<Rightarrow> (s, Err e) | Abort a \<Rightarrow> (s, Abort a))"

lemma with_state_cong [fundef_cong]: "s = s' \<Longrightarrow> r = r' \<Longrightarrow> (\<And>x. r' = Ok x \<Longrightarrow> f x = g x) \<Longrightarrow> with_state s r f = with_state s' r' g"
  by (auto simp: with_state_def split: res.splits)

fun walk_loop ::
  "commit_reader \<Rightarrow> (Oid \<Rightarrow> Commit \<Rightarrow> 's \<Rightarrow> (bool \<times> 's) res) \<Rightarrow> nat \<Rightarrow> Oid set \<Rightarrow> pq \<Rightarrow> 's \<Rightarrow> 's \<times> unit res" where
  "walk_loop read visit 0 seen q s = (s, Abort NoFuel)"
| "walk_loop read visit (Suc n) seen [] s = (s, Ok ())"
| "walk_loop read visit (Suc n) seen ((ts, oid) # q) s =
     with_state s (read oid) (\<lambda>c.
     with_state s (visit oid c s) (\<lambda>(keep_going, s').
       if \<not> keep_going then walk_loop read visit n seen q s'
       else with_state s' (enqueue_all read (c_parents c) (seen, q)) (\<lambda>(seen', q'). walk_loop read visit n seen' q' s')))"

definition walk_commits ::
  "commit_reader \<Rightarrow> (Oid \<Rightarrow> Commit \<Rightarrow> 's \<Rightarrow> (bool \<times> 's) res) \<Rightarrow> nat \<Rightarrow> Oid list \<Rightarrow> 's \<Rightarrow> 's \<times> unit res" where
  "walk_commits read visit fuel tips s =
     with_state s (enqueue_all read tips ({}, [])) (\<lambda>(seen, q). walk_loop read visit fuel seen q s)"

definition manifest_objects :: "Manifest \<Rightarrow> Oid set" where
  "manifest_objects m = insert (fi_header_block (m_file m))
     (\<Union>(_, g) \<in> set (m_groups m). set_option (ge_block g) \<union> set_option (ge_diff_block g))"

definition reachable_visit ::
  "(Oid \<Rightarrow> Manifest res) \<Rightarrow> Oid \<Rightarrow> Commit \<Rightarrow> Oid set \<times> error option \<Rightarrow> (bool \<times> Oid set \<times> error option) res" where
  "reachable_visit read_manifest coid c = (\<lambda>(objects, err).
     let objects' = objects \<union> {coid, c_manifest c, c_topology c}
     in case read_manifest (c_manifest c) of
          Ok m \<Rightarrow> Ok (True, objects' \<union> manifest_objects m, err)
        | Err e \<Rightarrow> Ok (False, objects', Some e)
        | Abort a \<Rightarrow> Abort a)"

definition reachable_objects :: "commit_reader \<Rightarrow> (Oid \<Rightarrow> Manifest res) \<Rightarrow> nat \<Rightarrow> Oid list \<Rightarrow> Oid set res" where
  "reachable_objects read read_manifest fuel tips =
     (case walk_commits read (reachable_visit read_manifest) fuel tips ({}, None) of
        ((objects, err), st) \<Rightarrow> SFS_TRY st (\<lambda>_. case err of None \<Rightarrow> Ok objects | Some e \<Rightarrow> Err e))"

subsection \<open>Negotiation probes\<close>


fun hop :: "commit_reader \<Rightarrow> nat \<Rightarrow> Oid \<Rightarrow> Oid option res" where
  "hop read 0 cur = Ok (Some cur)"
| "hop read (Suc hops) cur =
     (case read cur of
        Ok c \<Rightarrow> (case c_parents c of [] \<Rightarrow> Ok None | p # _ \<Rightarrow> hop read hops p)
      | Err e \<Rightarrow> Ok None
      | Abort a \<Rightarrow> Abort a)"

definition doublings :: "u32 \<Rightarrow> nat" where
  "doublings stride = (LEAST k. 2 ^ k * stride = 0)"

lemma doublings_less:
  assumes "stride \<noteq> (0 :: u32)"
  shows "doublings (2 * stride) < doublings stride"
proof -
  have "(2 ^ 32 :: u32) = 0"
    by (rule exp_eq_zero_iff [THEN iffD2]) simp
  then have "2 ^ 32 * stride = 0"
    by (metis mult_zero_left)
  then have z: "2 ^ doublings stride * stride = 0"
    unfolding doublings_def by (rule LeastI)
  then obtain k where k: "doublings stride = Suc k"
    using assms by (cases "doublings stride") auto
  have "2 ^ k * (2 * stride) = 0"
    using z unfolding k by (simp add: mult.assoc [symmetric] mult.commute)
  then have "doublings (2 * stride) \<le> k"
    unfolding doublings_def by (rule Least_le)
  then show ?thesis
    using k by simp
qed

function probe_loop :: "commit_reader \<Rightarrow> nat \<Rightarrow> u32 \<Rightarrow> Oid \<Rightarrow> Oid set \<times> Oid list \<Rightarrow> (Oid set \<times> Oid list) res" where
  "probe_loop read limit stride cur (seen, out) =
     (if length out < limit then
        let st = (if cur \<in> seen then (seen, out) else (insert cur seen, out @ [cur]))
        in if stride = 0 then Ok st
           else SFS_TRY (hop read (unat stride) cur) (\<lambda>next.
             case next of
               None \<Rightarrow> Ok st
             | Some cur' \<Rightarrow> probe_loop read limit (2 * stride) cur' st)
      else Ok (seen, out))"
  by pat_completeness auto
termination
  by (relation "measure (\<lambda>(_, _, stride, _). doublings stride)") (auto simp: doublings_less)

primrec probe_tips :: "commit_reader \<Rightarrow> nat \<Rightarrow> Oid list \<Rightarrow> Oid set \<times> Oid list \<Rightarrow> (Oid set \<times> Oid list) res" where
  "probe_tips read limit [] st = Ok st"
| "probe_tips read limit (tip # tips) st = SFS_TRY (probe_loop read limit 1 tip st) (probe_tips read limit tips)"

definition have_probe :: "commit_reader \<Rightarrow> Oid list \<Rightarrow> nat \<Rightarrow> Oid list res" where
  "have_probe read tips limit = SFS_TRY (probe_tips read limit tips ({}, [])) (\<lambda>(seen, out). Ok out)"


section \<open>What the walks compute\<close>

text \<open>
  The specification side: the parent relation that a reader induces, and a finite set of commits that is closed under it
  (\<open>complete_history\<close>).
\<close>

definition parent_of :: "commit_reader \<Rightarrow> (Oid \<times> Oid) set" where
  "parent_of read = {(c, p). \<exists>k. read c = Ok k \<and> p \<in> set (c_parents k)}"

definition complete_history :: "commit_reader \<Rightarrow> Oid set \<Rightarrow> bool" where
  "complete_history read V \<longleftrightarrow> finite V \<and> (\<forall>c\<in>V. \<exists>k. read c = Ok k \<and> set (c_parents k) \<subseteq> V)"

lemma parent_of_iff [simp]: "read c = Ok k \<Longrightarrow> (c, p) \<in> parent_of read \<longleftrightarrow> p \<in> set (c_parents k)"
  by (simp add: parent_of_def)

lemma parent_of_Image: "read c = Ok k \<Longrightarrow> parent_of read `` {c} = set (c_parents k)"
  by auto

lemma complete_historyE:
  assumes "complete_history read V" "c \<in> V"
  obtains k where "read c = Ok k" "set (c_parents k) \<subseteq> V"
  using assms by (auto simp: complete_history_def)

lemma closed_reach:
  assumes "parent_of read `` A \<subseteq> A" "S \<subseteq> A"
  shows "(parent_of read)\<^sup>* `` S \<subseteq> A"
proof clarify
  fix a b
  assume "(a, b) \<in> (parent_of read)\<^sup>*" "a \<in> S"
  then show "b \<in> A"
    using assms by (induction rule: rtrancl_induct) auto
qed

text \<open>
  The queue of \<open>merge_base\<close> holds one generation and part of the next: everything nearer to \<open>b\<close> has been visited
  and is no ancestor of \<open>a\<close>.
\<close>

definition generations :: "commit_reader \<Rightarrow> Oid \<Rightarrow> Oid set \<Rightarrow> nat \<Rightarrow> Oid set \<Rightarrow> Oid list \<Rightarrow> Oid list \<Rightarrow> bool" where
  "generations read b A k visited xs ys \<longleftrightarrow>
     visited \<inter> A = {} \<and>
     (\<forall>j<k. (parent_of read ^^ j) `` {b} \<subseteq> visited) \<and>
     set xs \<subseteq> (parent_of read ^^ k) `` {b} \<and> (parent_of read ^^ k) `` {b} \<subseteq> visited \<union> set xs \<and>
     set ys \<subseteq> (parent_of read ^^ Suc k) `` {b} \<and>
     parent_of read `` visited \<subseteq> visited \<union> set xs \<union> set ys"

definition nearest :: "commit_reader \<Rightarrow> Oid \<Rightarrow> Oid set \<Rightarrow> Oid option \<Rightarrow> bool" where
  "nearest read b A r \<longleftrightarrow>
     (case r of
        None \<Rightarrow> (parent_of read)\<^sup>* `` {b} \<inter> A = {}
      | Some m \<Rightarrow> m \<in> A \<and> (\<exists>k. (b, m) \<in> parent_of read ^^ k \<and> (\<forall>j<k. (parent_of read ^^ j) `` {b} \<inter> A = {})))"

lemma generations_next:
  assumes "generations read b A k visited [] ys"
  shows "generations read b A (Suc k) visited ys []"
proof -
  have "(parent_of read ^^ Suc k) `` {b} \<subseteq> parent_of read `` visited"
    using assms by (auto simp: generations_def)
  also have "\<dots> \<subseteq> visited \<union> set ys"
    using assms by (simp add: generations_def)
  finally show ?thesis
    using assms unfolding generations_def less_Suc_eq by (auto simp del: relpow.simps)
qed

lemma generations_skip:
  "generations read b A k visited (cur # xs) ys \<Longrightarrow> cur \<in> visited \<Longrightarrow> generations read b A k visited xs ys"
  unfolding generations_def by (auto simp del: relpow.simps)

lemma generations_expand:
  assumes "generations read b A k visited (cur # xs) ys" "cur \<notin> A" "read cur = Ok c"
  shows "generations read b A k (insert cur visited) xs (ys @ c_parents c)"
proof -
  have "set (c_parents c) \<subseteq> (parent_of read ^^ Suc k) `` {b}"
    using assms(1,3) by (auto simp: generations_def)
  then show ?thesis
    using assms parent_of_Image [of read cur c] unfolding generations_def by (auto simp del: relpow.simps parent_of_iff)
qed

lemma generations_exhausted:
  assumes "generations read b A k visited [] []"
  shows "(parent_of read)\<^sup>* `` {b} \<inter> A = {}"
proof -
  have "(parent_of read)\<^sup>* `` visited \<subseteq> visited"
    using assms by (intro closed_reach) (auto simp: generations_def)
  moreover have "b \<in> (parent_of read ^^ 0) `` {b}"
    by simp
  then have "b \<in> visited"
    using assms by (cases k) (auto simp: generations_def simp del: relpow.simps)
  ultimately show ?thesis
    using assms by (auto simp: generations_def)
qed

lemma generations_found:
  "generations read b A k visited (cur # xs) ys \<Longrightarrow> cur \<in> A \<Longrightarrow> nearest read b A (Some cur)"
  unfolding generations_def nearest_def by (auto simp del: relpow.simps)

lemma generations_head:
  assumes "generations read b A k visited xs ys"
  obtains (exhausted) "xs @ ys = []" "nearest read b A None"
    | (cons) cur k' xs' ys' where "xs @ ys = cur # xs' @ ys'" "generations read b A k' visited (cur # xs') ys'"
proof (cases xs)
  case Nil
  then show ?thesis
    using exhausted cons [of _ _ "[]" "Suc k"] generations_next [of read b A k visited ys] assms
      generations_exhausted [of read b A k visited]
    by (cases ys) (auto simp: nearest_def)
qed (use cons assms in auto)

text \<open>
  The interface of the walks to the commit store: all that they need of a reader for their fuel is that a commit has at most
  two parents.
\<close>

lemma card_less_Diff: "finite V \<Longrightarrow> c \<in> V \<Longrightarrow> c \<notin> A \<Longrightarrow> card (V - A) = Suc (card (V - insert c A))"
  by (metis Diff_insert DiffI card_Suc_Diff1 finite_Diff)

locale commit_source =
  fixes read :: commit_reader
  assumes two_parents: "read oid = Ok c \<Longrightarrow> length (c_parents c) \<le> 2"
begin

lemma work_left:
  assumes "finite V" "c \<in> V" "c \<notin> visited" "read c = Ok k"
    and "length stack + 1 + 2 * card (V - visited) < Suc n"
  shows "length (c_parents k) + length stack + 2 * card (V - insert c visited) < n"
proof -
  have "card (V - visited) = Suc (card (V - insert c visited))"
    using assms(1-3) by (rule card_less_Diff)
  then show ?thesis
    using assms(5) two_parents [OF assms(4)] by simp
qed

text \<open>
  The stack of \<open>is_ancestor\<close>: nothing visited is the ancestor looked for, and what a visited commit leads to is visited or on
  the stack; so the ancestor, when there is one, is still ahead of the stack.
\<close>

lemma dfs_ancestor_correct:
  assumes "complete_history read V" "set stack \<subseteq> V" "length stack + 2 * card (V - visited) < n"
    and "a \<notin> visited" "parent_of read `` visited \<subseteq> visited \<union> set stack"
  shows "dfs_ancestor read a n visited stack = Ok (\<exists>c \<in> visited \<union> set stack. (c, a) \<in> (parent_of read)\<^sup>*)"
  using assms(2-)
proof (induction n arbitrary: visited stack)
  case (Suc n)
  show ?case
  proof (cases stack)
    case Nil
    then have "(parent_of read)\<^sup>* `` visited \<subseteq> visited"
      using Suc.prems by (intro closed_reach) auto
    then show ?thesis
      using Suc.prems Nil by auto
  next
    case (Cons cur rest)
    show ?thesis
    proof (cases "cur \<in> visited \<or> cur = a")
      case True
      then show ?thesis
        using Suc Cons by (auto simp: insert_absorb)
    next
      case False
      from Suc.prems(1) Cons obtain k where k: "read cur = Ok k" "set (c_parents k) \<subseteq> V"
        using assms(1) by (auto elim: complete_historyE)
      have "finite V"
        using assms(1) by (simp add: complete_history_def)
      then have "dfs_ancestor read a n (insert cur visited) (rev (c_parents k) @ rest) =
          Ok (\<exists>c \<in> insert cur visited \<union> set (rev (c_parents k) @ rest). (c, a) \<in> (parent_of read)\<^sup>*)"
        using Suc.prems Cons False k work_left [of V cur visited k rest n] by (intro Suc.IH) auto
      moreover have "(p, a) \<in> (parent_of read)\<^sup>* \<Longrightarrow> (cur, a) \<in> (parent_of read)\<^sup>*" if "p \<in> set (c_parents k)" for p
        using that k(1) by (auto intro: converse_rtrancl_into_rtrancl)
      ultimately show ?thesis
        using Cons False k(1) by auto
    qed
  qed
qed simp

theorem is_ancestor_correct:
  assumes "complete_history read V" "of_oid \<in> V" "2 * card V + 1 < fuel"
  shows "is_ancestor read fuel a of_oid = Ok ((of_oid, a) \<in> (parent_of read)\<^sup>*)"
  using dfs_ancestor_correct [of V "[of_oid]" "{}" fuel a] assms by (auto simp: is_ancestor_def)

lemma collect_ancestors_correct:
  assumes "complete_history read V" "set stack \<subseteq> V" "length stack + 2 * card (V - A) < n"
    and "parent_of read `` A \<subseteq> A \<union> set stack"
  shows "collect_ancestors read n A stack = Ok ((parent_of read)\<^sup>* `` (A \<union> set stack))"
  using assms(2-)
proof (induction n arbitrary: A stack)
  case (Suc n)
  show ?case
  proof (cases stack)
    case Nil
    then have "(parent_of read)\<^sup>* `` A \<subseteq> A"
      using Suc.prems by (intro closed_reach) auto
    then show ?thesis
      using Nil by auto
  next
    case (Cons cur rest)
    show ?thesis
    proof (cases "cur \<in> A")
      case True
      then show ?thesis
        using Suc Cons by (auto simp: insert_absorb)
    next
      case False
      from Suc.prems(1) Cons obtain k where k: "read cur = Ok k" "set (c_parents k) \<subseteq> V"
        using assms(1) by (auto elim: complete_historyE)
      have "finite V"
        using assms(1) by (simp add: complete_history_def)
      then have "collect_ancestors read n (insert cur A) (rev (c_parents k) @ rest) =
          Ok ((parent_of read)\<^sup>* `` (insert cur A \<union> set (rev (c_parents k) @ rest)))"
        using Suc.prems Cons False k work_left [of V cur A k rest n] by (intro Suc.IH) auto
      moreover have "(parent_of read)\<^sup>* `` set (c_parents k) \<subseteq> (parent_of read)\<^sup>* `` {cur}"
        using k(1) by (auto intro: converse_rtrancl_into_rtrancl)
      then have "(parent_of read)\<^sup>* `` (insert cur A \<union> set (rev (c_parents k) @ rest)) = (parent_of read)\<^sup>* `` (A \<union> set stack)"
        using Cons by auto
      ultimately show ?thesis
        using Cons False k(1) by simp
    qed
  qed
qed simp

lemma bfs_common_correct:
  assumes "complete_history read V" "set (xs @ ys) \<subseteq> V" "length (xs @ ys) + 2 * card (V - visited) < n"
    and "generations read b A k visited xs ys"
  shows "\<exists>r. bfs_common read A n visited (xs @ ys) = Ok r \<and> nearest read b A r"
  using assms(2-)
proof (induction n arbitrary: visited xs ys k)
  case (Suc n)
  from Suc.prems(3) show ?case
  proof (cases rule: generations_head)
    case (cons cur k' xs' ys')
    show ?thesis
    proof (cases "cur \<in> visited \<or> cur \<in> A")
      case True
      then show ?thesis
        using Suc cons generations_skip [OF cons(2)] generations_found [OF cons(2)] by auto
    next
      case False
      from Suc.prems(1) cons(1) obtain c where c: "read cur = Ok c" "set (c_parents c) \<subseteq> V"
        using assms(1) by (auto elim: complete_historyE)
      have "finite V"
        using assms(1) by (simp add: complete_history_def)
      then have "\<exists>r. bfs_common read A n (insert cur visited) (xs' @ (ys' @ c_parents c)) = Ok r \<and> nearest read b A r"
        using Suc.prems cons(1) False c work_left [of V cur visited c "xs' @ ys'" n] generations_expand [OF cons(2) _ c(1)]
        by (intro Suc.IH [where k = k']) auto
      then show ?thesis
        using cons(1) c(1) False by simp
    qed
  qed auto
qed simp

theorem merge_base_correct:
  assumes "complete_history read V" "a \<in> V" "b \<in> V" "2 * card V + 1 < fuel"
  shows "\<exists>r. merge_base read fuel a b = Ok r \<and> nearest read b ((parent_of read)\<^sup>* `` {a}) r"
proof -
  have "generations read b A 0 {} [b] []" for A
    by (simp add: generations_def)
  then have "\<exists>r. bfs_common read A fuel {} ([b] @ []) = Ok r \<and> nearest read b A r" for A
    using assms by (intro bfs_common_correct [where V = V and k = 0]) auto
  moreover have "collect_ancestors read fuel {} [a] = Ok ((parent_of read)\<^sup>* `` {a})"
    using collect_ancestors_correct [of V "[a]" "{}" fuel] assms by simp
  ultimately show ?thesis
    by (simp add: merge_base_def)
qed

end

section \<open>What the walk visits\<close>

lemma with_state_Ok: "with_state s r f = (s', Ok ()) \<longleftrightarrow> (\<exists>x. r = Ok x \<and> f x = (s', Ok ()))"
  by (auto simp: with_state_def split: res.splits)

lemma with_state_simp [simp]: "with_state s (Ok x) f = f x"
  by (simp add: with_state_def)

lemma set_emplace [simp]: "set (emplace x q) = insert x (set q)"
  by (induction q) auto

lemma length_emplace [simp]: "length (emplace x q) = Suc (length q)"
  by (induction q) auto

lemma distinct_emplace [simp]: "distinct (map snd (emplace x q)) \<longleftrightarrow> snd x \<notin> snd ` set q \<and> distinct (map snd q)"
  by (induction q) auto

lemma enqueue_all_sound:
  "enqueue_all read oids (seen, q) = Ok (seen', q') \<Longrightarrow> distinct (map snd q) \<Longrightarrow> snd ` set q \<subseteq> seen \<Longrightarrow>
   seen' = seen \<union> set oids \<and> snd ` set q' = snd ` set q \<union> (set oids - seen) \<and> distinct (map snd q')"
proof (induction oids arbitrary: seen q)
  case (Cons oid oids)
  show ?case
  proof (cases "oid \<in> seen")
    case True
    then show ?thesis
      using Cons by (auto simp: enqueue_new_def)
  next
    case False
    then obtain c :: Commit where "enqueue_all read oids (insert oid seen, emplace (c_timestamp c, oid) q) = Ok (seen', q')"
      using Cons.prems(1) by (cases "read oid") (simp_all add: enqueue_new_def)
    moreover have "oid \<notin> snd ` set q"
      using Cons.prems(3) False by blast
    ultimately have "seen' = insert oid seen \<union> set oids" "distinct (map snd q')"
      "snd ` set q' = insert oid (snd ` set q) \<union> (set oids - insert oid seen)"
      using Cons.IH [of "insert oid seen" "emplace (c_timestamp c, oid) q"] Cons.prems(2,3) by auto
    then show ?thesis
      using False by auto
  qed
qed simp

lemma enqueue_all_total:
  "complete_history read V \<Longrightarrow> set oids \<subseteq> V \<Longrightarrow> seen \<subseteq> V \<Longrightarrow>
   \<exists>seen' q'. enqueue_all read oids (seen, q) = Ok (seen', q') \<and> seen' \<subseteq> V \<and>
     length q' + card (V - seen') = length q + card (V - seen) \<and> snd ` set q' \<subseteq> snd ` set q \<union> set oids"
proof (induction oids arbitrary: seen q)
  case (Cons oid oids)
  show ?case
  proof (cases "oid \<in> seen")
    case True
    moreover obtain seen' q' where "enqueue_all read oids (seen, q) = Ok (seen', q')" "seen' \<subseteq> V"
      "length q' + card (V - seen') = length q + card (V - seen)" "snd ` set q' \<subseteq> snd ` set q \<union> set oids"
      using Cons.IH [of seen q] Cons.prems by auto
    ultimately show ?thesis
      by (auto simp: enqueue_new_def)
  next
    case False
    obtain c where c: "read oid = Ok c"
      using Cons.prems by (auto elim: complete_historyE)
    have "card (V - seen) = Suc (card (V - insert oid seen))"
      using Cons.prems False by (intro card_less_Diff) (auto simp: complete_history_def)
    moreover obtain seen' q' where "enqueue_all read oids (insert oid seen, emplace (c_timestamp c, oid) q) = Ok (seen', q')"
      "seen' \<subseteq> V" "length q' + card (V - seen') = Suc (length q) + card (V - insert oid seen)"
      "snd ` set q' \<subseteq> insert oid (snd ` set q) \<union> set oids"
      using Cons.IH [of "insert oid seen" "emplace (c_timestamp c, oid) q"] Cons.prems by auto
    ultimately show ?thesis
      using False c by (simp add: enqueue_new_def)
  qed
qed auto

text \<open>
  The proof rule for the walk. \<open>I D s\<close> relates the set of visited commits to the visitor's state; \<open>F\<close> is a mark that the
  visitor leaves for good when it stops a branch. A walk that comes back has visited everything reachable from the tips, once,
  or carries the mark.
\<close>

definition walk_inv :: "commit_reader \<Rightarrow> (Oid set \<Rightarrow> 's \<Rightarrow> bool) \<Rightarrow> Oid set \<Rightarrow> Oid set \<Rightarrow> pq \<Rightarrow> 's \<Rightarrow> bool" where
  "walk_inv read I D seen q s \<longleftrightarrow>
     I D s \<and> seen = D \<union> snd ` set q \<and> D \<inter> snd ` set q = {} \<and> distinct (map snd q) \<and> parent_of read `` D \<subseteq> seen"

lemma walk_inv_step:
  assumes "walk_inv read I D seen ((ts, oid) # q) s" "read oid = Ok c" "I (insert oid D) s'"
    and "enqueue_all read (c_parents c) (seen, q) = Ok (seen', q')"
  shows "walk_inv read I (insert oid D) seen' q' s' \<and> (parent_of read)\<^sup>* `` seen' = (parent_of read)\<^sup>* `` seen"
proof -
  have inv: "seen = insert oid (D \<union> snd ` set q)" "oid \<notin> D" "D \<inter> snd ` set q = {}" "oid \<notin> snd ` set q"
    "distinct (map snd q)" "parent_of read `` D \<subseteq> seen"
    using assms(1) by (auto simp: walk_inv_def)
  have "snd ` set q \<subseteq> seen"
    using inv(1) by blast
  then have e: "seen' = seen \<union> set (c_parents c)" "snd ` set q' = snd ` set q \<union> (set (c_parents c) - seen)" "distinct (map snd q')"
    using enqueue_all_sound [OF assms(4) inv(5)] by blast+
  have p: "parent_of read `` {oid} = set (c_parents c)"
    using assms(2) by (rule parent_of_Image)
  have "(parent_of read)\<^sup>* `` set (c_parents c) \<subseteq> (parent_of read)\<^sup>* `` {oid}"
    using p by (auto intro: converse_rtrancl_into_rtrancl)
  then have "(parent_of read)\<^sup>* `` seen' = (parent_of read)\<^sup>* `` seen"
    using e(1) inv(1) by auto
  moreover have "walk_inv read I (insert oid D) seen' q' s'"
    using assms(3) inv e p by (auto simp: walk_inv_def)
  ultimately show ?thesis
    by simp
qed

lemma walk_loop_mark:
  assumes mark: "\<forall>oid c s k s'. F s \<longrightarrow> visit oid c s = Ok (k, s') \<longrightarrow> F s'"
  shows "walk_loop read visit n seen q s = (s', Ok ()) \<Longrightarrow> F s \<Longrightarrow> F s'"
proof (induction n arbitrary: seen q s)
  case (Suc n)
  show ?case
  proof (cases q)
    case (Cons x q')
    obtain ts oid where x: "x = (ts, oid)"
      by (cases x)
    from Suc.prems(1) obtain c k s1 where c: "read oid = Ok c" "visit oid c s = Ok (k, s1)"
      and l: "(if \<not> k then walk_loop read visit n seen q' s1
        else with_state s1 (enqueue_all read (c_parents c) (seen, q')) (\<lambda>(seen', q'). walk_loop read visit n seen' q' s1)) = (s', Ok ())"
      unfolding Cons x walk_loop.simps with_state_Ok by auto
    then have "F s1"
      using Suc.prems(2) mark by blast
    then show ?thesis
      using l Suc.IH by (auto simp: with_state_Ok split: if_splits)
  qed (use Suc.prems in simp)
qed simp

lemma walk_loop_rule:
  assumes visit: "\<forall>D s oid c k s'. I D s \<longrightarrow> oid \<notin> D \<longrightarrow> read oid = Ok c \<longrightarrow> visit oid c s = Ok (k, s') \<longrightarrow>
      (if k then I (insert oid D) s' else F s')"
    and mark: "\<forall>oid c s k s'. F s \<longrightarrow> visit oid c s = Ok (k, s') \<longrightarrow> F s'"
  shows "walk_loop read visit n seen q s = (s', Ok ()) \<Longrightarrow> walk_inv read I D seen q s \<Longrightarrow>
    F s' \<or> I ((parent_of read)\<^sup>* `` seen) s'"
proof (induction n arbitrary: D seen q s)
  case (Suc n)
  show ?case
  proof (cases q)
    case Nil
    then have "parent_of read `` seen \<subseteq> seen" "I seen s'"
      using Suc.prems by (auto simp: walk_inv_def)
    moreover from closed_reach [OF this(1) subset_refl] have "(parent_of read)\<^sup>* `` seen = seen"
      by auto
    ultimately show ?thesis
      by simp
  next
    case (Cons x q')
    obtain ts oid where x: "x = (ts, oid)"
      by (cases x)
    from Suc.prems(1) obtain c k s1 where c: "read oid = Ok c" "visit oid c s = Ok (k, s1)"
      and l: "(if \<not> k then walk_loop read visit n seen q' s1
        else with_state s1 (enqueue_all read (c_parents c) (seen, q')) (\<lambda>(seen', q'). walk_loop read visit n seen' q' s1)) = (s', Ok ())"
      unfolding Cons x walk_loop.simps with_state_Ok by auto
    have inv: "walk_inv read I D seen ((ts, oid) # q') s" "I D s" "oid \<notin> D"
      using Suc.prems(2) Cons x by (auto simp: walk_inv_def)
    then have s1: "if k then I (insert oid D) s1 else F s1"
      using visit c by blast
    show ?thesis
    proof (cases k)
      case False
      then show ?thesis
        using s1 l walk_loop_mark [OF mark, of read n seen q' s1 s'] by simp
    next
      case True
      then obtain seen2 q2 where e: "enqueue_all read (c_parents c) (seen, q') = Ok (seen2, q2)"
        and l2: "walk_loop read visit n seen2 q2 s1 = (s', Ok ())"
        using l by (auto simp: with_state_Ok)
      have "walk_inv read I (insert oid D) seen2 q2 s1 \<and> (parent_of read)\<^sup>* `` seen2 = (parent_of read)\<^sup>* `` seen"
        using walk_inv_step [OF inv(1) c(1) _ e] s1 True by simp
      then show ?thesis
        using Suc.IH [OF l2] by metis
    qed
  qed
qed simp

lemma walk_commits_rule:
  assumes "walk_commits read visit fuel tips s = (s', Ok ())" "I {} s"
    and "\<forall>D s oid c k s'. I D s \<longrightarrow> oid \<notin> D \<longrightarrow> read oid = Ok c \<longrightarrow> visit oid c s = Ok (k, s') \<longrightarrow>
      (if k then I (insert oid D) s' else F s')"
    and "\<forall>oid c s k s'. F s \<longrightarrow> visit oid c s = Ok (k, s') \<longrightarrow> F s'"
  shows "F s' \<or> I ((parent_of read)\<^sup>* `` set tips) s'"
proof -
  from assms(1) obtain seen q where e: "enqueue_all read tips ({}, []) = Ok (seen, q)"
    and l: "walk_loop read visit fuel seen q s = (s', Ok ())"
    by (auto simp: walk_commits_def with_state_Ok)
  from enqueue_all_sound [OF e] have "seen = set tips" "walk_inv read I {} seen q s"
    using assms(2) by (auto simp: walk_inv_def)
  then show ?thesis
    using walk_loop_rule [OF assms(3,4) l] by blast
qed

lemma walk_loop_total:
  assumes "complete_history read V" "\<forall>oid\<in>V. \<forall>c s. read oid = Ok c \<longrightarrow> J s \<longrightarrow> (\<exists>k s'. visit oid c s = Ok (k, s') \<and> J s')"
  shows "seen \<subseteq> V \<Longrightarrow> snd ` set q \<subseteq> V \<Longrightarrow> length q + card (V - seen) < n \<Longrightarrow> J s \<Longrightarrow>
    \<exists>s'. walk_loop read visit n seen q s = (s', Ok ()) \<and> J s'"
proof (induction n arbitrary: seen q s)
  case (Suc n)
  show ?case
  proof (cases q)
    case (Cons x q')
    obtain ts oid where x: "x = (ts, oid)"
      by (cases x)
    with Cons Suc.prems(2) have oid: "oid \<in> V"
      by simp
    with assms(1) obtain c where c: "read oid = Ok c" "set (c_parents c) \<subseteq> V"
      by (auto elim: complete_historyE)
    with oid assms(2) Suc.prems(4) obtain k s1 where k: "visit oid c s = Ok (k, s1)" "J s1"
      by blast
    from enqueue_all_total [OF assms(1) c(2) Suc.prems(1)] obtain seen2 q2
      where e: "enqueue_all read (c_parents c) (seen, q') = Ok (seen2, q2)" "seen2 \<subseteq> V"
        "length q2 + card (V - seen2) = length q' + card (V - seen)" "snd ` set q2 \<subseteq> snd ` set q' \<union> set (c_parents c)"
      by blast
    moreover have "snd ` set q2 \<subseteq> V"
      using e(4) c(2) Suc.prems(2) Cons by auto
    ultimately have "\<exists>s'. walk_loop read visit n seen q' s1 = (s', Ok ()) \<and> J s'"
      "\<exists>s'. walk_loop read visit n seen2 q2 s1 = (s', Ok ()) \<and> J s'"
      using Suc.prems Cons k by (auto intro!: Suc.IH)
    then show ?thesis
      using Cons x c(1) k(1) e(1) by simp
  qed (use Suc.prems(4) in simp)
qed simp

text \<open>What a commit keeps alive, and everything that the tips keep alive.\<close>

definition objects_of :: "commit_reader \<Rightarrow> (Oid \<Rightarrow> Manifest res) \<Rightarrow> Oid \<Rightarrow> Oid set" where
  "objects_of read read_manifest coid =
     {oid. \<exists>c m. read coid = Ok c \<and> read_manifest (c_manifest c) = Ok m \<and>
        oid \<in> {coid, c_manifest c, c_topology c} \<union> manifest_objects m}"

definition live_objects :: "commit_reader \<Rightarrow> (Oid \<Rightarrow> Manifest res) \<Rightarrow> Oid list \<Rightarrow> Oid set" where
  "live_objects read read_manifest tips = \<Union> (objects_of read read_manifest ` ((parent_of read)\<^sup>* `` set tips))"

lemma reachable_objects_sound:
  assumes "reachable_objects read read_manifest fuel tips = Ok S"
  shows "S = live_objects read read_manifest tips \<and>
    (\<forall>c \<in> (parent_of read)\<^sup>* `` set tips. \<exists>k m. read c = Ok k \<and> read_manifest (c_manifest k) = Ok m)"
proof -
  define I where "I D st \<longleftrightarrow> st = (\<Union> (objects_of read read_manifest ` D), None :: error option) \<and>
    (\<forall>c\<in>D. \<exists>k m. read c = Ok k \<and> read_manifest (c_manifest k) = Ok m)" for D and st :: "Oid set \<times> error option"
  from assms have w: "walk_commits read (reachable_visit read_manifest) fuel tips ({}, None) = ((S, None), Ok ())"
    by (auto simp: reachable_objects_def split: option.splits prod.splits)
  have "snd (S, None :: error option) \<noteq> None \<or> I ((parent_of read)\<^sup>* `` set tips) (S, None)"
  proof (rule walk_commits_rule [OF w])
    show "\<forall>D s oid c k s'. I D s \<longrightarrow> oid \<notin> D \<longrightarrow> read oid = Ok c \<longrightarrow> reachable_visit read_manifest oid c s = Ok (k, s') \<longrightarrow>
      (if k then I (insert oid D) s' else snd s' \<noteq> None)"
      by (auto simp: I_def reachable_visit_def objects_of_def Let_def split: res.splits prod.splits)
  qed (auto simp: I_def reachable_visit_def Let_def split: res.splits)
  then show ?thesis
    by (simp add: I_def live_objects_def)
qed

theorem reachable_objects_exact:
  assumes "complete_history read V" "set tips \<subseteq> V" "card V < fuel"
    and "\<forall>oid\<in>V. \<forall>c. read oid = Ok c \<longrightarrow> is_Ok (read_manifest (c_manifest c))"
  shows "reachable_objects read read_manifest fuel tips = Ok (live_objects read read_manifest tips)"
proof -
  have visit: "\<exists>k s'. reachable_visit read_manifest oid c s = Ok (k, s') \<and> snd s' = None"
    if "oid \<in> V" "read oid = Ok c" "snd s = None" for oid c s
    using assms(4) that by (cases "read_manifest (c_manifest c)") (auto simp: reachable_visit_def Let_def split: prod.splits)
  from enqueue_all_total [OF assms(1,2), of "{}" "[]"] obtain seen q
    where e: "enqueue_all read tips ({}, []) = Ok (seen, q)" "seen \<subseteq> V" "length q + card (V - seen) = card V" "snd ` set q \<subseteq> V"
    using assms(2) by auto
  have "\<exists>s'. walk_loop read (reachable_visit read_manifest) fuel seen q ({}, None) = (s', Ok ()) \<and> snd s' = None"
    using visit e assms(3) by (intro walk_loop_total [OF assms(1)]) auto
  then obtain S where "reachable_objects read read_manifest fuel tips = Ok S"
    using e(1) by (auto simp: reachable_objects_def walk_commits_def)
  then show ?thesis
    using reachable_objects_sound by blast
qed

section \<open>Negotiation probes\<close>

lemma hop_reaches: "hop read n cur = Ok (Some nxt) \<Longrightarrow> (cur, nxt) \<in> (parent_of read)\<^sup>*"
proof (induction n arbitrary: cur)
  case (Suc n)
  then show ?case
    by (auto split: res.splits list.splits intro: converse_rtrancl_into_rtrancl)
qed simp

lemma probe_loop_inv:
  "probe_loop read limit stride cur (seen, out) = Ok (seen', out') \<Longrightarrow>
   seen = set out \<Longrightarrow> distinct out \<Longrightarrow> length out \<le> limit \<Longrightarrow> cur \<in> A \<Longrightarrow> set out \<subseteq> A \<Longrightarrow> parent_of read `` A \<subseteq> A \<Longrightarrow>
   seen' = set out' \<and> distinct out' \<and> length out' \<le> limit \<and> set out' \<subseteq> A \<and> set out \<subseteq> set out' \<and>
   (length out < limit \<longrightarrow> cur \<in> set out')"
proof (induction read limit stride cur "(seen, out)" arbitrary: seen out rule: probe_loop.induct)
  case (1 read limit stride cur seen out)
  define out1 where "out1 = (if cur \<in> seen then out else out @ [cur])"
  have st: "(if cur \<in> seen then (seen, out) else (insert cur seen, out @ [cur])) = (set out1, out1)"
    using "1.prems"(2) by (simp add: out1_def)
  show ?case
  proof (cases "length out < limit")
    case True
    have out1: "distinct out1" "length out1 \<le> limit" "set out1 \<subseteq> A" "set out \<subseteq> set out1" "cur \<in> set out1"
      using "1.prems" True by (auto simp: out1_def)
    show ?thesis
    proof (cases "(seen', out') = (set out1, out1)")
      case False
      then obtain nxt where nxt: "stride \<noteq> 0" "hop read (unat stride) cur = Ok (Some nxt)"
        "probe_loop read limit (2 * stride) nxt (set out1, out1) = Ok (seen', out')"
        using "1.prems"(1) True unfolding probe_loop.simps [of read limit stride cur seen] Let_def st
        by (auto split: if_splits option.splits)
      have "nxt \<in> A"
        using hop_reaches [OF nxt(2)] closed_reach [OF "1.prems"(7), of A] "1.prems"(5) by auto
      then show ?thesis
        using "1.hyps" [OF True st [symmetric] nxt(1,2) refl nxt(3) refl] out1 "1.prems"(7) by auto
    qed (use out1 in auto)
  qed (use "1.prems" in auto)
qed

lemma probe_tips_inv:
  "probe_tips read limit tips (seen, out) = Ok (seen', out') \<Longrightarrow>
   seen = set out \<Longrightarrow> distinct out \<Longrightarrow> length out \<le> limit \<Longrightarrow> set tips \<union> set out \<subseteq> A \<Longrightarrow> parent_of read `` A \<subseteq> A \<Longrightarrow>
   seen' = set out' \<and> distinct out' \<and> length out' \<le> limit \<and> set out' \<subseteq> A \<and> set out \<subseteq> set out' \<and>
   (length out' < limit \<longrightarrow> set tips \<subseteq> set out')"
proof (induction tips arbitrary: seen out)
  case (Cons tip tips)
  from Cons.prems(1) obtain seen1 out1 where l: "probe_loop read limit 1 tip (seen, out) = Ok (seen1, out1)"
    and r: "probe_tips read limit tips (seen1, out1) = Ok (seen', out')"
    by auto
  from probe_loop_inv [OF l] Cons.prems have 1: "seen1 = set out1" "distinct out1" "length out1 \<le> limit" "set out1 \<subseteq> A"
    "set out \<subseteq> set out1" "length out < limit \<longrightarrow> tip \<in> set out1"
    by auto
  with Cons.IH [OF r] Cons.prems(5,6) have 2: "seen' = set out'" "distinct out'" "length out' \<le> limit" "set out' \<subseteq> A"
    "set out1 \<subseteq> set out'" "length out' < limit \<longrightarrow> set tips \<subseteq> set out'"
    by auto
  have "length out \<le> length out'"
    using 1(5) 2(2,5) Cons.prems(3) by (metis card_mono distinct_card finite_set subset_trans)
  then show ?case
    using 1 2 by auto
qed auto

text \<open>
  Note: the HAVE set of the negotiation is a duplicate-free list of at most \<open>limit\<close> ancestors of the tips, and it contains every
  tip when the limit was not reached. The loop ends after at most 33 strides, for the 32-bit stride wraps to 0.
\<close>

theorem have_probe_ancestors:
  assumes "have_probe read tips limit = Ok out"
  shows "distinct out \<and> length out \<le> limit \<and> set out \<subseteq> (parent_of read)\<^sup>* `` set tips \<and>
    (length out < limit \<longrightarrow> set tips \<subseteq> set out)"
proof -
  from assms obtain seen where "probe_tips read limit tips ({}, []) = Ok (seen, out)"
    by (auto simp: have_probe_def)
  moreover have "parent_of read `` ((parent_of read)\<^sup>* `` set tips) \<subseteq> (parent_of read)\<^sup>* `` set tips"
    by (auto intro: rtrancl_into_rtrancl)
  ultimately show ?thesis
    using probe_tips_inv [of read limit tips "{}" "[]" seen out "(parent_of read)\<^sup>* `` set tips"] by auto
qed

section \<open>The merge base need not be a lowest common ancestor\<close>

text \<open>
  Five commits: \<open>b\<close> merges \<open>m\<close> with \<open>z\<close>, \<open>z\<close> descends from \<open>m'\<close>, \<open>a\<close> descends from \<open>m'\<close>, and \<open>m'\<close> from \<open>m\<close>. The breadth-first
  search meets \<open>m\<close> one generation from \<open>b\<close> and returns it, although \<open>m'\<close> is a common ancestor that descends from \<open>m\<close>.
\<close>

definition example_history :: commit_reader where
  "example_history oid =
     (let commit = (\<lambda>ps. Ok \<lparr>c_version = 1, c_parents = ps, c_manifest = [], c_topology = [], c_timestamp = [],
                        c_author = [], c_message = []\<rparr>)
      in if oid = [1] then commit []
         else if oid = [2] then commit [[1]]
         else if oid = [3] then commit [[2]]
         else if oid = [4] then commit [[1], [3]]
         else if oid = [5] then commit [[2]]
         else SFS_ERR ObjectNotFound [])"

lemma example_history_parents [simp]:
  "parent_of example_history = {([2], [1]), ([3], [2]), ([4], [1]), ([4], [3]), ([5], [2])}"
  by (auto simp: parent_of_def example_history_def split: if_splits)

theorem merge_base_not_lowest:
  "\<exists>a b m m'. merge_base example_history 10 a b = Ok (Some m) \<and> (m', m) \<in> (parent_of example_history)\<^sup>+ \<and>
     (a, m') \<in> (parent_of example_history)\<^sup>* \<and> (b, m') \<in> (parent_of example_history)\<^sup>*"
proof (intro exI conjI)
  show "merge_base example_history 10 [5] [4] = Ok (Some [1])"
    by code_simp
  show "([2], [1]) \<in> (parent_of example_history)\<^sup>+" "([5], [2]) \<in> (parent_of example_history)\<^sup>*"
    by auto
  have "([4], [3]) \<in> (parent_of example_history)\<^sup>*" "([3], [2]) \<in> (parent_of example_history)\<^sup>*"
    by auto
  then show "([4], [2]) \<in> (parent_of example_history)\<^sup>*"
    by (rule rtrancl_trans)
qed

text \<open>A concrete reader under which the negotiation probe is evaluated.\<close>

theorem have_probe_ancestors_witness:
  "have_probe example_history [[4], [5]] 8 = Ok [[4], [1], [5], [2]] \<and>
   set [[4], [1], [5], [2]] \<subseteq> (parent_of example_history)\<^sup>* `` {[4], [5]}"
proof -
  have "have_probe example_history [[4], [5]] 8 = Ok [[4], [1], [5], [2]]"
    by code_simp
  then show ?thesis
    using have_probe_ancestors [of example_history "[[4], [5]]" 8] by auto
qed

end
