(* ===== verification/Store_Commits.thy ===== *)
theory Store_Commits
  imports Store_Dag Store_Refs
begin

section \<open>Commit and manifest stores\<close>

text \<open>
  \<open>src/modules/store/src/commit_store.cpp\<close> and \<open>manifest_store.cpp\<close>: typed views of the block store with a cache in front. The caches
  are maps from object ids; \<open>emplace\<close> keeps an entry that is there. \<open>load_commit\<close> and \<open>load_manifest\<close> are the
  reads behind a cache miss, and \<open>w\<close> is the answer of the disk to a write, as in \<open>Store_Loose\<close>. The mutex around a cache is not
  modelled: each access to it is one step.
\<close>

definition cache_emplace :: "(Oid \<rightharpoonup> 'a) \<Rightarrow> Oid \<Rightarrow> 'a \<Rightarrow> (Oid \<rightharpoonup> 'a)" where
  "cache_emplace cache oid a = (case cache oid of Some _ \<Rightarrow> cache | None \<Rightarrow> cache(oid \<mapsto> a))"

text \<open>Following the iterator that \<open>emplace\<close> returns.\<close>

definition entry_of :: "(Oid \<rightharpoonup> 'a) \<Rightarrow> Oid \<Rightarrow> 'a res" where
  "entry_of cache oid = (case cache oid of Some a \<Rightarrow> Ok a | None \<Rightarrow> Abort UB)"

definition cached_read :: "(Oid \<Rightarrow> 'a res) \<Rightarrow> (Oid \<rightharpoonup> 'a) \<Rightarrow> Oid \<Rightarrow> (Oid \<rightharpoonup> 'a) \<times> 'a res" where
  "cached_read load cache oid =
     (case cache oid of
        Some a \<Rightarrow> (cache, Ok a)
      | None \<Rightarrow> (case load oid of Ok a \<Rightarrow> (cache_emplace cache oid a, Ok a) | r \<Rightarrow> (cache, r)))"

subsection \<open>CommitStore\<close>

type_synonym commit_cache = "Oid \<rightharpoonup> Commit"

definition load_commit :: "'j Ext \<Rightarrow> files \<Rightarrow> Oid \<Rightarrow> Commit res" where
  "load_commit X fs oid =
     SFS_TRY (loose_get X fs oid KCommit) (\<lambda>b.
     SFS_TRY (commit_parse X b) (\<lambda>c.
     SFS_TRY (commit_oid X c) (\<lambda>actual.
     if actual \<noteq> oid then SFS_ERR HashMismatch (oid_to_string oid) else Ok c)))"

definition commit_read :: "'j Ext \<Rightarrow> files \<Rightarrow> commit_cache \<Rightarrow> Oid \<Rightarrow> commit_cache \<times> Commit res" where
  "commit_read X fs cache oid = cached_read (load_commit X fs) cache oid"

definition commit_get_cached :: "'j Ext \<Rightarrow> files \<Rightarrow> commit_cache \<Rightarrow> Oid \<Rightarrow> commit_cache \<times> Commit res" where
  "commit_get_cached X fs cache oid =
     (case cache oid of
        Some c \<Rightarrow> (cache, Ok c)
      | None \<Rightarrow> (case commit_read X fs cache oid of
                   (cache', Ok c) \<Rightarrow> (let cache'' = cache_emplace cache' oid c in (cache'', entry_of cache'' oid))
                 | (cache', r) \<Rightarrow> (cache', r)))"

definition put_commit :: "'j Ext \<Rightarrow> u64 \<Rightarrow> files \<Rightarrow> bool \<Rightarrow> Commit \<Rightarrow> files \<times> Oid res" where
  "put_commit X C fs w c =
     (case commit_to_canonical_json X c of
        Ok b \<Rightarrow> loose_put X C fs w KCommit b
      | Err e \<Rightarrow> (fs, Err e)
      | Abort a \<Rightarrow> (fs, Abort a))"

definition commit_write ::
  "'j Ext \<Rightarrow> u64 \<Rightarrow> files \<Rightarrow> bool \<Rightarrow> commit_cache \<Rightarrow> Commit \<Rightarrow> (files \<times> commit_cache) \<times> Oid res" where
  "commit_write X C fs w cache c =
     (case put_commit X C fs w c of
        (fs', Ok oid) \<Rightarrow> ((fs', cache_emplace cache oid c), Ok oid)
      | (fs', r) \<Rightarrow> ((fs', cache), r))"

definition commit_and_advance ::
  "'j Ext \<Rightarrow> u64 \<Rightarrow> files \<Rightarrow> commit_cache \<Rightarrow> RefFiles \<Rightarrow> bool \<Rightarrow> bool \<Rightarrow> Commit \<Rightarrow> string \<Rightarrow> Oid option \<Rightarrow>
   (files \<times> commit_cache \<times> RefFiles) \<times> Oid res" where
  "commit_and_advance X C fs cache R w1 w2 c name expected_tip =
     (case commit_write X C fs w1 cache c of
        ((fs', cache'), Ok oid) \<Rightarrow>
          (case ref_update R w2 name expected_tip oid of
             (R', Ok _) \<Rightarrow> ((fs', cache', R'), Ok oid)
           | (R', Err e) \<Rightarrow> ((fs', cache', R'), Err e)
           | (R', Abort a) \<Rightarrow> ((fs', cache', R'), Abort a))
      | ((fs', cache'), r) \<Rightarrow> ((fs', cache', R), r))"

subsection \<open>ManifestStore\<close>

type_synonym manifest_cache = "Oid \<rightharpoonup> Manifest"

definition load_manifest :: "'j Ext \<Rightarrow> files \<Rightarrow> Oid \<Rightarrow> Manifest res" where
  "load_manifest X fs oid =
     SFS_TRY (loose_get X fs oid KManifest) (\<lambda>b.
     SFS_TRY (manifest_parse X b) (\<lambda>m.
     SFS_TRY (manifest_oid X m) (\<lambda>actual.
     if actual \<noteq> oid then SFS_ERR HashMismatch (oid_to_string oid) else Ok m)))"

definition manifest_read :: "'j Ext \<Rightarrow> files \<Rightarrow> manifest_cache \<Rightarrow> Oid \<Rightarrow> manifest_cache \<times> Manifest res" where
  "manifest_read X fs cache oid = cached_read (load_manifest X fs) cache oid"

definition put_manifest :: "'j Ext \<Rightarrow> u64 \<Rightarrow> files \<Rightarrow> bool \<Rightarrow> Manifest \<Rightarrow> files \<times> Oid res" where
  "put_manifest X C fs w m =
     (case SFS_TRY (manifest_validate m) (\<lambda>_. manifest_to_canonical_json X m) of
        Ok b \<Rightarrow> loose_put X C fs w KManifest b
      | Err e \<Rightarrow> (fs, Err e)
      | Abort a \<Rightarrow> (fs, Abort a))"

definition manifest_write ::
  "'j Ext \<Rightarrow> u64 \<Rightarrow> files \<Rightarrow> bool \<Rightarrow> manifest_cache \<Rightarrow> Manifest \<Rightarrow> (files \<times> manifest_cache) \<times> Oid res" where
  "manifest_write X C fs w cache m =
     (case put_manifest X C fs w m of
        (fs', Ok oid) \<Rightarrow> ((fs', cache_emplace cache oid m), Ok oid)
      | (fs', r) \<Rightarrow> ((fs', cache), r))"

definition manifest_for ::
  "'j Ext \<Rightarrow> files \<Rightarrow> commit_cache \<Rightarrow> manifest_cache \<Rightarrow> Oid \<Rightarrow> (commit_cache \<times> manifest_cache) \<times> Manifest res" where
  "manifest_for X fs cc mc coid =
     (case commit_get_cached X fs cc coid of
        (cc', Ok c) \<Rightarrow> (case mc (c_manifest c) of
            Some m \<Rightarrow> ((cc', mc), Ok m)
          | None \<Rightarrow> (case manifest_read X fs mc (c_manifest c) of
              (mc', Ok m) \<Rightarrow> (let mc'' = cache_emplace mc' (c_manifest c) m in ((cc', mc''), entry_of mc'' (c_manifest c)))
            | (mc', r) \<Rightarrow> ((cc', mc'), r)))
      | (cc', Err e) \<Rightarrow> ((cc', mc), Err e)
      | (cc', Abort a) \<Rightarrow> ((cc', mc), Abort a))"

section \<open>Caches that cannot be seen\<close>

text \<open>
  The contract of a typed store behind a cache: writing keeps what can be loaded, and what was written can be loaded again. A
  client of such a store cannot tell the cache from the disk.
\<close>

datatype 'a access = Read Oid | Write bool 'a

fun cached_run ::
  "(files \<Rightarrow> Oid \<Rightarrow> 'a res) \<Rightarrow> (files \<Rightarrow> bool \<Rightarrow> 'a \<Rightarrow> files \<times> Oid res) \<Rightarrow> files \<Rightarrow> (Oid \<rightharpoonup> 'a) \<Rightarrow> 'a access list \<Rightarrow>
   ('a res + Oid res) list" where
  "cached_run load store fs cache [] = []"
| "cached_run load store fs cache (Read oid # ops) =
     (case cached_read (load fs) cache oid of (cache', r) \<Rightarrow> Inl r # cached_run load store fs cache' ops)"
| "cached_run load store fs cache (Write w a # ops) =
     (case store fs w a of
        (fs', Ok oid) \<Rightarrow> Inr (Ok oid) # cached_run load store fs' (cache_emplace cache oid a) ops
      | (fs', r) \<Rightarrow> Inr r # cached_run load store fs' cache ops)"

fun plain_run ::
  "(files \<Rightarrow> Oid \<Rightarrow> 'a res) \<Rightarrow> (files \<Rightarrow> bool \<Rightarrow> 'a \<Rightarrow> files \<times> Oid res) \<Rightarrow> files \<Rightarrow> 'a access list \<Rightarrow> ('a res + Oid res) list" where
  "plain_run load store fs [] = []"
| "plain_run load store fs (Read oid # ops) = Inl (load fs oid) # plain_run load store fs ops"
| "plain_run load store fs (Write w a # ops) =
     (case store fs w a of (fs', r) \<Rightarrow> Inr r # plain_run load store fs' ops)"

fun good_run ::
  "(files \<Rightarrow> 'a \<Rightarrow> bool) \<Rightarrow> (files \<Rightarrow> bool \<Rightarrow> 'a \<Rightarrow> files \<times> Oid res) \<Rightarrow> files \<Rightarrow> 'a access list \<Rightarrow> bool" where
  "good_run good store fs [] \<longleftrightarrow> True"
| "good_run good store fs (Read oid # ops) \<longleftrightarrow> good_run good store fs ops"
| "good_run good store fs (Write w a # ops) \<longleftrightarrow> good fs a \<and> good_run good store (fst (store fs w a)) ops"

locale read_through =
  fixes load :: "files \<Rightarrow> Oid \<Rightarrow> 'a res"
    and store :: "files \<Rightarrow> bool \<Rightarrow> 'a \<Rightarrow> files \<times> Oid res"
    and good :: "files \<Rightarrow> 'a \<Rightarrow> bool"
  assumes load_stable: "store fs w a = (fs', r) \<Longrightarrow> load fs oid = Ok x \<Longrightarrow> load fs' oid = Ok x"
    and store_load: "good fs a \<Longrightarrow> store fs w a = (fs', Ok oid) \<Longrightarrow> load fs' oid = Ok a"
begin

definition coherent :: "files \<Rightarrow> (Oid \<rightharpoonup> 'a) \<Rightarrow> bool" where
  "coherent fs cache \<longleftrightarrow> (\<forall>oid a. cache oid = Some a \<longrightarrow> load fs oid = Ok a)"

lemma coherent_empty [simp]: "coherent fs Map.empty"
  by (simp add: coherent_def)

lemma coherent_emplace: "coherent fs cache \<Longrightarrow> load fs oid = Ok a \<Longrightarrow> coherent fs (cache_emplace cache oid a)"
  by (auto simp: coherent_def cache_emplace_def split: option.splits)

lemma cached_read_transparent:
  assumes "coherent fs cache"
  obtains cache' where "cached_read (load fs) cache oid = (cache', load fs oid)" "coherent fs cache'"
proof (cases "cache oid")
  case None
  then show ?thesis
    using assms that coherent_emplace [OF assms, of oid] by (cases "load fs oid") (simp_all add: cached_read_def)
qed (use assms that in \<open>auto simp: cached_read_def coherent_def\<close>)

lemma coherent_stored:
  assumes "coherent fs cache" "store fs w a = (fs', r)"
  shows "coherent fs' cache"
  using assms load_stable unfolding coherent_def by blast

lemma runs_agree:
  "coherent fs cache \<Longrightarrow> good_run good store fs ops \<Longrightarrow> cached_run load store fs cache ops = plain_run load store fs ops"
proof (induction ops arbitrary: fs cache)
  case (Cons op ops)
  show ?case
  proof (cases op)
    case (Read oid)
    from cached_read_transparent [OF Cons.prems(1)] obtain cache'
      where "cached_read (load fs) cache oid = (cache', load fs oid)" "coherent fs cache'" .
    then show ?thesis
      using Cons Read by simp
  next
    case (Write w a)
    obtain fs' r where st: "store fs w a = (fs', r)"
      by fastforce
    then have "coherent fs' cache" "r = Ok oid \<Longrightarrow> coherent fs' (cache_emplace cache oid a)" for oid
      using Cons.prems Write coherent_stored store_load coherent_emplace by auto
    then show ?thesis
      using Cons Write st by (cases r) auto
  qed
qed simp

end

subsection \<open>The two stores keep the contract\<close>

lemma loose_put_keeps: "loose_put X C fs w k p = (fs', r) \<Longrightarrow> loose_get X fs oid k' = Ok q \<Longrightarrow> loose_get X fs' oid k' = Ok q"
  using loose.put_keeps [of X C fs w k p fs' r oid k'] loose.get_has [of X fs oid k' q] by simp

lemma loose_put_oid: "loose_put X C fs w k p = (fs', Ok oid) \<Longrightarrow> oid = compute_oid (x_blake3 X) k p"
  by (cases "encode_object (x_blake3 X) k p CNone C") (auto simp: loose_put_def Let_def split: if_splits)

lemma loose_put_new:
  assumes "storable X C p" "\<not> loose_contains fs (compute_oid (x_blake3 X) k p)"
  obtains f where "loose_put X C fs True k p =
    (fs(oid_fanout_path (compute_oid (x_blake3 X) k p) \<mapsto> f), Ok (compute_oid (x_blake3 X) k p))"
  using encode_object_storable [OF assms(1), of k] assms(2) that by (auto simp: loose_put_def loose_contains_def Let_def)

lemma loose_put_gets:
  assumes "loose_put X C fs w k p = (fs', Ok oid)" "storable X C p"
    and "loose_contains fs (compute_oid (x_blake3 X) k p) \<longrightarrow> loose_get X fs (compute_oid (x_blake3 X) k p) k = Ok p"
  shows "oid = compute_oid (x_blake3 X) k p \<and> loose_get X fs' oid k = Ok p"
proof (cases "loose_contains fs (compute_oid (x_blake3 X) k p)")
  case True
  then show ?thesis
    using assms loose.put_hit [of fs X k p C w] by simp
next
  case False
  moreover from this have "w"
    using assms(1) by (cases w) (auto simp: loose_put_def loose_contains_def Let_def split: res.splits)
  ultimately show ?thesis
    using assms(1) loose.put_miss [OF assms(2), of fs k] by auto
qed

definition good_commit :: "'j Ext \<Rightarrow> u64 \<Rightarrow> files \<Rightarrow> Commit \<Rightarrow> bool" where
  "good_commit X C fs c \<longleftrightarrow> json_ok X \<and> wf_commit c \<and>
     (\<forall>b. commit_to_canonical_json X c = Ok b \<longrightarrow> storable X C b \<and>
        (let oid = compute_oid (x_blake3 X) KCommit b in loose_contains fs oid \<longrightarrow> loose_get X fs oid KCommit = Ok b))"

definition good_manifest :: "'j Ext \<Rightarrow> u64 \<Rightarrow> files \<Rightarrow> Manifest \<Rightarrow> bool" where
  "good_manifest X C fs m \<longleftrightarrow> json_ok X \<and> wf_manifest m \<and>
     (\<forall>b. manifest_to_canonical_json X m = Ok b \<longrightarrow> storable X C b \<and>
        (let oid = compute_oid (x_blake3 X) KManifest b in loose_contains fs oid \<longrightarrow> loose_get X fs oid KManifest = Ok b))"

lemma put_commit_Ok:
  "put_commit X C fs w c = (fs', Ok oid) \<longleftrightarrow>
   (\<exists>b. commit_to_canonical_json X c = Ok b \<and> loose_put X C fs w KCommit b = (fs', Ok oid))"
  by (auto simp: put_commit_def split: res.splits)

lemma put_manifest_Ok:
  "put_manifest X C fs w m = (fs', Ok oid) \<longleftrightarrow>
   (\<exists>b. manifest_validate m = Ok () \<and> manifest_to_canonical_json X m = Ok b \<and> loose_put X C fs w KManifest b = (fs', Ok oid))"
  by (cases "manifest_validate m") (auto simp: put_manifest_def split: res.splits)

interpretation commit_cache: read_through "load_commit X" "put_commit X C" "good_commit X C" for X C
proof
  fix fs w c fs' r oid k
  assume "put_commit X C fs w c = (fs', r)" "load_commit X fs oid = Ok k"
  then show "load_commit X fs' oid = Ok k"
    by (auto simp: put_commit_def load_commit_def loose_put_keeps split: res.splits)
next
  fix fs c w fs' oid
  assume g: "good_commit X C fs c" and "put_commit X C fs w c = (fs', Ok oid)"
  then obtain b where b: "commit_to_canonical_json X c = Ok b" and put: "loose_put X C fs w KCommit b = (fs', Ok oid)"
    by (auto simp: put_commit_Ok)
  then have "oid = compute_oid (x_blake3 X) KCommit b \<and> loose_get X fs' oid KCommit = Ok b"
    using g by (intro loose_put_gets [OF put]) (simp_all add: good_commit_def Let_def)
  then show "load_commit X fs' oid = Ok c"
    using g commit_parse_written [of X c b] b by (auto simp: load_commit_def good_commit_def commit_oid_def)
qed

interpretation manifest_cache: read_through "load_manifest X" "put_manifest X C" "good_manifest X C" for X C
proof
  fix fs w m fs' r oid k
  assume "put_manifest X C fs w m = (fs', r)" "load_manifest X fs oid = Ok k"
  then show "load_manifest X fs' oid = Ok k"
    by (auto simp: put_manifest_def load_manifest_def loose_put_keeps split: res.splits)
next
  fix fs m w fs' oid
  assume g: "good_manifest X C fs m" and "put_manifest X C fs w m = (fs', Ok oid)"
  then obtain b where v: "manifest_validate m = Ok ()" and b: "manifest_to_canonical_json X m = Ok b"
    and put: "loose_put X C fs w KManifest b = (fs', Ok oid)"
    by (auto simp: put_manifest_Ok)
  then have "oid = compute_oid (x_blake3 X) KManifest b \<and> loose_get X fs' oid KManifest = Ok b"
    using g by (intro loose_put_gets [OF put]) (simp_all add: good_manifest_def Let_def)
  then show "load_manifest X fs' oid = Ok m"
    using g manifest_parse_written [of X m b] b v by (auto simp: load_manifest_def good_manifest_def manifest_oid_def)
qed

interpretation stored_commits: commit_source "load_commit X fs" for X fs
  by unfold_locales (auto simp: load_commit_def wf_commit_def split: if_splits dest!: commit_parse_sound)

section \<open>What the stores promise\<close>

text \<open>A client session on the two stores, in terms of their operations.\<close>

fun commit_session ::
  "'j Ext \<Rightarrow> u64 \<Rightarrow> files \<Rightarrow> commit_cache \<Rightarrow> Commit access list \<Rightarrow> (Commit res + Oid res) list" where
  "commit_session X C fs cache [] = []"
| "commit_session X C fs cache (Read oid # ops) =
     (case commit_read X fs cache oid of (cache', r) \<Rightarrow> Inl r # commit_session X C fs cache' ops)"
| "commit_session X C fs cache (Write w c # ops) =
     (case commit_write X C fs w cache c of ((fs', cache'), r) \<Rightarrow> Inr r # commit_session X C fs' cache' ops)"

fun manifest_session ::
  "'j Ext \<Rightarrow> u64 \<Rightarrow> files \<Rightarrow> manifest_cache \<Rightarrow> Manifest access list \<Rightarrow> (Manifest res + Oid res) list" where
  "manifest_session X C fs cache [] = []"
| "manifest_session X C fs cache (Read oid # ops) =
     (case manifest_read X fs cache oid of (cache', r) \<Rightarrow> Inl r # manifest_session X C fs cache' ops)"
| "manifest_session X C fs cache (Write w m # ops) =
     (case manifest_write X C fs w cache m of ((fs', cache'), r) \<Rightarrow> Inr r # manifest_session X C fs' cache' ops)"

lemma commit_session_run: "commit_session X C fs cache ops = cached_run (load_commit X) (put_commit X C) fs cache ops"
  by (induction X C fs cache ops rule: commit_session.induct)
    (auto simp: commit_read_def commit_write_def split: prod.splits res.splits)

lemma manifest_session_run: "manifest_session X C fs cache ops = cached_run (load_manifest X) (put_manifest X C) fs cache ops"
  by (induction X C fs cache ops rule: manifest_session.induct)
    (auto simp: manifest_read_def manifest_write_def split: prod.splits res.splits)

text \<open>
  C28: the caches of \<open>CommitStore\<close> and \<open>ManifestStore\<close> cannot be observed. Any sequence of reads and writes that starts with empty
  caches gives the same results as one in which every read goes to the object files, provided that every commit or manifest written is well-formed and
  an object that is already stored under its address is that object.
\<close>

theorem caches_transparent:
  assumes "good_run (good_commit X C) (put_commit X C) fs ops" "good_run (good_manifest X C) (put_manifest X C) fs mops"
  shows "commit_session X C fs Map.empty ops = plain_run (load_commit X) (put_commit X C) fs ops \<and>
    manifest_session X C fs Map.empty mops = plain_run (load_manifest X) (put_manifest X C) fs mops"
  using commit_cache.runs_agree [OF commit_cache.coherent_empty assms(1)]
    manifest_cache.runs_agree [OF manifest_cache.coherent_empty assms(2)]
  by (simp add: commit_session_run manifest_session_run)

text \<open>
  C29: ancestry over stored commits. When every commit below \<open>of\<close> can be loaded, \<open>is_ancestor\<close> answers whether its first argument is
  reachable from the second through parent links, and it answers within two steps for every commit and two more.
\<close>

theorem is_ancestor_decides:
  assumes "complete_history (load_commit X fs) V" "of_oid \<in> V" "2 * card V + 1 < fuel"
  shows "is_ancestor (load_commit X fs) fuel maybe of_oid = Ok ((of_oid, maybe) \<in> (parent_of (load_commit X fs))\<^sup>*)"
  using assms by (rule stored_commits.is_ancestor_correct)

text \<open>
  C30: \<open>merge_base\<close> over stored commits returns nothing exactly when the histories are unrelated; otherwise it returns a common
  ancestor, and one that is the fewest generations away from \<open>b\<close>.
\<close>

theorem merge_base_nearest:
  assumes "complete_history (load_commit X fs) V" "a \<in> V" "b \<in> V" "2 * card V + 1 < fuel"
  shows "\<exists>r. merge_base (load_commit X fs) fuel a b = Ok r \<and>
    nearest (load_commit X fs) b ((parent_of (load_commit X fs))\<^sup>* `` {a}) r"
  using assms by (rule stored_commits.merge_base_correct)

text \<open>
  Note: the objects that gc keeps and push sends: when the history and its manifests can be loaded, \<open>reachable_objects\<close> returns exactly
  the commits reachable from the tips with their manifests, topologies, header blocks and group blocks; and when it returns a set at all it is that
  set and nothing on the way was unreadable.
\<close>

theorem reachable_objects_live:
  assumes "complete_history (load_commit X fs) V" "set tips \<subseteq> V" "card V < fuel"
    and "\<forall>oid\<in>V. \<forall>c. load_commit X fs oid = Ok c \<longrightarrow> is_Ok (load_manifest X fs (c_manifest c))"
  shows "reachable_objects (load_commit X fs) (load_manifest X fs) fuel tips =
      Ok (live_objects (load_commit X fs) (load_manifest X fs) tips) \<and>
    (reachable_objects (load_commit X fs') (load_manifest X fs') fuel' tips = Ok S \<longrightarrow>
      S = live_objects (load_commit X fs') (load_manifest X fs') tips)"
  using reachable_objects_exact [OF assms] reachable_objects_sound by blast

lemma parent_of_put: "put_commit X C fs w c = (fs', r) \<Longrightarrow> parent_of (load_commit X fs) \<subseteq> parent_of (load_commit X fs')"
  using commit_cache.load_stable by (fastforce simp: parent_of_def)


section \<open>A concrete repository\<close>

text \<open>
  An instance of the libraries that prints one commit and one manifest as single bytes, and a store that holds these two
  objects: the commit is a root, its manifest is the example manifest.
\<close>

definition toy_pair :: "toy_json \<Rightarrow> toy_json \<Rightarrow> toy_json Ext" where
  "toy_pair j0 j1 = (toy_ext j0)\<lparr>
     j_parse := (\<lambda>b. if b = [2] then Some j1 else j_parse (toy_ext j0) b),
     j_dump := (\<lambda>j. if j = j1 then Some [2] else j_dump (toy_ext j0) j)\<rparr>"

lemma toy_pair_blake3 [simp]: "x_blake3 (toy_pair j0 j1) = toy_blake3"
  by (simp add: toy_pair_def)

lemma toy_pair_blake3_ok: "blake3_ok (toy_pair j0 j1)"
  by (simp add: blake3_ok_def)

lemma toy_pair_json_ok: "json_ok (toy_pair j0 j1)"
  unfolding json_ok_def toy_pair_def toy_ext_def
  by (auto simp: map_of_sort_key comp_def map_of_eq_None_iff intro: rev_image_eqI)

abbreviation manifest_addr :: Oid where
  "manifest_addr \<equiv> compute_oid toy_blake3 KManifest [2]"

abbreviation root_addr :: Oid where
  "root_addr \<equiv> compute_oid toy_blake3 KCommit [1]"

definition root_commit :: Commit where
  "root_commit = example_commit\<lparr>c_parents := [], c_manifest := manifest_addr\<rparr>"

definition libs_of :: "Manifest \<Rightarrow> toy_json Ext" where
  "libs_of m = toy_pair (commit_json (toy_ext (TBool True)) root_commit) (manifest_json (toy_ext (TBool True)) m)"

definition files_of :: "Manifest \<Rightarrow> files" where
  "files_of m = fst (put_commit (libs_of m) 4 (fst (put_manifest (libs_of m) 4 Map.empty True m)) True root_commit)"

abbreviation example_libs :: "toy_json Ext" where
  "example_libs \<equiv> libs_of example_manifest"

abbreviation example_files :: files where
  "example_files \<equiv> files_of example_manifest"

lemma root_commit_wf: "wf_commit root_commit"
  by (simp add: root_commit_def wf_commit_def example_commit_def wf_oid_def kOidBytes_def is_valid_timestamp_def is_digit_def compute_oid_def)

lemma example_libs_ok: "json_ok (libs_of m)" "blake3_ok (libs_of m)" "x_blake3 (libs_of m) = toy_blake3"
  by (simp_all add: libs_of_def toy_pair_json_ok toy_pair_blake3_ok)

lemma toy_pair_builders:
  "j_obj (toy_pair j0 j1) = j_obj (toy_ext j0)" "j_arr (toy_pair j0 j1) = j_arr (toy_ext j0)" "j_str (toy_pair j0 j1) = j_str (toy_ext j0)"
  "j_u64 (toy_pair j0 j1) = j_u64 (toy_ext j0)"
  by (simp_all add: toy_pair_def)

lemma json_toy_pair:
  "commit_json (toy_pair j0 j1) c = commit_json (toy_ext (TBool True)) c"
  "manifest_json (toy_pair j0 j1) m = manifest_json (toy_ext (TBool True)) m"
proof -
  have "commit_json (toy_pair j0 j1) c = commit_json (toy_ext j0) c" "manifest_json (toy_pair j0 j1) m = manifest_json (toy_ext j0) m"
    unfolding commit_json_def manifest_json_def buffer_entry_json_def group_entry_json_def toy_pair_builders by (rule refl)+
  then show "commit_json (toy_pair j0 j1) c = commit_json (toy_ext (TBool True)) c"
    "manifest_json (toy_pair j0 j1) m = manifest_json (toy_ext (TBool True)) m"
    by (simp_all add: commit_json_toy [of j0 c "TBool True"] manifest_json_toy [of j0 m "TBool True"])
qed

lemma json_kinds_differ: "commit_json (toy_ext j) c \<noteq> manifest_json (toy_ext j) m"
proof -
  have "toy_at (commit_json (toy_ext j) c) ''author'' \<noteq> None"
    by (simp add: commit_json_def map_of_sort_key)
  moreover have "toy_at (manifest_json (toy_ext j) m) ''author'' = None"
    by (simp add: manifest_json_def map_of_sort_key)
  ultimately show ?thesis
    by metis
qed

lemma example_bytes:
  "commit_to_canonical_json (libs_of m) root_commit = Ok [1]" "manifest_to_canonical_json (libs_of m) m = Ok [2]"
  unfolding commit_to_canonical_json_def manifest_to_canonical_json_def libs_of_def json_toy_pair
  by (simp_all add: toy_pair_def json_kinds_differ)

lemma example_storable: "storable (libs_of m) 4 [b]"
  by (simp add: storable_def example_libs_ok is_pow2_def chunk_total_def)

lemma example_manifest_wf: "wf_manifest example_manifest"
  by (simp add: wf_manifest_def wf_group_entry_def example_manifest_def wf_oid_def kOidBytes_def less_char_def)

lemma example_good:
  "wf_manifest m \<Longrightarrow> good_manifest (libs_of m) 4 Map.empty m"
  "\<not> loose_contains fs root_addr \<Longrightarrow> good_commit (libs_of m) 4 fs root_commit"
  using example_libs_ok example_storable root_commit_wf
  by (simp_all add: good_manifest_def good_commit_def example_bytes loose_contains_def)

lemma toy_blake3_first: "toy_blake3 b ! 0 = of_nat (length b)"
proof -
  have "(of_nat (length b + 256 * n) :: byte) = of_nat (length b)" for n
  proof -
    have z: "(256 :: byte) = 0"
      by simp
    have "(of_nat (length b + 256 * n) :: byte) = of_nat (length b) + 256 * of_nat n"
      by (simp only: of_nat_add of_nat_mult of_nat_numeral)
    then show ?thesis
      by (simp only: z mult_zero_left add_0_right)
  qed
  moreover have "le_bytes 32 v ! 0 = of_nat v" for v
    using le_bytes.simps(2) [of 31 v] by simp
  ultimately show ?thesis
    by (simp only: toy_blake3_def)
qed

lemma addresses_differ: "oid_fanout_path root_addr \<noteq> oid_fanout_path manifest_addr"
proof
  assume "oid_fanout_path root_addr = oid_fanout_path manifest_addr"
  then have "root_addr = manifest_addr"
    by (simp add: oid_fanout_inj compute_oid_wf [OF example_libs_ok(2), unfolded example_libs_ok(3)])
  then have "root_addr ! 0 = manifest_addr ! 0"
    by simp
  then show False
    by (simp add: compute_oid_def toy_blake3_first hasher_update_def begin_frame_eq frame_prefix_text_def)
qed

lemma example_put_manifest:
  assumes "manifest_validate m = Ok ()"
  obtains f where "put_manifest (libs_of m) 4 Map.empty True m =
    (Map.empty(oid_fanout_path manifest_addr \<mapsto> f), Ok manifest_addr)"
  using loose_put_new [OF example_storable [of m 2], of Map.empty KManifest] assms
  by (auto simp: put_manifest_def example_bytes example_libs_ok loose_contains_def)

lemma example_put_commit:
  assumes "\<not> loose_contains fs root_addr"
  obtains f where "put_commit (libs_of m) 4 fs True root_commit = (fs(oid_fanout_path root_addr \<mapsto> f), Ok root_addr)"
  using loose_put_new [OF example_storable [of m 1], of fs KCommit] assms
  by (auto simp: put_commit_def example_bytes example_libs_ok)

lemma files_of_loads:
  assumes "wf_manifest m" "manifest_validate m = Ok ()"
  shows "load_commit (libs_of m) (files_of m) root_addr = Ok root_commit"
    "load_manifest (libs_of m) (files_of m) manifest_addr = Ok m"
    "p \<notin> {oid_fanout_path root_addr, oid_fanout_path manifest_addr} \<Longrightarrow> files_of m p = None"
proof -
  obtain f where m: "put_manifest (libs_of m) 4 Map.empty True m =
    (Map.empty(oid_fanout_path manifest_addr \<mapsto> f), Ok manifest_addr)" (is "_ = (?fs, _)")
    by (rule example_put_manifest [OF assms(2)])
  have new: "\<not> loose_contains ?fs root_addr"
    using addresses_differ by (simp add: loose_contains_def)
  then obtain g where c: "put_commit (libs_of m) 4 ?fs True root_commit = (?fs(oid_fanout_path root_addr \<mapsto> g), Ok root_addr)"
    by (rule example_put_commit)
  have files: "files_of m = ?fs(oid_fanout_path root_addr \<mapsto> g)"
    by (simp add: files_of_def m c)
  show "load_commit (libs_of m) (files_of m) root_addr = Ok root_commit"
    unfolding files by (rule commit_cache.store_load [OF example_good(2) [OF new] c])
  have "load_manifest (libs_of m) ?fs manifest_addr = Ok m"
    by (rule manifest_cache.store_load [OF example_good(1) [OF assms(1)] m])
  then show "load_manifest (libs_of m) (files_of m) manifest_addr = Ok m"
    using c loose_put_keeps unfolding files by (fastforce simp: put_commit_Ok load_manifest_def)
  show "p \<notin> {oid_fanout_path root_addr, oid_fanout_path manifest_addr} \<Longrightarrow> files_of m p = None"
    by (simp add: files)
qed

lemmas example_loads = files_of_loads(1,2) [OF example_manifest_wf validate_example_manifest]

lemma example_complete: "complete_history (load_commit example_libs example_files) {root_addr}"
  by (simp add: complete_history_def example_loads root_commit_def)

theorem caches_transparent_witness:
  "commit_session example_libs 4 Map.empty Map.empty [Write True root_commit, Read root_addr] =
     plain_run (load_commit example_libs) (put_commit example_libs 4) Map.empty [Write True root_commit, Read root_addr] \<and>
   manifest_session example_libs 4 Map.empty Map.empty [Write True example_manifest, Read manifest_addr] =
     plain_run (load_manifest example_libs) (put_manifest example_libs 4) Map.empty [Write True example_manifest, Read manifest_addr]"
  using example_good example_manifest_wf by (intro caches_transparent) (simp_all add: loose_contains_def)

theorem is_ancestor_decides_witness:
  "is_ancestor (load_commit example_libs example_files) 4 manifest_addr root_addr =
     Ok ((root_addr, manifest_addr) \<in> (parent_of (load_commit example_libs example_files))\<^sup>*)"
  using is_ancestor_decides [OF example_complete, of root_addr 4 manifest_addr] by simp

theorem merge_base_nearest_witness:
  "\<exists>r. merge_base (load_commit example_libs example_files) 4 root_addr root_addr = Ok r \<and>
     nearest (load_commit example_libs example_files) root_addr
       ((parent_of (load_commit example_libs example_files))\<^sup>* `` {root_addr}) r"
  using merge_base_nearest [OF example_complete, of root_addr root_addr 4] by simp

theorem reachable_objects_live_witness:
  "reachable_objects (load_commit example_libs example_files) (load_manifest example_libs example_files) 2 [root_addr] =
     Ok (live_objects (load_commit example_libs example_files) (load_manifest example_libs example_files) [root_addr])"
  using reachable_objects_live [OF example_complete, of "[root_addr]" 2] by (simp add: example_loads root_commit_def)


end
