(* ===== verification/Store_Gc.thy ===== *)
theory Store_Gc
  imports Store_Commits
begin

section \<open>Garbage collection\<close>

text \<open>
  \<open>src/modules/store/src/gc.cpp\<close>. A temporary directory is the list of its regular files: name, answer of \<open>file_size\<close> and answer
  of \<open>remove\<close>. The objects directory is the map of \<open>Store_Loose\<close>; \<open>listing\<close> is what the directory iterators produce and \<open>rm\<close> answers the
  removal of an object. The outcome of taking the lock and the content of the mount marker are arguments: \<open>lock\<close>, and \<open>marker\<close> (no marker,
  one from which no number can be read, or a process id) with \<open>kill\<close>, the outcome of sending signal 0.
\<close>

record GcOptions =
  gco_prune :: bool
  gco_dry_run :: bool

record GcReport =
  objects_scanned :: u64
  objects_pruned :: u64
  bytes_reclaimed :: u64
  temp_files_removed :: u64

type_synonym temp_dir = "(string \<times> u64 option \<times> bool) list"

fun sweep_temp_dir :: "bool \<Rightarrow> temp_dir \<Rightarrow> u64 \<Rightarrow> temp_dir \<times> u64 \<times> u64" where
  "sweep_temp_dir dry_run [] reclaimed = ([], 0, reclaimed)"
| "sweep_temp_dir dry_run ((name, sz, rm_ok) # fs) reclaimed =
     (case sz of
        None \<Rightarrow> (case sweep_temp_dir dry_run fs reclaimed of (fs', n, r) \<Rightarrow> ((name, sz, rm_ok) # fs', n, r))
      | Some b \<Rightarrow>
          if dry_run then (case sweep_temp_dir dry_run fs (reclaimed + b) of (fs', n, r) \<Rightarrow> ((name, sz, rm_ok) # fs', n + 1, r))
          else if \<not> rm_ok then (case sweep_temp_dir dry_run fs reclaimed of (fs', n, r) \<Rightarrow> ((name, sz, rm_ok) # fs', n, r))
          else (case sweep_temp_dir dry_run fs (reclaimed + b) of (fs', n, r) \<Rightarrow> (fs', n + 1, r)))"

datatype mount_marker = NoMarker | Unreadable | Pid int

datatype kill_outcome = Signalled | NotPermitted | NoProcess

definition mount_attached :: "mount_marker \<Rightarrow> (int \<Rightarrow> kill_outcome) \<Rightarrow> bool res" where
  "mount_attached marker kill =
     (case marker of
        NoMarker \<Rightarrow> Ok False
      | Unreadable \<Rightarrow> SFS_ERR MalformedObject ''mount-daemon.pid''
      | Pid pid \<Rightarrow>
          if pid \<le> 0 then SFS_ERR MalformedObject ''mount-daemon.pid''
          else Ok (kill pid \<noteq> NoProcess))"

definition gc_tips :: "RefFiles \<Rightarrow> Oid list" where
  "gc_tips R =
     map ref_target (list_heads R) @
     (case read_head R of Ok h \<Rightarrow> (case hd_detached h of Some oid \<Rightarrow> [oid] | None \<Rightarrow> []) | _ \<Rightarrow> [])"

fun prune_objects :: "bool \<Rightarrow> (Oid \<Rightarrow> bool) \<Rightarrow> Oid set \<Rightarrow> Oid list \<Rightarrow> files \<Rightarrow> GcReport \<Rightarrow> files \<times> GcReport" where
  "prune_objects dry_run rm live [] fs report = (fs, report)"
| "prune_objects dry_run rm live (oid # oids) fs report =
     (let report1 = report\<lparr>objects_scanned := objects_scanned report + 1\<rparr>
      in if oid \<in> live then prune_objects dry_run rm live oids fs report1
         else let sz = (case fs (oid_fanout_path oid) of Some f \<Rightarrow> of_nat (length f) | None \<Rightarrow> 0);
                  report2 = report1\<lparr>objects_pruned := objects_pruned report1 + 1, bytes_reclaimed := bytes_reclaimed report1 + sz\<rparr>
              in if dry_run then prune_objects dry_run rm live oids fs report2
                 else if \<not> rm oid then prune_objects dry_run rm live oids fs report1
                 else prune_objects dry_run rm live oids (fs(oid_fanout_path oid := None)) report2)"

definition gc ::
  "'j Ext \<Rightarrow> nat \<Rightarrow> unit res \<Rightarrow> mount_marker \<Rightarrow> (int \<Rightarrow> kill_outcome) \<Rightarrow> (Oid \<Rightarrow> bool) \<Rightarrow> RefFiles \<Rightarrow>
   (string \<times> string) list \<Rightarrow> GcOptions \<Rightarrow> files \<times> temp_dir \<times> temp_dir \<Rightarrow> (files \<times> temp_dir \<times> temp_dir) \<times> GcReport res" where
  "gc X fuel lock marker kill rm R listing opts = (\<lambda>(fs, tmp, incoming).
     case SFS_TRY lock (\<lambda>_. mount_attached marker kill) of
       Err e \<Rightarrow> ((fs, tmp, incoming), Err e)
     | Abort a \<Rightarrow> ((fs, tmp, incoming), Abort a)
     | Ok attached \<Rightarrow>
         if attached then ((fs, tmp, incoming), SFS_ERR RepositoryLocked [])
         else
           (case sweep_temp_dir (gco_dry_run opts) tmp 0 of (tmp', n1, r1) \<Rightarrow>
            case sweep_temp_dir (gco_dry_run opts) incoming r1 of (incoming', n2, r2) \<Rightarrow>
            let report = \<lparr>objects_scanned = 0, objects_pruned = 0, bytes_reclaimed = r2, temp_files_removed = n1 + n2\<rparr>;
                tips = gc_tips R
            in if \<not> gco_prune opts \<or> tips = [] then ((fs, tmp', incoming'), Ok report)
               else case reachable_objects (load_commit X fs) (load_manifest X fs) fuel tips of
                      Err e \<Rightarrow> ((fs, tmp', incoming'), Err e)
                    | Abort a \<Rightarrow> ((fs, tmp', incoming'), Abort a)
                    | Ok live \<Rightarrow>
                        (case prune_objects (gco_dry_run opts) rm live (loose_list_all listing) fs report of (fs', report') \<Rightarrow>
                           ((fs', tmp', incoming'), Ok report'))))"

section \<open>What it keeps and what it removes\<close>

lemma sweep_dry_run: "fst (sweep_temp_dir True dir r) = dir"
  by (induction True dir r rule: sweep_temp_dir.induct) (auto split: option.splits prod.splits)

lemma prune_dry_run: "fst (prune_objects True rm live oids fs report) = fs"
  by (induction oids arbitrary: report) (simp_all add: Let_def)

lemma prune_objects_files:
  "fst (prune_objects False rm live oids fs report) p =
     (if \<exists>oid \<in> set oids. oid \<notin> live \<and> rm oid \<and> oid_fanout_path oid = p then None else fs p)"
  by (induction oids arbitrary: fs report) (auto simp: Let_def)

lemma listed_wf: "oid \<in> set (loose_list_all listing) \<Longrightarrow> wf_oid oid"
  by (auto simp: loose_list_all_def map_filter_def split: res.splits dest: oid_parse_wf)

text \<open>The ways in which \<open>gc\<close> can end: before it touches anything, after the temporary files, and after pruning.\<close>

lemma gc_cases:
  assumes "gc X fuel lock marker kill rm R listing opts (fs, tmp, incoming) = (S', r)"
  obtains (refused) "S' = (fs, tmp, incoming)" "\<not> is_Ok r"
    | (swept) r1 where "S' = (fs, fst (sweep_temp_dir (gco_dry_run opts) tmp 0), fst (sweep_temp_dir (gco_dry_run opts) incoming r1))"
        "\<not> is_Ok r \<or> \<not> gco_prune opts \<or> gc_tips R = []"
    | (pruned) r1 report where "is_Ok r" "gco_prune opts" "gc_tips R \<noteq> []"
        "S' = (fst (prune_objects (gco_dry_run opts) rm (live_objects (load_commit X fs) (load_manifest X fs) (gc_tips R))
           (loose_list_all listing) fs report),
         fst (sweep_temp_dir (gco_dry_run opts) tmp 0), fst (sweep_temp_dir (gco_dry_run opts) incoming r1))"
proof (cases "SFS_TRY lock (\<lambda>_. mount_attached marker kill)")
  case (Ok attached)
  obtain tmp' n1 r1 where t: "sweep_temp_dir (gco_dry_run opts) tmp 0 = (tmp', n1, r1)"
    by (cases "sweep_temp_dir (gco_dry_run opts) tmp 0")
  obtain incoming' n2 r2 where i: "sweep_temp_dir (gco_dry_run opts) incoming r1 = (incoming', n2, r2)"
    by (cases "sweep_temp_dir (gco_dry_run opts) incoming r1")
  define report where "report = \<lparr>objects_scanned = 0, objects_pruned = 0, bytes_reclaimed = r2, temp_files_removed = n1 + n2\<rparr>"
  show ?thesis
  proof (cases "attached \<or> \<not> gco_prune opts \<or> gc_tips R = []")
    case True
    then show ?thesis
      using assms refused swept [of r1] Ok t i by (cases attached) (auto simp: gc_def Let_def)
  next
    case False
    then show ?thesis
    proof (cases "reachable_objects (load_commit X fs) (load_manifest X fs) fuel (gc_tips R)")
      case reach: (Ok live)
      obtain fs' report' where p: "prune_objects (gco_dry_run opts) rm live (loose_list_all listing) fs report = (fs', report')"
        by fastforce
      have "S' = (fs', tmp', incoming')" "is_Ok r"
        using assms Ok t i False reach p by (auto simp: gc_def Let_def report_def)
      then show ?thesis
        using pruned [of report r1] False t i p reachable_objects_sound [OF reach] by simp
    qed (use assms swept [of r1] Ok t i False in \<open>auto simp: gc_def Let_def\<close>)
  qed
qed (use assms refused in \<open>auto simp: gc_def\<close>)


section \<open>A concrete collection\<close>

text \<open>The example repository with its branch on the root commit, and a file that a crashed write left behind.\<close>

definition gc_refs :: RefFiles where
  "gc_refs = \<lparr>rf_head = Some (''ref: refs/heads/main'' @ newline), rf_heads = [(''main'', oid_to_string root_addr @ newline)]\<rparr>"


end
