(* ===== verification/Store_Merge.thy ===== *)
theory Store_Merge
  imports Store_Commits
begin

section \<open>Three-way merge over tensor groups\<close>

text \<open>
  \<open>src/modules/store/src/merge_logic.cpp\<close>. A pointer to a group entry that may be null is an option. \<open>merged.groups\<close> is a
  \<open>std::map\<close>: an association list in ascending order of the names, as in \<open>Format_Manifest\<close>. \<open>plan_merge\<close> takes the readers of the two stores, as the
  walks of \<open>Store_Dag\<close> do.
\<close>

datatype MergeStrategy = Refuse | Ours | Theirs

datatype GroupResolution = Unchanged | TakeOurs | TakeTheirs | Conflict

record GroupConflict =
  gc_group :: string
  gc_base_block :: Oid
  gc_our_block :: Oid
  gc_their_block :: Oid

record MergeResult =
  mr_fast_forward :: bool
  mr_new_commit :: "Oid option"
  mr_merged :: "Manifest option"
  mr_conflicts :: "GroupConflict list"

definition same_content :: "GroupEntry \<Rightarrow> GroupEntry \<Rightarrow> bool" where
  "same_content a b \<longleftrightarrow>
     (if ge_mode a \<noteq> ge_mode b then False
      else if ge_mode a = Full then ge_block a = ge_block b
      else if ge_diff_block a \<noteq> ge_diff_block b then False
      else case (ge_base a, ge_base b) of
             (None, None) \<Rightarrow> True
           | (Some x, Some y) \<Rightarrow> db_commit x = db_commit y \<and> db_group x = db_group y
           | _ \<Rightarrow> False)"

definition reportable_block :: "GroupEntry option \<Rightarrow> Oid" where
  "reportable_block g =
     (case g of
        None \<Rightarrow> null_oid
      | Some e \<Rightarrow> (case ge_block e of
            Some b \<Rightarrow> b
          | None \<Rightarrow> (case ge_diff_block e of Some d \<Rightarrow> d | None \<Rightarrow> null_oid)))"

definition resolve_group :: "GroupEntry option \<Rightarrow> GroupEntry option \<Rightarrow> GroupEntry option \<Rightarrow> GroupResolution" where
  "resolve_group base ours theirs =
     (case (ours, theirs) of
        (None, None) \<Rightarrow> Unchanged
      | (None, Some t) \<Rightarrow> if base \<noteq> None then Conflict else TakeTheirs
      | (Some o', None) \<Rightarrow> if base \<noteq> None then Conflict else TakeOurs
      | (Some o', Some t) \<Rightarrow>
          if same_content o' t then Unchanged
          else case base of
                 None \<Rightarrow> Conflict
               | Some b \<Rightarrow>
                   let ours_changed = \<not> same_content b o'; theirs_changed = \<not> same_content b t
                   in if ours_changed \<and> theirs_changed then Conflict
                      else if theirs_changed then TakeTheirs
                      else if ours_changed then TakeOurs
                      else Unchanged)"

primrec map_assign :: "string \<Rightarrow> 'a \<Rightarrow> (string \<times> 'a) list \<Rightarrow> (string \<times> 'a) list" where
  "map_assign k v [] = [(k, v)]"
| "map_assign k v (kv # kvs) =
     (if k = fst kv then (k, v) # kvs else if k < fst kv then (k, v) # kv # kvs else kv # map_assign k v kvs)"

text \<open>One round of the loop over the names: the decision after \<open>--ours\<close> or \<open>--theirs\<close>, or a conflict to report.\<close>

definition settle :: "MergeStrategy \<Rightarrow> GroupEntry option \<Rightarrow> GroupEntry option \<Rightarrow> GroupEntry option \<Rightarrow> GroupResolution" where
  "settle strategy b ours theirs =
     (case resolve_group b ours theirs of
        Conflict \<Rightarrow>
          (case strategy of
             Ours \<Rightarrow> if ours \<noteq> None then TakeOurs else Unchanged
           | Theirs \<Rightarrow> if theirs \<noteq> None then TakeTheirs else Unchanged
           | Refuse \<Rightarrow> Conflict)
      | d \<Rightarrow> d)"

definition chosen :: "GroupResolution \<Rightarrow> GroupEntry option \<Rightarrow> GroupEntry option \<Rightarrow> GroupEntry option" where
  "chosen decision ours theirs =
     (case decision of
        TakeTheirs \<Rightarrow> theirs
      | Conflict \<Rightarrow> None
      | _ \<Rightarrow> (case ours of Some g \<Rightarrow> Some g | None \<Rightarrow> theirs))"

fun merge_groups ::
  "MergeStrategy \<Rightarrow> Manifest \<Rightarrow> Manifest \<Rightarrow> Manifest \<Rightarrow> string list \<Rightarrow> (string \<times> GroupEntry) list \<times> GroupConflict list \<Rightarrow>
   (string \<times> GroupEntry) list \<times> GroupConflict list" where
  "merge_groups strategy bm om tm [] st = st"
| "merge_groups strategy bm om tm (name # names) (groups, conflicts) =
     (let b = find_group bm name; ours = find_group om name; theirs = find_group tm name;
          decision = settle strategy b ours theirs
      in if decision = Conflict then
           merge_groups strategy bm om tm names (groups, conflicts @
             [\<lparr>gc_group = name, gc_base_block = reportable_block b, gc_our_block = reportable_block ours,
               gc_their_block = reportable_block theirs\<rparr>])
         else
           (case chosen decision ours theirs of
              Some g \<Rightarrow> merge_groups strategy bm om tm names (map_assign name g groups, conflicts)
            | None \<Rightarrow> merge_groups strategy bm om tm names (groups, conflicts)))"

definition group_names :: "Manifest \<Rightarrow> Manifest \<Rightarrow> string list" where
  "group_names om tm = map fst (m_groups om) @ filter (\<lambda>name. find_group om name = None) (map fst (m_groups tm))"

definition merge_manifests :: "MergeStrategy \<Rightarrow> Manifest \<Rightarrow> Manifest \<Rightarrow> Manifest \<Rightarrow> MergeResult res" where
  "merge_manifests strategy bm om tm =
     (if fi_header_block (m_file om) \<noteq> fi_header_block (m_file tm) then SFS_ERR MergeConflict []
      else case merge_groups strategy bm om tm (group_names om tm) ([], []) of (groups, conflicts) \<Rightarrow>
        if conflicts \<noteq> []
        then Ok \<lparr>mr_fast_forward = False, mr_new_commit = None, mr_merged = None, mr_conflicts = conflicts\<rparr>
        else let merged = om\<lparr>m_groups := groups\<rparr>
             in SFS_TRY (manifest_validate merged) (\<lambda>_.
                Ok \<lparr>mr_fast_forward = False, mr_new_commit = None, mr_merged = Some merged, mr_conflicts = []\<rparr>))"

definition forward_to :: "Oid \<Rightarrow> MergeResult" where
  "forward_to oid = \<lparr>mr_fast_forward = True, mr_new_commit = Some oid, mr_merged = None, mr_conflicts = []\<rparr>"

definition plan_merge ::
  "commit_reader \<Rightarrow> (Oid \<Rightarrow> Manifest res) \<Rightarrow> nat \<Rightarrow> Oid \<Rightarrow> Oid \<Rightarrow> MergeStrategy \<Rightarrow> MergeResult res" where
  "plan_merge read read_manifest fuel ours theirs strategy =
     (if ours = theirs then Ok (forward_to ours)
      else
        SFS_TRY (is_ancestor read fuel ours theirs) (\<lambda>ours_is_ancestor.
        if ours_is_ancestor then Ok (forward_to theirs)
        else
        SFS_TRY (is_ancestor read fuel theirs ours) (\<lambda>theirs_is_ancestor.
        if theirs_is_ancestor then Ok (forward_to ours)
        else
        SFS_TRY (merge_base read fuel ours theirs) (\<lambda>base_oid.
        case base_oid of
          None \<Rightarrow> SFS_ERR MergeConflict []
        | Some b \<Rightarrow>
            SFS_TRY (read ours) (\<lambda>oc. SFS_TRY (read theirs) (\<lambda>tc. SFS_TRY (read b) (\<lambda>bc.
            SFS_TRY (read_manifest (c_manifest oc)) (\<lambda>om.
            SFS_TRY (read_manifest (c_manifest tc)) (\<lambda>tm.
            SFS_TRY (read_manifest (c_manifest bc)) (\<lambda>bm. merge_manifests strategy bm om tm))))))))))"

section \<open>What a merge may produce\<close>

lemma same_content_refl [simp]: "same_content g g"
  by (simp add: same_content_def split: option.splits)

lemma same_content_sym: "same_content a b \<longleftrightarrow> same_content b a"
  by (auto simp: same_content_def split: option.splits)

lemma same_content_trans: "same_content a b \<Longrightarrow> same_content b c \<Longrightarrow> same_content a c"
  by (auto simp: same_content_def split: option.splits if_splits)

lemma map_of_assign [simp]: "map_of (map_assign k v kvs) = (map_of kvs)(k \<mapsto> v)"
  by (induction kvs) (auto simp: fun_eq_iff)

lemma settle_nowhere [simp]: "chosen (settle strategy b None None) None None = None"
  by (simp add: settle_def resolve_group_def chosen_def)

definition decision_on :: "MergeStrategy \<Rightarrow> Manifest \<Rightarrow> Manifest \<Rightarrow> Manifest \<Rightarrow> string \<Rightarrow> GroupResolution" where
  "decision_on strategy bm om tm name = settle strategy (find_group bm name) (find_group om name) (find_group tm name)"

lemma merge_groups_conflicts:
  "map gc_group (snd (merge_groups strategy bm om tm names (groups, conflicts))) =
     map gc_group conflicts @ filter (\<lambda>name. decision_on strategy bm om tm name = Conflict) names"
  by (induction names arbitrary: groups conflicts) (auto simp: Let_def decision_on_def split: option.splits)

lemma merge_groups_lookup:
  "map_of (fst (merge_groups strategy bm om tm names (groups, conflicts))) name =
     (case chosen (decision_on strategy bm om tm name) (find_group om name) (find_group tm name) of
        Some g \<Rightarrow> if name \<in> set names then Some g else map_of groups name
      | None \<Rightarrow> map_of groups name)"
proof (induction names arbitrary: groups conflicts)
  case (Cons n names)
  let ?pick = "\<lambda>name. chosen (decision_on strategy bm om tm name) (find_group om name) (find_group tm name)"
  define groups1 where "groups1 = (case ?pick n of Some g \<Rightarrow> map_assign n g groups | None \<Rightarrow> groups)"
  have "?pick n = None" if "decision_on strategy bm om tm n = Conflict"
    using that by (simp add: chosen_def)
  then have "\<exists>conflicts1. merge_groups strategy bm om tm (n # names) (groups, conflicts) = merge_groups strategy bm om tm names (groups1, conflicts1)"
    by (cases "decision_on strategy bm om tm n = Conflict"; cases "?pick n") (auto simp: Let_def groups1_def simp flip: decision_on_def)
  then obtain conflicts1
    where "merge_groups strategy bm om tm (n # names) (groups, conflicts) = merge_groups strategy bm om tm names (groups1, conflicts1)"
    by blast
  moreover have "map_of groups1 = (case ?pick n of Some g \<Rightarrow> (map_of groups)(n \<mapsto> g) | None \<Rightarrow> map_of groups)"
    by (simp add: groups1_def split: option.splits)
  ultimately show ?case
    using Cons.IH [of groups1 conflicts1] by (cases "name = n"; cases "?pick name"; cases "?pick n") auto
qed (simp split: option.splits)

lemma set_group_names: "name \<in> set (group_names om tm) \<longleftrightarrow> find_group om name \<noteq> None \<or> find_group tm name \<noteq> None"
  by (auto simp: group_names_def find_group_def map_of_eq_None_iff)

lemma merge_manifests_Ok:
  assumes "merge_manifests strategy bm om tm = Ok res"
  shows "map gc_group (mr_conflicts res) = filter (\<lambda>name. decision_on strategy bm om tm name = Conflict) (group_names om tm)"
    and "mr_merged res = Some m \<Longrightarrow> mr_conflicts res = [] \<and> manifest_validate m = Ok () \<and> m_file m = m_file om \<and> m_buffer m = m_buffer om \<and>
      find_group m name = chosen (decision_on strategy bm om tm name) (find_group om name) (find_group tm name)"
    and "mr_conflicts res \<noteq> [] \<longleftrightarrow> mr_merged res = None"
proof -
  obtain groups conflicts where mg: "merge_groups strategy bm om tm (group_names om tm) ([], []) = (groups, conflicts)"
    by fastforce
  have conf: "map gc_group conflicts = filter (\<lambda>name. decision_on strategy bm om tm name = Conflict) (group_names om tm)"
    using merge_groups_conflicts [of strategy bm om tm "group_names om tm" "[]" "[]"] mg by simp
  have look: "map_of groups name = chosen (decision_on strategy bm om tm name) (find_group om name) (find_group tm name)" for name
    using merge_groups_lookup [of strategy bm om tm "group_names om tm" "[]" "[]" name] mg set_group_names [of name om tm]
    by (cases "find_group om name"; cases "find_group tm name") (auto simp: decision_on_def split: option.splits)
  have res: "if conflicts \<noteq> [] then mr_merged res = None \<and> mr_conflicts res = conflicts
    else manifest_validate (om\<lparr>m_groups := groups\<rparr>) = Ok () \<and> mr_merged res = Some (om\<lparr>m_groups := groups\<rparr>) \<and> mr_conflicts res = []"
    using assms mg by (auto simp: merge_manifests_def Let_def split: if_splits)
  show "map gc_group (mr_conflicts res) = filter (\<lambda>name. decision_on strategy bm om tm name = Conflict) (group_names om tm)"
    "mr_conflicts res \<noteq> [] \<longleftrightarrow> mr_merged res = None"
    using res conf by (auto split: if_splits)
  show "mr_merged res = Some m \<Longrightarrow> mr_conflicts res = [] \<and> manifest_validate m = Ok () \<and> m_file m = m_file om \<and> m_buffer m = m_buffer om \<and>
      find_group m name = chosen (decision_on strategy bm om tm name) (find_group om name) (find_group tm name)"
    using res look by (auto simp: find_group_def split: if_splits)
qed

lemma settle_conflict: "settle strategy b ours theirs = Conflict \<longleftrightarrow> strategy = Refuse \<and> resolve_group b ours theirs = Conflict"
  by (cases strategy; cases "resolve_group b ours theirs") (auto simp: settle_def)

lemma conflict_present: "decision_on strategy bm om tm name = Conflict \<Longrightarrow> find_group om name \<noteq> None \<or> find_group tm name \<noteq> None"
  by (auto simp: decision_on_def settle_conflict resolve_group_def split: option.splits)

lemma chosen_side: "decision \<noteq> Conflict \<Longrightarrow> chosen decision ours theirs \<in> {ours, theirs}"
  by (cases decision; cases ours) (auto simp: chosen_def)

lemma chosen_three_way:
  assumes "settle strategy (Some b) (Some ours) (Some theirs) \<noteq> Conflict"
  shows "\<exists>g. chosen (settle strategy (Some b) (Some ours) (Some theirs)) (Some ours) (Some theirs) = Some g \<and>
    (same_content b ours \<longrightarrow> same_content g theirs) \<and> (same_content b theirs \<longrightarrow> same_content g ours) \<and>
    (strategy = Ours \<and> \<not> same_content b ours \<longrightarrow> g = ours) \<and>
    (strategy = Theirs \<and> \<not> same_content b theirs \<longrightarrow> same_content g theirs)"
proof (cases "same_content ours theirs")
  case True
  then show ?thesis
    by (auto simp: settle_def resolve_group_def chosen_def)
next
  case False
  then have "\<not> (same_content b ours \<and> same_content b theirs)"
    using same_content_trans [of ours b theirs] same_content_sym [of b ours] by blast
  then show ?thesis
    using assms False
    by (cases strategy; cases "same_content b ours"; cases "same_content b theirs")
      (simp_all add: settle_def resolve_group_def chosen_def)
qed


text \<open>
  Note: fast-forwards lose nothing. Over a complete history \<open>plan_merge\<close> reports a fast-forward exactly when one of the commits is an ancestor of the other,
  and then the commit it moves to is one of the two and has both of them in its history; unrelated histories are refused.
\<close>

theorem plan_merge_fast_forward:
  assumes "complete_history (load_commit X fs) V" "ours \<in> V" "theirs \<in> V" "2 * card V + 1 < fuel"
  defines "R \<equiv> parent_of (load_commit X fs)"
  shows "((\<exists>res. plan_merge (load_commit X fs) read_manifest fuel ours theirs strategy = Ok res \<and> mr_fast_forward res) \<longleftrightarrow>
      (theirs, ours) \<in> R\<^sup>* \<or> (ours, theirs) \<in> R\<^sup>*) \<and>
    (\<forall>res. plan_merge (load_commit X fs) read_manifest fuel ours theirs strategy = Ok res \<longrightarrow> mr_fast_forward res \<longrightarrow>
      (\<exists>n \<in> {ours, theirs}. mr_new_commit res = Some n \<and> (n, ours) \<in> R\<^sup>* \<and> (n, theirs) \<in> R\<^sup>*)) \<and>
    (R\<^sup>* `` {ours} \<inter> R\<^sup>* `` {theirs} = {} \<longrightarrow>
      plan_merge (load_commit X fs) read_manifest fuel ours theirs strategy = SFS_ERR MergeConflict [])"
proof -
  have anc: "is_ancestor (load_commit X fs) fuel ours theirs = Ok ((theirs, ours) \<in> R\<^sup>*)"
    "is_ancestor (load_commit X fs) fuel theirs ours = Ok ((ours, theirs) \<in> R\<^sup>*)"
    unfolding R_def by (rule stored_commits.is_ancestor_correct [OF assms(1,3,4)] stored_commits.is_ancestor_correct [OF assms(1,2,4)])+
  obtain r where r: "merge_base (load_commit X fs) fuel ours theirs = Ok r" "nearest (load_commit X fs) theirs (R\<^sup>* `` {ours}) r"
    unfolding R_def using stored_commits.merge_base_correct [OF assms(1-4)] by blast
  have no_ff: "\<not> mr_fast_forward res" if "merge_manifests strategy bm om tm = Ok res" for bm om tm res
    using that by (auto simp: merge_manifests_def Let_def split: prod.splits if_splits)
  show ?thesis
  proof (cases "(theirs, ours) \<in> R\<^sup>* \<or> (ours, theirs) \<in> R\<^sup>*")
    case True
    then show ?thesis
      using anc by (auto simp: plan_merge_def forward_to_def)
  next
    case False
    then have "ours \<noteq> theirs"
      by auto
    moreover have "r = None" if "R\<^sup>* `` {ours} \<inter> R\<^sup>* `` {theirs} = {}"
      using r(2) that by (auto simp: nearest_def R_def relpow_imp_rtrancl split: option.splits)
    ultimately show ?thesis
      using anc r(1) False no_ff by (fastforce simp: plan_merge_def split: option.splits)
  qed
qed

section \<open>Deleted groups\<close>

text \<open>
  A group that one side deleted and the other side did not touch is reported as a conflict, and \<open>--ours\<close> on a group that we deleted brings
  their entry back: the decision becomes \<open>Unchanged\<close>, which falls through to the other side.
\<close>

theorem deletion_is_conflict: "resolve_group (Some b) None (Some b) = Conflict \<and> resolve_group (Some b) (Some b) None = Conflict"
  by (simp add: resolve_group_def)

theorem ours_resurrects_deleted: "chosen (settle Ours (Some b) None (Some theirs)) None (Some theirs) = Some theirs"
  by (simp add: settle_def resolve_group_def chosen_def)

section \<open>Concrete merges\<close>

definition their_manifest :: Manifest where
  "their_manifest = example_manifest\<lparr>m_groups :=
     map_assign ''w'' \<lparr>ge_mode = Full, ge_block = Some (replicate 32 9), ge_base = None, ge_diff_block = None, ge_chain_depth = 0\<rparr>
       (m_groups example_manifest)\<rparr>"

lemma example_merge:
  "merge_manifests Refuse example_manifest example_manifest their_manifest =
   Ok \<lparr>mr_fast_forward = False, mr_new_commit = None, mr_merged = Some their_manifest, mr_conflicts = []\<rparr>"
  by code_simp


theorem plan_merge_fast_forward_witness:
  "\<exists>res. plan_merge (load_commit example_libs example_files) (load_manifest example_libs example_files) 4 root_addr root_addr Refuse = Ok res \<and>
     mr_fast_forward res"
  using plan_merge_fast_forward [OF example_complete, of root_addr root_addr 4] by simp

end
