(* ===== verification/Store_Verify.thy ===== *)
theory Store_Verify
  imports Store_Commits Codec_Gather
begin

section \<open>Repository verification\<close>

text \<open>
  \<open>src/modules/store/src/verify.cpp\<close>. The report has the counters at their width and the findings; of a finding the kind, the object and the chunk
  are modelled, not the one-line text. Reads go to \<open>load_commit\<close>, \<open>load_manifest\<close> and the loose store. \<open>std::stoul\<close> is modelled on texts
  that begin with a digit, which are the ones \<open>verify_chunk\<close> produces.
\<close>

record VerifyOptions =
  vo_full :: bool
  vo_stop_on_first_error :: bool

record VerifyFinding =
  vf_kind :: ErrKind
  vf_object :: Oid
  vf_chunk_index :: "u32 option"

record VerifyReport =
  vr_commits_walked :: u64
  vr_objects_checked :: u64
  vr_bytes_hashed :: u64
  vr_findings :: "VerifyFinding list"

definition report_ok :: "VerifyReport \<Rightarrow> bool" where
  "report_ok r \<longleftrightarrow> vr_findings r = []"

definition add_finding :: "ErrKind \<Rightarrow> Oid \<Rightarrow> u32 option \<Rightarrow> VerifyReport \<Rightarrow> VerifyReport" where
  "add_finding kind obj chunk r = r\<lparr>vr_findings := vr_findings r @ [\<lparr>vf_kind = kind, vf_object = obj, vf_chunk_index = chunk\<rparr>]\<rparr>"

definition stoul :: "string \<Rightarrow> nat option" where
  "stoul s =
     (let ds = takeWhile is_digit s; v = foldl (\<lambda>n c. 10 * n + (of_char c - 48)) 0 ds
      in if ds = [] \<or> 2 ^ 64 \<le> v then None else Some v)"

fun check_ancestor_invariant :: "commit_reader \<Rightarrow> nat \<Rightarrow> Oid \<Rightarrow> (string \<times> GroupEntry) list \<Rightarrow> unit res" where
  "check_ancestor_invariant read fuel coid [] = Ok ()"
| "check_ancestor_invariant read fuel coid ((name, g) # gs) =
     (if ge_mode g \<noteq> Delta then check_ancestor_invariant read fuel coid gs
      else case ge_base g of
             None \<Rightarrow> check_ancestor_invariant read fuel coid gs
           | Some base \<Rightarrow>
               SFS_TRY (is_ancestor read fuel (db_commit base) coid) (\<lambda>anc.
               if \<not> anc then SFS_ERR AncestorInvariantViolated name
               else check_ancestor_invariant read fuel coid gs))"

subsection \<open>Blocks\<close>

definition failing_chunk :: "'j Ext \<Rightarrow> files \<Rightarrow> Oid \<Rightarrow> ObjectKind \<Rightarrow> ErrKind \<Rightarrow> u32 option res" where
  "failing_chunk X fs oid kind failure =
     (if failure \<noteq> HashMismatch then Ok None
      else case size_of fs oid of
             Abort a \<Rightarrow> Abort a
           | Err e \<Rightarrow> Ok None
           | Ok sz \<Rightarrow>
               if sz = 0 then Ok None
               else (case loose_read_range X fs oid kind 0 (replicate (unat sz) 0) of
                       Abort a \<Rightarrow> Abort a
                     | Ok r \<Rightarrow> Ok None
                     | Err e \<Rightarrow> Ok (if ekind e = ChunkDigestMismatch then map_option of_nat (stoul (econtext e)) else None)))"

definition check_block ::
  "'j Ext \<Rightarrow> VerifyOptions \<Rightarrow> files \<Rightarrow> Oid \<times> ObjectKind \<Rightarrow> VerifyReport \<times> Oid set \<Rightarrow> (VerifyReport \<times> Oid set) res" where
  "check_block X opts fs = (\<lambda>(oid, kind) (report, seen).
     if oid \<in> seen then Ok (report, seen)
     else
       let report1 = report\<lparr>vr_objects_checked := vr_objects_checked report + 1\<rparr>; seen1 = insert oid seen
       in if vo_full opts then
            (case loose_verify_block X fs oid kind of
               Abort a \<Rightarrow> Abort a
             | Err e \<Rightarrow> SFS_TRY (failing_chunk X fs oid kind (ekind e)) (\<lambda>chunk. Ok (add_finding (ekind e) oid chunk report1, seen1))
             | Ok _ \<Rightarrow> (case size_of fs oid of
                   Abort a \<Rightarrow> Abort a
                 | Err e \<Rightarrow> Ok (report1, seen1)
                 | Ok sz \<Rightarrow> Ok (report1\<lparr>vr_bytes_hashed := vr_bytes_hashed report1 + sz\<rparr>, seen1)))
          else if loose_contains fs oid then Ok (report1, seen1)
          else Ok (add_finding ObjectNotFound oid None report1, seen1))"

definition referenced_blocks :: "Manifest \<Rightarrow> (Oid \<times> ObjectKind) list" where
  "referenced_blocks m =
     (fi_header_block (m_file m), KHeader) #
     concat (map (\<lambda>(_, g).
       (case ge_block g of Some b \<Rightarrow> [(b, KRaw)] | None \<Rightarrow> []) @
       (case ge_diff_block g of Some d \<Rightarrow> [(d, KDiff)] | None \<Rightarrow> [])) (m_groups m))"

subsection \<open>Chain depths\<close>

definition manifest_of :: "commit_reader \<Rightarrow> (Oid \<Rightarrow> Manifest res) \<Rightarrow> Oid \<Rightarrow> Manifest res" where
  "manifest_of read read_manifest coid = SFS_TRY (read coid) (\<lambda>c. read_manifest (c_manifest c))"

definition check_depth ::
  "(Oid \<Rightarrow> Manifest res) \<Rightarrow> Oid \<Rightarrow> string \<times> GroupEntry \<Rightarrow> VerifyReport \<Rightarrow> VerifyReport res" where
  "check_depth history coid = (\<lambda>(name, g) report.
     case (ge_mode g, ge_base g) of
       (Delta, Some base) \<Rightarrow>
         (case history (db_commit base) of
            Abort a \<Rightarrow> Abort a
          | Err e \<Rightarrow> Ok (add_finding (ekind e) (db_commit base) None report)
          | Ok bm \<Rightarrow>
              (case find_group bm (db_group base) of
                 None \<Rightarrow> Ok (add_finding MalformedObject (db_commit base) None report)
               | Some bg \<Rightarrow>
                   if ge_chain_depth g \<noteq> ge_chain_depth bg + 1 then Ok (add_finding MalformedObject coid None report)
                   else Ok report))
     | _ \<Rightarrow> Ok report)"

subsection \<open>The walk\<close>

definition verify_visit ::
  "'j Ext \<Rightarrow> nat \<Rightarrow> VerifyOptions \<Rightarrow> files \<Rightarrow> Oid \<Rightarrow> Commit \<Rightarrow> VerifyReport \<times> Oid set \<Rightarrow>
   (bool \<times> VerifyReport \<times> Oid set) res" where
  "verify_visit X fuel opts fs coid c = (\<lambda>(report, seen).
     let report0 = report\<lparr>vr_commits_walked := vr_commits_walked report + 1\<rparr>
     in case load_manifest X fs (c_manifest c) of
          Abort a \<Rightarrow> Abort a
        | Err e \<Rightarrow> Ok (\<not> vo_stop_on_first_error opts, add_finding (ekind e) (c_manifest c) None report0, seen)
        | Ok m \<Rightarrow>
            SFS_TRY (fold_res (check_block X opts fs) (referenced_blocks m) (report0, seen)) (\<lambda>(report1, seen1).
            SFS_TRY (case check_ancestor_invariant (load_commit X fs) fuel coid (m_groups m) of
                       Abort a \<Rightarrow> Abort a
                     | Err e \<Rightarrow> Ok (add_finding (ekind e) coid None report1)
                     | Ok _ \<Rightarrow> Ok report1) (\<lambda>report2.
            SFS_TRY (fold_res (check_depth (manifest_of (load_commit X fs) (load_manifest X fs)) coid) (m_groups m) report2) (\<lambda>report3.
            Ok (\<not> (vo_stop_on_first_error opts \<and> vr_findings report3 \<noteq> []), report3, seen1)))))"

fun check_heads :: "'j Ext \<Rightarrow> VerifyOptions \<Rightarrow> files \<Rightarrow> Ref list \<Rightarrow> VerifyReport \<Rightarrow> (bool \<times> VerifyReport) res" where
  "check_heads X opts fs [] report = Ok (True, report)"
| "check_heads X opts fs (ref # refs) report =
     (case load_commit X fs (ref_target ref) of
        Abort a \<Rightarrow> Abort a
      | Ok c \<Rightarrow> check_heads X opts fs refs report
      | Err e \<Rightarrow>
          let report1 = add_finding RefNotFound (ref_target ref) None report
          in if vo_stop_on_first_error opts then Ok (False, report1) else check_heads X opts fs refs report1)"

definition verify :: "'j Ext \<Rightarrow> nat \<Rightarrow> VerifyOptions \<Rightarrow> files \<Rightarrow> RefFiles \<Rightarrow> Oid list \<Rightarrow> VerifyReport res" where
  "verify X fuel opts fs R tips =
     SFS_TRY (check_heads X opts fs (list_heads R)
        \<lparr>vr_commits_walked = 0, vr_objects_checked = 0, vr_bytes_hashed = 0, vr_findings = []\<rparr>) (\<lambda>(go, report).
     if \<not> go then Ok report
     else case walk_commits (load_commit X fs) (verify_visit X fuel opts fs) fuel tips (report, {}) of
            ((report', _), Ok _) \<Rightarrow> Ok report'
          | (_, Abort a) \<Rightarrow> Abort a
          | ((report', _), Err e) \<Rightarrow> Ok (add_finding (ekind e) null_oid None report'))"

section \<open>What a clean report means\<close>

definition block_sound :: "'j Ext \<Rightarrow> VerifyOptions \<Rightarrow> files \<Rightarrow> Oid \<Rightarrow> bool" where
  "block_sound X opts fs oid \<longleftrightarrow> (if vo_full opts then \<exists>k. loose_verify_block X fs oid k = Ok () else loose_contains fs oid)"

definition delta_sound :: "commit_reader \<Rightarrow> (Oid \<Rightarrow> Manifest res) \<Rightarrow> Oid \<Rightarrow> GroupEntry \<Rightarrow> bool" where
  "delta_sound read history coid g \<longleftrightarrow>
     (\<forall>base. ge_mode g = Delta \<longrightarrow> ge_base g = Some base \<longrightarrow>
        (coid, db_commit base) \<in> (parent_of read)\<^sup>* \<and>
        (\<exists>bm bg. history (db_commit base) = Ok bm \<and> find_group bm (db_group base) = Some bg \<and>
           ge_chain_depth g = ge_chain_depth bg + 1))"

definition commit_sound :: "'j Ext \<Rightarrow> VerifyOptions \<Rightarrow> files \<Rightarrow> Oid \<Rightarrow> bool" where
  "commit_sound X opts fs coid \<longleftrightarrow>
     (\<exists>c m. load_commit X fs coid = Ok c \<and> load_manifest X fs (c_manifest c) = Ok m \<and> manifest_validate m = Ok () \<and>
        (\<forall>(oid, _) \<in> set (referenced_blocks m). block_sound X opts fs oid) \<and>
        (\<forall>(_, g) \<in> set (m_groups m). delta_sound (load_commit X fs) (manifest_of (load_commit X fs) (load_manifest X fs)) coid g))"

lemma add_finding_findings [simp]: "vr_findings (add_finding k o' c r) \<noteq> []"
  by (simp add: add_finding_def)

lemma dfs_ancestor_sound: "dfs_ancestor read a n visited stack = Ok True \<Longrightarrow> \<exists>c \<in> set stack. (c, a) \<in> (parent_of read)\<^sup>*"
proof (induction n arbitrary: visited stack)
  case (Suc n)
  show ?case
  proof (cases stack)
    case (Cons cur rest)
    show ?thesis
    proof (cases "cur \<in> visited \<or> cur = a")
      case True
      then show ?thesis
        using Suc Cons by (auto split: if_splits)
    next
      case False
      with Suc.prems Cons obtain c where c: "read cur = Ok c"
        "dfs_ancestor read a n (insert cur visited) (rev (c_parents c) @ rest) = Ok True"
        by auto
      from Suc.IH [OF c(2)] obtain p where "p \<in> set (c_parents c) \<union> set rest" "(p, a) \<in> (parent_of read)\<^sup>*"
        by auto
      then show ?thesis
        using c(1) Cons by (auto intro: converse_rtrancl_into_rtrancl)
    qed
  qed (use Suc.prems in simp)
qed simp

lemma is_ancestor_sound: "is_ancestor read fuel a of_oid = Ok True \<Longrightarrow> (of_oid, a) \<in> (parent_of read)\<^sup>*"
  using dfs_ancestor_sound [of read a fuel "{}" "[of_oid]"] by (auto simp: is_ancestor_def split: if_splits)

lemma check_ancestor_invariant_sound:
  "check_ancestor_invariant read fuel coid gs = Ok () \<Longrightarrow> (name, g) \<in> set gs \<Longrightarrow> ge_mode g = Delta \<Longrightarrow> ge_base g = Some base \<Longrightarrow>
   (coid, db_commit base) \<in> (parent_of read)\<^sup>*"
  by (induction read fuel coid gs rule: check_ancestor_invariant.induct)
    (auto split: if_splits option.splits dest!: is_ancestor_sound)

lemma check_block_sound:
  assumes "check_block X opts fs x (r, seen) = Ok (r', seen')"
  shows "(vr_findings r' = [] \<longrightarrow> vr_findings r = []) \<and> seen' = insert (fst x) seen \<and>
    (vr_findings r' = [] \<longrightarrow> (\<forall>oid \<in> seen. block_sound X opts fs oid) \<longrightarrow> (\<forall>oid \<in> seen'. block_sound X opts fs oid))"
  using assms
  by (cases x) (auto simp: check_block_def block_sound_def Let_def split: if_splits res.splits)

lemma check_blocks_sound:
  "fold_res (check_block X opts fs) xs (r, seen) = Ok (r', seen') \<Longrightarrow>
   (vr_findings r' = [] \<longrightarrow> vr_findings r = []) \<and> seen \<union> fst ` set xs \<subseteq> seen' \<and>
   (vr_findings r' = [] \<longrightarrow> (\<forall>oid \<in> seen. block_sound X opts fs oid) \<longrightarrow> (\<forall>oid \<in> seen'. block_sound X opts fs oid))"
proof (induction xs arbitrary: r seen)
  case (Cons x xs)
  from Cons.prems obtain r1 seen1 where 1: "check_block X opts fs x (r, seen) = Ok (r1, seen1)"
    and 2: "fold_res (check_block X opts fs) xs (r1, seen1) = Ok (r', seen')"
    by auto
  have b: "vr_findings r1 = [] \<longrightarrow> vr_findings r = []" "seen1 = insert (fst x) seen"
    "vr_findings r1 = [] \<longrightarrow> (\<forall>oid \<in> seen. block_sound X opts fs oid) \<longrightarrow> (\<forall>oid \<in> seen1. block_sound X opts fs oid)"
    using check_block_sound [OF 1] by blast+
  have bs: "vr_findings r' = [] \<longrightarrow> vr_findings r1 = []" "seen1 \<union> fst ` set xs \<subseteq> seen'"
    "vr_findings r' = [] \<longrightarrow> (\<forall>oid \<in> seen1. block_sound X opts fs oid) \<longrightarrow> (\<forall>oid \<in> seen'. block_sound X opts fs oid)"
    using Cons.IH [OF 2] by blast+
  have "seen \<union> fst ` set (x # xs) \<subseteq> seen'"
    using b(2) bs(2) by simp
  then show ?case
    using b(1,3) bs(1,3) by blast
qed simp

lemma check_depths_sound:
  "fold_res (check_depth history coid) gs r = Ok r' \<Longrightarrow>
   (vr_findings r' = [] \<longrightarrow> vr_findings r = [] \<and>
     (\<forall>(name, g) \<in> set gs. \<forall>base. ge_mode g = Delta \<longrightarrow> ge_base g = Some base \<longrightarrow>
        (\<exists>bm bg. history (db_commit base) = Ok bm \<and> find_group bm (db_group base) = Some bg \<and> ge_chain_depth g = ge_chain_depth bg + 1)))"
proof (induction gs arbitrary: r)
  case (Cons x gs)
  from Cons.prems obtain r1 where 1: "check_depth history coid x r = Ok r1" and 2: "fold_res (check_depth history coid) gs r1 = Ok r'"
    by auto
  then show ?case
    using Cons.IH [OF 2]
    by (cases x) (auto simp: check_depth_def split: GroupMode.splits option.splits res.splits if_splits)
qed simp

text \<open>One commit: either something is found, or the commit and its blocks are sound.\<close>

lemma verify_visit_sound:
  assumes "verify_visit X fuel opts fs coid c (r, seen) = Ok (k, r', seen')"
  shows "(vr_findings r' = [] \<longrightarrow> vr_findings r = []) \<and> (\<not> k \<longrightarrow> vr_findings r' \<noteq> []) \<and>
    (vr_findings r' = [] \<longrightarrow> load_commit X fs coid = Ok c \<longrightarrow> (\<forall>oid \<in> seen. block_sound X opts fs oid) \<longrightarrow>
      commit_sound X opts fs coid \<and> (\<forall>oid \<in> seen'. block_sound X opts fs oid))"
proof (cases "load_manifest X fs (c_manifest c)")
  case (Ok m)
  let ?history = "manifest_of (load_commit X fs) (load_manifest X fs)"
  define r0 where "r0 = r\<lparr>vr_commits_walked := vr_commits_walked r + 1\<rparr>"
  from assms(1) Ok obtain r1 r2 where
    1: "fold_res (check_block X opts fs) (referenced_blocks m) (r0, seen) = Ok (r1, seen')" and
    2: "(case check_ancestor_invariant (load_commit X fs) fuel coid (m_groups m) of
           Abort a \<Rightarrow> Abort a | Err e \<Rightarrow> Ok (add_finding (ekind e) coid None r1) | Ok _ \<Rightarrow> Ok r1) = Ok r2" and
    3: "fold_res (check_depth ?history coid) (m_groups m) r2 = Ok r'" and
    4: "k = (\<not> (vo_stop_on_first_error opts \<and> vr_findings r' \<noteq> []))"
    unfolding verify_visit_def r0_def by (auto simp: Let_def)
  have r1: "vr_findings r2 = [] \<longrightarrow> vr_findings r1 = [] \<and> check_ancestor_invariant (load_commit X fs) fuel coid (m_groups m) = Ok ()"
    using 2 by (auto split: res.splits)
  have m: "manifest_validate m = Ok ()"
    using Ok by (auto simp: load_manifest_def split: if_splits dest: manifest_parse_sound)
  have "commit_sound X opts fs coid \<and> (\<forall>oid \<in> seen'. block_sound X opts fs oid)"
    if clean: "vr_findings r' = []" and c: "load_commit X fs coid = Ok c" and seen: "\<forall>oid \<in> seen. block_sound X opts fs oid"
  proof -
    have r2: "vr_findings r2 = []" and depths: "\<forall>(name, g) \<in> set (m_groups m). \<forall>base. ge_mode g = Delta \<longrightarrow> ge_base g = Some base \<longrightarrow>
        (\<exists>bm bg. ?history (db_commit base) = Ok bm \<and> find_group bm (db_group base) = Some bg \<and> ge_chain_depth g = ge_chain_depth bg + 1)"
      using check_depths_sound [OF 3] clean by auto
    have anc: "check_ancestor_invariant (load_commit X fs) fuel coid (m_groups m) = Ok ()" and f1: "vr_findings r1 = []"
      using r1 r2 by auto
    have blocks: "fst ` set (referenced_blocks m) \<subseteq> seen'" "\<forall>oid \<in> seen'. block_sound X opts fs oid"
      using check_blocks_sound [OF 1] f1 seen by auto
    have "\<forall>(_, g) \<in> set (m_groups m). delta_sound (load_commit X fs) ?history coid g"
      using depths check_ancestor_invariant_sound [OF anc] unfolding delta_sound_def by blast
    then show ?thesis
      using blocks m c Ok unfolding commit_sound_def by fastforce
  qed
  moreover have "vr_findings r' = [] \<longrightarrow> vr_findings r = []"
    using check_depths_sound [OF 3] check_blocks_sound [OF 1] r1 by (auto simp: r0_def)
  ultimately show ?thesis
    using 4 by auto
qed (use assms(1) in \<open>auto simp: verify_visit_def Let_def\<close>)

lemma check_heads_sound:
  "check_heads X opts fs refs r = Ok (go, r') \<Longrightarrow>
   (vr_findings r' = [] \<longrightarrow> vr_findings r = [] \<and> go \<and> (\<forall>ref \<in> set refs. \<exists>c. load_commit X fs (ref_target ref) = Ok c))"
  by (induction X opts fs refs r rule: check_heads.induct) (auto simp: Let_def split: res.splits if_splits)

lemma walk_commits_mark:
  assumes "\<forall>oid c s k s'. F s \<longrightarrow> visit oid c s = Ok (k, s') \<longrightarrow> F s'" "walk_commits read visit fuel tips s = (s', Ok ())" "F s"
  shows "F s'"
  using assms(2,3) by (auto simp: walk_commits_def with_state_Ok dest: walk_loop_mark [OF assms(1)])

text \<open>
  C19: a clean report means a sound repository. When \<open>verify\<close> reports nothing, every branch points at a readable commit, and of every commit reachable
  from the tips the manifest is readable and valid, every block it references is present (with \<open>--full\<close>: its content hashes to its address), and
  every delta group has a base commit in the history of the commit, whose manifest has the base group, with a chain depth one less.
\<close>

theorem verify_clean_sound:
  assumes "verify X fuel opts fs R tips = Ok report" "report_ok report"
  shows "(\<forall>ref \<in> set (list_heads R). \<exists>c. load_commit X fs (ref_target ref) = Ok c) \<and>
    (\<forall>coid \<in> (parent_of (load_commit X fs))\<^sup>* `` set tips. commit_sound X opts fs coid)"
proof -
  define I where "I D st \<longleftrightarrow> vr_findings (fst st) = [] \<longrightarrow>
    (\<forall>coid \<in> D. commit_sound X opts fs coid) \<and> (\<forall>oid \<in> snd st. block_sound X opts fs oid)" for D and st :: "VerifyReport \<times> Oid set"
  from assms obtain r seen where heads: "check_heads X opts fs (list_heads R)
        \<lparr>vr_commits_walked = 0, vr_objects_checked = 0, vr_bytes_hashed = 0, vr_findings = []\<rparr> = Ok (True, r)"
    and walk: "walk_commits (load_commit X fs) (verify_visit X fuel opts fs) fuel tips (r, {}) = ((report, seen), Ok ())"
    by (auto simp: verify_def report_ok_def split: if_splits prod.splits res.splits dest: check_heads_sound)
  have grows: "\<forall>oid c s k s'. vr_findings (fst s) \<noteq> [] \<longrightarrow> verify_visit X fuel opts fs oid c s = Ok (k, s') \<longrightarrow> vr_findings (fst s') \<noteq> []"
    using verify_visit_sound by (metis prod.collapse)
  have step: "if k then I (insert oid D) s' else vr_findings (fst s') \<noteq> []"
    if "I D s" "load_commit X fs oid = Ok c" "verify_visit X fuel opts fs oid c s = Ok (k, s')" for D s oid c k s'
  proof -
    obtain r seen r' seen' where "s = (r, seen)" "s' = (r', seen')"
      by (cases s, cases s')
    then show ?thesis
      using that verify_visit_sound [of X fuel opts fs oid c r seen k r' seen'] by (auto simp: I_def)
  qed
  have "vr_findings r = []"
    using walk_commits_mark [OF grows walk] assms(2) by (auto simp: report_ok_def)
  have "vr_findings (fst (report, seen)) \<noteq> [] \<or> I ((parent_of (load_commit X fs))\<^sup>* `` set tips) (report, seen)"
  proof (rule walk_commits_rule [OF walk])
    show "I {} (r, {})"
      by (simp add: I_def)
    show "\<forall>D s oid c k s'. I D s \<longrightarrow> oid \<notin> D \<longrightarrow> load_commit X fs oid = Ok c \<longrightarrow> verify_visit X fuel opts fs oid c s = Ok (k, s') \<longrightarrow>
      (if k then I (insert oid D) s' else vr_findings (fst s') \<noteq> [])"
      using step by blast
    show "\<forall>oid c s k s'. vr_findings (fst s) \<noteq> [] \<longrightarrow> verify_visit X fuel opts fs oid c s = Ok (k, s') \<longrightarrow> vr_findings (fst s') \<noteq> []"
      by (rule grows)
  qed
  then show ?thesis
    using assms(2) check_heads_sound [OF heads] \<open>vr_findings r = []\<close> by (auto simp: I_def report_ok_def)
qed

section \<open>A concrete check\<close>

text \<open>The example repository with a manifest of one full group, and the two blocks that it references.\<close>

definition full_manifest :: Manifest where
  "full_manifest = example_manifest\<lparr>
     m_buffer := [\<lparr>be_tensor = ''w'', be_off = 16, be_nbytes = 8, be_group = ''w''\<rparr>],
     m_groups := [(''w'', \<lparr>ge_mode = Full, ge_block = Some (replicate 32 4), ge_base = None, ge_diff_block = None, ge_chain_depth = 0\<rparr>)]\<rparr>"

definition checked_files :: files where
  "checked_files = (files_of full_manifest)(oid_fanout_path (replicate 32 3) \<mapsto> [], oid_fanout_path (replicate 32 4) \<mapsto> [])"

lemma full_manifest_ok: "wf_manifest full_manifest" "manifest_validate full_manifest = Ok ()"
  by (simp_all add: full_manifest_def example_manifest_def wf_manifest_def wf_group_entry_def wf_oid_def kOidBytes_def
      manifest_validate_def find_group_def)

lemma checked_paths:
  assumes "x \<in> {3, 4 :: byte}"
  shows "oid_fanout_path (replicate 32 x) \<noteq> oid_fanout_path root_addr" "oid_fanout_path (replicate 32 x) \<noteq> oid_fanout_path manifest_addr"
proof -
  have first: "root_addr ! 0 \<noteq> x" "manifest_addr ! 0 \<noteq> x"
    using assms by (auto simp: compute_oid_def toy_blake3_first hasher_update_def begin_frame_eq frame_prefix_text_def dec_string.simps)
  have wf: "wf_oid (replicate 32 x)" "wf_oid root_addr" "wf_oid manifest_addr"
    using compute_oid_wf [OF example_libs_ok(2)] by (simp_all add: example_libs_ok wf_oid_def kOidBytes_def)
  have "replicate 32 x ! 0 = x"
    by simp
  then show "oid_fanout_path (replicate 32 x) \<noteq> oid_fanout_path root_addr" "oid_fanout_path (replicate 32 x) \<noteq> oid_fanout_path manifest_addr"
    using assms first wf by (auto simp: oid_fanout_inj simp del: nth_replicate)
qed

lemma checked_loads:
  "load_commit (libs_of full_manifest) checked_files root_addr = Ok root_commit"
  "load_manifest (libs_of full_manifest) checked_files manifest_addr = Ok full_manifest"
proof -
  have "checked_files (oid_fanout_path root_addr) = files_of full_manifest (oid_fanout_path root_addr)"
    "checked_files (oid_fanout_path manifest_addr) = files_of full_manifest (oid_fanout_path manifest_addr)"
    using checked_paths [of 3] checked_paths [of 4] unfolding checked_files_def by simp_all
  then show "load_commit (libs_of full_manifest) checked_files root_addr = Ok root_commit"
    "load_manifest (libs_of full_manifest) checked_files manifest_addr = Ok full_manifest"
    using files_of_loads(1,2) [OF full_manifest_ok] by (simp_all add: load_commit_def load_manifest_def loose_get_def)
qed

theorem verify_clean_sound_witness:
  "\<exists>report. verify (libs_of full_manifest) 4 \<lparr>vo_full = False, vo_stop_on_first_error = True\<rparr> checked_files
      \<lparr>rf_head = None, rf_heads = [(''main'', oid_to_string root_addr @ newline)]\<rparr> [root_addr] = Ok report \<and> report_ok report \<and>
     commit_sound (libs_of full_manifest) \<lparr>vo_full = False, vo_stop_on_first_error = True\<rparr> checked_files root_addr"
proof -
  let ?X = "libs_of full_manifest" and ?o = "\<lparr>vo_full = False, vo_stop_on_first_error = True\<rparr>"
    and ?R = "\<lparr>rf_head = None, rf_heads = [(''main'', oid_to_string root_addr @ newline)]\<rparr>"
  have wf: "wf_oid root_addr"
    using compute_oid_wf [OF example_libs_ok(2)] by (simp add: example_libs_ok)
  then have heads: "list_heads ?R = [\<lparr>ref_name = ''main'', ref_target = root_addr\<rparr>]"
    by (simp add: list_heads_def map_filter_def)
  have there: "loose_contains checked_files (replicate 32 3)" "loose_contains checked_files (replicate 32 4)"
    by (simp_all add: loose_contains_def checked_files_def)
  have blocks: "referenced_blocks full_manifest = [(replicate 32 3, KHeader), (replicate 32 4, KRaw)]"
    by (simp add: referenced_blocks_def full_manifest_def example_manifest_def)
  have root: "c_manifest root_commit = manifest_addr" "c_parents root_commit = []"
    by (simp_all add: root_commit_def)
  have groups: "check_ancestor_invariant read fuel coid (m_groups full_manifest) = Ok ()"
    "fold_res (check_depth history coid) (m_groups full_manifest) r = Ok r" for read fuel coid history r
    by (simp_all add: full_manifest_def check_depth_def)
  obtain report where v: "verify ?X 4 ?o checked_files ?R [root_addr] = Ok report" "report_ok report"
    using that unfolding verify_def heads walk_commits_def verify_visit_def
    by (simp add: walk_loop.simps(3) [where n = 3, simplified] walk_loop.simps(2) [where n = 2, simplified] checked_loads enqueue_new_def root blocks check_block_def there groups report_ok_def Let_def)
  then show ?thesis
    using verify_clean_sound [OF v] by auto
qed

end
