(* ===== verification/Store_Planner.thy ===== *)
theory Store_Planner
  imports Codec_Encode
begin

section \<open>The commit planner\<close>

text \<open>
  \<open>codec/src/snapshot_policy.cpp\<close> and \<open>store/src/commit_planner.cpp\<close>: from the report of the aligner, decide for every tensor of a
  commit whether it is stored in full or as a delta, and write the objects. At the end: the dependency pass computes
  the greatest set of deltas whose dependencies are deltas, the depth of chains is bounded, and what is planned reads back, with the reader
  resolving the same column permutations as the planner used.

  The report of the aligner, the two tensor sources and the block store are arguments, as in the code. The comparison of
  sizes in floating point is an argument of the configuration. The order in which an unordered map is traversed is
  the order of its association list; for the map of plans, which the planner builds itself, it is an argument \<open>order\<close>.
\<close>

subsection \<open>The snapshot policy\<close>

datatype StorageDecision = DDelta | FullNoBase | FullNotAlignable | FullChainTooDeep | FullDeltaTooLarge

record SnapshotInputs =
  si_has_base :: bool
  si_alignable :: bool
  si_base_chain_depth :: u32
  si_delta_bytes :: u64
  si_full_bytes :: u64

text \<open>\<open>too_large delta full\<close> stands for \<open>delta > snapshot_alpha * full\<close> on doubles.\<close>

record SnapshotConfig =
  cfg_max_chain_depth :: u32
  cfg_too_large :: "u64 \<Rightarrow> u64 \<Rightarrow> bool"

definition decide :: "SnapshotInputs \<Rightarrow> SnapshotConfig \<Rightarrow> StorageDecision" where
  "decide inp cfg =
     (if \<not> si_has_base inp then FullNoBase
      else if \<not> si_alignable inp then FullNotAlignable
      else if cfg_max_chain_depth cfg < si_base_chain_depth inp + 1 then FullChainTooDeep
      else if cfg_too_large cfg (si_delta_bytes inp) (si_full_bytes inp) then FullDeltaTooLarge
      else DDelta)"

subsection \<open>Reading the base with permuted columns\<close>

definition column_row :: "nat list \<Rightarrow> u32 \<Rightarrow> u64 \<Rightarrow> nat \<Rightarrow> bytes \<times> bytes \<Rightarrow> (bytes \<times> bytes) res" where
  "column_row col_perm ub row_bytes r = (\<lambda>(out, scratch).
     let pos = unat (of_nat r * row_bytes)
     in if length out < pos + unat row_bytes then Abort UB
        else SFS_TRY (permute_units scratch (slice out pos (unat row_bytes)) col_perm (unat ub)) (\<lambda>row.
          Ok (memcpy_at out pos row, row)))"

definition column_read_units ::
  "TensorSource \<Rightarrow> string \<Rightarrow> nat list \<Rightarrow> u32 \<Rightarrow> string \<Rightarrow> u64 \<Rightarrow> u64 \<Rightarrow> bytes \<Rightarrow> (bytes \<times> u64) res" where
  "column_read_units inner tensor col_perm ub name first count out =
     (if name \<noteq> tensor then ts_read_units inner name first count out
      else SFS_TRY (ts_read_units inner name first count out) (\<lambda>(out, n).
        let row_bytes = of_nat (length col_perm) * ucast ub
        in if n \<noteq> count * row_bytes then SFS_ERR Internal tensor
           else if 2 ^ 63 \<le> unat row_bytes then Abort Throw
           else SFS_TRY (fold_res (column_row col_perm ub row_bytes) [0..<unat count] (out, replicate (unat row_bytes) 0)) (\<lambda>(out, _).
             Ok (out, n))))"

definition ColumnPermutingSource :: "TensorSource \<Rightarrow> string \<Rightarrow> nat list \<Rightarrow> u32 \<Rightarrow> TensorSource" where
  "ColumnPermutingSource inner tensor col_perm ub =
     \<lparr>ts_meta = ts_meta inner, ts_read_units = column_read_units inner tensor col_perm ub\<rparr>"

definition trailing_elems :: "u64 list \<Rightarrow> nat \<Rightarrow> u64" where
  "trailing_elems shape dim = foldl (*) 1 (drop (dim + 1) shape)"

subsection \<open>The report of the aligner\<close>

record GroupMatch =
  gm_permutation :: "nat list"
  gm_identity :: bool
  gm_alignable :: bool
  gm_cost_raw :: u64
  gm_cost_normalized :: u64

type_synonym MatchReport = "string \<rightharpoonup> GroupMatch"

definition group_pinned :: "Topology \<Rightarrow> string \<Rightarrow> bool" where
  "group_pinned topo grp = (case topo_find_group topo grp of None \<Rightarrow> False | Some g \<Rightarrow> pinned g)"

definition group_is_effectively_identity :: "Topology \<Rightarrow> MatchReport \<Rightarrow> string \<Rightarrow> bool" where
  "group_is_effectively_identity topo report grp =
     (group_pinned topo grp \<or> (case report grp of None \<Rightarrow> True | Some gm \<Rightarrow> gm_identity gm \<or> \<not> gm_alignable gm))"

definition group_has_no_alignment_evidence :: "Topology \<Rightarrow> MatchReport \<Rightarrow> string \<Rightarrow> bool" where
  "group_has_no_alignment_evidence topo report grp =
     (group_pinned topo grp \<or> (case report grp of None \<Rightarrow> True | Some gm \<Rightarrow> \<not> gm_alignable gm))"

definition materialize_permutation :: "GroupMatch \<Rightarrow> u32 \<Rightarrow> nat list" where
  "materialize_permutation gm group_size =
     (if gm_permutation gm \<noteq> [] then gm_permutation gm else [0..<unat group_size])"

definition tensors_owning_group :: "Topology \<Rightarrow> string \<Rightarrow> string list" where
  "tensors_owning_group topo grp =
     map fst (filter (\<lambda>(tensor, axes). list_ex (\<lambda>ax. ax_dim ax = 0 \<and> ax_group ax = grp) axes) (topo_tensors topo))"

definition tensor_axes :: "Topology \<Rightarrow> string \<Rightarrow> AxisBinding list res" where
  "tensor_axes topo tensor = (case map_of (topo_tensors topo) tensor of None \<Rightarrow> Abort Throw | Some axes \<Rightarrow> Ok axes)"

definition add_dependencies :: "Topology \<Rightarrow> MatchReport \<Rightarrow> string \<Rightarrow> string list \<Rightarrow> string list res" where
  "add_dependencies topo report tensor deps =
     SFS_TRY (tensor_axes topo tensor) (\<lambda>axes.
     Ok (fold (\<lambda>ax deps. if ax_dim ax \<noteq> 0 \<and> \<not> group_is_effectively_identity topo report (ax_group ax)
                         then List.insert (ax_group ax) deps else deps) axes deps))"

definition secondary_dependencies :: "Topology \<Rightarrow> MatchReport \<Rightarrow> string list \<Rightarrow> string list res" where
  "secondary_dependencies topo report members = fold_res (add_dependencies topo report) members []"

subsection \<open>Phase A: encode every group with evidence\<close>

record ParentTensorInfo =
  pi_parent_commit :: Oid
  pi_chain_depth :: u32

record GroupPlan =
  gp_members :: "string list"
  gp_encoded :: EncodeResult
  gp_has_base :: bool
  gp_max_base_depth :: u32
  gp_decision :: StorageDecision
  gp_secondary_deps :: "string list"

definition chain_adapter :: "Topology \<Rightarrow> MatchReport \<Rightarrow> TensorSource \<Rightarrow> string \<Rightarrow> TensorSource \<Rightarrow> TensorSource res" where
  "chain_adapter topo report target tensor base_for_encode =
     SFS_TRY (tensor_axes topo tensor) (\<lambda>axes.
     case find (\<lambda>ax. ax_dim ax \<noteq> 0) axes of
       None \<Rightarrow> Ok base_for_encode
     | Some secondary \<Rightarrow>
         if group_is_effectively_identity topo report (ax_group secondary) then Ok base_for_encode
         else (case report (ax_group secondary) of
                 None \<Rightarrow> Abort Throw
               | Some other_gm \<Rightarrow>
             (case ts_meta target tensor of
                None \<Rightarrow> SFS_ERR TensorNotInBufferLayout tensor
              | Some meta \<Rightarrow>
                  let trailing = trailing_elems (tm_shape meta) (ax_dim secondary);
                      secondary_unit_bytes = ucast trailing * of_nat (dtype_size (tm_dtype meta));
                      expanded = expand (gm_permutation other_gm) (unat (ax_block secondary))
                  in Ok (ColumnPermutingSource base_for_encode tensor expanded secondary_unit_bytes))))"

definition base_depth :: "(string \<rightharpoonup> ParentTensorInfo) \<Rightarrow> string list \<Rightarrow> bool \<times> u32" where
  "base_depth parent_info members =
     fold (\<lambda>tensor (has_base, depth).
       case parent_info tensor of None \<Rightarrow> (has_base, depth) | Some p \<Rightarrow> (True, max depth (pi_chain_depth p))) members (False, 0)"

definition plan_group ::
  "'j Ext \<Rightarrow> Isa \<Rightarrow> EncodeOptions \<Rightarrow> SnapshotConfig \<Rightarrow> TensorSource \<Rightarrow> TensorSource \<Rightarrow> Topology \<Rightarrow> MatchReport \<Rightarrow>
   (string \<rightharpoonup> ParentTensorInfo) \<Rightarrow> string \<times> PermGroup \<Rightarrow> (string \<times> GroupPlan) list \<Rightarrow> (string \<times> GroupPlan) list res" where
  "plan_group X isa opts cfg base target topo report parent_info = (\<lambda>(group_name, perm_group) plans.
     if group_has_no_alignment_evidence topo report group_name then Ok plans
     else case report group_name of
       None \<Rightarrow> Abort Throw
     | Some gm \<Rightarrow>
         let members = tensors_owning_group topo group_name
         in if members = [] then Ok plans
            else SFS_TRY (fold_res (chain_adapter topo report target) members base) (\<lambda>base_for_encode.
              let align_info = \<lparr>al_method = ''weight_matching_lap'', cost_raw = gm_cost_raw gm, cost_normalized = gm_cost_normalized gm\<rparr>;
                  own_perm = materialize_permutation gm (pg_size perm_group)
              in SFS_TRY (encode_group X isa base_for_encode target topo group_name own_perm (gm_alignable gm) align_info opts) (\<lambda>encoded.
              let (has_base, max_base_depth) = base_depth parent_info members;
                  inputs = \<lparr>si_has_base = has_base, si_alignable = gm_alignable gm, si_base_chain_depth = max_base_depth,
                            si_delta_bytes = of_nat (length (er_artifact encoded)), si_full_bytes = er_full_bytes encoded\<rparr>
              in SFS_TRY (secondary_dependencies topo report members) (\<lambda>deps.
                 Ok (plans @ [(group_name, \<lparr>gp_members = members, gp_encoded = encoded, gp_has_base = has_base,
                   gp_max_base_depth = max_base_depth, gp_decision = decide inputs cfg, gp_secondary_deps = deps\<rparr>)])))))"

definition plan_phase_a ::
  "'j Ext \<Rightarrow> Isa \<Rightarrow> EncodeOptions \<Rightarrow> SnapshotConfig \<Rightarrow> TensorSource \<Rightarrow> TensorSource \<Rightarrow> Topology \<Rightarrow> MatchReport \<Rightarrow>
   (string \<rightharpoonup> ParentTensorInfo) \<Rightarrow> (string \<times> GroupPlan) list res" where
  "plan_phase_a X isa opts cfg base target topo report parent_info =
     fold_res (plan_group X isa opts cfg base target topo report parent_info) (topo_groups topo) []"

subsection \<open>Phase B: the dependency pass\<close>

text \<open>The map \<open>is_delta\<close> has a key for every plan, so it is a function that is false elsewhere, as \<open>operator[]\<close> makes it.\<close>

definition unmet :: "(string \<times> GroupPlan) list \<Rightarrow> (string \<Rightarrow> bool) \<Rightarrow> GroupPlan \<Rightarrow> bool" where
  "unmet plans is_delta plan = list_ex (\<lambda>dep. dep \<in> fst ` set plans \<and> \<not> is_delta dep) (gp_secondary_deps plan)"

definition downgrade_step ::
  "(string \<times> GroupPlan) list \<Rightarrow> string \<times> GroupPlan \<Rightarrow> (string \<Rightarrow> bool) \<times> bool \<Rightarrow> (string \<Rightarrow> bool) \<times> bool" where
  "downgrade_step plans = (\<lambda>(name, plan) (is_delta, changed).
     if is_delta name \<and> unmet plans is_delta plan then (is_delta(name := False), True) else (is_delta, changed))"

definition downgrade_pass :: "(string \<times> GroupPlan) list \<Rightarrow> (string \<Rightarrow> bool) \<Rightarrow> (string \<Rightarrow> bool) \<times> bool" where
  "downgrade_pass plans is_delta = fold (downgrade_step plans) plans (is_delta, False)"

lemma downgrade_fold:
  "fold (downgrade_step plans) ps (d, ch) = (d', ch') \<Longrightarrow>
    (\<forall>n. d' n \<longrightarrow> d n) \<and> (\<forall>n. d n \<longrightarrow> \<not> d' n \<longrightarrow> n \<in> fst ` set ps) \<and> ((\<exists>n. d n \<and> \<not> d' n) \<or> ch' = ch)"
proof (induction ps arbitrary: d ch)
  case (Cons p ps)
  obtain name plan where p: "p = (name, plan)"
    by fastforce
  show ?case
  proof (cases "d name \<and> unmet plans d plan")
    case True
    then have "fold (downgrade_step plans) ps (d(name := False), True) = (d', ch')"
      using Cons.prems by (simp add: p downgrade_step_def)
    from Cons.IH [OF this]
    have "\<forall>n. d' n \<longrightarrow> n \<noteq> name \<and> d n" "\<forall>n. n \<noteq> name \<longrightarrow> d n \<longrightarrow> \<not> d' n \<longrightarrow> n \<in> fst ` set ps"
      by (auto split: if_splits)
    then show ?thesis
      using True by (auto simp: p)
  next
    case False
    then show ?thesis
      using Cons.IH [of d ch] Cons.prems by (auto simp: p downgrade_step_def)
  qed
qed simp

function downgrade_loop :: "(string \<times> GroupPlan) list \<Rightarrow> (string \<Rightarrow> bool) \<Rightarrow> (string \<Rightarrow> bool)" where
  "downgrade_loop plans is_delta =
     (let (is_delta', changed) = downgrade_pass plans is_delta in if changed then downgrade_loop plans is_delta' else is_delta')"
  by pat_completeness auto
termination
proof (relation "measure (\<lambda>(plans, d). card {n \<in> fst ` set plans. d n})")
  fix plans :: "(string \<times> GroupPlan) list" and d x d' ch
  assume "x = downgrade_pass plans d" "(d', ch) = x" "ch"
  then have "fold (downgrade_step plans) plans (d, False) = (d', True)"
    by (simp add: downgrade_pass_def)
  from downgrade_fold [OF this] have "\<forall>n. d' n \<longrightarrow> d n" "\<exists>n \<in> fst ` set plans. d n \<and> \<not> d' n"
    by auto
  then have "{n \<in> fst ` set plans. d' n} \<subset> {n \<in> fst ` set plans. d n}"
    by auto
  then show "((plans, d'), plans, d) \<in> measure (\<lambda>(plans, d). card {n \<in> fst ` set plans. d n})"
    by (simp add: psubset_card_mono)
qed simp

declare downgrade_loop.simps [simp del]

definition initial_delta :: "(string \<times> GroupPlan) list \<Rightarrow> string \<Rightarrow> bool" where
  "initial_delta plans = fold (\<lambda>(name, plan) d. d(name := gp_decision plan = DDelta)) plans (\<lambda>_. False)"

subsection \<open>Phase C: write the objects\<close>

type_synonym entries = "string \<rightharpoonup> GroupEntry"

definition delta_entry :: "ParentTensorInfo \<Rightarrow> string \<Rightarrow> Oid \<Rightarrow> GroupEntry" where
  "delta_entry p tensor diff_oid =
     \<lparr>ge_mode = Delta, ge_block = None, ge_base = Some \<lparr>db_commit = pi_parent_commit p, db_group = tensor\<rparr>,
      ge_diff_block = Some diff_oid, ge_chain_depth = pi_chain_depth p + 1\<rparr>"

definition add_delta :: "(string \<rightharpoonup> ParentTensorInfo) \<Rightarrow> Oid \<Rightarrow> string \<Rightarrow> entries \<Rightarrow> entries res" where
  "add_delta parent_info diff_oid tensor entries =
     (case parent_info tensor of None \<Rightarrow> Abort Throw | Some p \<Rightarrow> Ok (entries(tensor \<mapsto> delta_entry p tensor diff_oid)))"

text \<open>A loop that threads the block store through its iterations, and stops at the first error.\<close>

fun fold_store :: "('a \<Rightarrow> 's \<Rightarrow> 'b \<Rightarrow> 's \<times> 'b res) \<Rightarrow> 'a list \<Rightarrow> 's \<Rightarrow> 'b \<Rightarrow> 's \<times> 'b res" where
  "fold_store f [] s b = (s, Ok b)"
| "fold_store f (x # xs) s b =
     (case f x s b of (s1, Ok b1) \<Rightarrow> fold_store f xs s1 b1 | (s1, Err e) \<Rightarrow> (s1, Err e) | (s1, Abort a) \<Rightarrow> (s1, Abort a))"

definition put_then :: "'s \<times> Oid res \<Rightarrow> (Oid \<Rightarrow> 'b res) \<Rightarrow> 's \<times> 'b res" where
  "put_then r f = (case r of (s, r) \<Rightarrow> (s, SFS_TRY r f))"

definition write_delta ::
  "('s \<Rightarrow> ObjectKind \<Rightarrow> bytes \<Rightarrow> 's \<times> Oid res) \<Rightarrow> (string \<rightharpoonup> ParentTensorInfo) \<Rightarrow> (string \<Rightarrow> bool) \<Rightarrow> string \<times> GroupPlan \<Rightarrow>
   's \<Rightarrow> entries \<Rightarrow> 's \<times> entries res" where
  "write_delta put parent_info is_delta = (\<lambda>(group_name, plan) s entries.
     if \<not> is_delta group_name then (s, Ok entries)
     else put_then (put s KDiff (er_artifact (gp_encoded plan))) (\<lambda>diff_oid.
       fold_res (add_delta parent_info diff_oid) (gp_members plan) entries))"

definition full_entry :: "Oid \<Rightarrow> GroupEntry" where
  "full_entry oid = \<lparr>ge_mode = Full, ge_block = Some oid, ge_base = None, ge_diff_block = None, ge_chain_depth = 0\<rparr>"

definition read_full :: "TensorSource \<Rightarrow> BufferEntry \<Rightarrow> bytes res" where
  "read_full target entry =
     (case ts_meta target (be_tensor entry) of
        None \<Rightarrow> SFS_ERR TensorNotInBufferLayout (be_tensor entry)
      | Some meta \<Rightarrow>
          if 2 ^ 63 \<le> unat (be_nbytes entry) then Abort Throw
          else SFS_TRY (ts_read_units target (be_tensor entry) 0 (if tm_shape meta = [] then 1 else hd (tm_shape meta))
                 (replicate (unat (be_nbytes entry)) 0)) (\<lambda>(buf, n).
            if n \<noteq> of_nat (length buf) then SFS_ERR Internal (be_tensor entry) else Ok buf))"

definition write_full ::
  "('s \<Rightarrow> ObjectKind \<Rightarrow> bytes \<Rightarrow> 's \<times> Oid res) \<Rightarrow> TensorSource \<Rightarrow> BufferEntry \<Rightarrow> 's \<Rightarrow> entries \<Rightarrow> 's \<times> entries res" where
  "write_full put target entry s entries =
     (if entries (be_tensor entry) \<noteq> None then (s, Ok entries)
      else case read_full target entry of
        Err e \<Rightarrow> (s, Err e)
      | Abort a \<Rightarrow> (s, Abort a)
      | Ok buf \<Rightarrow> put_then (put s KRaw buf) (\<lambda>oid. Ok (entries(be_tensor entry \<mapsto> full_entry oid))))"

definition plan_commit_groups ::
  "'j Ext \<Rightarrow> Isa \<Rightarrow> EncodeOptions \<Rightarrow> SnapshotConfig \<Rightarrow> ((string \<times> GroupPlan) list \<Rightarrow> (string \<times> GroupPlan) list) \<Rightarrow>
   ('s \<Rightarrow> ObjectKind \<Rightarrow> bytes \<Rightarrow> 's \<times> Oid res) \<Rightarrow> TensorSource \<Rightarrow> TensorSource \<Rightarrow> BufferEntry list \<Rightarrow> Topology \<Rightarrow> MatchReport \<Rightarrow>
   (string \<rightharpoonup> ParentTensorInfo) \<Rightarrow> 's \<Rightarrow> 's \<times> entries res" where
  "plan_commit_groups X isa opts cfg order put base target layout topo report parent_info s =
     (case plan_phase_a X isa opts cfg base target topo report parent_info of
        Err e \<Rightarrow> (s, Err e)
      | Abort a \<Rightarrow> (s, Abort a)
      | Ok planned \<Rightarrow>
          let plans = order planned;
              is_delta = downgrade_loop plans (initial_delta plans)
          in case fold_store (write_delta put parent_info is_delta) plans s Map.empty of
               (s1, Ok entries) \<Rightarrow> fold_store (write_full put target) layout s1 entries
             | (s1, r) \<Rightarrow> (s1, r))"


subsection \<open>What the dependency pass computes\<close>

text \<open>A set of groups is closed when the planned dependencies of its members belong to it.\<close>

definition closed_deltas :: "(string \<times> GroupPlan) list \<Rightarrow> string set \<Rightarrow> bool" where
  "closed_deltas plans S \<longleftrightarrow> (\<forall>(name, plan) \<in> set plans. name \<in> S \<longrightarrow> set (gp_secondary_deps plan) \<inter> fst ` set plans \<subseteq> S)"

lemma closed_deltas_cong: "set plans = set plans' \<Longrightarrow> closed_deltas plans S = closed_deltas plans' S"
  by (simp add: closed_deltas_def)

lemma downgrade_fold_keeps:
  assumes "closed_deltas plans S" "set ps \<subseteq> set plans"
  shows "S \<subseteq> {n. d n} \<Longrightarrow> S \<subseteq> {n. fst (fold (downgrade_step plans) ps (d, ch)) n}"
  using assms(2)
proof (induction ps arbitrary: d ch)
  case (Cons p ps)
  obtain name plan where p: "p = (name, plan)"
    by fastforce
  have "name \<notin> S" if "unmet plans d plan"
    using that assms(1) Cons.prems by (fastforce simp: p unmet_def closed_deltas_def list_ex_iff)
  then have "S \<subseteq> {n. (d(name := False)) n}" if "unmet plans d plan"
    using that Cons.prems(1) by auto
  then show ?case
    using Cons by (auto simp: p downgrade_step_def)
qed simp

lemma downgrade_fold_stable:
  "snd (fold (downgrade_step plans) ps (d, False)) = False \<Longrightarrow>
     fold (downgrade_step plans) ps (d, False) = (d, False) \<and> (\<forall>(name, plan) \<in> set ps. d name \<longrightarrow> \<not> unmet plans d plan)"
proof (induction ps)
  case (Cons p ps)
  obtain name plan where p: "p = (name, plan)"
    by fastforce
  show ?case
  proof (cases "d name \<and> unmet plans d plan")
    case True
    obtain d' ch' where r: "fold (downgrade_step plans) ps (d(name := False), True) = (d', ch')"
      by fastforce
    have "ch'" if "fold (downgrade_step plans) qs (e, True) = (d', ch')" for qs e
      using that by (induction qs arbitrary: e) (auto simp: downgrade_step_def split: if_splits prod.splits)
    then show ?thesis
      using Cons.prems True r by (auto simp: p downgrade_step_def)
  next
    case False
    then show ?thesis
      using Cons by (auto simp: p downgrade_step_def)
  qed
qed simp

lemma downgrade_loop_greatest:
  "{n. downgrade_loop plans d n} \<subseteq> {n. d n} \<and> closed_deltas plans {n. downgrade_loop plans d n} \<and>
   (\<forall>S. closed_deltas plans S \<longrightarrow> S \<subseteq> {n. d n} \<longrightarrow> S \<subseteq> {n. downgrade_loop plans d n})"
proof (induction plans d rule: downgrade_loop.induct)
  case (1 plans d)
  obtain d' ch where pass: "downgrade_pass plans d = (d', ch)"
    by fastforce
  have sub: "{n. d' n} \<subseteq> {n. d n}"
    using downgrade_fold [of plans plans d False d' ch] pass by (auto simp: downgrade_pass_def)
  have keep: "S \<subseteq> {n. d' n}" if "closed_deltas plans S" "S \<subseteq> {n. d n}" for S
    using downgrade_fold_keeps [OF that(1) order_refl that(2), of False] pass by (simp add: downgrade_pass_def)
  show ?case
  proof (cases ch)
    case True
    then have loop: "downgrade_loop plans d = downgrade_loop plans d'"
      using pass by (simp add: downgrade_loop.simps [of plans d])
    note IH = "1.IH" [OF pass [symmetric] refl True]
    have "{n. downgrade_loop plans d' n} \<subseteq> {n. d n}"
      using IH sub by (meson order_trans)
    moreover have "S \<subseteq> {n. downgrade_loop plans d' n}" if "closed_deltas plans S" "S \<subseteq> {n. d n}" for S
      using IH keep [OF that] that(1) by simp
    ultimately show ?thesis
      unfolding loop using IH by simp
  next
    case False
    then have stable: "d' = d" "\<forall>(name, plan) \<in> set plans. d name \<longrightarrow> \<not> unmet plans d plan"
      using downgrade_fold_stable [of plans plans d] pass by (auto simp: downgrade_pass_def)
    then have "downgrade_loop plans d = d"
      using pass False by (simp add: downgrade_loop.simps [of plans d])
    moreover have "closed_deltas plans {n. d n}"
      using stable(2) unfolding closed_deltas_def unmet_def list_ex_iff by blast
    ultimately show ?thesis
      by simp
  qed
qed

lemma initial_delta_iff:
  assumes "distinct (map fst plans)"
  shows "initial_delta plans n \<longleftrightarrow> (\<exists>plan. (n, plan) \<in> set plans \<and> gp_decision plan = DDelta)"
proof -
  have "fold (\<lambda>(name, plan) d. d(name := gp_decision plan = DDelta)) ps d n =
      (case map_of ps n of None \<Rightarrow> d n | Some plan \<Rightarrow> gp_decision plan = DDelta)" if "distinct (map fst ps)" for ps d
    using that
  proof (induction ps arbitrary: d)
    case (Cons p ps)
    have "map_of ps (fst p) = None"
      using Cons.prems by (simp add: map_of_eq_None_iff)
    then show ?case
      using Cons by (cases p) (simp split: option.splits)
  qed simp
  from this [OF assms, of "\<lambda>_. False"] show ?thesis
    unfolding initial_delta_def by (auto simp: map_of_eq_Some_iff [OF assms, symmetric] simp del: map_of_eq_Some_iff split: option.splits)
qed

subsection \<open>The base that the encoder sees\<close>

lemma column_rows_prefix:
  assumes fits: "secondary_fits sec u" "sa_perm sec \<noteq> []" and W: "length W = k * u" "k * u < 2 ^ 62" "u < 2 ^ 62"
  shows "j \<le> k \<Longrightarrow> \<exists>scratch. length scratch = u \<and>
    fold_res (column_row (sa_perm sec) (sa_unit_bytes sec) (of_nat u)) [0..<j] (W, replicate u 0) =
      Ok (concat (map (\<lambda>r. row_view sec (slice W (r * u) u)) [0..<j]) @ drop (j * u) W, scratch)"
proof (induction j)
  case (Suc j)
  let ?V = "concat (map (\<lambda>r. row_view sec (slice W (r * u) u)) [0..<j])"
  obtain scratch where IH: "length scratch = u"
    "fold_res (column_row (sa_perm sec) (sa_unit_bytes sec) (of_nat u)) [0..<j] (W, replicate u 0) = Ok (?V @ drop (j * u) W, scratch)"
    using Suc by auto
  have inside: "r * u + u \<le> k * u" if "r \<le> j" for r
    using mult_le_mono1 [of "Suc r" k u] that Suc.prems by simp
  have uu: "unat (of_nat u :: u64) = u" "unat (of_nat j * of_nat u :: u64) = j * u"
    using W inside [of j] by (auto simp: unat_of_nat_small intro: unat_mult_small)
  have rows: "length (row_view sec (slice W (r * u) u)) = u" if "r \<le> j" for r
    using inside [OF that] W(1) by (intro length_row_view [OF fits(1)]) simp
  then have lenV: "length ?V = j * u"
    by (subst length_concat_uniform [where k = u]) auto
  define row where "row = row_view sec (slice W (j * u) u)"
  have lrow: "length row = u"
    using rows [of j] by (simp add: row_def)
  have "permute_units scratch (slice W (j * u) u) (sa_perm sec) (unat (sa_unit_bytes sec)) = Ok row"
    unfolding row_def using inside [of j] W(1) IH(1) by (intro permute_row_units [OF fits]) auto
  moreover have "slice (?V @ drop (j * u) W) (j * u) u = slice W (j * u) u"
    using lenV by (simp add: slice_def)
  ultimately have "column_row (sa_perm sec) (sa_unit_bytes sec) (of_nat u) j (?V @ drop (j * u) W, scratch) =
      Ok (?V @ row @ drop (Suc j * u) W, row)"
    using uu inside [of j] W(1) lenV lrow by (simp add: column_row_def Let_def memcpy_at_def)
  then show ?case
    using IH lrow by (simp add: fold_res_append row_def)
qed simp

text \<open>A permuting source delivers the rows of its tensor with their columns permuted, and every other tensor as it is.\<close>

lemma column_source_reads:
  assumes rd: "source_reads inner name u B" and fits: "secondary_fits \<lparr>sa_perm = perm, sa_unit_bytes = ub\<rparr> u" "perm \<noteq> []"
    and B: "length B = N * u" "N * u < 2 ^ 62" "u < 2 ^ 62" "0 < u"
  shows "source_reads (ColumnPermutingSource inner name perm ub) name u (base_view \<lparr>sa_perm = perm, sa_unit_bytes = ub\<rparr> [0..<N] u B)"
  unfolding source_reads_def
proof (intro allI impI)
  let ?sec = "\<lparr>sa_perm = perm, sa_unit_bytes = ub\<rparr>"
  fix first count :: u64 and buf :: bytes
  assume "(unat first + unat count) * u \<le> length (base_view ?sec [0..<N] u B)" and buf: "length buf = unat count * u"
  then have inside: "(unat first + unat count) * u \<le> N * u"
    using length_base_view [OF fits(1), of "[0..<N]" N B] B(1) by simp
  then have units: "unat first + unat count \<le> N"
    using B(4) by simp
  define W where "W = unit_window B u (unat first) (unat count)"
  have W: "length W = unat count * u"
    using inside B(1) by (simp add: W_def unit_window_def algebra_simps)
  have small: "unat count * u < 2 ^ 62"
    using inside B(2) by (simp add: algebra_simps)
  have sec: "sa_perm ?sec = perm" "sa_unit_bytes ?sec = ub" "sa_perm ?sec \<noteq> []"
    using fits(2) by simp_all
  have len: "length perm * unat ub = u"
    using fits by (simp add: secondary_fits_def)
  have rb: "of_nat (length perm) * ucast ub = (of_nat u :: u64)"
    unfolding len [symmetric] by simp
  have urb: "unat (of_nat u :: u64) = u"
    using B(3) by (simp add: unat_of_nat_small)
  obtain scratch where rows: "fold_res (column_row perm ub (of_nat u)) [0..<unat count] (W, replicate u 0) =
      Ok (concat (map (\<lambda>r. row_view ?sec (slice W (r * u) u)) [0..<unat count]), scratch)"
    using column_rows_prefix [OF fits(1) sec(3) W small B(3) order_refl] W unfolding sec by auto
  have "concat (map (\<lambda>r. row_view ?sec (slice W (r * u) u)) [0..<unat count]) =
      concat (map (\<lambda>p. row_view ?sec (slice B (p * u) u)) [unat first..<unat first + unat count])"
  proof -
    have "slice W (r * u) u = slice B ((unat first + r) * u) u" if "r < unat count" for r
      using mult_le_mono1 [of "Suc r" "unat count" u] that
      by (simp add: W_def unit_window_def slice_slice algebra_simps)
    moreover have "[unat first..<unat first + unat count] = map (\<lambda>r. unat first + r) [0..<unat count]"
      by (simp add: map_add_upt add.commute)
    ultimately show ?thesis
      by (auto simp: comp_def intro!: arg_cong [where f = concat])
  qed
  also have "\<dots> = base_view ?sec (slice [0..<N] (unat first) (unat count)) u B"
    using units by (simp add: base_view_def slice_def min_def)
  also have "\<dots> = unit_window (base_view ?sec [0..<N] u B) u (unat first) (unat count)"
    unfolding unit_window_def using units by (intro base_view_window [OF fits(1) _ B(1), symmetric]) simp_all
  finally show "ts_read_units (ColumnPermutingSource inner name perm ub) name first count buf =
      Ok (unit_window (base_view ?sec [0..<N] u B) u (unat first) (unat count), of_nat (unat count * u))"
    using rd [unfolded source_reads_def, rule_format, of first count buf] inside B(1) buf rows rb urb B(3)
    by (simp add: ColumnPermutingSource_def column_read_units_def W_def [symmetric])
qed

text \<open>The column permutation that the planner applies to the base rows of a tensor.\<close>

definition plan_secondary :: "Topology \<Rightarrow> MatchReport \<Rightarrow> TensorMeta \<Rightarrow> AxisBinding list \<Rightarrow> SecondaryAxis" where
  "plan_secondary topo report meta axes =
     (case find (\<lambda>ax. ax_dim ax \<noteq> 0) axes of
        None \<Rightarrow> no_secondary
      | Some secondary \<Rightarrow>
          if group_is_effectively_identity topo report (ax_group secondary) then no_secondary
          else case report (ax_group secondary) of
            None \<Rightarrow> no_secondary
          | Some gm \<Rightarrow> \<lparr>sa_perm = expand (gm_permutation gm) (unat (ax_block secondary)),
                        sa_unit_bytes = ucast (trailing_elems (tm_shape meta) (ax_dim secondary)) * of_nat (dtype_size (tm_dtype meta))\<rparr>)"

lemma base_view_no_secondary: "length B = N * u \<Longrightarrow> base_view no_secondary [0..<N] u B = B"
  using concat_slices [of N u B] by (simp add: base_view_def row_view_def no_secondary_def)

lemma column_source_other: "n \<noteq> tensor \<Longrightarrow> ts_read_units (ColumnPermutingSource inner tensor perm ub) n = ts_read_units inner n"
  by (intro ext) (simp add: ColumnPermutingSource_def column_read_units_def)

definition columns_given :: "Topology \<Rightarrow> MatchReport \<Rightarrow> AxisBinding list \<Rightarrow> bool" where
  "columns_given topo report axes \<longleftrightarrow>
     (\<forall>ax gm. find (\<lambda>ax. ax_dim ax \<noteq> 0) axes = Some ax \<longrightarrow> \<not> group_is_effectively_identity topo report (ax_group ax) \<longrightarrow>
        report (ax_group ax) = Some gm \<longrightarrow> expand (gm_permutation gm) (unat (ax_block ax)) \<noteq> [] \<and>
        length (gm_permutation gm) * unat (ax_block ax) \<le> 2 ^ 32)"

lemma chain_adapter_cases:
  assumes "columns_given topo report axes" "chain_adapter topo report target tensor base = Ok base'" "map_of (topo_tensors topo) tensor = Some axes" "ts_meta target tensor = Some meta"
  shows "base' = base \<and> plan_secondary topo report meta axes = no_secondary \<or>
    base' = ColumnPermutingSource base tensor (sa_perm (plan_secondary topo report meta axes)) (sa_unit_bytes (plan_secondary topo report meta axes)) \<and>
    sa_perm (plan_secondary topo report meta axes) \<noteq> []"
  using assms by (auto simp: columns_given_def chain_adapter_def tensor_axes_def plan_secondary_def Let_def split: option.splits if_splits)

lemma chain_adapter_other:
  "chain_adapter topo report target tensor base = Ok base' \<Longrightarrow> n \<noteq> tensor \<Longrightarrow> ts_read_units base' n = ts_read_units base n"
  by (auto simp: chain_adapter_def Let_def column_source_other split: option.splits if_splits)

lemma chained_adapters_other:
  "fold_res (chain_adapter topo report target) ms base = Ok base' \<Longrightarrow> n \<notin> set ms \<Longrightarrow> ts_read_units base' n = ts_read_units base n"
proof (induction ms arbitrary: base)
  case (Cons t ms)
  then obtain base1 where "chain_adapter topo report target t base = Ok base1" "fold_res (chain_adapter topo report target) ms base1 = Ok base'"
    by (cases "chain_adapter topo report target t base") auto
  then show ?case
    using Cons chain_adapter_other by (metis list.set_intros(1,2))
qed simp

text \<open>Through the chain of permuting sources, a member's base rows are delivered with its own columns permuted.\<close>

lemma chained_adapters_read:
  assumes "fold_res (chain_adapter topo report target) ms base = Ok base'" "distinct ms" "name \<in> set ms"
    and ax: "map_of (topo_tensors topo) name = Some axes" "ts_meta target name = Some meta"
    and rd: "source_reads base name u B" and B: "length B = N * u" "N * u < 2 ^ 62" "u < 2 ^ 62" "0 < u"
    and fits: "secondary_fits (plan_secondary topo report meta axes) u" "columns_given topo report axes"
  shows "source_reads base' name u (base_view (plan_secondary topo report meta axes) [0..<N] u B)"
  using assms(1-3) rd
proof (induction ms arbitrary: base)
  case (Cons t ms)
  let ?sec = "plan_secondary topo report meta axes"
  from Cons.prems(1) obtain base1 where one: "chain_adapter topo report target t base = Ok base1"
    and rest: "fold_res (chain_adapter topo report target) ms base1 = Ok base'"
    by (cases "chain_adapter topo report target t base") auto
  show ?case
  proof (cases "t = name")
    case True
    have "source_reads base1 name u (base_view ?sec [0..<N] u B)"
      using chain_adapter_cases [OF fits(2) one [unfolded True] ax]
    proof (elim disjE conjE)
      assume "base1 = base" "?sec = no_secondary"
      then show ?thesis
        using Cons.prems(4) base_view_no_secondary [OF B(1)] by simp
    next
      assume b: "base1 = ColumnPermutingSource base name (sa_perm ?sec) (sa_unit_bytes ?sec)" and ne: "sa_perm ?sec \<noteq> []"
      have sec: "\<lparr>sa_perm = sa_perm ?sec, sa_unit_bytes = sa_unit_bytes ?sec\<rparr> = ?sec"
        by simp
      show ?thesis
        using column_source_reads [OF Cons.prems(4), of "sa_perm ?sec" "sa_unit_bytes ?sec", unfolded sec, OF fits(1) ne B] b by simp
    qed
    moreover have "ts_read_units base' name = ts_read_units base1 name"
      using chained_adapters_other [OF rest] Cons.prems(2) True by simp
    ultimately show ?thesis
      by (simp add: source_reads_def)
  next
    case False
    then have "ts_read_units base1 name = ts_read_units base name"
      by (intro chain_adapter_other [OF one]) simp
    then have "source_reads base1 name u B"
      using Cons.prems(4) by (simp add: source_reads_def)
    then show ?thesis
      using Cons.IH [OF rest] Cons.prems(2,3) False by simp
  qed
qed simp

subsection \<open>What phase A plans\<close>

definition candidate :: "Topology \<Rightarrow> MatchReport \<Rightarrow> string \<Rightarrow> bool" where
  "candidate topo report g \<longleftrightarrow> \<not> group_has_no_alignment_evidence topo report g \<and> tensors_owning_group topo g \<noteq> []"

definition match_info :: "GroupMatch \<Rightarrow> AlignmentInfo" where
  "match_info gm = \<lparr>al_method = ''weight_matching_lap'', cost_raw = gm_cost_raw gm, cost_normalized = gm_cost_normalized gm\<rparr>"

text \<open>The plan of a group, as phase A makes it.\<close>

definition planned ::
  "'j Ext \<Rightarrow> Isa \<Rightarrow> EncodeOptions \<Rightarrow> SnapshotConfig \<Rightarrow> TensorSource \<Rightarrow> TensorSource \<Rightarrow> Topology \<Rightarrow> MatchReport \<Rightarrow>
   (string \<rightharpoonup> ParentTensorInfo) \<Rightarrow> string \<Rightarrow> PermGroup \<Rightarrow> GroupPlan \<Rightarrow> bool" where
  "planned X isa opts cfg base target topo report parent_info g pg plan \<longleftrightarrow>
     (\<exists>gm base'. report g = Some gm \<and> gp_members plan = tensors_owning_group topo g \<and>
        fold_res (chain_adapter topo report target) (gp_members plan) base = Ok base' \<and>
        encode_group X isa base' target topo g (materialize_permutation gm (pg_size pg)) (gm_alignable gm) (match_info gm) opts = Ok (gp_encoded plan) \<and>
        base_depth parent_info (gp_members plan) = (gp_has_base plan, gp_max_base_depth plan) \<and>
        gp_decision plan = decide \<lparr>si_has_base = gp_has_base plan, si_alignable = gm_alignable gm, si_base_chain_depth = gp_max_base_depth plan,
           si_delta_bytes = of_nat (length (er_artifact (gp_encoded plan))), si_full_bytes = er_full_bytes (gp_encoded plan)\<rparr> cfg \<and>
        secondary_dependencies topo report (gp_members plan) = Ok (gp_secondary_deps plan))"

lemma plan_group_cases:
  assumes "plan_group X isa opts cfg base target topo report parent_info (g, pg) plans = Ok plans'"
  shows "(\<not> candidate topo report g \<and> plans' = plans) \<or>
    (candidate topo report g \<and> (\<exists>plan. planned X isa opts cfg base target topo report parent_info g pg plan \<and> plans' = plans @ [(g, plan)]))"
proof (cases "candidate topo report g")
  case False
  then show ?thesis
    using assms by (auto simp: plan_group_def candidate_def group_has_no_alignment_evidence_def Let_def split: option.splits if_splits)
next
  case True
  then obtain gm where gm: "report g = Some gm" and c: "\<not> group_has_no_alignment_evidence topo report g" "tensors_owning_group topo g \<noteq> []"
    by (auto simp: candidate_def group_has_no_alignment_evidence_def split: option.splits)
  obtain hb md where bd: "base_depth parent_info (tensors_owning_group topo g) = (hb, md)"
    by fastforce
  show ?thesis
    using assms gm c bd True unfolding planned_def match_info_def
    by (auto simp: plan_group_def Let_def)
qed

lemma plan_groups_cases:
  assumes "fold_res (plan_group X isa opts cfg base target topo report parent_info) gs plans = Ok plans'"
  shows "\<exists>new. plans' = plans @ new \<and> map fst new = filter (candidate topo report) (map fst gs) \<and>
    (\<forall>(g, plan) \<in> set new. \<exists>pg. (g, pg) \<in> set gs \<and> planned X isa opts cfg base target topo report parent_info g pg plan)"
  using assms
proof (induction gs arbitrary: plans)
  case (Cons a gs)
  obtain g pg where a: "a = (g, pg)"
    by fastforce
  from Cons.prems obtain plans1 where one: "plan_group X isa opts cfg base target topo report parent_info (g, pg) plans = Ok plans1"
    and rest: "fold_res (plan_group X isa opts cfg base target topo report parent_info) gs plans1 = Ok plans'"
    unfolding a by (cases "plan_group X isa opts cfg base target topo report parent_info (g, pg) plans") auto
  obtain new where new: "plans' = plans1 @ new" "map fst new = filter (candidate topo report) (map fst gs)"
    "\<forall>(g, plan) \<in> set new. \<exists>pg. (g, pg) \<in> set gs \<and> planned X isa opts cfg base target topo report parent_info g pg plan"
    using Cons.IH [OF rest] by blast
  from plan_group_cases [OF one] show ?case
  proof (elim disjE conjE exE)
    assume "\<not> candidate topo report g" "plans1 = plans"
    then show ?thesis
      using new a by (intro exI [of _ new]) auto
  next
    fix plan
    assume "candidate topo report g" "planned X isa opts cfg base target topo report parent_info g pg plan" "plans1 = plans @ [(g, plan)]"
    then show ?thesis
      using new a by (intro exI [of _ "(g, plan) # new"]) auto
  qed
qed simp

lemma plan_phase_a_planned:
  assumes "plan_phase_a X isa opts cfg base target topo report parent_info = Ok plans"
  shows "map fst plans = filter (candidate topo report) (map fst (topo_groups topo))"
    "(g, plan) \<in> set plans \<Longrightarrow> \<exists>pg. (g, pg) \<in> set (topo_groups topo) \<and> planned X isa opts cfg base target topo report parent_info g pg plan"
  using plan_groups_cases [OF assms [unfolded plan_phase_a_def]] by auto

lemma base_depth_bound:
  assumes "base_depth parent_info members = (hb, md)" "t \<in> set members" "parent_info t = Some p"
  shows "pi_chain_depth p \<le> md"
proof -
  let ?f = "\<lambda>tensor (has_base, depth). case parent_info tensor of None \<Rightarrow> (has_base, depth) | Some p \<Rightarrow> (True, max depth (pi_chain_depth p))"
  have mono: "d \<le> snd (fold ?f ts (b, d))" for ts b d
  proof (induction ts arbitrary: b d)
    case (Cons t ts)
    show ?case
      using Cons [where b = b and d = d] Cons [where b = True and d = "max d (pi_chain_depth (the (parent_info t)))"]
      by (cases "parent_info t") (auto intro: order_trans [OF max.cobounded1])
  qed simp
  have "pi_chain_depth p \<le> snd (fold ?f ts (b, d))" if "t \<in> set ts" for ts b d
    using that
  proof (induction ts arbitrary: b d)
    case (Cons x ts)
    show ?case
    proof (cases "x = t")
      case True
      then show ?thesis
        using mono [where d = "max d (pi_chain_depth p)" and ts = ts and b = True] assms(3)
          by (auto intro: order_trans [OF max.cobounded2])
    next
      case False
      then show ?thesis
        using Cons by (cases "parent_info x") auto
    qed
  qed simp
  from this [OF assms(2), where b = False and d = 0] show ?thesis
    using assms(1) by (simp add: base_depth_def)
qed

subsection \<open>What is written\<close>

text \<open>States of the block store that puts of objects of \<open>P\<close> lead to, and objects it took on the way.\<close>

inductive puts :: "('s \<Rightarrow> ObjectKind \<Rightarrow> bytes \<Rightarrow> 's \<times> Oid res) \<Rightarrow> (ObjectKind \<times> bytes) set \<Rightarrow> 's \<Rightarrow> 's \<Rightarrow> bool" for put P where
  puts_refl [intro]: "puts put P s s"
| puts_step: "\<lbrakk>puts put P s s1; (k, p) \<in> P; put s1 k p = (s2, r)\<rbrakk> \<Longrightarrow> puts put P s s2"

definition accepted ::
  "('s \<Rightarrow> ObjectKind \<Rightarrow> bytes \<Rightarrow> 's \<times> Oid res) \<Rightarrow> (ObjectKind \<times> bytes) set \<Rightarrow> 's \<Rightarrow> ObjectKind \<Rightarrow> bytes \<Rightarrow> Oid \<Rightarrow> 's \<Rightarrow> bool" where
  "accepted put P s k p oid s' \<longleftrightarrow> (k, p) \<in> P \<and> (\<exists>s0 s1. puts put P s s0 \<and> put s0 k p = (s1, Ok oid) \<and> puts put P s1 s')"

lemma accepted_step: "accepted put P s k p oid s1 \<Longrightarrow> (k', p') \<in> P \<Longrightarrow> put s1 k' p' = (s2, r) \<Longrightarrow> accepted put P s k p oid s2"
  unfolding accepted_def by (meson puts_step)

lemma accepted_now: "puts put P s s1 \<Longrightarrow> (k, p) \<in> P \<Longrightarrow> put s1 k p = (s2, Ok oid) \<Longrightarrow> accepted put P s k p oid s2"
  unfolding accepted_def by (meson puts_refl)

lemma fold_store_rule:
  assumes "fold_store f xs s b = (s', Ok b')" "I [] s b"
    and "\<And>ys x zs s b s1 b1. xs = ys @ x # zs \<Longrightarrow> I ys s b \<Longrightarrow> f x s b = (s1, Ok b1) \<Longrightarrow> I (ys @ [x]) s1 b1"
  shows "I xs s' b'"
proof -
  have "I (ys @ zs) s' b'" if "fold_store f zs s b = (s', Ok b')" "I ys s b" "xs = ys @ zs" for ys zs s b
    using that
  proof (induction zs arbitrary: ys s b)
    case (Cons x zs)
    then obtain s1 b1 where one: "f x s b = (s1, Ok b1)" "fold_store f zs s1 b1 = (s', Ok b')"
      by (auto split: prod.splits res.splits)
    then show ?case
      using Cons.IH [OF one(2), of "ys @ [x]"] assms(3) [OF Cons.prems(3,2) one(1)] Cons.prems(3) by simp
  qed simp
  from this [of xs s b "[]"] show ?thesis
    using assms(1,2) by simp
qed

lemma add_deltas:
  "fold_res (add_delta parent_info oid) ts ents = Ok ents' \<Longrightarrow>
     (\<forall>t \<in> set ts. \<exists>p. parent_info t = Some p \<and> ents' t = Some (delta_entry p t oid)) \<and> (\<forall>t. t \<notin> set ts \<longrightarrow> ents' t = ents t)"
proof (induction ts arbitrary: ents)
  case (Cons t ts)
  obtain p where p: "parent_info t = Some p"
    using Cons.prems by (cases "parent_info t") (auto simp: add_delta_def)
  then have "add_delta parent_info oid t ents = Ok (ents(t \<mapsto> delta_entry p t oid))"
    by (simp add: add_delta_def)
  then have rest: "fold_res (add_delta parent_info oid) ts (ents(t \<mapsto> delta_entry p t oid)) = Ok ents'"
    using Cons.prems by simp
  show ?case
    using Cons.IH [OF rest] p by (cases "t \<in> set ts") auto
qed simp

definition delta_planned ::
  "('s \<Rightarrow> ObjectKind \<Rightarrow> bytes \<Rightarrow> 's \<times> Oid res) \<Rightarrow> (ObjectKind \<times> bytes) set \<Rightarrow> (string \<rightharpoonup> ParentTensorInfo) \<Rightarrow> (string \<times> GroupPlan) list \<Rightarrow>
   (string \<Rightarrow> bool) \<Rightarrow> 's \<Rightarrow> 's \<Rightarrow> string \<Rightarrow> GroupEntry \<Rightarrow> bool" where
  "delta_planned put P parent_info plans is_delta s s' t e \<longleftrightarrow>
     (\<exists>g plan p oid. (g, plan) \<in> set plans \<and> is_delta g \<and> t \<in> set (gp_members plan) \<and> parent_info t = Some p \<and>
        accepted put P s KDiff (er_artifact (gp_encoded plan)) oid s' \<and> e = delta_entry p t oid)"

definition full_planned ::
  "('s \<Rightarrow> ObjectKind \<Rightarrow> bytes \<Rightarrow> 's \<times> Oid res) \<Rightarrow> (ObjectKind \<times> bytes) set \<Rightarrow> TensorSource \<Rightarrow> BufferEntry list \<Rightarrow> 's \<Rightarrow> 's \<Rightarrow> string \<Rightarrow>
   GroupEntry \<Rightarrow> bool" where
  "full_planned put P target layout s s' t e \<longleftrightarrow>
     (\<exists>entry buf oid. entry \<in> set layout \<and> be_tensor entry = t \<and> read_full target entry = Ok buf \<and>
        accepted put P s KRaw buf oid s' \<and> e = full_entry oid)"

definition diff_objects :: "(string \<times> GroupPlan) list \<Rightarrow> (ObjectKind \<times> bytes) set" where
  "diff_objects plans = (\<lambda>(g, plan). (KDiff, er_artifact (gp_encoded plan))) ` set plans"

definition raw_objects :: "TensorSource \<Rightarrow> BufferEntry list \<Rightarrow> (ObjectKind \<times> bytes) set" where
  "raw_objects target layout = {(KRaw, buf) | buf. \<exists>entry \<in> set layout. read_full target entry = Ok buf}"

lemma delta_planned_step:
  "delta_planned put P parent_info plans is_delta s s1 t e \<Longrightarrow> (k, p) \<in> P \<Longrightarrow> put s1 k p = (s2, r) \<Longrightarrow>
   delta_planned put P parent_info plans is_delta s s2 t e"
  unfolding delta_planned_def using accepted_step by metis

lemma full_planned_step:
  "full_planned put P target layout s s1 t e \<Longrightarrow> (k, p) \<in> P \<Longrightarrow> put s1 k p = (s2, r) \<Longrightarrow> full_planned put P target layout s s2 t e"
  unfolding full_planned_def using accepted_step by metis

lemma deltas_written:
  assumes "fold_store (write_delta put parent_info is_delta) plans s Map.empty = (s', Ok ents)" "diff_objects plans \<subseteq> P"
  shows "puts put P s s' \<and> (\<forall>t e. ents t = Some e \<longrightarrow> delta_planned put P parent_info plans is_delta s s' t e) \<and>
    (\<forall>(g, plan) \<in> set plans. is_delta g \<longrightarrow> (\<forall>t \<in> set (gp_members plan). ents t \<noteq> None))"
proof -
  define I where "I = (\<lambda>(ys :: (string \<times> GroupPlan) list) s1 (ents :: entries). puts put P s s1 \<and>
    (\<forall>t e. ents t = Some e \<longrightarrow> delta_planned put P parent_info plans is_delta s s1 t e) \<and>
    (\<forall>(g, plan) \<in> set ys. is_delta g \<longrightarrow> (\<forall>t \<in> set (gp_members plan). ents t \<noteq> None)))"
  have step: "I (ys @ [x]) s2 ents2" if xs: "plans = ys @ x # zs" and I: "I ys s1 ents1" and f: "write_delta put parent_info is_delta x s1 ents1 = (s2, Ok ents2)"
    for ys x zs s1 ents1 s2 ents2
  proof -
    obtain g plan where x: "x = (g, plan)"
      by fastforce
    have mem: "(g, plan) \<in> set plans" "(KDiff, er_artifact (gp_encoded plan)) \<in> P"
      using xs x assms(2) by (auto simp: diff_objects_def)
    show ?thesis
    proof (cases "is_delta g")
      case False
      then show ?thesis
        using f I by (auto simp: x write_delta_def I_def)
    next
      case True
      then obtain oid where put: "put s1 KDiff (er_artifact (gp_encoded plan)) = (s2, Ok oid)"
        and add: "fold_res (add_delta parent_info oid) (gp_members plan) ents1 = Ok ents2"
        using f by (auto simp: x write_delta_def put_then_def split: prod.splits)
      have I': "puts put P s s1" "\<And>t e. ents1 t = Some e \<Longrightarrow> delta_planned put P parent_info plans is_delta s s1 t e"
        "\<forall>(g, plan) \<in> set ys. is_delta g \<longrightarrow> (\<forall>t \<in> set (gp_members plan). ents1 t \<noteq> None)"
        using I by (auto simp: I_def)
      note acc = accepted_now [OF I'(1) mem(2) put]
      note add' = add_deltas [OF add]
      have "delta_planned put P parent_info plans is_delta s s2 t e" if e: "ents2 t = Some e" for t e
      proof (cases "t \<in> set (gp_members plan)")
        case True
        then obtain p where "parent_info t = Some p" "e = delta_entry p t oid"
          using add' e by auto
        then show ?thesis
          unfolding delta_planned_def using mem(1) \<open>is_delta g\<close> True acc by blast
      next
        case False
        then show ?thesis
          using add' e I'(2) delta_planned_step [where put = put, OF _ mem(2) put] by auto
      qed
      moreover have "ents2 t \<noteq> None" if "ents1 t \<noteq> None \<or> t \<in> set (gp_members plan)" for t
        using add' that by (cases "t \<in> set (gp_members plan)") auto
      then have "\<forall>(g, plan) \<in> set (ys @ [x]). is_delta g \<longrightarrow> (\<forall>t \<in> set (gp_members plan). ents2 t \<noteq> None)"
        using I'(3) x by fastforce
      moreover have "puts put P s s2"
        using puts_step [OF I'(1) mem(2) put] .
      ultimately show ?thesis
        unfolding I_def by blast
    qed
  qed
  have "I [] s Map.empty"
    by (auto simp: I_def)
  then have "I plans s' ents"
    by (rule fold_store_rule [OF assms(1)]) (rule step)
  then show ?thesis
    unfolding I_def .
qed

lemma fulls_written:
  assumes "fold_store (write_full put target) layout s1 ents1 = (s', Ok ents)" "raw_objects target layout \<subseteq> P" "puts put P s s1"
    and "\<forall>t e. ents1 t = Some e \<longrightarrow> delta_planned put P parent_info plans is_delta s s1 t e"
  shows "puts put P s s' \<and> (\<forall>t e. ents t = Some e \<longrightarrow>
      (if ents1 t \<noteq> None then delta_planned put P parent_info plans is_delta s s' t e else full_planned put P target layout s s' t e)) \<and>
    (\<forall>entry \<in> set layout. ents (be_tensor entry) \<noteq> None) \<and> (\<forall>t. ents1 t \<noteq> None \<longrightarrow> ents t \<noteq> None)"
proof -
  define I where "I = (\<lambda>(ys :: BufferEntry list) s2 (ents :: entries). puts put P s s2 \<and> (\<forall>t e. ents t = Some e \<longrightarrow>
      (if ents1 t \<noteq> None then delta_planned put P parent_info plans is_delta s s2 t e else full_planned put P target layout s s2 t e)) \<and>
    (\<forall>entry \<in> set ys. ents (be_tensor entry) \<noteq> None) \<and> (\<forall>t. ents1 t \<noteq> None \<longrightarrow> ents t \<noteq> None))"
  have step: "I (ys @ [x]) s3 ents3" if xs: "layout = ys @ x # zs" and I: "I ys s2 ents2" and f: "write_full put target x s2 ents2 = (s3, Ok ents3)"
    for ys x zs s2 ents2 s3 ents3
  proof (cases "ents2 (be_tensor x) = None")
    case False
    then show ?thesis
      using f I by (auto simp: write_full_def I_def)
  next
    case True
    then obtain buf oid where rd: "read_full target x = Ok buf" and put: "put s2 KRaw buf = (s3, Ok oid)"
      and e3: "ents3 = ents2(be_tensor x \<mapsto> full_entry oid)"
      using f by (auto simp: write_full_def put_then_def split: res.splits prod.splits)
    have mem: "x \<in> set layout" "(KRaw, buf) \<in> P"
      using xs rd assms(2) by (auto simp: raw_objects_def)
    have I': "puts put P s s2" "ents1 (be_tensor x) = None"
      using I True by (auto simp: I_def)
    have "full_planned put P target layout s s3 (be_tensor x) (full_entry oid)"
      unfolding full_planned_def using mem(1) rd accepted_now [OF I'(1) mem(2) put] by blast
    then show ?thesis
      using I I'(2) puts_step [OF I'(1) mem(2) put] delta_planned_step [where put = put, OF _ mem(2) put]
        full_planned_step [where put = put, OF _ mem(2) put]
      by (auto simp: I_def e3)
  qed
  have "I [] s1 ents1"
    using assms(3,4) by (simp add: I_def)
  then have "I layout s' ents"
    by (rule fold_store_rule [OF assms(1)]) (rule step)
  then show ?thesis
    unfolding I_def .
qed

text \<open>An order of traversal of a map: every key once.\<close>

definition traversal :: "((string \<times> GroupPlan) list \<Rightarrow> (string \<times> GroupPlan) list) \<Rightarrow> bool" where
  "traversal order \<longleftrightarrow> (\<forall>ps. distinct (map fst ps) \<longrightarrow> set (order ps) = set ps \<and> distinct (map fst (order ps)))"

text \<open>The objects that a commit may have to write.\<close>

definition plan_objects ::
  "'j Ext \<Rightarrow> Isa \<Rightarrow> EncodeOptions \<Rightarrow> SnapshotConfig \<Rightarrow> TensorSource \<Rightarrow> TensorSource \<Rightarrow> BufferEntry list \<Rightarrow> Topology \<Rightarrow> MatchReport \<Rightarrow>
   (string \<rightharpoonup> ParentTensorInfo) \<Rightarrow> (ObjectKind \<times> bytes) set" where
  "plan_objects X isa opts cfg base target layout topo report parent_info =
     (case plan_phase_a X isa opts cfg base target topo report parent_info of Ok plans \<Rightarrow> diff_objects plans | _ \<Rightarrow> {}) \<union>
     raw_objects target layout"

definition stored_as_delta :: "(string \<times> GroupPlan) list \<Rightarrow> (string \<Rightarrow> bool) \<Rightarrow> string \<Rightarrow> bool" where
  "stored_as_delta plans is_delta t \<longleftrightarrow> (\<exists>(g, plan) \<in> set plans. is_delta g \<and> t \<in> set (gp_members plan))"

lemma plan_commit_written:
  assumes run: "plan_commit_groups X isa opts cfg order put base target layout topo report parent_info s = (s', Ok entries)"
    and "traversal order" "distinct (map fst (topo_groups topo))"
  obtains plans0 plans is_delta where
    "plan_phase_a X isa opts cfg base target topo report parent_info = Ok plans0" "set plans = set plans0" and
    "\<forall>(g, plan) \<in> set plans. \<exists>pg. (g, pg) \<in> set (topo_groups topo) \<and> planned X isa opts cfg base target topo report parent_info g pg plan"
    and "fst ` set plans = {g \<in> fst ` set (topo_groups topo). candidate topo report g}" "distinct (map fst plans)"
    and "is_delta = downgrade_loop plans (initial_delta plans)"
    and "\<forall>t e. entries t = Some e \<longrightarrow>
      (if stored_as_delta plans is_delta t
       then delta_planned put (plan_objects X isa opts cfg base target layout topo report parent_info) parent_info plans is_delta s s' t e
       else full_planned put (plan_objects X isa opts cfg base target layout topo report parent_info) target layout s s' t e)"
    and "\<forall>entry \<in> set layout. entries (be_tensor entry) \<noteq> None" "\<forall>t. stored_as_delta plans is_delta t \<longrightarrow> entries t \<noteq> None"
proof -
  let ?P = "plan_objects X isa opts cfg base target layout topo report parent_info"
  obtain plans0 where a: "plan_phase_a X isa opts cfg base target topo report parent_info = Ok plans0"
    using run by (cases "plan_phase_a X isa opts cfg base target topo report parent_info") (auto simp: plan_commit_groups_def)
  define plans where "plans = order plans0"
  define is_delta where "is_delta = downgrade_loop plans (initial_delta plans)"
  note pa = plan_phase_a_planned [OF a]
  have "distinct (map fst plans0)"
    using assms(3) pa(1) by simp
  then have ord: "set plans = set plans0" "distinct (map fst plans)"
    using assms(2) by (auto simp: traversal_def plans_def)
  obtain s1 ents1 where c: "fold_store (write_delta put parent_info is_delta) plans s Map.empty = (s1, Ok ents1)"
    and f: "fold_store (write_full put target) layout s1 ents1 = (s', Ok entries)"
    using run a by (auto simp: plan_commit_groups_def Let_def plans_def [symmetric] is_delta_def [symmetric] split: prod.splits res.splits)
  have P: "diff_objects plans \<subseteq> ?P" "raw_objects target layout \<subseteq> ?P"
    using a ord(1) by (auto simp: plan_objects_def diff_objects_def)
  note dw = deltas_written [OF c P(1)]
  note fw = fulls_written [OF f P(2), of s parent_info plans is_delta]
  have ents1: "ents1 t \<noteq> None \<longleftrightarrow> stored_as_delta plans is_delta t" for t
    using dw unfolding stored_as_delta_def delta_planned_def by fast
  show thesis
  proof (rule that [of plans0 plans is_delta])
    show "\<forall>(g, plan) \<in> set plans. \<exists>pg. (g, pg) \<in> set (topo_groups topo) \<and> planned X isa opts cfg base target topo report parent_info g pg plan"
      using pa(2) ord(1) by blast
    have "fst ` set plans = set (map fst plans0)"
      using ord(1) by simp
    then show "fst ` set plans = {g \<in> fst ` set (topo_groups topo). candidate topo report g}"
      unfolding pa(1) by auto
    show "\<forall>t e. entries t = Some e \<longrightarrow> (if stored_as_delta plans is_delta t
       then delta_planned put ?P parent_info plans is_delta s s' t e else full_planned put ?P target layout s s' t e)"
      "\<forall>entry \<in> set layout. entries (be_tensor entry) \<noteq> None" "\<forall>t. stored_as_delta plans is_delta t \<longrightarrow> entries t \<noteq> None"
      using fw dw unfolding ents1 by blast+
  qed (fact a ord is_delta_def)+
qed

lemma base_depth_no_wrap:
  assumes "base_depth parent_info members = (hb, md)" "\<forall>t p. parent_info t = Some p \<longrightarrow> pi_chain_depth p + 1 \<noteq> 0"
  shows "md + 1 \<noteq> 0"
proof -
  have "snd (fold (\<lambda>tensor (has_base, depth). case parent_info tensor of None \<Rightarrow> (has_base, depth)
      | Some p \<Rightarrow> (True, max depth (pi_chain_depth p))) ts (b, d)) + 1 \<noteq> 0" if "d + 1 \<noteq> 0" for ts b d
    using that
  proof (induction ts arbitrary: b d)
    case (Cons t ts)
    then show ?case
      using assms(2) by (cases "parent_info t") (auto simp: max_def)
  qed simp
  from this [where b = False and d = 0 and ts = members] show ?thesis
    using assms(1) by (simp add: base_depth_def)
qed

lemma delta_decided:
  assumes "(g, plan) \<in> set plans" "distinct (map fst plans)" "downgrade_loop plans (initial_delta plans) g"
  shows "gp_decision plan = DDelta"
proof -
  have "initial_delta plans g"
    using downgrade_loop_greatest [of plans "initial_delta plans"] assms(3) by blast
  then obtain plan' where "(g, plan') \<in> set plans" "gp_decision plan' = DDelta"
    by (auto simp: initial_delta_iff [OF assms(2)])
  then show ?thesis
    using assms(1,2) by (metis map_of_eq_Some_iff option.inject)
qed

text \<open>
  Note: The dependency pass is order independent and optimal: whatever the order in which the maps are traversed, the tensors stored as deltas are those
  of the greatest set of groups that the snapshot policy accepts and whose planned secondary dependencies are again in the set.
\<close>

theorem planned_deltas_greatest:
  assumes "plan_commit_groups X isa opts cfg order put base target layout topo report parent_info s = (s', Ok entries)"
    and "traversal order" "distinct (map fst (topo_groups topo))"
  shows "\<exists>plans. plan_phase_a X isa opts cfg base target topo report parent_info = Ok plans \<and>
    (let accepts = {g. \<exists>plan. (g, plan) \<in> set plans \<and> gp_decision plan = DDelta};
         D = \<Union> {S. closed_deltas plans S \<and> S \<subseteq> accepts}
     in closed_deltas plans D \<and> D \<subseteq> accepts \<and>
        {t. \<exists>e. entries t = Some e \<and> ge_mode e = Delta} = \<Union> {set (gp_members plan) | g plan. (g, plan) \<in> set plans \<and> g \<in> D})"
proof -
  let ?P = "plan_objects X isa opts cfg base target layout topo report parent_info"
  obtain plans0 plans is_delta where
    a: "plan_phase_a X isa opts cfg base target topo report parent_info = Ok plans0" and set: "set plans = set plans0"
    and dist: "distinct (map fst plans)" and isd: "is_delta = downgrade_loop plans (initial_delta plans)"
    and ent: "\<forall>t e. entries t = Some e \<longrightarrow>
      (if stored_as_delta plans is_delta t then delta_planned put ?P parent_info plans is_delta s s' t e
       else full_planned put ?P target layout s s' t e)"
    and delta: "\<forall>t. stored_as_delta plans is_delta t \<longrightarrow> entries t \<noteq> None"
    by (rule plan_commit_written [OF assms])
  define A where "A = {g. \<exists>plan. (g, plan) \<in> set plans0 \<and> gp_decision plan = DDelta}"
  define D where "D = \<Union> {S. closed_deltas plans0 S \<and> S \<subseteq> A}"
  have A: "{n. initial_delta plans n} = A"
    by (auto simp: A_def initial_delta_iff [OF dist] set)
  note great = downgrade_loop_greatest [of plans "initial_delta plans", unfolded A closed_deltas_cong [OF set], folded isd]
  have D: "D = {n. is_delta n}"
    using great unfolding D_def by blast
  have "ge_mode e = Delta \<longleftrightarrow> stored_as_delta plans is_delta t" if e: "entries t = Some e" for t e
    using ent [rule_format, OF e] by (auto simp: delta_planned_def full_planned_def delta_entry_def full_entry_def split: if_splits)
  then have "{t. \<exists>e. entries t = Some e \<and> ge_mode e = Delta} = {t. stored_as_delta plans is_delta t}"
    using delta by auto
  then have "{t. \<exists>e. entries t = Some e \<and> ge_mode e = Delta} = \<Union> {set (gp_members plan) | g plan. (g, plan) \<in> set plans0 \<and> g \<in> D}"
    by (auto simp: stored_as_delta_def D set)
  then have "closed_deltas plans0 D \<and> D \<subseteq> A \<and> {t. \<exists>e. entries t = Some e \<and> ge_mode e = Delta} =
      \<Union> {set (gp_members plan) | g plan. (g, plan) \<in> set plans0 \<and> g \<in> D}"
    using great D by simp
  then show ?thesis
    unfolding D_def A_def Let_def using a by (intro exI [of _ plans0] conjI) simp_all
qed

lemma delta_depth:
  assumes "planned X isa opts cfg base target topo report parent_info g pg plan" "gp_decision plan = DDelta"
    and "t \<in> set (gp_members plan)" "parent_info t = Some p" "\<forall>t p. parent_info t = Some p \<longrightarrow> pi_chain_depth p + 1 \<noteq> 0"
  shows "unat (pi_chain_depth p + 1) = unat (pi_chain_depth p) + 1" "pi_chain_depth p + 1 \<le> cfg_max_chain_depth cfg"
proof -
  have bd: "base_depth parent_info (gp_members plan) = (gp_has_base plan, gp_max_base_depth plan)"
    and le: "gp_max_base_depth plan + 1 \<le> cfg_max_chain_depth cfg"
    using assms(1,2) by (auto simp: planned_def decide_def split: if_splits)
  have ge: "pi_chain_depth p \<le> gp_max_base_depth plan"
    by (rule base_depth_bound [OF bd assms(3,4)])
  have suc: "unat (gp_max_base_depth plan + 1) = unat (gp_max_base_depth plan) + 1" "unat (pi_chain_depth p + 1) = unat (pi_chain_depth p) + 1"
    using base_depth_no_wrap [OF bd assms(5)] assms(4,5)
      unatSuc [of "gp_max_base_depth plan"] unatSuc [of "pi_chain_depth p"] by (auto simp: add.commute)
  then show "unat (pi_chain_depth p + 1) = unat (pi_chain_depth p) + 1" "pi_chain_depth p + 1 \<le> cfg_max_chain_depth cfg"
    using le ge by (simp_all add: word_le_nat_alt)
qed

text \<open>
  Note: A commit never deepens a chain beyond the configured bound: when no parent is at the largest representable depth, every entry that the planner returns is
  full with depth 0, or a delta over the parent's tensor of the same name, one deeper than it and at most \<open>max_chain_depth\<close> deep; and every tensor of the buffer layout has an entry.
\<close>

theorem planned_depth_bounded:
  assumes "plan_commit_groups X isa opts cfg order put base target layout topo report parent_info s = (s', Ok entries)"
    and "traversal order" "distinct (map fst (topo_groups topo))"
    and "\<forall>t p. parent_info t = Some p \<longrightarrow> pi_chain_depth p + 1 \<noteq> 0"
  shows "be_tensor ` set layout \<subseteq> dom entries \<and>
    (\<forall>t e. entries t = Some e \<longrightarrow>
       ge_mode e = Full \<and> ge_chain_depth e = 0 \<or>
       ge_mode e = Delta \<and> (\<exists>p. parent_info t = Some p \<and> ge_base e = Some \<lparr>db_commit = pi_parent_commit p, db_group = t\<rparr> \<and>
         unat (ge_chain_depth e) = unat (pi_chain_depth p) + 1 \<and> ge_chain_depth e \<le> cfg_max_chain_depth cfg))"
proof -
  let ?P = "plan_objects X isa opts cfg base target layout topo report parent_info"
  obtain plans0 plans is_delta where
    pl: "\<forall>(g, plan) \<in> set plans. \<exists>pg. (g, pg) \<in> set (topo_groups topo) \<and> planned X isa opts cfg base target topo report parent_info g pg plan"
    and dist: "distinct (map fst plans)" and isd: "is_delta = downgrade_loop plans (initial_delta plans)"
    and ent: "\<forall>t e. entries t = Some e \<longrightarrow>
      (if stored_as_delta plans is_delta t
       then delta_planned put (plan_objects X isa opts cfg base target layout topo report parent_info) parent_info plans is_delta s s' t e
       else full_planned put (plan_objects X isa opts cfg base target layout topo report parent_info) target layout s s' t e)"
    and all: "\<forall>entry \<in> set layout. entries (be_tensor entry) \<noteq> None"
    by (rule plan_commit_written [OF assms(1-3)])
  have dl: "ge_mode e = Delta \<and> (\<exists>p. parent_info t = Some p \<and> ge_base e = Some \<lparr>db_commit = pi_parent_commit p, db_group = t\<rparr> \<and>
         unat (ge_chain_depth e) = unat (pi_chain_depth p) + 1 \<and> ge_chain_depth e \<le> cfg_max_chain_depth cfg)"
    if d: "delta_planned put P parent_info plans is_delta s s' t e" for t e P
  proof -
    obtain g plan p oid where x: "(g, plan) \<in> set plans" "is_delta g" "t \<in> set (gp_members plan)" "parent_info t = Some p" "e = delta_entry p t oid"
      using d by (auto simp: delta_planned_def)
    obtain pg where pg: "planned X isa opts cfg base target topo report parent_info g pg plan"
      using pl x(1) by blast
    have "gp_decision plan = DDelta"
      using delta_decided [OF x(1) dist] x(2) isd by simp
    from delta_depth [OF pg this x(3,4) assms(4)] show ?thesis
      using x(4,5) by (simp add: delta_entry_def)
  qed
  have fl: "ge_mode e = Full \<and> ge_chain_depth e = 0" if "full_planned put P target layout s s' t e" for t e P
    using that by (auto simp: full_planned_def full_entry_def)
  show ?thesis
  proof (intro conjI allI impI)
    show "be_tensor ` set layout \<subseteq> dom entries"
      using all by auto
    fix t e
    assume "entries t = Some e"
    then show "ge_mode e = Full \<and> ge_chain_depth e = 0 \<or>
       ge_mode e = Delta \<and> (\<exists>p. parent_info t = Some p \<and> ge_base e = Some \<lparr>db_commit = pi_parent_commit p, db_group = t\<rparr> \<and>
         unat (ge_chain_depth e) = unat (pi_chain_depth p) + 1 \<and> ge_chain_depth e \<le> cfg_max_chain_depth cfg)"
      using ent dl [of ?P t e] fl [of ?P t e]
      by (cases "stored_as_delta plans is_delta t") simp_all
  qed
qed

subsection \<open>An example: one tensor, stored as a delta\<close>

definition plan_config :: SnapshotConfig where
  "plan_config = \<lparr>cfg_max_chain_depth = 5, cfg_too_large = (\<lambda>delta full. False)\<rparr>"

definition plan_report :: MatchReport where
  "plan_report = [''g0'' \<mapsto> \<lparr>gm_permutation = [], gm_identity = True, gm_alignable = True, gm_cost_raw = 0, gm_cost_normalized = 0\<rparr>]"

definition plan_parents :: "string \<rightharpoonup> ParentTensorInfo" where
  "plan_parents = [''w'' \<mapsto> \<lparr>pi_parent_commit = replicate 32 9, pi_chain_depth = 0\<rparr>]"

definition plan_put :: "nat \<Rightarrow> ObjectKind \<Rightarrow> bytes \<Rightarrow> nat \<times> Oid res" where
  "plan_put n k p = (Suc n, Ok (replicate 32 (if k = KDiff then 10 else 11)))"

definition plan_layout :: "BufferEntry list" where
  "plan_layout = [\<lparr>be_tensor = ''w'', be_off = 1, be_nbytes = 4, be_group = ''w''\<rparr>]"

definition example_plan :: GroupPlan where
  "example_plan = \<lparr>gp_members = [''w''], gp_encoded = \<lparr>er_artifact = assemble_artifact [1] [4, 4, 4, 12], er_payload_bytes = 4, er_full_bytes = 4\<rparr>,
     gp_has_base = True, gp_max_base_depth = 0, gp_decision = DDelta, gp_secondary_deps = []\<rparr>"

lemma example_owner: "tensors_owning_group encode_topology ''g0'' = [''w'']"
  by (simp add: tensors_owning_group_def encode_topology_def example_binding_def)

lemma example_phase_a:
  "plan_phase_a example_X Scalar example_options plan_config (example_source example_base) (example_source example_target) encode_topology
     plan_report plan_parents = Ok [(''g0'', example_plan)]"
proof -
  have groups: "topo_groups encode_topology = [(''g0'', \<lparr>pg_size = 4, pinned = False\<rparr>)]"
    by (simp add: encode_topology_def)
  have axes: "tensor_axes encode_topology ''w'' = Ok [example_binding]"
    by (simp add: tensor_axes_def encode_topology_def)
  have ev: "\<not> group_has_no_alignment_evidence encode_topology plan_report ''g0''"
    by (simp add: group_has_no_alignment_evidence_def group_pinned_def topo_find_group_def encode_topology_def plan_report_def)
  have ad: "fold_res (chain_adapter encode_topology plan_report (example_source example_target)) [''w''] (example_source example_base) =
      Ok (example_source example_base)"
    by (simp add: chain_adapter_def axes example_binding_def)
  have perm: "materialize_permutation \<lparr>gm_permutation = [], gm_identity = True, gm_alignable = True, gm_cost_raw = 0, gm_cost_normalized = 0\<rparr> 4 =
      [0, 1, 2, 3]"
    by (simp add: materialize_permutation_def upt_rec)
  have deps: "secondary_dependencies encode_topology plan_report [''w''] = Ok []"
    by (simp add: secondary_dependencies_def add_dependencies_def axes example_binding_def)
  have depth: "base_depth plan_parents [''w''] = (True, 0)"
    by (simp add: base_depth_def plan_parents_def)
  have rep: "plan_report ''g0'' = Some \<lparr>gm_permutation = [], gm_identity = True, gm_alignable = True, gm_cost_raw = 0, gm_cost_normalized = 0\<rparr>"
    by (simp add: plan_report_def)
  show ?thesis
    using ev rep ad perm deps depth example_encoded
    by (simp add: plan_phase_a_def groups plan_group_def example_owner Let_def example_plan_def decide_def plan_config_def
        flip: example_alignment_def)
qed

lemma example_planned:
  "plan_commit_groups example_X Scalar example_options plan_config (\<lambda>ps. ps) plan_put (example_source example_base) (example_source example_target)
     plan_layout encode_topology plan_report plan_parents 0 = (1, Ok [''w'' \<mapsto> example_delta])"
proof -
  have init: "initial_delta [(''g0'', example_plan)] = (\<lambda>_. False)(''g0'' := True)"
    by (simp add: initial_delta_def example_plan_def)
  have "downgrade_loop [(''g0'', example_plan)] ((\<lambda>_. False)(''g0'' := True)) = (\<lambda>_. False)(''g0'' := True)"
    by (simp add: downgrade_loop.simps downgrade_pass_def downgrade_step_def unmet_def example_plan_def)
  then show ?thesis
    using example_phase_a init
    by (simp add: plan_commit_groups_def Let_def write_delta_def put_then_def plan_put_def example_plan_def add_delta_def plan_parents_def
        write_full_def plan_layout_def delta_entry_def example_delta_def)
qed

lemma example_traversal: "traversal (\<lambda>ps. ps)"
  by (simp add: traversal_def)

theorem planned_deltas_greatest_witness:
  "let D = \<Union> {S. closed_deltas [(''g0'', example_plan)] S \<and> S \<subseteq> {''g0''}}
   in closed_deltas [(''g0'', example_plan)] D \<and> D \<subseteq> {''g0''} \<and>
      {t. \<exists>e. [''w'' \<mapsto> example_delta] t = Some e \<and> ge_mode e = Delta} =
        \<Union> {set (gp_members plan) | g plan. (g, plan) \<in> set [(''g0'', example_plan)] \<and> g \<in> D}"
proof -
  have dist: "distinct (map fst (topo_groups encode_topology))"
    by (simp add: encode_topology_def)
  have acc: "{g. \<exists>plan. (g, plan) \<in> set [(''g0'', example_plan)] \<and> gp_decision plan = DDelta} = {''g0''}"
    by (auto simp: example_plan_def)
  from planned_deltas_greatest [OF example_planned example_traversal dist, unfolded example_phase_a Let_def]
  obtain plans where plans: "Ok [(''g0'', example_plan)] = Ok plans" and
    D: "closed_deltas plans (\<Union> {S. closed_deltas plans S \<and> S \<subseteq> {g. \<exists>plan. (g, plan) \<in> set plans \<and> gp_decision plan = DDelta}}) \<and>
      \<Union> {S. closed_deltas plans S \<and> S \<subseteq> {g. \<exists>plan. (g, plan) \<in> set plans \<and> gp_decision plan = DDelta}} \<subseteq>
        {g. \<exists>plan. (g, plan) \<in> set plans \<and> gp_decision plan = DDelta} \<and>
      {t. \<exists>e. [''w'' \<mapsto> example_delta] t = Some e \<and> ge_mode e = Delta} =
        \<Union> {set (gp_members plan) | g plan. (g, plan) \<in> set plans \<and>
          g \<in> \<Union> {S. closed_deltas plans S \<and> S \<subseteq> {g. \<exists>plan. (g, plan) \<in> set plans \<and> gp_decision plan = DDelta}}}"
    by (elim exE conjE) blast
  have "plans = [(''g0'', example_plan)]"
    using plans by simp
  then show ?thesis
    using D acc unfolding Let_def by simp
qed

theorem planned_depth_bounded_witness:
  "unat (ge_chain_depth example_delta) = 1 \<and> ge_chain_depth example_delta \<le> 5"
proof -
  have "distinct (map fst (topo_groups encode_topology))" "\<forall>t p. plan_parents t = Some p \<longrightarrow> pi_chain_depth p + 1 \<noteq> 0"
    by (auto simp: encode_topology_def plan_parents_def split: if_splits)
  from planned_depth_bounded [OF example_planned example_traversal this] show ?thesis
    by (auto simp: plan_config_def plan_parents_def example_delta_def)
qed

end
