(* ===== verification/Store_Readback.thy ===== *)
theory Store_Readback
  imports Store_Planner
begin

section \<open>What is planned reads back\<close>

text \<open>
  The composition of the planner (\<open>store/src/commit_planner.cpp\<close>), the encoder and the reader: a commit whose manifest holds the
  planned entries gives back every tensor of the target. The heart of it is that the reader, which finds the column permutation of a tensor
  through another tensor's diff object (\<open>resolve_secondary_permutation\<close>), arrives at the permutation the planner read the base with.
\<close>

subsection \<open>The column permutation that the reader finds\<close>

definition read_secondary :: "Topology \<Rightarrow> MatchReport \<Rightarrow> TensorMeta \<Rightarrow> AxisBinding list \<Rightarrow> SecondaryAxis" where
  "read_secondary topo report meta axes =
     (case find (\<lambda>ax. ax_dim ax \<noteq> 0) axes of
        None \<Rightarrow> no_secondary
      | Some ax \<Rightarrow>
          (case report (ax_group ax) of
             None \<Rightarrow> no_secondary
           | Some gm \<Rightarrow>
               if group_is_effectively_identity topo report (ax_group ax) \<or> gm_permutation gm = [0..<length (gm_permutation gm)]
               then no_secondary else plan_secondary topo report meta axes))"

lemma row_view_identity:
  assumes "sa_perm sec = [0..<n]" "n * unat (sa_unit_bytes sec) = length row"
  shows "row_view sec row = row"
  using assms concat_slices [of n "unat (sa_unit_bytes sec)" row] by (auto simp: row_view_def units_of_def)

lemma no_secondary_fits [simp]: "secondary_fits no_secondary u"
  by (simp add: secondary_fits_def no_secondary_def)

lemma read_secondary_view:
  assumes fits: "secondary_fits (plan_secondary topo report meta axes) u" and given: "columns_given topo report axes" and B: "length B = N * u"
  shows "secondary_fits (read_secondary topo report meta axes) u"
    "base_view (plan_secondary topo report meta axes) [0..<N] u B = base_view (read_secondary topo report meta axes) [0..<N] u B"
proof -
  let ?p = "plan_secondary topo report meta axes" and ?r = "read_secondary topo report meta axes"
  have cases: "?r = ?p \<or> ?r = no_secondary \<and> (\<exists>n. sa_perm ?p = [0..<n] \<and> sa_perm ?p \<noteq> [])"
  proof (cases "find (\<lambda>ax. ax_dim ax \<noteq> 0) axes")
    case (Some ax)
    show ?thesis
    proof (cases "report (ax_group ax)")
      case rep: (Some gm)
      show ?thesis
      proof (cases "\<not> group_is_effectively_identity topo report (ax_group ax) \<and> gm_permutation gm = [0..<length (gm_permutation gm)]")
        case True
        then have g: "expand (gm_permutation gm) (unat (ax_block ax)) \<noteq> []" "length (gm_permutation gm) * unat (ax_block ax) \<le> 2 ^ 32"
          using given Some rep by (auto simp: columns_given_def)
        have "sa_perm ?p = expand [0..<length (gm_permutation gm)] (unat (ax_block ax))"
          using True Some rep by (simp add: plan_secondary_def)
        also have "\<dots> = [0..<length (gm_permutation gm) * unat (ax_block ax)]"
          by (rule expand_identity [OF g(2)])
        finally have "sa_perm ?p = [0..<length (gm_permutation gm) * unat (ax_block ax)]" .
        moreover have "sa_perm ?p \<noteq> []"
          using True Some rep g(1) by (simp add: plan_secondary_def)
        moreover have "?r = no_secondary"
          using True Some rep by (simp add: read_secondary_def)
        ultimately show ?thesis
          by blast
      next
        case False
        then show ?thesis
          using Some rep by (auto simp: read_secondary_def plan_secondary_def)
      qed
    qed (use Some in \<open>simp add: read_secondary_def plan_secondary_def\<close>)
  qed (simp add: read_secondary_def plan_secondary_def)
  then show "secondary_fits ?r u"
    using fits by auto
  have "base_view ?p [0..<N] u B = base_view no_secondary [0..<N] u B" if "sa_perm ?p = [0..<n]" "sa_perm ?p \<noteq> []" for n
  proof -
    have n: "n * unat (sa_unit_bytes ?p) = u"
      using fits that by (simp add: secondary_fits_def)
    have "row_view ?p (slice B (p * u) u) = row_view no_secondary (slice B (p * u) u)" if "p < N" for p
    proof -
      have "Suc p * u \<le> N * u"
        using that by (intro mult_le_mono1) simp
      then have "row_view ?p (slice B (p * u) u) = slice B (p * u) u"
        using n B \<open>sa_perm ?p = [0..<n]\<close> by (intro row_view_identity) auto
      then show ?thesis
        by (simp add: row_view_def no_secondary_def)
    qed
    then show ?thesis
      by (auto simp: base_view_def intro!: arg_cong [where f = concat])
  qed
  then show "base_view ?p [0..<N] u B = base_view ?r [0..<N] u B"
    using cases by auto
qed

lemma owner_permutation_written:
  assumes "is_valid_permutation perm (length perm)" "length perm \<le> 2 ^ 30"
    and "write_permutation [] perm = (payload0, ref)" "dh_permutation h = ref" "parse_diff_artifact X art = Ok (as_read h, payload0 @ ext)"
    and "rc_manifest ctx = Some m" "find_group m owner = Some (delta_entry p owner oid)" "rc_blocks ctx = Some blocks"
    and "bi_get blocks oid KDiff = Ok art"
  shows "owner_permutation X ctx owner = Ok (if perm = [0..<length perm] then [] else perm)"
proof -
  have "pr_kind ref = (if perm = [0..<length perm] then PIdentity else PExplicit)"
    "read_permutation ref (payload0 @ ext) = Ok (if perm = [0..<length perm] then [] else perm)"
    using written_permutation [OF assms(1,2), of "[]" ext] assms(3) by auto
  then show ?thesis
    using assms by (auto simp: owner_permutation_def delta_entry_def as_read_def identity_ref_def)
qed

lemma dim0_binding_iff: "dim0_binding g axes \<noteq> None \<longleftrightarrow> list_ex (\<lambda>ax. ax_dim ax = 0 \<and> ax_group ax = g) axes"
  by (auto simp: dim0_binding_def find_None_iff list_ex_iff)

lemma owning_iff: "t \<in> set (tensors_owning_group topo g) \<longleftrightarrow> (\<exists>axes. (t, axes) \<in> set (topo_tensors topo) \<and> dim0_binding g axes \<noteq> None)"
  unfolding dim0_binding_iff tensors_owning_group_def by force

lemma distinct_owning: "distinct (map fst (topo_tensors topo)) \<Longrightarrow> distinct (tensors_owning_group topo g)"
  by (simp add: tensors_owning_group_def distinct_map_filter)

subsection \<open>What a commit needs\<close>

text \<open>
  The topology: keys are unique, a tensor owns at most one group, and every group that permutes columns is listed and, unless it is
  pinned, owned by some tensor; the permutation of such a group is given.
\<close>

definition plan_topology_ok :: "Topology \<Rightarrow> MatchReport \<Rightarrow> bool" where
  "plan_topology_ok topo report \<longleftrightarrow> distinct (map fst (topo_groups topo)) \<and> distinct (map fst (topo_tensors topo)) \<and>
     (\<forall>(name, axes) \<in> set (topo_tensors topo). name \<noteq> [] \<and> columns_given topo report axes \<and>
        (\<forall>g g'. dim0_binding g axes \<noteq> None \<longrightarrow> dim0_binding g' axes \<noteq> None \<longrightarrow> g = g') \<and>
        (\<forall>ax. find (\<lambda>ax. ax_dim ax \<noteq> 0) axes = Some ax \<longrightarrow> ax_group ax \<in> fst ` set (topo_groups topo) \<and>
           (group_pinned topo (ax_group ax) \<or> tensors_owning_group topo (ax_group ax) \<noteq> [])))"

type_synonym tensor_spec = "string \<Rightarrow> TensorMeta \<times> nat \<times> bytes \<times> bytes"

text \<open>
  A group with evidence: its permutation is one, empty exactly if the report says identity, and both sources deliver its tensors: the
  base \<open>B\<close> and the target \<open>T\<close> in units of \<open>u\<close> bytes.
\<close>

definition match_ok :: "EncodeOptions \<Rightarrow> TensorSource \<Rightarrow> TensorSource \<Rightarrow> Topology \<Rightarrow> MatchReport \<Rightarrow> tensor_spec \<Rightarrow> string \<Rightarrow> PermGroup \<Rightarrow> GroupMatch \<Rightarrow> bool" where
  "match_ok opts base target topo report spec g pg gm \<longleftrightarrow>
     (let perm = materialize_permutation gm (pg_size pg)
      in is_valid_permutation perm (length perm) \<and> length perm \<le> 2 ^ 30 \<and>
         finite_double (gm_cost_raw gm) \<and> finite_double (gm_cost_normalized gm) \<and> (gm_identity gm \<longleftrightarrow> gm_permutation gm = []) \<and>
         (\<forall>(name, axes) \<in> set (topo_tensors topo). \<forall>binding. dim0_binding g axes = Some binding \<longrightarrow>
            length perm * unat (ax_block binding) \<le> 2 ^ 32 \<and>
            (case spec name of (meta, u, B, T) \<Rightarrow>
               tensor_ready opts base target perm name binding meta no_secondary u B T \<and>
               secondary_fits (plan_secondary topo report meta axes) u)))"

definition plan_ready :: "'j Ext \<Rightarrow> EncodeOptions \<Rightarrow> TensorSource \<Rightarrow> TensorSource \<Rightarrow> Topology \<Rightarrow> MatchReport \<Rightarrow> tensor_spec \<Rightarrow> bool" where
  "plan_ready X opts base target topo report spec \<longleftrightarrow> plan_topology_ok topo report \<and>
     (\<forall>b. \<exists>z. x_compress X (eo_level opts) (eo_checksum opts) b = Some z) \<and>
     (\<forall>(g, pg) \<in> set (topo_groups topo). \<forall>gm. candidate topo report g \<longrightarrow> report g = Some gm \<longrightarrow>
        match_ok opts base target topo report spec g pg gm)"

text \<open>The specification of a tensor as the encoder's lemmas state it, with the column permutation the reader finds.\<close>

definition with_secondary :: "Topology \<Rightarrow> MatchReport \<Rightarrow> tensor_spec \<Rightarrow> string \<Rightarrow> TensorMeta \<times> SecondaryAxis \<times> nat \<times> bytes \<times> bytes" where
  "with_secondary topo report spec name =
     (case spec name of (meta, u, B, T) \<Rightarrow>
        (meta, read_secondary topo report meta (the (map_of (topo_tensors topo) name)), u, B, T))"

lemma encoder_ready:
  assumes ok: "plan_topology_ok topo report" and match: "match_ok opts base target topo report spec g pg gm"
    and adapters: "fold_res (chain_adapter topo report target) (tensors_owning_group topo g) base = Ok base'"
  shows "group_ready opts base' target (materialize_permutation gm (pg_size pg)) g (with_secondary topo report spec) (topo_tensors topo)"
proof -
  let ?perm = "materialize_permutation gm (pg_size pg)"
  have "case with_secondary topo report spec name of (meta, sec, u, B, T) \<Rightarrow> tensor_ready opts base' target ?perm name binding meta sec u B T"
    if 1: "(name, axes) \<in> set (topo_tensors topo)" "dim0_binding g axes = Some binding" for name axes binding
  proof -
    let ?N = "length (materialize_permutation gm (pg_size pg)) * unat (ax_block binding)"
    obtain meta u B T where sp: "spec name = (meta, u, B, T)"
      by (cases "spec name")
    have keys: "distinct (map fst (topo_tensors topo))" and given: "columns_given topo report axes"
      using ok 1(1) by (auto simp: plan_topology_ok_def)
    have map: "map_of (topo_tensors topo) name = Some axes"
      using keys 1(1) by simp
    have ready: "tensor_ready opts base target ?perm name binding meta no_secondary u B T"
      and fits: "secondary_fits (plan_secondary topo report meta axes) u"
      using match 1 sp by (fastforce simp: match_ok_def Let_def)+
    have e: "0 < u" "0 < ?N" "length B = ?N * u" "?N * u < 2 ^ 62" "source_reads base name u B" "ts_meta target name = Some meta"
      using ready base_view_no_secondary [of B ?N u] by (auto simp: tensor_ready_def encodable_def Let_def)
    have "1 * u \<le> ?N * u"
      using e(2) by (intro mult_le_mono1) (simp only: One_nat_def Suc_le_eq)
    then have "u < 2 ^ 62"
      using le_less_trans [OF _ e(4)] by (simp only: mult_1)
    from chained_adapters_read [OF adapters distinct_owning [OF keys] _ map e(6,5,3,4) this e(1) fits given]
    have "source_reads base' name u (base_view (read_secondary topo report meta axes) [0..<?N] u B)"
      using 1 read_secondary_view(2) [OF fits given e(3)] by (auto simp: owning_iff)
    then have "tensor_ready opts base' target ?perm name binding meta (read_secondary topo report meta axes) u B T"
      using ready read_secondary_view(1) [OF fits given e(3)] by (simp add: tensor_ready_def encodable_def Let_def)
    then show ?thesis
      by (simp add: with_secondary_def sp map)
  qed
  then have "case x of (name, axes) \<Rightarrow> \<forall>binding. dim0_binding g axes = Some binding \<longrightarrow> (case with_secondary topo report spec name of
      (meta, sec, u, B, T) \<Rightarrow> tensor_ready opts base' target ?perm name binding meta sec u B T)" if "x \<in> set (topo_tensors topo)" for x
    using that by (cases x) simp
  then show ?thesis
    unfolding group_ready_def by (intro ballI)
qed

subsection \<open>The manifest of the commit\<close>

definition stored_as :: "BlockIf \<Rightarrow> ObjectKind \<Rightarrow> bytes \<Rightarrow> Oid \<Rightarrow> bool" where
  "stored_as blocks k p oid \<longleftrightarrow>
     (k = KDiff \<longrightarrow> bi_get blocks oid KDiff = Ok p \<and> length p < 2 ^ 63) \<and> (k = KRaw \<longrightarrow> reads_as (bi_read_range blocks oid KRaw) p)"

text \<open>
  The reader's context: the block store, a manifest with the planned entries, and the topology, whose maps may be
  traversed in another order than the planner's.
\<close>

definition reads_commit :: "ReadCtx \<Rightarrow> BlockIf \<Rightarrow> Topology \<Rightarrow> Manifest \<Rightarrow> entries \<Rightarrow> bool" where
  "reads_commit ctx blocks topo m entries \<longleftrightarrow> rc_blocks ctx = Some blocks \<and> rc_manifest ctx = Some m \<and>
     (\<forall>t e. entries t = Some e \<longrightarrow> find_group m t = Some e) \<and>
     (\<exists>rtopo. rc_topology ctx = Some rtopo \<and> set (topo_tensors rtopo) = set (topo_tensors topo) \<and>
        distinct (map fst (topo_tensors rtopo)) \<and> topo_find_group rtopo = topo_find_group topo)"

text \<open>The setting that the following lemmas share: what the planner did, in the terms of \<open>plan_commit_written\<close>.\<close>

definition commit_written ::
  "'j Ext \<Rightarrow> Isa \<Rightarrow> EncodeOptions \<Rightarrow> SnapshotConfig \<Rightarrow> TensorSource \<Rightarrow> TensorSource \<Rightarrow> BufferEntry list \<Rightarrow> Topology \<Rightarrow> MatchReport \<Rightarrow>
   (string \<rightharpoonup> ParentTensorInfo) \<Rightarrow> BlockIf \<Rightarrow> entries \<Rightarrow> (string \<times> GroupPlan) list \<Rightarrow> (string \<Rightarrow> bool) \<Rightarrow> bool" where
  "commit_written X isa opts cfg base target layout topo report parent_info blocks entries plans is_delta \<longleftrightarrow>
     (\<forall>(g, plan) \<in> set plans. \<exists>pg. (g, pg) \<in> set (topo_groups topo) \<and> planned X isa opts cfg base target topo report parent_info g pg plan) \<and>
     fst ` set plans = {g \<in> fst ` set (topo_groups topo). candidate topo report g} \<and> distinct (map fst plans) \<and>
     closed_deltas plans {g. is_delta g} \<and> (\<forall>(g, plan) \<in> set plans. is_delta g \<longrightarrow> gp_decision plan = DDelta) \<and>
     (\<forall>t. if stored_as_delta plans is_delta t
       then \<exists>g plan p oid. (g, plan) \<in> set plans \<and> is_delta g \<and> t \<in> set (gp_members plan) \<and> parent_info t = Some p \<and>
         stored_as blocks KDiff (er_artifact (gp_encoded plan)) oid \<and> entries t = Some (delta_entry p t oid)
       else t \<in> be_tensor ` set layout \<longrightarrow> (\<exists>entry buf oid. entry \<in> set layout \<and> be_tensor entry = t \<and> read_full target entry = Ok buf \<and>
         stored_as blocks KRaw buf oid \<and> entries t = Some (full_entry oid)))"

lemma commit_writtenI:
  assumes run: "plan_commit_groups X isa opts cfg order put base target layout topo report parent_info s = (s', Ok entries)"
    and "traversal order" "distinct (map fst (topo_groups topo))"
    and stored: "\<And>k p oid. accepted put (plan_objects X isa opts cfg base target layout topo report parent_info) s k p oid s' \<Longrightarrow> stored_as blocks k p oid"
  obtains plans is_delta where "commit_written X isa opts cfg base target layout topo report parent_info blocks entries plans is_delta"
proof -
  let ?P = "plan_objects X isa opts cfg base target layout topo report parent_info"
  obtain plans0 plans is_delta where
    pl: "\<forall>(g, plan) \<in> set plans. \<exists>pg. (g, pg) \<in> set (topo_groups topo) \<and> planned X isa opts cfg base target topo report parent_info g pg plan"
    and cand: "fst ` set plans = {g \<in> fst ` set (topo_groups topo). candidate topo report g}" and dist: "distinct (map fst plans)"
    and isd: "is_delta = downgrade_loop plans (initial_delta plans)"
    and ent: "\<forall>t e. entries t = Some e \<longrightarrow>
      (if stored_as_delta plans is_delta t then delta_planned put ?P parent_info plans is_delta s s' t e
       else full_planned put ?P target layout s s' t e)"
    and all: "\<forall>entry \<in> set layout. entries (be_tensor entry) \<noteq> None" and delta: "\<forall>t. stored_as_delta plans is_delta t \<longrightarrow> entries t \<noteq> None"
    by (rule plan_commit_written [OF assms(1-3)])
  have "closed_deltas plans {g. is_delta g}"
    using downgrade_loop_greatest [of plans "initial_delta plans"] isd by simp
  moreover have "\<forall>(g, plan) \<in> set plans. is_delta g \<longrightarrow> gp_decision plan = DDelta"
    using delta_decided [OF _ dist] isd by blast
  moreover have "\<exists>g plan p oid. (g, plan) \<in> set plans \<and> is_delta g \<and> t \<in> set (gp_members plan) \<and> parent_info t = Some p \<and>
         stored_as blocks KDiff (er_artifact (gp_encoded plan)) oid \<and> entries t = Some (delta_entry p t oid)"
    if t: "stored_as_delta plans is_delta t" for t
  proof -
    obtain e where e: "entries t = Some e"
      using delta t by blast
    then have "delta_planned put ?P parent_info plans is_delta s s' t e"
      using ent t by auto
    then show ?thesis
      using e stored unfolding delta_planned_def by blast
  qed
  moreover have "\<exists>entry buf oid. entry \<in> set layout \<and> be_tensor entry = t \<and> read_full target entry = Ok buf \<and>
         stored_as blocks KRaw buf oid \<and> entries t = Some (full_entry oid)"
    if t: "\<not> stored_as_delta plans is_delta t" "t \<in> be_tensor ` set layout" for t
  proof -
    obtain e where e: "entries t = Some e"
      using all t(2) by blast
    then have "full_planned put ?P target layout s s' t e"
      using ent t by auto
    then show ?thesis
      using e stored unfolding full_planned_def by blast
  qed
  ultimately show thesis
    using that [of plans is_delta] pl cand dist unfolding commit_written_def by simp
qed

lemma commit_writtenD:
  assumes "commit_written X isa opts cfg base target layout topo report parent_info blocks entries plans is_delta"
  shows "(g, plan) \<in> set plans \<Longrightarrow> \<exists>pg. (g, pg) \<in> set (topo_groups topo) \<and> planned X isa opts cfg base target topo report parent_info g pg plan"
    and "g \<in> fst ` set plans \<longleftrightarrow> g \<in> fst ` set (topo_groups topo) \<and> candidate topo report g"
    and "closed_deltas plans {g. is_delta g}" and "(g, plan) \<in> set plans \<Longrightarrow> is_delta g \<Longrightarrow> gp_decision plan = DDelta"
    and "stored_as_delta plans is_delta t \<Longrightarrow> \<exists>g plan p oid. (g, plan) \<in> set plans \<and> is_delta g \<and> t \<in> set (gp_members plan) \<and> parent_info t = Some p \<and>
         stored_as blocks KDiff (er_artifact (gp_encoded plan)) oid \<and> entries t = Some (delta_entry p t oid)"
    and "\<not> stored_as_delta plans is_delta t \<Longrightarrow> t \<in> be_tensor ` set layout \<Longrightarrow> \<exists>entry buf oid. entry \<in> set layout \<and> be_tensor entry = t \<and>
         read_full target entry = Ok buf \<and> stored_as blocks KRaw buf oid \<and> entries t = Some (full_entry oid)"
proof -
  note w = assms [unfolded commit_written_def]
  show "(g, plan) \<in> set plans \<Longrightarrow> \<exists>pg. (g, pg) \<in> set (topo_groups topo) \<and> planned X isa opts cfg base target topo report parent_info g pg plan"
    using w [THEN conjunct1] by blast
  show "g \<in> fst ` set plans \<longleftrightarrow> g \<in> fst ` set (topo_groups topo) \<and> candidate topo report g"
    using w [THEN conjunct2, THEN conjunct1] by blast
  show "closed_deltas plans {g. is_delta g}"
    using w [THEN conjunct2, THEN conjunct2, THEN conjunct2, THEN conjunct1] .
  show "(g, plan) \<in> set plans \<Longrightarrow> is_delta g \<Longrightarrow> gp_decision plan = DDelta"
    using w [THEN conjunct2, THEN conjunct2, THEN conjunct2, THEN conjunct2, THEN conjunct1] by blast
  note last = w [THEN conjunct2, THEN conjunct2, THEN conjunct2, THEN conjunct2, THEN conjunct2, THEN spec [of _ t]]
  show "stored_as_delta plans is_delta t \<Longrightarrow> \<exists>g plan p oid. (g, plan) \<in> set plans \<and> is_delta g \<and> t \<in> set (gp_members plan) \<and> parent_info t = Some p \<and>
         stored_as blocks KDiff (er_artifact (gp_encoded plan)) oid \<and> entries t = Some (delta_entry p t oid)"
    using last by simp
  show "\<not> stored_as_delta plans is_delta t \<Longrightarrow> t \<in> be_tensor ` set layout \<Longrightarrow> \<exists>entry buf oid. entry \<in> set layout \<and> be_tensor entry = t \<and>
         read_full target entry = Ok buf \<and> stored_as blocks KRaw buf oid \<and> entries t = Some (full_entry oid)"
    using last by simp
qed

lemma dependencies_complete:
  assumes "secondary_dependencies topo report members = Ok deps" "name \<in> set members" "map_of (topo_tensors topo) name = Some axes"
    and "ax \<in> set axes" "ax_dim ax \<noteq> 0" "\<not> group_is_effectively_identity topo report (ax_group ax)"
  shows "ax_group ax \<in> set deps"
proof -
  let ?f = "\<lambda>ax deps. if ax_dim ax \<noteq> 0 \<and> \<not> group_is_effectively_identity topo report (ax_group ax) then List.insert (ax_group ax) deps else deps"
  have grow: "set d \<subseteq> set (fold ?f as d)" for as d
  proof (induction as arbitrary: d)
    case (Cons a as)
    have "set d \<subseteq> set (?f a d)"
      by auto
    also have "\<dots> \<subseteq> set (fold ?f as (?f a d))"
      by (rule Cons)
    finally show ?case
      by simp
  qed simp
  have in_axes: "ax_group ax \<in> set (fold ?f as d)" if "ax \<in> set as" for as d
    using that
  proof (induction as arbitrary: d)
    case (Cons a as)
    then show ?case
      using grow [of "?f ax d" as] assms(5,6) by auto
  qed simp
  have step: "\<exists>as. tensor_axes topo m = Ok as \<and> fold_res (add_dependencies topo report) ms (fold ?f as d) = Ok d'"
    if f: "fold_res (add_dependencies topo report) (m # ms) d = Ok d'" for m ms d d'
  proof -
    obtain d1 where "add_dependencies topo report m d = Ok d1" "fold_res (add_dependencies topo report) ms d1 = Ok d'"
      using f by (cases "add_dependencies topo report m d") auto
    then show ?thesis
      by (auto simp: add_dependencies_def [of _ _ m])
  qed
  have grows: "set d \<subseteq> set d'" if "fold_res (add_dependencies topo report) ms d = Ok d'" for ms d d'
    using that
  proof (induction ms arbitrary: d)
    case (Cons m ms)
    then obtain as where "tensor_axes topo m = Ok as" "fold_res (add_dependencies topo report) ms (fold ?f as d) = Ok d'"
      using step by blast
    then show ?case
      using Cons.IH grow [of d as] by blast
  qed simp
  have "ax_group ax \<in> set d'" if "fold_res (add_dependencies topo report) ms d = Ok d'" "name \<in> set ms" for ms d d'
    using that
  proof (induction ms arbitrary: d)
    case (Cons m ms)
    then obtain as where as: "tensor_axes topo m = Ok as" "fold_res (add_dependencies topo report) ms (fold ?f as d) = Ok d'"
      using step by blast
    show ?case
    proof (cases "m = name")
      case True
      then have "as = axes"
        using as(1) assms(3) by (simp add: tensor_axes_def)
      then show ?thesis
        using grows [OF as(2)] in_axes [OF assms(4)] by blast
    next
      case False
      then show ?thesis
        using Cons.IH [OF as(2)] Cons.prems(2) by simp
    qed
  qed simp
  then show ?thesis
    using assms(1,2) by (simp add: secondary_dependencies_def)
qed

lemma owner_exists:
  assumes "set (topo_tensors rtopo) = set (topo_tensors topo)" "tensors_owning_group topo g \<noteq> []" "\<forall>(name, axes) \<in> set (topo_tensors topo). name \<noteq> []"
  obtains owner where "owner_of rtopo g = Some owner" "owner \<in> set (tensors_owning_group topo g)"
proof -
  define Q where "Q = (\<lambda>(name :: string, axes :: AxisBinding list). name \<noteq> [] \<and> list_ex (\<lambda>ax. ax_dim ax = 0 \<and> ax_group ax = g) axes)"
  have "hd (tensors_owning_group topo g) \<in> set (tensors_owning_group topo g)"
    using assms(2) by simp
  then obtain t axes where "(t, axes) \<in> set (topo_tensors topo)" "dim0_binding g axes \<noteq> None"
    unfolding owning_iff by blast
  then have "Q (t, axes)" "(t, axes) \<in> set (topo_tensors rtopo)"
    using assms(1,3) unfolding dim0_binding_iff Q_def by auto
  then obtain x where x: "find Q (topo_tensors rtopo) = Some x"
    using find_None_iff [of Q "topo_tensors rtopo"] by (cases "find Q (topo_tensors rtopo)") auto
  then have "Q x" "x \<in> set (topo_tensors rtopo)"
    by (auto simp: find_Some_iff)
  then have "fst x \<in> set (tensors_owning_group topo g)"
    using assms(1) unfolding owning_iff dim0_binding_iff Q_def by (cases x) auto
  moreover have "owner_of rtopo g = Some (fst x)"
    using x by (simp add: owner_of_def Q_def)
  ultimately show thesis
    using that by blast
qed

lemma planned_encode_facts:
  assumes "plan_ready X opts base target topo report spec" "(g, pg) \<in> set (topo_groups topo)" "candidate topo report g"
    and "planned X isa opts cfg base target topo report parent_info g pg plan"
  obtains gm base' where "report g = Some gm" "match_ok opts base target topo report spec g pg gm" "gp_members plan = tensors_owning_group topo g"
    and "group_ready opts base' target (materialize_permutation gm (pg_size pg)) g (with_secondary topo report spec) (topo_tensors topo)"
    and "encode_group X isa base' target topo g (materialize_permutation gm (pg_size pg)) (gm_alignable gm) (match_info gm) opts = Ok (gp_encoded plan)"
proof -
  obtain gm base' where g: "report g = Some gm" "gp_members plan = tensors_owning_group topo g"
    "fold_res (chain_adapter topo report target) (gp_members plan) base = Ok base'"
    "encode_group X isa base' target topo g (materialize_permutation gm (pg_size pg)) (gm_alignable gm) (match_info gm) opts = Ok (gp_encoded plan)"
    using assms(4) by (auto simp: planned_def)
  have "match_ok opts base target topo report spec g pg gm" "plan_topology_ok topo report"
    using assms(1-3) g(1) by (auto simp: plan_ready_def)
  then show thesis
    using that [OF g(1) _ g(2) encoder_ready g(4)] g(2,3) by simp
qed

subsection \<open>The reader resolves what the planner applied\<close>

lemma planned_parse:
  assumes X: "json_ok X" "blake3_ok X" and ready: "plan_ready X opts base target topo report spec"
    and g: "(g, pg) \<in> set (topo_groups topo)" "candidate topo report g" "planned X isa opts cfg base target topo report parent_info g pg plan"
    and small: "length (er_artifact (gp_encoded plan)) < 2 ^ 63" and gm: "report g = Some gm"
  obtains payload0 ref ext h where "write_permutation [] (materialize_permutation gm (pg_size pg)) = (payload0, ref)" "dh_permutation h = ref"
    "parse_diff_artifact X (er_artifact (gp_encoded plan)) = Ok (as_read h, payload0 @ ext)"
proof -
  obtain gm' base' where f: "report g = Some gm'" "match_ok opts base target topo report spec g pg gm'"
    "group_ready opts base' target (materialize_permutation gm' (pg_size pg)) g (with_secondary topo report spec) (topo_tensors topo)"
    "encode_group X isa base' target topo g (materialize_permutation gm' (pg_size pg)) (gm_alignable gm') (match_info gm') opts = Ok (gp_encoded plan)"
    by (rule planned_encode_facts [OF ready g])
  then have m: "match_ok opts base target topo report spec g pg gm" and same: "gm' = gm"
    using gm by simp_all
  have keys: "distinct (map fst (topo_tensors topo))"
    and total: "\<forall>b. \<exists>z. x_compress X (eo_level opts) (eo_checksum opts) b = Some z"
    using ready by (auto simp: plan_ready_def plan_topology_ok_def)
  have "hd (tensors_owning_group topo g) \<in> set (tensors_owning_group topo g)"
    using g(2) by (simp add: candidate_def)
  then obtain name axes binding where n: "(name, axes) \<in> set (topo_tensors topo)" "dim0_binding g axes = Some binding"
    unfolding owning_iff by blast
  have "is_valid_permutation (materialize_permutation gm (pg_size pg)) (length (materialize_permutation gm (pg_size pg)))"
    "length (materialize_permutation gm (pg_size pg)) \<le> 2 ^ 30" "finite_double (gm_cost_raw gm)" "finite_double (gm_cost_normalized gm)"
    "\<forall>(name, axes) \<in> set (topo_tensors topo). \<forall>binding. dim0_binding g axes = Some binding \<longrightarrow>
      length (materialize_permutation gm (pg_size pg)) * unat (ax_block binding) \<le> 2 ^ 32"
    using m by (auto simp: match_ok_def Let_def)
  then show thesis
    using encode_group_artifact [OF X _ _ f(3) [unfolded same] _ total keys _ _ f(4) [unfolded same] small n] that
    by (auto simp: match_info_def)
qed

lemma same_group:
  assumes "plan_topology_ok topo report" "t \<in> set (tensors_owning_group topo g)" "t \<in> set (tensors_owning_group topo g')"
  shows "g = g'"
proof -
  obtain axes axes' where a: "(t, axes) \<in> set (topo_tensors topo)" "dim0_binding g axes \<noteq> None"
    "(t, axes') \<in> set (topo_tensors topo)" "dim0_binding g' axes' \<noteq> None"
    using assms(2,3) unfolding owning_iff by blast
  have keys: "distinct (map fst (topo_tensors topo))"
    and uniq: "\<And>g g'. dim0_binding g axes \<noteq> None \<Longrightarrow> dim0_binding g' axes \<noteq> None \<Longrightarrow> g = g'"
    using assms(1) a(1) unfolding plan_topology_ok_def by blast+
  have "axes = axes'"
    by (rule eq_key_imp_eq_value [OF keys a(1,3)])
  then show ?thesis
    using uniq a(2,4) by simp
qed

text \<open>The entry of a tensor that owns group \<open>g\<close>: a delta with the plan of \<open>g\<close>, or full.\<close>

lemma owner_entry:
  assumes w: "commit_written X isa opts cfg base target layout topo report parent_info blocks entries plans is_delta"
    and top: "plan_topology_ok topo report" and t: "t \<in> set (tensors_owning_group topo g)"
  shows "(\<exists>plan p oid. (g, plan) \<in> set plans \<and> is_delta g \<and> parent_info t = Some p \<and>
      stored_as blocks KDiff (er_artifact (gp_encoded plan)) oid \<and> entries t = Some (delta_entry p t oid)) \<or>
    \<not> (g \<in> fst ` set plans \<and> is_delta g) \<and> (t \<in> be_tensor ` set layout \<longrightarrow> (\<exists>oid. entries t = Some (full_entry oid)))"
proof -
  have members: "gp_members plan = tensors_owning_group topo g'" if "(g', plan) \<in> set plans" for g' plan
    using commit_writtenD(1) [OF w that] by (auto simp: planned_def)
  show ?thesis
  proof (cases "stored_as_delta plans is_delta t")
    case True
    then obtain g' plan p oid where d: "(g', plan) \<in> set plans" "is_delta g'" "t \<in> set (gp_members plan)" "parent_info t = Some p"
      "stored_as blocks KDiff (er_artifact (gp_encoded plan)) oid" "entries t = Some (delta_entry p t oid)"
      using commit_writtenD(5) [OF w] by blast
    have "g' = g"
      using same_group [OF top _ t] d(3) members [OF d(1)] by simp
    then show ?thesis
      using d by blast
  next
    case False
    have "\<not> (g \<in> fst ` set plans \<and> is_delta g)"
      using False t members by (auto simp: stored_as_delta_def)
    moreover have "t \<in> be_tensor ` set layout \<longrightarrow> (\<exists>oid. entries t = Some (full_entry oid))"
      using commit_writtenD(6) [OF w False] by blast
    ultimately show ?thesis
      by blast
  qed
qed

lemma resolve_planned:
  assumes X: "json_ok X" "blake3_ok X" and ready: "plan_ready X opts base target topo report spec"
    and w: "commit_written X isa opts cfg base target layout topo report parent_info blocks entries plans is_delta"
    and ctx: "reads_commit ctx blocks topo m entries" and cover: "fst ` set (topo_tensors topo) \<subseteq> be_tensor ` set layout"
    and g: "(g, plan) \<in> set plans" "is_delta g" and name: "(name, axes) \<in> set (topo_tensors topo)" "dim0_binding g axes \<noteq> None"
    and t: "td_name tdiff = name" "td_shape tdiff = tm_shape meta" "td_dtype tdiff = tm_dtype meta"
  shows "resolve_secondary_permutation X ctx tdiff = Ok (read_secondary topo report meta axes)"
proof -
  have top: "plan_topology_ok topo report"
    using ready by (simp add: plan_ready_def)
  obtain rtopo where rt: "rc_topology ctx = Some rtopo" "set (topo_tensors rtopo) = set (topo_tensors topo)"
    "distinct (map fst (topo_tensors rtopo))" "topo_find_group rtopo = topo_find_group topo"
    and m: "rc_blocks ctx = Some blocks" "rc_manifest ctx = Some m" "\<And>t e. entries t = Some e \<Longrightarrow> find_group m t = Some e"
    using ctx by (auto simp: reads_commit_def)
  have axes: "map_of (topo_tensors rtopo) name = Some axes"
    using rt(2,3) name(1) by simp
  show ?thesis
  proof (cases "find (\<lambda>ax. ax_dim ax \<noteq> 0) axes")
    case None
    then show ?thesis
      using rt(1) axes t(1) by (simp add: resolve_secondary_permutation_def read_secondary_def)
  next
    case (Some ax)
    let ?G = "ax_group ax"
    show ?thesis
    proof (cases "group_pinned topo ?G")
      case True
      then show ?thesis
        using rt(1,4) axes t(1) Some
        by (auto simp: resolve_secondary_permutation_def read_secondary_def group_pinned_def group_is_effectively_identity_def split: option.splits)
    next
      case False
      have in_groups: "?G \<in> fst ` set (topo_groups topo)" and own: "tensors_owning_group topo ?G \<noteq> []"
        using top name(1) Some False by (fastforce simp: plan_topology_ok_def)+
      have names: "\<forall>(name, axes) \<in> set (topo_tensors topo). name \<noteq> []"
        using top by (auto simp: plan_topology_ok_def)
      obtain owner where owner: "owner_of rtopo ?G = Some owner" "owner \<in> set (tensors_owning_group topo ?G)"
        using owner_exists [OF rt(2) own names] by blast
      have lay: "owner \<in> be_tensor ` set layout"
        using owner(2) cover unfolding owning_iff by force
      have res: "resolve_secondary_permutation X ctx tdiff = SFS_TRY (owner_permutation X ctx owner) (\<lambda>owner_perm.
          if owner_perm = [] then Ok no_secondary
          else Ok \<lparr>sa_perm = expand owner_perm (unat (ax_block ax)),
            sa_unit_bytes = ucast (trailing_elems (tm_shape meta) (ax_dim ax)) * of_nat (dtype_size (tm_dtype meta))\<rparr>)"
        unfolding trailing_elems_def Suc_eq_plus1 [symmetric] using rt(1,4) axes t Some False owner(1)
        by (auto simp: resolve_secondary_permutation_def group_pinned_def Let_def split: option.splits)
      from owner_entry [OF w top owner(2)] lay consider
        (delta) plan' p oid where "(?G, plan') \<in> set plans" "is_delta ?G" "stored_as blocks KDiff (er_artifact (gp_encoded plan')) oid"
          "entries owner = Some (delta_entry p owner oid)"
        | (full) oid where "\<not> (?G \<in> fst ` set plans \<and> is_delta ?G)" "entries owner = Some (full_entry oid)"
        by blast
      then show ?thesis
      proof cases
        case delta
        obtain pg where pg: "(?G, pg) \<in> set (topo_groups topo)" "planned X isa opts cfg base target topo report parent_info ?G pg plan'"
          using commit_writtenD(1) [OF w delta(1)] by blast
        have cand: "candidate topo report ?G"
          using commit_writtenD(2) [OF w, of ?G] delta(1) by force
        obtain gm where gm: "report ?G = Some gm" "gm_alignable gm"
          using cand by (auto simp: candidate_def group_has_no_alignment_evidence_def split: option.splits)
        let ?perm = "materialize_permutation gm (pg_size pg)"
        have mt: "is_valid_permutation ?perm (length ?perm)" "length ?perm \<le> 2 ^ 30" "gm_identity gm \<longleftrightarrow> gm_permutation gm = []"
          using ready pg(1) cand gm(1) by (fastforce simp: plan_ready_def match_ok_def Let_def)+
        have st: "bi_get blocks oid KDiff = Ok (er_artifact (gp_encoded plan'))" "length (er_artifact (gp_encoded plan')) < 2 ^ 63"
          using delta(3) by (simp_all add: stored_as_def)
        obtain payload0 ref ext h where pa: "write_permutation [] ?perm = (payload0, ref)" "dh_permutation h = ref"
          "parse_diff_artifact X (er_artifact (gp_encoded plan')) = Ok (as_read h, payload0 @ ext)"
          by (rule planned_parse [OF X ready pg(1) cand pg(2) st(2) gm(1)])
        have own: "owner_permutation X ctx owner = Ok (if ?perm = [0..<length ?perm] then [] else ?perm)"
          by (rule owner_permutation_written [OF mt(1,2) pa m(2) m(3) [OF delta(4)] m(1) st(1)])
        have eff: "group_is_effectively_identity topo report ?G \<longleftrightarrow> gm_permutation gm = []"
          using False gm mt(3) by (simp add: group_is_effectively_identity_def)
        show ?thesis
        proof (cases "gm_permutation gm = []")
          case True
          then show ?thesis
            using own eff gm(1) Some by (simp add: res materialize_permutation_def read_secondary_def)
        next
          case perm: False
          then show ?thesis
            using own eff gm(1) Some by (auto simp: res materialize_permutation_def read_secondary_def plan_secondary_def)
        qed
      next
        case full
        have "owner_permutation X ctx owner = Ok []"
          using m(2) m(3) [OF full(2)] by (simp add: owner_permutation_def full_entry_def)
        moreover have "group_is_effectively_identity topo report ?G"
        proof (rule ccontr)
          assume ne: "\<not> group_is_effectively_identity topo report ?G"
          then have "candidate topo report ?G"
            using own by (auto simp: candidate_def group_is_effectively_identity_def group_has_no_alignment_evidence_def split: option.splits)
          then have G: "?G \<in> fst ` set plans"
            using commit_writtenD(2) [OF w] in_groups by blast
          have members: "name \<in> set (gp_members plan)" and deps: "secondary_dependencies topo report (gp_members plan) = Ok (gp_secondary_deps plan)"
            using commit_writtenD(1) [OF w g(1)] owning_iff [of name topo g] name unfolding planned_def by auto
          have ax: "ax \<in> set axes" "ax_dim ax \<noteq> 0"
            using Some by (auto simp: find_Some_iff)
          have "map_of (topo_tensors topo) name = Some axes"
            using top name(1) by (simp add: plan_topology_ok_def)
          from dependencies_complete [OF deps members this ax ne] have "?G \<in> {g. is_delta g}"
            using commit_writtenD(3) [OF w] g G unfolding closed_deltas_def by blast
          then show False
            using full(1) G by simp
        qed
        ultimately show ?thesis
          using Some by (simp add: res read_secondary_def split: option.splits)
      qed
    qed
  qed
qed

text \<open>
  The hypothesis on owners is needed: a delta whose columns are bound to an unpinned group that no tensor owns is not
  downgraded by the planner, because the group has no plan, and cannot be read.
\<close>

lemma unowned_columns_unreadable:
  assumes "rc_topology ctx = Some topo" "map_of (topo_tensors topo) (td_name tdiff) = Some axes" "find (\<lambda>ax. ax_dim ax \<noteq> 0) axes = Some ax"
    and "\<not> group_pinned topo (ax_group ax)" "tensors_owning_group topo (ax_group ax) = []"
  shows "resolve_secondary_permutation X ctx tdiff = SFS_ERR Internal (ax_group ax)"
proof -
  have "owner_of topo (ax_group ax) = None"
    using assms(5) unfolding owner_of_def by (auto simp: find_None_iff tensors_owning_group_def filter_empty_conv)
  then show ?thesis
    using assms by (auto simp: resolve_secondary_permutation_def group_pinned_def Let_def split: option.splits)
qed

subsection \<open>Reading the commit\<close>

text \<open>The buffer layout of the target: every tensor is delivered, \<open>shape[0]\<close> units of \<open>u\<close> bytes, and its size is the entry's.\<close>

definition layout_ready :: "TensorSource \<Rightarrow> BufferEntry list \<Rightarrow> tensor_spec \<Rightarrow> bool" where
  "layout_ready target layout spec \<longleftrightarrow>
     (\<forall>entry \<in> set layout. case spec (be_tensor entry) of (meta, u, B, T) \<Rightarrow>
        ts_meta target (be_tensor entry) = Some meta \<and> source_reads target (be_tensor entry) u T \<and>
        unat (if tm_shape meta = [] then 1 else hd (tm_shape meta)) * u = length T \<and> unat (be_nbytes entry) = length T \<and> length T < 2 ^ 62)"

text \<open>The parent commit is in the history and holds the base's tensors, at a depth that leaves fuel for one more level.\<close>

definition parents_hold :: "'j Ext \<Rightarrow> ReadCtx \<Rightarrow> nat \<Rightarrow> tensor_spec \<Rightarrow> (string \<rightharpoonup> ParentTensorInfo) \<Rightarrow> bool" where
  "parents_hold X ctx fuel spec parent_info \<longleftrightarrow>
     (\<forall>t p. parent_info t = Some p \<longrightarrow> pi_chain_depth p + 1 \<noteq> 0 \<and>
        (\<exists>manifest_for bm d. rc_history ctx = Some manifest_for \<and> manifest_for (pi_parent_commit p) = Ok bm \<and> Suc d < fuel \<and>
           (case spec t of (meta, u, B, T) \<Rightarrow> holds_group X (ctx\<lparr>rc_manifest := Some bm\<rparr>) t B d)))"

lemma read_full_exact:
  assumes "layout_ready target layout spec" "entry \<in> set layout" "spec (be_tensor entry) = (meta, u, B, T)"
  shows "read_full target entry = Ok T"
proof -
  have l: "ts_meta target (be_tensor entry) = Some meta" "source_reads target (be_tensor entry) u T"
    "unat (if tm_shape meta = [] then 1 else hd (tm_shape meta)) * u = length T" "unat (be_nbytes entry) = length T" "length T < 2 ^ 62"
    using assms by (fastforce simp: layout_ready_def)+
  define c where "c = (if tm_shape meta = [] then 1 else hd (tm_shape meta))"
  have "ts_read_units target (be_tensor entry) 0 c (replicate (length T) 0) = Ok (T, of_nat (length T))"
    using l(2) [unfolded source_reads_def, rule_format, of 0 c "replicate (length T) 0"] l(3) [folded c_def]
    by (simp add: unit_window_def slice_def del: of_nat_mult)
  then show ?thesis
    using l(1,4,5) by (simp add: read_full_def c_def [symmetric])
qed

lemma commit_holds:
  assumes X: "json_ok X" "blake3_ok X" and ready: "plan_ready X opts base target topo report spec" and lay: "layout_ready target layout spec"
    and w: "commit_written X isa opts cfg base target layout topo report parent_info blocks entries plans is_delta"
    and ctx: "reads_commit ctx blocks topo m entries" and cover: "fst ` set (topo_tensors topo) \<subseteq> be_tensor ` set layout"
    and par: "parents_hold X ctx fuel spec parent_info" "0 < fuel" "cfg_max_chain_depth cfg \<le> rc_max_depth ctx"
    and entry: "entry \<in> set layout" "spec (be_tensor entry) = (meta, u, B, T)"
  shows "\<exists>d < fuel. holds_group X ctx (be_tensor entry) T d"
proof (cases "stored_as_delta plans is_delta (be_tensor entry)")
  case False
  obtain entry' buf oid where e: "entry' \<in> set layout" "be_tensor entry' = be_tensor entry" "read_full target entry' = Ok buf"
    "stored_as blocks KRaw buf oid" "entries (be_tensor entry) = Some (full_entry oid)"
    using commit_writtenD(6) [OF w False] entry(1) by blast
  have "buf = T"
    using read_full_exact [OF lay e(1)] e(2,3) entry(2) by simp
  then have "holds_group X ctx (be_tensor entry) T 0"
    using ctx e(4,5) by (intro holds_group.full [where g = "full_entry oid" and m = m and oid = oid and blocks = blocks])
      (auto simp: reads_commit_def full_entry_def stored_as_def)
  then show ?thesis
    using par(2) by blast
next
  case True
  let ?t = "be_tensor entry"
  obtain g plan p oid where e: "(g, plan) \<in> set plans" "is_delta g" "?t \<in> set (gp_members plan)" "parent_info ?t = Some p"
    "stored_as blocks KDiff (er_artifact (gp_encoded plan)) oid" "entries ?t = Some (delta_entry p ?t oid)"
    using commit_writtenD(5) [OF w True] by blast
  obtain pg where pg: "(g, pg) \<in> set (topo_groups topo)" "planned X isa opts cfg base target topo report parent_info g pg plan"
    using commit_writtenD(1) [OF w e(1)] by blast
  have cand: "candidate topo report g"
    using commit_writtenD(2) [OF w, of g] e(1) by force
  obtain gm base' where f: "report g = Some gm" "match_ok opts base target topo report spec g pg gm" "gp_members plan = tensors_owning_group topo g"
    "group_ready opts base' target (materialize_permutation gm (pg_size pg)) g (with_secondary topo report spec) (topo_tensors topo)"
    "encode_group X isa base' target topo g (materialize_permutation gm (pg_size pg)) (gm_alignable gm) (match_info gm) opts = Ok (gp_encoded plan)"
    by (rule planned_encode_facts [OF ready pg(1) cand pg(2)])
  obtain axes binding where ax: "(?t, axes) \<in> set (topo_tensors topo)" "dim0_binding g axes = Some binding"
    using e(3) unfolding f(3) owning_iff by blast
  have keys: "distinct (map fst (topo_tensors topo))" and total: "\<forall>b. \<exists>z. x_compress X (eo_level opts) (eo_checksum opts) b = Some z"
    using ready by (auto simp: plan_ready_def plan_topology_ok_def)
  let ?perm = "materialize_permutation gm (pg_size pg)"
  have mt: "is_valid_permutation ?perm (length ?perm)" "length ?perm \<le> 2 ^ 30" "finite_double (gm_cost_raw gm)" "finite_double (gm_cost_normalized gm)"
    "\<forall>(name, axes) \<in> set (topo_tensors topo). \<forall>binding. dim0_binding g axes = Some binding \<longrightarrow> length ?perm * unat (ax_block binding) \<le> 2 ^ 32"
    using f(2) by (auto simp: match_ok_def Let_def)
  have st: "bi_get blocks oid KDiff = Ok (er_artifact (gp_encoded plan))" "length (er_artifact (gp_encoded plan)) < 2 ^ 63"
    using e(5) by (simp_all add: stored_as_def)
  have sp: "with_secondary topo report spec ?t = (meta, read_secondary topo report meta axes, u, B, T)"
    using entry(2) ax(1) keys by (simp add: with_secondary_def)
  have res: "\<forall>fs. resolve_secondary_permutation X ctx (tdiff_template opts ?t (tm_shape meta) (tm_dtype meta) fs) =
      Ok (read_secondary topo report meta axes)"
    using resolve_planned [OF X ready w ctx cover e(1,2) ax(1)] ax(2) by (simp add: tdiff_template_def)
  have wrap: "\<forall>t p. parent_info t = Some p \<longrightarrow> pi_chain_depth p + 1 \<noteq> 0"
    using par(1) by (auto simp: parents_hold_def)
  obtain manifest_for bm d where h: "rc_history ctx = Some manifest_for" "manifest_for (pi_parent_commit p) = Ok bm" "Suc d < fuel"
    "holds_group X (ctx\<lparr>rc_manifest := Some bm\<rparr>) ?t B d"
    using par(1) e(4) entry(2) unfolding parents_hold_def by fastforce
  have "pi_chain_depth p + 1 \<le> rc_max_depth ctx"
    using delta_depth(2) [OF pg(2) commit_writtenD(4) [OF w e(1,2)] e(3,4) wrap] par(3) by simp
  then have "names_delta X ctx ?t (er_artifact (gp_encoded plan)) B d"
    unfolding names_delta_def using ctx h st(1) e(6)
    by (intro exI [of _ blocks] exI [of _ m] exI [of _ "delta_entry p ?t oid"] exI [of _ "\<lparr>db_commit = pi_parent_commit p, db_group = ?t\<rparr>"]
        exI [of _ oid] exI [of _ manifest_for] exI [of _ bm]) (auto simp: reads_commit_def delta_entry_def)
  from encode_group_holds [OF X mt(1,2) f(4) mt(5) total keys _ _ f(5) st(2) ax sp res this]
  have "holds_group X ctx ?t T (Suc d)"
    using mt(3,4) by (simp add: match_info_def)
  then show ?thesis
    using h(3) by blast
qed

text \<open>
  C2: What is committed is what is read: when the planner succeeds on a target, with any report of the aligner, any parents and any policy, and a manifest holds its entries,
  then every range of every tensor of the target reads back, deltas and full tensors alike. The reader needs the objects the planner put, the topology (traversed
  in any order) and the parent's tensors. No hypothesis says which columns the reader permutes: it resolves what the planner applied, because a delta
  is only kept if the groups it depends on are deltas too. The topology must give every group on a column axis an owner and every tensor at most one own group.
\<close>

theorem commit_reads_back:
  assumes "zstd_ok X" "json_ok X" "blake3_ok X" "traversal order"
    and "plan_commit_groups X isa opts cfg order put base target layout topo report parent_info s = (s', Ok entries)"
    and "plan_ready X opts base target topo report spec" "layout_ready target layout spec"
    and "fst ` set (topo_tensors topo) \<subseteq> be_tensor ` set layout"
    and "\<forall>k p oid. accepted put (plan_objects X isa opts cfg base target layout topo report parent_info) s k p oid s' \<longrightarrow> stored_as blocks k p oid"
    and "reads_commit ctx blocks topo m entries" "parents_hold X ctx fuel spec parent_info" "0 < fuel" "cfg_max_chain_depth cfg \<le> rc_max_depth ctx"
    and "entry \<in> set layout" "spec (be_tensor entry) = (meta, u, B, T)" "unat off + length out < 2 ^ 64"
  shows "read_range X isa' fuel ctx (be_tensor entry) off out = Ok (window T off out)"
proof -
  have "distinct (map fst (topo_groups topo))"
    using assms(6) by (simp add: plan_ready_def plan_topology_ok_def)
  then obtain plans is_delta where "commit_written X isa opts cfg base target layout topo report parent_info blocks entries plans is_delta"
    using commit_writtenI [OF assms(5,4)] assms(9) by metis
  from commit_holds [OF assms(2,3,6,7) this assms(10,8,11-15)] obtain d where "d < fuel" "holds_group X ctx (be_tensor entry) T d"
    by blast
  then show ?thesis
    using holds_group_reads [OF assms(1), of ctx "be_tensor entry" T d fuel isa'] assms(16) by (simp add: reads_as_def read_range_def)
qed

subsection \<open>The loose store keeps what the planner puts\<close>

text \<open>
  What the planner relies on beyond the contract of a content-addressed store: a put adds nothing but its own object, and reports success only if the object is there.
  Under it, objects whose addresses do not collide and that were not corrupted before the commit are all served afterwards.
\<close>

definition served ::
  "('s \<Rightarrow> Oid \<Rightarrow> ObjectKind \<Rightarrow> bytes res) \<Rightarrow> ('s \<Rightarrow> Oid \<Rightarrow> ObjectKind \<Rightarrow> reader) \<Rightarrow> (ObjectKind \<Rightarrow> bytes \<Rightarrow> Oid) \<Rightarrow> 's \<Rightarrow> ObjectKind \<Rightarrow> bytes \<Rightarrow> bool" where
  "served get read addr s k p \<longleftrightarrow> get s (addr k p) k = Ok p \<and> (\<forall>off out. read s (addr k p) k off out = Ok (window p off out))"

definition honest ::
  "('s \<Rightarrow> Oid \<Rightarrow> ObjectKind \<Rightarrow> bytes res) \<Rightarrow> ('s \<Rightarrow> Oid \<Rightarrow> ObjectKind \<Rightarrow> reader) \<Rightarrow> ('s \<Rightarrow> Oid \<Rightarrow> bool) \<Rightarrow> (ObjectKind \<Rightarrow> bytes \<Rightarrow> Oid) \<Rightarrow>
   (ObjectKind \<times> bytes) set \<Rightarrow> 's \<Rightarrow> bool" where
  "honest get read has addr P s \<longleftrightarrow> (\<forall>(k, p) \<in> P. has s (addr k p) \<longrightarrow> served get read addr s k p)"

locale audited_store = content_store +
  assumes put_only: "can_store p \<Longrightarrow> put s w k p = (s', r) \<Longrightarrow> has s' (addr k' p') \<Longrightarrow> has s (addr k' p') \<or> w \<and> addr k' p' = addr k p"
    and put_ok: "put s w k p = (s', Ok oid) \<Longrightarrow> oid = addr k p \<and> has s' oid"
begin

lemma put_honest:
  assumes "honest get read has addr P s" "(k, p) \<in> P" "can_store p" "inj_on (\<lambda>(k, p). addr k p) P" "put s w k p = (s', r)"
  shows "honest get read has addr P s'"
  unfolding honest_def
proof (clarify)
  fix k' p'
  assume kp: "(k', p') \<in> P" "has s' (addr k' p')"
  show "served get read addr s' k' p'"
  proof (cases "has s (addr k' p')")
    case True
    then have "served get read addr s k' p'"
      using assms(1) kp(1) by (auto simp: honest_def)
    then show ?thesis
      using put_keeps [OF assms(5) True] by (simp add: served_def)
  next
    case False
    then have w: "w" "addr k' p' = addr k p"
      using put_only [OF assms(3,5) kp(2)] by auto
    then have "(k', p') = (k, p)"
      using assms(4) kp(1) assms(2) by (auto simp: inj_on_def)
    then show ?thesis
      using put_miss [OF assms(3), of s k] False w assms(5) by (auto simp: served_def window_def Let_def)
  qed
qed

lemma puts_honest:
  assumes "puts (\<lambda>s k p. put s (wr s k p) k p) P s s'" "honest get read has addr P s" "\<forall>(k, p) \<in> P. can_store p" "inj_on (\<lambda>(k, p). addr k p) P"
  shows "honest get read has addr P s' \<and> (\<forall>oid. has s oid \<longrightarrow> has s' oid)"
  using assms(1,2)
proof (induction rule: puts.induct)
  case (puts_step s s1 k p s2 r)
  then show ?case
    using put_honest [OF _ puts_step.hyps(2) _ assms(4) puts_step.hyps(3)] put_keeps [OF puts_step.hyps(3)] assms(3) by blast
qed simp

lemma accepted_served:
  assumes "accepted (\<lambda>s k p. put s (wr s k p) k p) P s k p oid s'" "honest get read has addr P s" "\<forall>(k, p) \<in> P. can_store p" "inj_on (\<lambda>(k, p). addr k p) P"
  shows "oid = addr k p \<and> served get read addr s' k p"
proof -
  obtain s0 s1 where P: "(k, p) \<in> P" and a: "puts (\<lambda>s k p. put s (wr s k p) k p) P s s0" "put s0 (wr s0 k p) k p = (s1, Ok oid)"
    "puts (\<lambda>s k p. put s (wr s k p) k p) P s1 s'"
    using assms(1) by (auto simp: accepted_def)
  have s0: "honest get read has addr P s0"
    using puts_honest [OF a(1) assms(2-4)] by blast
  have s1: "honest get read has addr P s1"
    using put_honest [OF s0 P _ assms(4) a(2)] assms(3) P by blast
  have "oid = addr k p" "has s' oid"
    using put_ok [OF a(2)] puts_honest [OF a(3) s1 assms(3,4)] by auto
  then show ?thesis
    using puts_honest [OF a(3) s1 assms(3,4)] P unfolding honest_def by blast
qed

end

interpretation audited: audited_store "loose_put X C" "loose_get X" "loose_read_range X" loose_contains
  "compute_oid (x_blake3 X)" "storable X C" for X C
proof
  fix s w k p s' r k' p'
  assume st: "storable X C p" and put: "loose_put X C s w k p = (s', r)" and has: "loose_contains s' (compute_oid (x_blake3 X) k' p')"
  have wf: "wf_oid (compute_oid (x_blake3 X) k p)" "wf_oid (compute_oid (x_blake3 X) k' p')"
    using st by (auto simp: storable_def compute_oid_wf)
  have "s' = s \<or> w \<and> (\<exists>f. s' = s(oid_fanout_path (compute_oid (x_blake3 X) k p) \<mapsto> f))"
    using put by (auto simp: loose_put_def Let_def split: res.splits if_splits)
  then show "loose_contains s (compute_oid (x_blake3 X) k' p') \<or> w \<and> compute_oid (x_blake3 X) k' p' = compute_oid (x_blake3 X) k p"
    using has oid_fanout_inj [OF wf] by (auto simp: loose_contains_def split: if_splits)
next
  fix s w k p s' oid
  assume "loose_put X C s w k p = (s', Ok oid)"
  then show "oid = compute_oid (x_blake3 X) k p \<and> loose_contains s' oid"
    by (auto simp: loose_put_def loose_contains_def Let_def split: res.splits if_splits)
qed

lemma loose_commit_stored:
  assumes "accepted (\<lambda>s k p. loose_put X C s (wr s k p) k p) P fs k p oid fs'"
    and "\<forall>(k, p) \<in> P. storable X C p" "inj_on (\<lambda>(k, p). compute_oid (x_blake3 X) k p) P"
    and "\<forall>(k, p) \<in> P. loose_contains fs (compute_oid (x_blake3 X) k p) \<longrightarrow> served (loose_get X) (loose_read_range X) (compute_oid (x_blake3 X)) fs k p"
  shows "stored_as (loose_blocks X fs') k p oid"
proof -
  have "honest (loose_get X) (loose_read_range X) loose_contains (compute_oid (x_blake3 X)) P fs"
    using assms(4) by (simp add: honest_def)
  from audited.accepted_served [OF assms(1) this assms(2,3)]
  have s: "oid = compute_oid (x_blake3 X) k p" "served (loose_get X) (loose_read_range X) (compute_oid (x_blake3 X)) fs' k p"
    by blast+
  have "(k, p) \<in> P"
    using assms(1) by (simp add: accepted_def)
  then have "storable X C p"
    using assms(2) by blast
  then have "length p + unat C \<le> 2 ^ 63" "C \<noteq> 0"
    by (auto simp: storable_def is_pow2_def)
  then have "length p < 2 ^ 63"
    using unat_gt_0 [of C] by linarith
  then show ?thesis
    using s by (auto simp: stored_as_def served_def loose_blocks_def reads_as_def)
qed

subsection \<open>The example, committed and read\<close>

definition plan_blocks :: BlockIf where
  "plan_blocks = example_blocks\<lparr>bi_read_range := (\<lambda>oid k off out. Ok (window (if oid = replicate 32 11 then example_target else example_base) off out))\<rparr>"

definition plan_ctx :: ReadCtx where
  "plan_ctx = example_ctx\<lparr>rc_blocks := Some plan_blocks, rc_topology := Some encode_topology\<rparr>"

definition plan_spec :: tensor_spec where
  "plan_spec name = (example_meta, 1, example_base, example_target)"

lemma example_dim0: "dim0_binding g [example_binding] = (if g = ''g0'' then Some example_binding else None)"
  by (auto simp: dim0_binding_def example_binding_def)

lemma example_no_columns: "find (\<lambda>ax. ax_dim ax \<noteq> 0) [example_binding] = None"
  by (simp add: example_binding_def)

lemma example_plan_ready:
  "plan_ready example_X example_options (example_source example_base) (example_source example_target) encode_topology plan_report plan_spec"
proof -
  have "plan_topology_ok encode_topology plan_report"
    using example_no_columns unfolding plan_topology_ok_def columns_given_def
    by (simp add: encode_topology_def example_dim0)
  moreover have "match_ok example_options (example_source example_base) (example_source example_target) encode_topology plan_report plan_spec
      ''g0'' \<lparr>pg_size = 4, pinned = False\<rparr> gm" if gm: "plan_report ''g0'' = Some gm" for gm
  proof -
    have "gm = \<lparr>gm_permutation = [], gm_identity = True, gm_alignable = True, gm_cost_raw = 0, gm_cost_normalized = 0\<rparr>"
      using gm by (simp add: plan_report_def)
    then have perm: "materialize_permutation gm 4 = [0, 1, 2, 3]" and f: "gm_cost_raw gm = 0" "gm_cost_normalized gm = 0" "gm_identity gm" "gm_permutation gm = []"
      by (simp_all add: materialize_permutation_def upt_rec)
    have valid: "is_valid_permutation [0, 1, 2, 3] (length [0, 1, 2, 3 :: nat])"
      by (simp add: is_valid_permutation_def eval_nat_numeral)
    have sec: "plan_secondary encode_topology plan_report example_meta [example_binding] = no_secondary"
      using example_no_columns by (simp add: plan_secondary_def)
    show ?thesis
      unfolding match_ok_def Let_def using perm f valid example_ready
      by (simp add: finite_double_def encode_topology_def example_dim0 plan_spec_def sec [unfolded encode_topology_def] example_facts(3))
  qed
  moreover have "\<forall>b. \<exists>z. x_compress example_X (eo_level example_options) (eo_checksum example_options) b = Some z"
    by (simp add: example_X_def)
  ultimately show ?thesis
    unfolding plan_ready_def by (simp add: encode_topology_def)
qed

theorem commit_reads_back_witness: "read_range example_X Avx2 3 plan_ctx ''w'' 2 [0, 0, 0] = Ok ([7, 8, 0], 2)"
proof -
  let ?P = "plan_objects example_X Scalar example_options plan_config (example_source example_base) (example_source example_target) plan_layout
    encode_topology plan_report plan_parents"
  have lay: "layout_ready (example_source example_target) plan_layout plan_spec"
    by (simp add: layout_ready_def plan_layout_def plan_spec_def example_facts source_reads_def example_source_def example_target_def)
  have full: "read_full (example_source example_target) (hd plan_layout) = Ok example_target"
    by (rule read_full_exact [OF lay]) (simp_all add: plan_layout_def plan_spec_def)
  then have objs: "?P = {(KDiff, assemble_artifact [1] [4, 4, 4, 12]), (KRaw, example_target)}"
    unfolding plan_objects_def example_phase_a by (auto simp: diff_objects_def raw_objects_def example_plan_def plan_layout_def)
  have "length (assemble_artifact [1] [4, 4, 4, 12]) < 2 ^ 63"
    by (simp add: assemble_artifact_eq)
  then have stored: "stored_as plan_blocks k p oid" if "accepted plan_put ?P 0 k p oid 1" for k p oid
    using that unfolding objs accepted_def
    by (auto simp: stored_as_def plan_put_def plan_blocks_def example_blocks_def reads_as_def)
  have "holds_group example_X (plan_ctx\<lparr>rc_manifest := Some (chain_manifest example_full)\<rparr>) ''w'' example_base 0"
    by (rule holds_group.full [where g = example_full and oid = "replicate 32 8" and blocks = plan_blocks and m = "chain_manifest example_full"])
      (simp_all add: example_defs plan_ctx_def plan_blocks_def reads_as_def)
  then have par: "parents_hold example_X plan_ctx 3 plan_spec plan_parents"
    by (auto simp: parents_hold_def plan_parents_def plan_ctx_def example_ctx_def plan_spec_def intro!: exI [of _ 0])
  have ctx: "reads_commit plan_ctx plan_blocks encode_topology (chain_manifest example_delta) [''w'' \<mapsto> example_delta]"
    by (simp add: reads_commit_def plan_ctx_def example_ctx_def chain_manifest_def find_group_def encode_topology_def)
  have "read_range example_X Avx2 3 plan_ctx (be_tensor (hd plan_layout)) 2 [0, 0, 0] = Ok (window example_target 2 [0, 0, 0])"
    by (rule commit_reads_back [OF _ _ _ example_traversal example_planned example_plan_ready lay _ _ ctx par])
      (use stored in \<open>simp_all add: example_X_def toy_zstd_ok toy_json_ok toy_blake3_ok plan_layout_def encode_topology_def plan_config_def
        plan_ctx_def example_ctx_def plan_spec_def\<close>)
  then show ?thesis
    by (simp add: plan_layout_def window_def example_target_def slice_def memcpy_at_def)
qed

end
