(* ===== verification/Mount_Cache.thy ===== *)
theory Mount_Cache
  imports Core_Oid "HOL-Library.Multiset"
begin

section \<open>The frame cache of the mount\<close>

text \<open>
  \<open>src/modules/mount/src/blockcache.cpp\<close>: a bounded LRU of decompressed frames with single-flight fill and reader
  leases. The entries live on an explicit heap, \<open>std::unordered_map<FrameKey, unique_ptr<Entry>>\<close> owns them, so that erasing a
  key frees its entry and every later access through a raw pointer is \<open>Abort UB\<close>. The nodes of the LRU list carry
  an identity, which is what an iterator refers to. \<open>get_or_fill\<close> is cut at its lock operations into the blocks that
  run under one mutex; \<open>m_step\<close> interleaves the blocks of any number of requests.
  The main results: if no request waits for a fill that fails, then no interleaving touches a freed entry, every lease
  sees exactly the bytes its fill produced, one fill is in flight per key, every waiter has somebody to wake it, and
  the resident bytes are accounted for; if a request does wait for a fill that fails, the code reads a freed entry.
\<close>

record FrameKey =
  fk_artifact :: Oid
  fk_tensor_index :: u32
  fk_frame_index :: u32

type_synonym addr = nat

record Entry =
  en_key :: FrameKey
  en_data :: bytes
  en_ready :: bool
  en_failed :: bool
  en_fill_error :: error
  en_refcount :: u32
  en_lru_it :: nat

record FrameCache =
  budget_bytes :: u64
  fc_map :: "FrameKey \<rightharpoonup> addr"
  fc_heap :: "addr \<rightharpoonup> Entry"
  fc_lru :: "(nat \<times> FrameKey) list"
  fc_next_node :: nat
  bytes_resident :: u64
  fc_hits :: u64
  fc_misses :: u64
  single_flight_waits :: u64
  fc_evictions :: u64

definition cache_new :: "u64 \<Rightarrow> FrameCache" where
  "cache_new budget = \<lparr>budget_bytes = budget, fc_map = Map.empty, fc_heap = Map.empty, fc_lru = [], fc_next_node = 0,
     bytes_resident = 0, fc_hits = 0, fc_misses = 0, single_flight_waits = 0, fc_evictions = 0\<rparr>"

definition deref :: "FrameCache \<Rightarrow> addr \<Rightarrow> Entry res" where
  "deref c a = (case fc_heap c a of None \<Rightarrow> Abort UB | Some e \<Rightarrow> Ok e)"

definition put_entry :: "addr \<Rightarrow> Entry \<Rightarrow> FrameCache \<Rightarrow> FrameCache" where
  "put_entry a e c = c\<lparr>fc_heap := (fc_heap c)(a \<mapsto> e)\<rparr>"

definition lru_erase :: "nat \<Rightarrow> (nat \<times> FrameKey) list \<Rightarrow> (nat \<times> FrameKey) list res" where
  "lru_erase n lru = (if n \<in> fst ` set lru then Ok (filter (\<lambda>x. fst x \<noteq> n) lru) else Abort UB)"

text \<open>\<open>lru.splice(lru.begin(), lru, e.lru_it)\<close>.\<close>

definition touch :: "addr \<Rightarrow> FrameCache \<Rightarrow> FrameCache res" where
  "touch a c =
     SFS_TRY (deref c a) (\<lambda>e.
     case find (\<lambda>x. fst x = en_lru_it e) (fc_lru c) of
       None \<Rightarrow> Abort UB
     | Some x \<Rightarrow> Ok (c\<lparr>fc_lru := x # filter (\<lambda>y. fst y \<noteq> fst x) (fc_lru c)\<rparr>))"

text \<open>\<open>lru.erase(e->lru_it); map.erase(it)\<close>, which also destroys the entry.\<close>

definition drop_entry :: "FrameKey \<Rightarrow> addr \<Rightarrow> FrameCache \<Rightarrow> FrameCache res" where
  "drop_entry k a c =
     SFS_TRY (deref c a) (\<lambda>e.
     SFS_TRY (lru_erase (en_lru_it e) (fc_lru c)) (\<lambda>lru.
     Ok (c\<lparr>fc_lru := lru, fc_map := (fc_map c)(k := None), fc_heap := (fc_heap c)(a := None)\<rparr>)))"

text \<open>The scan runs from the back of the list; \<open>i\<close> counts the entries it has passed since it last started.\<close>

definition evict_one :: "FrameKey \<Rightarrow> addr \<Rightarrow> nat \<Rightarrow> Entry \<Rightarrow> FrameCache \<Rightarrow> FrameCache" where
  "evict_one k a i e c = c\<lparr>fc_lru := rev (take i (rev (fc_lru c)) @ drop (Suc i) (rev (fc_lru c))),
     fc_map := (fc_map c)(k := None), fc_heap := (fc_heap c)(a := None),
     bytes_resident := bytes_resident c - of_nat (length (en_data e)), fc_evictions := fc_evictions c + 1\<rparr>"

function evict_scan :: "FrameCache \<Rightarrow> nat \<Rightarrow> FrameCache res" where
  "evict_scan c i =
     (if bytes_resident c \<le> budget_bytes c \<or> length (fc_lru c) \<le> i then Ok c
      else let k = snd (rev (fc_lru c) ! i)
      in case fc_map c k of
           None \<Rightarrow> evict_scan c (Suc i)
         | Some a \<Rightarrow>
             (case fc_heap c a of
                None \<Rightarrow> Abort UB
              | Some e \<Rightarrow>
                  if en_refcount e \<noteq> 0 \<or> \<not> en_ready e then evict_scan c (Suc i)
                  else evict_scan (evict_one k a i e c) 0))"
  by pat_completeness auto
termination
  by (relation "measures [\<lambda>(c, i). length (fc_lru c), \<lambda>(c, i). length (fc_lru c) - i]") (auto simp: evict_one_def)

declare evict_scan.simps [simp del]

definition evict_if_needed :: "FrameCache \<Rightarrow> FrameCache res" where
  "evict_if_needed c = evict_scan c 0"

definition release :: "addr \<Rightarrow> FrameCache \<Rightarrow> FrameCache res" where
  "release a c =
     SFS_TRY (deref c a) (\<lambda>e.
     let prev = en_refcount e; c1 = put_entry a (e\<lparr>en_refcount := prev - 1\<rparr>) c
     in if prev = 1 \<and> en_failed e \<and> fc_map c1 (en_key e) = Some a then drop_entry (en_key e) a c1 else Ok c1)"

definition lease_bytes :: "addr \<Rightarrow> FrameCache \<Rightarrow> bytes res" where
  "lease_bytes a c = SFS_TRY (deref c a) (\<lambda>e. Ok (if en_ready e then en_data e else []))"

subsection \<open>The blocks of get\_or\_fill\<close>

datatype lookup_result = LHit addr | LFailed error | LInFlight addr | LMiss addr

definition new_entry :: "FrameKey \<Rightarrow> u64 \<Rightarrow> nat \<Rightarrow> Entry" where
  "new_entry key size_hint node = \<lparr>en_key = key, en_data = replicate (unat size_hint) 0, en_ready = False, en_failed = False,
     en_fill_error = \<lparr>ekind = Ok_kind, econtext = []\<rparr>, en_refcount = 0, en_lru_it = node\<rparr>"

text \<open>Up to the first unlock. \<open>fresh\<close> is the address that the allocator returns for a new entry.\<close>

definition gof_lookup :: "FrameKey \<Rightarrow> u64 \<Rightarrow> addr \<Rightarrow> FrameCache \<Rightarrow> (FrameCache \<times> lookup_result) res" where
  "gof_lookup key size_hint fresh c =
     (case fc_map c key of
        Some a \<Rightarrow>
          SFS_TRY (deref c a) (\<lambda>e.
          if en_ready e then
            SFS_TRY (touch a (put_entry a (e\<lparr>en_refcount := en_refcount e + 1\<rparr>) (c\<lparr>fc_hits := fc_hits c + 1\<rparr>))) (\<lambda>c1.
            Ok (c1, LHit a))
          else if en_failed e then Ok (c, LFailed (en_fill_error e))
          else Ok (put_entry a (e\<lparr>en_refcount := en_refcount e + 1\<rparr>)
                     (c\<lparr>single_flight_waits := single_flight_waits c + 1\<rparr>), LInFlight a))
      | None \<Rightarrow>
          if 2 ^ 63 \<le> unat size_hint then Abort Throw
          else Ok (c\<lparr>fc_misses := fc_misses c + 1,
                     fc_lru := (fc_next_node c, key) # fc_lru c,
                     fc_next_node := Suc (fc_next_node c),
                     fc_map := (fc_map c)(key \<mapsto> fresh),
                     fc_heap := (fc_heap c)(fresh \<mapsto> new_entry key size_hint (fc_next_node c))\<rparr>, LMiss fresh))"

definition gof_awake :: "addr \<Rightarrow> FrameCache \<Rightarrow> bool res" where
  "gof_awake a c = SFS_TRY (deref c a) (\<lambda>e. Ok (en_ready e \<or> en_failed e))"

definition gof_refresh :: "addr \<Rightarrow> FrameCache \<Rightarrow> FrameCache res" where
  "gof_refresh a c = touch a (c\<lparr>fc_hits := fc_hits c + 1\<rparr>)"

definition gof_write :: "addr \<Rightarrow> bytes \<Rightarrow> FrameCache \<Rightarrow> FrameCache res" where
  "gof_write a data c =
     SFS_TRY (deref c a) (\<lambda>e. if length data = length (en_data e) then Ok (put_entry a (e\<lparr>en_data := data\<rparr>) c) else Abort UB)"

definition gof_set_failed :: "addr \<Rightarrow> error \<Rightarrow> FrameCache \<Rightarrow> FrameCache res" where
  "gof_set_failed a err c =
     SFS_TRY (deref c a) (\<lambda>e. Ok (put_entry a (e\<lparr>en_fill_error := err, en_failed := True\<rparr>) c))"

definition gof_notify :: "addr \<Rightarrow> FrameCache \<Rightarrow> unit res" where
  "gof_notify a c = SFS_TRY (deref c a) (\<lambda>_. Ok ())"

definition gof_cleanup :: "FrameKey \<Rightarrow> addr \<Rightarrow> FrameCache \<Rightarrow> FrameCache res" where
  "gof_cleanup key a c =
     (if fc_map c key = Some a
      then SFS_TRY (deref c a) (\<lambda>e. if en_refcount e = 0 then drop_entry key a c else Ok c)
      else Ok c)"

definition gof_publish :: "addr \<Rightarrow> FrameCache \<Rightarrow> FrameCache res" where
  "gof_publish a c =
     SFS_TRY (deref c a) (\<lambda>e.
     evict_if_needed (put_entry a (e\<lparr>en_refcount := en_refcount e + 1, en_ready := True\<rparr>)
       (c\<lparr>bytes_resident := bytes_resident c + of_nat (length (en_data e))\<rparr>)))"

subsection \<open>Interleaved requests\<close>

text \<open>
  Where a request stands: the block of \<open>get_or_fill\<close> it runs next, or the lease it holds. A thread that holds
  several leases is several requests.
\<close>

datatype pc = Idle
  | InWait FrameKey addr | Woken FrameKey addr | Unpin FrameKey addr | ReadError FrameKey addr | Refresh FrameKey addr
  | Filling FrameKey addr | SetFailed FrameKey addr error | NotifyFailed FrameKey addr error | Cleanup FrameKey addr error
  | Publish FrameKey addr | NotifyReady FrameKey addr
  | Leased FrameKey addr | Failed error

datatype action = Call nat FrameKey u64 addr | FillWrite nat bytes | FillDone nat "error option" | Step nat

record machine =
  mc :: FrameCache
  pcs :: "pc list"

definition machine_init :: "u64 \<Rightarrow> nat \<Rightarrow> machine" where
  "machine_init budget n = \<lparr>mc = cache_new budget, pcs = replicate n Idle\<rparr>"

definition goto :: "machine \<Rightarrow> nat \<Rightarrow> FrameCache \<Rightarrow> pc \<Rightarrow> machine res" where
  "goto m t c p = Ok \<lparr>mc = c, pcs = (pcs m)[t := p]\<rparr>"

text \<open>The next block of a request; a request that has to wait or is not running stays where it is.\<close>

fun pc_step :: "machine \<Rightarrow> nat \<Rightarrow> pc \<Rightarrow> machine res" where
  "pc_step m t (InWait k a) = SFS_TRY (gof_awake a (mc m)) (\<lambda>awake. if awake then goto m t (mc m) (Woken k a) else Ok m)"
| "pc_step m t (Woken k a) = SFS_TRY (deref (mc m) a) (\<lambda>e. goto m t (mc m) (if en_failed e then Unpin k a else Refresh k a))"
| "pc_step m t (Unpin k a) = SFS_TRY (release a (mc m)) (\<lambda>c. goto m t c (ReadError k a))"
| "pc_step m t (ReadError k a) = SFS_TRY (deref (mc m) a) (\<lambda>e. goto m t (mc m) (Failed (en_fill_error e)))"
| "pc_step m t (Refresh k a) = SFS_TRY (gof_refresh a (mc m)) (\<lambda>c. goto m t c (Leased k a))"
| "pc_step m t (SetFailed k a err) = SFS_TRY (gof_set_failed a err (mc m)) (\<lambda>c. goto m t c (NotifyFailed k a err))"
| "pc_step m t (NotifyFailed k a err) = SFS_TRY (gof_notify a (mc m)) (\<lambda>_. goto m t (mc m) (Cleanup k a err))"
| "pc_step m t (Cleanup k a err) = SFS_TRY (gof_cleanup k a (mc m)) (\<lambda>c. goto m t c (Failed err))"
| "pc_step m t (Publish k a) = SFS_TRY (gof_publish a (mc m)) (\<lambda>c. goto m t c (NotifyReady k a))"
| "pc_step m t (NotifyReady k a) = SFS_TRY (gof_notify a (mc m)) (\<lambda>_. goto m t (mc m) (Leased k a))"
| "pc_step m t (Leased k a) = SFS_TRY (release a (mc m)) (\<lambda>c. goto m t c Idle)"
| "pc_step m t _ = Ok m"

definition after_lookup :: "FrameKey \<Rightarrow> lookup_result \<Rightarrow> pc" where
  "after_lookup key r = (case r of LHit a \<Rightarrow> Leased key a | LFailed err \<Rightarrow> Failed err | LInFlight a \<Rightarrow> InWait key a | LMiss a \<Rightarrow> Filling key a)"

definition is_idle :: "pc \<Rightarrow> bool" where
  "is_idle p = (case p of Idle \<Rightarrow> True | Failed _ \<Rightarrow> True | _ \<Rightarrow> False)"

definition call_step :: "machine \<Rightarrow> nat \<Rightarrow> FrameKey \<Rightarrow> u64 \<Rightarrow> addr \<Rightarrow> machine res" where
  "call_step m t key size_hint fresh =
     (if is_idle (pcs m ! t) \<and> fc_heap (mc m) fresh = None
      then SFS_TRY (gof_lookup key size_hint fresh (mc m)) (\<lambda>(c, r). goto m t c (after_lookup key r))
      else Ok m)"

fun m_step :: "action \<Rightarrow> machine \<Rightarrow> machine res" where
  "m_step (Call t key size_hint fresh) m =
     (if t < length (pcs m) then call_step m t key size_hint fresh else Ok m)"
| "m_step (FillWrite t data) m =
     (if t < length (pcs m)
      then (case pcs m ! t of
              Filling k a \<Rightarrow> SFS_TRY (gof_write a data (mc m)) (\<lambda>c. goto m t c (Filling k a))
            | _ \<Rightarrow> Ok m)
      else Ok m)"
| "m_step (FillDone t status) m =
     (if t < length (pcs m)
      then (case pcs m ! t of
              Filling k a \<Rightarrow> goto m t (mc m) (case status of None \<Rightarrow> Publish k a | Some err \<Rightarrow> SetFailed k a err)
            | _ \<Rightarrow> Ok m)
      else Ok m)"
| "m_step (Step t) m = (if t < length (pcs m) then pc_step m t (pcs m ! t) else Ok m)"

fun m_run :: "machine \<Rightarrow> action list \<Rightarrow> machine res" where
  "m_run m [] = Ok m"
| "m_run m (act # acts) = SFS_TRY (m_step act m) (\<lambda>m'. m_run m' acts)"


subsection \<open>The structure of the cache\<close>

text \<open>The map, the heap and the list describe the same entries.\<close>

definition wf_cache :: "FrameCache \<Rightarrow> bool" where
  "wf_cache c \<longleftrightarrow>
     (\<forall>k a. fc_map c k = Some a \<longrightarrow> (\<exists>e. fc_heap c a = Some e \<and> en_key e = k)) \<and>
     (\<forall>a e. fc_heap c a = Some e \<longrightarrow> fc_map c (en_key e) = Some a \<and> (en_lru_it e, en_key e) \<in> set (fc_lru c)) \<and>
     (\<forall>n k. (n, k) \<in> set (fc_lru c) \<longrightarrow> n < fc_next_node c \<and> (\<exists>a e. fc_map c k = Some a \<and> fc_heap c a = Some e \<and> en_lru_it e = n)) \<and>
     distinct (map fst (fc_lru c))"

text \<open>The bytes that a list node accounts for.\<close>

definition resident :: "FrameCache \<Rightarrow> nat \<times> FrameKey \<Rightarrow> u64" where
  "resident c = (\<lambda>(n, k). case fc_map c k of None \<Rightarrow> 0 | Some a \<Rightarrow>
     (case fc_heap c a of None \<Rightarrow> 0 | Some e \<Rightarrow> if en_ready e then of_nat (length (en_data e)) else 0))"

lemma resident_cong: "fc_map c' = fc_map c \<Longrightarrow> fc_heap c' = fc_heap c \<Longrightarrow> resident c' = resident c"
  by (intro ext) (auto simp: resident_def split: option.splits)

definition accounted :: "FrameCache \<Rightarrow> bool" where
  "accounted c \<longleftrightarrow> bytes_resident c = sum_list (map (resident c) (fc_lru c))"

lemma wf_cacheD:
  assumes "wf_cache c"
  shows "fc_map c k = Some a \<Longrightarrow> \<exists>e. fc_heap c a = Some e \<and> en_key e = k"
    "fc_heap c a = Some e \<Longrightarrow> fc_map c (en_key e) = Some a"
    "fc_heap c a = Some e \<Longrightarrow> (en_lru_it e, en_key e) \<in> set (fc_lru c)"
    "(n, k) \<in> set (fc_lru c) \<Longrightarrow> n < fc_next_node c"
    "(n, k) \<in> set (fc_lru c) \<Longrightarrow> \<exists>a e. fc_map c k = Some a \<and> fc_heap c a = Some e \<and> en_lru_it e = n"
    "distinct (map fst (fc_lru c))"
  using assms by (auto simp: wf_cache_def)

lemma wf_cache_new: "wf_cache (cache_new budget)" "accounted (cache_new budget)"
  by (simp_all add: wf_cache_def cache_new_def accounted_def)

text \<open>Counters do not matter, neither does an update of an entry that keeps its key and its place.\<close>

lemma wf_cache_counters [simp]:
  "wf_cache (c\<lparr>fc_hits := x\<rparr>) = wf_cache c" "wf_cache (c\<lparr>single_flight_waits := x\<rparr>) = wf_cache c"
  "wf_cache (c\<lparr>bytes_resident := x\<rparr>) = wf_cache c" "wf_cache (c\<lparr>fc_evictions := x\<rparr>) = wf_cache c"
  by (simp_all add: wf_cache_def)

lemma put_entry_simps [simp]:
  "fc_heap (put_entry a e c) = (fc_heap c)(a \<mapsto> e)" "fc_map (put_entry a e c) = fc_map c" "fc_lru (put_entry a e c) = fc_lru c"
  "fc_next_node (put_entry a e c) = fc_next_node c" "bytes_resident (put_entry a e c) = bytes_resident c"
  "budget_bytes (put_entry a e c) = budget_bytes c"
  by (simp_all add: put_entry_def)

lemma wf_put_entry:
  assumes "wf_cache c" "fc_heap c a = Some e" "en_key e' = en_key e" "en_lru_it e' = en_lru_it e"
  shows "wf_cache (put_entry a e' c)"
proof -
  have "(\<exists>e. ((fc_heap c)(a \<mapsto> e')) b = Some e \<and> en_key e = k)" if "fc_map c k = Some b" for k b
    using wf_cacheD(1) [OF assms(1) that] assms by auto
  moreover have "\<exists>b f. fc_map c k = Some b \<and> ((fc_heap c)(a \<mapsto> e')) b = Some f \<and> en_lru_it f = n" if "(n, k) \<in> set (fc_lru c)" for n k
    using wf_cacheD(5) [OF assms(1) that] assms by fastforce
  ultimately show ?thesis
    using wf_cacheD(2,3,4,6) [OF assms(1)] assms(2-4) by (simp add: wf_cache_def)
qed

lemma lru_node_unique: "wf_cache c \<Longrightarrow> (n, k) \<in> set (fc_lru c) \<Longrightarrow> (n', k) \<in> set (fc_lru c) \<Longrightarrow> n' = n"
  using wf_cacheD(5) [of c n k] wf_cacheD(5) [of c n' k] by auto

lemma find_fst: "distinct (map fst xs) \<Longrightarrow> (n, k) \<in> set xs \<Longrightarrow> find (\<lambda>x. fst x = n) xs = Some (n, k)"
  by (induction xs) (auto simp: rev_image_eqI)

lemma filter_fst: "distinct (map fst xs) \<Longrightarrow> (n, k) \<in> set xs \<Longrightarrow> filter (\<lambda>x. fst x = n) xs = [(n, k)]"
  by (induction xs) (auto simp: filter_empty_conv rev_image_eqI)

text \<open>Moving a node to the front permutes the list.\<close>

lemma touch_eq:
  assumes "wf_cache c" "fc_heap c a = Some e"
  shows "touch a c = Ok (c\<lparr>fc_lru := (en_lru_it e, en_key e) # filter (\<lambda>y. fst y \<noteq> en_lru_it e) (fc_lru c)\<rparr>)"
  using assms find_fst [OF wf_cacheD(6) [OF assms(1)] wf_cacheD(3) [OF assms]] by (simp add: touch_def deref_def)

lemma mset_touch:
  assumes "wf_cache c" "fc_heap c a = Some e"
  shows "mset ((en_lru_it e, en_key e) # filter (\<lambda>y. fst y \<noteq> en_lru_it e) (fc_lru c)) = mset (fc_lru c)"
  using multiset_partition [of "mset (fc_lru c)" "\<lambda>y. fst y = en_lru_it e", unfolded mset_filter [symmetric]]
    filter_fst [OF wf_cacheD(6) [OF assms(1)] wf_cacheD(3) [OF assms]] by simp

lemma wf_lru_perm:
  assumes "wf_cache c" "mset lru = mset (fc_lru c)"
  shows "wf_cache (c\<lparr>fc_lru := lru\<rparr>)"
proof -
  have "set lru = set (fc_lru c)"
    using assms(2) by (rule mset_eq_setD)
  moreover have "mset (map fst lru) = mset (map fst (fc_lru c))"
    using assms(2) by (simp only: mset_map)
  then have "distinct (map fst lru)"
    using wf_cacheD(6) [OF assms(1)] by (metis mset_eq_imp_distinct_iff)
  ultimately show ?thesis
    using assms(1) by (simp add: wf_cache_def)
qed

lemma accounted_lru_perm:
  assumes "accounted c" "mset lru = mset (fc_lru c)"
  shows "accounted (c\<lparr>fc_lru := lru\<rparr>)"
proof -
  have "resident (c\<lparr>fc_lru := lru\<rparr>) = resident c"
    by (intro resident_cong) simp_all
  moreover have "sum_list (map (resident c) lru) = sum_list (map (resident c) (fc_lru c))"
    using assms(2) by (metis mset_map sum_mset_sum_list)
  ultimately show ?thesis
    using assms(1) by (simp add: accounted_def)
qed

text \<open>Removing an entry removes its node.\<close>

definition without :: "FrameCache \<Rightarrow> addr \<Rightarrow> Entry \<Rightarrow> FrameCache" where
  "without c a e = c\<lparr>fc_lru := filter (\<lambda>x. fst x \<noteq> en_lru_it e) (fc_lru c), fc_map := (fc_map c)(en_key e := None),
     fc_heap := (fc_heap c)(a := None)\<rparr>"

lemma without_simps [simp]:
  "fc_heap (without c a e) = (fc_heap c)(a := None)" "fc_map (without c a e) = (fc_map c)(en_key e := None)"
  "bytes_resident (without c a e) = bytes_resident c" "budget_bytes (without c a e) = budget_bytes c"
  "fc_lru (without c a e) = filter (\<lambda>x. fst x \<noteq> en_lru_it e) (fc_lru c)" "fc_next_node (without c a e) = fc_next_node c"
  by (simp_all add: without_def)

lemma drop_entry_eq:
  assumes "wf_cache c" "fc_heap c a = Some e"
  shows "drop_entry (en_key e) a c = Ok (without c a e)"
  using wf_cacheD(3) [OF assms] assms(2) by (force simp: drop_entry_def deref_def lru_erase_def without_def)

lemma wf_without:
  assumes "wf_cache c" "fc_heap c a = Some e"
  shows "wf_cache (without c a e)"
proof -
  have key: "en_key f = en_key e \<longleftrightarrow> b = a" if "fc_heap c b = Some f" for b f
    using that assms wf_cacheD(2) [OF assms(1)] by (metis option.inject)
  have "\<exists>f. fc_heap (without c a e) b = Some f \<and> en_key f = k" if "fc_map (without c a e) k = Some b" for k b
    using that wf_cacheD(1) [OF assms(1), of k b] assms by (auto split: if_splits)
  moreover have "fc_map (without c a e) (en_key f) = Some b \<and> (en_lru_it f, en_key f) \<in> set (fc_lru (without c a e))"
    if "fc_heap (without c a e) b = Some f" for b f
  proof -
    have f: "fc_heap c b = Some f" "b \<noteq> a"
      using that by (auto split: if_splits)
    then have "en_lru_it f \<noteq> en_lru_it e"
      using key [OF f(1)] wf_cacheD(3) [OF assms(1) f(1)] wf_cacheD(3) [OF assms] wf_cacheD(6) [OF assms(1)]
      by (metis eq_key_imp_eq_value)
    then show ?thesis
      using f key [OF f(1)] wf_cacheD(2,3) [OF assms(1) f(1)] by simp
  qed
  moreover have "n < fc_next_node (without c a e) \<and>
      (\<exists>b f. fc_map (without c a e) k = Some b \<and> fc_heap (without c a e) b = Some f \<and> en_lru_it f = n)"
    if "(n, k) \<in> set (fc_lru (without c a e))" for n k
  proof -
    have nk: "(n, k) \<in> set (fc_lru c)" "n \<noteq> en_lru_it e"
      using that by auto
    obtain b f where b: "fc_map c k = Some b" "fc_heap c b = Some f" "en_lru_it f = n"
      using wf_cacheD(5) [OF assms(1) nk(1)] by blast
    then have "b \<noteq> a" "k \<noteq> en_key e"
      using nk(2) assms wf_cacheD(2) [OF assms] by auto
    then show ?thesis
      using b wf_cacheD(4) [OF assms(1) nk(1)] by simp
  qed
  moreover have "distinct (map fst (fc_lru (without c a e)))"
    using wf_cacheD(6) [OF assms(1)] by (simp add: distinct_map_filter)
  ultimately show ?thesis
    unfolding wf_cache_def by blast
qed

lemma sum_without:
  assumes "wf_cache c" "fc_heap c a = Some e"
  shows "sum_list (map (resident (without c a e)) (fc_lru (without c a e))) + (if en_ready e then of_nat (length (en_data e)) else 0) =
    sum_list (map (resident c) (fc_lru c))"
proof -
  have "resident (without c a e) x = resident c x" if "x \<in> set (fc_lru (without c a e))" for x
  proof -
    obtain n k where x: "x = (n, k)"
      by fastforce
    with that have nk: "(n, k) \<in> set (fc_lru c)" "n \<noteq> en_lru_it e"
      by auto
    obtain b f where b: "fc_map c k = Some b" "fc_heap c b = Some f" "en_lru_it f = n"
      using wf_cacheD(5) [OF assms(1) nk(1)] by blast
    then have "b \<noteq> a" "k \<noteq> en_key e"
      using nk(2) assms wf_cacheD(2) [OF assms] by auto
    then show ?thesis
      using x b by (simp add: resident_def)
  qed
  then have same: "map (resident (without c a e)) (fc_lru (without c a e)) = map (resident c) (filter (\<lambda>x. fst x \<noteq> en_lru_it e) (fc_lru c))"
    by simp
  have "mset (fc_lru c) = add_mset (en_lru_it e, en_key e) (mset (filter (\<lambda>x. fst x \<noteq> en_lru_it e) (fc_lru c)))"
    using mset_touch [OF assms] by simp
  then have "sum_list (map (resident c) (fc_lru c)) =
      resident c (en_lru_it e, en_key e) + sum_list (map (resident c) (filter (\<lambda>x. fst x \<noteq> en_lru_it e) (fc_lru c)))"
    by (metis (no_types, lifting) mset_map sum_mset.add_mset sum_mset_sum_list image_mset_add_mset)
  moreover have "resident c (en_lru_it e, en_key e) = (if en_ready e then of_nat (length (en_data e)) else 0)"
    using wf_cacheD(2) [OF assms] assms(2) by (simp add: resident_def)
  ultimately show ?thesis
    unfolding same by simp
qed

subsection \<open>Eviction\<close>

text \<open>
  A reference for the scan that starts over after every removal: one pass from the least recently used entry, which
  removes what is ready and not leased until the budget is met.
\<close>

definition evictable :: "FrameCache \<Rightarrow> FrameKey \<Rightarrow> (addr \<times> Entry) option" where
  "evictable c k = (case fc_map c k of None \<Rightarrow> None | Some a \<Rightarrow>
     (case fc_heap c a of None \<Rightarrow> None | Some e \<Rightarrow> if en_refcount e = 0 \<and> en_ready e then Some (a, e) else None))"

definition evict_entry :: "FrameCache \<Rightarrow> addr \<Rightarrow> Entry \<Rightarrow> FrameCache" where
  "evict_entry c a e = (without c a e)\<lparr>bytes_resident := bytes_resident c - of_nat (length (en_data e)), fc_evictions := fc_evictions c + 1\<rparr>"

fun evict_pass :: "FrameCache \<Rightarrow> (nat \<times> FrameKey) list \<Rightarrow> FrameCache" where
  "evict_pass c [] = c"
| "evict_pass c (x # xs) =
     (if bytes_resident c \<le> budget_bytes c then c
      else case evictable c (snd x) of None \<Rightarrow> evict_pass c xs | Some (a, e) \<Rightarrow> evict_pass (evict_entry c a e) xs)"

lemma evict_entry_simps [simp]:
  "fc_heap (evict_entry c a e) = (fc_heap c)(a := None)" "fc_map (evict_entry c a e) = (fc_map c)(en_key e := None)"
  "bytes_resident (evict_entry c a e) = bytes_resident c - of_nat (length (en_data e))" "budget_bytes (evict_entry c a e) = budget_bytes c"
  "fc_lru (evict_entry c a e) = filter (\<lambda>x. fst x \<noteq> en_lru_it e) (fc_lru c)"
  by (simp_all add: evict_entry_def)

lemma evictableD:
  assumes "evictable c k = Some (a, e)"
  shows "fc_map c k = Some a" "fc_heap c a = Some e" "en_refcount e = 0" "en_ready e"
  using assms by (auto simp: evictable_def split: option.splits if_splits)

lemma wf_evict_entry:
  assumes "wf_cache c" "fc_heap c a = Some e"
  shows "wf_cache (evict_entry c a e)"
proof -
  have "wf_cache (evict_entry c a e) = wf_cache (without c a e)"
    by (simp add: evict_entry_def)
  then show ?thesis
    using wf_without [OF assms] by simp
qed

lemma evictable_evict_entry: "evictable c k = None \<Longrightarrow> evictable (evict_entry c a e) k = None"
  by (auto simp: evictable_def split: option.splits if_splits)

lemma accounted_evict_entry:
  assumes "wf_cache c" "accounted c" "fc_heap c a = Some e" "en_ready e"
  shows "accounted (evict_entry c a e)"
proof -
  have "resident (evict_entry c a e) = resident (without c a e)"
    by (intro resident_cong) simp_all
  then show ?thesis
    using sum_without [OF assms(1,3)] assms(2,4) by (simp add: accounted_def algebra_simps)
qed

lemma evict_pass_skip:
  "\<forall>x \<in> set xs. evictable c (snd x) = None \<Longrightarrow> evict_pass c (xs @ ys) = evict_pass c ys"
  by (induction xs) (auto, cases ys, auto)

lemma remove_nth:
  assumes "distinct (map fst xs)" "i < length xs"
  shows "take i xs @ drop (Suc i) xs = filter (\<lambda>x. fst x \<noteq> fst (xs ! i)) xs"
proof -
  have xs: "xs = take i xs @ xs ! i # drop (Suc i) xs"
    using assms(2) by (rule id_take_nth_drop)
  then have "distinct (map fst (take i xs @ xs ! i # drop (Suc i) xs))"
    using assms(1) by simp
  then have "filter (\<lambda>x. fst x \<noteq> fst (xs ! i)) (take i xs) = take i xs"
    "filter (\<lambda>x. fst x \<noteq> fst (xs ! i)) (drop (Suc i) xs) = drop (Suc i) xs"
    by (auto simp: filter_id_conv rev_image_eqI)
  then show ?thesis
    by (subst (3) xs) simp
qed

lemma evict_one_eq:
  assumes "wf_cache c" "i < length (fc_lru c)" "fc_map c (snd (rev (fc_lru c) ! i)) = Some a" "fc_heap c a = Some e"
  shows "evict_one (snd (rev (fc_lru c) ! i)) a i e c = evict_entry c a e"
    "rev (fc_lru (evict_entry c a e)) = take i (rev (fc_lru c)) @ drop (Suc i) (rev (fc_lru c))"
proof -
  obtain n k where x: "rev (fc_lru c) ! i = (n, k)"
    by fastforce
  then have "(n, k) \<in> set (fc_lru c)"
    using assms(2) by (metis length_rev nth_mem set_rev)
  from wf_cacheD(5) [OF assms(1) this] have n: "n = en_lru_it e"
    using assms(3,4) x by auto
  have k: "k = en_key e"
    using wf_cacheD(1) [OF assms(1,3)] assms(4) x by auto
  have "distinct (map fst (rev (fc_lru c)))"
    using wf_cacheD(6) [OF assms(1)] by (simp flip: rev_map)
  from remove_nth [OF this, of i]
  have rm: "take i (rev (fc_lru c)) @ drop (Suc i) (rev (fc_lru c)) = rev (filter (\<lambda>x. fst x \<noteq> en_lru_it e) (fc_lru c))"
    using assms(2) x n by (simp add: rev_filter)
  then show "rev (fc_lru (evict_entry c a e)) = take i (rev (fc_lru c)) @ drop (Suc i) (rev (fc_lru c))"
    by simp
  show "evict_one (snd (rev (fc_lru c) ! i)) a i e c = evict_entry c a e"
    unfolding evict_one_def rm evict_entry_def without_def x k by simp
qed

lemma evict_scan_pass:
  assumes "wf_cache c" "\<forall>x \<in> set (take i (rev (fc_lru c))). evictable c (snd x) = None"
  shows "evict_scan c i = Ok (evict_pass c (drop i (rev (fc_lru c))))"
  using assms
proof (induction c i rule: evict_scan.induct)
  case (1 c i)
  show ?case
  proof (cases "bytes_resident c \<le> budget_bytes c \<or> length (fc_lru c) \<le> i")
    case True
    then show ?thesis
      by (cases "drop i (rev (fc_lru c))") (auto simp: evict_scan.simps [of c i])
  next
    case False
    then have i: "i < length (rev (fc_lru c))"
      by simp
    define k where "k = snd (rev (fc_lru c) ! i)"
    have d: "drop i (rev (fc_lru c)) = rev (fc_lru c) ! i # drop (Suc i) (rev (fc_lru c))"
      using i by (rule Cons_nth_drop_Suc [symmetric])
    have "(fst (rev (fc_lru c) ! i), k) \<in> set (fc_lru c)"
      using i unfolding k_def by (metis nth_mem prod.collapse set_rev)
    from wf_cacheD(5) [OF "1.prems"(1) this] obtain a e where a: "fc_map c k = Some a" "fc_heap c a = Some e"
      by blast
    have step: "evict_scan c i = (if en_refcount e \<noteq> 0 \<or> \<not> en_ready e then evict_scan c (Suc i) else evict_scan (evict_one k a i e c) 0)"
      using False a by (simp add: evict_scan.simps [of c i] flip: k_def)
    have ev: "evictable c k = (if en_refcount e = 0 \<and> en_ready e then Some (a, e) else None)"
      using a by (simp add: evictable_def)
    show ?thesis
    proof (cases "en_refcount e = 0 \<and> en_ready e")
      case True
      note one = evict_one_eq [OF "1.prems"(1) i [unfolded length_rev], folded k_def, OF a]
      have "evictable (evict_entry c a e) (snd x) = None" if "x \<in> set (take i (rev (fc_lru c)))" for x
        using "1.prems"(2) that by (auto simp: evictable_def split: option.splits if_splits)
      moreover have "evict_scan (evict_one k a i e c) 0 = Ok (evict_pass (evict_entry c a e) (rev (fc_lru (evict_entry c a e))))"
        using "1.IH"(3) [OF False k_def a(1) a(2)] True one wf_evict_entry [OF "1.prems"(1) a(2)] by simp
      ultimately show ?thesis
        using False step True one(2) d ev by (simp add: evict_pass_skip flip: k_def)
    next
      case no: False
      have "evict_scan c (Suc i) = Ok (evict_pass c (drop (Suc i) (rev (fc_lru c))))"
        using "1.IH"(2) [OF False k_def a(1) a(2)] no "1.prems" ev i by (auto simp: take_Suc_conv_app_nth k_def)
      then show ?thesis
        using False step no d ev by (auto simp flip: k_def)
    qed
  qed
qed

text \<open>What a pass leaves: the entries that are leased or still filling are untouched.\<close>

definition shrinks :: "FrameCache \<Rightarrow> FrameCache \<Rightarrow> bool" where
  "shrinks c c' \<longleftrightarrow> budget_bytes c' = budget_bytes c \<and>
     (\<forall>a. fc_heap c' a = fc_heap c a \<or> fc_heap c' a = None \<and> (\<exists>e. fc_heap c a = Some e \<and> en_refcount e = 0 \<and> en_ready e))"

lemma shrinksD:
  "shrinks c c' \<Longrightarrow>
   fc_heap c' a = fc_heap c a \<or> fc_heap c' a = None \<and> (\<exists>e. fc_heap c a = Some e \<and> en_refcount e = 0 \<and> en_ready e)"
  by (simp add: shrinks_def)

lemma evict_pass_ok:
  assumes "wf_cache c" "accounted c"
  shows "wf_cache (evict_pass c xs) \<and> accounted (evict_pass c xs) \<and> shrinks c (evict_pass c xs)"
  using assms
proof (induction c xs rule: evict_pass.induct)
  case (2 c x xs)
  show ?case
  proof (cases "bytes_resident c \<le> budget_bytes c \<or> evictable c (snd x) = None")
    case True
    then show ?thesis
      using 2 by (auto simp: shrinks_def)
  next
    case False
    then obtain a e where ev: "evictable c (snd x) = Some (a, e)"
      by fastforce
    note D = evictableD [OF ev]
    have "shrinks (evict_entry c a e) (evict_pass (evict_entry c a e) xs)"
      "wf_cache (evict_pass (evict_entry c a e) xs)" "accounted (evict_pass (evict_entry c a e) xs)"
      using "2.IH"(2) [OF _ ev] False wf_evict_entry [OF "2.prems"(1) D(2)] accounted_evict_entry [OF "2.prems" D(2,4)] by auto
    moreover from this(1) have "shrinks c (evict_pass (evict_entry c a e) xs)"
      using D unfolding shrinks_def by (auto split: if_splits)
    ultimately show ?thesis
      using False ev by simp
  qed
qed (simp add: shrinks_def)

lemma evictable_evict_pass: "evictable c k = None \<Longrightarrow> evictable (evict_pass c xs) k = None"
  by (induction c xs rule: evict_pass.induct) (auto simp: evictable_evict_entry split: option.splits)

lemma evict_pass_stops:
  "bytes_resident (evict_pass c xs) \<le> budget_bytes (evict_pass c xs) \<or> (\<forall>x \<in> set xs. evictable (evict_pass c xs) (snd x) = None)"
proof (induction c xs rule: evict_pass.induct)
  case (2 c x xs)
  show ?case
  proof (cases "bytes_resident c \<le> budget_bytes c")
    case False
    show ?thesis
    proof (cases "evictable c (snd x)")
      case None
      then show ?thesis
        using 2 False by (auto simp: evictable_evict_pass)
    next
      case (Some p)
      then obtain a e where p: "evictable c (snd x) = Some (a, e)"
        by (cases p) auto
      have "evictable (evict_entry c a e) (snd x) = None"
        using evictableD [OF p] by (auto simp: evictable_def split: option.splits)
      then show ?thesis
        using 2(2) [OF False p] False p by (auto simp: evictable_evict_pass)
    qed
  qed simp
qed simp

lemma evict_if_needed_pass: "wf_cache c \<Longrightarrow> evict_if_needed c = Ok (evict_pass c (rev (fc_lru c)))"
  unfolding evict_if_needed_def using evict_scan_pass [of c 0] by simp

subsection \<open>The invariant of the machine\<close>

text \<open>The entry that a request has pinned, and the entry that it is filling.\<close>

fun pin :: "pc \<Rightarrow> addr option" where
  "pin (InWait k a) = Some a" | "pin (Woken k a) = Some a" | "pin (Unpin k a) = Some a" | "pin (Refresh k a) = Some a"
| "pin (NotifyReady k a) = Some a" | "pin (Leased k a) = Some a" | "pin _ = None"

fun filler :: "pc \<Rightarrow> addr option" where
  "filler (Filling k a) = Some a" | "filler (SetFailed k a err) = Some a" | "filler (NotifyFailed k a err) = Some a"
| "filler (Cleanup k a err) = Some a" | "filler (Publish k a) = Some a" | "filler _ = None"

definition pins :: "machine \<Rightarrow> addr \<Rightarrow> nat" where
  "pins m a = length (filter (\<lambda>p. pin p = Some a) (pcs m))"

fun pin_ok :: "pc \<Rightarrow> Entry \<Rightarrow> bool" where
  "pin_ok (InWait k a) e \<longleftrightarrow> en_key e = k \<and> \<not> en_failed e"
| "pin_ok (Woken k a) e \<longleftrightarrow> en_key e = k \<and> \<not> en_failed e \<and> en_ready e"
| "pin_ok (Refresh k a) e \<longleftrightarrow> en_key e = k \<and> \<not> en_failed e \<and> en_ready e"
| "pin_ok (NotifyReady k a) e \<longleftrightarrow> en_key e = k \<and> \<not> en_failed e \<and> en_ready e"
| "pin_ok (Leased k a) e \<longleftrightarrow> en_key e = k \<and> \<not> en_failed e \<and> en_ready e"
| "pin_ok p e \<longleftrightarrow> False"

fun filler_ok :: "(FrameKey \<Rightarrow> bytes) \<Rightarrow> pc \<Rightarrow> Entry \<Rightarrow> bool" where
  "filler_ok content (NotifyFailed k a err) e \<longleftrightarrow> \<not> en_ready e \<and> en_failed e \<and> en_key e = k \<and> en_refcount e = 0"
| "filler_ok content (Cleanup k a err) e \<longleftrightarrow> \<not> en_ready e \<and> en_failed e \<and> en_key e = k \<and> en_refcount e = 0"
| "filler_ok content (Publish k a) e \<longleftrightarrow> \<not> en_ready e \<and> \<not> en_failed e \<and> en_key e = k \<and> en_data e = content k"
| "filler_ok content (Filling k a) e \<longleftrightarrow> \<not> en_ready e \<and> \<not> en_failed e \<and> en_key e = k"
| "filler_ok content (SetFailed k a err) e \<longleftrightarrow> \<not> en_ready e \<and> \<not> en_failed e \<and> en_key e = k"
| "filler_ok content p e \<longleftrightarrow> False"

definition pc_ok :: "(FrameKey \<Rightarrow> bytes) \<Rightarrow> FrameCache \<Rightarrow> pc \<Rightarrow> bool" where
  "pc_ok content c p \<longleftrightarrow>
     (\<forall>a. pin p = Some a \<longrightarrow> (\<exists>e. fc_heap c a = Some e \<and> pin_ok p e)) \<and>
     (\<forall>a. filler p = Some a \<longrightarrow> (\<exists>e. fc_heap c a = Some e \<and> filler_ok content p e)) \<and>
     (\<forall>k a. p \<noteq> ReadError k a)"

definition entry_ok :: "(FrameKey \<Rightarrow> bytes) \<Rightarrow> Entry \<Rightarrow> bool" where
  "entry_ok content e \<longleftrightarrow> (en_ready e \<longrightarrow> \<not> en_failed e \<and> en_data e = content (en_key e))"

definition minv :: "(FrameKey \<Rightarrow> bytes) \<Rightarrow> machine \<Rightarrow> bool" where
  "minv content m \<longleftrightarrow> wf_cache (mc m) \<and> accounted (mc m) \<and> length (pcs m) < 2 ^ 32 \<and>
     (\<forall>a e. fc_heap (mc m) a = Some e \<longrightarrow> entry_ok content e \<and> unat (en_refcount e) = pins m a \<and>
        (\<not> en_ready e \<longrightarrow> (\<exists>t < length (pcs m). filler (pcs m ! t) = Some a))) \<and>
     (\<forall>t < length (pcs m). pc_ok content (mc m) (pcs m ! t)) \<and>
     (\<forall>t t' a. t < length (pcs m) \<longrightarrow> t' < length (pcs m) \<longrightarrow> filler (pcs m ! t) = Some a \<longrightarrow> filler (pcs m ! t') = Some a \<longrightarrow> t = t')"

lemma length_filter_update:
  "i < length xs \<Longrightarrow> length (filter P (xs[i := v])) + (if P (xs ! i) then 1 else 0) = length (filter P xs) + (if P v then 1 else 0)"
proof (induction xs arbitrary: i)
  case (Cons x xs)
  show ?case
  proof (cases i)
    case (Suc j)
    then show ?thesis
      using Cons.IH [of j] Cons.prems by simp
  qed simp
qed simp

lemma minvD:
  assumes "minv content m"
  shows "wf_cache (mc m)" "accounted (mc m)" "length (pcs m) < 2 ^ 32"
    "fc_heap (mc m) a = Some e \<Longrightarrow> entry_ok content e" "fc_heap (mc m) a = Some e \<Longrightarrow> unat (en_refcount e) = pins m a"
    "fc_heap (mc m) a = Some e \<Longrightarrow> \<not> en_ready e \<Longrightarrow> \<exists>t < length (pcs m). filler (pcs m ! t) = Some a"
    "t < length (pcs m) \<Longrightarrow> pc_ok content (mc m) (pcs m ! t)"
    "t < length (pcs m) \<Longrightarrow> t' < length (pcs m) \<Longrightarrow> filler (pcs m ! t) = Some a \<Longrightarrow> filler (pcs m ! t') = Some a \<Longrightarrow> t = t'"
  using assms unfolding minv_def by blast+

lemma pinned_positive:
  assumes "minv content m" "t < length (pcs m)" "pin (pcs m ! t) = Some a" "fc_heap (mc m) a = Some e"
  shows "en_refcount e \<noteq> 0"
proof -
  have "pins m a \<noteq> 0"
    using assms(2,3) nth_mem [OF assms(2)] by (auto simp: pins_def filter_empty_conv)
  then show ?thesis
    using minvD(5) [OF assms(1,4)] by auto
qed

lemma pins_bound: "pins m a \<le> length (pcs m)"
  by (simp add: pins_def)

lemma no_pins_outside:
  assumes "minv content m" "fc_heap (mc m) a = None"
  shows "pins m a = 0" "t < length (pcs m) \<Longrightarrow> filler (pcs m ! t) \<noteq> Some a"
proof -
  have "pin (pcs m ! t) \<noteq> Some a \<and> filler (pcs m ! t) \<noteq> Some a" if "t < length (pcs m)" for t
    using minvD(7) [OF assms(1) that] assms(2) by (auto simp: pc_ok_def)
  then show "pins m a = 0" "t < length (pcs m) \<Longrightarrow> filler (pcs m ! t) \<noteq> Some a"
    by (auto simp: pins_def filter_empty_conv in_set_conv_nth)
qed

text \<open>
  One block of a request, as the other requests see it: the entries they rely on stay what they need to be.
\<close>

lemma minv_goto:
  assumes inv: "minv content m" and t: "t < length (pcs m)" and wf: "wf_cache c" "accounted c"
    and entries: "\<And>a e'. fc_heap c a = Some e' \<Longrightarrow> entry_ok content e' \<and>
      (case fc_heap (mc m) a of
         None \<Rightarrow> en_refcount e' = 0 \<and> pin p \<noteq> Some a \<and> filler p = Some a
       | Some e \<Rightarrow> unat (en_refcount e') + (if pin (pcs m ! t) = Some a then 1 else 0) = unat (en_refcount e) + (if pin p = Some a then 1 else 0) \<and>
           (\<not> en_ready e' \<longrightarrow> \<not> en_ready e \<and> (filler (pcs m ! t) = Some a \<longrightarrow> filler p = Some a)))"
    and ok: "pc_ok content c p"
    and pinned: "\<And>a e. fc_heap (mc m) a = Some e \<Longrightarrow> en_refcount e \<noteq> 0 \<Longrightarrow> \<not> en_failed e \<Longrightarrow>
      \<exists>e'. fc_heap c a = Some e' \<and> en_key e' = en_key e \<and> \<not> en_failed e' \<and> (en_ready e \<longrightarrow> en_ready e')"
    and filling: "\<And>a e. fc_heap (mc m) a = Some e \<Longrightarrow> \<not> en_ready e \<Longrightarrow> filler (pcs m ! t) \<noteq> Some a \<Longrightarrow>
      \<exists>e'. fc_heap c a = Some e' \<and> \<not> en_ready e' \<and> en_failed e' = en_failed e \<and> en_key e' = en_key e \<and> en_data e' = en_data e \<and>
        (en_failed e \<longrightarrow> en_refcount e' = en_refcount e)"
    and fill: "\<And>a. filler p = Some a \<Longrightarrow> filler (pcs m ! t) = Some a \<or> fc_heap (mc m) a = None"
  shows "minv content \<lparr>mc = c, pcs = (pcs m)[t := p]\<rparr>"
proof -
  let ?m = "\<lparr>mc = c, pcs = (pcs m)[t := p]\<rparr>"
  have count: "pins ?m a + (if pin (pcs m ! t) = Some a then 1 else 0) = pins m a + (if pin p = Some a then 1 else 0)" for a
    unfolding pins_def using length_filter_update [OF t, of "\<lambda>p. pin p = Some a" p] by simp
  have ent: "entry_ok content e' \<and> unat (en_refcount e') = pins ?m a \<and>
      (\<not> en_ready e' \<longrightarrow> (\<exists>t' < length (pcs ?m). filler (pcs ?m ! t') = Some a))" if e': "fc_heap c a = Some e'" for a e'
  proof (cases "fc_heap (mc m) a")
    case None
    then have e: "en_refcount e' = 0" "pin p \<noteq> Some a" "filler p = Some a" "entry_ok content e'"
      using entries [OF e'] by auto
    moreover have "pins ?m a = 0"
      using count [of a] no_pins_outside(1) [OF inv None] e(2) by (simp split: if_splits)
    ultimately show ?thesis
      using t by auto
  next
    case (Some e)
    then have e: "unat (en_refcount e') + (if pin (pcs m ! t) = Some a then 1 else 0) = unat (en_refcount e) + (if pin p = Some a then 1 else 0)"
      "\<not> en_ready e' \<Longrightarrow> \<not> en_ready e" "\<not> en_ready e' \<Longrightarrow> filler (pcs m ! t) = Some a \<Longrightarrow> filler p = Some a" "entry_ok content e'"
      using entries [OF e'] by auto
    have "\<exists>t' < length (pcs ?m). filler (pcs ?m ! t') = Some a" if "\<not> en_ready e'"
    proof -
      obtain i where i: "i < length (pcs m)" "filler (pcs m ! i) = Some a"
        using minvD(6) [OF inv Some e(2) [OF \<open>\<not> en_ready e'\<close>]] by blast
      then show ?thesis
        using i t e(3) [OF \<open>\<not> en_ready e'\<close>] by (intro exI [of _ i]) (cases "i = t"; simp)
    qed
    moreover have "unat (en_refcount e') = pins ?m a"
      using e(1) count [of a] minvD(5) [OF inv Some] by (simp split: if_splits)
    ultimately show ?thesis
      using e(4) by blast
  qed
  have other: "pc_ok content c (pcs m ! i)" if i: "i < length (pcs m)" "i \<noteq> t" for i
  proof -
    note old = minvD(7) [OF inv i(1)]
    have "\<exists>e'. fc_heap c a = Some e' \<and> pin_ok (pcs m ! i) e'" if a: "pin (pcs m ! i) = Some a" for a
    proof -
      obtain e where e: "fc_heap (mc m) a = Some e" "pin_ok (pcs m ! i) e"
        using old a by (auto simp: pc_ok_def)
      have "\<not> en_failed e"
        using e(2) a by (cases "pcs m ! i") auto
      from pinned [OF e(1) pinned_positive [OF inv i(1) a e(1)] this] show ?thesis
        using e(2) a by (cases "pcs m ! i") auto
    qed
    moreover have "\<exists>e'. fc_heap c a = Some e' \<and> filler_ok content (pcs m ! i) e'" if a: "filler (pcs m ! i) = Some a" for a
    proof -
      obtain e where e: "fc_heap (mc m) a = Some e" "filler_ok content (pcs m ! i) e"
        using old a by (auto simp: pc_ok_def)
      have "\<not> en_ready e"
        using e(2) a by (cases "pcs m ! i") auto
      moreover have "filler (pcs m ! t) \<noteq> Some a"
        using minvD(8) [OF inv i(1) t a] i(2) by blast
      ultimately show ?thesis
        using filling [OF e(1)] e(2) a by (cases "pcs m ! i") fastforce+
    qed
    ultimately show ?thesis
      using old by (simp add: pc_ok_def)
  qed
  have uniq: "i = t" if "i < length (pcs m)" "filler (pcs m ! i) = Some a" "filler p = Some a" for i a
    using fill [OF that(3)] minvD(8) [OF inv that(1) t that(2)] no_pins_outside(2) [OF inv _ that(1), of a] that(2) by blast
  show ?thesis
    unfolding minv_def
  proof (intro conjI allI impI)
    fix t1 t2 a
    assume "t1 < length (pcs ?m)" "t2 < length (pcs ?m)" "filler (pcs ?m ! t1) = Some a" "filler (pcs ?m ! t2) = Some a"
    moreover have "filler (pcs ?m ! i) = (if i = t then filler p else filler (pcs m ! i))" for i
      using t by (cases "i = t") simp_all
    ultimately have f: "t1 < length (pcs m)" "t2 < length (pcs m)"
      "(if t1 = t then filler p else filler (pcs m ! t1)) = Some a" "(if t2 = t then filler p else filler (pcs m ! t2)) = Some a"
      by simp_all
    show "t1 = t2"
      using f uniq [OF f(1)] uniq [OF f(2)] minvD(8) [OF inv f(1,2)] by metis
  next
    fix i
    assume "i < length (pcs ?m)"
    then show "pc_ok content (mc ?m) (pcs ?m ! i)"
      using other ok by (cases "i = t") auto
  next
    fix a e'
    assume "fc_heap (mc ?m) a = Some e'"
    then have e': "fc_heap c a = Some e'"
      by simp
    show "entry_ok content e'" "unat (en_refcount e') = pins ?m a"
      using ent [OF e'] by blast+
    assume "\<not> en_ready e'"
    then show "\<exists>t' < length (pcs ?m). filler (pcs ?m ! t') = Some a"
      using ent [OF e'] by blast
  qed (use wf minvD(3) [OF inv] in simp_all)
qed

lemma minv_move:
  assumes "minv content m" "t < length (pcs m)" "pc_ok content (mc m) p" "pin p = pin (pcs m ! t)" "filler p = filler (pcs m ! t)"
  shows "minv content \<lparr>mc = mc m, pcs = (pcs m)[t := p]\<rparr>"
  using assms minvD(1,2,4) [OF assms(1)] by (intro minv_goto) (auto simp: assms(4,5))

lemma minv_update:
  assumes inv: "minv content m" and t: "t < length (pcs m)" and wf: "wf_cache c" "accounted c"
    and heap: "fc_heap c = (fc_heap (mc m))(a \<mapsto> e')" "fc_heap (mc m) a = Some e"
    and new: "entry_ok content e'" "en_key e' = en_key e" "en_ready e \<longrightarrow> en_ready e'" "en_refcount e \<noteq> 0 \<and> \<not> en_failed e \<longrightarrow> \<not> en_failed e'"
      "filler (pcs m ! t) \<noteq> Some a \<longrightarrow> en_ready e' = en_ready e \<and> en_failed e' = en_failed e \<and> en_data e' = en_data e \<and>
         (\<not> en_ready e \<and> en_failed e \<longrightarrow> en_refcount e' = en_refcount e)"
    and count: "unat (en_refcount e') + (if pin (pcs m ! t) = Some a then 1 else 0) = unat (en_refcount e) + (if pin p = Some a then 1 else 0)"
    and pins: "\<And>b. b \<noteq> a \<Longrightarrow> pin p = Some b \<longleftrightarrow> pin (pcs m ! t) = Some b"
    and fill: "\<And>b. filler p = Some b \<Longrightarrow> filler (pcs m ! t) = Some b" "\<And>b. b \<noteq> a \<Longrightarrow> filler (pcs m ! t) = Some b \<Longrightarrow> filler p = Some b"
      "\<not> en_ready e' \<Longrightarrow> filler (pcs m ! t) = Some a \<Longrightarrow> filler p = Some a"
    and ok: "pc_ok content c p"
  shows "minv content \<lparr>mc = c, pcs = (pcs m)[t := p]\<rparr>"
proof (rule minv_goto [OF inv t wf _ ok])
  fix b f
  assume "fc_heap c b = Some f"
  then show "entry_ok content f \<and>
      (case fc_heap (mc m) b of
         None \<Rightarrow> en_refcount f = 0 \<and> pin p \<noteq> Some b \<and> filler p = Some b
       | Some e \<Rightarrow> unat (en_refcount f) + (if pin (pcs m ! t) = Some b then 1 else 0) = unat (en_refcount e) + (if pin p = Some b then 1 else 0) \<and>
           (\<not> en_ready f \<longrightarrow> \<not> en_ready e \<and> (filler (pcs m ! t) = Some b \<longrightarrow> filler p = Some b)))"
    using heap new(1,3) count pins [of b] fill(2) [of b] fill(3) minvD(4) [OF inv] by (cases "b = a") auto
next
  fix b f
  assume "fc_heap (mc m) b = Some f" "en_refcount f \<noteq> 0" "\<not> en_failed f"
  then show "\<exists>e'. fc_heap c b = Some e' \<and> en_key e' = en_key f \<and> \<not> en_failed e' \<and> (en_ready f \<longrightarrow> en_ready e')"
    using heap new by (cases "b = a") auto
next
  fix b f
  assume "fc_heap (mc m) b = Some f" "\<not> en_ready f" "filler (pcs m ! t) \<noteq> Some b"
  then show "\<exists>e'. fc_heap c b = Some e' \<and> \<not> en_ready e' \<and> en_failed e' = en_failed f \<and> en_key e' = en_key f \<and> en_data e' = en_data f \<and>
        (en_failed f \<longrightarrow> en_refcount e' = en_refcount f)"
    using heap new by (cases "b = a") auto
qed (use fill in auto)

text \<open>An update of an entry that keeps its readiness and its size keeps the accounts.\<close>

lemma accounted_put_entry:
  assumes "wf_cache c" "accounted c" "fc_heap c a = Some e" "en_ready e' = en_ready e" "en_ready e \<longrightarrow> length (en_data e') = length (en_data e)"
  shows "accounted (put_entry a e' c)"
proof -
  have "resident (put_entry a e' c) = resident c"
    using assms(3-) by (intro ext) (auto simp: resident_def split: option.splits)
  then show ?thesis
    using assms(2) by (simp add: accounted_def)
qed

lemma accounted_counters [simp]:
  "accounted (c\<lparr>fc_hits := x\<rparr>) = accounted c" "accounted (c\<lparr>single_flight_waits := x\<rparr>) = accounted c"
  using resident_cong [of "c\<lparr>fc_hits := x\<rparr>" c] resident_cong [of "c\<lparr>single_flight_waits := x\<rparr>" c] by (simp_all add: accounted_def)

lemma accounted_publish:
  assumes "wf_cache c" "accounted c" "fc_heap c a = Some e" "\<not> en_ready e" "en_ready e'" "en_key e' = en_key e" "en_data e' = en_data e"
  shows "accounted (put_entry a e' (c\<lparr>bytes_resident := bytes_resident c + of_nat (length (en_data e))\<rparr>))"
proof -
  let ?c = "put_entry a e' (c\<lparr>bytes_resident := bytes_resident c + of_nat (length (en_data e))\<rparr>)"
  let ?x = "(en_lru_it e, en_key e)"
  have same: "resident ?c y = (if y = ?x then of_nat (length (en_data e)) else resident c y)" if y_in: "y \<in> set (fc_lru c)" for y
  proof -
    obtain n k where y: "y = (n, k)"
      by fastforce
    obtain b f where b: "fc_map c k = Some b" "fc_heap c b = Some f" "en_lru_it f = n"
      using wf_cacheD(5) [OF assms(1) y_in [unfolded y]] by blast
    then have "b = a \<longleftrightarrow> y = ?x"
      using assms(3) wf_cacheD(1) [OF assms(1) b(1)] wf_cacheD(2) [OF assms(1,3)] y by auto
    then show ?thesis
      using y b assms(3,5,7) by (auto simp: resident_def)
  qed
  have x: "resident c ?x = 0"
    using assms(3,4) wf_cacheD(2) [OF assms(1,3)] by (simp add: resident_def)
  have "sum_list (map (\<lambda>y. if y = ?x then v else f y) xs) = v + sum_list (map f xs)"
    if "distinct xs" "?x \<in> set xs" "f ?x = 0" for xs and v :: u64 and f
    using that by (induction xs) (auto simp: algebra_simps intro!: arg_cong [where f = sum_list])
  from this [of "fc_lru c" "resident c", OF distinct_map [THEN iffD1, THEN conjunct1, OF wf_cacheD(6) [OF assms(1)]] wf_cacheD(3) [OF assms(1,3)] x]
  have "sum_list (map (\<lambda>y. if y = ?x then of_nat (length (en_data e)) else resident c y) (fc_lru c)) =
      of_nat (length (en_data e)) + sum_list (map (resident c) (fc_lru c))" .
  moreover have "map (resident ?c) (fc_lru c) = map (\<lambda>y. if y = ?x then of_nat (length (en_data e)) else resident c y) (fc_lru c)"
    by (rule map_cong [OF refl same])
  ultimately have "sum_list (map (resident ?c) (fc_lru c)) = of_nat (length (en_data e)) + sum_list (map (resident c) (fc_lru c))"
    by (simp only:)
  then show ?thesis
    using assms(2) by (simp add: accounted_def)
qed

subsection \<open>Every block keeps the invariant\<close>

text \<open>
  What the environment of the cache has to respect: a fill writes inside its span, a fill that reports success has
  written the content of its frame, and when a fill fails, no other request is waiting for it.
\<close>

definition allowed :: "(FrameKey \<Rightarrow> bytes) \<Rightarrow> machine \<Rightarrow> action \<Rightarrow> bool" where
  "allowed content m act = (case act of
     FillWrite t data \<Rightarrow> (case pcs m ! t of Filling k a \<Rightarrow> map_option (length \<circ> en_data) (fc_heap (mc m) a) = Some (length data) | _ \<Rightarrow> True)
   | FillDone t None \<Rightarrow> (case pcs m ! t of Filling k a \<Rightarrow> map_option en_data (fc_heap (mc m) a) = Some (content k) | _ \<Rightarrow> True)
   | Step t \<Rightarrow> (case pcs m ! t of SetFailed k a err \<Rightarrow> map_option en_refcount (fc_heap (mc m) a) = Some 0 | _ \<Rightarrow> True)
   | _ \<Rightarrow> True)"

lemma pinE:
  assumes "minv content m" "t < length (pcs m)" "pin (pcs m ! t) = Some a"
  obtains e where "fc_heap (mc m) a = Some e" "pin_ok (pcs m ! t) e"
  using minvD(7) [OF assms(1,2)] assms(3) by (auto simp: pc_ok_def)

lemma fillerE:
  assumes "minv content m" "t < length (pcs m)" "filler (pcs m ! t) = Some a"
  obtains e where "fc_heap (mc m) a = Some e" "filler_ok content (pcs m ! t) e"
  using minvD(7) [OF assms(1,2)] assms(3) by (auto simp: pc_ok_def)

lemma refcount_room:
  assumes "minv content m" "t < length (pcs m)" "pin (pcs m ! t) = None" "fc_heap (mc m) a = Some e"
  shows "unat (en_refcount e + 1) = Suc (unat (en_refcount e))"
proof -
  have "length (filter (\<lambda>p. pin p = Some a) (pcs m)) < length (pcs m)"
    using assms(2,3) nth_mem [OF assms(2)] by (intro length_filter_less [of "pcs m ! t"]) auto
  then have "unat (en_refcount e) + 1 < 2 ^ 32"
    using minvD(3) [OF assms(1)] minvD(5) [OF assms(1,4)] by (simp add: pins_def)
  then show ?thesis
    by (simp add: unat_word_ariths)
qed

lemma refcount_down:
  assumes "minv content m" "t < length (pcs m)" "pin (pcs m ! t) = Some a" "fc_heap (mc m) a = Some e"
  shows "Suc (unat (en_refcount e - 1)) = unat (en_refcount e)"
proof -
  have "en_refcount e \<noteq> 0"
    by (rule pinned_positive [OF assms])
  then have "unat (en_refcount e - 1) = unat (en_refcount e) - 1" "0 < unat (en_refcount e)"
    by (simp_all add: unat_minus_one unat_gt_0)
  then show ?thesis
    by linarith
qed

text \<open>Touching an entry whose fields have just changed.\<close>

lemma touch_put_entry:
  assumes "wf_cache c" "accounted c" "fc_heap c a = Some e" "en_key e' = en_key e" "en_lru_it e' = en_lru_it e" "en_ready e' = en_ready e"
    "en_data e' = en_data e"
  obtains c' where "touch a (put_entry a e' c) = Ok c'" "wf_cache c'" "accounted c'" "fc_heap c' = (fc_heap c)(a \<mapsto> e')"
proof -
  let ?c = "put_entry a e' c"
  have wf: "wf_cache ?c"
    using assms by (intro wf_put_entry)
  have h: "fc_heap ?c a = Some e'"
    by simp
  have "accounted ?c"
    using assms by (intro accounted_put_entry) auto
  then show ?thesis
    using that [OF touch_eq [OF wf h] wf_lru_perm [OF wf mset_touch [OF wf h]] accounted_lru_perm [OF _ mset_touch [OF wf h]]] by simp
qed

lemma step_InWait:
  assumes "minv content m" "t < length (pcs m)" "pcs m ! t = InWait k a"
  shows "\<exists>m'. pc_step m t (InWait k a) = Ok m' \<and> minv content m'"
proof -
  obtain e where e: "fc_heap (mc m) a = Some e" "en_key e = k" "\<not> en_failed e"
    using pinE [OF assms(1,2), of a] assms(3) by auto
  show ?thesis
  proof (cases "en_ready e")
    case True
    then have "minv content \<lparr>mc = mc m, pcs = (pcs m)[t := Woken k a]\<rparr>"
      using assms e by (intro minv_move) (auto simp: pc_ok_def)
    then show ?thesis
      using e True by (simp add: gof_awake_def deref_def goto_def)
  qed (use e assms in \<open>simp add: gof_awake_def deref_def\<close>)
qed

lemma step_Woken:
  assumes "minv content m" "t < length (pcs m)" "pcs m ! t = Woken k a"
  shows "\<exists>m'. pc_step m t (Woken k a) = Ok m' \<and> minv content m'"
proof -
  obtain e where e: "fc_heap (mc m) a = Some e" "en_key e = k" "\<not> en_failed e" "en_ready e"
    using pinE [OF assms(1,2), of a] assms(3) by auto
  then have "minv content \<lparr>mc = mc m, pcs = (pcs m)[t := Refresh k a]\<rparr>"
    using assms by (intro minv_move) (auto simp: pc_ok_def)
  then show ?thesis
    using e by (simp add: deref_def goto_def)
qed

lemma step_NotifyReady:
  assumes "minv content m" "t < length (pcs m)" "pcs m ! t = NotifyReady k a"
  shows "\<exists>m'. pc_step m t (NotifyReady k a) = Ok m' \<and> minv content m'"
proof -
  obtain e where e: "fc_heap (mc m) a = Some e" "en_key e = k" "\<not> en_failed e" "en_ready e"
    using pinE [OF assms(1,2), of a] assms(3) by auto
  then have "minv content \<lparr>mc = mc m, pcs = (pcs m)[t := Leased k a]\<rparr>"
    using assms by (intro minv_move) (auto simp: pc_ok_def)
  then show ?thesis
    using e by (simp add: gof_notify_def deref_def goto_def)
qed

lemma step_NotifyFailed:
  assumes "minv content m" "t < length (pcs m)" "pcs m ! t = NotifyFailed k a err"
  shows "\<exists>m'. pc_step m t (NotifyFailed k a err) = Ok m' \<and> minv content m'"
proof -
  obtain e where e: "fc_heap (mc m) a = Some e" "filler_ok content (NotifyFailed k a err) e"
    using fillerE [OF assms(1,2), of a] assms(3) by auto
  then have "minv content \<lparr>mc = mc m, pcs = (pcs m)[t := Cleanup k a err]\<rparr>"
    using assms by (intro minv_move) (auto simp: pc_ok_def)
  then show ?thesis
    using e by (simp add: gof_notify_def deref_def goto_def)
qed

lemma step_Refresh:
  assumes "minv content m" "t < length (pcs m)" "pcs m ! t = Refresh k a"
  shows "\<exists>m'. pc_step m t (Refresh k a) = Ok m' \<and> minv content m'"
proof -
  obtain e where e: "fc_heap (mc m) a = Some e" "en_key e = k" "\<not> en_failed e" "en_ready e"
    using pinE [OF assms(1,2), of a] assms(3) by auto
  let ?c = "(mc m)\<lparr>fc_hits := fc_hits (mc m) + 1\<rparr>"
  have c: "wf_cache ?c" "accounted ?c" "fc_heap ?c a = Some e"
    using minvD(1,2) [OF assms(1)] e(1) by simp_all
  let ?l = "(en_lru_it e, en_key e) # filter (\<lambda>y. fst y \<noteq> en_lru_it e) (fc_lru ?c)"
  have ok: "wf_cache (?c\<lparr>fc_lru := ?l\<rparr>)" "accounted (?c\<lparr>fc_lru := ?l\<rparr>)"
    using wf_lru_perm [OF c(1)] accounted_lru_perm [OF c(2)] mset_touch [OF c(1,3)] by blast+
  have "minv content \<lparr>mc = ?c\<lparr>fc_lru := ?l\<rparr>, pcs = (pcs m)[t := Leased k a]\<rparr>"
    using assms e minvD(4) [OF assms(1)] by (intro minv_goto [OF assms(1,2) ok]) (auto simp: pc_ok_def)
  then show ?thesis
    using touch_eq [OF c(1,3)] by (simp add: gof_refresh_def goto_def)
qed

lemma step_Leased:
  assumes "minv content m" "t < length (pcs m)" "pcs m ! t = Leased k a"
  shows "\<exists>m'. pc_step m t (Leased k a) = Ok m' \<and> minv content m'"
proof -
  obtain e where e: "fc_heap (mc m) a = Some e" "en_key e = k" "\<not> en_failed e" "en_ready e"
    using pinE [OF assms(1,2), of a] assms(3) by auto
  let ?e = "e\<lparr>en_refcount := en_refcount e - 1\<rparr>"
  have "wf_cache (put_entry a ?e (mc m))" "accounted (put_entry a ?e (mc m))"
    using minvD(1,2) [OF assms(1)] e by (auto intro: wf_put_entry accounted_put_entry)
  then have "minv content \<lparr>mc = put_entry a ?e (mc m), pcs = (pcs m)[t := Idle]\<rparr>"
    using refcount_down [OF assms(1,2) _ e(1)] minvD(4) [OF assms(1) e(1)] assms(3) e
    by (intro minv_update [OF assms(1,2), where a = a and e = e and e' = ?e]) (auto simp: entry_ok_def pc_ok_def)
  then show ?thesis
    using e by (simp add: release_def deref_def goto_def)
qed

lemma step_SetFailed:
  assumes "minv content m" "t < length (pcs m)" "pcs m ! t = SetFailed k a err" "allowed content m (Step t)"
  shows "\<exists>m'. pc_step m t (SetFailed k a err) = Ok m' \<and> minv content m'"
proof -
  obtain e where e: "fc_heap (mc m) a = Some e" "filler_ok content (SetFailed k a err) e"
    using fillerE [OF assms(1,2), of a] assms(3) by auto
  then have z: "\<not> en_ready e" "\<not> en_failed e" "en_refcount e = 0" "en_key e = k"
    using assms(3,4) by (auto simp: allowed_def)
  let ?e = "e\<lparr>en_fill_error := err, en_failed := True\<rparr>"
  have "wf_cache (put_entry a ?e (mc m))" "accounted (put_entry a ?e (mc m))"
    using minvD(1,2) [OF assms(1)] e by (auto intro: wf_put_entry accounted_put_entry)
  then have "minv content \<lparr>mc = put_entry a ?e (mc m), pcs = (pcs m)[t := NotifyFailed k a err]\<rparr>"
    using assms(3) e z
    by (intro minv_update [OF assms(1,2), where a = a and e = e and e' = ?e]) (auto simp: entry_ok_def pc_ok_def)
  then show ?thesis
    using e by (simp add: gof_set_failed_def deref_def goto_def)
qed

lemma step_Cleanup:
  assumes "minv content m" "t < length (pcs m)" "pcs m ! t = Cleanup k a err"
  shows "\<exists>m'. pc_step m t (Cleanup k a err) = Ok m' \<and> minv content m'"
proof -
  obtain e where e: "fc_heap (mc m) a = Some e" "\<not> en_ready e" "en_failed e" "en_key e = k" "en_refcount e = 0"
    using fillerE [OF assms(1,2), of a] assms(3) by auto
  have map: "fc_map (mc m) k = Some a"
    using wf_cacheD(2) [OF minvD(1) [OF assms(1)] e(1)] e(4) by simp
  have "accounted (without (mc m) a e)"
    using sum_without [OF minvD(1) [OF assms(1)] e(1)] minvD(2) [OF assms(1)] e(2) by (simp add: accounted_def)
  then have "minv content \<lparr>mc = without (mc m) a e, pcs = (pcs m)[t := Failed err]\<rparr>"
    using wf_without [OF minvD(1) [OF assms(1)] e(1)] minvD(4) [OF assms(1)] assms(3) e
    by (intro minv_goto [OF assms(1,2)]) (auto simp: pc_ok_def split: if_splits option.splits)
  then show ?thesis
    using map drop_entry_eq [OF minvD(1) [OF assms(1)] e(1)] e by (simp add: gof_cleanup_def deref_def goto_def)
qed

lemma step_Publish:
  assumes "minv content m" "t < length (pcs m)" "pcs m ! t = Publish k a"
  shows "\<exists>m'. pc_step m t (Publish k a) = Ok m' \<and> minv content m'"
proof -
  obtain e where e: "fc_heap (mc m) a = Some e" "\<not> en_ready e" "\<not> en_failed e" "en_key e = k" "en_data e = content k"
    using fillerE [OF assms(1,2), of a] assms(3) by auto
  let ?e = "e\<lparr>en_refcount := en_refcount e + 1, en_ready := True\<rparr>"
  let ?c = "put_entry a ?e ((mc m)\<lparr>bytes_resident := bytes_resident (mc m) + of_nat (length (en_data e))\<rparr>)"
  let ?p = "evict_pass ?c (rev (fc_lru ?c))"
  have c: "wf_cache ?c" "accounted ?c"
    using minvD(1,2) [OF assms(1)] e(1-3) by (auto intro: wf_put_entry accounted_publish)
  then have p: "wf_cache ?p" "accounted ?p" "shrinks ?c ?p"
    using evict_pass_ok by blast+
  have rc: "unat (en_refcount e + 1) = Suc (unat (en_refcount e))"
    using refcount_room [OF assms(1,2) _ e(1)] assms(3) by simp
  then have "en_refcount e + 1 \<noteq> 0"
    by (metis nat.distinct(1) unat_0)
  then have at_a: "fc_heap ?p a = Some ?e"
    using shrinksD [OF p(3), of a] by auto
  have at: "fc_heap ?p b = fc_heap (mc m) b \<or> fc_heap ?p b = None \<and> (\<exists>f. fc_heap (mc m) b = Some f \<and> en_refcount f = 0 \<and> en_ready f)"
    if "b \<noteq> a" for b
    using shrinksD [OF p(3), of b] that by simp
  have "minv content \<lparr>mc = ?p, pcs = (pcs m)[t := NotifyReady k a]\<rparr>"
  proof (rule minv_goto [OF assms(1,2) p(1,2)])
    fix b f
    assume f: "fc_heap ?p b = Some f"
    show "entry_ok content f \<and>
      (case fc_heap (mc m) b of
         None \<Rightarrow> en_refcount f = 0 \<and> pin (NotifyReady k a) \<noteq> Some b \<and> filler (NotifyReady k a) = Some b
       | Some e \<Rightarrow> unat (en_refcount f) + (if pin (pcs m ! t) = Some b then 1 else 0) = unat (en_refcount e) + (if pin (NotifyReady k a) = Some b then 1 else 0) \<and>
           (\<not> en_ready f \<longrightarrow> \<not> en_ready e \<and> (filler (pcs m ! t) = Some b \<longrightarrow> filler (NotifyReady k a) = Some b)))"
    proof (cases "b = a")
      case True
      then show ?thesis
        using f at_a e rc assms(3) by (simp add: entry_ok_def)
    next
      case False
      have old: "fc_heap (mc m) b = Some f"
        using f at [OF False] by auto
      show ?thesis
        using False old minvD(4) [OF assms(1) old] assms(3) by simp
    qed
  next
    show "pc_ok content ?p (NotifyReady k a)"
      using at_a e by (simp add: pc_ok_def)
  next
    fix b f
    assume "fc_heap (mc m) b = Some f" "en_refcount f \<noteq> 0" "\<not> en_failed f"
    then show "\<exists>e'. fc_heap ?p b = Some e' \<and> en_key e' = en_key f \<and> \<not> en_failed e' \<and> (en_ready f \<longrightarrow> en_ready e')"
      using at [of b] at_a e by (cases "b = a") auto
  next
    fix b f
    assume "fc_heap (mc m) b = Some f" "\<not> en_ready f" "filler (pcs m ! t) \<noteq> Some b"
    then show "\<exists>e'. fc_heap ?p b = Some e' \<and> \<not> en_ready e' \<and> en_failed e' = en_failed f \<and> en_key e' = en_key f \<and> en_data e' = en_data f \<and>
        (en_failed f \<longrightarrow> en_refcount e' = en_refcount f)"
      using at [of b] assms(3) by (cases "b = a") auto
  qed simp
  then show ?thesis
    using evict_if_needed_pass [OF c(1)] e(1) by (simp add: gof_publish_def deref_def goto_def)
qed

lemma step_FillWrite:
  assumes "minv content m" "t < length (pcs m)" "pcs m ! t = Filling k a" "allowed content m (FillWrite t data)"
  shows "\<exists>c. gof_write a data (mc m) = Ok c \<and> minv content \<lparr>mc = c, pcs = (pcs m)[t := Filling k a]\<rparr>"
proof -
  obtain e where e: "fc_heap (mc m) a = Some e" "\<not> en_ready e" "\<not> en_failed e" "en_key e = k"
    using fillerE [OF assms(1,2), of a] assms(3) by auto
  let ?e = "e\<lparr>en_data := data\<rparr>"
  have c: "gof_write a data (mc m) = Ok (put_entry a ?e (mc m))"
    using assms(3,4) e(1) by (simp add: gof_write_def deref_def allowed_def)
  have "wf_cache (put_entry a ?e (mc m))" "accounted (put_entry a ?e (mc m))"
    using minvD(1,2) [OF assms(1)] e by (auto intro: wf_put_entry accounted_put_entry)
  then have "minv content \<lparr>mc = put_entry a ?e (mc m), pcs = (pcs m)[t := Filling k a]\<rparr>"
    using assms(3) e
    by (intro minv_update [OF assms(1,2), where a = a and e = e and e' = ?e]) (auto simp: entry_ok_def pc_ok_def)
  then show ?thesis
    using c by blast
qed

lemma step_FillDone:
  assumes "minv content m" "t < length (pcs m)" "pcs m ! t = Filling k a" "allowed content m (FillDone t status)"
  shows "minv content \<lparr>mc = mc m, pcs = (pcs m)[t := (case status of None \<Rightarrow> Publish k a | Some err \<Rightarrow> SetFailed k a err)]\<rparr>"
proof -
  obtain e where e: "fc_heap (mc m) a = Some e" "\<not> en_ready e" "\<not> en_failed e" "en_key e = k"
    using fillerE [OF assms(1,2), of a] assms(3) by auto
  then have "status = None \<longrightarrow> en_data e = content k"
    using assms(3,4) by (auto simp: allowed_def)
  then show ?thesis
    using assms(3) e by (intro minv_move [OF assms(1,2)]) (auto simp: pc_ok_def split: option.split)
qed

lemma wf_insert:
  assumes "wf_cache c" "fc_heap c a = None" "fc_map c k = None"
  shows "wf_cache (c\<lparr>fc_misses := x, fc_lru := (fc_next_node c, k) # fc_lru c, fc_next_node := Suc (fc_next_node c),
    fc_map := (fc_map c)(k \<mapsto> a), fc_heap := (fc_heap c)(a \<mapsto> new_entry k sz (fc_next_node c))\<rparr>)" (is "wf_cache ?c")
proof -
  have nk: "k' \<noteq> k" if "(n, k') \<in> set (fc_lru c)" for n k'
    using wf_cacheD(5) [OF assms(1) that] assms(3) by auto
  have "\<exists>e. fc_heap ?c b = Some e \<and> en_key e = k'" if "fc_map ?c k' = Some b" for k' b
    using that wf_cacheD(1) [OF assms(1), of k' b] assms(2) by (auto simp: new_entry_def split: if_splits)
  moreover have "fc_map ?c (en_key e) = Some b \<and> (en_lru_it e, en_key e) \<in> set (fc_lru ?c)" if "fc_heap ?c b = Some e" for b e
    using that wf_cacheD(2,3) [OF assms(1), of b e] assms(3) by (auto simp: new_entry_def split: if_splits)
  moreover have "n < fc_next_node ?c \<and> (\<exists>b e. fc_map ?c k' = Some b \<and> fc_heap ?c b = Some e \<and> en_lru_it e = n)"
    if "(n, k') \<in> set (fc_lru ?c)" for n k'
  proof (cases "(n, k') = (fc_next_node c, k)")
    case False
    then have old: "(n, k') \<in> set (fc_lru c)"
      using that by auto
    then obtain b e where b: "fc_map c k' = Some b" "fc_heap c b = Some e" "en_lru_it e = n"
      using wf_cacheD(5) [OF assms(1) old] by blast
    moreover from this have "b \<noteq> a"
      using assms(2) by auto
    ultimately show ?thesis
      using nk [OF old] wf_cacheD(4) [OF assms(1) old] by simp
  qed (simp add: new_entry_def)
  moreover have "distinct (map fst (fc_lru ?c))"
    using wf_cacheD(4,6) [OF assms(1)] by fastforce
  ultimately show ?thesis
    unfolding wf_cache_def by blast
qed

lemma accounted_insert:
  assumes "wf_cache c" "accounted c" "fc_heap c a = None" "fc_map c k = None"
  shows "accounted (c\<lparr>fc_misses := x, fc_lru := (fc_next_node c, k) # fc_lru c, fc_next_node := Suc (fc_next_node c),
    fc_map := (fc_map c)(k \<mapsto> a), fc_heap := (fc_heap c)(a \<mapsto> new_entry k sz (fc_next_node c))\<rparr>)" (is "accounted ?c")
proof -
  have "resident ?c y = resident c y" if y_in: "y \<in> set (fc_lru c)" for y
  proof -
    obtain n k' where y: "y = (n, k')"
      by fastforce
    obtain b e where b: "fc_map c k' = Some b" "fc_heap c b = Some e"
      using wf_cacheD(5) [OF assms(1) y_in [unfolded y]] by blast
    then have "k' \<noteq> k" "b \<noteq> a"
      using assms(3,4) by auto
    then show ?thesis
      using y b by (simp add: resident_def)
  qed
  then have "sum_list (map (resident ?c) (fc_lru c)) = sum_list (map (resident c) (fc_lru c))"
    by (intro arg_cong [where f = sum_list] map_cong [OF refl])
  moreover have "resident ?c (fc_next_node c, k) = 0"
    by (simp add: resident_def new_entry_def)
  ultimately show ?thesis
    using assms(2) by (simp add: accounted_def)
qed

lemma step_Call:
  assumes inv: "minv content m" and t: "t < length (pcs m)" "is_idle (pcs m ! t)" and fresh: "fc_heap (mc m) fresh = None"
  shows "(gof_lookup k size_hint fresh (mc m) = Abort Throw) \<or>
    (\<exists>c r. gof_lookup k size_hint fresh (mc m) = Ok (c, r) \<and> minv content \<lparr>mc = c, pcs = (pcs m)[t := after_lookup k r]\<rparr>)"
proof -
  have idle: "pin (pcs m ! t) = None" "filler (pcs m ! t) = None"
    using t(2) by (auto simp: is_idle_def split: pc.splits)
  note wf = minvD(1,2) [OF inv]
  show ?thesis
  proof (cases "fc_map (mc m) k")
    case (Some a)
    obtain e where e: "fc_heap (mc m) a = Some e" "en_key e = k"
      using wf_cacheD(1) [OF wf(1) Some] by blast
    let ?e = "e\<lparr>en_refcount := en_refcount e + 1\<rparr>"
    have eo: "entry_ok content e" and rc: "unat (en_refcount e + 1) = Suc (unat (en_refcount e))"
      using minvD(4) [OF inv e(1)] refcount_room [OF inv t(1) idle(1) e(1)] by simp_all
    show ?thesis
    proof (cases "en_ready e")
      case True
      obtain c where c: "touch a (put_entry a ?e ((mc m)\<lparr>fc_hits := fc_hits (mc m) + 1\<rparr>)) = Ok c" "wf_cache c" "accounted c"
        "fc_heap c = (fc_heap (mc m))(a \<mapsto> ?e)"
        using touch_put_entry [of "(mc m)\<lparr>fc_hits := fc_hits (mc m) + 1\<rparr>" a e ?e] wf e(1) by auto
      have "minv content \<lparr>mc = c, pcs = (pcs m)[t := Leased k a]\<rparr>"
        using c(4) e eo rc idle True
        by (intro minv_update [OF inv t(1) c(2,3), where a = a and e = e and e' = ?e]) (auto simp: entry_ok_def pc_ok_def)
      then show ?thesis
        using Some e(1) True c(1) by (simp add: gof_lookup_def deref_def after_lookup_def)
    next
      case nready: False
      show ?thesis
      proof (cases "en_failed e")
        case True
        have "minv content \<lparr>mc = mc m, pcs = (pcs m)[t := Failed (en_fill_error e)]\<rparr>"
          using idle by (intro minv_move [OF inv t(1)]) (auto simp: pc_ok_def)
        then show ?thesis
          using Some e(1) nready True by (simp add: gof_lookup_def deref_def after_lookup_def)
      next
        case False
        let ?c = "put_entry a ?e ((mc m)\<lparr>single_flight_waits := single_flight_waits (mc m) + 1\<rparr>)"
        have "wf_cache ?c" "accounted ?c"
          using wf e(1) by (auto intro!: wf_put_entry accounted_put_entry)
        then have "minv content \<lparr>mc = ?c, pcs = (pcs m)[t := InWait k a]\<rparr>"
          using e eo rc idle nready False
          by (intro minv_update [OF inv t(1), where a = a and e = e and e' = ?e]) (auto simp: entry_ok_def pc_ok_def)
        then show ?thesis
          using Some e(1) nready False by (simp add: gof_lookup_def deref_def after_lookup_def)
      qed
    qed
  next
    case None
    let ?c = "(mc m)\<lparr>fc_misses := fc_misses (mc m) + 1, fc_lru := (fc_next_node (mc m), k) # fc_lru (mc m),
      fc_next_node := Suc (fc_next_node (mc m)), fc_map := (fc_map (mc m))(k \<mapsto> fresh),
      fc_heap := (fc_heap (mc m))(fresh \<mapsto> new_entry k size_hint (fc_next_node (mc m)))\<rparr>"
    have "minv content \<lparr>mc = ?c, pcs = (pcs m)[t := Filling k fresh]\<rparr>"
      using fresh idle minvD(4) [OF inv]
      by (intro minv_goto [OF inv t(1) wf_insert [OF wf(1) fresh None] accounted_insert [OF wf fresh None]])
        (auto simp: pc_ok_def new_entry_def entry_ok_def split: if_splits option.splits)
    then show ?thesis
      using None by (simp add: gof_lookup_def after_lookup_def)
  qed
qed

lemmas step_lemmas = step_InWait step_Woken step_NotifyReady step_NotifyFailed step_Refresh step_Leased step_Cleanup step_Publish

lemma m_step_Step:
  assumes "minv content m" "allowed content m (Step t)" "t < length (pcs m)"
  shows "\<exists>m'. pc_step m t (pcs m ! t) = Ok m' \<and> minv content m'"
proof (cases "pcs m ! t")
  case (SetFailed k a err)
  then show ?thesis
    using step_SetFailed [OF assms(1,3) SetFailed assms(2)] by simp
next
  case (Unpin k a)
  then show ?thesis
    using pinE [OF assms(1,3), of a] by auto
next
  case (ReadError k a)
  then show ?thesis
    using minvD(7) [OF assms(1,3)] by (auto simp: pc_ok_def)
qed (use assms step_lemmas [OF assms(1,3)] in \<open>simp_all\<close>)

lemma m_step_minv:
  assumes inv: "minv content m" and al: "allowed content m act"
  shows "m_step act m = Abort Throw \<or> (\<exists>m'. m_step act m = Ok m' \<and> minv content m')"
proof (cases act)
  case (Call t key size_hint fresh)
  then show ?thesis
    using step_Call [OF inv, of t fresh key size_hint] inv by (auto simp: call_step_def goto_def)
next
  case (FillWrite t data)
  show ?thesis
  proof (cases "t < length (pcs m) \<and> (\<exists>k a. pcs m ! t = Filling k a)")
    case True
    then obtain k a where "t < length (pcs m)" "pcs m ! t = Filling k a"
      by blast
    then show ?thesis
      using step_FillWrite [OF inv, of t k a data] al FillWrite by (auto simp: goto_def)
  qed (use FillWrite inv in \<open>auto split: pc.splits\<close>)
next
  case (FillDone t status)
  show ?thesis
  proof (cases "t < length (pcs m) \<and> (\<exists>k a. pcs m ! t = Filling k a)")
    case True
    then obtain k a where "t < length (pcs m)" "pcs m ! t = Filling k a"
      by blast
    then show ?thesis
      using step_FillDone [OF inv, of t k a status] al FillDone by (simp add: goto_def)
  qed (use FillDone inv in \<open>auto split: pc.splits\<close>)
next
  case (Step t)
  then show ?thesis
    using m_step_Step [OF inv] al inv by simp
qed

lemma goto_length: "goto m t c p = Ok m' \<Longrightarrow> length (pcs m') = length (pcs m)"
  by (auto simp: goto_def)

lemma pc_step_length: "pc_step m t p = Ok m' \<Longrightarrow> length (pcs m') = length (pcs m)"
  by (cases p) (auto split: if_splits dest: goto_length)

lemma m_step_length: "m_step act m = Ok m' \<Longrightarrow> length (pcs m') = length (pcs m)"
  by (cases act) (auto simp: call_step_def split: if_splits pc.splits dest: goto_length pc_step_length)

text \<open>The states that the environment and the scheduler can bring about.\<close>

inductive cache_reach :: "(FrameKey \<Rightarrow> bytes) \<Rightarrow> u64 \<Rightarrow> nat \<Rightarrow> machine \<Rightarrow> bool" for content budget n where
  start: "cache_reach content budget n (machine_init budget n)"
| step: "cache_reach content budget n m \<Longrightarrow> allowed content m act \<Longrightarrow> m_step act m = Ok m' \<Longrightarrow> cache_reach content budget n m'"

lemma minv_init: "n < 2 ^ 32 \<Longrightarrow> minv content (machine_init budget n)"
  unfolding minv_def machine_init_def using wf_cache_new by (simp add: cache_new_def pc_ok_def)

lemma cache_reach_minv:
  assumes "cache_reach content budget n m" "n < 2 ^ 32"
  shows "minv content m \<and> length (pcs m) = n"
  using assms
proof (induction rule: cache_reach.induct)
  case start
  then show ?case
    using minv_init by (simp add: machine_init_def)
next
  case (step m act m')
  have "length (pcs m') = length (pcs m)"
    by (rule m_step_length [OF step(3)])
  then show ?case
    using m_step_minv [OF _ step(2)] step by auto
qed

fun run_allowed :: "(FrameKey \<Rightarrow> bytes) \<Rightarrow> machine \<Rightarrow> action list \<Rightarrow> bool" where
  "run_allowed content m [] \<longleftrightarrow> True"
| "run_allowed content m (act # acts) \<longleftrightarrow>
     allowed content m act \<and> (case m_step act m of Ok m' \<Rightarrow> run_allowed content m' acts | _ \<Rightarrow> True)"

lemma cache_reach_run:
  "cache_reach content budget n m \<Longrightarrow> run_allowed content m acts \<Longrightarrow> m_run m acts = Ok m' \<Longrightarrow> cache_reach content budget n m'"
  by (induction acts arbitrary: m) (auto, metis cache_reach.step)

subsection \<open>What a client of the cache gets\<close>

text \<open>
  C14: No interleaving of any number of requests touches a freed entry or a stale list iterator, as long as no request
  waits for a fill that fails: from every reachable state, every block of \<open>get_or_fill\<close> and every release of a lease is defined.
\<close>

theorem cache_memory_safe:
  assumes "cache_reach content budget n m" "n < 2 ^ 32" "allowed content m act"
  shows "m_step act m \<noteq> Abort UB"
  using m_step_minv [OF _ assms(3)] cache_reach_minv [OF assms(1,2)] by auto

text \<open>
  C24: A lease never shows a half-filled or a foreign frame: whoever asked for a key and holds a lease reads exactly the bytes that
  the fill of that key produced, and they stay readable as long as the lease is held, whatever is evicted meanwhile.
\<close>

theorem lease_sees_content:
  assumes "cache_reach content budget n m" "n < 2 ^ 32" "t < n" "pcs m ! t = Leased k a"
  shows "lease_bytes a (mc m) = Ok (content k)"
proof -
  have inv: "minv content m" "length (pcs m) = n"
    using cache_reach_minv [OF assms(1,2)] by simp_all
  obtain e where e: "fc_heap (mc m) a = Some e" "en_key e = k" "en_ready e"
    using pinE [OF inv(1), of t a] inv(2) assms(3,4) by auto
  then show ?thesis
    using minvD(4) [OF inv(1) e(1)] by (simp add: lease_bytes_def deref_def entry_ok_def)
qed

text \<open>
  C25: Single flight without lost wake-ups: at most one request fills a key at a time, and a request that waits for an entry either
  finds it ready at its next step or there is another request that is still filling or publishing that entry.
\<close>

theorem single_flight:
  assumes "cache_reach content budget n m" "n < 2 ^ 32" "t < n"
  shows "(\<forall>t' < n. \<forall>k a a'. pcs m ! t = Filling k a \<longrightarrow> pcs m ! t' = Filling k a' \<longrightarrow> t = t') \<and>
    (\<forall>k a. pcs m ! t = InWait k a \<longrightarrow> pc_step m t (InWait k a) = goto m t (mc m) (Woken k a) \<or>
       (\<exists>t' < n. t' \<noteq> t \<and> filler (pcs m ! t') = Some a))"
proof -
  have inv: "minv content m" "length (pcs m) = n"
    using cache_reach_minv [OF assms(1,2)] by simp_all
  have "t = t'" if f: "t' < n" "pcs m ! t = Filling k a" "pcs m ! t' = Filling k a'" for t' k a a'
  proof -
    obtain e where e: "fc_heap (mc m) a = Some e" "en_key e = k"
      using fillerE [OF inv(1), of t a] inv(2) assms(3) f by auto
    obtain e' where e': "fc_heap (mc m) a' = Some e'" "en_key e' = k"
      using fillerE [OF inv(1), of t' a'] inv(2) f by auto
    have "a = a'"
      using wf_cacheD(2) [OF minvD(1) [OF inv(1)] e(1)] wf_cacheD(2) [OF minvD(1) [OF inv(1)] e'(1)] e(2) e'(2) by simp
    then show ?thesis
      using minvD(8) [OF inv(1), of t t' a] inv(2) assms(3) f by simp
  qed
  moreover have "pc_step m t (InWait k a) = goto m t (mc m) (Woken k a) \<or> (\<exists>t' < n. t' \<noteq> t \<and> filler (pcs m ! t') = Some a)"
    if w: "pcs m ! t = InWait k a" for k a
  proof -
    obtain e where e: "fc_heap (mc m) a = Some e"
      using pinE [OF inv(1), of t a] inv(2) assms(3) w by auto
    show ?thesis
    proof (cases "en_ready e")
      case True
      then show ?thesis
        using e by (simp add: gof_awake_def deref_def)
    next
      case False
      obtain i where i: "i < n" "filler (pcs m ! i) = Some a"
        using minvD(6) [OF inv(1) e False] inv(2) by blast
      then have "i \<noteq> t"
        using w by auto
      then show ?thesis
        using i by blast
    qed
  qed
  ultimately show ?thesis
    by blast
qed

text \<open>
  C26: The budget is kept as far as it can be: the counter of resident bytes is the size of the published entries, and after
  a publication it is within the budget unless every published entry that is left is leased. The scan that starts
  over after every removal removes what one pass from the least recently used end removes.
\<close>

theorem eviction_keeps_budget:
  assumes "cache_reach content budget n m" "n < 2 ^ 32" "t < n" "pcs m ! t = Publish k a" "m_step (Step t) m = Ok m'"
  shows "bytes_resident (mc m') = sum_list (map (resident (mc m')) (fc_lru (mc m'))) \<and>
    (bytes_resident (mc m') \<le> budget_bytes (mc m') \<or> (\<forall>b e. fc_heap (mc m') b = Some e \<longrightarrow> en_ready e \<longrightarrow> en_refcount e \<noteq> 0))"
proof -
  have "allowed content m (Step t)"
    using assms(4) by (simp add: allowed_def)
  then have inv': "minv content m'"
    using cache_reach_minv [OF cache_reach.step [OF assms(1) _ assms(5)] assms(2)] by simp
  then have sum: "bytes_resident (mc m') = sum_list (map (resident (mc m')) (fc_lru (mc m')))"
    using minvD(2) by (simp add: accounted_def)
  have inv: "minv content m" "length (pcs m) = n"
    using cache_reach_minv [OF assms(1,2)] by simp_all
  obtain e where e: "fc_heap (mc m) a = Some e"
    using fillerE [OF inv(1), of t a] inv(2) assms(3,4) by auto
  let ?c = "put_entry a (e\<lparr>en_refcount := en_refcount e + 1, en_ready := True\<rparr>)
    ((mc m)\<lparr>bytes_resident := bytes_resident (mc m) + of_nat (length (en_data e))\<rparr>)"
  have "wf_cache ?c"
    using minvD(1) [OF inv(1)] e by (auto intro: wf_put_entry)
  from evict_if_needed_pass [OF this] have m': "mc m' = evict_pass ?c (rev (fc_lru (mc m)))"
    using assms(3-5) inv(2) e by (simp add: gof_publish_def deref_def goto_def) auto
  have sub: "x \<in> set (fc_lru c)" if "x \<in> set (fc_lru (evict_pass c xs))" for x c xs
    using that by (induction c xs rule: evict_pass.induct) (auto split: if_splits option.splits)
  have "en_refcount f \<noteq> 0" if "evictable (mc m') (en_key f) = None" "fc_heap (mc m') b = Some f" "en_ready f" for b f
    using that wf_cacheD(2) [OF minvD(1) [OF inv'] that(2)] by (auto simp: evictable_def split: if_splits)
  moreover have "evictable (mc m') (en_key f) = None"
    if "\<forall>x \<in> set (rev (fc_lru (mc m))). evictable (mc m') (snd x) = None" "fc_heap (mc m') b = Some f" for b f
    using that(1) wf_cacheD(3) [OF minvD(1) [OF inv'] that(2)] sub unfolding m' by fastforce
  ultimately show ?thesis
    using sum evict_pass_stops [of ?c "rev (fc_lru (mc m))"] unfolding m' by blast
qed

subsection \<open>Executions\<close>

definition example_key :: FrameKey where
  "example_key = \<lparr>fk_artifact = replicate 32 7, fk_tensor_index = 0, fk_frame_index = 3\<rparr>"

definition example_content :: "FrameKey \<Rightarrow> bytes" where
  "example_content k = (if k = example_key then [1, 2] else [])"

lemmas cache_eval = machine_init_def cache_new_def call_step_def is_idle_def gof_lookup_def after_lookup_def goto_def new_entry_def
  deref_def put_entry_def gof_set_failed_def gof_notify_def gof_awake_def release_def drop_entry_def lru_erase_def gof_write_def
  gof_publish_def evict_if_needed_def gof_refresh_def touch_def gof_cleanup_def allowed_def

lemma idle_requests: "replicate 2 Idle = [Idle, Idle]" "replicate 3 Idle = [Idle, Idle, Idle]" "[p, q, r][2 := s] = [p, q, s]"
  by (simp_all add: numeral_2_eq_2 numeral_3_eq_3)

text \<open>One request fills, another waits; the first publishes.\<close>

definition example_acts :: "action list" where
  "example_acts = [Call 0 example_key 2 7, Call 1 example_key 2 8, FillWrite 0 [1, 2], FillDone 0 None]"

definition filled_entry :: "u32 \<Rightarrow> bool \<Rightarrow> Entry" where
  "filled_entry rc ready = \<lparr>en_key = example_key, en_data = [1, 2], en_ready = ready, en_failed = False,
     en_fill_error = \<lparr>ekind = Ok_kind, econtext = []\<rparr>, en_refcount = rc, en_lru_it = 0\<rparr>"

definition example_cache :: "u64 \<Rightarrow> u32 \<Rightarrow> bool \<Rightarrow> FrameCache" where
  "example_cache r rc ready = \<lparr>budget_bytes = 1, fc_map = [example_key \<mapsto> 7], fc_heap = [7 \<mapsto> filled_entry rc ready], fc_lru = [(0, example_key)],
     fc_next_node = 1, bytes_resident = r, fc_hits = 0, fc_misses = 1, single_flight_waits = 1, fc_evictions = 0\<rparr>"

definition example_machine :: machine where
  "example_machine = \<lparr>mc = example_cache 0 1 False, pcs = [Publish example_key 7, InWait example_key 7]\<rparr>"

definition published_machine :: machine where
  "published_machine = \<lparr>mc = example_cache 2 2 True, pcs = [Leased example_key 7, InWait example_key 7]\<rparr>"

lemma example_run:
  "m_run (machine_init 1 2) example_acts = Ok example_machine" "run_allowed example_content (machine_init 1 2) example_acts"
  by (simp_all add: example_acts_def cache_eval example_machine_def example_cache_def filled_entry_def example_content_def idle_requests)

lemma example_publish:
  "m_step (Step 0) example_machine = Ok (published_machine\<lparr>pcs := [NotifyReady example_key 7, InWait example_key 7]\<rparr>)"
  "m_step (Step 0) (published_machine\<lparr>pcs := [NotifyReady example_key 7, InWait example_key 7]\<rparr>) = Ok published_machine"
  by (simp_all add: cache_eval example_machine_def published_machine_def example_cache_def filled_entry_def evict_scan.simps)

lemma example_reach:
  "cache_reach example_content 1 2 example_machine"
  "cache_reach example_content 1 2 (published_machine\<lparr>pcs := [NotifyReady example_key 7, InWait example_key 7]\<rparr>)"
  "cache_reach example_content 1 2 published_machine"
proof -
  show r: "cache_reach example_content 1 2 example_machine"
    by (rule cache_reach_run [OF cache_reach.start example_run(2,1)])
  show r': "cache_reach example_content 1 2 (published_machine\<lparr>pcs := [NotifyReady example_key 7, InWait example_key 7]\<rparr>)"
    by (rule cache_reach.step [OF r _ example_publish(1)]) (simp add: allowed_def example_machine_def)
  show "cache_reach example_content 1 2 published_machine"
    by (rule cache_reach.step [OF r' _ example_publish(2)]) (simp add: allowed_def)
qed

theorem cache_memory_safe_witness: "m_step (Step 1) published_machine \<noteq> Abort UB"
  using cache_memory_safe [OF example_reach(3), of "Step 1"] by (simp add: allowed_def published_machine_def)

theorem lease_sees_content_witness: "lease_bytes 7 (mc published_machine) = Ok [1, 2]"
  using lease_sees_content [OF example_reach(3), of 0 example_key 7] by (simp add: published_machine_def example_content_def)

theorem single_flight_witness:
  "pc_step example_machine 1 (InWait example_key 7) = goto example_machine 1 (mc example_machine) (Woken example_key 7) \<or>
   (\<exists>t' < 2. t' \<noteq> 1 \<and> filler (pcs example_machine ! t') = Some 7)"
  using single_flight [OF example_reach(1), of 1] by (simp add: example_machine_def)

theorem eviction_keeps_budget_witness:
  "bytes_resident (mc published_machine) \<le> budget_bytes (mc published_machine) \<or>
   (\<forall>b e. fc_heap (mc published_machine) b = Some e \<longrightarrow> en_ready e \<longrightarrow> en_refcount e \<noteq> 0)"
proof -
  have "(2 :: nat) < 2 ^ 32" "(0 :: nat) < 2" "pcs example_machine ! 0 = Publish example_key 7"
    by (simp_all add: example_machine_def)
  from eviction_keeps_budget [OF example_reach(1) this example_publish(1), THEN conjunct2] show ?thesis
    by simp
qed

text \<open>
  Note: A fill that fails while another request waits for it ends in a use after free: the waiter drops the last pin, which erases
  and frees the failed entry, and then reads the error from that entry.
\<close>

theorem failed_fill_use_after_free:
  "m_run (machine_init budget 2)
     [Call 0 k 4 7, Call 1 k 4 8, FillDone 0 (Some err), Step 0, Step 0, Step 1, Step 1, Step 1, Step 1] = Abort UB"
  by (simp add: cache_eval)

text \<open>
  A second way to the same end: the filler has set the flag and not yet notified when a waiter sees the flag, drops the last pin and
  frees the entry, so that \<open>notify_all\<close> runs on a destroyed condition variable.
\<close>

lemma failed_fill_notifies_freed:
  "m_run (machine_init budget 2)
     [Call 0 k 4 7, Call 1 k 4 8, FillDone 0 (Some err), Step 0, Step 1, Step 1, Step 1, Step 0] = Abort UB"
  by (simp add: cache_eval)

text \<open>
  And a third: after the waiter has freed the failed entry, the allocator hands the same address to the next fill of the key; the
  failed filler takes that fill for its own, erases it, and the new fill writes to a freed entry.
\<close>

lemma failed_fill_erases_next:
  "m_run (machine_init budget 3)
     [Call 0 k 4 7, Call 1 k 4 8, FillDone 0 (Some err), Step 0, Step 0, Step 1, Step 1, Step 1, Call 2 k 4 7, Step 0, FillWrite 2 [0, 0, 0, 0]] =
   Abort UB"
  by (simp add: cache_eval idle_requests)

end
