(* ===== verification/Mount_Fs.thy ===== *)
theory Mount_Fs
  imports Mount_Cache Codec_Chain
begin

section \<open>The read-only view of one commit\<close>

text \<open>
  \<open>src/modules/mount/src/inode.cpp\<close>, \<open>fs.cpp\<close>, \<open>prefetch.cpp\<close> and the handlers of \<open>fuse_ll.cpp\<close>. The interval table maps a file
  offset to the header block or to a group and an offset in it; \<open>SynapseFs::read\<close> walks the intervals and serves group bytes one cached
  frame of 128 KiB at a time, filling the cache through \<open>codec::read_range\<close>. Here one request runs at a time, so the
  blocks of \<open>get_or_fill\<close> are run one after the other; \<open>Mount_Cache\<close> is about their interleaving.
  \<open>alloc\<close> stands for the allocator.
  The main results: the interval table finds exactly the entry that covers an offset; every read returns exactly the
  bytes of the file that checkout writes, from any offset and whatever the cache has kept or evicted; the
  read-ahead starts only after the promised number of in-order reads; every request is answered once, apart from
  \<open>forget_multi\<close>.
\<close>

subsection \<open>One request at the cache\<close>

text \<open>\<open>fill\<close> writes to the span of the new entry and may change the state \<open>s\<close> of its environment.\<close>

definition fill_and_publish ::
  "FrameKey \<Rightarrow> addr \<Rightarrow> ('s \<Rightarrow> bytes \<Rightarrow> 's \<times> bytes \<times> unit res) \<Rightarrow> FrameCache \<Rightarrow> 's \<Rightarrow> FrameCache \<times> 's \<times> addr res" where
  "fill_and_publish key a fill c s =
     (case deref c a of
        Ok e \<Rightarrow>
          (case fill s (en_data e) of
             (s', data, Ok _) \<Rightarrow>
               (case SFS_TRY (gof_write a data c) (gof_publish a) of
                  Ok c' \<Rightarrow> (c', s', Ok a)
                | Err err \<Rightarrow> (c, s', Err err)
                | Abort x \<Rightarrow> (c, s', Abort x))
           | (s', data, Err err) \<Rightarrow>
               (case SFS_TRY (gof_write a data c) (\<lambda>c. SFS_TRY (gof_set_failed a err c) (gof_cleanup key a)) of
                  Ok c' \<Rightarrow> (c', s', Err err)
                | Err err \<Rightarrow> (c, s', Err err)
                | Abort x \<Rightarrow> (c, s', Abort x))
           | (s', data, Abort x) \<Rightarrow> (c, s', Abort x))
      | Err err \<Rightarrow> (c, s, Err err)
      | Abort x \<Rightarrow> (c, s, Abort x))"

definition get_or_fill ::
  "FrameKey \<Rightarrow> u64 \<Rightarrow> addr \<Rightarrow> ('s \<Rightarrow> bytes \<Rightarrow> 's \<times> bytes \<times> unit res) \<Rightarrow> FrameCache \<Rightarrow> 's \<Rightarrow> FrameCache \<times> 's \<times> addr res" where
  "get_or_fill key size_hint fresh fill c s =
     (case gof_lookup key size_hint fresh c of
        Ok (c1, LHit a) \<Rightarrow> (c1, s, Ok a)
      | Ok (c1, LFailed err) \<Rightarrow> (c1, s, Err err)
      | Ok (c1, LInFlight a) \<Rightarrow> (c1, s, Abort NoFuel)
      | Ok (c1, LMiss a) \<Rightarrow> fill_and_publish key a fill c1 s
      | Err err \<Rightarrow> (c, s, Err err)
      | Abort x \<Rightarrow> (c, s, Abort x))"

subsection \<open>The interval table\<close>

record Interval =
  iv_file_offset :: u64
  iv_length :: u64
  iv_group_offset :: u64
  iv_group_index :: u32
  iv_is_header :: bool

record IntervalTable =
  it_intervals :: "Interval list"
  it_groups :: "string list"
  it_total_bytes :: u64

fun group_position :: "string list \<Rightarrow> string \<Rightarrow> nat" where
  "group_position [] name = 0"
| "group_position (g # gs) name = (if g = name then 0 else Suc (group_position gs name))"

definition group_index_for :: "string list \<Rightarrow> string \<Rightarrow> string list \<times> u32" where
  "group_index_for groups name =
     (let i = group_position groups name
      in if i < length groups then (groups, of_nat i) else (groups @ [name], of_nat (length groups)))"

definition build_entry ::
  "BufferEntry \<Rightarrow> string list \<times> u64 list \<times> Interval list \<Rightarrow> string list \<times> u64 list \<times> Interval list" where
  "build_entry entry = (\<lambda>(groups, group_cursor, intervals).
     let (groups, gi) = group_index_for groups (be_group entry);
         group_cursor = (if length group_cursor \<le> unat gi then group_cursor @ replicate (unat gi + 1 - length group_cursor) 0 else group_cursor);
         iv = \<lparr>iv_file_offset = be_off entry, iv_length = be_nbytes entry, iv_group_offset = group_cursor ! unat gi, iv_group_index = gi,
               iv_is_header = False\<rparr>
     in (groups, group_cursor[unat gi := group_cursor ! unat gi + be_nbytes entry], intervals @ [iv]))"

definition interval_table_build :: "Manifest \<Rightarrow> IntervalTable res" where
  "interval_table_build m =
     SFS_TRY (manifest_validate m) (\<lambda>_.
     let header_len = (if m_buffer m = [] then fi_total_bytes (m_file m) else be_off (hd (m_buffer m)));
         hdr = (if 0 < header_len
                then [\<lparr>iv_file_offset = 0, iv_length = header_len, iv_group_offset = 0, iv_group_index = 0, iv_is_header = True\<rparr>]
                else []);
         (groups, _, intervals) = fold build_entry (m_buffer m) ([], [], hdr)
     in Ok \<lparr>it_intervals = sort_key iv_file_offset intervals, it_groups = groups, it_total_bytes = fi_total_bytes (m_file m)\<rparr>)"

text \<open>\<open>std::upper_bound\<close> over the sorted intervals, then one step back.\<close>

definition interval_find :: "IntervalTable \<Rightarrow> u64 \<Rightarrow> Interval option" where
  "interval_find table offset =
     (if it_total_bytes table \<le> offset \<or> it_intervals table = [] then None
      else let it = length (takeWhile (\<lambda>iv. \<not> offset < iv_file_offset iv) (it_intervals table))
      in if it = 0 then None
         else let iv = it_intervals table ! (it - 1)
         in if offset < iv_file_offset iv \<or> iv_file_offset iv + iv_length iv \<le> offset then None else Some iv)"

definition interval_group_name :: "IntervalTable \<Rightarrow> u32 \<Rightarrow> string" where
  "interval_group_name table index = (if length (it_groups table) \<le> unat index then [] else it_groups table ! unat index)"

subsection \<open>Reading\<close>

definition kFrameBytes :: u64 where "kFrameBytes = 128 * 1024"

record DaemonStats =
  st_reads :: u64
  st_bytes_served :: u64
  st_frames_decompressed :: u64
  st_digest_failures :: u64
  st_prefetched_frames :: u64

record SynapseFs =
  fs_ctx :: ReadCtx
  fs_table :: IntervalTable
  fs_cache :: FrameCache
  fs_file_name :: string
  fs_file_size :: u64
  fs_header_block :: Oid
  fs_artifact_oid :: Oid
  fs_stats :: DaemonStats

definition fs_create :: "'j Ext \<Rightarrow> ReadCtx \<Rightarrow> Manifest \<Rightarrow> u64 \<Rightarrow> DaemonStats \<Rightarrow> SynapseFs res" where
  "fs_create X ctx m cache_bytes stats =
     SFS_TRY (manifest_validate m) (\<lambda>_.
     SFS_TRY (interval_table_build m) (\<lambda>table.
     if rc_blocks ctx = None then SFS_ERR Internal []
     else SFS_TRY (manifest_oid X m) (\<lambda>oid.
       Ok \<lparr>fs_ctx = ctx\<lparr>rc_manifest := Some m\<rparr>, fs_table = table, fs_cache = cache_new cache_bytes, fs_file_name = fi_name (m_file m),
           fs_file_size = fi_total_bytes (m_file m), fs_header_block = fi_header_block (m_file m),
           fs_artifact_oid = oid, fs_stats = stats\<rparr>)))"

text \<open>The \<open>fill\<close> callback: one \<open>read_range\<close> of a whole frame. The count it returns is not looked at.\<close>

definition fs_fill ::
  "'j Ext \<Rightarrow> Isa \<Rightarrow> nat \<Rightarrow> ReadCtx \<Rightarrow> string \<Rightarrow> u64 \<Rightarrow> DaemonStats \<Rightarrow> bytes \<Rightarrow> DaemonStats \<times> bytes \<times> unit res" where
  "fs_fill X isa fuel ctx group_name frame_start stats buf =
     (case read_range X isa fuel ctx group_name frame_start buf of
        Ok (b, n) \<Rightarrow> (stats\<lparr>st_frames_decompressed := st_frames_decompressed stats + 1\<rparr>, b, Ok ())
      | Err e \<Rightarrow> (stats, buf, Err e)
      | Abort x \<Rightarrow> (stats, buf, Abort x))"

text \<open>One frame's share of a read: look up or fill, copy out, drop the lease.\<close>

definition fs_read_frame ::
  "'j Ext \<Rightarrow> Isa \<Rightarrow> nat \<Rightarrow> (FrameCache \<Rightarrow> addr) \<Rightarrow> SynapseFs \<Rightarrow> Interval \<Rightarrow> u64 \<Rightarrow> nat \<Rightarrow> SynapseFs \<times> bytes res" where
  "fs_read_frame X isa fuel alloc fs iv within remaining =
     (let avail_in_interval = iv_length iv - within;
          group_name = interval_group_name (fs_table fs) (iv_group_index iv);
          group_off = iv_group_offset iv + within;
          frame_idx = group_off div kFrameBytes;
          frame_start = frame_idx * kFrameBytes;
          offset_in_frame = group_off - frame_start;
          avail_in_frame = kFrameBytes - offset_in_frame;
          want = min remaining (min (unat avail_in_interval) (unat avail_in_frame));
          key = \<lparr>fk_artifact = fs_artifact_oid fs, fk_tensor_index = iv_group_index iv, fk_frame_index = ucast frame_idx\<rparr>
      in case get_or_fill key kFrameBytes (alloc (fs_cache fs)) (fs_fill X isa fuel (fs_ctx fs) group_name frame_start) (fs_cache fs) (fs_stats fs) of
           (c, stats, Err e) \<Rightarrow>
             (fs\<lparr>fs_cache := c, fs_stats := (if is_integrity (ekind e) then stats\<lparr>st_digest_failures := st_digest_failures stats + 1\<rparr> else stats)\<rparr>,
              Err e)
         | (c, stats, Abort x) \<Rightarrow> (fs\<lparr>fs_cache := c, fs_stats := stats\<rparr>, Abort x)
         | (c, stats, Ok a) \<Rightarrow>
             (let fs1 = fs\<lparr>fs_cache := c, fs_stats := stats\<rparr>
              in case lease_bytes a c of
                   Ok b \<Rightarrow>
                     if length b < unat offset_in_frame + want then (fs1, Abort UB)
                     else (case release a c of
                             Ok c' \<Rightarrow> (fs1\<lparr>fs_cache := c'\<rparr>, Ok (slice b (unat offset_in_frame) want))
                           | Err e \<Rightarrow> (fs1, Err e)
                           | Abort x \<Rightarrow> (fs1, Abort x))
                 | Err e \<Rightarrow> (fs1, Err e)
                 | Abort x \<Rightarrow> (fs1, Abort x)))"

text \<open>
  The loop of \<open>read\<close>; \<open>copied\<close> bytes of \<open>out\<close> have been copied. An iteration that copies nothing would repeat for ever: \<open>Abort NoFuel\<close>.
\<close>

definition serve_header :: "SynapseFs \<Rightarrow> Interval \<Rightarrow> u64 \<Rightarrow> nat \<Rightarrow> bytes \<Rightarrow> (bytes \<times> u64) res" where
  "serve_header fs iv within remaining buf =
     (case rc_blocks (fs_ctx fs) of
        None \<Rightarrow> Abort UB
      | Some blocks \<Rightarrow>
          let want = min remaining (unat (iv_length iv - within))
          in bi_read_range blocks (fs_header_block fs) KHeader within (take want buf))"

function fs_read_loop ::
  "'j Ext \<Rightarrow> Isa \<Rightarrow> nat \<Rightarrow> (FrameCache \<Rightarrow> addr) \<Rightarrow> SynapseFs \<Rightarrow> u64 \<Rightarrow> bytes \<Rightarrow> nat \<Rightarrow> SynapseFs \<times> (bytes \<times> nat) res" where
  "fs_read_loop X isa fuel alloc fs cur out copied =
     (if length out \<le> copied \<or> fs_file_size fs \<le> cur then (fs, Ok (out, copied))
      else case interval_find (fs_table fs) cur of
        None \<Rightarrow> (fs, Ok (out, copied))
      | Some iv \<Rightarrow>
          let within = cur - iv_file_offset iv
          in if iv_is_header iv
             then (case serve_header fs iv within (length out - copied) (drop copied out) of
                     Err e \<Rightarrow> (fs, Err e)
                   | Abort x \<Rightarrow> (fs, Abort x)
                   | Ok (b, n) \<Rightarrow>
                       if length out - copied < length b \<or> length out - copied < unat n then (fs, Abort UB)
                       else if n = 0 then (fs, Ok (memcpy_at out copied b, copied))
                       else fs_read_loop X isa fuel alloc fs (cur + n) (memcpy_at out copied b) (copied + unat n))
             else (case fs_read_frame X isa fuel alloc fs iv within (length out - copied) of
                     (fs1, Err e) \<Rightarrow> (fs1, Err e)
                   | (fs1, Abort x) \<Rightarrow> (fs1, Abort x)
                   | (fs1, Ok b) \<Rightarrow>
                       if length out - copied < length b then (fs1, Abort UB)
                       else if b = [] then (fs1, Abort NoFuel)
                       else fs_read_loop X isa fuel alloc fs1 (cur + of_nat (length b)) (memcpy_at out copied b) (copied + length b)))"
  by pat_completeness auto
termination
  by (relation "measure (\<lambda>(X, isa, fuel, alloc, fs, cur, out, copied). length out - copied)")
    (auto simp: unat_gt_0 not_less diff_less_mono2 simp flip: length_greater_0_conv)

declare fs_read_loop.simps [simp del]

definition fs_read ::
  "'j Ext \<Rightarrow> Isa \<Rightarrow> nat \<Rightarrow> (FrameCache \<Rightarrow> addr) \<Rightarrow> SynapseFs \<Rightarrow> u64 \<Rightarrow> bytes \<Rightarrow> SynapseFs \<times> (bytes \<times> nat) res" where
  "fs_read X isa fuel alloc fs offset out =
     (let fs0 = fs\<lparr>fs_stats := (fs_stats fs)\<lparr>st_reads := st_reads (fs_stats fs) + 1\<rparr>\<rparr>
      in if fs_file_size fs0 \<le> offset \<or> out = [] then (fs0, Ok (out, 0))
         else case fs_read_loop X isa fuel alloc fs0 offset out 0 of
           (fs1, Ok (b, n)) \<Rightarrow>
             (fs1\<lparr>fs_stats := (fs_stats fs1)\<lparr>st_bytes_served := st_bytes_served (fs_stats fs1) + of_nat n\<rparr>\<rparr>, Ok (b, n))
         | (fs1, r) \<Rightarrow> (fs1, r))"

subsection \<open>Read-ahead\<close>

record PrefetchState =
  pf_max_ahead_frames :: u32
  pf_trigger_streak :: u32
  pf_enabled :: bool
  pf_next_expected :: u64
  pf_streak :: u32

definition prefetch_new :: "u32 \<Rightarrow> u32 \<Rightarrow> bool \<Rightarrow> PrefetchState" where
  "prefetch_new ahead trigger enabled = \<lparr>pf_max_ahead_frames = ahead, pf_trigger_streak = trigger, pf_enabled = enabled,
     pf_next_expected = 0, pf_streak = 0\<rparr>"

definition prefetch_sequential :: "PrefetchState \<Rightarrow> bool" where
  "prefetch_sequential p \<longleftrightarrow> pf_trigger_streak p \<le> pf_streak p"

definition prefetch_observe :: "u64 \<Rightarrow> u64 \<Rightarrow> PrefetchState \<Rightarrow> PrefetchState \<times> u32" where
  "prefetch_observe offset len p =
     (if \<not> pf_enabled p then (p, 0)
      else let streak = (if offset = pf_next_expected p
                         then (if pf_streak p < pf_trigger_streak p then pf_streak p + 1 else pf_streak p)
                         else 0);
               p1 = p\<lparr>pf_streak := streak, pf_next_expected := offset + len\<rparr>
           in (p1, if prefetch_sequential p1 then pf_max_ahead_frames p1 else 0))"

definition prefetch_reset :: "PrefetchState \<Rightarrow> PrefetchState" where
  "prefetch_reset p = p\<lparr>pf_next_expected := 0, pf_streak := 0\<rparr>"

subsection \<open>The FUSE handlers\<close>

datatype errno = E_OK | ENOENT | EACCES | ENOSPC | EINTR | EROFS | EIO | EISDIR | ENOTDIR

definition errno_for :: "error \<Rightarrow> errno" where
  "errno_for e = (case ekind e of
     Ok_kind \<Rightarrow> E_OK | NoSuchFile \<Rightarrow> ENOENT | PermissionDenied \<Rightarrow> EACCES | NoSpace \<Rightarrow> ENOSPC | Interrupted \<Rightarrow> EINTR
   | ReadOnlyFilesystem \<Rightarrow> EROFS | _ \<Rightarrow> EIO)"

definition kRootIno :: u64 where "kRootIno = 1"
definition kFileIno :: u64 where "kFileIno = 2"

datatype reply = RErr errno | REntry u64 u64 | RAttr u64 u64 | ROpen addr | RBuf bytes | RDir "(u64 \<times> string) list" | RNone

text \<open>\<open>open_files\<close> are the \<open>OpenFile\<close> objects that file handles point to; a request's replies are collected in order.\<close>

record MountCtx =
  mx_fs :: SynapseFs
  mx_max_read :: u32
  mx_lookup_count :: u64
  mx_open_files :: "addr \<rightharpoonup> PrefetchState"

type_synonym handler = "MountCtx \<times> reply list res"

definition ll_lookup :: "MountCtx \<Rightarrow> u64 \<Rightarrow> string \<Rightarrow> handler" where
  "ll_lookup ctx parent name =
     (if parent \<noteq> kRootIno \<or> fs_file_name (mx_fs ctx) \<noteq> name then (ctx, Ok [RErr ENOENT])
      else (ctx\<lparr>mx_lookup_count := mx_lookup_count ctx + 1\<rparr>, Ok [REntry kFileIno (fs_file_size (mx_fs ctx))]))"

definition fill_attr_size :: "MountCtx \<Rightarrow> u64 \<Rightarrow> u64" where
  "fill_attr_size ctx ino = (if ino = kRootIno then 0 else fs_file_size (mx_fs ctx))"

definition ll_getattr :: "MountCtx \<Rightarrow> u64 \<Rightarrow> handler" where
  "ll_getattr ctx ino =
     (if ino \<noteq> kRootIno \<and> ino \<noteq> kFileIno then (ctx, Ok [RErr ENOENT]) else (ctx, Ok [RAttr ino (fill_attr_size ctx ino)]))"

text \<open>\<open>rdonly\<close>: the access mode of the flags is \<open>O_RDONLY\<close>; \<open>fresh\<close> is the address of the new \<open>OpenFile\<close>.\<close>

definition ll_open :: "MountCtx \<Rightarrow> u64 \<Rightarrow> bool \<Rightarrow> addr \<Rightarrow> handler" where
  "ll_open ctx ino rdonly fresh =
     (if ino = kRootIno then (ctx, Ok [RErr EISDIR])
      else if ino \<noteq> kFileIno then (ctx, Ok [RErr ENOENT])
      else if \<not> rdonly then (ctx, Ok [RErr EROFS])
      else (ctx\<lparr>mx_open_files := (mx_open_files ctx)(fresh \<mapsto> prefetch_new 4 3 True)\<rparr>, Ok [ROpen fresh]))"

text \<open>A null file handle is \<open>None\<close>; deleting it does nothing.\<close>

definition ll_release :: "MountCtx \<Rightarrow> addr option \<Rightarrow> handler" where
  "ll_release ctx fh =
     (case fh of
        None \<Rightarrow> (ctx, Ok [RErr E_OK])
      | Some a \<Rightarrow> if mx_open_files ctx a = None then (ctx, Abort UB)
                  else (ctx\<lparr>mx_open_files := (mx_open_files ctx)(a := None)\<rparr>, Ok [RErr E_OK]))"

fun warm_loop ::
  "'j Ext \<Rightarrow> Isa \<Rightarrow> nat \<Rightarrow> (FrameCache \<Rightarrow> addr) \<Rightarrow> nat \<Rightarrow> u64 \<Rightarrow> bytes \<Rightarrow> SynapseFs \<Rightarrow> SynapseFs \<times> unit res" where
  "warm_loop X isa fuel alloc 0 off scratch fs = (fs, Ok ())"
| "warm_loop X isa fuel alloc (Suc i) off scratch fs =
     (if off < fs_file_size fs
      then (case fs_read X isa fuel alloc fs off scratch of
              (fs1, Ok (b, n)) \<Rightarrow> if n = 0 then (fs1, Ok ()) else warm_loop X isa fuel alloc i (off + of_nat n) b fs1
            | (fs1, Err e) \<Rightarrow> (fs1, Ok ())
            | (fs1, Abort x) \<Rightarrow> (fs1, Abort x))
      else (fs, Ok ()))"

definition warm_ahead ::
  "'j Ext \<Rightarrow> Isa \<Rightarrow> nat \<Rightarrow> (FrameCache \<Rightarrow> addr) \<Rightarrow> u32 \<Rightarrow> u64 \<Rightarrow> u32 \<Rightarrow> SynapseFs \<Rightarrow> SynapseFs \<times> unit res" where
  "warm_ahead X isa fuel alloc max_read start_offset frames fs =
     (if frames = 0 \<or> fs_file_size fs \<le> start_offset then (fs, Ok ())
      else warm_loop X isa fuel alloc (unat frames) start_offset (replicate (unat max_read) 0) fs)"

definition ll_read ::
  "'j Ext \<Rightarrow> Isa \<Rightarrow> nat \<Rightarrow> (FrameCache \<Rightarrow> addr) \<Rightarrow> MountCtx \<Rightarrow> u64 \<Rightarrow> nat \<Rightarrow> u64 \<Rightarrow> addr option \<Rightarrow> handler" where
  "ll_read X isa fuel alloc ctx ino sz off fh =
     (if ino \<noteq> kFileIno then (ctx, Ok [RErr ENOENT])
      else case fs_read X isa fuel alloc (mx_fs ctx) off (replicate sz 0) of
        (fs1, Err e) \<Rightarrow> (ctx\<lparr>mx_fs := fs1\<rparr>, Ok [RErr (errno_for e)])
      | (fs1, Abort x) \<Rightarrow> (ctx\<lparr>mx_fs := fs1\<rparr>, Abort x)
      | (fs1, Ok (b, n)) \<Rightarrow>
          let ctx1 = ctx\<lparr>mx_fs := fs1\<rparr>; reply = RBuf (take n b)
          in case fh of
               None \<Rightarrow> (ctx1, Ok [reply])
             | Some a \<Rightarrow>
                 (case mx_open_files ctx1 a of
                    None \<Rightarrow> (ctx1, Abort UB)
                  | Some p \<Rightarrow>
                      let (p1, ahead) = prefetch_observe off (of_nat n) p;
                          ctx2 = ctx1\<lparr>mx_open_files := (mx_open_files ctx1)(a \<mapsto> p1)\<rparr>
                      in if 0 < ahead
                         then let stats = fs_stats (mx_fs ctx2);
                                  fs2 = (mx_fs ctx2)\<lparr>fs_stats := stats\<lparr>st_prefetched_frames := st_prefetched_frames stats + ucast ahead\<rparr>\<rparr>
                              in (case warm_ahead X isa fuel alloc (mx_max_read ctx2) (off + of_nat n) ahead fs2 of
                                    (fs3, Ok _) \<Rightarrow> (ctx2\<lparr>mx_fs := fs3\<rparr>, Ok [reply])
                                  | (fs3, Err e) \<Rightarrow> (ctx2\<lparr>mx_fs := fs3\<rparr>, Err e)
                                  | (fs3, Abort x) \<Rightarrow> (ctx2\<lparr>mx_fs := fs3\<rparr>, Abort x))
                         else (ctx2, Ok [reply])))"

definition ll_forget :: "MountCtx \<Rightarrow> u64 \<Rightarrow> u64 \<Rightarrow> handler" where
  "ll_forget ctx ino nlookup =
     (if ino = kFileIno
      then let cur = mx_lookup_count ctx
           in (if 0 < cur then ctx\<lparr>mx_lookup_count := (if cur \<le> nlookup then 0 else cur - nlookup)\<rparr> else ctx, Ok [RNone])
      else (ctx, Ok [RNone]))"

fun ll_forget_multi :: "MountCtx \<Rightarrow> (u64 \<times> u64) list \<Rightarrow> handler" where
  "ll_forget_multi ctx [] = (ctx, Ok [])"
| "ll_forget_multi ctx ((ino, nlookup) # rest) =
     (let (ctx1, r1) = ll_forget ctx ino nlookup; (ctx2, r2) = ll_forget_multi ctx1 rest
      in (ctx2, SFS_TRY r1 (\<lambda>rs1. SFS_TRY r2 (\<lambda>rs2. Ok (rs1 @ rs2)))))"

definition ll_opendir :: "MountCtx \<Rightarrow> u64 \<Rightarrow> handler" where
  "ll_opendir ctx ino = (if ino \<noteq> kRootIno then (ctx, Ok [RErr ENOTDIR]) else (ctx, Ok [ROpen 0]))"

definition ll_releasedir :: "MountCtx \<Rightarrow> handler" where
  "ll_releasedir ctx = (ctx, Ok [RErr E_OK])"

text \<open>\<open>entry_size\<close> stands for \<open>fuse_add_direntry\<close>, which returns the size that an entry takes.\<close>

fun readdir_loop :: "(string \<Rightarrow> nat) \<Rightarrow> nat \<Rightarrow> nat \<Rightarrow> (u64 \<times> string) list \<Rightarrow> (u64 \<times> string) list" where
  "readdir_loop entry_size sz used [] = []"
| "readdir_loop entry_size sz used ((ino, name) # rest) =
     (if entry_size name = 0 \<or> sz < used + entry_size name then []
      else (ino, name) # readdir_loop entry_size sz (used + entry_size name) rest)"

definition ll_readdir :: "(string \<Rightarrow> nat) \<Rightarrow> MountCtx \<Rightarrow> u64 \<Rightarrow> nat \<Rightarrow> u64 \<Rightarrow> handler" where
  "ll_readdir entry_size ctx ino sz off =
     (if ino \<noteq> kRootIno then (ctx, Ok [RErr ENOTDIR])
      else (ctx, Ok [RDir (readdir_loop entry_size sz 0
        (drop (unat off) [(kRootIno, ''.''), (kRootIno, ''..''), (kFileIno, fs_file_name (mx_fs ctx))]))]))"

subsection \<open>A cache at rest\<close>

text \<open>Between two reads the only request is idle: every entry is published and holds its content, none is leased.\<close>

definition quiet :: "(FrameKey \<Rightarrow> bytes) \<Rightarrow> FrameCache \<Rightarrow> bool" where
  "quiet content c \<longleftrightarrow> minv content \<lparr>mc = c, pcs = [Idle]\<rparr>"

text \<open>A request that holds a lease on the content of \<open>key\<close>.\<close>

definition leased :: "(FrameKey \<Rightarrow> bytes) \<Rightarrow> FrameKey \<Rightarrow> addr \<Rightarrow> FrameCache \<Rightarrow> bool" where
  "leased content key a c \<longleftrightarrow> minv content \<lparr>mc = c, pcs = [Leased key a]\<rparr>"

lemma quiet_new: "quiet content (cache_new budget)"
  using minv_init [of 1 content budget] by (simp add: quiet_def machine_init_def)

lemma leased_bytes:
  assumes "leased content key a c"
  shows "lease_bytes a c = Ok (content key)" "\<exists>c'. release a c = Ok c' \<and> quiet content c'"
proof -
  let ?m = "\<lparr>mc = c, pcs = [Leased key a]\<rparr>"
  have inv: "minv content ?m"
    using assms by (simp add: leased_def)
  obtain e where e: "fc_heap c a = Some e" "en_key e = key" "en_ready e"
    using pinE [OF inv, of 0 a] by auto
  then show "lease_bytes a c = Ok (content key)"
    using minvD(4) [OF inv, of a e] by (simp add: lease_bytes_def deref_def entry_ok_def)
  show "\<exists>c'. release a c = Ok c' \<and> quiet content c'"
    using step_Leased [OF inv, of 0 key a] by (auto simp: goto_def quiet_def)
qed

lemma fill_and_publish_leased:
  assumes inv: "minv content \<lparr>mc = c, pcs = [Filling key a]\<rparr>" and e: "fc_heap c a = Some e"
    and fill: "fill s (en_data e) = (s', content key, Ok ())" "length (content key) = length (en_data e)"
  shows "\<exists>c'. fill_and_publish key a fill c s = (c', s', Ok a) \<and> leased content key a c'"
proof -
  let ?m = "\<lparr>mc = c, pcs = [Filling key a]\<rparr>"
  have "allowed content ?m (FillWrite 0 (content key))"
    using e fill(2) by (simp add: allowed_def)
  from step_FillWrite [OF inv _ _ this, of key a] obtain c1 where c1: "gof_write a (content key) c = Ok c1"
    "minv content \<lparr>mc = c1, pcs = [Filling key a]\<rparr>"
    by auto
  have "map_option en_data (fc_heap c1 a) = Some (content key)"
    using c1(1) e fill(2) by (auto simp: gof_write_def deref_def)
  then have "minv content \<lparr>mc = c1, pcs = [Publish key a]\<rparr>"
    using step_FillDone [OF c1(2), of 0 key a None] by (simp add: allowed_def)
  from step_Publish [OF this, of 0 key a] obtain c2 where c2: "gof_publish a c1 = Ok c2"
    "minv content \<lparr>mc = c2, pcs = [NotifyReady key a]\<rparr>"
    by (auto simp: goto_def)
  have "leased content key a c2"
    using step_NotifyReady [OF c2(2), of 0 key a] by (auto simp: goto_def leased_def gof_notify_def)
  then show ?thesis
    using c1(1) c2(1) e fill(1) by (simp add: fill_and_publish_def deref_def)
qed

text \<open>
  A request for a key ends with a lease on its content when the fill, if it is needed, produces that content.
\<close>

lemma get_or_fill_leased:
  assumes q: "quiet content c" and fresh: "fc_heap c fresh = None" and hint: "unat hint < 2 ^ 63"
    and fill: "fill s (replicate (unat hint) 0) = (s', content key, Ok ())" "length (content key) = unat hint"
  shows "\<exists>c' s'' a. get_or_fill key hint fresh fill c s = (c', s'', Ok a) \<and> leased content key a c'"
proof -
  let ?m = "\<lparr>mc = c, pcs = [Idle]\<rparr>"
  have inv: "minv content ?m"
    using q by (simp add: quiet_def)
  have "gof_lookup key hint fresh c \<noteq> Abort Throw"
    using hint by (auto simp: gof_lookup_def deref_def touch_def SFS_TRY_Abort_iff split: option.splits)
  then obtain c1 r where r: "gof_lookup key hint fresh c = Ok (c1, r)" "minv content \<lparr>mc = c1, pcs = [after_lookup key r]\<rparr>"
    using step_Call [OF inv, of 0 fresh key hint] fresh by (auto simp: is_idle_def)
  show ?thesis
  proof (cases "fc_map c key")
    case None
    then have c1: "r = LMiss fresh" "fc_heap c1 fresh = Some (new_entry key hint (fc_next_node c))"
      using r(1) hint by (auto simp: gof_lookup_def)
    have "\<exists>c'. fill_and_publish key fresh fill c1 s = (c', s', Ok fresh) \<and> leased content key fresh c'"
      using r(2) c1 fill by (intro fill_and_publish_leased) (auto simp: after_lookup_def new_entry_def)
    then show ?thesis
      using r(1) c1(1) by (auto simp: get_or_fill_def)
  next
    case (Some a)
    obtain e where e: "fc_heap c a = Some e"
      using wf_cacheD(1) [OF minvD(1) [OF inv], of key a] Some by auto
    have "en_ready e"
      using minvD(6) [OF inv, of a e] e by auto
    then have "r = LHit a"
      using r(1) Some e by (auto simp: gof_lookup_def deref_def)
    then show ?thesis
      using r by (auto simp: get_or_fill_def after_lookup_def leased_def)
  qed
qed

subsection \<open>The table of a layout\<close>

text \<open>Intervals that follow one another without a gap from \<open>a\<close> to \<open>b\<close>.\<close>

fun spans :: "Interval list \<Rightarrow> nat \<Rightarrow> nat \<Rightarrow> bool" where
  "spans [] a b \<longleftrightarrow> a = b"
| "spans (iv # ivs) a b \<longleftrightarrow> unat (iv_file_offset iv) = a \<and> 0 < unat (iv_length iv) \<and> spans ivs (a + unat (iv_length iv)) b"

lemma spans_le: "spans ivs a b \<Longrightarrow> a \<le> b"
  by (induction ivs arbitrary: a) fastforce+

lemma spans_offset: "spans ivs a b \<Longrightarrow> iv \<in> set ivs \<Longrightarrow> a \<le> unat (iv_file_offset iv) \<and> unat (iv_file_offset iv) + unat (iv_length iv) \<le> b"
  by (induction ivs arbitrary: a) (auto dest: spans_le, fastforce+)

lemma spans_sorted: "spans ivs a b \<Longrightarrow> sorted (map iv_file_offset ivs)"
proof (induction ivs arbitrary: a)
  case (Cons iv ivs)
  have "unat (iv_file_offset iv) \<le> unat (iv_file_offset x)" if "x \<in> set ivs" for x
    using spans_offset [of ivs "a + unat (iv_length iv)" b x] Cons.prems that by simp
  then show ?case
    using Cons by (auto simp: word_le_nat_alt)
qed simp

lemma sort_key_sorted: "sorted (map f xs) \<Longrightarrow> sort_key f xs = xs"
  by (induction xs) (simp_all add: insort_is_Cons)

lemma spans_find:
  assumes "spans ivs a b" "a \<le> unat x" "unat x < b"
  shows "\<exists>pre iv. takeWhile (\<lambda>iv. \<not> x < iv_file_offset iv) ivs = pre @ [iv] \<and> iv \<in> set ivs \<and>
    unat (iv_file_offset iv) \<le> unat x \<and> unat x < unat (iv_file_offset iv) + unat (iv_length iv)"
  using assms
proof (induction ivs arbitrary: a)
  case (Cons iv ivs)
  show ?case
  proof (cases "unat x < a + unat (iv_length iv)")
    case True
    have "takeWhile (\<lambda>iv. \<not> x < iv_file_offset iv) ivs = []"
      using Cons.prems(1) True by (cases ivs) (auto simp: word_less_nat_alt)
    then show ?thesis
      using Cons.prems True by (intro exI [of _ "[]"] exI [of _ iv]) (simp add: word_less_nat_alt)
  next
    case False
    then obtain pre iv' where "takeWhile (\<lambda>iv. \<not> x < iv_file_offset iv) ivs = pre @ [iv']" "iv' \<in> set ivs"
      "unat (iv_file_offset iv') \<le> unat x" "unat x < unat (iv_file_offset iv') + unat (iv_length iv')"
      using Cons.IH [of "a + unat (iv_length iv)"] Cons.prems by auto
    then show ?thesis
      using Cons.prems by (intro exI [of _ "iv # pre"] exI [of _ iv']) (simp add: word_less_nat_alt)
  qed
qed simp

lemma interval_find_spans:
  assumes "spans (it_intervals table) 0 N" "unat (it_total_bytes table) = N" "unat x < N" "N < 2 ^ 64"
  shows "\<exists>iv \<in> set (it_intervals table). interval_find table x = Some iv \<and>
    unat (iv_file_offset iv) \<le> unat x \<and> unat x < unat (iv_file_offset iv) + unat (iv_length iv)"
proof -
  obtain pre iv where iv: "takeWhile (\<lambda>iv. \<not> x < iv_file_offset iv) (it_intervals table) = pre @ [iv]" "iv \<in> set (it_intervals table)"
    "unat (iv_file_offset iv) \<le> unat x" "unat x < unat (iv_file_offset iv) + unat (iv_length iv)"
    using spans_find [OF assms(1) _ assms(3)] by auto
  have "it_intervals table ! length pre = iv"
    using takeWhile_nth [of "length pre" "\<lambda>iv. \<not> x < iv_file_offset iv" "it_intervals table"] iv(1) by (simp add: nth_append)
  moreover have "unat (iv_file_offset iv + iv_length iv) = unat (iv_file_offset iv) + unat (iv_length iv)"
    using spans_offset [OF assms(1) iv(2)] assms(4) by (simp add: unat_word_ariths)
  ultimately show ?thesis
    using iv assms(2,3) by (auto simp: interval_find_def Let_def word_le_nat_alt word_less_nat_alt not_le)
qed

text \<open>The layout of a buffer from offset \<open>a\<close> on, and the intervals of entries with different groups.\<close>

fun laid_out :: "BufferEntry list \<Rightarrow> nat \<Rightarrow> nat \<Rightarrow> bool" where
  "laid_out [] a b \<longleftrightarrow> a = b"
| "laid_out (e # es) a b \<longleftrightarrow> unat (be_off e) = a \<and> 0 < unat (be_nbytes e) \<and> laid_out es (a + unat (be_nbytes e)) b"

definition entry_interval :: "nat \<Rightarrow> BufferEntry \<Rightarrow> Interval" where
  "entry_interval i e = \<lparr>iv_file_offset = be_off e, iv_length = be_nbytes e, iv_group_offset = 0, iv_group_index = of_nat i, iv_is_header = False\<rparr>"

lemma validate_buffer_laid_out:
  "validate_buffer m c es = Ok c' \<Longrightarrow> unat c + sum_list (map (unat \<circ> be_nbytes) es) < 2 ^ 64 \<Longrightarrow>
   laid_out es (unat c) (unat c') \<and> unat c' = unat c + sum_list (map (unat \<circ> be_nbytes) es)"
proof (induction m c es rule: validate_buffer.induct)
  case (2 m cursor e es)
  have "unat (cursor + be_nbytes e) = unat cursor + unat (be_nbytes e)"
    using "2.prems"(2) by (simp add: unat_word_ariths)
  then show ?case
    using 2 by (auto split: if_splits simp: unat_gt_0)
qed simp

lemma group_position_new: "name \<notin> set gs \<Longrightarrow> group_position gs name = length gs"
  by (induction gs) auto

lemma fold_build_entry:
  assumes "distinct (gs @ map be_group es)" "length cs = length gs" "length gs + length es < 2 ^ 32"
  shows "fold build_entry es (gs, cs, ivs) =
    (gs @ map be_group es, cs @ map be_nbytes es, ivs @ map2 entry_interval [length gs..<length gs + length es] es)"
  using assms
proof (induction es arbitrary: gs cs ivs)
  case (Cons e es)
  have "unat (of_nat (length gs) :: u32) = length gs"
    using Cons.prems(3) by (simp add: unat_of_nat)
  moreover have "group_index_for gs (be_group e) = (gs @ [be_group e], of_nat (length gs))"
    using Cons.prems(1) by (simp add: group_index_for_def group_position_new Let_def)
  ultimately have "build_entry e (gs, cs, ivs) = (gs @ [be_group e], cs @ [be_nbytes e], ivs @ [entry_interval (length gs) e])"
    using Cons.prems(2) by (simp add: build_entry_def entry_interval_def Let_def nth_append list_update_append)
  then show ?case
    using Cons.IH [of "gs @ [be_group e]" "cs @ [be_nbytes e]" "ivs @ [entry_interval (length gs) e]"] Cons.prems
    by (simp add: upt_conv_Cons del: upt_Suc)
qed simp

lemma spans_entries:
  "laid_out es a b \<Longrightarrow> length is = length es \<Longrightarrow> spans (map2 entry_interval is es) a b"
  by (induction es arbitrary: "is" a) (auto simp: entry_interval_def length_Suc_conv)

text \<open>The header \<open>H\<close> and the pieces \<open>Ts\<close> are laid out the way the manifest says, and every entry has a group of its own.\<close>

definition file_layout :: "Manifest \<Rightarrow> bytes \<Rightarrow> bytes list \<Rightarrow> bool" where
  "file_layout m H Ts \<longleftrightarrow> manifest_validate m = Ok () \<and> length H = unat (be_off (hd (m_buffer m))) \<and>
     list_all2 (\<lambda>e T. length T = unat (be_nbytes e)) (m_buffer m) Ts \<and> distinct (map be_group (m_buffer m)) \<and>
     length (m_buffer m) < 2 ^ 32 \<and> length (H @ concat Ts) < 2 ^ 49"

definition header_interval :: "bytes \<Rightarrow> Interval" where
  "header_interval H = \<lparr>iv_file_offset = 0, iv_length = of_nat (length H), iv_group_offset = 0, iv_group_index = 0, iv_is_header = True\<rparr>"

definition layout_table :: "Manifest \<Rightarrow> bytes \<Rightarrow> IntervalTable" where
  "layout_table m H = \<lparr>it_intervals = (if H = [] then [] else [header_interval H]) @ map2 entry_interval [0..<length (m_buffer m)] (m_buffer m),
     it_groups = map be_group (m_buffer m), it_total_bytes = fi_total_bytes (m_file m)\<rparr>"

lemma sum_nbytes: "list_all2 (\<lambda>e T. length T = unat (be_nbytes e)) es Ts \<Longrightarrow> sum_list (map (unat \<circ> be_nbytes) es) = length (concat Ts)"
  by (induction es Ts rule: list_all2_induct) simp_all

lemma layout_facts:
  assumes "file_layout m H Ts"
  shows "unat (fi_total_bytes (m_file m)) = length (H @ concat Ts)"
    "laid_out (m_buffer m) (length H) (length (H @ concat Ts))" "m_buffer m \<noteq> []"
proof -
  have "validate_buffer m (be_off (hd (m_buffer m))) (m_buffer m) = Ok (fi_total_bytes (m_file m))" "m_buffer m \<noteq> []"
    using assms by (auto simp: file_layout_def manifest_validate_def split: if_splits)
  moreover have "unat (be_off (hd (m_buffer m))) + sum_list (map (unat \<circ> be_nbytes) (m_buffer m)) = length (H @ concat Ts)"
    using assms sum_nbytes by (auto simp: file_layout_def)
  ultimately show "unat (fi_total_bytes (m_file m)) = length (H @ concat Ts)"
    "laid_out (m_buffer m) (length H) (length (H @ concat Ts))" "m_buffer m \<noteq> []"
    using validate_buffer_laid_out [of m "be_off (hd (m_buffer m))" "m_buffer m" "fi_total_bytes (m_file m)"] assms
    by (auto simp: file_layout_def)
qed

lemma layout_spans:
  assumes "file_layout m H Ts"
  shows "spans (it_intervals (layout_table m H)) 0 (length (H @ concat Ts))"
proof -
  have "spans (map2 entry_interval [0..<length (m_buffer m)] (m_buffer m)) (length H) (length (H @ concat Ts))"
    using layout_facts(2) [OF assms] by (intro spans_entries) simp_all
  moreover have "unat (of_nat (length H) :: u64) = length H"
    using assms by (intro unat_of_nat_small) (simp add: file_layout_def)
  ultimately show ?thesis
    by (auto simp: layout_table_def header_interval_def)
qed

lemma interval_table_layout:
  assumes "file_layout m H Ts"
  shows "interval_table_build m = Ok (layout_table m H)"
proof -
  have ne: "m_buffer m \<noteq> []" and val: "manifest_validate m = Ok ()" and len: "length H = unat (be_off (hd (m_buffer m)))"
    using assms layout_facts(3) [OF assms] by (auto simp: file_layout_def)
  have off: "be_off (hd (m_buffer m)) = of_nat (length H)" "0 < (of_nat (length H) :: u64) \<longleftrightarrow> H \<noteq> []"
    using len by (auto simp: unat_eq_zero word_gt_0)
  have "fold build_entry (m_buffer m) ([], [], hdr) =
      (map be_group (m_buffer m), map be_nbytes (m_buffer m), hdr @ map2 entry_interval [0..<length (m_buffer m)] (m_buffer m))" for hdr
    using fold_build_entry [of "[]" "m_buffer m" "[]" hdr] assms by (simp add: file_layout_def)
  moreover have "sort_key iv_file_offset (it_intervals (layout_table m H)) = it_intervals (layout_table m H)"
    using spans_sorted [OF layout_spans [OF assms]] by (rule sort_key_sorted)
  ultimately show ?thesis
    unfolding interval_table_build_def val using ne off
    by (auto simp: layout_table_def header_interval_def Let_def)
qed

lemma laid_out_offset:
  "laid_out es a b \<Longrightarrow> list_all2 (\<lambda>e T. length T = unat (be_nbytes e)) es Ts \<Longrightarrow> i < length es \<Longrightarrow>
   unat (be_off (es ! i)) = a + length (concat (take i Ts))"
proof (induction es arbitrary: a Ts i)
  case (Cons e es)
  then obtain T Ts' where Ts: "Ts = T # Ts'" "length T = unat (be_nbytes e)" "list_all2 (\<lambda>e T. length T = unat (be_nbytes e)) es Ts'"
    by (auto simp: list_all2_Cons1)
  show ?case
  proof (cases i)
    case (Suc j)
    then show ?thesis
      using Cons.IH [of "a + unat (be_nbytes e)" Ts' j] Cons.prems Ts by simp
  qed (use Cons.prems in simp)
qed simp

text \<open>Where an offset of the file lies: in the header, or in the piece of exactly one entry.\<close>

lemma layout_find:
  assumes lay: "file_layout m H Ts" and x: "unat x < length (H @ concat Ts)"
  shows "(unat x < length H \<and> interval_find (layout_table m H) x = Some (header_interval H)) \<or>
    (\<exists>i < length Ts. let e = m_buffer m ! i in interval_find (layout_table m H) x = Some (entry_interval i e) \<and> unat (be_off e) \<le> unat x \<and>
       unat x < unat (be_off e) + length (Ts ! i) \<and> length (Ts ! i) = unat (be_nbytes e) \<and>
       slice (H @ concat Ts) (unat (be_off e)) (length (Ts ! i)) = Ts ! i \<and> unat (be_off e) + length (Ts ! i) \<le> length (H @ concat Ts))"
proof -
  have all: "list_all2 (\<lambda>e T. length T = unat (be_nbytes e)) (m_buffer m) Ts" and small: "length (H @ concat Ts) < 2 ^ 49"
    using lay by (auto simp: file_layout_def)
  have "length (H @ concat Ts) < 2 ^ 64"
    using small by simp
  from interval_find_spans [OF layout_spans [OF lay] _ x this]
  obtain iv where iv: "iv \<in> set (it_intervals (layout_table m H))" "interval_find (layout_table m H) x = Some iv"
    "unat (iv_file_offset iv) \<le> unat x" "unat x < unat (iv_file_offset iv) + unat (iv_length iv)"
    using layout_facts(1) [OF lay] by (auto simp: layout_table_def)
  show ?thesis
  proof (cases "iv = header_interval H \<and> H \<noteq> []")
    case True
    moreover have "unat (of_nat (length H) :: u64) = length H"
      using small by (intro unat_of_nat_small) simp
    ultimately show ?thesis
      using iv by (simp add: header_interval_def)
  next
    case False
    then have "iv \<in> set (map2 entry_interval [0..<length (m_buffer m)] (m_buffer m))"
      using iv(1) by (auto simp: layout_table_def split: if_splits)
    then obtain i where i: "i < length (m_buffer m)" "iv = entry_interval i (m_buffer m ! i)"
      by (auto simp: in_set_conv_nth)
    have len: "i < length Ts" "length (Ts ! i) = unat (be_nbytes (m_buffer m ! i))"
      using all i(1) by (auto simp: list_all2_conv_all_nth)
    have "concat Ts = concat (take i Ts) @ Ts ! i @ concat (drop (Suc i) Ts)"
      using id_take_nth_drop [OF len(1)] by (metis concat.simps(2) concat_append)
    then have cat: "H @ concat Ts = (H @ concat (take i Ts)) @ Ts ! i @ concat (drop (Suc i) Ts)"
      by simp
    have off: "unat (be_off (m_buffer m ! i)) = length (H @ concat (take i Ts))"
      using laid_out_offset [OF layout_facts(2) [OF lay] all i(1)] by simp
    have "slice (H @ concat Ts) (unat (be_off (m_buffer m ! i))) (length (Ts ! i)) = Ts ! i"
      unfolding cat off by (rule slice_append_exact) simp_all
    moreover have "unat (be_off (m_buffer m ! i)) + length (Ts ! i) \<le> length (H @ concat Ts)"
      unfolding cat off by simp
    ultimately show ?thesis
      using iv i len by (intro disjI2 exI [of _ i]) (simp add: entry_interval_def)
  qed
qed

subsection \<open>Reads return the bytes of the file\<close>

definition frame_content :: "Oid \<Rightarrow> bytes list \<Rightarrow> FrameKey \<Rightarrow> bytes" where
  "frame_content oid Ts k =
     (if fk_artifact k = oid \<and> unat (fk_tensor_index k) < length Ts
      then fst (window (Ts ! unat (fk_tensor_index k)) (of_nat (unat (fk_frame_index k)) * kFrameBytes) (replicate (unat kFrameBytes) 0))
      else [])"

definition alloc_ok :: "(FrameCache \<Rightarrow> addr) \<Rightarrow> bool" where
  "alloc_ok alloc \<longleftrightarrow> (\<forall>c. finite (dom (fc_heap c)) \<longrightarrow> fc_heap c (alloc c) = None)"

lemma wf_cache_finite:
  assumes "wf_cache c"
  shows "finite (dom (fc_heap c))"
proof -
  have "a \<in> (\<lambda>x. the (fc_map c (snd x))) ` set (fc_lru c)" if a: "a \<in> dom (fc_heap c)" for a
  proof -
    obtain e where e: "fc_heap c a = Some e"
      using a by blast
    then show ?thesis
      using wf_cacheD(2,3) [OF assms e] by (intro image_eqI [of _ _ "(en_lru_it e, en_key e)"]) simp_all
  qed
  then show ?thesis
    by (meson finite_imageI finite_set finite_subset subsetI)
qed

lemma quiet_alloc: "quiet content c \<Longrightarrow> alloc_ok alloc \<Longrightarrow> fc_heap c (alloc c) = None"
  using wf_cache_finite minvD(1) by (fastforce simp: alloc_ok_def quiet_def)

lemma frame_arith:
  fixes within :: u64
  assumes "unat within < 2 ^ 49"
  shows "unat (within div kFrameBytes) = unat within div 131072" "unat (ucast (within div kFrameBytes) :: u32) = unat within div 131072"
    "unat (within div kFrameBytes * kFrameBytes) = unat within div 131072 * 131072"
    "unat (within - within div kFrameBytes * kFrameBytes) = unat within mod 131072"
    "unat (kFrameBytes - (within - within div kFrameBytes * kFrameBytes)) = 131072 - unat within mod 131072"
proof -
  have K: "unat kFrameBytes = 131072"
    by (simp add: kFrameBytes_def)
  show d: "unat (within div kFrameBytes) = unat within div 131072"
    by (simp add: unat_div K)
  have q: "unat within div 131072 < 2 ^ 32"
    using assms by (simp add: less_mult_imp_div_less)
  then show "unat (ucast (within div kFrameBytes) :: u32) = unat within div 131072"
    using d by (simp add: unsigned_ucast_eq take_bit_nat_eq_self)
  have le: "unat within div 131072 * 131072 \<le> unat within"
    by simp
  show s: "unat (within div kFrameBytes * kFrameBytes) = unat within div 131072 * 131072"
    using d K le assms by (simp add: unat_word_ariths)
  show o': "unat (within - within div kFrameBytes * kFrameBytes) = unat within mod 131072"
    unfolding unat_sub_if' s using le by (simp only: if_True minus_div_mult_eq_mod)
  show "unat (kFrameBytes - (within - within div kFrameBytes * kFrameBytes)) = 131072 - unat within mod 131072"
    using o' K by (simp add: unat_sub_if')
qed

lemma slice_window:
  assumes "o' + n \<le> length out" "unat off + o' + n \<le> length T"
  shows "slice (fst (window T off out)) o' n = slice T (unat off + o') n"
proof -
  let ?k = "min (length out) (length T - unat off)"
  have fit: "o' + n \<le> ?k"
    using assms by linarith
  have "fst (window T off out) = slice T (unat off) ?k @ drop ?k out"
    using assms by (simp add: window_def memcpy_at_def Let_def)
  then have "slice (fst (window T off out)) o' n = slice (slice T (unat off) ?k) o' n"
    using fit assms by (simp add: slice_append_same)
  also have "\<dots> = slice T (unat off + o') n"
    using fit by (simp only: slice_slice)
  finally show ?thesis .
qed

lemma frame_content_served:
  fixes oid :: Oid
  assumes "unat i < length Ts" "unat within < 2 ^ 49"
    and "n \<le> length (Ts ! unat i) - unat within" "n \<le> 131072 - unat within mod 131072" "unat within < length (Ts ! unat i)"
  defines "key \<equiv> \<lparr>fk_artifact = oid, fk_tensor_index = i, fk_frame_index = ucast (within div kFrameBytes)\<rparr>"
  shows "frame_content oid Ts key = fst (window (Ts ! unat i) (within div kFrameBytes * kFrameBytes) (replicate (unat kFrameBytes) 0))"
    "length (frame_content oid Ts key) = unat kFrameBytes"
    "slice (frame_content oid Ts key) (unat within mod 131072) n = slice (Ts ! unat i) (unat within) n"
proof -
  have idx: "of_nat (unat (ucast (within div kFrameBytes) :: u32)) = within div kFrameBytes"
    unfolding word_unat_eq_iff frame_arith(1,2) [OF assms(2)] using assms(2) by (intro unat_of_nat_small) simp
  then show c: "frame_content oid Ts key = fst (window (Ts ! unat i) (within div kFrameBytes * kFrameBytes) (replicate (unat kFrameBytes) 0))"
    using assms(1) by (simp add: frame_content_def key_def)
  show "length (frame_content oid Ts key) = unat kFrameBytes"
    unfolding c by (simp add: window_def Let_def)
  have m: "unat within div 131072 * 131072 + unat within mod 131072 = unat within"
    by simp
  have "slice (frame_content oid Ts key) (unat within mod 131072) n =
      slice (Ts ! unat i) (unat (within div kFrameBytes * kFrameBytes) + unat within mod 131072) n"
    unfolding c
  proof (rule slice_window)
    show "unat within mod 131072 + n \<le> length (replicate (unat kFrameBytes) (0 :: byte))"
      using assms(4) mod_less_divisor [of 131072 "unat within"] by (simp add: kFrameBytes_def)
    show "unat (within div kFrameBytes * kFrameBytes) + unat within mod 131072 + n \<le> length (Ts ! unat i)"
      unfolding frame_arith(3) [OF assms(2)] using assms(3,5) m by linarith
  qed
  then show "slice (frame_content oid Ts key) (unat within mod 131072) n = slice (Ts ! unat i) (unat within) n"
    using m by (simp add: frame_arith(3) [OF assms(2)])
qed

text \<open>
  A mounted file: what does not change between reads, and a cache at rest. Every entry's group reads as its piece, the header block reads as
  the header.
\<close>

definition serves :: "'j Ext \<Rightarrow> Isa \<Rightarrow> nat \<Rightarrow> SynapseFs \<Rightarrow> Manifest \<Rightarrow> bytes \<Rightarrow> bytes list \<Rightarrow> bool" where
  "serves X isa fuel fs m H Ts \<longleftrightarrow>
     file_layout m H Ts \<and> fs_table fs = layout_table m H \<and> unat (fs_file_size fs) = length (H @ concat Ts) \<and>
     (\<exists>blocks. rc_blocks (fs_ctx fs) = Some blocks \<and> reads_as (bi_read_range blocks (fs_header_block fs) KHeader) H) \<and>
     (\<forall>i < length Ts. reads_as (read_range X isa fuel (fs_ctx fs) (be_group (m_buffer m ! i))) (Ts ! i)) \<and>
     quiet (frame_content (fs_artifact_oid fs) Ts) (fs_cache fs)"

lemma serves_update:
  "serves X isa fuel fs m H Ts \<Longrightarrow> quiet (frame_content (fs_artifact_oid fs) Ts) c \<Longrightarrow>
   serves X isa fuel (fs\<lparr>fs_cache := c, fs_stats := st\<rparr>) m H Ts"
  by (simp add: serves_def)

lemma fs_read_frame_served:
  fixes remaining :: nat
  assumes fs: "serves X isa fuel fs m H Ts" and alloc: "alloc_ok alloc" and i: "i < length Ts"
    and within: "unat within < length (Ts ! i)" and len: "length (Ts ! i) = unat (be_nbytes (m_buffer m ! i))"
  defines "want \<equiv> min remaining (min (length (Ts ! i) - unat within) (131072 - unat within mod 131072))"
  shows "\<exists>fs1. fs_read_frame X isa fuel alloc fs (entry_interval i (m_buffer m ! i)) within remaining = (fs1, Ok (slice (Ts ! i) (unat within) want)) \<and>
    serves X isa fuel fs1 m H Ts \<and> fs_file_size fs1 = fs_file_size fs"
proof -
  let ?iv = "entry_interval i (m_buffer m ! i)"
  let ?oid = "fs_artifact_oid fs"
  let ?start = "within div kFrameBytes * kFrameBytes"
  let ?key = "\<lparr>fk_artifact = ?oid, fk_tensor_index = (of_nat i :: u32), fk_frame_index = ucast (within div kFrameBytes)\<rparr>"
  have lay: "file_layout m H Ts" and q: "quiet (frame_content ?oid Ts) (fs_cache fs)"
    and rd: "reads_as (read_range X isa fuel (fs_ctx fs) (be_group (m_buffer m ! i))) (Ts ! i)" and tab: "fs_table fs = layout_table m H"
    using fs i by (auto simp: serves_def)
  have n: "length (m_buffer m) = length Ts" "length Ts < 2 ^ 32" and small: "length (concat Ts) < 2 ^ 49"
    using lay by (auto simp: file_layout_def dest: list_all2_lengthD)
  have ui: "unat (of_nat i :: u32) = i"
    using i n(2) by (simp add: unat_of_nat)
  have "length (Ts ! i) \<le> length (concat Ts)"
    using i member_le_sum_list [of "length (Ts ! i)" "map length Ts"] by (simp add: length_concat)
  then have w: "unat within < 2 ^ 49"
    using within small by linarith
  note fa = frame_arith [OF w]
  have want: "want \<le> length (Ts ! i) - unat within" "want \<le> 131072 - unat within mod 131072"
    by (simp_all add: want_def)
  note fc = frame_content_served [of "of_nat i" Ts within want ?oid, unfolded ui, OF i w want within]
  have K: "unat kFrameBytes = 131072"
    by (simp add: kFrameBytes_def)
  have name: "interval_group_name (fs_table fs) (of_nat i) = be_group (m_buffer m ! i)"
    using i n ui by (simp add: interval_group_name_def tab layout_table_def)
  have "unat ?start + unat kFrameBytes < 2 ^ 64"
    unfolding fa(3) K using w by simp
  then have "read_range X isa fuel (fs_ctx fs) (be_group (m_buffer m ! i)) ?start (replicate (unat kFrameBytes) 0) =
      Ok (window (Ts ! i) ?start (replicate (unat kFrameBytes) 0))"
    using rd by (simp add: reads_as_def)
  then have fill: "\<exists>s'. fs_fill X isa fuel (fs_ctx fs) (be_group (m_buffer m ! i)) ?start (fs_stats fs) (replicate (unat kFrameBytes) 0) =
      (s', frame_content ?oid Ts ?key, Ok ())"
    unfolding fc(1) by (simp add: fs_fill_def split: prod.split)
  then obtain s' where fill: "fs_fill X isa fuel (fs_ctx fs) (be_group (m_buffer m ! i)) ?start (fs_stats fs) (replicate (unat kFrameBytes) 0) =
      (s', frame_content ?oid Ts ?key, Ok ())"
    by blast
  have "unat kFrameBytes < 2 ^ 63"
    by (simp add: K)
  from get_or_fill_leased [OF q quiet_alloc [OF q alloc] this,
      where fill = "fs_fill X isa fuel (fs_ctx fs) (be_group (m_buffer m ! i)) ?start" and s = "fs_stats fs" and key = ?key, OF fill fc(2)]
  obtain c' s'' a where g: "get_or_fill ?key kFrameBytes (alloc (fs_cache fs))
      (fs_fill X isa fuel (fs_ctx fs) (be_group (m_buffer m ! i)) ?start) (fs_cache fs) (fs_stats fs) = (c', s'', Ok a)"
    "leased (frame_content ?oid Ts) ?key a c'"
    by blast
  obtain c'' where rel: "release a c' = Ok c''" "quiet (frame_content ?oid Ts) c''"
    using leased_bytes(2) [OF g(2)] by blast
  have iv: "iv_length ?iv = be_nbytes (m_buffer m ! i)" "iv_group_index ?iv = of_nat i" "iv_group_offset ?iv = 0"
    by (simp_all add: entry_interval_def)
  have avail: "unat (be_nbytes (m_buffer m ! i) - within) = length (Ts ! i) - unat within"
    using within len by (simp add: unat_sub_if')
  have fit: "\<not> length (frame_content ?oid Ts ?key) < unat within mod 131072 + want"
    unfolding fc(2) K using want(2) by simp
  have "fs_read_frame X isa fuel alloc fs ?iv within remaining =
      (fs\<lparr>fs_cache := c'', fs_stats := s''\<rparr>, Ok (slice (Ts ! i) (unat within) want))"
    unfolding fs_read_frame_def Let_def iv add_0 name avail fa g(1) prod.case res.case leased_bytes(1) [OF g(2)]
      want_def [symmetric] rel(1) fc(3) using fit by simp
  then show ?thesis
    using serves_update [OF fs rel(2), of s''] by auto
qed

text \<open>The rest of a read, once \<open>copied\<close> bytes are in place.\<close>

definition read_rest :: "bytes \<Rightarrow> u64 \<Rightarrow> bytes \<Rightarrow> nat \<Rightarrow> bytes \<times> nat" where
  "read_rest F cur out copied =
     (let n = min (length out - copied) (length F - unat cur) in (memcpy_at out copied (slice F (unat cur) n), copied + n))"

lemma read_rest_step:
  assumes "k \<le> length out - copied" "unat cur + k \<le> length F" "length F < 2 ^ 64" "copied \<le> length out"
  shows "read_rest F (cur + of_nat k) (memcpy_at out copied (slice F (unat cur) k)) (copied + k) = read_rest F cur out copied"
proof -
  have cur: "unat (cur + of_nat k) = unat cur + k"
    using assms(2,3) by (simp add: unat_word_ariths unat_of_nat_small)
  define n where "n = min (length out - (copied + k)) (length F - (unat cur + k))"
  have n: "min (length out - copied) (length F - unat cur) = k + n"
    using assms(1,2) by (simp add: n_def)
  have len: "length (memcpy_at out copied (slice F (unat cur) k)) = length out"
    using assms by simp
  have "memcpy_at (memcpy_at out copied (slice F (unat cur) k)) (copied + k) (slice F (unat cur + k) n) =
      memcpy_at out copied (slice F (unat cur) (k + n))"
    using memcpy_at_memcpy_at [of copied "slice F (unat cur) k" "slice F (unat cur + k) n" out] assms
    by (simp add: slice_split n_def)
  then show ?thesis
    unfolding read_rest_def cur len n by (simp add: n_def [symmetric] Let_def)
qed

lemma fs_read_loop_served:
  assumes "serves X isa fuel fs m H Ts" "alloc_ok alloc" "copied \<le> length out"
  shows "\<exists>fs'. fs_read_loop X isa fuel alloc fs cur out copied = (fs', Ok (read_rest (H @ concat Ts) cur out copied)) \<and>
    serves X isa fuel fs' m H Ts"
  using assms(1,3)
proof (induction "length out - copied" arbitrary: fs cur out copied rule: less_induct)
  case less
  let ?F = "H @ concat Ts"
  have lay: "file_layout m H Ts" and size: "unat (fs_file_size fs) = length ?F" and tab: "fs_table fs = layout_table m H"
    using less.prems(1) by (auto simp: serves_def)
  have small: "length ?F < 2 ^ 49" "length ?F < 2 ^ 64"
    using lay by (auto simp: file_layout_def)
  show ?case
  proof (cases "length out \<le> copied \<or> fs_file_size fs \<le> cur")
    case True
    then have "min (length out - copied) (length ?F - unat cur) = 0"
      using size by (auto simp: word_le_nat_alt)
    then have "read_rest ?F cur out copied = (out, copied)"
      by (simp add: read_rest_def memcpy_at_def)
    then show ?thesis
      using True less.prems(1) by (auto simp: fs_read_loop.simps [of X isa fuel alloc fs cur out copied])
  next
    case False
    then have room: "copied < length out" and x: "unat cur < length ?F"
      using size by (auto simp: word_le_nat_alt)
    have go: "\<exists>fs'. fs_read_loop X isa fuel alloc fs1 (cur + of_nat k) (memcpy_at out copied (slice ?F (unat cur) k)) (copied + k) =
          (fs', Ok (read_rest ?F cur out copied)) \<and> serves X isa fuel fs' m H Ts"
      if "0 < k" "k \<le> length out - copied" "unat cur + k \<le> length ?F" "serves X isa fuel fs1 m H Ts" for k fs1
    proof -
      have len: "length (memcpy_at out copied (slice ?F (unat cur) k)) = length out"
        using that room by simp
      show ?thesis
        using less.hyps [of "memcpy_at out copied (slice ?F (unat cur) k)" "copied + k" fs1 "cur + of_nat k"] that len room
        unfolding read_rest_step [OF that(2,3) small(2) less.prems(2)] by simp
    qed
    from layout_find [OF lay x] show ?thesis
    proof (elim disjE conjE exE)
      assume h: "unat cur < length H" "interval_find (layout_table m H) cur = Some (header_interval H)"
      obtain blocks where b: "rc_blocks (fs_ctx fs) = Some blocks" "reads_as (bi_read_range blocks (fs_header_block fs) KHeader) H"
        using less.prems(1) by (auto simp: serves_def)
      have uh: "unat (of_nat (length H) - cur) = length H - unat cur"
        using h(1) small by (simp add: unat_sub_if' unat_of_nat_small)
      define k where "k = min (length out - copied) (length H - unat cur)"
      have k: "0 < k" "k \<le> length out - copied" "unat cur + k \<le> length H"
        using room h(1) by (auto simp: k_def)
      have "serve_header fs (header_interval H) (cur - iv_file_offset (header_interval H)) (length out - copied) (drop copied out) =
          Ok (window H cur (take k (drop copied out)))"
        using b k small by (simp add: serve_header_def header_interval_def uh reads_as_def Let_def flip: k_def)
      also have "window H cur (take k (drop copied out)) = (slice H (unat cur) k, of_nat k)"
        using k by (subst window_inside) simp_all
      also have "slice H (unat cur) k = slice ?F (unat cur) k"
        using k(3) by (simp add: slice_append_same)
      finally have served: "serve_header fs (header_interval H) (cur - iv_file_offset (header_interval H)) (length out - copied) (drop copied out) =
          Ok (slice ?F (unat cur) k, of_nat k)" .
      have uk: "unat (of_nat k :: u64) = k" "length (slice ?F (unat cur) k) = k"
        using k small by (auto intro!: unat_of_nat_small)
      then have k0: "(of_nat k :: u64) \<noteq> 0"
        using k(1) by (metis less_numeral_extra(3) unat_0)
      have hdr: "iv_is_header (header_interval H)"
        by (simp add: header_interval_def)
      show ?thesis
        using go [OF k(1,2) _ less.prems(1)] k(3) False uk k0
        by (simp add: fs_read_loop.simps [of X isa fuel alloc fs cur out copied] tab h(2) served hdr Let_def not_less k(2))
    next
      fix i
      let ?e = "m_buffer m ! i"
      assume i: "i < length Ts" and "let e = ?e in interval_find (layout_table m H) cur = Some (entry_interval i e) \<and> unat (be_off e) \<le> unat cur \<and>
       unat cur < unat (be_off e) + length (Ts ! i) \<and> length (Ts ! i) = unat (be_nbytes e) \<and>
       slice ?F (unat (be_off e)) (length (Ts ! i)) = Ts ! i \<and> unat (be_off e) + length (Ts ! i) \<le> length ?F"
      then have f: "interval_find (layout_table m H) cur = Some (entry_interval i ?e)" "unat (be_off ?e) \<le> unat cur"
        "unat cur < unat (be_off ?e) + length (Ts ! i)" "length (Ts ! i) = unat (be_nbytes ?e)"
        "slice ?F (unat (be_off ?e)) (length (Ts ! i)) = Ts ! i" "unat (be_off ?e) + length (Ts ! i) \<le> length ?F"
        unfolding Let_def by blast+
      define w where "w = cur - be_off ?e"
      have uw: "unat w = unat cur - unat (be_off ?e)"
        using f(2) by (simp add: w_def unat_sub_if')
      then have w: "unat w < length (Ts ! i)"
        using f(2,3) by linarith
      define k where "k = min (length out - copied) (min (length (Ts ! i) - unat w) (131072 - unat w mod 131072))"
      have "k \<le> length (Ts ! i) - unat w"
        by (simp add: k_def)
      moreover from this have "unat cur + k \<le> length ?F"
        using w f(2,6) uw by linarith
      moreover have "unat w mod 131072 < 131072"
        by simp
      then have "0 < k"
        unfolding k_def min_less_iff_conj using room w by linarith
      moreover have "k \<le> length out - copied"
        by (simp add: k_def)
      ultimately have k: "0 < k" "k \<le> length out - copied" "k \<le> length (Ts ! i) - unat w" "unat cur + k \<le> length ?F"
        by blast+
      obtain fs1 where fs1: "fs_read_frame X isa fuel alloc fs (entry_interval i ?e) w (length out - copied) = (fs1, Ok (slice (Ts ! i) (unat w) k))"
        "serves X isa fuel fs1 m H Ts"
        using fs_read_frame_served [OF less.prems(1) assms(2) i w f(4), of "length out - copied"] by (auto simp: k_def)
      have "slice (Ts ! i) (unat w) k = slice (slice ?F (unat (be_off ?e)) (length (Ts ! i))) (unat w) k"
        using f(5) by simp
      also have "\<dots> = slice ?F (unat cur) k"
        using k(3) w uw f(2) by (simp add: slice_slice)
      finally have piece: "slice (Ts ! i) (unat w) k = slice ?F (unat cur) k" .
      have len: "length (slice ?F (unat cur) k) = k"
        using k(4) by simp
      then have ne: "slice ?F (unat cur) k \<noteq> []"
        using k(1) by (metis length_greater_0_conv)
      have iv: "\<not> iv_is_header (entry_interval i ?e)" "iv_file_offset (entry_interval i ?e) = be_off ?e"
        by (simp_all add: entry_interval_def)
      define P where "P = slice ?F (unat cur) k"
      have P: "length P = k" "P \<noteq> []"
        using len ne by (simp_all add: P_def)
      have frame: "fs_read_frame X isa fuel alloc fs (entry_interval i ?e) (cur - be_off ?e) (length out - copied) = (fs1, Ok P)"
        using fs1(1) piece by (simp add: w_def P_def)
      obtain fs' where fs': "fs_read_loop X isa fuel alloc fs1 (cur + of_nat k) (memcpy_at out copied P) (copied + k) =
          (fs', Ok (read_rest ?F cur out copied))" "serves X isa fuel fs' m H Ts"
        using go [OF k(1,2,4) fs1(2)] unfolding P_def by blast
      have "fs_read_loop X isa fuel alloc fs cur out copied = (fs', Ok (read_rest ?F cur out copied))"
        using False fs'(1) P k(2)
        by (simp add: fs_read_loop.simps [of X isa fuel alloc fs cur out copied] tab f(1) iv frame Let_def)
      with fs'(2) show ?thesis
        by blast
    qed
  qed
qed

lemma fs_read_served:
  assumes "serves X isa fuel fs m H Ts" "alloc_ok alloc"
  shows "\<exists>fs'. fs_read X isa fuel alloc fs off out = (fs', Ok (read_rest (H @ concat Ts) off out 0)) \<and> serves X isa fuel fs' m H Ts"
proof -
  define fs0 where "fs0 = fs\<lparr>fs_stats := (fs_stats fs)\<lparr>st_reads := st_reads (fs_stats fs) + 1\<rparr>\<rparr>"
  have s0: "serves X isa fuel fs0 m H Ts" and size: "fs_file_size fs0 = fs_file_size fs"
    using assms(1) by (simp_all add: fs0_def serves_def)
  show ?thesis
  proof (cases "fs_file_size fs \<le> off \<or> out = []")
    case True
    then have "min (length out - 0) (length (H @ concat Ts) - unat off) = 0"
      using assms(1) by (auto simp: serves_def word_le_nat_alt)
    then have "read_rest (H @ concat Ts) off out 0 = (out, 0)"
      by (simp add: read_rest_def memcpy_at_def)
    then show ?thesis
      using True s0 size by (simp add: fs_read_def Let_def flip: fs0_def)
  next
    case False
    obtain fs1 where fs1: "fs_read_loop X isa fuel alloc fs0 off out 0 = (fs1, Ok (read_rest (H @ concat Ts) off out 0))" "serves X isa fuel fs1 m H Ts"
      using fs_read_loop_served [OF s0 assms(2), of 0 out off] by auto
    obtain b n where bn: "read_rest (H @ concat Ts) off out 0 = (b, n)"
      by fastforce
    have "serves X isa fuel (fs1\<lparr>fs_stats := st\<rparr>) m H Ts" for st
      using fs1(2) by (simp add: serves_def)
    then show ?thesis
      using False fs1(1) size bn by (simp add: fs_read_def Let_def flip: fs0_def)
  qed
qed

definition fs_after :: "'j Ext \<Rightarrow> Isa \<Rightarrow> nat \<Rightarrow> (FrameCache \<Rightarrow> addr) \<Rightarrow> SynapseFs \<Rightarrow> (u64 \<times> bytes) list \<Rightarrow> SynapseFs" where
  "fs_after X isa fuel alloc fs reqs = foldl (\<lambda>fs (off, out). fst (fs_read X isa fuel alloc fs off out)) fs reqs"

lemma fs_after_serves:
  assumes "serves X isa fuel fs m H Ts" "alloc_ok alloc"
  shows "serves X isa fuel (fs_after X isa fuel alloc fs reqs) m H Ts"
  using assms(1)
proof (induction reqs arbitrary: fs)
  case (Cons r reqs)
  obtain off out where r: "r = (off, out)"
    by fastforce
  then show ?case
    using Cons.IH [of "fst (fs_read X isa fuel alloc fs off out)"] fs_read_served [OF Cons.prems assms(2), of off out]
    by (auto simp: fs_after_def)
qed (simp add: fs_after_def)

text \<open>The store and the layout that a commit needs to be mountable.\<close>

definition mountable :: "'j Ext \<Rightarrow> nat \<Rightarrow> ReadCtx \<Rightarrow> BlockIf \<Rightarrow> Manifest \<Rightarrow> bytes \<Rightarrow> bytes list \<Rightarrow> bool" where
  "mountable X fuel ctx blocks m H Ts \<longleftrightarrow> zstd_ok X \<and> rc_blocks ctx = Some blocks \<and>
     bi_get blocks (fi_header_block (m_file m)) KHeader = Ok H \<and> reads_as (bi_read_range blocks (fi_header_block (m_file m)) KHeader) H \<and>
     list_all2 (buffer_holds X (ctx\<lparr>rc_manifest := Some m\<rparr>) fuel) (m_buffer m) Ts \<and> length H = unat (be_off (hd (m_buffer m))) \<and>
     distinct (map be_group (m_buffer m)) \<and> length (m_buffer m) < 2 ^ 32 \<and> length (H @ concat Ts) < 2 ^ 49"

lemma fs_create_serves:
  assumes "mountable X fuel ctx blocks m H Ts" "fs_create X ctx m cache_bytes stats = Ok fs"
  shows "serves X isa fuel fs m H Ts"
proof -
  have hold: "list_all2 (buffer_holds X (ctx\<lparr>rc_manifest := Some m\<rparr>) fuel) (m_buffer m) Ts" and z: "zstd_ok X"
    using assms(1) by (auto simp: mountable_def)
  have all: "list_all2 (\<lambda>e T. length T = unat (be_nbytes e)) (m_buffer m) Ts"
    using hold by (rule list_all2_mono) (simp add: buffer_holds_def)
  have "manifest_validate m = Ok ()"
    using assms(2) by (auto simp: fs_create_def)
  then have lay: "file_layout m H Ts"
    using assms(1) all by (auto simp: file_layout_def mountable_def)
  have fs: "fs_table fs = layout_table m H" "fs_ctx fs = ctx\<lparr>rc_manifest := Some m\<rparr>" "fs_cache fs = cache_new cache_bytes"
    "fs_file_size fs = fi_total_bytes (m_file m)" "fs_header_block fs = fi_header_block (m_file m)"
    using assms interval_table_layout [OF lay] by (auto simp: fs_create_def mountable_def)
  have "reads_as (read_range X isa fuel (fs_ctx fs) (be_group (m_buffer m ! i))) (Ts ! i)" if i: "i < length Ts" for i
  proof -
    obtain d where "d < fuel" "holds_group X (ctx\<lparr>rc_manifest := Some m\<rparr>) (be_group (m_buffer m ! i)) (Ts ! i) d"
      using hold i by (auto simp: list_all2_conv_all_nth buffer_holds_def)
    then show ?thesis
      using holds_group_reads [OF z] by (simp add: fs(2) read_range_def [abs_def])
  qed
  then show ?thesis
    using assms(1) lay fs layout_facts(1) [OF lay] quiet_new by (auto simp: serves_def mountable_def)
qed

lemma mountable_reconstructs:
  assumes "mountable X fuel ctx blocks m H Ts"
  shows "reconstruct_file X isa fuel (ctx\<lparr>rc_manifest := Some m\<rparr>) (\<lambda>s b. Ok (s @ b)) [] = Ok (H @ concat Ts)"
  using assms by (intro reconstruct_file_exact [where m = m and blocks = blocks]) (auto simp: mountable_def)

text \<open>
  C9: A mount shows the file that checkout writes: after any sequence of earlier reads, whatever they made the cache keep or
  evict, a read of the mounted commit from any offset returns exactly the bytes of the reconstructed file there, short only at the end of the
  file. Every buffer entry needs a group of its own.
\<close>

theorem mount_read_exact:
  assumes "mountable X fuel ctx blocks m H Ts" "fs_create X ctx m cache_bytes stats = Ok fs" "alloc_ok alloc"
  shows "\<exists>F. reconstruct_file X isa fuel (ctx\<lparr>rc_manifest := Some m\<rparr>) (\<lambda>s b. Ok (s @ b)) [] = Ok F \<and>
    (\<forall>reqs off out. snd (fs_read X isa fuel alloc (fs_after X isa fuel alloc fs reqs) off out) =
       (let n = min (length out) (length F - unat off) in Ok (memcpy_at out 0 (slice F (unat off) n), n)))"
proof -
  have "reconstruct_file X isa fuel (ctx\<lparr>rc_manifest := Some m\<rparr>) (\<lambda>s b. Ok (s @ b)) [] = Ok (H @ concat Ts)"
    using assms(1) by (rule mountable_reconstructs)
  moreover have "snd (fs_read X isa fuel alloc (fs_after X isa fuel alloc fs reqs) off out) = Ok (read_rest (H @ concat Ts) off out 0)" for reqs off out
    using fs_read_served [OF fs_after_serves [OF fs_create_serves [OF assms(1,2), of isa] assms(3), of reqs] assms(3), of off out] by auto
  ultimately show ?thesis
    by (intro exI [of _ "H @ concat Ts"]) (simp add: read_rest_def Let_def)
qed

definition mount_blocks :: BlockIf where
  "mount_blocks = \<lparr>bi_get = (\<lambda>oid k. Ok [42]),
     bi_read_range = (\<lambda>oid k off out. Ok (window (if k = KHeader then [42] else example_target) off out))\<rparr>"

definition mount_ctx :: ReadCtx where
  "mount_ctx = \<lparr>rc_blocks = Some mount_blocks, rc_manifest = None, rc_history = None, rc_max_depth = 5, rc_topology = None\<rparr>"

definition least_free :: "FrameCache \<Rightarrow> addr" where
  "least_free c = (LEAST a. fc_heap c a = None)"

lemma least_free_ok: "alloc_ok least_free"
proof -
  have "fc_heap c (least_free c) = None" if "finite (dom (fc_heap c))" for c
  proof -
    have "\<exists>a. fc_heap c a = None"
      using that ex_new_if_finite [of "dom (fc_heap c)"] by auto
    then show ?thesis
      unfolding least_free_def by (rule LeastI_ex)
  qed
  then show ?thesis
    by (simp add: alloc_ok_def)
qed

lemma mountable_example: "mountable (toy_ext j0) 1 mount_ctx mount_blocks (chain_manifest example_full) [42] [example_target]"
proof -
  have "holds_group (toy_ext j0) (mount_ctx\<lparr>rc_manifest := Some (chain_manifest example_full)\<rparr>) ''w'' example_target 0"
    by (rule holds_group.full [where g = example_full and oid = "replicate 32 8" and blocks = mount_blocks and m = "chain_manifest example_full"])
      (simp_all add: example_defs mount_ctx_def mount_blocks_def reads_as_def)
  then show ?thesis
    by (auto simp: mountable_def toy_zstd_ok mount_ctx_def mount_blocks_def reads_as_def buffer_holds_def chain_manifest_def example_target_def)
qed

theorem mount_read_exact_witness:
  "\<forall>stats. \<exists>fs. fs_create (toy_ext (TBool True)) mount_ctx (chain_manifest example_full) 0 stats = Ok fs \<and>
     snd (fs_read (toy_ext (TBool True)) Scalar 1 least_free
       (fs_after (toy_ext (TBool True)) Scalar 1 least_free fs [(0, [0, 0])]) 3 [0, 0, 0, 0]) = Ok ([7, 8, 0, 0], 2)"
proof
  fix stats
  let ?m = "chain_manifest example_full" and ?X = "toy_ext (TBool True)"
  have val: "manifest_validate ?m = Ok ()"
    by (simp add: manifest_validate_def chain_manifest_def find_group_def example_full_def)
  then have "interval_table_build ?m = Ok (layout_table ?m [42])"
    by (intro interval_table_layout [where Ts = "[example_target]"]) (simp add: file_layout_def chain_manifest_def example_target_def)
  moreover obtain json where "manifest_to_canonical_json ?X ?m = Ok json"
    by (auto simp: manifest_to_canonical_json_def toy_ext_def)
  ultimately obtain fs where fs: "fs_create ?X mount_ctx ?m 0 stats = Ok fs"
    using val by (auto simp: fs_create_def mount_ctx_def manifest_oid_def)
  from mount_read_exact [OF mountable_example fs least_free_ok, of Scalar]
  obtain F where F: "reconstruct_file ?X Scalar 1 (mount_ctx\<lparr>rc_manifest := Some ?m\<rparr>) (\<lambda>s b. Ok (s @ b)) [] = Ok F"
    "\<And>reqs off out. snd (fs_read ?X Scalar 1 least_free (fs_after ?X Scalar 1 least_free fs reqs) off out) =
       (let n = min (length out) (length F - unat off) in Ok (memcpy_at out 0 (slice F (unat off) n), n))"
    by blast
  have "F = [42, 5, 6, 7, 8]"
    using F(1) mountable_reconstructs [OF mountable_example, of "TBool True" Scalar] by (simp add: example_target_def)
  then show "\<exists>fs. fs_create ?X mount_ctx ?m 0 stats = Ok fs \<and>
     snd (fs_read ?X Scalar 1 least_free (fs_after ?X Scalar 1 least_free fs [(0, [0, 0])]) 3 [0, 0, 0, 0]) = Ok ([7, 8, 0, 0], 2)"
    using fs F(2) [of "[(0, [0, 0])]" 3 "[0, 0, 0, 0]"] by (auto simp: Let_def slice_def memcpy_at_def)
qed

subsection \<open>Read-ahead and replies\<close>

text \<open>How many of the last reads (most recent first) each started where the one before it ended.\<close>

fun in_order_run :: "(u64 \<times> u64) list \<Rightarrow> nat" where
  "in_order_run [] = 0"
| "in_order_run [(off, len)] = (if off = 0 then 1 else 0)"
| "in_order_run ((off, len) # (off', len') # rs) = (if off = off' + len' then Suc (in_order_run ((off', len') # rs)) else 0)"

definition prefetch_after :: "PrefetchState \<Rightarrow> (u64 \<times> u64) list \<Rightarrow> PrefetchState" where
  "prefetch_after p rs = foldr (\<lambda>(off, len) p. fst (prefetch_observe off len p)) rs p"

lemma prefetch_after_state:
  "pf_max_ahead_frames (prefetch_after (prefetch_new ahead trigger True) rs) = ahead \<and>
   pf_trigger_streak (prefetch_after (prefetch_new ahead trigger True) rs) = trigger \<and>
   pf_enabled (prefetch_after (prefetch_new ahead trigger True) rs) \<and>
   pf_next_expected (prefetch_after (prefetch_new ahead trigger True) rs) = (case rs of [] \<Rightarrow> 0 | (off, len) # _ \<Rightarrow> off + len) \<and>
   unat (pf_streak (prefetch_after (prefetch_new ahead trigger True) rs)) = min (unat trigger) (in_order_run rs)"
proof (induction rs)
  case (Cons r rs)
  obtain off len where r: "r = (off, len)"
    by fastforce
  define p where "p = prefetch_after (prefetch_new ahead trigger True) rs"
  have IH: "pf_max_ahead_frames p = ahead" "pf_trigger_streak p = trigger" "pf_enabled p"
    "pf_next_expected p = (case rs of [] \<Rightarrow> 0 | (off, len) # _ \<Rightarrow> off + len)" "unat (pf_streak p) = min (unat trigger) (in_order_run rs)"
    using Cons.IH unfolding p_def by blast+
  have after: "prefetch_after (prefetch_new ahead trigger True) (r # rs) = fst (prefetch_observe off len p)"
    by (simp add: prefetch_after_def p_def r)
  have run: "in_order_run (r # rs) = (if off = pf_next_expected p then Suc (in_order_run rs) else 0)"
    unfolding IH(4) r by (cases rs) auto
  have "unat (if pf_streak p < trigger then pf_streak p + 1 else pf_streak p) = min (unat trigger) (Suc (in_order_run rs))"
  proof (cases "pf_streak p < trigger")
    case True
    have "unat trigger < 2 ^ LENGTH(32)"
      by (rule unsigned_less)
    then have "unat (pf_streak p + 1) = Suc (unat (pf_streak p))"
      using unat_mono [OF True] by (simp add: unat_word_ariths)
    then show ?thesis
      using True IH(5) by (simp add: word_less_nat_alt)
  next
    case False
    then show ?thesis
      using IH(5) by (simp add: word_less_nat_alt)
  qed
  then show ?case
    unfolding after run using IH(1-3) by (simp add: r prefetch_observe_def Let_def)
qed (simp add: prefetch_after_def prefetch_new_def)

text \<open>
  Note: Read-ahead is detected, not assumed: after any history of reads on a handle, an observed read asks for the configured number of frames
  exactly when it and the reads before it form a run of at least \<open>trigger_streak\<close> reads, each starting where the last one ended (the
  first one at offset 0); otherwise nothing is prefetched.
\<close>

theorem prefetch_detects_sequential:
  "snd (prefetch_observe off len (prefetch_after (prefetch_new ahead trigger True) rs)) =
   (if unat trigger \<le> in_order_run ((off, len) # rs) then ahead else 0)"
proof -
  let ?p = "prefetch_after (prefetch_new ahead trigger True) ((off, len) # rs)"
  have p: "?p = fst (prefetch_observe off len (prefetch_after (prefetch_new ahead trigger True) rs))"
    by (simp add: prefetch_after_def)
  have "snd (prefetch_observe off len (prefetch_after (prefetch_new ahead trigger True) rs)) =
      (if prefetch_sequential ?p then pf_max_ahead_frames ?p else 0)"
    unfolding p using prefetch_after_state [of ahead trigger rs] by (simp add: prefetch_observe_def Let_def)
  then show ?thesis
    using prefetch_after_state [of ahead trigger "(off, len) # rs"] by (auto simp: prefetch_sequential_def word_le_nat_alt)
qed

text \<open>Corruption reaches the reader as an input/output error, and every handler but one answers its request exactly once.\<close>

lemma integrity_is_eio: "is_integrity (ekind e) \<Longrightarrow> errno_for e = EIO"
  by (cases "ekind e") (simp_all add: errno_for_def)

lemma one_reply:
  "snd (ll_lookup ctx parent name) = Ok rs \<Longrightarrow> length rs = 1" "snd (ll_getattr ctx ino) = Ok rs \<Longrightarrow> length rs = 1"
  "snd (ll_open ctx ino rdonly fresh) = Ok rs \<Longrightarrow> length rs = 1" "snd (ll_release ctx fh) = Ok rs \<Longrightarrow> length rs = 1"
  "snd (ll_read X isa fuel alloc ctx ino sz off fh) = Ok rs \<Longrightarrow> length rs = 1" "snd (ll_forget ctx ino nlookup) = Ok rs \<Longrightarrow> length rs = 1"
  "snd (ll_opendir ctx ino) = Ok rs \<Longrightarrow> length rs = 1" "snd (ll_readdir entry_size ctx ino sz off) = Ok rs \<Longrightarrow> length rs = 1"
  by (auto simp: ll_lookup_def ll_getattr_def ll_open_def ll_release_def ll_read_def ll_forget_def ll_opendir_def ll_readdir_def Let_def
      split: if_splits option.splits prod.splits res.splits)

text \<open>
  Note: A batch of forgets is answered once per inode instead of once, and the lookup count goes down by the sum of the forgotten
  lookups, never below zero.
\<close>

theorem forget_multi_replies_each:
  assumes "sum_list (map (\<lambda>(ino, n). if ino = kFileIno then unat n else 0) fs) < 2 ^ 64"
  shows "snd (ll_forget_multi ctx fs) = Ok (replicate (length fs) RNone) \<and>
    unat (mx_lookup_count (fst (ll_forget_multi ctx fs))) =
      unat (mx_lookup_count ctx) - sum_list (map (\<lambda>(ino, n). if ino = kFileIno then unat n else 0) fs)"
  using assms
proof (induction ctx fs rule: ll_forget_multi.induct)
  case (2 ctx ino n rest)
  obtain ctx1 where one: "ll_forget ctx ino n = (ctx1, Ok [RNone])"
    by (cases "ll_forget ctx ino n") (auto simp: ll_forget_def Let_def split: if_splits)
  have count: "unat (mx_lookup_count ctx1) = unat (mx_lookup_count ctx) - (if ino = kFileIno then unat n else 0)"
    using one by (auto simp: ll_forget_def Let_def word_le_nat_alt unat_sub_if' word_gt_0 split: if_splits)
  obtain ctx2 r2 where rest: "ll_forget_multi ctx1 rest = (ctx2, r2)"
    by fastforce
  have "r2 = Ok (replicate (length rest) RNone)"
    "unat (mx_lookup_count ctx2) = unat (mx_lookup_count ctx1) - sum_list (map (\<lambda>(ino, n). if ino = kFileIno then unat n else 0) rest)"
    using "2.IH" [OF one [symmetric] refl] "2.prems" rest by auto
  then show ?case
    using one rest count by simp
qed simp

theorem forget_multi_replies_each_witness:
  "\<forall>ctx. snd (ll_forget_multi (ctx\<lparr>mx_lookup_count := 5\<rparr>) [(kFileIno, 2), (kFileIno, 9)]) = Ok [RNone, RNone]"
proof
  fix ctx :: MountCtx
  show "snd (ll_forget_multi (ctx\<lparr>mx_lookup_count := 5\<rparr>) [(kFileIno, 2), (kFileIno, 9)]) = Ok [RNone, RNone]"
    using forget_multi_replies_each [of "[(kFileIno, 2), (kFileIno, 9)]" "ctx\<lparr>mx_lookup_count := 5\<rparr>"] by simp
qed

end
