(* ===== verification/Util_Atomic.thy ===== *)
theory Util_Atomic
  imports Core_Oid
begin

section \<open>Durable writes\<close>

text \<open>
  \<open>util/src/atomic_io.cpp\<close>: the write primitive under every object, ref and journal record, on a model of a file system that can
  crash. System calls are functions on a disk; what the kernel decides (how much a \<open>write\<close> takes, which call fails, which random names are drawn) is an argument
  \<open>env\<close>. An operation returns the list of all disks it goes through, one per system call, and its result, so a crash can be put after every call.

  After a crash a directory entry is one of the values it had since the directory was last synced, and a
  file that was not synced since its last write has arbitrary contents.
\<close>

subsection \<open>Disks and system calls\<close>

datatype path = Path (pdir: string) (pname: string)

type_synonym inode = nat

text \<open>\<open>dk_entry p\<close> lists the values of the entry \<open>p\<close> that may be on the medium, the current one first; \<open>dk_dirty\<close> are the unsynced files.\<close>

record disk =
  dk_entry :: "path \<Rightarrow> inode option list"
  dk_data :: "inode \<Rightarrow> bytes"
  dk_dirty :: "inode set"
  dk_next :: inode

definition lookup :: "disk \<Rightarrow> path \<Rightarrow> inode option" where
  "lookup D p = hd (dk_entry D p)"

definition contents :: "disk \<Rightarrow> path \<Rightarrow> bytes option" where
  "contents D p = map_option (dk_data D) (lookup D p)"

definition set_entry :: "path \<Rightarrow> inode option \<Rightarrow> disk \<Rightarrow> disk" where
  "set_entry p e D = D\<lparr>dk_entry := (dk_entry D)(p := e # dk_entry D p)\<rparr>"

definition sys_create :: "path \<Rightarrow> disk \<Rightarrow> disk" where
  "sys_create p D = set_entry p (Some (dk_next D))
     (D\<lparr>dk_data := (dk_data D)(dk_next D := []), dk_dirty := insert (dk_next D) (dk_dirty D), dk_next := dk_next D + 1\<rparr>)"

definition sys_write :: "inode \<Rightarrow> bytes \<Rightarrow> disk \<Rightarrow> disk" where
  "sys_write i b D = D\<lparr>dk_data := (dk_data D)(i := dk_data D i @ b), dk_dirty := insert i (dk_dirty D)\<rparr>"

definition sys_fsync :: "inode \<Rightarrow> disk \<Rightarrow> disk" where
  "sys_fsync i D = D\<lparr>dk_dirty := dk_dirty D - {i}\<rparr>"

definition sys_rename :: "path \<Rightarrow> path \<Rightarrow> disk \<Rightarrow> disk" where
  "sys_rename a b D = set_entry a None (set_entry b (lookup D a) D)"

definition sys_unlink :: "path \<Rightarrow> disk \<Rightarrow> disk" where
  "sys_unlink p D = set_entry p None D"

definition sys_fsync_dir :: "string \<Rightarrow> disk \<Rightarrow> disk" where
  "sys_fsync_dir d D = D\<lparr>dk_entry := (\<lambda>p. if pdir p = d then [lookup D p] else dk_entry D p)\<rparr>"

definition crash :: "disk \<Rightarrow> disk \<Rightarrow> bool" where
  "crash D D' \<longleftrightarrow> (\<forall>p. \<exists>e \<in> set (dk_entry D p). dk_entry D' p = [e]) \<and> (\<forall>i. i \<notin> dk_dirty D \<longrightarrow> dk_data D' i = dk_data D i) \<and>
     dk_dirty D' = {} \<and> dk_next D' = dk_next D"

subsection \<open>atomic\_write\<close>

record AtomicWriteOptions =
  ao_temp_dir :: string
  ao_fsync_contents :: bool
  ao_fsync_parent :: bool
  ao_overwrite :: bool

datatype write_result = Wrote nat | Eintr | WriteError

record io_env =
  env_names :: "u64 list"
  env_open_ok :: "u64 \<Rightarrow> bool"
  env_writes :: "write_result list"
  env_fsync_ok :: bool
  env_rename_ok :: bool
  env_dirsync_ok :: bool
  env_remove_ok :: bool

text \<open>\<open>std::expected\<close> with an error code, and \<open>Blocked\<close> when \<open>write\<close> is interrupted or takes nothing for as long as the environment says.\<close>

datatype 'a expected = Value 'a | Unexpected | Blocked

text \<open>\<open>make_temp_name\<close>: \<open>snprintf(buf, 32, "tmp.%llx", r)\<close> of a random 64-bit number.\<close>

fun hex_digits :: "nat \<Rightarrow> string" where
  "hex_digits n = (if n < 16 then [kHex ! n] else hex_digits (n div 16) @ [kHex ! (n mod 16)])"

declare hex_digits.simps [simp del]

definition make_temp_name :: "string \<Rightarrow> u64 \<Rightarrow> path" where
  "make_temp_name dir r = Path dir (''tmp.'' @ hex_digits (unat r))"

text \<open>The loop over random names: at most eight, until one is free; an error other than \<open>EEXIST\<close> ends it.\<close>

fun open_temp :: "io_env \<Rightarrow> string \<Rightarrow> u64 list \<Rightarrow> nat \<Rightarrow> disk \<Rightarrow> (path \<times> disk) option" where
  "open_temp env temp_dir names 0 D = None"
| "open_temp env temp_dir [] (Suc n) D = None"
| "open_temp env temp_dir (r # names) (Suc n) D =
     (let tmp = make_temp_name temp_dir r
      in if lookup D tmp \<noteq> None then open_temp env temp_dir names n D
         else if env_open_ok env r then Some (tmp, sys_create tmp D)
         else None)"

fun write_loop :: "write_result list \<Rightarrow> inode \<Rightarrow> bytes \<Rightarrow> disk \<Rightarrow> disk list \<times> write_result list \<times> unit expected" where
  "write_loop ws i [] D = ([], ws, Value ())"
| "write_loop [] i (b # bs) D = ([], [], Blocked)"
| "write_loop (Wrote n # ws) i (b # bs) D =
     (let D1 = sys_write i (take n (b # bs)) D; (tr, r) = write_loop ws i (drop n (b # bs)) D1 in (D1 # tr, r))"
| "write_loop (Eintr # ws) i (b # bs) D = write_loop ws i (b # bs) D"
| "write_loop (WriteError # ws) i (b # bs) D = ([], ws, Unexpected)"

fun write_parts :: "write_result list \<Rightarrow> inode \<Rightarrow> bytes list \<Rightarrow> disk \<Rightarrow> disk list \<times> write_result list \<times> unit expected" where
  "write_parts ws i [] D = ([], ws, Value ())"
| "write_parts ws i (part # parts) D =
     (case write_loop ws i part D of
        (tr, ws1, Value _) \<Rightarrow> (let (tr', r) = write_parts ws1 i parts (last (D # tr)) in (tr @ tr', r))
      | (tr, ws1, r) \<Rightarrow> (tr, ws1, r))"

definition remove_temp :: "io_env \<Rightarrow> path \<Rightarrow> disk \<Rightarrow> disk" where
  "remove_temp env tmp D = (if env_remove_ok env then sys_unlink tmp D else D)"

definition atomic_write_impl ::
  "io_env \<Rightarrow> path \<Rightarrow> (write_result list \<Rightarrow> inode \<Rightarrow> disk \<Rightarrow> disk list \<times> write_result list \<times> unit expected) \<Rightarrow> AtomicWriteOptions \<Rightarrow> disk \<Rightarrow>
   disk list \<times> unit expected" where
  "atomic_write_impl env dest write_fn opts D =
     (if \<not> ao_overwrite opts \<and> lookup D dest \<noteq> None then ([D], Value ())
      else let temp_dir = (if ao_temp_dir opts \<noteq> [] then ao_temp_dir opts else pdir dest)
      in case open_temp env temp_dir (env_names env) 8 D of
           None \<Rightarrow> ([D], Unexpected)
         | Some (tmp, D1) \<Rightarrow>
             (case write_fn (env_writes env) (dk_next D) D1 of
                (tr, _, Blocked) \<Rightarrow> ([D, D1] @ tr, Blocked)
              | (tr, _, Unexpected) \<Rightarrow> ([D, D1] @ tr @ [remove_temp env tmp (last (D1 # tr))], Unexpected)
              | (tr, _, Value _) \<Rightarrow>
                  let D2 = last (D1 # tr)
                  in if ao_fsync_contents opts \<and> \<not> env_fsync_ok env then ([D, D1] @ tr @ [remove_temp env tmp D2], Unexpected)
                     else let D3 = (if ao_fsync_contents opts then sys_fsync (dk_next D) D2 else D2)
                     in if \<not> env_rename_ok env then ([D, D1] @ tr @ [D3, remove_temp env tmp D3], Unexpected)
                        else let D4 = sys_rename tmp dest D3
                        in if \<not> ao_fsync_parent opts then ([D, D1] @ tr @ [D3, D4], Value ())
                           else if env_dirsync_ok env then ([D, D1] @ tr @ [D3, D4, sys_fsync_dir (pdir dest) D4], Value ())
                           else ([D, D1] @ tr @ [D3, D4], Unexpected)))"

definition atomic_write :: "io_env \<Rightarrow> path \<Rightarrow> bytes \<Rightarrow> AtomicWriteOptions \<Rightarrow> disk \<Rightarrow> disk list \<times> unit expected" where
  "atomic_write env dest data opts = atomic_write_impl env dest (\<lambda>ws i. write_loop ws i data) opts"

definition atomic_write_v :: "io_env \<Rightarrow> path \<Rightarrow> bytes list \<Rightarrow> AtomicWriteOptions \<Rightarrow> disk \<Rightarrow> disk list \<times> unit expected" where
  "atomic_write_v env dest parts opts = atomic_write_impl env dest (\<lambda>ws i. write_parts ws i parts) opts"

definition read_file :: "disk \<Rightarrow> path \<Rightarrow> bytes expected" where
  "read_file D p = (case contents D p of None \<Rightarrow> Unexpected | Some b \<Rightarrow> Value b)"

text \<open>Compare and swap on a single-line file; one trailing newline (byte 10) of the file is ignored.\<close>

definition atomic_replace_if :: "io_env \<Rightarrow> path \<Rightarrow> bytes \<Rightarrow> bytes \<Rightarrow> AtomicWriteOptions \<Rightarrow> disk \<Rightarrow> disk list \<times> bool expected" where
  "atomic_replace_if env dest expected desired opts D =
     (let proceed = (case atomic_write env dest desired (opts\<lparr>ao_overwrite := True\<rparr>) D of
            (tr, Value _) \<Rightarrow> (tr, Value True) | (tr, Unexpected) \<Rightarrow> (tr, Unexpected) | (tr, Blocked) \<Rightarrow> (tr, Blocked))
      in if expected = [] then (if lookup D dest \<noteq> None then ([D], Value False) else proceed)
         else if lookup D dest = None then ([D], Value False)
         else case read_file D dest of
           Value cur \<Rightarrow>
             (let line = (if cur \<noteq> [] \<and> last cur = 10 then butlast cur else cur)
              in if line \<noteq> expected then ([D], Value False) else proceed)
         | _ \<Rightarrow> ([D], Unexpected))"

text \<open>
  \<open>purge_temp_dir\<close>: \<open>names\<close> is what the directory iterator lists, \<open>remove_ok\<close> which of them can be removed.
\<close>

fun purge_loop :: "(string \<Rightarrow> bool) \<Rightarrow> string \<Rightarrow> string list \<Rightarrow> disk \<Rightarrow> nat \<Rightarrow> disk \<times> nat" where
  "purge_loop remove_ok temp_dir [] D removed = (D, removed)"
| "purge_loop remove_ok temp_dir (x # names) D removed =
     (if remove_ok x then purge_loop remove_ok temp_dir names (sys_unlink (Path temp_dir x) D) (removed + 1)
      else purge_loop remove_ok temp_dir names D removed)"

definition purge_temp_dir :: "(string \<Rightarrow> bool) \<Rightarrow> string \<Rightarrow> string list \<Rightarrow> disk \<Rightarrow> disk \<times> nat" where
  "purge_temp_dir remove_ok temp_dir names D = purge_loop remove_ok temp_dir names D 0"

subsection \<open>Positioned reads and writes\<close>

text \<open>
  \<open>util/src/file.cpp\<close>: \<open>pread_all\<close> and \<open>pwrite_all\<close> on the bytes of a file; each call of the kernel moves as many bytes as the
  environment says, at most what is left of the buffer and, for a read, of the file. A write past the end fills the gap with zeros.
\<close>

fun pread_loop :: "write_result list \<Rightarrow> bytes \<Rightarrow> nat \<Rightarrow> nat \<Rightarrow> bytes \<Rightarrow> bytes expected" where
  "pread_loop ws fbytes want off got =
     (if want \<le> length got then Value got
      else case ws of
        [] \<Rightarrow> Blocked
      | WriteError # ws' \<Rightarrow> Unexpected
      | Eintr # ws' \<Rightarrow> pread_loop ws' fbytes want off got
      | Wrote n # ws' \<Rightarrow>
          (let piece = take (min n (want - length got)) (drop (off + length got) fbytes)
           in if piece = [] then Value got else pread_loop ws' fbytes want off (got @ piece)))"

declare pread_loop.simps [simp del]

definition pread_all :: "write_result list \<Rightarrow> bytes \<Rightarrow> nat \<Rightarrow> nat \<Rightarrow> bytes expected" where
  "pread_all ws fbytes want off = pread_loop ws fbytes want off []"

definition overlay :: "bytes \<Rightarrow> nat \<Rightarrow> bytes \<Rightarrow> bytes" where
  "overlay fbytes off b = take off (fbytes @ replicate (off - length fbytes) 0) @ b @ drop (off + length b) fbytes"

fun pwrite_loop :: "write_result list \<Rightarrow> bytes \<Rightarrow> bytes \<Rightarrow> nat \<Rightarrow> nat \<Rightarrow> bytes \<times> nat expected" where
  "pwrite_loop ws fbytes data off n =
     (if length data \<le> n then (fbytes, Value n)
      else case ws of
        [] \<Rightarrow> (fbytes, Blocked)
      | WriteError # ws' \<Rightarrow> (fbytes, Unexpected)
      | Eintr # ws' \<Rightarrow> pwrite_loop ws' fbytes data off n
      | Wrote k # ws' \<Rightarrow>
          (let piece = take k (drop n data)
           in if piece = [] then (fbytes, Value n) else pwrite_loop ws' (overlay fbytes (off + n) piece) data off (n + length piece)))"

declare pwrite_loop.simps [simp del]

definition pwrite_all :: "write_result list \<Rightarrow> bytes \<Rightarrow> bytes \<Rightarrow> nat \<Rightarrow> bytes \<times> nat expected" where
  "pwrite_all ws fbytes data off = pwrite_loop ws fbytes data off 0"

text \<open>What \<open>pread_all\<close> returns is a prefix of the range asked for: the whole of it when its length says so.\<close>

lemma take_own_length: "b = take n R \<Longrightarrow> b = take (length b) R"
  by (simp add: min_def)

lemma pread_loop_prefix:
  assumes "pread_loop ws fbytes want off got = Value out" "got = take (length got) (take want (drop off fbytes))"
  shows "out = take (length out) (take want (drop off fbytes))"
  using assms
proof (induction ws fbytes want off got rule: pread_loop.induct)
  case (1 ws fbytes want off got)
  show ?case
  proof (cases "want \<le> length got")
    case True
    then show ?thesis using 1(3,4) by (simp add: pread_loop.simps [of ws])
  next
    case False
    have ext: "got @ take k (drop (off + length got) fbytes) = take (length (got @ take k (drop (off + length got) fbytes))) (take want (drop off fbytes))"
      if "k \<le> want - length got" for k
    proof -
      let ?R = "take want (drop off fbytes)"
      have "take k (drop (off + length got) fbytes) = take k (drop (length got) ?R)"
        using that by (simp add: drop_take add.commute min_absorb1)
      then have "got @ take k (drop (off + length got) fbytes) = take (length got + k) ?R"
        using 1(4) by (simp only: take_add)
      then show ?thesis by (rule take_own_length)
    qed
    show ?thesis using 1(1,2) [OF False] 1(3,4) False ext
      by (auto simp: pread_loop.simps [of ws] Let_def split: list.splits write_result.splits if_splits)
  qed
qed

lemma pread_all_exact:
  assumes "pread_all ws fbytes want off = Value out" "length out = want"
  shows "out = take want (drop off fbytes)"
  using pread_loop_prefix [of ws fbytes want off "[]" out] assms unfolding pread_all_def by simp

subsection \<open>What the system calls do\<close>

definition temp_path :: "path \<Rightarrow> bool" where
  "temp_path p \<longleftrightarrow> take 4 (pname p) = ''tmp.''"

definition wf_disk :: "disk \<Rightarrow> bool" where
  "wf_disk D \<longleftrightarrow> (\<forall>p. dk_entry D p \<noteq> [] \<and> (\<forall>i. Some i \<in> set (dk_entry D p) \<longrightarrow> i < dk_next D))"

lemma wf_diskD: "wf_disk D \<Longrightarrow> Some i \<in> set (dk_entry D p) \<Longrightarrow> i < dk_next D"
  unfolding wf_disk_def by blast

lemma wf_disk_ne: "wf_disk D \<Longrightarrow> dk_entry D p \<noteq> []"
  unfolding wf_disk_def by blast

text \<open>The contents \<open>p\<close> may have after a crash, when the files it may name are synced.\<close>

definition settled :: "disk \<Rightarrow> path \<Rightarrow> bool" where
  "settled D p \<longleftrightarrow> (\<forall>i. Some i \<in> set (dk_entry D p) \<longrightarrow> i \<notin> dk_dirty D)"

definition candidates :: "disk \<Rightarrow> path \<Rightarrow> bytes option set" where
  "candidates D p = map_option (dk_data D) ` set (dk_entry D p)"

lemma temp_path_make_temp_name [simp]: "temp_path (make_temp_name d r)"
  by (simp add: temp_path_def make_temp_name_def)

lemma crash_contents:
  assumes "crash D D'" "settled D p"
  shows "contents D' p \<in> candidates D p"
proof -
  obtain e where e: "e \<in> set (dk_entry D p)" "dk_entry D' p = [e]" using assms(1) unfolding crash_def by blast
  have "map_option (dk_data D') e = map_option (dk_data D) e"
    using assms e unfolding crash_def settled_def by (cases e) auto
  then show ?thesis using e unfolding contents_def lookup_def candidates_def by force
qed

lemma contents_candidate: "wf_disk D \<Longrightarrow> contents D p \<in> candidates D p"
  unfolding contents_def lookup_def candidates_def wf_disk_def by (intro imageI hd_in_set) blast

text \<open>
  \<open>within D dest data D'\<close>: the only thing \<open>D'\<close> adds to the entries readers look at is the new, complete and synced file under \<open>dest\<close>;
  no file of \<open>D\<close> has changed.
\<close>

definition within :: "disk \<Rightarrow> path \<Rightarrow> bytes \<Rightarrow> disk \<Rightarrow> bool" where
  "within D dest data D' \<longleftrightarrow> wf_disk D' \<and> dk_next D \<le> dk_next D' \<and> dk_dirty D' \<subseteq> insert (dk_next D) (dk_dirty D) \<and>
     (\<forall>j < dk_next D. dk_data D' j = dk_data D j) \<and>
     (\<forall>p e. \<not> temp_path p \<longrightarrow> e \<in> set (dk_entry D' p) \<longrightarrow> e \<in> set (dk_entry D p) \<or>
        p = dest \<and> e = Some (dk_next D) \<and> dk_data D' (dk_next D) = data \<and> dk_next D \<notin> dk_dirty D')"

lemma within_refl: "wf_disk D \<Longrightarrow> within D dest data D"
  unfolding within_def by auto

lemma within_entry:
  assumes "within D dest data D'" "\<not> temp_path p" "e \<in> set (dk_entry D' p)"
  shows "e \<in> set (dk_entry D p) \<or> p = dest \<and> e = Some (dk_next D) \<and> dk_data D' (dk_next D) = data \<and> dk_next D \<notin> dk_dirty D'"
  using assms unfolding within_def by blast

lemma within_old:
  assumes "within D dest data D'" "wf_disk D" "Some i \<in> set (dk_entry D p)"
  shows "dk_data D' i = dk_data D i" "i \<in> dk_dirty D' \<Longrightarrow> i \<in> dk_dirty D"
  using assms(1) wf_diskD [OF assms(2,3)] unfolding within_def by auto

lemma within_settled:
  assumes "within D dest data D'" "wf_disk D" "settled D p" "\<not> temp_path p"
  shows "settled D' p"
  unfolding settled_def
proof (intro allI impI)
  fix i assume "Some i \<in> set (dk_entry D' p)"
  then consider "Some i \<in> set (dk_entry D p)" | "i = dk_next D" "dk_next D \<notin> dk_dirty D'"
    using within_entry [OF assms(1,4)] by blast
  then show "i \<notin> dk_dirty D'"
    by cases (use within_old(2) [OF assms(1,2), of i p] assms(3) in \<open>auto simp: settled_def\<close>)
qed

lemma within_candidates:
  assumes "within D dest data D'" "wf_disk D" "\<not> temp_path p"
  shows "candidates D' p \<subseteq> candidates D p \<union> (if p = dest then {Some data} else {})"
proof
  fix c assume "c \<in> candidates D' p"
  then obtain e where e: "e \<in> set (dk_entry D' p)" "c = map_option (dk_data D') e" unfolding candidates_def by blast
  consider "e \<in> set (dk_entry D p)" | "p = dest" "e = Some (dk_next D)" "dk_data D' (dk_next D) = data"
    using within_entry [OF assms(1,3) e(1)] by blast
  then show "c \<in> candidates D p \<union> (if p = dest then {Some data} else {})"
  proof cases
    case old: 1
    have "map_option (dk_data D') e = map_option (dk_data D) e"
      by (rule option.map_cong0) (use within_old(1) [OF assms(1,2)] old in auto)
    then show ?thesis using e old unfolding candidates_def by auto
  qed (use e in auto)
qed

text \<open>The stages of a write: the new file under its temporary name with bytes \<open>b\<close>, then perhaps synced, renamed, its directory synced.\<close>

definition staged :: "disk \<Rightarrow> path \<Rightarrow> bytes \<Rightarrow> disk" where
  "staged D tmp b = sys_write (dk_next D) b (sys_create tmp D)"

lemmas sys_defs = sys_create_def sys_write_def sys_fsync_def sys_rename_def sys_unlink_def sys_fsync_dir_def set_entry_def

lemma sys_create_staged: "sys_create tmp D = staged D tmp []"
  by (simp add: staged_def sys_defs insert_absorb)

lemma sys_write_staged: "sys_write (dk_next D) b (staged D tmp a) = staged D tmp (a @ b)"
  by (simp add: staged_def sys_defs)

lemma wf_set_entry: "wf_disk D \<Longrightarrow> (\<And>i. e = Some i \<Longrightarrow> i < dk_next D) \<Longrightarrow> wf_disk (set_entry p e D)"
  by (auto simp: wf_disk_def set_entry_def)

lemma wf_staged: "wf_disk D \<Longrightarrow> wf_disk (staged D tmp b)"
  by (fastforce simp: wf_disk_def staged_def sys_defs)

lemma within_staged: "wf_disk D \<Longrightarrow> temp_path tmp \<Longrightarrow> within D dest data (staged D tmp b)"
  unfolding within_def using wf_staged [of D tmp b] by (auto simp: staged_def sys_defs split: if_splits)

lemma within_shrink:
  assumes "within D dest data D1" "wf_disk D2" "dk_next D2 = dk_next D1" "dk_dirty D2 \<subseteq> dk_dirty D1" "dk_data D2 = dk_data D1"
    and "\<And>p. \<not> temp_path p \<Longrightarrow> set (dk_entry D2 p) \<subseteq> set (dk_entry D1 p)"
  shows "within D dest data D2"
  unfolding within_def
proof (intro conjI allI impI)
  fix p e assume "\<not> temp_path p" "e \<in> set (dk_entry D2 p)"
  then show "e \<in> set (dk_entry D p) \<or> p = dest \<and> e = Some (dk_next D) \<and> dk_data D2 (dk_next D) = data \<and> dk_next D \<notin> dk_dirty D2"
    using within_entry [OF assms(1), of p e] assms(4-6) by auto
qed (use assms in \<open>auto simp: within_def\<close>)

lemma within_wf: "within D dest data D' \<Longrightarrow> wf_disk D'"
  unfolding within_def by blast

lemma within_fsync: "within D dest data D' \<Longrightarrow> within D dest data (sys_fsync i D')"
  by (rule within_shrink) (auto simp: wf_disk_def sys_fsync_def dest: within_wf)

lemma within_remove: "within D dest data D' \<Longrightarrow> temp_path tmp \<Longrightarrow> within D dest data (remove_temp env tmp D')"
  unfolding remove_temp_def sys_unlink_def
  by (cases "env_remove_ok env"; simp; rule within_shrink [where ?D1.0 = D']; auto simp: set_entry_def dest: within_wf intro: wf_set_entry [unfolded set_entry_def])

lemma wf_fsync_dir: "wf_disk D \<Longrightarrow> wf_disk (sys_fsync_dir d D)"
  unfolding wf_disk_def sys_fsync_dir_def lookup_def by (simp add: hd_in_set) (metis hd_in_set)

lemma within_fsync_dir: "within D dest data D' \<Longrightarrow> within D dest data (sys_fsync_dir d D')"
  by (rule within_shrink)
    (auto simp: sys_fsync_dir_def lookup_def wf_disk_ne [OF within_wf] dest: within_wf intro: wf_fsync_dir [unfolded sys_fsync_dir_def])

lemma within_rename:
  assumes "wf_disk D" "temp_path tmp" "\<not> temp_path dest"
  shows "within D dest data (sys_rename tmp dest (sys_fsync (dk_next D) (staged D tmp data)))" (is "within D dest data ?D")
proof -
  have "wf_disk ?D" unfolding sys_rename_def
    by (intro wf_set_entry; use wf_staged [OF assms(1), of tmp data] in \<open>auto simp: wf_disk_def staged_def sys_defs lookup_def\<close>)
  then show ?thesis unfolding within_def
    using assms by (auto simp: staged_def sys_defs lookup_def split: if_splits)
qed

subsection \<open>A write is atomic and, on success, durable\<close>

text \<open>
  The contract of the callback \<open>write_fn\<close> of \<open>atomic_write_impl\<close>: it only appends to the open file, and when it succeeds it has
  appended exactly the payload.
\<close>

locale file_writer =
  fixes write_fn :: "write_result list \<Rightarrow> inode \<Rightarrow> disk \<Rightarrow> disk list \<times> write_result list \<times> unit expected"
    and payload :: bytes
  assumes appends: "write_fn ws (dk_next D) (staged D tmp a) = (tr, ws', r) \<Longrightarrow> D' \<in> set tr \<Longrightarrow> \<exists>b. D' = staged D tmp b"
    and complete: "write_fn ws (dk_next D) (staged D tmp a) = (tr, ws', Value u) \<Longrightarrow> last (staged D tmp a # tr) = staged D tmp (a @ payload)"
begin

lemma last_staged:
  assumes "write_fn ws (dk_next D) (staged D tmp a) = (tr, ws', r)"
  shows "\<exists>b. last (staged D tmp a # tr) = staged D tmp b"
proof (cases "tr = []")
  case False
  then show ?thesis using appends [OF assms, of "last tr"] by simp
qed auto

end

lemma open_temp_some:
  assumes "open_temp env temp_dir names n D = Some (tmp, D1)"
  shows "temp_path tmp \<and> lookup D tmp = None \<and> D1 = staged D tmp []"
  using assms
  by (induction env temp_dir names n D rule: open_temp.induct) (auto simp: Let_def sys_create_staged split: if_splits)

text \<open>The disks a write passes through before its rename.\<close>

inductive unrenamed :: "disk \<Rightarrow> path \<Rightarrow> disk \<Rightarrow> bool" for D :: disk and tmp :: path where
  start: "unrenamed D tmp D"
| staged: "unrenamed D tmp (staged D tmp b)"
| synced: "unrenamed D tmp D' \<Longrightarrow> unrenamed D tmp (sys_fsync i D')"
| removed: "unrenamed D tmp D' \<Longrightarrow> unrenamed D tmp (remove_temp env tmp D')"

lemma unrenamed_within: "unrenamed D tmp D' \<Longrightarrow> wf_disk D \<Longrightarrow> temp_path tmp \<Longrightarrow> within D dest data D'"
  by (induction rule: unrenamed.induct) (auto intro: within_refl within_staged within_fsync within_remove)

lemma unrenamed_entries: "unrenamed D tmp D' \<Longrightarrow> p \<noteq> tmp \<Longrightarrow> dk_entry D' p = dk_entry D p"
  by (induction rule: unrenamed.induct) (auto simp: staged_def sys_defs remove_temp_def)

text \<open>The three ways through \<open>atomic_write_impl\<close>: nothing was to be done, it stopped before the rename, or it renamed the complete file.\<close>

context file_writer
begin

lemma impl_cases:
  assumes w: "atomic_write_impl env dest write_fn opts D = (tr, r)"
  obtains (noop) "\<not> ao_overwrite opts" "lookup D dest \<noteq> None" "tr = [D]" "r = Value ()"
    | (stopped) tmp where "temp_path tmp" "r \<noteq> Value ()"
        "\<And>D'. D' \<in> set tr \<Longrightarrow> unrenamed D tmp D'"
    | (renamed) tmp D3 D4 tr0 where "temp_path tmp" "D3 = (if ao_fsync_contents opts then sys_fsync (dk_next D) (staged D tmp payload) else staged D tmp payload)"
        "D4 = sys_rename tmp dest D3"
        "\<And>D'. D' \<in> set tr0 \<Longrightarrow> unrenamed D tmp D'"
        "tr = tr0 @ [D3, D4] @ (if ao_fsync_parent opts \<and> env_dirsync_ok env then [sys_fsync_dir (pdir dest) D4] else [])"
        "r = (if ao_fsync_parent opts \<and> \<not> env_dirsync_ok env then Unexpected else Value ())"
proof (cases "\<not> ao_overwrite opts \<and> lookup D dest \<noteq> None")
  case True
  then show thesis using w noop unfolding atomic_write_impl_def by simp
next
  case go: False
  let ?dir = "if ao_temp_dir opts \<noteq> [] then ao_temp_dir opts else pdir dest"
  note imp = w [unfolded atomic_write_impl_def Let_def, simplified go if_False]
  show thesis
  proof (cases "open_temp env ?dir (env_names env) 8 D")
    case None
    show thesis by (rule stopped [of "make_temp_name [] 0"]) (use imp None in \<open>auto simp: Let_def intro: unrenamed.intros\<close>)
  next
    case (Some td)
    obtain tmp D1 where td: "td = (tmp, D1)" by (cases td)
    note o = open_temp_some [OF Some [unfolded td]]
    obtain tr1 ws1 r1 where f: "write_fn (env_writes env) (dk_next D) (staged D tmp []) = (tr1, ws1, r1)" by (cases "write_fn (env_writes env) (dk_next D) (staged D tmp [])")
    have app: "unrenamed D tmp D'" if "D' \<in> set tr1" for D'
      using appends [OF f that] unrenamed.staged by blast
    obtain b where b: "last (staged D tmp [] # tr1) = staged D tmp b" using last_staged [OF f] by blast
    note imp = imp [unfolded Some td prod.case option.case, simplified o f prod.case]
    show thesis
    proof (cases r1)
      case Blocked
      show thesis by (rule stopped [of tmp]) (use imp Blocked o in \<open>auto intro!: unrenamed.intros dest!: app\<close>)
    next
      case Unexpected
      show thesis by (rule stopped [of tmp]) (use imp Unexpected o b in \<open>auto intro!: unrenamed.intros dest!: app\<close>)
    next
      case (Value u)
      have l: "last (staged D tmp [] # tr1) = staged D tmp payload" using complete [OF f [unfolded Value]] by simp
      show thesis
      proof (cases "ao_fsync_contents opts \<and> \<not> env_fsync_ok env \<or> \<not> env_rename_ok env")
        case True
        show thesis by (rule stopped [of tmp]) (use imp Value o l True in \<open>auto split: if_splits intro!: unrenamed.intros dest!: app\<close>)
      next
        case False
        show thesis by (rule renamed [of tmp _ _ "D # staged D tmp [] # tr1"]) (use imp Value o l False in \<open>auto split: if_splits intro!: unrenamed.intros dest!: app\<close>)
      qed
    qed
  qed
qed

lemma impl_within:
  assumes "atomic_write_impl env dest write_fn opts D = (tr, r)" "D' \<in> set tr"
    and "wf_disk D" "\<not> temp_path dest" "ao_fsync_contents opts"
  shows "within D dest payload D'"
  using assms(1)
proof (cases rule: impl_cases)
  case (renamed tmp D3 D4 tr0)
  have D3: "D3 = sys_fsync (dk_next D) (staged D tmp payload)" using renamed assms by simp
  have "within D dest payload D3" using assms renamed unfolding D3 by (intro within_fsync within_staged) auto
  moreover have "within D dest payload D4" unfolding renamed(3) D3 using within_rename [OF assms(3) renamed(1) assms(4)] .
  ultimately show ?thesis using renamed assms
    by (auto split: if_splits intro: unrenamed_within within_fsync_dir)
qed (use assms in \<open>auto intro: within_refl unrenamed_within\<close>)

lemma impl_durable:
  assumes "atomic_write_impl env dest write_fn opts D = (tr, Value u)"
    and "ao_overwrite opts \<or> lookup D dest = None" "\<not> temp_path dest"
  shows "contents (last tr) dest = Some payload"
    and "ao_fsync_contents opts \<Longrightarrow> ao_fsync_parent opts \<Longrightarrow> candidates (last tr) dest = {Some payload}"
proof -
  have *: "contents (last tr) dest = Some payload \<and> (ao_fsync_contents opts \<longrightarrow> ao_fsync_parent opts \<longrightarrow> candidates (last tr) dest = {Some payload})"
    using assms(1)
  proof (cases rule: impl_cases)
    case (renamed tmp D3 D4 tr0)
    have "tmp \<noteq> dest" using renamed(1) assms(3) by blast
    then show ?thesis using renamed by (auto simp: contents_def lookup_def candidates_def staged_def sys_defs split: if_splits)
  qed (use assms in auto)
  show "contents (last tr) dest = Some payload" using * by blast
  show "ao_fsync_contents opts \<Longrightarrow> ao_fsync_parent opts \<Longrightarrow> candidates (last tr) dest = {Some payload}" using * by blast
qed

lemma impl_error:
  assumes "atomic_write_impl env dest write_fn opts D = (tr, r)" "r \<noteq> Value ()" "\<not> temp_path dest"
  shows "(\<forall>p. \<not> temp_path p \<longrightarrow> dk_entry (last tr) p = dk_entry D p) \<or> ao_fsync_parent opts \<and> \<not> env_dirsync_ok env \<and> contents (last tr) dest = Some payload"
  using assms(1)
proof (cases rule: impl_cases)
  case (stopped tmp)
  have "tr \<noteq> []" using assms(1) unfolding atomic_write_impl_def by (auto simp: Let_def split: if_splits option.splits prod.splits expected.splits)
  then show ?thesis using stopped(3) [of "last tr"] unrenamed_entries stopped(1) by (metis last_in_set)
next
  case (renamed tmp D3 D4 tr0)
  have "tmp \<noteq> dest" using renamed(1) assms(3) by blast
  then show ?thesis using renamed assms(2) by (auto simp: contents_def lookup_def staged_def sys_defs split: if_splits)
qed (use assms in auto)

end

subsection \<open>The two writers\<close>

lemma write_loop_staged:
  assumes "write_loop ws (dk_next D) bs (staged D tmp a) = (tr, ws', r)"
  shows "(\<forall>D' \<in> set tr. \<exists>b. D' = staged D tmp b) \<and> (\<forall>u. r = Value u \<longrightarrow> last (staged D tmp a # tr) = staged D tmp (a @ bs))"
  using assms
proof (induction ws "dk_next D" bs "staged D tmp a" arbitrary: a tr rule: write_loop.induct)
  case (3 n ws b bs)
  obtain tr1 where tr1: "write_loop ws (dk_next D) (drop n (b # bs)) (staged D tmp (a @ take n (b # bs))) = (tr1, ws', r)" "tr = staged D tmp (a @ take n (b # bs)) # tr1"
    using 3(2) by (auto simp: Let_def sys_write_staged split: prod.splits)
  have "(\<forall>D' \<in> set tr1. \<exists>b. D' = staged D tmp b) \<and>
    (\<forall>u. r = Value u \<longrightarrow> last (staged D tmp (a @ take n (b # bs)) # tr1) = staged D tmp ((a @ take n (b # bs)) @ drop n (b # bs)))"
    by (rule 3(1)) (use tr1 in \<open>auto simp: sys_write_staged\<close>)
  then show ?case using tr1(2) by auto
qed auto

interpretation one: file_writer "\<lambda>ws i. write_loop ws i data" data for data
  by unfold_locales (use write_loop_staged in fast)+

lemma write_parts_staged:
  assumes "write_parts ws (dk_next D) parts (staged D tmp a) = (tr, ws', r)"
  shows "(\<forall>D' \<in> set tr. \<exists>b. D' = staged D tmp b) \<and> (\<forall>u. r = Value u \<longrightarrow> last (staged D tmp a # tr) = staged D tmp (a @ concat parts))"
  using assms
proof (induction parts arbitrary: ws a tr)
  case (Cons part parts)
  obtain tr1 ws1 r1 where w: "write_loop ws (dk_next D) part (staged D tmp a) = (tr1, ws1, r1)"
    by (cases "write_loop ws (dk_next D) part (staged D tmp a)")
  note one = write_loop_staged [OF w]
  show ?case
  proof (cases r1)
    case (Value u)
    have l: "last (staged D tmp a # tr1) = staged D tmp (a @ part)" using one Value by blast
    obtain tr2 where w2: "write_parts ws1 (dk_next D) parts (staged D tmp (a @ part)) = (tr2, ws', r)" "tr = tr1 @ tr2"
      using Cons(2) unfolding write_parts.simps w prod.case l Value expected.case by (auto split: prod.splits)
    show ?thesis using Cons(1) [OF w2(1)] one l w2(2) by (cases "tr2 = []") auto
  qed (use Cons(2) w one in auto)
qed simp

interpretation many: file_writer "\<lambda>ws i. write_parts ws i parts" "concat parts" for parts
  by unfold_locales (use write_parts_staged in fast)+

subsection \<open>Crash safety\<close>

lemma atomic_write_within:
  assumes "atomic_write env dest data opts D = (tr, r)" "D' \<in> set tr" "wf_disk D" "\<not> temp_path dest" "ao_fsync_contents opts"
  shows "within D dest data D'"
  using one.impl_within assms unfolding atomic_write_def by blast

lemma atomic_write_crash:
  assumes "atomic_write env dest data opts D = (tr, r)" "D' \<in> set tr" "crash D' D''"
    and "wf_disk D" "\<not> temp_path dest" "ao_fsync_contents opts"
  shows "settled D dest \<Longrightarrow> contents D'' dest \<in> insert (Some data) (candidates D dest)"
    and "\<not> temp_path p \<Longrightarrow> p \<noteq> dest \<Longrightarrow> settled D p \<Longrightarrow> contents D'' p \<in> candidates D p"
proof -
  note w = atomic_write_within [OF assms(1,2,4-6)]
  have c: "contents D'' q \<in> candidates D' q" if "settled D q" "\<not> temp_path q" for q
    using crash_contents [OF assms(3) within_settled [OF w assms(4) that]] .
  show "settled D dest \<Longrightarrow> contents D'' dest \<in> insert (Some data) (candidates D dest)"
    using c assms(5) within_candidates [OF w assms(4), of dest] by auto
  show "\<not> temp_path p \<Longrightarrow> p \<noteq> dest \<Longrightarrow> settled D p \<Longrightarrow> contents D'' p \<in> candidates D p"
    using c within_candidates [OF w assms(4), of p] by auto
qed

text \<open>
  Note: a crash after any system call of \<open>atomic_write\<close> leaves the destination with contents it could have had without the call or with exactly the
  new data, and leaves every other path a reader looks at as it was; when the call has returned success, only the new data is possible.
\<close>

theorem atomic_write_crash_safe:
  assumes "atomic_write env dest data opts D = (tr, r)" "D' \<in> set tr" "crash D' D''"
    and "wf_disk D" "\<not> temp_path dest" "settled D dest" "ao_fsync_contents opts"
  shows "contents D'' dest \<in> insert (Some data) (candidates D dest) \<and>
    (\<forall>p. \<not> temp_path p \<and> p \<noteq> dest \<and> settled D p \<longrightarrow> contents D'' p \<in> candidates D p) \<and>
    (r = Value () \<and> D' = last tr \<and> ao_fsync_parent opts \<and> (ao_overwrite opts \<or> lookup D dest = None) \<longrightarrow> contents D'' dest = Some data)"
proof -
  have "candidates D' dest = {Some data}" if "r = Value ()" "D' = last tr" "ao_fsync_parent opts" "ao_overwrite opts \<or> lookup D dest = None"
    using one.impl_durable(2) [OF _ that(4) assms(5,7) that(3)] assms(1) that(1,2) unfolding atomic_write_def by blast
  moreover have "contents D'' dest \<in> candidates D' dest"
    using crash_contents [OF assms(3)] within_settled [OF atomic_write_within [OF assms(1,2,4,5,7)] assms(4,6,5)] .
  ultimately have "contents D'' dest = Some data" if "r = Value () \<and> D' = last tr \<and> ao_fsync_parent opts \<and> (ao_overwrite opts \<or> lookup D dest = None)"
    using that by auto
  then show ?thesis using atomic_write_crash [OF assms(1-5,7)] assms(6) by simp
qed

text \<open>A sequence of writes, as the store composes them: the first error ends it.\<close>

type_synonym write_call = "io_env \<times> AtomicWriteOptions \<times> path \<times> bytes"

fun run_writes :: "write_call list \<Rightarrow> disk \<Rightarrow> disk list \<times> unit expected" where
  "run_writes [] D = ([D], Value ())"
| "run_writes ((env, opts, dest, data) # ws) D =
     (case atomic_write env dest data opts D of
        (tr, Value _) \<Rightarrow> (let (tr', r) = run_writes ws (last tr) in (tr @ tr', r))
      | (tr, r) \<Rightarrow> (tr, r))"

fun durable_call :: "disk \<Rightarrow> write_call \<Rightarrow> bool" where
  "durable_call D (env, opts, dest, data) \<longleftrightarrow> ao_fsync_contents opts \<and> ao_fsync_parent opts \<and> \<not> temp_path dest \<and> settled D dest \<and>
     (ao_overwrite opts \<or> set (dk_entry D dest) = {None})"

abbreviation call_dest :: "write_call \<Rightarrow> path" where "call_dest w \<equiv> fst (snd (snd w))"
abbreviation call_data :: "write_call \<Rightarrow> bytes" where "call_data w \<equiv> snd (snd (snd w))"

definition outcome :: "disk \<Rightarrow> write_call \<Rightarrow> nat \<Rightarrow> nat \<Rightarrow> bytes option set" where
  "outcome D w j k =
     (if j < k then {Some (call_data w)}
      else if j = k then insert (Some (call_data w)) (candidates D (call_dest w))
      else candidates D (call_dest w))"

definition crash_prefix :: "disk \<Rightarrow> write_call list \<Rightarrow> nat \<Rightarrow> disk \<Rightarrow> bool" where
  "crash_prefix D ws k D'' \<longleftrightarrow>
     (\<forall>j < length ws. contents D'' (call_dest (ws ! j)) \<in> outcome D (ws ! j) j k) \<and>
     (\<forall>p. \<not> temp_path p \<and> settled D p \<and> p \<notin> call_dest ` set ws \<longrightarrow> contents D'' p \<in> candidates D p)"

lemma outcome_Suc:
  assumes "c \<in> outcome E w i k" "candidates E (call_dest w) \<subseteq> candidates D (call_dest w)"
  shows "c \<in> outcome D w (Suc i) (Suc k)"
  using assms unfolding outcome_def by (auto split: if_splits)

lemma all_less_Cons: "(\<forall>j < length (x # xs). P j) \<longleftrightarrow> P 0 \<and> (\<forall>j < length xs. P (Suc j))"
  by (auto simp: less_Suc_eq_0_disj)

lemma durable_callD: "durable_call D w \<Longrightarrow> \<not> temp_path (call_dest w) \<and> settled D (call_dest w)"
  by (cases w) auto

lemma lookup_none: "wf_disk D \<Longrightarrow> set (dk_entry D p) = {None} \<Longrightarrow> lookup D p = None"
  unfolding lookup_def using hd_in_set [OF wf_disk_ne [of D p]] by fastforce

lemma atomic_write_ne: "atomic_write env dest data opts D = (tr, r) \<Longrightarrow> tr \<noteq> []"
  unfolding atomic_write_def atomic_write_impl_def
  by (auto simp: Let_def split: if_splits option.splits prod.splits expected.splits)

lemma durable_call_step:
  assumes "within D dest data D'" "wf_disk D" "durable_call D w" "call_dest w \<noteq> dest"
  shows "durable_call D' w"
proof -
  obtain env opts q b where w: "w = (env, opts, q, b)" by (cases w)
  have "set (dk_entry D' q) = {None}" if n: "set (dk_entry D q) = {None}"
    using within_entry [OF assms(1), of q] wf_disk_ne [OF within_wf [OF assms(1)], of q] assms(3,4) n unfolding w
    by (cases "dk_entry D' q") auto
  then show ?thesis using assms within_settled [OF assms(1,2), of q] unfolding w by auto
qed

lemma crash_prefix_0:
  assumes "contents D'' dest \<in> insert (Some data) (candidates D dest)"
    and "\<And>p. \<not> temp_path p \<Longrightarrow> p \<noteq> dest \<Longrightarrow> settled D p \<Longrightarrow> contents D'' p \<in> candidates D p"
    and "\<forall>w \<in> set ws. durable_call D w" "dest \<notin> call_dest ` set ws"
  shows "crash_prefix D ((env, opts, dest, data) # ws) 0 D''"
proof -
  have "contents D'' (call_dest (ws ! j)) \<in> outcome D (ws ! j) (Suc j) 0" if "j < length ws" for j
    using assms(2) [of "call_dest (ws ! j)"] durable_callD [of D "ws ! j"] assms(3,4) nth_mem [OF that] unfolding outcome_def by force
  then show ?thesis unfolding crash_prefix_def all_less_Cons using assms(1,2) by (auto simp: outcome_def)
qed

lemma crash_prefix_Suc:
  assumes "crash_prefix E ws k D''" "\<not> temp_path dest" "settled E dest" "candidates E dest = {Some data}"
    and old: "\<And>p. \<not> temp_path p \<Longrightarrow> p \<noteq> dest \<Longrightarrow> candidates E p \<subseteq> candidates D p \<and> (settled D p \<longrightarrow> settled E p)"
    and ws: "\<forall>w \<in> set ws. durable_call D w" "dest \<notin> call_dest ` set ws"
  shows "crash_prefix D ((env, opts, dest, data) # ws) (Suc k) D''"
proof -
  have "contents D'' dest \<in> candidates E dest" using assms(1-3) ws(2) unfolding crash_prefix_def by blast
  then have 0: "contents D'' dest = Some data" using assms(4) by simp
  have "contents D'' (call_dest (ws ! j)) \<in> outcome D (ws ! j) (Suc j) (Suc k)" if "j < length ws" for j
  proof (rule outcome_Suc)
    show "contents D'' (call_dest (ws ! j)) \<in> outcome E (ws ! j) j k" using assms(1) that unfolding crash_prefix_def by blast
    show "candidates E (call_dest (ws ! j)) \<subseteq> candidates D (call_dest (ws ! j))"
      using old [of "call_dest (ws ! j)"] durable_callD [of D "ws ! j"] ws nth_mem [OF that] by force
  qed
  moreover have "contents D'' p \<in> candidates D p" if "\<not> temp_path p" "settled D p" "p \<noteq> dest" "p \<notin> call_dest ` set ws" for p
    using old [OF that(1,3)] that assms(1) unfolding crash_prefix_def by blast
  ultimately show ?thesis using 0 unfolding crash_prefix_def all_less_Cons by (auto simp: outcome_def)
qed


text \<open>
  C36: when \<open>atomic_write\<close> returns an error, no entry a reader looks at has changed, with one exception: the directory sync after the
  rename failed, and then the destination already holds the complete new data.
\<close>

theorem atomic_write_error:
  assumes "atomic_write env dest data opts D = (tr, r)" "r \<noteq> Value ()" "\<not> temp_path dest"
  shows "(\<forall>p. \<not> temp_path p \<longrightarrow> dk_entry (last tr) p = dk_entry D p) \<or>
    ao_fsync_parent opts \<and> \<not> env_dirsync_ok env \<and> contents (last tr) dest = Some data"
  using one.impl_error assms unfolding atomic_write_def by blast

lemma atomic_write_success:
  assumes "atomic_write env dest data opts D = (tr, Value ())" "ao_overwrite opts \<or> lookup D dest = None" "\<not> temp_path dest"
  shows "contents (last tr) dest = Some data"
  using one.impl_durable(1) assms unfolding atomic_write_def by blast

text \<open>\<open>atomic_write_v\<close> writes the concatenation of its parts.\<close>

lemma atomic_write_v_success:
  assumes "atomic_write_v env dest parts opts D = (tr, Value ())" "ao_overwrite opts \<or> lookup D dest = None" "\<not> temp_path dest"
  shows "contents (last tr) dest = Some (concat parts)"
  using many.impl_durable(1) assms unfolding atomic_write_v_def by blast

lemma atomic_write_v_within:
  assumes "atomic_write_v env dest parts opts D = (tr, r)" "D' \<in> set tr" "wf_disk D" "\<not> temp_path dest" "ao_fsync_contents opts"
  shows "within D dest (concat parts) D'"
  using many.impl_within assms unfolding atomic_write_v_def by blast

subsection \<open>Liveness of the write loop\<close>

primrec accepted :: "write_result \<Rightarrow> nat" where
  "accepted (Wrote n) = n"
| "accepted Eintr = 0"
| "accepted WriteError = 0"

lemma write_loop_returns:
  assumes "WriteError \<notin> set ws" "length bs \<le> sum_list (map accepted ws)"
  shows "snd (snd (write_loop ws i bs D)) = Value ()"
  using assms by (induction ws i bs D rule: write_loop.induct) (auto simp: Let_def split: prod.splits)

text \<open>
  Note: \<open>atomic_write\<close> succeeds when no system call fails, one of the first eight names is free and \<open>write\<close> takes all the bytes in the end,
  in pieces of any size and with any number of interruptions.
\<close>

lemma open_temp_free:
  assumes "r \<in> set (take n names)" "lookup D (make_temp_name temp_dir r) = None" "\<forall>x. env_open_ok env x"
  shows "\<exists>tmp D1. open_temp env temp_dir names n D = Some (tmp, D1)"
  using assms by (induction env temp_dir names n D rule: open_temp.induct) (auto simp: Let_def)

theorem atomic_write_returns:
  assumes "\<forall>x. env_open_ok env x" "env_fsync_ok env" "env_rename_ok env" "env_dirsync_ok env"
    and "r \<in> set (take 8 (env_names env))" "lookup D (make_temp_name (if ao_temp_dir opts \<noteq> [] then ao_temp_dir opts else pdir dest) r) = None"
    and "WriteError \<notin> set (env_writes env)" "length data \<le> sum_list (map accepted (env_writes env))"
  shows "snd (atomic_write env dest data opts D) = Value ()"
proof -
  obtain tmp D1 where o: "open_temp env (if ao_temp_dir opts \<noteq> [] then ao_temp_dir opts else pdir dest) (env_names env) 8 D = Some (tmp, D1)"
    using open_temp_free [OF assms(5,6,1)] by blast
  have w: "snd (snd (write_loop (env_writes env) (dk_next D) data D1)) = Value ()" by (rule write_loop_returns [OF assms(7,8)])
  show ?thesis unfolding atomic_write_def atomic_write_impl_def Let_def o option.case prod.case
    using w assms(2-4) by (cases "write_loop (env_writes env) (dk_next D) data D1") auto
qed

subsection \<open>Compare and swap, purging\<close>

definition line_of :: "bytes \<Rightarrow> bytes" where
  "line_of b = (if b \<noteq> [] \<and> last b = 10 then butlast b else b)"

text \<open>
  Note: \<open>atomic_replace_if\<close> is a compare and swap: \<open>false\<close> leaves the disk alone and says the file did not hold the expected line, \<open>true\<close> says it did
  (or, for an empty expectation, did not exist) and now holds the desired text.
\<close>

theorem atomic_replace_if_cas:
  assumes "atomic_replace_if env dest expected desired opts D = (tr, Value swapped)" "\<not> temp_path dest"
  defines "matches \<equiv> (if expected = [] then contents D dest = None else map_option line_of (contents D dest) = Some expected)"
  shows "swapped = matches \<and> (if swapped then contents (last tr) dest = Some desired else tr = [D])"
proof -
  let ?o = "opts\<lparr>ao_overwrite := True\<rparr>"
  obtain tr1 r1 where a: "atomic_write env dest desired ?o D = (tr1, r1)" by (cases "atomic_write env dest desired ?o D")
  have s: "r1 = Value () \<Longrightarrow> contents (last tr1) dest = Some desired"
    using atomic_write_success [of env dest desired ?o D tr1] a assms(2) by simp
  show ?thesis using assms(1) s unfolding atomic_replace_if_def Let_def a matches_def
    by (auto simp: read_file_def contents_def line_of_def split: if_splits expected.splits option.splits)
qed

text \<open>
  \<open>purge_temp_dir\<close> removes what it may and touches nothing outside the directory; the files a cut write left behind are all in it.
\<close>

lemma purge_loop_entries:
  "purge_loop ok d names D n = (D', m) \<Longrightarrow> lookup D' p = (if pdir p = d \<and> pname p \<in> set names \<and> ok (pname p) then None else lookup D p) \<and>
     (pdir p \<noteq> d \<longrightarrow> dk_entry D' p = dk_entry D p) \<and> m = n + length (filter ok names)"
  by (induction ok d names D n rule: purge_loop.induct) (cases p; auto simp: sys_unlink_def set_entry_def lookup_def split: if_splits)+

lemma purge_temp_dir_clears:
  assumes "purge_temp_dir ok d names D = (D', m)" "\<forall>x. lookup D (Path d x) \<noteq> None \<longrightarrow> x \<in> set names \<and> ok x"
  shows "lookup D' (Path d x) = None"
  using purge_loop_entries [of ok d names D 0 D' m "Path d x"] assms unfolding purge_temp_dir_def by auto

subsection \<open>Concrete runs\<close>

definition empty_disk :: disk where
  "empty_disk = \<lparr>dk_entry = (\<lambda>_. [None]), dk_data = (\<lambda>_. []), dk_dirty = {}, dk_next = 0\<rparr>"

definition sample_env :: "bool \<Rightarrow> io_env" where
  "sample_env sync = \<lparr>env_names = [7, 8], env_open_ok = (\<lambda>_. True), env_writes = [Wrote 1, Eintr, Wrote 4], env_fsync_ok = True, env_rename_ok = True,
     env_dirsync_ok = sync, env_remove_ok = True\<rparr>"

definition durable_opts :: AtomicWriteOptions where
  "durable_opts = \<lparr>ao_temp_dir = ''tmp'', ao_fsync_contents = True, ao_fsync_parent = True, ao_overwrite = True\<rparr>"

definition settle_crash :: "disk \<Rightarrow> disk" where
  "settle_crash D = D\<lparr>dk_entry := (\<lambda>p. [lookup D p]), dk_dirty := {}\<rparr>"

lemma crash_settle: "wf_disk D \<Longrightarrow> crash D (settle_crash D)"
  unfolding crash_def settle_crash_def lookup_def using wf_disk_ne [of D] by auto

lemma wf_empty_disk: "wf_disk empty_disk"
  by (simp add: wf_disk_def empty_disk_def)

lemma run_writes_wf:
  assumes "run_writes ws D = (tr, r)" "wf_disk D" "\<forall>w \<in> set ws. \<not> temp_path (call_dest w) \<and> ao_fsync_contents (fst (snd w))" "D' \<in> set tr"
  shows "wf_disk D'"
  using assms
proof (induction ws arbitrary: D tr)
  case (Cons w ws)
  obtain env opts dest data where w: "w = (env, opts, dest, data)" by (cases w)
  obtain tr1 r1 where a: "atomic_write env dest data opts D = (tr1, r1)" by (cases "atomic_write env dest data opts D")
  have in1: "wf_disk E" if "E \<in> set tr1" for E
    using within_wf [OF atomic_write_within [OF a that Cons(3)]] Cons(4) unfolding w by simp
  show ?case
  proof (cases "D' \<in> set tr1")
    case False
    then obtain tr2 where "run_writes ws (last tr1) = (tr2, r)" "D' \<in> set tr2"
      using Cons(2,5) unfolding w by (auto simp: a split: expected.splits prod.splits)
    then show ?thesis using Cons(1,4) in1 atomic_write_ne [OF a] by simp
  qed (rule in1)
qed simp

definition two_writes :: "write_call list" where
  "two_writes = [(sample_env True, durable_opts, Path ''journal'' ''j'', [1, 2]), (sample_env True, durable_opts, Path ''refs'' ''main'', [3, 4])]"

lemma sample_temp_names: "make_temp_name ''tmp'' 7 = Path ''tmp'' ''tmp.7''" "make_temp_name ''tmp'' 8 = Path ''tmp'' ''tmp.8''"
  by (simp_all add: make_temp_name_def hex_digits.simps kHex_def)

lemmas sample_defs = empty_disk_def sample_env_def durable_opts_def two_writes_def atomic_write_def atomic_write_impl_def sample_temp_names eval_nat_numeral
  lookup_def sys_defs remove_temp_def


theorem atomic_write_error_witness:
  "snd (atomic_write (sample_env False) (Path ''refs'' ''main'') [1, 2] durable_opts empty_disk) = Unexpected \<and>
   contents (last (fst (atomic_write (sample_env False) (Path ''refs'' ''main'') [1, 2] durable_opts empty_disk))) (Path ''refs'' ''main'') = Some [1, 2]"
proof -
  let ?d = "Path ''refs'' ''main''"
  obtain tr r where t: "atomic_write (sample_env False) ?d [1, 2] durable_opts empty_disk = (tr, r)"
    by (cases "atomic_write (sample_env False) ?d [1, 2] durable_opts empty_disk")
  have r: "r = Unexpected" "dk_entry (last tr) ?d \<noteq> dk_entry empty_disk ?d" using t by (auto simp: sample_defs Let_def)
  have "\<not> temp_path ?d" by (simp add: temp_path_def)
  then show ?thesis using atomic_write_error [OF t] r t by auto
qed

end
