(* ===== verification/Store_Lock.thy ===== *)
theory Store_Lock
  imports Core_Error
begin

section \<open>The repository lock\<close>

text \<open>
  \<open>store/src/lockfile.cpp\<close>: an advisory \<open>flock\<close> on the lock file, taken by several processes. The kernel keeps, for every open descriptor of
  the file, the lock it holds. Each process goes through \<open>RepoLock::acquire\<close> and \<open>release\<close> one system call at a time, interleaved
  with the others and with the passing of time. The main results: holders exclude each other, no descriptor leaks, and a waiting process never
  sleeps past its deadline by more than one interval.
\<close>

datatype LockMode = Shared | Exclusive

type_synonym fd = nat

record flocks =
  fl_open :: "fd list"
  fl_held :: "fd \<Rightarrow> LockMode option"
  fl_next :: fd

datatype flock_result = Locked | WouldBlock | FlockError

definition conflicts :: "LockMode \<Rightarrow> LockMode \<Rightarrow> bool" where
  "conflicts a b \<longleftrightarrow> a = Exclusive \<or> b = Exclusive"

text \<open>\<open>flock(fd, op | LOCK_NB)\<close>; \<open>io_ok\<close> is false when the kernel fails for another reason.\<close>

definition flock_nb :: "bool \<Rightarrow> fd \<Rightarrow> LockMode \<Rightarrow> flocks \<Rightarrow> flocks \<times> flock_result" where
  "flock_nb io_ok fd mode k =
     (if \<not> io_ok then (k, FlockError)
      else if \<exists>fd' \<in> set (fl_open k). fd' \<noteq> fd \<and> (case fl_held k fd' of None \<Rightarrow> False | Some m \<Rightarrow> conflicts mode m) then (k, WouldBlock)
      else (k\<lparr>fl_held := (fl_held k)(fd := Some mode)\<rparr>, Locked))"

definition close_fd :: "fd \<Rightarrow> flocks \<Rightarrow> flocks" where
  "close_fd fd k = k\<lparr>fl_open := removeAll fd (fl_open k), fl_held := (fl_held k)(fd := None)\<rparr>"

text \<open>
  Where a process is: outside, at the loop test of \<open>acquire\<close> with its deadline, asleep until a time, with a lock, or back with an error.
\<close>

datatype phase = Outside | Testing fd LockMode nat | Sleeping fd LockMode nat nat | Holding fd LockMode | Failed ErrKind

definition acquire_open :: "bool \<Rightarrow> bool \<Rightarrow> LockMode \<Rightarrow> nat \<Rightarrow> nat \<Rightarrow> flocks \<Rightarrow> flocks \<times> phase" where
  "acquire_open open_ok io_ok mode wait now k =
     (if \<not> open_ok then (k, Failed Io)
      else let fd = fl_next k; k1 = k\<lparr>fl_open := fd # fl_open k, fl_next := fd + 1\<rparr>
      in case flock_nb io_ok fd mode k1 of
           (k2, Locked) \<Rightarrow> (k2, Holding fd mode)
         | (k2, FlockError) \<Rightarrow> (close_fd fd k2, Failed Io)
         | (k2, WouldBlock) \<Rightarrow> if 0 < wait then (k2, Testing fd mode (now + wait)) else (close_fd fd k2, Failed RepositoryLocked))"

definition acquire_test :: "nat \<Rightarrow> fd \<Rightarrow> LockMode \<Rightarrow> nat \<Rightarrow> flocks \<Rightarrow> flocks \<times> phase" where
  "acquire_test now fd mode deadline k =
     (if now < deadline then (k, Sleeping fd mode deadline (now + 10)) else (close_fd fd k, Failed RepositoryLocked))"

definition acquire_retry :: "bool \<Rightarrow> fd \<Rightarrow> LockMode \<Rightarrow> nat \<Rightarrow> flocks \<Rightarrow> flocks \<times> phase" where
  "acquire_retry io_ok fd mode deadline k =
     (case flock_nb io_ok fd mode k of
        (k1, Locked) \<Rightarrow> (k1, Holding fd mode)
      | (k1, FlockError) \<Rightarrow> (close_fd fd k1, Failed Io)
      | (k1, WouldBlock) \<Rightarrow> (k1, Testing fd mode deadline))"

definition lock_release :: "phase \<Rightarrow> flocks \<Rightarrow> flocks \<times> phase" where
  "lock_release ph k = (case ph of Holding fd mode \<Rightarrow> (close_fd fd (k\<lparr>fl_held := (fl_held k)(fd := None)\<rparr>), Outside) | _ \<Rightarrow> (k, Outside))"

record machine =
  mc_kernel :: flocks
  mc_proc :: "nat \<Rightarrow> phase"
  mc_now :: nat

definition put_proc :: "nat \<Rightarrow> flocks \<times> phase \<Rightarrow> machine \<Rightarrow> machine" where
  "put_proc p r M = M\<lparr>mc_kernel := fst r, mc_proc := (mc_proc M)(p := snd r)\<rparr>"

inductive lock_step :: "machine \<Rightarrow> machine \<Rightarrow> bool" where
  call: "mc_proc M p = Outside \<Longrightarrow> lock_step M (put_proc p (acquire_open open_ok io_ok mode wait (mc_now M) (mc_kernel M)) M)"
| test: "mc_proc M p = Testing fd mode dl \<Longrightarrow> lock_step M (put_proc p (acquire_test (mc_now M) fd mode dl (mc_kernel M)) M)"
| wake: "mc_proc M p = Sleeping fd mode dl wk \<Longrightarrow> wk \<le> mc_now M \<Longrightarrow> lock_step M (put_proc p (acquire_retry io_ok fd mode dl (mc_kernel M)) M)"
| unlock: "mc_proc M p = Holding fd mode \<Longrightarrow> lock_step M (put_proc p (lock_release (Holding fd mode) (mc_kernel M)) M)"
| return: "mc_proc M p = Failed e \<Longrightarrow> lock_step M (put_proc p (mc_kernel M, Outside) M)"
| tick: "lock_step M (M\<lparr>mc_now := mc_now M + d\<rparr>)"

definition start :: machine where
  "start = \<lparr>mc_kernel = \<lparr>fl_open = [], fl_held = (\<lambda>_. None), fl_next = 0\<rparr>, mc_proc = (\<lambda>_. Outside), mc_now = 0\<rparr>"

subsection \<open>The invariant\<close>

primrec phase_fd :: "phase \<Rightarrow> fd option" where
  "phase_fd Outside = None"
| "phase_fd (Testing fd m dl) = Some fd"
| "phase_fd (Sleeping fd m dl wk) = Some fd"
| "phase_fd (Holding fd m) = Some fd"
| "phase_fd (Failed e) = None"

primrec phase_lock :: "phase \<Rightarrow> LockMode option" where
  "phase_lock Outside = None"
| "phase_lock (Testing fd m dl) = None"
| "phase_lock (Sleeping fd m dl wk) = None"
| "phase_lock (Holding fd m) = Some m"
| "phase_lock (Failed e) = None"

text \<open>Every open descriptor belongs to exactly one process, which knows what lock it holds, and the locks are compatible.\<close>

definition lock_inv :: "flocks \<Rightarrow> (nat \<Rightarrow> phase) \<Rightarrow> bool" where
  "lock_inv k ph \<longleftrightarrow>
     (\<forall>fd. fd \<in> set (fl_open k) \<longleftrightarrow> (\<exists>p. phase_fd (ph p) = Some fd)) \<and>
     (\<forall>p q fd. phase_fd (ph p) = Some fd \<longrightarrow> phase_fd (ph q) = Some fd \<longrightarrow> p = q) \<and>
     (\<forall>p fd. phase_fd (ph p) = Some fd \<longrightarrow> fl_held k fd = phase_lock (ph p) \<and> fd < fl_next k) \<and>
     (\<forall>fd. fd \<notin> set (fl_open k) \<longrightarrow> fl_held k fd = None) \<and>
     (\<forall>p q m n. p \<noteq> q \<longrightarrow> phase_lock (ph p) = Some m \<longrightarrow> phase_lock (ph q) = Some n \<longrightarrow> \<not> conflicts m n)"

lemma phase_lock_fd: "phase_lock x = Some m \<Longrightarrow> \<exists>fd. phase_fd x = Some fd"
  by (cases x) auto

lemma lock_invD:
  assumes "lock_inv k ph"
  shows "fd \<in> set (fl_open k) \<longleftrightarrow> (\<exists>p. phase_fd (ph p) = Some fd)"
    and "phase_fd (ph p) = Some fd \<Longrightarrow> phase_fd (ph q) = Some fd \<Longrightarrow> p = q"
    and "phase_fd (ph p) = Some fd \<Longrightarrow> fl_held k fd = phase_lock (ph p)"
    and "phase_fd (ph p) = Some fd \<Longrightarrow> fd < fl_next k"
    and "fd \<notin> set (fl_open k) \<Longrightarrow> fl_held k fd = None"
    and "p \<noteq> q \<Longrightarrow> phase_lock (ph p) = Some m \<Longrightarrow> phase_lock (ph q) = Some n \<Longrightarrow> \<not> conflicts m n"
  using assms unfolding lock_inv_def by blast+

lemma no_fd_no_lock: "phase_fd x = None \<Longrightarrow> phase_lock x = None"
  by (cases x) auto

lemma close_inv:
  assumes "lock_inv k ph" "phase_fd (ph p) = Some fd" "phase_fd x = None"
  shows "lock_inv (close_fd fd k) (ph(p := x))"
  unfolding lock_inv_def close_fd_def
proof (intro conjI allI impI)
  fix q r m n
  assume "q \<noteq> r" "phase_lock ((ph(p := x)) q) = Some m" "phase_lock ((ph(p := x)) r) = Some n"
  then show "\<not> conflicts m n" using no_fd_no_lock [OF assms(3)] lock_invD(6) [OF assms(1), of q r] by (auto split: if_splits)
next
  fix g
  have others: "(\<exists>q. q \<noteq> p \<and> phase_fd (ph q) = Some g) \<longleftrightarrow> g \<noteq> fd \<and> (\<exists>q. phase_fd (ph q) = Some g)"
    using assms(2) lock_invD(2) [OF assms(1), of p fd] by (metis option.inject)
  have "(\<exists>q. phase_fd ((ph(p := x)) q) = Some g) \<longleftrightarrow> (\<exists>q. q \<noteq> p \<and> phase_fd (ph q) = Some g)"
    using assms(3) by (metis fun_upd_apply option.distinct(1))
  then show "g \<in> set (fl_open (k\<lparr>fl_open := removeAll fd (fl_open k), fl_held := (fl_held k)(fd := None)\<rparr>)) \<longleftrightarrow> (\<exists>q. phase_fd ((ph(p := x)) q) = Some g)"
    using lock_invD(1) [OF assms(1), of g] others by auto
qed (use assms lock_invD [OF assms(1)] in \<open>auto split: if_splits\<close>)

lemma stay_inv:
  assumes "lock_inv k ph" "phase_fd x = phase_fd (ph p)" "phase_lock x = phase_lock (ph p)"
  shows "lock_inv k (ph(p := x))"
proof -
  have "phase_fd ((ph(p := x)) q) = phase_fd (ph q)" "phase_lock ((ph(p := x)) q) = phase_lock (ph q)" for q using assms by auto
  then show ?thesis using assms(1) unfolding lock_inv_def by simp
qed

lemma open_inv:
  assumes "lock_inv k ph" "phase_fd (ph p) = None"
  shows "lock_inv (k\<lparr>fl_open := fl_next k # fl_open k, fl_next := fl_next k + 1\<rparr>) (ph(p := Testing (fl_next k) m dl))"
proof -
  have fresh: "phase_fd (ph q) \<noteq> Some (fl_next k)" for q using lock_invD(4) [OF assms(1), of q "fl_next k"] by blast
  then have held: "fl_held k (fl_next k) = None" using lock_invD(1,5) [OF assms(1)] by simp
  show ?thesis unfolding lock_inv_def
proof (intro conjI allI impI)
  fix q r a b
  assume "q \<noteq> r" "phase_lock ((ph(p := Testing (fl_next k) m dl)) q) = Some a" "phase_lock ((ph(p := Testing (fl_next k) m dl)) r) = Some b"
  then show "\<not> conflicts a b" using lock_invD(6) [OF assms(1), of q r] by (auto split: if_splits)
next
  fix q fd assume "phase_fd ((ph(p := Testing (fl_next k) m dl)) q) = Some fd"
  then show "fl_held (k\<lparr>fl_open := fl_next k # fl_open k, fl_next := fl_next k + 1\<rparr>) fd = phase_lock ((ph(p := Testing (fl_next k) m dl)) q)"
    using lock_invD(3) [OF assms(1), of q fd] held by (cases "q = p") auto
next
  fix q r fd
  assume "phase_fd ((ph(p := Testing (fl_next k) m dl)) q) = Some fd" "phase_fd ((ph(p := Testing (fl_next k) m dl)) r) = Some fd"
  then show "q = r" using lock_invD(2) [OF assms(1), of q fd r] fresh by (auto split: if_splits)
next
  fix q fd assume "phase_fd ((ph(p := Testing (fl_next k) m dl)) q) = Some fd"
  then show "fd < fl_next (k\<lparr>fl_open := fl_next k # fl_open k, fl_next := fl_next k + 1\<rparr>)"
    using lock_invD(4) [OF assms(1), of q fd] by (auto split: if_splits)
next
  fix g
  have "(\<exists>q. phase_fd ((ph(p := Testing (fl_next k) m dl)) q) = Some g) \<longleftrightarrow> g = fl_next k \<or> (\<exists>q. phase_fd (ph q) = Some g)"
    using assms(2) by (metis fun_upd_apply option.distinct(1) option.inject phase_fd.simps(2))
  then show "g \<in> set (fl_open (k\<lparr>fl_open := fl_next k # fl_open k, fl_next := fl_next k + 1\<rparr>)) \<longleftrightarrow> (\<exists>q. phase_fd ((ph(p := Testing (fl_next k) m dl)) q) = Some g)"
    using lock_invD(1) [OF assms(1), of g] by auto
qed (use lock_invD(5) [OF assms(1)] in auto)
qed

lemma conflicts_commute: "conflicts a b \<longleftrightarrow> conflicts b a"
  by (auto simp: conflicts_def)

lemma take_inv:
  assumes "lock_inv k ph" "phase_fd (ph p) = Some fd" "phase_lock (ph p) = None"
    and free: "\<And>fd' m. fd' \<in> set (fl_open k) \<Longrightarrow> fd' \<noteq> fd \<Longrightarrow> fl_held k fd' = Some m \<Longrightarrow> \<not> conflicts mode m"
  shows "lock_inv (k\<lparr>fl_held := (fl_held k)(fd := Some mode)\<rparr>) (ph(p := Holding fd mode))"
proof -
  have own: "phase_fd ((ph(p := Holding fd mode)) q) = phase_fd (ph q)" for q using assms(2) by simp
  have other: "\<not> conflicts mode n" if q: "q \<noteq> p" "phase_lock (ph q) = Some n" for q n
  proof -
    obtain g where g: "phase_fd (ph q) = Some g" using phase_lock_fd q(2) by blast
    then show ?thesis using free [of g n] lock_invD(1-3) [OF assms(1)] q assms(2) by fastforce
  qed
  show ?thesis unfolding lock_inv_def own
  proof (intro conjI allI impI)
    fix q r m n
    assume "q \<noteq> r" "phase_lock ((ph(p := Holding fd mode)) q) = Some m" "phase_lock ((ph(p := Holding fd mode)) r) = Some n"
    then show "\<not> conflicts m n"
      using other [of r n] other [of q m] lock_invD(6) [OF assms(1), of q r m n] conflicts_commute [of m n] by (cases "q = p"; cases "r = p") auto
  next
    fix q g assume "phase_fd (ph q) = Some g"
    then show "fl_held (k\<lparr>fl_held := (fl_held k)(fd := Some mode)\<rparr>) g = phase_lock ((ph(p := Holding fd mode)) q)"
      using lock_invD(2) [OF assms(1), of q g p] lock_invD(3) [OF assms(1), of q g] assms(2) by auto
  qed (use lock_invD [OF assms(1)] assms(2) in auto)
qed

lemma retry_inv:
  assumes "lock_inv k ph" "phase_fd (ph p) = Some fd" "phase_lock (ph p) = None"
  shows "lock_inv (fst (acquire_retry io_ok fd mode dl k)) (ph(p := snd (acquire_retry io_ok fd mode dl k)))"
proof -
  have free: "\<not> conflicts mode m"
    if "\<not> (\<exists>fd' \<in> set (fl_open k). fd' \<noteq> fd \<and> (case fl_held k fd' of None \<Rightarrow> False | Some m \<Rightarrow> conflicts mode m))"
      "fd' \<in> set (fl_open k)" "fd' \<noteq> fd" "fl_held k fd' = Some m" for fd' m using that by force
  show ?thesis unfolding acquire_retry_def flock_nb_def
    using close_inv [OF assms(1,2), of "Failed Io"] stay_inv [OF assms(1), of "Testing fd mode dl" p] take_inv [OF assms free] assms by auto
qed

text \<open>Opening and trying is opening, and then one retry; with no time to wait, a loop test that fails at once.\<close>

lemma acquire_open_retry:
  "acquire_open True io_ok mode wait now k =
     (let k1 = k\<lparr>fl_open := fl_next k # fl_open k, fl_next := fl_next k + 1\<rparr>; r = acquire_retry io_ok (fl_next k) mode (now + wait) k1
      in if wait = 0 \<and> snd r = Testing (fl_next k) mode (now + wait) then acquire_test now (fl_next k) mode (now + wait) (fst r) else r)"
  unfolding acquire_open_def acquire_retry_def acquire_test_def Let_def by (auto split: prod.splits flock_result.splits)

lemma test_inv:
  assumes "lock_inv k ph" "phase_fd (ph p) = Some fd" "phase_lock (ph p) = None"
  shows "lock_inv (fst (acquire_test now fd mode dl k)) (ph(p := snd (acquire_test now fd mode dl k)))"
  unfolding acquire_test_def
  using close_inv [OF assms(1,2), of "Failed RepositoryLocked"] stay_inv [OF assms(1), of "Sleeping fd mode dl (now + 10)" p] assms by auto

lemma acquire_open_inv:
  assumes "lock_inv k ph" "phase_fd (ph p) = None"
  shows "lock_inv (fst (acquire_open open_ok io_ok mode wait now k)) (ph(p := snd (acquire_open open_ok io_ok mode wait now k)))"
proof (cases open_ok)
  case False
  then show ?thesis using stay_inv [OF assms(1), of "Failed Io" p] no_fd_no_lock [OF assms(2)] assms(2) by (simp add: acquire_open_def)
next
  case True
  let ?k1 = "k\<lparr>fl_open := fl_next k # fl_open k, fl_next := fl_next k + 1\<rparr>"
  let ?r = "acquire_retry io_ok (fl_next k) mode (now + wait) ?k1"
  note o = open_inv [OF assms, of mode "now + wait"]
  obtain k2 x where kx: "?r = (k2, x)" by (cases ?r)
  have r: "lock_inv k2 (ph(p := x))"
    using retry_inv [OF o, of p "fl_next k" io_ok mode "now + wait"] by (simp add: kx [simplified])
  show ?thesis
  proof (cases "wait = 0 \<and> x = Testing (fl_next k) mode (now + wait)")
    case t: True
    have "lock_inv (fst (acquire_test now (fl_next k) mode (now + wait) k2)) (ph(p := snd (acquire_test now (fl_next k) mode (now + wait) k2)))"
      using test_inv [OF r, of p "fl_next k" now mode "now + wait"] t by simp
    then show ?thesis unfolding eqTrueI [OF True] acquire_open_retry Let_def kx using t by simp
  next
    case False
    then show ?thesis unfolding eqTrueI [OF True] acquire_open_retry Let_def kx using r by auto
  qed
qed

lemma release_inv:
  assumes "lock_inv k ph" "ph p = Holding fd mode"
  shows "lock_inv (fst (lock_release (ph p) k)) (ph(p := snd (lock_release (ph p) k)))"
  using close_inv [OF assms(1), of p fd Outside] assms(2) by (simp add: lock_release_def close_fd_def)

lemma lock_step_inv: "lock_step M M' \<Longrightarrow> lock_inv (mc_kernel M) (mc_proc M) \<Longrightarrow> lock_inv (mc_kernel M') (mc_proc M')"
proof (induction rule: lock_step.induct)
  case (unlock M p fd mode)
  then show ?case using release_inv [of "mc_kernel M" "mc_proc M" p fd mode] by (simp add: put_proc_def fun_upd_def)
next
  case (return M p e)
  then show ?case using stay_inv [of "mc_kernel M" "mc_proc M" Outside p] by (simp add: put_proc_def fun_upd_def)
qed (auto simp: put_proc_def intro: acquire_open_inv test_inv retry_inv)

lemma start_inv: "lock_inv (mc_kernel start) (mc_proc start)"
  by (simp add: start_def lock_inv_def)

text \<open>
  C13: in every interleaving of processes that acquire and release the repository lock, a process that holds it exclusively is the only
  holder; and the descriptors of the lock file that are open are exactly those of the processes that hold or wait for it.
\<close>

theorem lock_mutual_exclusion:
  assumes "lock_step\<^sup>*\<^sup>* start M"
  shows "(mc_proc M p = Holding fd Exclusive \<longrightarrow> (\<forall>q fd' m. q \<noteq> p \<longrightarrow> mc_proc M q \<noteq> Holding fd' m)) \<and>
    (fd \<in> set (fl_open (mc_kernel M)) \<longleftrightarrow> (\<exists>q. phase_fd (mc_proc M q) = Some fd))"
proof -
  have i: "lock_inv (mc_kernel M) (mc_proc M)"
    using assms by (induction rule: rtranclp_induct) (auto intro: start_inv lock_step_inv)
  have "False" if "mc_proc M p = Holding fd Exclusive" "q \<noteq> p" "mc_proc M q = Holding fd' m" for q fd' m
    using lock_invD(6) [OF i, of p q Exclusive m] that by (simp add: conflicts_def)
  then show ?thesis using lock_invD(1) [OF i] by blast
qed

text \<open>Waiting is bounded: whoever sleeps wakes less than one interval after its deadline, and after the deadline the next test gives up.\<close>

lemma sleep_bounded:
  assumes "lock_step\<^sup>*\<^sup>* start M" "mc_proc M p = Sleeping fd mode dl wk"
  shows "wk < dl + 10"
  using assms
proof (induction arbitrary: p fd mode dl wk rule: rtranclp_induct)
  case (step M N)
  show ?case using step(2,4) step(3)
    by (cases rule: lock_step.cases)
      (auto simp: put_proc_def acquire_open_def acquire_test_def acquire_retry_def lock_release_def Let_def split: if_splits prod.splits flock_result.splits)
qed (simp add: start_def)

lemma deadline_gives_up: "dl \<le> now \<Longrightarrow> snd (acquire_test now fd mode dl k) = Failed RepositoryLocked"
  by (simp add: acquire_test_def)

text \<open>A free lock is taken at the first attempt; a held one is refused at once when there is nothing to wait for.\<close>

lemma acquire_free: "\<forall>fd \<in> set (fl_open k). fl_held k fd = None \<Longrightarrow> snd (acquire_open True True mode wait now k) = Holding (fl_next k) mode"
  by (auto simp: acquire_open_def flock_nb_def Let_def)

lemma acquire_busy:
  assumes "fd \<in> set (fl_open k)" "fl_held k fd = Some m" "conflicts mode m" "fd \<noteq> fl_next k"
  shows "snd (acquire_open True True mode 0 now k) = Failed RepositoryLocked"
  using assms by (auto simp: acquire_open_def flock_nb_def Let_def)

theorem lock_mutual_exclusion_witness:
  "\<exists>M. lock_step\<^sup>*\<^sup>* start M \<and> mc_proc M 0 = Holding 0 Exclusive \<and> mc_proc M 1 = Testing 1 Shared 20 \<and> \<not> (\<exists>q fd' m. q \<noteq> 0 \<and> mc_proc M q = Holding fd' m)"
proof -
  let ?A = "put_proc 0 (acquire_open True True Exclusive 0 (mc_now start) (mc_kernel start)) start"
  let ?B = "put_proc 1 (acquire_open True True Shared 20 (mc_now ?A) (mc_kernel ?A)) ?A"
  have "lock_step start ?A" by (rule call) (simp add: start_def)
  moreover have "lock_step ?A ?B" by (rule call) (simp add: start_def put_proc_def)
  ultimately have r: "lock_step\<^sup>*\<^sup>* start ?B" by (rule converse_rtranclp_into_rtranclp [OF _ r_into_rtranclp])
  have h: "mc_proc ?B 0 = Holding 0 Exclusive" "mc_proc ?B 1 = Testing 1 Shared 20"
    by (simp_all add: put_proc_def start_def acquire_open_def flock_nb_def conflicts_def)
  obtain B where B: "lock_step\<^sup>*\<^sup>* start B" "mc_proc B 0 = Holding 0 Exclusive" "mc_proc B 1 = Testing 1 Shared 20" by (rule that [OF r h])
  then show ?thesis using lock_mutual_exclusion [OF B(1), of 0 0] by blast
qed

end
