(* ===== verification/Core_Config.thy ===== *)
theory Core_Config
  imports Core_Oid
begin

section \<open>Repository configuration and layout\<close>

text \<open>
  \<open>core/src/repo_config.cpp\<close>: the key/value file \<open>.synapsefs/config\<close>, its validation, the paths of a repository and the search for
  its root. \<open>std::stoul\<close> and \<open>std::stoull\<close> are modelled as the standard describes them: leading blanks, a sign (a minus sign negates
  modulo \<open>2 ^ 64\<close>), digits, and an exception when there are none or the value does not fit. A double is the 64-bit pattern that holds it;
  what the library does with doubles (\<open>stod\<close>, \<open>operator<<\<close>, the two comparisons of \<open>validate\<close>) is the argument \<open>F\<close>. The main results: a saved
  configuration loads back, a loaded one is always valid, and the search finds the nearest enclosing repository.
\<close>

subsection \<open>std::stoull\<close>

definition is_blank :: "char \<Rightarrow> bool" where
  "is_blank c \<longleftrightarrow> c \<in> {CHR '' '', CHR 0x09, CHR 0x0A, CHR 0x0B, CHR 0x0C, CHR 0x0D}"

definition is_digit :: "char \<Rightarrow> bool" where
  "is_digit c \<longleftrightarrow> 48 \<le> (of_char c :: nat) \<and> (of_char c :: nat) \<le> 57"

definition dec_value :: "string \<Rightarrow> nat" where
  "dec_value ds = foldl (\<lambda>v c. 10 * v + (of_char c - 48)) 0 ds"

definition sign_of :: "string \<Rightarrow> bool \<times> string" where
  "sign_of s = (case s of [] \<Rightarrow> (False, s) | c # cs \<Rightarrow> if c = CHR ''-'' then (True, cs) else if c = CHR ''+'' then (False, cs) else (False, s))"

text \<open>\<open>None\<close> is an exception; otherwise the value and the number of characters used.\<close>

definition stoull :: "string \<Rightarrow> (u64 \<times> nat) option" where
  "stoull s =
     (let (neg, rest) = sign_of (dropWhile is_blank s); ds = takeWhile is_digit rest
      in if ds = [] \<or> 2 ^ 64 \<le> dec_value ds then None
         else Some (if neg then - of_nat (dec_value ds) else of_nat (dec_value ds), length s - length rest + length ds))"

lemma is_digit_digit_char: "d < 10 \<Longrightarrow> is_digit (digit_char d)"
  by (simp add: is_digit_def of_char_digit_char)

lemma dec_string_digits: "\<forall>c \<in> set (dec_string n). is_digit c"
  using set_dec_string [of n] is_digit_digit_char by auto

lemma dec_value_snoc: "dec_value (ds @ [c]) = 10 * dec_value ds + (of_char c - 48)"
  by (simp add: dec_value_def)

lemma dec_value_dec_string: "dec_value (dec_string n) = n"
proof (induction n rule: dec_string.induct)
  case (1 n)
  show ?case
  proof (cases "n < 10")
    case True
    then show ?thesis by (simp add: dec_string.simps [of n] dec_value_def of_char_digit_char)
  next
    case False
    then show ?thesis using 1 by (simp add: dec_string.simps [of n] dec_value_snoc of_char_digit_char)
  qed
qed

lemma digit_not_blank: "is_digit c \<Longrightarrow> \<not> is_blank c \<and> c \<noteq> CHR ''-'' \<and> c \<noteq> CHR ''+''"
  by (auto simp: is_digit_def is_blank_def)

lemma stoull_dec_string: "n < 2 ^ 64 \<Longrightarrow> stoull (dec_string n) = Some (of_nat n, length (dec_string n))"
proof -
  assume n: "n < 2 ^ 64"
  obtain c cs where c: "dec_string n = c # cs" by (cases "dec_string n") (use dec_string_nonempty [of n] in auto)
  have d: "is_digit c" using dec_string_digits [of n] c by simp
  have "takeWhile is_digit (dec_string n) = dec_string n" using dec_string_digits [of n] by (simp add: takeWhile_eq_all_conv)
  moreover have "sign_of (dropWhile is_blank (dec_string n)) = (False, dec_string n)"
    using digit_not_blank [OF d] by (simp add: c sign_of_def)
  ultimately show ?thesis using n by (simp add: stoull_def dec_value_dec_string Let_def del: takeWhile_eq_all_conv)
qed

lemma stoull_negative: "stoull ''-1'' = Some (- 1, 2)"
  by (simp add: stoull_def sign_of_def is_blank_def is_digit_def dec_value_def)

subsection \<open>RepoConfig\<close>

type_synonym double = u64

record Float_Ops =
  f_stod :: "string \<Rightarrow> (double \<times> nat) option"
  f_show :: "double \<Rightarrow> string"
  f_le_zero :: "double \<Rightarrow> bool"
  f_gt_one :: "double \<Rightarrow> bool"

record RepoConfig =
  format_version :: u32
  chunk_bytes :: u64
  frame_bytes :: u64
  max_chain_depth :: u32
  snapshot_alpha :: double
  compress_raw :: bool
  cache_bytes :: u64
  listen :: string

text \<open>The default of \<open>snapshot_alpha\<close> is 0.5, the pattern with exponent 1022.\<close>

definition default_config :: RepoConfig where
  "default_config = \<lparr>format_version = 1, chunk_bytes = 64 * 1024, frame_bytes = 128 * 1024, max_chain_depth = 5, snapshot_alpha = 1022 * 2 ^ 52,
     compress_raw = False, cache_bytes = 1024 * 1024 * 1024, listen = ''127.0.0.1:9418''\<rparr>"

definition parse_numeric_field :: "string \<Rightarrow> string \<Rightarrow> (string \<Rightarrow> ('t \<times> nat) option) \<Rightarrow> 't res" where
  "parse_numeric_field key val parser =
     (case parser val of None \<Rightarrow> SFS_ERR Internal [] | Some (v, pos) \<Rightarrow> if pos \<noteq> length val then SFS_ERR Internal key else Ok v)"

definition config_validate :: "Float_Ops \<Rightarrow> RepoConfig \<Rightarrow> unit res" where
  "config_validate F cfg =
     (if format_version cfg = 0 then SFS_ERR UnsupportedFormatVersion []
      else if chunk_bytes cfg = 0 then SFS_ERR Internal []
      else if frame_bytes cfg = 0 then SFS_ERR Internal []
      else if max_chain_depth cfg = 0 then SFS_ERR Internal []
      else if f_le_zero F (snapshot_alpha cfg) \<or> f_gt_one F (snapshot_alpha cfg) then SFS_ERR Internal []
      else Ok ())"

definition newline :: char where "newline = CHR 0x0A"

text \<open>\<open>std::getline\<close> until it fails: a last line without a newline counts, an empty rest does not.\<close>

function getlines :: "string \<Rightarrow> string list" where
  "getlines s = (if s = [] then [] else takeWhile (\<lambda>c. c \<noteq> newline) s # getlines (drop 1 (dropWhile (\<lambda>c. c \<noteq> newline) s)))"
  by auto

termination
proof (relation "measure length")
  fix s :: string assume "s \<noteq> []"
  then show "(drop 1 (dropWhile (\<lambda>c. c \<noteq> newline) s), s) \<in> measure length"
    using length_dropWhile_le [of "\<lambda>c. c \<noteq> newline" s] by (cases s) auto
qed simp

declare getlines.simps [simp del]

definition strip_eol :: "string \<Rightarrow> string" where
  "strip_eol val = rev (dropWhile (\<lambda>c. c = CHR 0x0D \<or> c = newline) (rev val))"

text \<open>One round of the loop of \<open>RepoConfig::load\<close>: a line without \<open>=\<close> or with an unknown key is skipped.\<close>

definition load_line :: "Float_Ops \<Rightarrow> string \<Rightarrow> RepoConfig \<Rightarrow> RepoConfig res" where
  "load_line F line cfg =
     (if CHR ''='' \<notin> set line then Ok cfg
      else let key = takeWhile (\<lambda>c. c \<noteq> CHR ''='') line; val = strip_eol (drop (length key + 1) line)
      in if key = ''format_version'' then
           SFS_TRY (parse_numeric_field key val stoull) (\<lambda>v.
             if 2 ^ 32 - 1 < v then SFS_ERR UnsupportedFormatVersion val else Ok (cfg\<lparr>format_version := ucast v\<rparr>))
         else if key = ''chunk_bytes'' then SFS_TRY (parse_numeric_field key val stoull) (\<lambda>v. Ok (cfg\<lparr>chunk_bytes := v\<rparr>))
         else if key = ''frame_bytes'' then SFS_TRY (parse_numeric_field key val stoull) (\<lambda>v. Ok (cfg\<lparr>frame_bytes := v\<rparr>))
         else if key = ''max_chain_depth'' then
           SFS_TRY (parse_numeric_field key val stoull) (\<lambda>v.
             if 2 ^ 32 - 1 < v then SFS_ERR MalformedObject val else Ok (cfg\<lparr>max_chain_depth := ucast v\<rparr>))
         else if key = ''snapshot_alpha'' then SFS_TRY (parse_numeric_field key val (f_stod F)) (\<lambda>v. Ok (cfg\<lparr>snapshot_alpha := v\<rparr>))
         else if key = ''compress_raw'' then Ok (cfg\<lparr>compress_raw := (val = ''1'' \<or> val = ''true'')\<rparr>)
         else if key = ''cache_bytes'' then SFS_TRY (parse_numeric_field key val stoull) (\<lambda>v. Ok (cfg\<lparr>cache_bytes := v\<rparr>))
         else if key = ''listen'' then Ok (cfg\<lparr>listen := val\<rparr>)
         else Ok cfg)"

primrec load_lines :: "Float_Ops \<Rightarrow> string list \<Rightarrow> RepoConfig \<Rightarrow> RepoConfig res" where
  "load_lines F [] cfg = Ok cfg"
| "load_lines F (line # ls) cfg = SFS_TRY (load_line F line cfg) (load_lines F ls)"

text \<open>\<open>None\<close> is a file that cannot be opened.\<close>

definition config_load :: "Float_Ops \<Rightarrow> string option \<Rightarrow> RepoConfig res" where
  "config_load F f =
     (case f of
        None \<Rightarrow> Ok default_config
      | Some s \<Rightarrow> SFS_TRY (load_lines F (getlines s) default_config) (\<lambda>cfg. SFS_TRY (config_validate F cfg) (\<lambda>_. Ok cfg)))"

definition config_lines :: "Float_Ops \<Rightarrow> RepoConfig \<Rightarrow> string list" where
  "config_lines F cfg =
     [''format_version='' @ dec_string (unat (format_version cfg)), ''chunk_bytes='' @ dec_string (unat (chunk_bytes cfg)),
      ''frame_bytes='' @ dec_string (unat (frame_bytes cfg)), ''max_chain_depth='' @ dec_string (unat (max_chain_depth cfg)),
      ''snapshot_alpha='' @ f_show F (snapshot_alpha cfg), ''compress_raw='' @ (if compress_raw cfg then ''1'' else ''0''),
      ''cache_bytes='' @ dec_string (unat (cache_bytes cfg)), ''listen='' @ listen cfg]"

text \<open>\<open>RepoConfig::save\<close> truncates the file before it writes; \<open>writes\<close> is how much of the text reaches it before an error, if there is one.\<close>

definition config_save :: "Float_Ops \<Rightarrow> bool \<Rightarrow> nat option \<Rightarrow> RepoConfig \<Rightarrow> string option \<Rightarrow> string option \<times> unit res" where
  "config_save F open_ok writes cfg f =
     (case config_validate F cfg of
        Ok _ \<Rightarrow>
          (let out = concat (map (\<lambda>l. l @ [newline]) (config_lines F cfg))
           in if \<not> open_ok then (f, SFS_ERR Io ''config'')
              else case writes of None \<Rightarrow> (Some out, Ok ()) | Some n \<Rightarrow> (Some (take n out), SFS_ERR Io ''config''))
      | e \<Rightarrow> (f, e))"

subsection \<open>Loading\<close>

text \<open>
  Note: a configuration that \<open>RepoConfig::load\<close> returns is valid, whatever the file contains, and the call never ends in an exception.
\<close>

lemma default_valid: "\<not> f_le_zero F (1022 * 2 ^ 52) \<Longrightarrow> \<not> f_gt_one F (1022 * 2 ^ 52) \<Longrightarrow> config_validate F default_config = Ok ()"
  by (simp add: config_validate_def default_config_def)

lemma parse_numeric_no_abort: "parse_numeric_field key val parser \<noteq> Abort a"
  unfolding parse_numeric_field_def by (simp split: option.splits)

lemma load_line_no_abort: "load_line F line cfg \<noteq> Abort a"
proof -
  have "SFS_TRY (parse_numeric_field key val parser) f \<noteq> Abort a" if "\<And>v. f v \<noteq> Abort a"
    for key val and parser :: "string \<Rightarrow> (u64 \<times> nat) option" and f :: "u64 \<Rightarrow> RepoConfig res"
    using that parse_numeric_no_abort [of key val parser a] by (cases "parse_numeric_field key val parser") auto
  then show ?thesis unfolding load_line_def Let_def by simp
qed

lemma load_lines_no_abort: "load_lines F ls cfg \<noteq> Abort a"
proof (induction ls arbitrary: cfg)
  case (Cons l ls)
  then show ?case using load_line_no_abort [of F l cfg a] by (cases "load_line F l cfg") auto
qed simp

theorem config_load_valid:
  assumes "\<not> f_le_zero F (1022 * 2 ^ 52)" "\<not> f_gt_one F (1022 * 2 ^ 52)"
  shows "(\<forall>cfg. config_load F f = Ok cfg \<longrightarrow> config_validate F cfg = Ok ()) \<and> (\<forall>a. config_load F f \<noteq> Abort a)"
proof (cases f)
  case None
  then show ?thesis using default_valid [OF assms] by (simp add: config_load_def)
next
  case (Some s)
  have v: "config_validate F cfg \<noteq> Abort a" for cfg a by (simp add: config_validate_def)
  show ?thesis
  proof (cases "load_lines F (getlines s) default_config")
    case (Ok cfg)
    then show ?thesis using v [of cfg] by (cases "config_validate F cfg") (auto simp: config_load_def Some)
  qed (use load_lines_no_abort [of F "getlines s" default_config] in \<open>auto simp: config_load_def Some\<close>)
qed

subsection \<open>Saving and loading back\<close>

lemma takeWhile_until: "x \<notin> set l \<Longrightarrow> takeWhile (\<lambda>c. c \<noteq> x) (l @ x # r) = l"
  by (induction l) auto

lemma dropWhile_until: "x \<notin> set l \<Longrightarrow> dropWhile (\<lambda>c. c \<noteq> x) (l @ x # r) = x # r"
  by (induction l) auto

lemma getlines_concat:
  "\<forall>l \<in> set ls. newline \<notin> set l \<Longrightarrow> getlines (concat (map (\<lambda>l. l @ [newline]) ls)) = ls"
proof (induction ls)
  case (Cons l ls)
  then show ?case by (subst getlines.simps) (simp add: takeWhile_until dropWhile_until)
qed (simp add: getlines.simps)

lemma strip_eol_id: "val = [] \<or> last val \<noteq> CHR 0x0D \<and> last val \<noteq> newline \<Longrightarrow> strip_eol val = val"
  unfolding strip_eol_def by (cases val rule: rev_cases) auto

lemma strip_eol_digits: "strip_eol (dec_string n) = dec_string n"
proof (rule strip_eol_id)
  have "is_digit (last (dec_string n))" using dec_string_digits [of n] by simp
  then show "dec_string n = [] \<or> last (dec_string n) \<noteq> CHR 0x0D \<and> last (dec_string n) \<noteq> newline"
    by (auto simp: is_digit_def newline_def)
qed

lemma parse_dec: "n < 2 ^ 64 \<Longrightarrow> parse_numeric_field key (dec_string n) stoull = Ok (of_nat n)"
  by (simp add: parse_numeric_field_def stoull_dec_string)

lemma u32_as_u64:
  fixes v :: u32
  shows "unat v < 2 ^ 64" "\<not> (2 ^ 32 - 1 :: u64) < of_nat (unat v)" "ucast (of_nat (unat v) :: u64) = v"
proof -
  have v: "unat v < 2 ^ 32" using unsigned_less [of v] by simp
  then show "unat v < 2 ^ 64" by simp
  have "unat (ucast v :: u64) = unat v" unfolding unsigned_ucast_eq using v by (simp add: take_bit_nat_eq_self)
  then show "\<not> (2 ^ 32 - 1 :: u64) < of_nat (unat v)" using v by (simp add: word_less_nat_alt)
  show "ucast (of_nat (unat v) :: u64) = v" by (rule bit_word_eqI) (simp add: bit_unsigned_iff)
qed

text \<open>The text of the double that is printed: one line, and read back as \<open>d'\<close>.\<close>

definition prints_as :: "Float_Ops \<Rightarrow> double \<Rightarrow> double \<Rightarrow> bool" where
  "prints_as F d d' \<longleftrightarrow> f_stod F (f_show F d) = Some (d', length (f_show F d)) \<and> newline \<notin> set (f_show F d) \<and> strip_eol (f_show F d) = f_show F d"

text \<open>
  Note: a configuration that \<open>RepoConfig::save\<close> has written is what \<open>RepoConfig::load\<close> returns, except that \<open>snapshot_alpha\<close> is the number that was
  printed for it (the stream prints six significant digits).
\<close>

theorem config_roundtrip:
  assumes "config_save F True None cfg f = (f', Ok ())" "prints_as F (snapshot_alpha cfg) a" "config_validate F (cfg\<lparr>snapshot_alpha := a\<rparr>) = Ok ()"
    and "newline \<notin> set (listen cfg)" "strip_eol (listen cfg) = listen cfg"
  shows "config_load F f' = Ok (cfg\<lparr>snapshot_alpha := a\<rparr>)"
proof -
  have f': "f' = Some (concat (map (\<lambda>l. l @ [newline]) (config_lines F cfg)))"
    using assms(1) by (auto simp: config_save_def Let_def split: res.splits)
  have nl: "newline \<notin> set (dec_string n)" for n using dec_string_digits [of n] by (auto simp: is_digit_def newline_def)
  have g: "getlines (concat (map (\<lambda>l. l @ [newline]) (config_lines F cfg))) = config_lines F cfg"
    by (rule getlines_concat) (use nl assms(2,4) in \<open>auto simp: config_lines_def prints_as_def newline_def\<close>)
  have u: "unat v < 2 ^ 64" for v :: u64 using unsigned_less [of v] by simp
  have al: "parse_numeric_field k (f_show F (snapshot_alpha cfg)) (f_stod F) = Ok a" for k
    using assms(2) by (simp add: parse_numeric_field_def prints_as_def)
  have st: "strip_eol (f_show F (snapshot_alpha cfg)) = f_show F (snapshot_alpha cfg)" using assms(2) by (simp add: prints_as_def)
  have b: "strip_eol ''1'' = ''1''" "strip_eol ''0'' = ''0''" by (simp_all add: strip_eol_def newline_def)
  note parse = parse_dec [OF u] parse_dec [OF u32_as_u64(1)] u32_as_u64(2,3) [simplified] al st strip_eol_digits assms(5) b
  have "load_lines F (config_lines F cfg) c = Ok (cfg\<lparr>snapshot_alpha := a\<rparr>)" for c
    by (simp add: config_lines_def load_line_def Let_def parse)
  then show ?thesis using assms(3) by (simp add: config_load_def f' g)
qed

subsection \<open>RepoPaths\<close>

text \<open>A path is its list of components, the last one first; the root directory is \<open>[]\<close> and is its own parent.\<close>

type_synonym comps = "string list"

definition dot :: "comps \<Rightarrow> comps" where "dot root = ''.synapsefs'' # root"
definition objects :: "comps \<Rightarrow> comps" where "objects root = ''objects'' # dot root"
definition pack :: "comps \<Rightarrow> comps" where "pack root = ''pack'' # dot root"
definition tmp_dir :: "comps \<Rightarrow> comps" where "tmp_dir root = ''tmp'' # dot root"
definition incoming :: "comps \<Rightarrow> comps" where "incoming root = ''incoming'' # dot root"
definition refs_heads :: "comps \<Rightarrow> comps" where "refs_heads root = ''heads'' # ''refs'' # dot root"
definition head_path :: "comps \<Rightarrow> comps" where "head_path root = ''HEAD'' # dot root"
definition journal_path :: "comps \<Rightarrow> comps" where "journal_path root = ''journal'' # dot root"
definition lock_path :: "comps \<Rightarrow> comps" where "lock_path root = ''index.lock'' # dot root"

definition object_path :: "comps \<Rightarrow> Oid \<Rightarrow> comps" where
  "object_path root oid = drop 3 (oid_fanout_path oid) # take 2 (oid_fanout_path oid) # objects root"

fun discover_loop :: "(comps \<Rightarrow> bool) \<Rightarrow> comps \<Rightarrow> comps option" where
  "discover_loop ex p = (if ex (dot p) then Some p else case p of [] \<Rightarrow> None | _ # parent \<Rightarrow> discover_loop ex parent)"

declare discover_loop.simps [simp del]

text \<open>\<open>absolute\<close> is \<open>fs::absolute(start, ec)\<close>.\<close>

definition discover :: "(comps \<Rightarrow> bool) \<Rightarrow> comps option \<Rightarrow> comps res" where
  "discover ex absolute =
     (case absolute of
        None \<Rightarrow> SFS_ERR Io []
      | Some p \<Rightarrow> (case discover_loop ex p of Some root \<Rightarrow> Ok root | None \<Rightarrow> SFS_ERR NotARepository []))"

lemma discover_loop_nearest:
  "discover_loop ex p = Some root \<longleftrightarrow> (\<exists>pre. p = pre @ root \<and> ex (dot root) \<and> (\<forall>n < length pre. \<not> ex (dot (drop n p))))"
proof (induction ex p rule: discover_loop.induct)
  case (1 ex p)
  show ?case
  proof (cases "ex (dot p)")
    case True
    have "pre = []" if "p = pre @ root" "\<forall>n < length pre. \<not> ex (dot (drop n p))" for pre using that(2) True by (cases pre) force+
    then show ?thesis using True by (auto simp: discover_loop.simps)
  next
    case False
    show ?thesis
    proof (cases p)
      case Nil
      then show ?thesis using False by (auto simp: discover_loop.simps)
    next
      case (Cons c q)
      have "(\<exists>pre. p = pre @ root \<and> ex (dot root) \<and> (\<forall>n < length pre. \<not> ex (dot (drop n p)))) \<longleftrightarrow>
        (\<exists>pre. q = pre @ root \<and> ex (dot root) \<and> (\<forall>n < length pre. \<not> ex (dot (drop n q))))" (is "?L \<longleftrightarrow> ?R")
      proof
        assume ?L
        then obtain pre where pre: "p = pre @ root" "ex (dot root)" "\<forall>n < length pre. \<not> ex (dot (drop n p))" by blast
        obtain pre' where p': "pre = c # pre'" using pre(1,2) False Cons by (cases pre) auto
        show ?R using pre Cons unfolding p' by (intro exI [of _ pre']) (auto dest: spec [of _ "Suc _"])
      next
        assume ?R
        then obtain pre where pre: "q = pre @ root" "ex (dot root)" "\<forall>n < length pre. \<not> ex (dot (drop n q))" by blast
        then show ?L using False Cons by (intro exI [of _ "c # pre"]) (auto simp: less_Suc_eq_0_disj)
      qed
      moreover have "discover_loop ex p = discover_loop ex q" using False Cons by (subst discover_loop.simps) simp
      ultimately show ?thesis using 1 [OF False Cons] by simp
    qed
  qed
qed

text \<open>
  Note: \<open>RepoPaths::discover\<close> returns the nearest enclosing directory that contains \<open>.synapsefs\<close>, and reports \<open>NotARepository\<close> exactly when no
  enclosing directory does.
\<close>

theorem discover_nearest:
  "discover ex (Some p) =
     (if \<exists>n \<le> length p. ex (dot (drop n p)) then Ok (drop (LEAST n. ex (dot (drop n p))) p) else SFS_ERR NotARepository [])"
proof (cases "\<exists>n \<le> length p. ex (dot (drop n p))")
  case True
  let ?n = "LEAST n. ex (dot (drop n p))"
  have ex: "ex (dot (drop ?n p))" using True LeastI_ex [of "\<lambda>n. ex (dot (drop n p))"] by blast
  have "?n \<le> length p" using True Least_le [of "\<lambda>n. ex (dot (drop n p))"] le_trans by blast
  then have "discover_loop ex p = Some (drop ?n p)"
    unfolding discover_loop_nearest using ex not_less_Least [of _ "\<lambda>n. ex (dot (drop n p))"]
    by (intro exI [of _ "take ?n p"]) auto
  then show ?thesis using True by (simp add: discover_def)
next
  case False
  have "discover_loop ex p = None"
  proof (rule ccontr)
    assume "discover_loop ex p \<noteq> None"
    then obtain root pre where "p = pre @ root" "ex (dot root)" using discover_loop_nearest by blast
    then show False using False by (auto dest: spec [of _ "length pre"])
  qed
  then show ?thesis using False by (simp add: discover_def)
qed

text \<open>Different objects have different paths, and no object path is one of the other files of the repository.\<close>

lemma object_path_inj: "wf_oid a \<Longrightarrow> wf_oid b \<Longrightarrow> object_path root a = object_path root b \<longleftrightarrow> a = b"
  unfolding object_path_def by (metis list.inject oid_fanout_rejoin option.inject parse_hex_bytes)

subsection \<open>Concrete configurations\<close>

text \<open>A toy of the double operations that prints the pattern in decimal, and a saved configuration.\<close>

definition toy_floats :: Float_Ops where
  "toy_floats = \<lparr>f_stod = stoull, f_show = (\<lambda>d. dec_string (unat d)), f_le_zero = (\<lambda>d. d = 0), f_gt_one = (\<lambda>d. 1023 * 2 ^ 52 < d)\<rparr>"

theorem config_load_valid_witness:
  "config_validate toy_floats (default_config\<lparr>chunk_bytes := 4096\<rparr>) = Ok () \<and> config_load toy_floats (Some ''chunk_bytes=4096'') = Ok (default_config\<lparr>chunk_bytes := 4096\<rparr>)"
proof -
  have "config_load toy_floats (Some ''chunk_bytes=4096'') = Ok (default_config\<lparr>chunk_bytes := 4096\<rparr>)"
    by (simp add: config_load_def getlines.simps newline_def load_line_def strip_eol_def parse_numeric_field_def stoull_def sign_of_def is_blank_def is_digit_def
      dec_value_def config_validate_def default_config_def toy_floats_def)
  moreover have "\<not> f_le_zero toy_floats (1022 * 2 ^ 52)" "\<not> f_gt_one toy_floats (1022 * 2 ^ 52)" by (simp_all add: toy_floats_def)
  ultimately show ?thesis using config_load_valid [of toy_floats "Some ''chunk_bytes=4096''"] by simp
qed

theorem config_roundtrip_witness:
  "config_load toy_floats (fst (config_save toy_floats True None default_config None)) = Ok default_config"
proof -
  let ?s = "config_save toy_floats True None default_config None"
  have v: "config_validate toy_floats default_config = Ok ()" by (rule default_valid) (simp_all add: toy_floats_def)
  have s: "?s = (fst ?s, Ok ())" by (simp add: config_save_def v Let_def)
  have "prints_as toy_floats (snapshot_alpha default_config) (snapshot_alpha default_config)"
    unfolding prints_as_def toy_floats_def using dec_string_digits [of "unat (snapshot_alpha default_config)"]
    by (auto simp: stoull_dec_string unsigned_less [of "snapshot_alpha default_config", simplified] strip_eol_digits is_digit_def newline_def)
  then show ?thesis using config_roundtrip [OF s, of "snapshot_alpha default_config"] v
    by (simp add: default_config_def newline_def strip_eol_def)
qed

text \<open>A negative number is accepted and wraps.\<close>

lemma config_negative_wraps: "load_line F ''chunk_bytes=-1'' cfg = Ok (cfg\<lparr>chunk_bytes := - 1\<rparr>)"
  by (simp add: load_line_def strip_eol_def newline_def parse_numeric_field_def stoull_negative)

end
