(* ===== verification/Net_Sync.thy ===== *)
theory Net_Sync
  imports Core_Config Store_Loose
begin

section \<open>Synchronisation with a peer\<close>

text \<open>
  \<open>net/src/synapse_sync.cpp\<close>: \<open>push\<close>, \<open>pull\<close> and \<open>serve\<close>. A socket is two byte streams: \<open>stream\<close> holds all the bytes the
  peer is going to send, and an operation returns what is left of it and what it sends itself; how the kernel cuts a stream into pieces does not matter
  (\<open>recv_loop_split\<close>). The files of the working directory are a map from path names to contents. What the operating system decides is
  the argument \<open>E\<close>. The JSON library is the argument \<open>L\<close>, on the one document the protocol sends. The main
  results: whatever a peer sends, a file under the name of an object hashes to that name; and a receiver connected to
  an honest sender ends up with the sender's files.
\<close>

subsection \<open>Parsing what a peer sends\<close>

definition safe_stoull :: "string \<Rightarrow> u64 option" where
  "safe_stoull s = (if s = [] then None else case stoull s of None \<Rightarrow> None | Some (v, pos) \<Rightarrow> if pos \<noteq> length s then None else Some v)"

text \<open>\<open>std::stoi\<close>: \<open>strtol\<close> and a range check on \<open>int\<close>.\<close>

definition stoi :: "string \<Rightarrow> (int \<times> nat) option" where
  "stoi s =
     (let (neg, rest) = sign_of (dropWhile is_blank s); ds = takeWhile is_digit rest; v = (if neg then - int (dec_value ds) else int (dec_value ds))
      in if ds = [] \<or> v < - (2 ^ 31) \<or> 2 ^ 31 \<le> v then None else Some (v, length s - length rest + length ds))"

definition safe_stoi :: "string \<Rightarrow> int option" where
  "safe_stoi s = (if s = [] then None else case stoi s of None \<Rightarrow> None | Some (v, pos) \<Rightarrow> if pos \<noteq> length s then None else Some v)"

text \<open>\<open>path.filename()\<close> and \<open>path.parent_path()\<close> of a POSIX path name.\<close>

definition filename :: "string \<Rightarrow> string" where
  "filename p = rev (takeWhile (\<lambda>c. c \<noteq> CHR ''/'') (rev p))"

definition parent_path :: "string \<Rightarrow> string" where
  "parent_path p = rev (dropWhile (\<lambda>c. c = CHR ''/'') (dropWhile (\<lambda>c. c \<noteq> CHR ''/'') (rev p)))"

definition is_xdigit :: "char \<Rightarrow> bool" where
  "is_xdigit c \<longleftrightarrow> 0 \<le> hex_nibble c"

definition object_oid_from_path :: "string \<Rightarrow> Oid option" where
  "object_oid_from_path p =
     (let fname = filename p; dname = filename (parent_path p)
      in if length fname \<noteq> 62 \<or> length dname \<noteq> 2 \<or> \<not> list_all is_xdigit fname \<or> \<not> list_all is_xdigit dname then None
         else case oid_parse (''b3:'' @ dname @ fname) of Ok oid \<Rightarrow> Some oid | _ \<Rightarrow> None)"

text \<open>\<open>compute_oid\<close> of the kind byte of a header: an unknown kind is framed with the tag \<open>?\<close>.\<close>

definition kind_of_code :: "u8 \<Rightarrow> ObjectKind option" where
  "kind_of_code c = find (\<lambda>k. kind_code k = c) [KRaw, KDiff, KHeader, KManifest, KCommit, KTopology, KTree]"

definition compute_oid_code :: "(bytes \<Rightarrow> bytes) \<Rightarrow> u8 \<Rightarrow> bytes \<Rightarrow> Oid" where
  "compute_oid_code blake3 c payload =
     (case kind_of_code c of
        Some k \<Rightarrow> compute_oid blake3 k payload
      | None \<Rightarrow> blake3 (str_bytes (''synapsefs.? '' @ dec_string (length payload)) @ [0] @ payload))"

definition verify_received_object_payload :: "'j Ext \<Rightarrow> bytes \<Rightarrow> Oid \<Rightarrow> bool res" where
  "verify_received_object_payload X b expected =
     (case object_header_decode b of
        Ok hdr \<Rightarrow>
          (let payload_off = kSize + unat (chunk_count hdr) * kOidBytes
           in if length b < unat (of_nat payload_off + payload_len hdr) then Ok False
              else if length b < payload_off + unat (payload_len hdr) then Abort UB
              else Ok (compute_oid_code (x_blake3 X) (oh_kind hdr) (slice b payload_off (unat (payload_len hdr))) = expected))
      | _ \<Rightarrow> Ok False)"

subsection \<open>Inventories\<close>

text \<open>
  The value of a path in an inventory: the contents of a ref, the size of any other file, or something that \<open>get<size_t>\<close> refuses.
  \<open>NotObject\<close> is a document whose iteration has no keys.
\<close>

datatype inv_val = InvStr bytes | InvSize u64 | InvBad

datatype inventory = Items "(string \<times> inv_val) list" | NotObject

record Json_Inv =
  ji_dump :: "(string \<times> inv_val) list \<Rightarrow> bytes option"
  ji_parse :: "bytes \<Rightarrow> inventory option"

definition has_infix :: "string \<Rightarrow> string \<Rightarrow> bool" where
  "has_infix pat s \<longleftrightarrow> (\<exists>i \<in> set [0..<length s]. take (length pat) (drop i s) = pat)"

definition inv_value :: "string \<Rightarrow> bytes \<Rightarrow> inv_val" where
  "inv_value p b = (if has_infix ''/ref'' p \<or> has_infix ''HEAD'' p then InvStr b else InvSize (of_nat (length b)))"

definition target_dirs :: "string list" where
  "target_dirs = [''.synapsefs/objects'', ''.synapsefs/refs'', ''.synapsefs/ref'', ''.synapsefs/journal'']"

definition in_target :: "string \<Rightarrow> bool" where
  "in_target p \<longleftrightarrow> list_ex (\<lambda>dir. take (length dir + 1) p = dir @ ''/'') target_dirs"

text \<open>\<open>listing\<close> names the regular files of the working directory, of which the iterators yield those below the target directories; a JSON object keeps its keys sorted.\<close>

definition get_local_inventory :: "files \<Rightarrow> string list \<Rightarrow> (string \<times> inv_val) list" where
  "get_local_inventory fs listing =
     List.map_filter (\<lambda>p. map_option (\<lambda>b. (p, inv_value p b)) (fs p)) (sort (remdups (filter in_target listing)))"

subsection \<open>Streams\<close>

text \<open>\<open>recv\<close> with the sizes the kernel chooses, as \<open>read_exact\<close> calls it: \<open>None\<close> when the stream ends first.\<close>

fun recv_loop :: "nat list \<Rightarrow> nat \<Rightarrow> bytes \<Rightarrow> bytes \<Rightarrow> (bytes \<times> bytes) option" where
  "recv_loop ns 0 got stream = Some (got, stream)"
| "recv_loop ns (Suc n) got [] = None"
| "recv_loop [] (Suc n) got (b # stream) = recv_loop [] n (got @ [b]) stream"
| "recv_loop (k # ns) (Suc n) got (b # stream) =
     (let piece = take (min (Suc k) (Suc n)) (b # stream)
      in recv_loop ns (Suc n - length piece) (got @ piece) (drop (length piece) (b # stream)))"

definition read_exact :: "nat \<Rightarrow> bytes \<Rightarrow> (bytes \<times> bytes) option" where
  "read_exact n stream = recv_loop [] n [] stream"

definition line_str :: "bytes \<Rightarrow> string" where
  "line_str bs = map (\<lambda>b. char_of (unat b)) bs"

definition read_line :: "bytes \<Rightarrow> string \<times> bytes" where
  "read_line stream = (line_str (takeWhile (\<lambda>b. b \<noteq> 10) stream), drop 1 (dropWhile (\<lambda>b. b \<noteq> 10) stream))"

definition send_line :: "string \<Rightarrow> bytes" where
  "send_line s = str_bytes s @ [10]"

definition send_inventory :: "Json_Inv \<Rightarrow> (string \<times> inv_val) list \<Rightarrow> bytes res" where
  "send_inventory L items = SFS_TRY (thrown (ji_dump L items)) (\<lambda>serialized. Ok (send_line (dec_string (length serialized)) @ serialized))"

record net_env =
  ne_alloc_ok :: "u64 \<Rightarrow> bool"
  ne_open_ok :: "string \<Rightarrow> bool"
  ne_remove_ok :: "string \<Rightarrow> bool"
  ne_rename_ok :: "string \<Rightarrow> bool"
  ne_send_ok :: "string \<Rightarrow> bool"

text \<open>A buffer of the length that the peer announces is allocated before anything is read.\<close>

definition receive_inventory :: "Json_Inv \<Rightarrow> net_env \<Rightarrow> bytes \<Rightarrow> (inventory \<times> bytes) res" where
  "receive_inventory L E stream =
     (let (len_str, s1) = read_line stream
      in case safe_stoull len_str of
           None \<Rightarrow> Ok (Items [], s1)
         | Some len \<Rightarrow>
             if \<not> ne_alloc_ok E len then Abort Throw
             else case read_exact (unat len) s1 of
               None \<Rightarrow> Ok (Items [], [])
             | Some (buf, s2) \<Rightarrow> Ok (case ji_parse L buf of Some doc \<Rightarrow> doc | None \<Rightarrow> Items [], s2))"

subsection \<open>Sending and receiving a file\<close>

definition handle_send_file :: "files \<Rightarrow> string \<Rightarrow> u64 \<Rightarrow> bytes" where
  "handle_send_file fs filepath offset =
     (case fs filepath of
        None \<Rightarrow> []
      | Some b \<Rightarrow>
          (let off = min (unat offset) (length b)
           in send_line ''FILE'' @ send_line filepath @ send_line (dec_string (length b)) @ send_line (dec_string off) @ drop off b))"

definition net_remove :: "net_env \<Rightarrow> string \<Rightarrow> files \<Rightarrow> files" where
  "net_remove E p fs = (if ne_remove_ok E p then fs(p := None) else fs)"

definition tmp_name :: "string \<Rightarrow> string" where
  "tmp_name p = p @ ''.tmp''"

text \<open>The file, what is left of the stream, and the result; when the stream ends early, what arrived stays in the temporary file.\<close>

definition handle_receive_file :: "'j Ext \<Rightarrow> net_env \<Rightarrow> files \<Rightarrow> bytes \<Rightarrow> files \<times> bytes \<times> bool res" where
  "handle_receive_file X E fs stream =
     (let (filepath, s1) = read_line stream; (total_str, s2) = read_line s1; (offset_str, s3) = read_line s2
      in case (safe_stoull total_str, safe_stoull offset_str) of
           (Some total_size, Some offset) \<Rightarrow>
             if filepath = [] \<or> total_size < offset then (fs, s3, Ok False)
             else let remaining = unat (total_size - offset); temp_path = tmp_name filepath
             in if \<not> ne_open_ok E temp_path then (fs, s3, Ok False)
                else let old = (if 0 < offset then (case fs temp_path of None \<Rightarrow> [] | Some b \<Rightarrow> b) else []);
                         b = old @ take remaining s3; s4 = drop remaining s3; fs1 = fs(temp_path \<mapsto> b)
                in if length s3 < remaining then (fs1, s4, Ok False)
                   else case (case object_oid_from_path filepath of None \<Rightarrow> Ok True | Some oid \<Rightarrow> verify_received_object_payload X b oid) of
                     Ok True \<Rightarrow>
                       (let fs2 = net_remove E filepath fs1
                        in if ne_rename_ok E filepath then (fs2(temp_path := None, filepath \<mapsto> b), s4, Ok True) else (fs2, s4, Ok False))
                   | Ok False \<Rightarrow> (net_remove E temp_path fs1, s4, Ok False)
                   | e \<Rightarrow> (fs1, s4, e)
         | _ \<Rightarrow> (fs, s3, Ok False))"

subsection \<open>The two loops\<close>

text \<open>
  What the receiver does with a temporary file that is already there: whether it is wiped, and from which offset the transfer resumes; \<open>None\<close>
  is the exception of \<open>get<size_t>\<close>.
\<close>

definition resume_point :: "inv_val \<Rightarrow> bytes option \<Rightarrow> (bool \<times> u64) option" where
  "resume_point v t =
     (case t of
        None \<Rightarrow> Some (False, 0)
      | Some b \<Rightarrow>
          (case v of
             InvStr _ \<Rightarrow> Some (True, 0)
           | InvSize n \<Rightarrow> if n < of_nat (length b) then Some (True, 0) else Some (False, of_nat (length b))
           | InvBad \<Rightarrow> None))"

definition request :: "string \<Rightarrow> u64 \<Rightarrow> bytes" where
  "request filepath offset = send_line ''REQ'' @ send_line filepath @ send_line (dec_string (unat offset))"

definition and_res :: "bool \<Rightarrow> bool res \<Rightarrow> bool res" where
  "and_res a r = (case r of Ok b \<Rightarrow> Ok (a \<and> b) | e \<Rightarrow> e)"

fun receive_items :: "'j Ext \<Rightarrow> net_env \<Rightarrow> (string \<rightharpoonup> inv_val) \<Rightarrow> (string \<times> inv_val) list \<Rightarrow> files \<Rightarrow> bytes \<Rightarrow> files \<times> bytes \<times> bytes \<times> bool res" where
  "receive_items X E local [] fs stream = (fs, stream, [], Ok True)"
| "receive_items X E local ((filepath, v) # items) fs stream =
     (if local filepath = Some v then receive_items X E local items fs stream
      else case resume_point v (fs (tmp_name filepath)) of
        None \<Rightarrow> (fs, stream, [], Abort Throw)
      | Some (wipe, offset) \<Rightarrow>
          (let fs1 = (if wipe then net_remove E (tmp_name filepath) fs else fs)
           in if \<not> ne_send_ok E filepath then (fs1, stream, [], Ok False)
              else let (cmd, s1) = read_line stream;
                       (fs2, s2, r) = (if cmd = ''FILE'' then handle_receive_file X E fs1 s1 else (fs1, s1, Ok False))
              in case r of
                   Ok ok \<Rightarrow> (let (fs3, s3, sent, r3) = receive_items X E local items fs2 s2 in (fs3, s3, request filepath offset @ sent, and_res ok r3))
                 | e \<Rightarrow> (fs2, s2, request filepath offset, e)))"

definition receiver_sync_loop :: "'j Ext \<Rightarrow> net_env \<Rightarrow> string list \<Rightarrow> inventory \<Rightarrow> files \<Rightarrow> bytes \<Rightarrow> files \<times> bytes \<times> bytes \<times> bool res" where
  "receiver_sync_loop X E listing remote fs stream =
     (case remote of
        NotObject \<Rightarrow> (fs, stream, [], Abort Throw)
      | Items items \<Rightarrow>
          (let (fs1, s1, sent, r) = receive_items X E (map_of (get_local_inventory fs listing)) items fs stream
           in (fs1, s1, sent @ (case r of Ok _ \<Rightarrow> send_line ''DONE'' | _ \<Rightarrow> []), r)))"

lemma read_line_length: "length (snd (read_line stream)) \<le> length stream"
  unfolding read_line_def using length_dropWhile_le [of "\<lambda>b. b \<noteq> 10" stream] by simp

lemma read_line_progress: "fst (read_line stream) \<noteq> [] \<Longrightarrow> length (snd (read_line stream)) < length stream"
proof -
  assume a: "fst (read_line stream) \<noteq> []"
  have "length (takeWhile (\<lambda>b. b \<noteq> 10) stream) + length (dropWhile (\<lambda>b. b \<noteq> 10) stream) = length stream"
    by (metis length_append takeWhile_dropWhile_id)
  then show ?thesis using a unfolding read_line_def line_str_def by (cases "takeWhile (\<lambda>b. b \<noteq> 10) stream") auto
qed

lemma read_line_shrinks: "(line, rest) = read_line stream \<Longrightarrow> length rest \<le> length stream \<and> (line \<noteq> [] \<longrightarrow> length rest < length stream)"
  using read_line_length [of stream] read_line_progress [of stream] by (metis fst_conv snd_conv)

function sender_sync_loop :: "files \<Rightarrow> bytes \<Rightarrow> bytes" where
  "sender_sync_loop fs stream =
     (let (cmd, s1) = read_line stream
      in if cmd = ''DONE'' \<or> cmd = [] then []
         else if cmd = ''REQ'' then
           (let (filepath, s2) = read_line s1; (offset_str, s3) = read_line s2
            in case safe_stoull offset_str of
                 Some offset \<Rightarrow> (if filepath = [] then [] else handle_send_file fs filepath offset) @ sender_sync_loop fs s3
               | None \<Rightarrow> sender_sync_loop fs s3)
         else sender_sync_loop fs s1)"
  by auto

termination
  by (relation "measure (\<lambda>(fs, stream). length stream)") (auto dest!: read_line_shrinks)

declare sender_sync_loop.simps [simp del]

subsection \<open>push, pull and serve\<close>

fun after_first :: "string \<Rightarrow> string \<Rightarrow> string option" where
  "after_first pat s = (if take (length pat) s = pat then Some (drop (length pat) s) else case s of [] \<Rightarrow> None | _ # t \<Rightarrow> after_first pat t)"

declare after_first.simps [simp del]

text \<open>\<open>connect_to_remote\<close>: the address and port it dials, and \<open>dial\<close> for \<open>inet_pton\<close> and \<open>connect\<close>.\<close>

definition connect_target :: "string \<Rightarrow> (string \<times> int) option" where
  "connect_target url =
     (let cleaned = (case after_first ''://'' url of Some rest \<Rightarrow> rest | None \<Rightarrow> url)
      in if CHR '':'' \<notin> set cleaned then None
         else let ip = takeWhile (\<lambda>c. c \<noteq> CHR '':'') cleaned
         in case safe_stoi (drop (length ip + 1) cleaned) of
              None \<Rightarrow> None
            | Some port \<Rightarrow> if port < 0 \<or> 65535 < port then None else Some (ip, port))"

definition connect_to_remote :: "(string \<Rightarrow> int \<Rightarrow> bool) \<Rightarrow> string \<Rightarrow> bool" where
  "connect_to_remote dial url = (case connect_target url of None \<Rightarrow> False | Some (ip, port) \<Rightarrow> dial ip port)"

definition receive_side :: "'j Ext \<Rightarrow> Json_Inv \<Rightarrow> net_env \<Rightarrow> string list \<Rightarrow> files \<Rightarrow> bytes \<Rightarrow> files \<times> bytes \<times> bool res" where
  "receive_side X L E listing fs stream =
     (case receive_inventory L E stream of
        Ok (remote_inv, s1) \<Rightarrow> (let (fs1, s2, sent, r) = receiver_sync_loop X E listing remote_inv fs s1 in (fs1, sent, r))
      | Err e \<Rightarrow> (fs, [], Err e)
      | Abort a \<Rightarrow> (fs, [], Abort a))"

definition send_side :: "Json_Inv \<Rightarrow> string list \<Rightarrow> files \<Rightarrow> bytes \<Rightarrow> bytes res" where
  "send_side L listing fs stream =
     SFS_TRY (send_inventory L (get_local_inventory fs listing)) (\<lambda>header. Ok (header @ sender_sync_loop fs stream))"

definition pull :: "'j Ext \<Rightarrow> Json_Inv \<Rightarrow> net_env \<Rightarrow> (string \<Rightarrow> int \<Rightarrow> bool) \<Rightarrow> string list \<Rightarrow> files \<Rightarrow> string \<Rightarrow> bytes \<Rightarrow> files \<times> bytes \<times> bool res" where
  "pull X L E dial listing fs url stream =
     (if \<not> connect_to_remote dial url then (fs, [], Ok False)
      else let (fs1, sent, r) = receive_side X L E listing fs stream in (fs1, send_line ''PULL'' @ sent, r))"

definition push :: "Json_Inv \<Rightarrow> (string \<Rightarrow> int \<Rightarrow> bool) \<Rightarrow> string list \<Rightarrow> files \<Rightarrow> string \<Rightarrow> bytes \<Rightarrow> bytes \<times> bool res" where
  "push L dial listing fs url stream =
     (if \<not> connect_to_remote dial url then ([], Ok False)
      else case send_side L listing fs stream of
        Ok sent \<Rightarrow> (send_line ''PUSH'' @ sent, Ok True)
      | Err e \<Rightarrow> (send_line ''PUSH'', Err e)
      | Abort a \<Rightarrow> (send_line ''PUSH'', Abort a))"

text \<open>One round of the loop of \<open>serve\<close>; its result tells whether the server is still alive.\<close>

definition serve_client :: "'j Ext \<Rightarrow> Json_Inv \<Rightarrow> net_env \<Rightarrow> string list \<Rightarrow> files \<Rightarrow> bytes \<Rightarrow> files \<times> bytes \<times> unit res" where
  "serve_client X L E listing fs stream =
     (let (command, s1) = read_line stream
      in if command = ''PUSH'' then
           (let (fs1, sent, r) = receive_side X L E listing fs s1 in (fs1, sent, SFS_TRY r (\<lambda>_. Ok ())))
         else if command = ''PULL'' then
           (case send_side L listing fs s1 of Ok sent \<Rightarrow> (fs, sent, Ok ()) | Err e \<Rightarrow> (fs, [], Err e) | Abort a \<Rightarrow> (fs, [], Abort a))
         else (fs, [], Ok ()))"

fun serve :: "'j Ext \<Rightarrow> Json_Inv \<Rightarrow> net_env \<Rightarrow> (string list \<times> bytes) list \<Rightarrow> files \<Rightarrow> files \<times> unit res" where
  "serve X L E [] fs = (fs, Ok ())"
| "serve X L E ((listing, stream) # clients) fs =
     (case serve_client X L E listing fs stream of (fs1, _, Ok _) \<Rightarrow> serve X L E clients fs1 | (fs1, _, r) \<Rightarrow> (fs1, r))"

subsection \<open>Streams and lines\<close>

text \<open>However the kernel splits a stream, \<open>read_exact\<close> sees the same bytes.\<close>

lemma recv_loop_split:
  "recv_loop ns n got stream = (if length stream < n then None else Some (got @ take n stream, drop n stream))"
proof (induction ns n got stream rule: recv_loop.induct)
  case (4 k ns n got b stream)
  define m where "m = min (min (Suc k) (Suc n)) (length (b # stream))"
  have m: "m \<le> Suc n" "m \<le> length (b # stream)" by (auto simp: m_def)
  have t: "take (min (Suc k) (Suc n)) (b # stream) = take m (b # stream)" by (simp add: m_def min_def)
  have l: "length (take m (b # stream)) = m" using m by simp
  have "take m (b # stream) @ take (Suc n - m) (drop m (b # stream)) = take (Suc n) (b # stream)"
    using m(1) by (metis le_add_diff_inverse take_add)
  moreover have "drop (Suc n - m) (drop m (b # stream)) = drop (Suc n) (b # stream)" using m(1) by (simp only: drop_drop le_add_diff_inverse2)
  moreover have "length (drop m (b # stream)) < Suc n - m \<longleftrightarrow> length (b # stream) < Suc n" using m by (simp only: length_drop) linarith
  ultimately show ?case unfolding recv_loop.simps Let_def t l 4 [OF refl, unfolded t l] by (simp only: append_assoc)
qed auto

lemma read_exact_eq: "read_exact n stream = (if length stream < n then None else Some (take n stream, drop n stream))"
  by (simp add: read_exact_def recv_loop_split)

lemma char_of_char_byte: "char_of (unat (char_byte c)) = c"
  by simp

lemma line_str_bytes: "line_str (str_bytes s) = s"
  by (simp add: line_str_def str_bytes_def comp_def)

lemma newline_byte: "(10 :: byte) \<in> set (str_bytes s) \<longleftrightarrow> newline \<in> set s"
proof -
  have "char_byte newline = 10" by (simp add: char_byte_def newline_def)
  then show ?thesis unfolding str_bytes_def by (auto simp: image_iff) (metis char_byte_inj)
qed

lemma read_line_send: "newline \<notin> set s \<Longrightarrow> read_line (send_line s @ rest) = (s, rest)"
  unfolding read_line_def send_line_def using newline_byte [of s]
  by (simp add: takeWhile_until dropWhile_until line_str_bytes)

lemma safe_stoull_dec: "n < 2 ^ 64 \<Longrightarrow> safe_stoull (dec_string n) = Some (of_nat n)"
  by (simp add: safe_stoull_def stoull_dec_string)

lemma newline_dec: "newline \<notin> set (dec_string n)"
  using dec_string_digits [of n] by (auto simp: is_digit_def newline_def)

lemmas line_simps = read_line_send newline_dec

subsection \<open>Whatever a peer sends\<close>

text \<open>A file under the name of an object passes the check of its contents.\<close>

definition objects_ok :: "'j Ext \<Rightarrow> files \<Rightarrow> bool" where
  "objects_ok X fs \<longleftrightarrow> (\<forall>p b oid. fs p = Some b \<longrightarrow> object_oid_from_path p = Some oid \<longrightarrow> verify_received_object_payload X b oid = Ok True)"

lemma filename_append: "CHR ''/'' \<notin> set s \<Longrightarrow> filename (p @ s) = filename p @ s"
  unfolding filename_def rev_append by (subst takeWhile_append2) auto

lemma tmp_not_object [simp]: "object_oid_from_path (tmp_name p) = None"
proof -
  have "filename (tmp_name p) = filename p @ ''.tmp''" unfolding tmp_name_def by (rule filename_append) simp
  moreover have "\<not> is_xdigit CHR ''t''" by (simp add: is_xdigit_def hex_nibble_def)
  ultimately show ?thesis unfolding object_oid_from_path_def by (simp add: Let_def)
qed

lemma objects_ok_remove: "objects_ok X fs \<Longrightarrow> objects_ok X (net_remove E p fs)"
  by (simp add: objects_ok_def net_remove_def)

lemma objects_ok_upd:
  "objects_ok X fs \<Longrightarrow> (\<And>oid. object_oid_from_path p = Some oid \<Longrightarrow> verify_received_object_payload X b oid = Ok True) \<Longrightarrow> objects_ok X (fs(p \<mapsto> b))"
  by (simp add: objects_ok_def)

lemma objects_ok_del: "objects_ok X fs \<Longrightarrow> objects_ok X (fs(p := None))"
  by (simp add: objects_ok_def)

lemma receive_file_ok:
  assumes "objects_ok X fs"
  shows "objects_ok X (fst (handle_receive_file X E fs stream))"
proof -
  obtain filepath s1 where 1: "read_line stream = (filepath, s1)" by (cases "read_line stream")
  obtain total_str s2 where 2: "read_line s1 = (total_str, s2)" by (cases "read_line s1")
  obtain offset_str s3 where 3: "read_line s2 = (offset_str, s3)" by (cases "read_line s2")
  have t: "objects_ok X (fs(tmp_name filepath \<mapsto> b))" for b by (rule objects_ok_upd [OF assms]) simp
  show ?thesis unfolding handle_receive_file_def 1 2 3 Let_def prod.case
    using assms t
    by (auto split: option.splits res.splits bool.splits intro!: objects_ok_upd objects_ok_del objects_ok_remove)
qed

lemma receive_items_ok: "objects_ok X fs \<Longrightarrow> objects_ok X (fst (receive_items X E local items fs stream))"
proof (induction items arbitrary: fs stream)
  case (Cons item items)
  obtain p v where item: "item = (p, v)" by (cases item)
  show ?case
  proof (cases "local p = Some v \<or> resume_point v (fs (tmp_name p)) = None")
    case True
    then show ?thesis using Cons by (auto simp: item)
  next
    case False
    then obtain wipe off where rp: "resume_point v (fs (tmp_name p)) = Some (wipe, off)" by auto
    let ?fs1 = "if wipe then net_remove E (tmp_name p) fs else fs"
    have 1: "objects_ok X ?fs1" using objects_ok_remove [OF Cons(2), of E "tmp_name p"] Cons(2) by simp
    obtain cmd s1 where rl: "read_line stream = (cmd, s1)" by (cases "read_line stream")
    obtain fs2 s2 r where h: "(if cmd = ''FILE'' then handle_receive_file X E ?fs1 s1 else (?fs1, s1, Ok False)) = (fs2, s2, r)"
      by (metis prod_cases3)
    have 2: "objects_ok X fs2" using receive_file_ok [OF 1, of E s1] 1 h by (cases "cmd = ''FILE''") auto
    show ?thesis unfolding item receive_items.simps rp option.case prod.case Let_def rl h
      using False 1 2 Cons(1) [OF 2, of s2] by (auto split: res.splits prod.splits)
  qed
qed simp

lemma receiver_ok:
  assumes "objects_ok X fs"
  shows "objects_ok X (fst (receiver_sync_loop X E listing remote fs stream))"
proof (cases remote)
  case (Items items)
  then show ?thesis using receive_items_ok [OF assms, of E "map_of (get_local_inventory fs listing)" items stream]
    by (simp add: receiver_sync_loop_def case_prod_beta Let_def)
qed (simp add: receiver_sync_loop_def assms)

lemma receive_side_ok:
  assumes "objects_ok X fs"
  shows "objects_ok X (fst (receive_side X L E listing fs stream))"
proof (cases "receive_inventory L E stream")
  case (Ok p)
  then show ?thesis using receiver_ok [OF assms, of E listing "fst p" "snd p"]
    by (simp add: receive_side_def case_prod_beta Let_def)
qed (simp_all add: receive_side_def assms)

lemma serve_client_ok:
  assumes "objects_ok X fs"
  shows "objects_ok X (fst (serve_client X L E listing fs stream))"
  unfolding serve_client_def case_prod_beta Let_def
  using receive_side_ok [OF assms, of L E listing "snd (read_line stream)"] assms by (auto split: res.splits)

lemma serve_ok: "objects_ok X fs \<Longrightarrow> objects_ok X (fst (serve X L E clients fs))"
proof (induction clients arbitrary: fs)
  case (Cons c clients)
  obtain listing stream where c: "c = (listing, stream)" by (cases c)
  obtain fs1 sent r where s: "serve_client X L E listing fs stream = (fs1, sent, r)" by (metis prod_cases3)
  have "objects_ok X fs1" using serve_client_ok [OF Cons(2), of L E listing stream] s by simp
  then show ?case using Cons(1) by (cases r) (simp_all add: c s)
qed simp


subsection \<open>An honest sender\<close>

definition calm :: "net_env \<Rightarrow> bool" where
  "calm E \<longleftrightarrow> (\<forall>p. ne_open_ok E p) \<and> (\<forall>p. ne_rename_ok E p) \<and> (\<forall>p. ne_send_ok E p)"

text \<open>
  A path that can be transferred: its name fits the line protocol and is not that of a temporary file; the file has a 64-bit size, and
  if it is an object it passes the check.
\<close>

definition transferable :: "'j Ext \<Rightarrow> files \<Rightarrow> string \<Rightarrow> bytes \<Rightarrow> bool" where
  "transferable X remote p b \<longleftrightarrow> remote p = Some b \<and> p \<noteq> [] \<and> newline \<notin> set p \<and> (\<forall>q. p \<noteq> tmp_name q) \<and> length b < 2 ^ 64 \<and>
     (\<forall>oid. object_oid_from_path p = Some oid \<longrightarrow> verify_received_object_payload X b oid = Ok True)"

text \<open>What a cut transfer leaves: a temporary file that is longer than the file or the beginning of it.\<close>

definition resumable :: "files \<Rightarrow> string \<Rightarrow> bytes \<Rightarrow> bool" where
  "resumable fs p b \<longleftrightarrow> (\<forall>t. fs (tmp_name p) = Some t \<longrightarrow> length t < 2 ^ 64 \<and> (length b < length t \<or> t = take (length t) b))"

definition file_body :: "string \<Rightarrow> bytes \<Rightarrow> u64 \<Rightarrow> bytes" where
  "file_body p b off = send_line p @ send_line (dec_string (length b)) @ send_line (dec_string (unat off)) @ drop (unat off) b"

lemma send_file_body:
  "remote p = Some b \<Longrightarrow> unat off \<le> length b \<Longrightarrow> handle_send_file remote p off = send_line ''FILE'' @ file_body p b off"
  by (simp add: handle_send_file_def file_body_def min_absorb1 Let_def)

lemma receive_of_send:
  assumes "transferable X remote p b" "calm E" "unat off \<le> length b" "0 < off \<Longrightarrow> fs (tmp_name p) = Some (take (unat off) b)"
  shows "handle_receive_file X E fs (file_body p b off @ rest) = (fs(tmp_name p := None, p \<mapsto> b), rest, Ok True)"
proof -
  have p: "newline \<notin> set p" "p \<noteq> []" "length b < 2 ^ 64" using assms(1) by (auto simp: transferable_def)
  have lb: "unat (of_nat (length b) :: u64) = length b" using p(3) by (simp add: unat_of_nat take_bit_nat_eq_self)
  have le: "\<not> of_nat (length b) < off" using assms(3) lb by (simp add: word_less_nat_alt)
  have rem: "unat (of_nat (length b) - off) = length b - unat off" using le lb by (simp add: unat_sub word_less_nat_alt not_less word_le_nat_alt)
  have old: "(if 0 < off then (case fs (tmp_name p) of None \<Rightarrow> [] | Some b \<Rightarrow> b) else []) = take (unat off) b"
    using assms(4) by (cases "0 < off") (auto simp: word_gt_0)
  have ok: "(case object_oid_from_path p of None \<Rightarrow> Ok True | Some oid \<Rightarrow> verify_received_object_payload X b oid) = Ok True"
    using assms(1) by (auto simp: transferable_def split: option.splits)
  have so: "safe_stoull (dec_string (unat off)) = Some off" using unsigned_less [of off] by (subst safe_stoull_dec) simp_all
  have joined: "take (unat off) b @ take (length b - unat off) (drop (unat off) b @ rest) = b" "drop (length b - unat off) (drop (unat off) b @ rest) = rest"
    by simp_all
  have env: "ne_open_ok E q" "ne_rename_ok E q" for q using assms(2) by (simp_all add: calm_def)
  show ?thesis unfolding handle_receive_file_def file_body_def append_assoc line_simps(1) [OF p(1)] read_line_send [OF newline_dec] Let_def prod.case
      safe_stoull_dec [OF p(3)] so option.case rem old joined ok res.case bool.case
    using p le env by (simp add: net_remove_def fun_upd_twist tmp_name_def not_less)
qed

lemma honest_step:
  assumes "transferable X remote p b" "calm E" "resumable fs p b"
  obtains wipe off where "resume_point (inv_value p b) (fs (tmp_name p)) = Some (wipe, off)" "unat off \<le> length b"
    "\<And>rest. handle_receive_file X E (if wipe then net_remove E (tmp_name p) fs else fs) (file_body p b off @ rest) =
       (fs(tmp_name p := None, p \<mapsto> b), rest, Ok True)"
proof (cases "fs (tmp_name p)")
  case None
  then show thesis using receive_of_send [OF assms(1,2), of 0 fs] that [of False 0] by (simp add: resume_point_def)
next
  case (Some t)
  have wiped: "handle_receive_file X E (net_remove E (tmp_name p) fs) (file_body p b 0 @ rest) = (fs(tmp_name p := None, p \<mapsto> b), rest, Ok True)" for rest
    using receive_of_send [OF assms(1,2), of 0 "net_remove E (tmp_name p) fs"] by (simp add: net_remove_def)
  have t: "length t < 2 ^ 64" "length b < length t \<or> t = take (length t) b" using assms(3) Some by (auto simp: resumable_def)
  have l: "unat (of_nat (length t) :: u64) = length t" "unat (of_nat (length b) :: u64) = length b"
    using t(1) assms(1) by (simp_all add: unat_of_nat take_bit_nat_eq_self transferable_def)
  show thesis
  proof (cases "inv_value p b")
    case (InvStr x)
    then show thesis using wiped that [of True 0] Some by (simp add: resume_point_def)
  next
    case (InvSize n)
    then have n: "n = of_nat (length b)" by (simp add: inv_value_def split: if_splits)
    show thesis
    proof (cases "length b < length t")
      case True
      then show thesis using wiped that [of True 0] Some InvSize n l by (simp add: resume_point_def word_less_nat_alt)
    next
      case False
      have "t = take (length t) b" using t(2) False by blast
      then have "handle_receive_file X E fs (file_body p b (of_nat (length t)) @ rest) = (fs(tmp_name p := None, p \<mapsto> b), rest, Ok True)" for rest
        using receive_of_send [OF assms(1,2), of "of_nat (length t)" fs] Some l False by simp
      then show thesis using that [of False "of_nat (length t)"] Some InvSize n l False by (simp add: resume_point_def word_less_nat_alt)
    qed
  qed (simp add: inv_value_def split: if_splits)
qed

lemma sender_request:
  assumes "newline \<notin> set p" "p \<noteq> []"
  shows "sender_sync_loop fs (request p off @ rest) = handle_send_file fs p off @ sender_sync_loop fs rest"
proof -
  have so: "safe_stoull (dec_string (unat off)) = Some off" using unsigned_less [of off] by (subst safe_stoull_dec) simp_all
  have nl: "newline \<notin> set ''REQ''" by (simp add: newline_def)
  show ?thesis using assms(2)
    by (subst sender_sync_loop.simps)
      (simp add: request_def append_assoc read_line_send [OF nl] read_line_send [OF assms(1)] read_line_send [OF newline_dec] so)
qed

lemma sender_done: "sender_sync_loop fs (send_line ''DONE'') = []"
  using read_line_send [of "''DONE''" "[]"] by (subst sender_sync_loop.simps) (simp add: newline_def)

lemma sender_empty: "sender_sync_loop fs [] = []"
  by (subst sender_sync_loop.simps) (simp add: read_line_def line_str_def)

text \<open>The receiver, connected to a sender that holds \<open>remote\<close>, item by item.\<close>

lemma receive_honest:
  assumes "receive_items X E local items fs S = (fs', rest, out, r)" "S = sender_sync_loop remote (out @ tail)" "sender_sync_loop remote tail = []"
    and "\<forall>(p, v) \<in> set items. \<exists>b. v = inv_value p b \<and> transferable X remote p b \<and> resumable fs p b" "distinct (map fst items)" "calm E"
  shows "r = Ok True \<and> rest = [] \<and> (\<forall>(p, v) \<in> set items. fs' p = (if local p = Some v then fs p else remote p)) \<and>
    (\<forall>q. q \<notin> fst ` set items \<and> q \<notin> tmp_name ` fst ` set items \<longrightarrow> fs' q = fs q)"
  using assms
proof (induction items arbitrary: fs S out r)
  case (Cons item items)
  obtain p v where item: "item = (p, v)" by (cases item)
  obtain b where b: "v = inv_value p b" "transferable X remote p b" "resumable fs p b" using Cons(5) unfolding item by auto
  have np: "newline \<notin> set p" "p \<noteq> []" "\<And>q. p \<noteq> tmp_name q" "remote p = Some b" using b(2) by (auto simp: transferable_def)
  have notin: "p \<notin> fst ` set items" "p \<notin> tmp_name ` fst ` set items" using Cons(6) np(3) unfolding item by auto
  have rest_ok: "\<forall>(q, w) \<in> set items. \<exists>c. w = inv_value q c \<and> transferable X remote q c \<and> resumable f q c"
    if "\<And>q. q \<in> fst ` set items \<Longrightarrow> f (tmp_name q) = fs (tmp_name q)" for f
    using Cons(5) that unfolding resumable_def by fastforce
  show ?case
  proof (cases "local p = Some v")
    case True
    have e: "receive_items X E local items fs S = (fs', rest, out, r)" using Cons(2) True by (simp add: item)
    have "r = Ok True \<and> rest = [] \<and> (\<forall>(p, v) \<in> set items. fs' p = (if local p = Some v then fs p else remote p)) \<and>
      (\<forall>q. q \<notin> fst ` set items \<and> q \<notin> tmp_name ` fst ` set items \<longrightarrow> fs' q = fs q)"
      by (rule Cons(1) [OF e Cons(3,4) rest_ok _ Cons(7)]) (use Cons(6) in auto)
    then show ?thesis using True notin unfolding item by auto
  next
    case False
    obtain wipe off where st: "resume_point v (fs (tmp_name p)) = Some (wipe, off)" "unat off \<le> length b"
      "\<And>rest. handle_receive_file X E (if wipe then net_remove E (tmp_name p) fs else fs) (file_body p b off @ rest) = (fs(tmp_name p := None, p \<mapsto> b), rest, Ok True)"
      using honest_step [OF b(2) Cons(7) b(3)] b(1) by metis
    have send: "ne_send_ok E p" using Cons(7) by (simp add: calm_def)
    have nl: "newline \<notin> set ''FILE''" by (simp add: newline_def)
    have "\<exists>out'. out = request p off @ out'"
      using Cons(2) False st(1) send by (auto simp: item Let_def split: prod.splits res.splits)
    then obtain out' where out: "out = request p off @ out'" by blast
    define S' where "S' = sender_sync_loop remote (out' @ tail)"
    have S: "S = send_line ''FILE'' @ file_body p b off @ S'"
      using Cons(3) sender_request [OF np(1,2), of remote off "out' @ tail"] send_file_body [of remote p b off] np(4) st(2) by (simp add: out S'_def)
    obtain fs3 s3 sent r3 where e: "receive_items X E local items (fs(tmp_name p := None, p \<mapsto> b)) S' = (fs3, s3, sent, r3)" by (metis prod_cases4)
    have eq: "(fs', rest, out, r) = (fs3, s3, request p off @ sent, and_res True r3)"
      using Cons(2) False st(1) send unfolding item S
      by (simp only: receive_items.simps if_False option.case prod.case Let_def read_line_send [OF nl] if_True st(3) res.case e simp_thms)
    have e': "receive_items X E local items (fs(tmp_name p := None, p \<mapsto> b)) S' = (fs', rest, out', r3)" using e eq out by simp
    have tmp: "(fs(tmp_name p := None, p \<mapsto> b)) (tmp_name q) = fs (tmp_name q)" if "q \<in> fst ` set items" for q
      using that notin(1) np(3) by (auto simp: tmp_name_def)
    have "r3 = Ok True \<and> rest = [] \<and> (\<forall>(q, w) \<in> set items. fs' q = (if local q = Some w then (fs(tmp_name p := None, p \<mapsto> b)) q else remote q)) \<and>
      (\<forall>q. q \<notin> fst ` set items \<and> q \<notin> tmp_name ` fst ` set items \<longrightarrow> fs' q = (fs(tmp_name p := None, p \<mapsto> b)) q)"
      by (rule Cons(1) [OF e' S'_def Cons(4) rest_ok _ Cons(7)]) (use tmp Cons(6) in auto)
    moreover have "(fs(tmp_name p := None, p \<mapsto> b)) q = fs q" if "(q, w) \<in> set items" for q w
    proof -
      have "q \<noteq> tmp_name p" using Cons(5) that by (fastforce simp: transferable_def)
      moreover have "q \<noteq> p" using that notin(1) by force
      ultimately show ?thesis by simp
    qed
    ultimately show ?thesis using eq False notin np(4) unfolding item by (auto simp: and_res_def)
  qed
qed simp

subsection \<open>A pull from an honest server\<close>

definition json_inv_ok :: "Json_Inv \<Rightarrow> bool" where
  "json_inv_ok L \<longleftrightarrow> (\<forall>items b. sorted (map fst items) \<longrightarrow> distinct (map fst items) \<longrightarrow> ji_dump L items = Some b \<longrightarrow> ji_parse L b = Some (Items items))"

lemma inventory_keys: "map fst (get_local_inventory fs listing) = filter (\<lambda>p. fs p \<noteq> None) (sort (remdups (filter in_target listing)))"
proof -
  have "map fst (List.map_filter (\<lambda>p. map_option (\<lambda>b. (p, inv_value p b)) (fs p)) xs) = filter (\<lambda>p. fs p \<noteq> None) xs" for xs
    by (induction xs) (auto simp: map_filter_simps)
  then show ?thesis by (simp add: get_local_inventory_def)
qed

lemma inventory_sorted: "sorted (map fst (get_local_inventory fs listing))" "distinct (map fst (get_local_inventory fs listing))"
  by (simp_all add: inventory_keys sorted_wrt_filter)

lemma inventory_items: "(p, v) \<in> set (get_local_inventory fs listing) \<longleftrightarrow> p \<in> set listing \<and> in_target p \<and> (\<exists>b. fs p = Some b \<and> v = inv_value p b)"
  by (force simp: get_local_inventory_def List.map_filter_def)

lemma inventory_lookup:
  "map_of (get_local_inventory fs listing) p = (if p \<in> set listing \<and> in_target p then map_option (inv_value p) (fs p) else None)"
proof (cases "p \<in> set listing \<and> in_target p \<and> fs p \<noteq> None")
  case True
  then show ?thesis using map_of_is_SomeI [OF inventory_sorted(2), of p _ fs listing] by (auto simp: inventory_items)
next
  case False
  then have "p \<notin> fst ` set (get_local_inventory fs listing)" using inventory_items [of p _ fs listing] by force
  then show ?thesis using False by (auto simp: map_of_eq_None_iff)
qed

lemma receive_inventory_sent:
  assumes "json_inv_ok L" "ji_dump L items = Some d" "length d < 2 ^ 64" "\<forall>n. ne_alloc_ok E n" "sorted (map fst items)" "distinct (map fst items)"
  shows "receive_inventory L E (send_line (dec_string (length d)) @ d @ rest) = Ok (Items items, rest)"
proof -
  have "ji_parse L d = Some (Items items)" using assms by (simp add: json_inv_ok_def)
  moreover have "unat (of_nat (length d) :: u64) = length d" using assms(3) by (simp add: unat_of_nat take_bit_nat_eq_self)
  ultimately show ?thesis unfolding receive_inventory_def read_line_send [OF newline_dec] Let_def prod.case safe_stoull_dec [OF assms(3)] option.case
    using assms(4) by (simp add: read_exact_eq)
qed

text \<open>
  C12: \<open>pull\<close> connected to \<open>serve\<close>, each reading what the other sends: when no local operation fails, the pull reports success, the server's
  files are as before, and every file of its inventory is now the same here, except where an equal inventory entry (the same ref, or the same size) was
  already there and has been left alone.
\<close>

theorem pull_from_honest_server:
  assumes client: "pull X L E dial listing fs url S = (fs', sent, r)"
    and server: "serve_client X L E' rlisting remote sent = (remote', S, ru)"
    and "connect_to_remote dial url" "json_inv_ok L" "ji_dump L (get_local_inventory remote rlisting) = Some d" "length d < 2 ^ 64"
    and "calm E" "\<forall>n. ne_alloc_ok E n" "\<forall>p \<in> set rlisting. in_target p \<longrightarrow> (\<exists>b. transferable X remote p b \<and> resumable fs p b)"
  shows "r = Ok True \<and> ru = Ok () \<and> remote' = remote \<and>
    (\<forall>p \<in> set rlisting. in_target p \<longrightarrow> fs' p = remote p \<or> fs' p = fs p \<and> map_option (inv_value p) (fs p) = map_option (inv_value p) (remote p))"
proof -
  let ?items = "get_local_inventory remote rlisting"
  let ?local = "map_of (get_local_inventory fs listing)"
  obtain out where out: "sent = send_line ''PULL'' @ out" "receive_side X L E listing fs S = (fs', out, r)"
    using client assms(3) by (auto simp: pull_def split: prod.splits)
  have nl: "newline \<notin> set ''PULL''" by (simp add: newline_def)
  have S: "S = send_line (dec_string (length d)) @ d @ sender_sync_loop remote out" "ru = Ok ()" "remote' = remote"
    using server unfolding out(1) serve_client_def read_line_send [OF nl] Let_def prod.case
    by (auto simp: send_side_def send_inventory_def assms(5))
  note inv = receive_inventory_sent [OF assms(4,5,6,8) inventory_sorted, of "sender_sync_loop remote out"]
  obtain rest o2 where ri: "receive_items X E ?local ?items fs (sender_sync_loop remote out) = (fs', rest, o2, r)"
    "out = o2 @ (case r of Ok _ \<Rightarrow> send_line ''DONE'' | _ \<Rightarrow> [])"
    using out(2) unfolding S(1) receive_side_def inv res.case prod.case receiver_sync_loop_def inventory.case by (auto simp: Let_def split: prod.splits)
  have tail: "sender_sync_loop remote (case r of Ok _ \<Rightarrow> send_line ''DONE'' | _ \<Rightarrow> []) = []"
    by (cases r) (simp_all add: sender_done sender_empty)
  have items: "\<forall>(p, v) \<in> set ?items. \<exists>b. v = inv_value p b \<and> transferable X remote p b \<and> resumable fs p b"
    using assms(9) by (fastforce simp: inventory_items transferable_def)
  note h = receive_honest [OF ri(1) _ tail items inventory_sorted(2) assms(7), unfolded ri(2) [symmetric], OF refl]
  have "fs' p = remote p \<or> fs' p = fs p \<and> map_option (inv_value p) (fs p) = map_option (inv_value p) (remote p)" if p: "p \<in> set rlisting" "in_target p" for p
  proof -
    obtain b where b: "remote p = Some b" using assms(9) p by (auto simp: transferable_def)
    then have "(p, inv_value p b) \<in> set ?items" using p by (simp add: inventory_items)
    then have "fs' p = (if ?local p = Some (inv_value p b) then fs p else remote p)" using h by blast
    then show ?thesis using b by (auto simp: inventory_lookup split: if_splits)
  qed
  then show ?thesis using h S by blast
qed

subsection \<open>What the protocol does not check\<close>

text \<open>
  The path under which a file lands is the one in the answer, not the one that was asked for: any path that is not an object path, inside the
  repository or outside, can be written by the peer.
\<close>

lemma peer_chooses_path:
  assumes "p \<noteq> []" "newline \<notin> set p" "\<forall>q. p \<noteq> tmp_name q" "object_oid_from_path p = None" "length b < 2 ^ 64" "calm E" "local q \<noteq> Some v" "fs (tmp_name q) = None"
  shows "fst (receive_items X E local [(q, v)] fs (send_line ''FILE'' @ file_body p b 0)) p = Some b"
proof -
  have t: "transferable X [p \<mapsto> b] p b" using assms(1-5) by (simp add: transferable_def)
  have nl: "newline \<notin> set ''FILE''" by (simp add: newline_def)
  have h: "handle_receive_file X E fs (file_body p b 0) = (fs(tmp_name p := None, p \<mapsto> b), [], Ok True)"
    using receive_of_send [OF t assms(6), of 0 fs "[]"] by simp
  have "ne_send_ok E q" using assms(6) by (simp add: calm_def)
  then show ?thesis using assms(7,8) by (simp add: resume_point_def read_line_send [OF nl] h)
qed

subsection \<open>Object paths and concrete sessions\<close>

lemma filename_slash: "CHR ''/'' \<notin> set f \<Longrightarrow> filename (a @ CHR ''/'' # f) = f"
  unfolding filename_def by (simp add: takeWhile_until)

lemma parent_slash: "CHR ''/'' \<notin> set f \<Longrightarrow> a \<noteq> [] \<Longrightarrow> last a \<noteq> CHR ''/'' \<Longrightarrow> parent_path (a @ CHR ''/'' # f) = a"
  unfolding parent_path_def by (cases a rule: rev_cases) (simp_all add: dropWhile_until)

lemma hex_byte_xdigit: "\<forall>c \<in> set (hex_byte v). is_xdigit c \<and> c \<noteq> CHR ''/''"
proof -
  have "is_xdigit (kHex ! n) \<and> kHex ! n \<noteq> CHR ''/''" if "n < 16" for n
    using that by (auto simp: kHex_def is_xdigit_def hex_nibble_def numeral_eq_Suc less_Suc_eq)
  then show ?thesis using unat_nibbles [of v] by (simp add: hex_byte_def)
qed

lemma hex_bytes_xdigit: "\<forall>c \<in> set (hex_bytes bs). is_xdigit c \<and> c \<noteq> CHR ''/''"
  using hex_byte_xdigit by (auto simp: hex_bytes_def)

text \<open>The path under which the store keeps an object is recognised as that object's.\<close>

lemma object_path_recognised:
  assumes "wf_oid oid"
  shows "object_oid_from_path (''.synapsefs/objects/'' @ oid_fanout_path oid) = Some oid"
proof -
  let ?h = "hex_byte (oid ! 0)" and ?f = "hex_bytes (drop 1 oid)" and ?a = "''.synapsefs/objects''"
  have sl: "CHR ''/'' \<notin> set ?f" "CHR ''/'' \<notin> set ?h" using hex_bytes_xdigit hex_byte_xdigit by blast+
  have x: "list_all is_xdigit ?f" "list_all is_xdigit ?h" using hex_bytes_xdigit hex_byte_xdigit by (auto simp: list_all_iff)
  have p: "''.synapsefs/objects/'' @ oid_fanout_path oid = (?a @ CHR ''/'' # ?h) @ CHR ''/'' # ?f" by (simp add: oid_fanout_path_def)
  have h: "?h \<noteq> []" "last ?h \<noteq> CHR ''/''" using hex_byte_xdigit by (simp add: hex_byte_def, metis hex_byte_xdigit last_in_set length_0_conv length_hex_byte zero_neq_numeral)
  have l: "last (?a @ CHR ''/'' # ?h) \<noteq> CHR ''/''" using h by simp
  have f: "filename ((?a @ CHR ''/'' # ?h) @ CHR ''/'' # ?f) = ?f" by (rule filename_slash [OF sl(1)])
  have d: "parent_path ((?a @ CHR ''/'' # ?h) @ CHR ''/'' # ?f) = ?a @ CHR ''/'' # ?h" by (rule parent_slash [OF sl(1) _ l]) simp
  have g: "filename (?a @ CHR ''/'' # ?h) = ?h" by (rule filename_slash [OF sl(2)])
  have j: "?h @ ?f = hex_bytes oid" using assms by (cases oid) (simp_all add: wf_oid_def kOidBytes_def hex_bytes_def)
  have "oid_parse (''b3:'' @ ?h @ ?f) = Ok oid" unfolding j using oid_parse_to_string [OF assms] by (simp add: oid_to_string_def)
  moreover have "length ?f = 62" using assms by (simp add: wf_oid_def kOidBytes_def)
  ultimately show ?thesis unfolding object_oid_from_path_def p f d g Let_def using x by simp
qed

definition empty_object :: bytes where
  "empty_object = object_header_encode \<lparr>oh_kind = 0, oh_compression = 0, chunk_log2 = 16, payload_len = 0, stored_len = 0, chunk_count = 0\<rparr>"

definition silent_json :: Json_Inv where
  "silent_json = \<lparr>ji_dump = (\<lambda>items. if items = [(''.synapsefs/refs/m'', InvStr [7])] then Some [0] else None),
     ji_parse = (\<lambda>b. if b = [0] then Some (Items [(''.synapsefs/refs/m'', InvStr [7])]) else None)\<rparr>"

definition calm_env :: net_env where
  "calm_env = \<lparr>ne_alloc_ok = (\<lambda>_. True), ne_open_ok = (\<lambda>_. True), ne_remove_ok = (\<lambda>_. True), ne_rename_ok = (\<lambda>_. True), ne_send_ok = (\<lambda>_. True)\<rparr>"

abbreviation net_X :: "toy_json Ext" where "net_X \<equiv> toy_ext (TObj [])"

definition empty_oid :: Oid where "empty_oid = compute_oid (x_blake3 net_X) KRaw []"

definition one_object :: files where
  "one_object = [''.synapsefs/objects/'' @ oid_fanout_path empty_oid \<mapsto> empty_object]"

lemma wf_empty_oid: "wf_oid empty_oid"
  using toy_blake3_ok [of "TObj []"] by (simp add: empty_oid_def compute_oid_def blake3_ok_def wf_oid_def kOidBytes_def)

lemma empty_object_verifies: "verify_received_object_payload net_X empty_object empty_oid = Ok True"
proof -
  let ?h = "\<lparr>oh_kind = 0, oh_compression = 0, chunk_log2 = 16, payload_len = 0, stored_len = 0, chunk_count = 0\<rparr>"
  have k: "kind_of_code 0 = Some KRaw" by (simp add: kind_of_code_def)
  have d: "object_header_decode empty_object = Ok ?h" using object_header_decode_encode [of ?h "[]"] by (simp add: empty_object_def)
  have l: "length empty_object = kSize" by (simp add: empty_object_def)
  show ?thesis unfolding verify_received_object_payload_def d
    using k by (simp add: l kSize_def compute_oid_code_def empty_oid_def slice_def)
qed


definition ref_path :: string where "ref_path = ''.synapsefs/refs/m''"

definition one_ref :: files where "one_ref = [ref_path \<mapsto> [7]]"

lemma ref_inventory: "get_local_inventory one_ref [ref_path] = [(ref_path, InvStr [7])]"
proof -
  have "has_infix ''/ref'' ref_path" unfolding has_infix_def ref_path_def by (rule bexI [of _ 10]) simp_all
  moreover have "in_target ref_path" by (simp add: in_target_def target_dirs_def ref_path_def)
  ultimately show ?thesis by (simp add: get_local_inventory_def one_ref_def map_filter_simps inv_value_def)
qed

lemma silent_json_ok: "json_inv_ok silent_json"
  by (simp add: json_inv_ok_def silent_json_def)

lemma ref_transferable: "transferable net_X one_ref ref_path [7]"
proof -
  have "ref_path \<noteq> tmp_name q" for q
  proof
    assume "ref_path = tmp_name q"
    then have "last ref_path = last (tmp_name q)" by simp
    then show False by (simp add: ref_path_def tmp_name_def)
  qed
  moreover have "object_oid_from_path ref_path = None" by (simp add: object_oid_from_path_def filename_def ref_path_def)
  ultimately show ?thesis by (simp add: transferable_def one_ref_def) (simp add: ref_path_def newline_def)
qed

theorem pull_from_honest_server_witness:
  "\<exists>S sent. pull net_X silent_json calm_env (\<lambda>ip port. True) [] Map.empty ''10.0.0.1:9418'' S = ([ref_path \<mapsto> [7]], sent, Ok True) \<and>
     serve_client net_X silent_json calm_env [ref_path] one_ref sent = (one_ref, S, Ok ())"
proof -
  let ?out = "request ref_path 0 @ send_line ''DONE''"
  let ?S = "send_line (dec_string 1) @ [0] @ sender_sync_loop one_ref ?out"
  let ?sent = "send_line ''PULL'' @ ?out"
  have calm: "calm calm_env" "\<forall>n. ne_alloc_ok calm_env n" by (simp_all add: calm_def calm_env_def)
  have np: "newline \<notin> set ref_path" "ref_path \<noteq> []" "newline \<notin> set ''PULL''" "newline \<notin> set ''FILE''" by (simp_all add: ref_path_def newline_def)
  have conn: "connect_to_remote (\<lambda>ip port. True) ''10.0.0.1:9418''"
    by (simp add: connect_to_remote_def connect_target_def after_first.simps safe_stoi_def stoi_def sign_of_def is_blank_def is_digit_def dec_value_def)
  have send: "sender_sync_loop one_ref ?out = send_line ''FILE'' @ file_body ref_path [7] 0"
    using sender_request [OF np(1,2), of one_ref 0] send_file_body [of one_ref ref_path "[7]" 0] by (simp add: sender_done one_ref_def)
  have d: "ji_dump silent_json (get_local_inventory one_ref [ref_path]) = Some [0]" unfolding ref_inventory by (simp add: silent_json_def ref_path_def)
  have server: "serve_client net_X silent_json calm_env [ref_path] one_ref ?sent = (one_ref, ?S, Ok ())"
    unfolding serve_client_def read_line_send [OF np(3)] Let_def prod.case by (simp add: send_side_def send_inventory_def d)
  have inv: "receive_inventory silent_json calm_env ?S = Ok (Items [(ref_path, InvStr [7])], sender_sync_loop one_ref ?out)"
    using receive_inventory_sent [OF silent_json_ok d _ calm(2) inventory_sorted, of "sender_sync_loop one_ref ?out"] by (simp add: ref_inventory)
  have body: "handle_receive_file net_X calm_env Map.empty (file_body ref_path [7] 0) = ([ref_path \<mapsto> [7]], [], Ok True)"
    using receive_of_send [OF ref_transferable calm(1), of 0 Map.empty "[]"] by simp
  have empty: "get_local_inventory Map.empty [] = []" by (simp add: get_local_inventory_def map_filter_simps)
  have "ne_send_ok calm_env ref_path" by (simp add: calm_env_def)
  then have client: "pull net_X silent_json calm_env (\<lambda>ip port. True) [] Map.empty ''10.0.0.1:9418'' ?S = ([ref_path \<mapsto> [7]], ?sent, Ok True)"
    unfolding pull_def receive_side_def inv using conn
    by (simp add: receiver_sync_loop_def empty send resume_point_def read_line_send [OF np(4)] body and_res_def)
  have "\<forall>p \<in> set [ref_path]. in_target p \<longrightarrow> (\<exists>b. transferable net_X one_ref p b \<and> resumable Map.empty p b)"
    using ref_transferable by (auto simp: resumable_def)
  from pull_from_honest_server [OF client server conn silent_json_ok d _ calm this] client server show ?thesis by blast
qed

end
