(* ===== verification/Stio_Source.thy ===== *)
theory Stio_Source
  imports Util_Atomic Format_Manifest
begin

section \<open>Reading safetensors files\<close>

text \<open>
  \<open>stio/src/st_source.cpp\<close>: the reader \<open>sfs commit\<close> takes a checkpoint from. The file is its bytes; \<open>rd off n\<close> lists what the calls
  of \<open>pread\<close> for \<open>n\<close> bytes at \<open>off\<close> return. A mapping, when it is asked for, shows the same bytes. The main results: an accepted file is
  its header block followed by its tensors in layout order, both ways to read agree, and a unit range is read from the tensor's own bytes.
\<close>

record StSource =
  ss_file :: bytes
  ss_mapping :: bytes
  ss_use_mmap :: bool
  ss_header_prefix :: bytes
  ss_header :: StHeader
  ss_layout :: "BufferEntry list"
  ss_total_bytes :: u64

record source_env =
  rd_calls :: "nat \<Rightarrow> nat \<Rightarrow> write_result list"
  rd_stat_ok :: bool
  rd_mmap_ok :: bool

text \<open>\<open>open\<close>; \<open>fopt\<close> is the file, if it can be opened.\<close>

definition st_source_open :: "'j Ext \<Rightarrow> source_env \<Rightarrow> string \<Rightarrow> bytes option \<Rightarrow> bool \<Rightarrow> StSource res" where
  "st_source_open X E path fopt use_mmap =
     (case fopt of
        None \<Rightarrow> SFS_ERR NoSuchFile path
      | Some f \<Rightarrow>
          if \<not> rd_stat_ok E then SFS_ERR Io path
          else let tot = of_nat (length f) :: u64
          in if tot < 8 then SFS_ERR NotSafetensors path
          else case pread_all (rd_calls E 0 8) f 8 0 of
            Blocked \<Rightarrow> Abort NoFuel
          | Unexpected \<Rightarrow> SFS_ERR NotSafetensors path
          | Value len_buf \<Rightarrow>
              if length len_buf \<noteq> 8 then SFS_ERR NotSafetensors path
              else SFS_TRY (read_header_len len_buf) (\<lambda>json_len.
                if json_len = 0 \<or> tot < 8 + json_len then SFS_ERR NotSafetensors path
                else let n = unat (8 + json_len)
                in case pread_all (rd_calls E 0 n) f n 0 of
                  Blocked \<Rightarrow> Abort NoFuel
                | Unexpected \<Rightarrow> SFS_ERR NotSafetensors path
                | Value prefix_bytes \<Rightarrow>
                    if length prefix_bytes \<noteq> n then SFS_ERR NotSafetensors path
                    else SFS_TRY (parse_st_header X prefix_bytes) (\<lambda>hdr.
                      let layout = buffer_layout hdr
                      in SFS_TRY (validate_buffer_layout layout (header_extent hdr) tot) (\<lambda>_.
                         if use_mmap \<and> \<not> rd_mmap_ok E then SFS_ERR Io path
                         else Ok \<lparr>ss_file = f, ss_mapping = (if use_mmap then f else []), ss_use_mmap = use_mmap, ss_header_prefix = prefix_bytes,
                                ss_header = hdr, ss_layout = layout, ss_total_bytes = tot\<rparr>))))"

definition st_meta :: "StSource \<Rightarrow> string \<Rightarrow> TensorMeta option" where
  "st_meta s name = map_of (st_tensors (ss_header s)) name"

text \<open>\<open>read_raw\<close>: the buffer is passed and returned with the number of bytes put into it; the kernel refuses offsets from \<open>2 ^ 63\<close> on.\<close>

definition read_raw :: "source_env \<Rightarrow> StSource \<Rightarrow> u64 \<Rightarrow> bytes \<Rightarrow> (bytes \<times> nat) res" where
  "read_raw E s data_offset out =
     (if ss_use_mmap s then
        (if length (ss_mapping s) \<le> unat data_offset then Ok (out, 0)
         else let n = min (length out) (length (ss_mapping s) - unat data_offset)
              in Ok (memcpy_at out 0 (slice (ss_mapping s) (unat data_offset) n), n))
      else if out \<noteq> [] \<and> 2 ^ 63 \<le> unat data_offset + length out then SFS_ERR Io []
      else case pread_all (rd_calls E (unat data_offset) (length out)) (ss_file s) (length out) (unat data_offset) of
        Blocked \<Rightarrow> Abort NoFuel
      | Unexpected \<Rightarrow> SFS_ERR Io []
      | Value b \<Rightarrow> Ok (memcpy_at out 0 b, length b))"

definition read_units :: "source_env \<Rightarrow> StSource \<Rightarrow> string \<Rightarrow> u64 \<Rightarrow> u64 \<Rightarrow> bytes \<Rightarrow> (bytes \<times> nat) res" where
  "read_units E s name first count out =
     (case st_meta s name of
        None \<Rightarrow> SFS_ERR TensorNotInBufferLayout name
      | Some m \<Rightarrow>
          SFS_TRY (unit_bytes m 0) (\<lambda>stride.
            let offset = data_off m + first * stride; want = count * stride
            in if length out < unat want then SFS_ERR Internal []
               else SFS_TRY (read_raw E s offset (take (unat want) out)) (\<lambda>(b, n). Ok (b @ drop (unat want) out, n))))"

subsection \<open>Positioned reads\<close>

definition read_obliges :: "source_env \<Rightarrow> bool" where
  "read_obliges E \<longleftrightarrow> (\<forall>off n. WriteError \<notin> set (rd_calls E off n) \<and> Wrote 0 \<notin> set (rd_calls E off n) \<and> n \<le> sum_list (map accepted (rd_calls E off n)))"

lemma pread_loop_all:
  assumes "WriteError \<notin> set ws" "Wrote 0 \<notin> set ws" "want \<le> k + sum_list (map accepted ws)" "k \<le> want" "off + want \<le> length f"
  shows "pread_loop ws f want off (take k (drop off f)) = Value (take want (drop off f))"
  using assms(1-4)
proof (induction ws arbitrary: k)
  case Nil
  then show ?case using assms(5) by (simp add: pread_loop.simps)
next
  case (Cons w ws)
  define got where "got = take k (drop off f)"
  have l: "length got = k" using Cons(5) assms(5) by (simp add: got_def)
  show ?case
  proof (cases "want \<le> k")
    case True
    then show ?thesis using Cons(5) l by (simp add: pread_loop.simps got_def)
  next
    case False
    show ?thesis
    proof (cases w)
      case (Wrote j)
      let ?m = "min j (want - k)"
      have "got @ take ?m (drop (off + k) f) = take (k + ?m) (drop off f)" by (simp add: got_def take_add add.commute)
      moreover have "take ?m (drop (off + k) f) \<noteq> []" using False Cons(3) Wrote assms(5) by (cases j) auto
      moreover have "pread_loop ws f want off (take (k + ?m) (drop off f)) = Value (take want (drop off f))"
        using Cons(2-5) Wrote by (intro Cons(1)) auto
      moreover have "pread_loop (w # ws) f want off got = pread_loop ws f want off (got @ take ?m (drop (off + k) f))"
        unfolding pread_loop.simps [of "w # ws"] using False Wrote l \<open>take ?m (drop (off + k) f) \<noteq> []\<close> by (simp only: Let_def list.case write_result.case if_False)
      ultimately show ?thesis by (simp add: got_def)
    qed (use Cons False l in \<open>auto simp: pread_loop.simps [of "_ # ws"] got_def\<close>)
  qed
qed

lemma pread_all_reads: "read_obliges E \<Longrightarrow> off + n \<le> length f \<Longrightarrow> pread_all (rd_calls E off n) f n off = Value (slice f off n)"
  using pread_loop_all [of "rd_calls E off n" n 0 off f] by (simp add: pread_all_def read_obliges_def slice_def)

subsection \<open>What an open source knows\<close>

lemma st_header_items_extent: "st_header_items X its hdr = Ok hdr' \<Longrightarrow> header_extent hdr' = header_extent hdr"
  by (induction X its hdr rule: st_header_items.induct) (auto split: if_splits)

lemma parse_extent: "parse_st_header X b = Ok hdr \<Longrightarrow> header_extent hdr = 8 + load_le_u64 b 0 \<and> 8 \<le> length b \<and> 8 + unat (load_le_u64 b 0) \<le> length b"
  by (auto simp: parse_st_header_def read_header_len_def dest: st_header_items_extent split: if_splits option.splits)

lemma source_open_facts:
  assumes "st_source_open X E path (Some f) mm = Ok s" "length f < 2 ^ 63"
  shows "ss_file s = f" "ss_use_mmap s = mm" "mm \<Longrightarrow> ss_mapping s = f" "ss_total_bytes s = of_nat (length f)" "ss_layout s = buffer_layout (ss_header s)"
    and "ss_header_prefix s = take (unat (header_extent (ss_header s))) f" "unat (header_extent (ss_header s)) \<le> length f"
    and "validate_layout_loop (header_extent (ss_header s)) (ss_layout s) = Ok (of_nat (length f))"
proof -
  obtain len_buf p n where p: "pread_all (rd_calls E 0 8) f 8 0 = Value len_buf" "length len_buf = 8"
      "n = 8 + load_le_u64 len_buf 0" "n \<le> of_nat (length f)"
      "pread_all (rd_calls E 0 (unat n)) f (unat n) 0 = Value p" "length p = unat n" "parse_st_header X p = Ok (ss_header s)"
      "ss_header_prefix s = p"
    and s: "ss_file s = f" "ss_use_mmap s = mm" "mm \<Longrightarrow> ss_mapping s = f" "ss_total_bytes s = of_nat (length f)" "ss_layout s = buffer_layout (ss_header s)"
      "validate_layout_loop (header_extent (ss_header s)) (ss_layout s) = Ok (of_nat (length f))"
    using assms(1) unfolding st_source_open_def read_header_len_def
    by (auto simp: Let_def validate_buffer_layout_def split: if_splits expected.splits)
  have fit: "unat n \<le> length f" using p(4) assms(2) by (simp add: word_le_nat_alt unat_of_nat take_bit_nat_eq_self)
  have pf: "p = take (unat n) f" using pread_all_exact [OF p(5,6)] by simp
  have lf: "len_buf = take 8 f" using pread_all_exact [OF p(1,2)] by simp
  note e = parse_extent [OF p(7)]
  have "load_le_u64 p 0 = load_le_u64 len_buf 0" using e p(6) unfolding pf lf by (simp add: load_le_u64_def slice_def min_absorb1)
  then have x: "header_extent (ss_header s) = n" using e p(3) by simp
  show "ss_file s = f" "ss_use_mmap s = mm" "mm \<Longrightarrow> ss_mapping s = f" "ss_total_bytes s = of_nat (length f)" "ss_layout s = buffer_layout (ss_header s)"
    "validate_layout_loop (header_extent (ss_header s)) (ss_layout s) = Ok (of_nat (length f))" using s by simp_all
  show "ss_header_prefix s = take (unat (header_extent (ss_header s))) f" "unat (header_extent (ss_header s)) \<le> length f"
    using p(8) pf fit by (simp_all add: x)
qed

lemma unat_mult_no_wrap: "unat (a :: u64) * unat b < 2 ^ 64 \<Longrightarrow> unat (a * b) = unat a * unat b"
  by (simp add: unat_word_ariths)

text \<open>The bytes a buffer entry names.\<close>

definition entry_bytes :: "bytes \<Rightarrow> BufferEntry \<Rightarrow> bytes" where
  "entry_bytes f e = slice f (unat (be_off e)) (unat (be_nbytes e))"

lemma slices_join: "slice f a n @ slice f (a + n) k = slice f a (n + k)"
  by (simp add: slice_def take_add drop_drop add.commute [of n a])

lemma layout_pieces:
  assumes "validate_layout_loop c es = Ok c'" "unat c + layout_bytes es < 2 ^ 64"
  shows "concat (map (entry_bytes f) es) = slice f (unat c) (unat c' - unat c) \<and> unat c \<le> unat c'"
  using assms
proof (induction es arbitrary: c)
  case Nil
  then show ?case by (simp add: slice_def)
next
  case (Cons e es)
  have e: "be_off e = c" and loop: "validate_layout_loop (c + be_nbytes e) es = Ok c'" using Cons(2) by (auto split: if_splits)
  have u: "unat (c + be_nbytes e) = unat c + unat (be_nbytes e)" using Cons(3) by (simp add: unat_plus_if' layout_bytes_def)
  have ih: "concat (map (entry_bytes f) es) = slice f (unat c + unat (be_nbytes e)) (unat c' - (unat c + unat (be_nbytes e)))"
    "unat c + unat (be_nbytes e) \<le> unat c'"
    using Cons(1) [OF loop] Cons(3) by (auto simp: u layout_bytes_def)
  have "unat c' - unat c = unat (be_nbytes e) + (unat c' - (unat c + unat (be_nbytes e)))" using ih(2) by simp
  then show ?case using slices_join [of f "unat c" "unat (be_nbytes e)"] ih by (simp add: entry_bytes_def [of f e] e)
qed

lemma source_pieces:
  assumes "st_source_open X E path (Some f) use_mmap = Ok s" "length f < 2 ^ 63"
    and "unat (header_extent (ss_header s)) + layout_bytes (ss_layout s) < 2 ^ 64"
  shows "ss_header_prefix s @ concat (map (entry_bytes f) (ss_layout s)) = f"
proof -
  note o = source_open_facts [OF assms(1,2)]
  have "unat (of_nat (length f) :: u64) = length f" using assms(2) by (simp add: unat_of_nat take_bit_nat_eq_self)
  then show ?thesis using layout_pieces [OF o(8) assms(3), of f] o(6,7) by (simp add: slice_def)
qed

text \<open>
  C16: an accepted safetensors file is the header block followed by the bytes of its tensors in layout order, nothing missing, repeated
  or out of place, as long as the sizes the header names do not exceed 64 bits together. Storing the header verbatim and
  each tensor on its own therefore loses nothing.
\<close>

theorem source_pieces_are_file:
  assumes "st_source_open X E path (Some f) use_mmap = Ok s" "length f < 2 ^ 63"
    and "unat (header_extent (ss_header s)) + layout_bytes (ss_layout s) < 2 ^ 64"
  shows "ss_header_prefix s @ concat (map (entry_bytes f) (ss_layout s)) = f"
  by (rule source_pieces [OF assms])

text \<open>A tensor of an accepted file lies within it.\<close>

lemma tensor_inside:
  assumes "st_source_open X E path (Some f) mm = Ok s" "length f < 2 ^ 63"
    "unat (header_extent (ss_header s)) + layout_bytes (ss_layout s) < 2 ^ 64" "st_meta s name = Some m"
  shows "unat (data_off m) + unat (tm_nbytes m) \<le> length f"
proof -
  note o = source_open_facts [OF assms(1,2)]
  have "(name, m) \<in> set (st_tensors (ss_header s))" using assms(4) by (auto simp: st_meta_def dest: map_of_SomeD)
  then have "\<lparr>be_tensor = name, be_off = data_off m, be_nbytes = tm_nbytes m, be_group = name\<rparr> \<in> set (ss_layout s)"
    unfolding o(5) buffer_layout_def by force
  moreover have "unat (of_nat (length f) :: u64) = length f" using assms(2) by (simp add: unat_of_nat take_bit_nat_eq_self)
  ultimately show ?thesis using layout_loop_spec [OF o(8) assms(3)] by fastforce
qed

lemma read_raw_exact:
  assumes "st_source_open X E path (Some f) mm = Ok s" "length f < 2 ^ 63" "mm \<or> read_obliges E'" "unat off + length out \<le> length f"
  shows "read_raw E' s off out = Ok (slice f (unat off) (length out), length out)"
proof (cases "length out = 0")
  case True
  note o = source_open_facts [OF assms(1,2)]
  show ?thesis using True o by (auto simp: read_raw_def pread_all_def pread_loop.simps slice_def memcpy_at_def)
next
  case False
  note o = source_open_facts [OF assms(1,2)]
  have "length (slice f (unat off) (length out)) = length out" using assms(4) by (simp add: slice_def)
  moreover have "\<not> length f \<le> unat off" using False assms(4) by linarith
  ultimately show ?thesis
  proof (cases mm)
    case True
    then show ?thesis using o(2,3) \<open>\<not> length f \<le> unat off\<close> assms(4) by (simp add: read_raw_def Let_def memcpy_at_def slice_def)
  next
    case F: False
    then have "pread_all (rd_calls E' (unat off) (length out)) f (length out) (unat off) = Value (slice f (unat off) (length out))"
      using assms(3,4) by (intro pread_all_reads) simp_all
    then show ?thesis using F o(1,2) assms(2,4) by (simp add: read_raw_def memcpy_at_def slice_def)
  qed
qed

text \<open>
  C34: reading units is exact: for a range of units that the tensor has, and a buffer that is large enough, \<open>read_units\<close> fills the front
  of the buffer with exactly those units' bytes, inside the tensor's own part of the file, mapped or not, however the reads are cut up;
  none of the 64-bit products overflows.
\<close>

theorem read_units_exact:
  assumes "st_source_open X E path (Some f) use_mmap = Ok s" "length f < 2 ^ 63"
    and "unat (header_extent (ss_header s)) + layout_bytes (ss_layout s) < 2 ^ 64"
    and "st_meta s name = Some m" "unit_bytes m 0 = Ok stride" "unat first + unat count \<le> unat (tm_shape m ! 0)"
    and "unat count * unat stride \<le> length out" "use_mmap \<or> read_obliges E'"
  shows "read_units E' s name first count out =
      Ok (slice f (unat (data_off m) + unat first * unat stride) (unat count * unat stride) @ drop (unat count * unat stride) out, unat count * unat stride) \<and>
    (unat first + unat count) * unat stride \<le> unat (tm_nbytes m)"
proof -
  have st: "unat stride = unat (tm_nbytes m) div unat (tm_shape m ! 0)"
    using assms(5) by (auto simp: unit_bytes_def unat_div Let_def split: if_splits)
  have "(unat first + unat count) * unat stride \<le> unat (tm_shape m ! 0) * (unat (tm_nbytes m) div unat (tm_shape m ! 0))"
    unfolding st using assms(6) by (rule mult_le_mono1)
  also have "\<dots> \<le> unat (tm_nbytes m)" by (simp add: times_div_less_eq_dividend)
  finally have fit: "(unat first + unat count) * unat stride \<le> unat (tm_nbytes m)" .
  note ins = tensor_inside [OF assms(1-4)]
  have f1: "unat first * unat stride + unat count * unat stride \<le> unat (tm_nbytes m)" using fit by (simp add: add_mult_distrib)
  have w: "unat (count * stride) = unat count * unat stride" using f1 ins assms(2) by (intro unat_mult_no_wrap) simp
  have "unat (first * stride) = unat first * unat stride" using f1 ins assms(2) by (intro unat_mult_no_wrap) simp
  then have off: "unat (data_off m + first * stride) = unat (data_off m) + unat first * unat stride"
    using f1 ins assms(2) by (simp add: unat_plus_if')
  have "read_raw E' s (data_off m + first * stride) (take (unat count * unat stride) out) =
    Ok (slice f (unat (data_off m) + unat first * unat stride) (unat count * unat stride), unat count * unat stride)"
    using read_raw_exact [OF assms(1,2,8), of "data_off m + first * stride" "take (unat count * unat stride) out"] f1 ins assms(7)
    by (simp add: off min_absorb2)
  then show ?thesis using assms(4,5,7) fit by (simp add: read_units_def w Let_def)
qed

section \<open>A concrete file\<close>

definition example_st_json :: toy_json where
  "example_st_json = TObj [(''w'', TObj [(''dtype'', TStr ''F16''), (''shape'', TArr [TUInt 3, TUInt 1]), (''data_offsets'', TArr [TUInt 0, TUInt 6])])]"

definition example_st_file :: bytes where
  "example_st_file = [1, 0, 0, 0, 0, 0, 0, 0, 1, 10, 11, 12, 13, 14, 15]"

definition example_reads :: source_env where
  "example_reads = \<lparr>rd_calls = (\<lambda>off n. [Eintr, Wrote 1, Wrote (n + 1)]), rd_stat_ok = True, rd_mmap_ok = True\<rparr>"

definition example_st_header :: StHeader where
  "example_st_header = \<lparr>header_extent = 9, st_tensors = [(''w'', \<lparr>shape_owner = ''w'', tm_shape = [3, 1], tm_dtype = F16, data_off = 9, tm_nbytes = 6\<rparr>)], st_metadata = []\<rparr>"

lemma example_st_parse: "parse_st_header (toy_ext example_st_json) [1, 0, 0, 0, 0, 0, 0, 0, 1] = Ok example_st_header"
  by (simp add: parse_st_header_def read_header_len_def load_le_u64_def slice_def toy_ext_def example_st_json_def tensor_from_json_def
      example_st_header_def at_str_def json_at_def json_elems_def dtype_from_string_def thrown_def)

lemma example_reads_oblige: "read_obliges example_reads"
  by (simp add: read_obliges_def example_reads_def)

lemma example_open:
  "st_source_open (toy_ext example_st_json) example_reads ''m'' (Some example_st_file) False =
     Ok \<lparr>ss_file = example_st_file, ss_mapping = [], ss_use_mmap = False, ss_header_prefix = [1, 0, 0, 0, 0, 0, 0, 0, 1],
        ss_header = example_st_header, ss_layout = buffer_layout example_st_header, ss_total_bytes = 15\<rparr>"
proof -
  have p: "pread_all (rd_calls example_reads 0 8) example_st_file 8 0 = Value [1, 0, 0, 0, 0, 0, 0, 0]"
    "pread_all (rd_calls example_reads 0 9) example_st_file 9 0 = Value [1, 0, 0, 0, 0, 0, 0, 0, 1]"
    using pread_all_reads [OF example_reads_oblige, of 0 8 example_st_file] pread_all_reads [OF example_reads_oblige, of 0 9 example_st_file]
    by (simp_all add: example_st_file_def slice_def)
  have v: "validate_buffer_layout (buffer_layout example_st_header) (header_extent example_st_header) 15 = Ok ()"
    by (simp add: example_st_header_def buffer_layout_def validate_buffer_layout_def)
  have h: "read_header_len [1, 0, 0, 0, 0, 0, 0, 0] = Ok 1" by (simp add: read_header_len_def load_le_u64_def slice_def)
  have l: "length example_st_file = 15" by (simp add: example_st_file_def)
  show ?thesis using p v by (simp add: st_source_open_def l h example_st_parse) (simp add: example_reads_def)
qed

theorem source_pieces_are_file_witness:
  "[1, 0, 0, 0, 0, 0, 0, 0, 1] @ concat (map (entry_bytes example_st_file) (buffer_layout example_st_header)) = example_st_file"
  using source_pieces_are_file [OF example_open]
  by (simp add: example_st_file_def example_st_header_def layout_bytes_def buffer_layout_def)

theorem read_units_exact_witness:
  "\<exists>s. read_units example_reads s ''w'' 1 2 [0, 0, 0, 0, 0] = Ok ([12, 13, 14, 15, 0], 4)"
proof -
  obtain s where s: "st_source_open (toy_ext example_st_json) example_reads ''m'' (Some example_st_file) False = Ok s"
    "ss_header s = example_st_header" "ss_layout s = buffer_layout example_st_header" using example_open by simp
  let ?m = "\<lparr>shape_owner = ''w'', tm_shape = [3, 1], tm_dtype = F16, data_off = 9, tm_nbytes = 6\<rparr>"
  have "read_units example_reads s ''w'' 1 2 [0, 0, 0, 0, 0] = Ok (slice example_st_file 11 4 @ drop 4 [0, 0, 0, 0, 0], 4)"
    using read_units_exact [OF s(1), of "''w''" ?m 2 1 2 "[0, 0, 0, 0, 0]" example_reads] example_reads_oblige s(2,3)
    by (simp add: example_st_file_def example_st_header_def st_meta_def layout_bytes_def buffer_layout_def unit_bytes_def)
  then show ?thesis by (auto simp: example_st_file_def slice_def)
qed

end
