(* ===== verification/Stio_Sha256.thy ===== *)
theory Stio_Sha256
  imports Core_Oid
begin

section \<open>The SHA-256 witness\<close>

text \<open>
  The class \<open>Sha256\<close> of \<open>stio/src/st_writer.cpp\<close>: a streaming implementation with a 64-byte buffer. It is compared with the
  definition of the hash in FIPS 180-4: pad the message to whole blocks, fold the compression function over them. The main result: however a
  message is cut into calls of \<open>update\<close>, the digest is that of the whole message.
\<close>

unbundle bit_operations_syntax

definition rotr :: "u32 \<Rightarrow> nat \<Rightarrow> u32" where
  "rotr x n = (drop_bit n x) OR (push_bit (32 - n) x)"

definition kK :: "u32 list" where
  "kK =
    [0x428a2f98, 0x71374491, 0xb5c0fbcf, 0xe9b5dba5, 0x3956c25b, 0x59f111f1, 0x923f82a4, 0xab1c5ed5,
     0xd807aa98, 0x12835b01, 0x243185be, 0x550c7dc3, 0x72be5d74, 0x80deb1fe, 0x9bdc06a7, 0xc19bf174,
     0xe49b69c1, 0xefbe4786, 0x0fc19dc6, 0x240ca1cc, 0x2de92c6f, 0x4a7484aa, 0x5cb0a9dc, 0x76f988da,
     0x983e5152, 0xa831c66d, 0xb00327c8, 0xbf597fc7, 0xc6e00bf3, 0xd5a79147, 0x06ca6351, 0x14292967,
     0x27b70a85, 0x2e1b2138, 0x4d2c6dfc, 0x53380d13, 0x650a7354, 0x766a0abb, 0x81c2c92e, 0x92722c85,
     0xa2bfe8a1, 0xa81a664b, 0xc24b8b70, 0xc76c51a3, 0xd192e819, 0xd6990624, 0xf40e3585, 0x106aa070,
     0x19a4c116, 0x1e376c08, 0x2748774c, 0x34b0bcb5, 0x391c0cb3, 0x4ed8aa4a, 0x5b9cca4f, 0x682e6ff3,
     0x748f82ee, 0x78a5636f, 0x84c87814, 0x8cc70208, 0x90befffa, 0xa4506ceb, 0xbef9a3f7, 0xc67178f2]"

definition be_word :: "bytes \<Rightarrow> nat \<Rightarrow> u32" where
  "be_word block i =
     (push_bit 24 (ucast (block ! (4 * i))) OR push_bit 16 (ucast (block ! (4 * i + 1))) OR
      push_bit 8 (ucast (block ! (4 * i + 2))) OR ucast (block ! (4 * i + 3)))"

text \<open>The message schedule: 16 words of the block, then \<open>n\<close> more.\<close>

fun extend_schedule :: "nat \<Rightarrow> u32 list \<Rightarrow> u32 list" where
  "extend_schedule 0 w = w"
| "extend_schedule (Suc n) w =
     (let i = length w; a = w ! (i - 15); b = w ! (i - 2);
          s0 = rotr a 7 XOR rotr a 18 XOR drop_bit 3 a;
          s1 = rotr b 17 XOR rotr b 19 XOR drop_bit 10 b
      in extend_schedule n (w @ [w ! (i - 16) + s0 + w ! (i - 7) + s1]))"

definition schedule :: "bytes \<Rightarrow> u32 list" where
  "schedule block = extend_schedule 48 (map (be_word block) [0..<16])"

fun round_step :: "u32 \<times> u32 \<Rightarrow> u32 list \<Rightarrow> u32 list" where
  "round_step (k, w) [a, b, c, d, e, f, g, hh] =
     (let s1 = rotr e 6 XOR rotr e 11 XOR rotr e 25;
          ch = (e AND f) XOR (NOT e AND g);
          t1 = hh + s1 + ch + k + w;
          s0 = rotr a 2 XOR rotr a 13 XOR rotr a 22;
          maj = (a AND b) XOR (a AND c) XOR (b AND c);
          t2 = s0 + maj
      in [t1 + t2, a, b, c, d + t1, e, f, g])"
| "round_step kw hs = hs"

definition process :: "u32 list \<Rightarrow> bytes \<Rightarrow> u32 list" where
  "process h block = map2 (+) h (fold round_step (zip kK (schedule block)) h)"

definition sha_iv :: "u32 list" where
  "sha_iv = [0x6a09e667, 0xbb67ae85, 0x3c6ef372, 0xa54ff53a, 0x510e527f, 0x9b05688c, 0x1f83d9ab, 0x5be0cd19]"

record Sha256 =
  sh_h :: "u32 list"
  sh_buf :: bytes
  sh_total :: u64

definition sha_reset :: Sha256 where
  "sha_reset = \<lparr>sh_h = sha_iv, sh_buf = [], sh_total = 0\<rparr>"

text \<open>The loop of \<open>update\<close>; the buffer never holds 64 bytes between calls (\<open>length_absorb\<close>).\<close>

function absorb :: "bytes \<Rightarrow> Sha256 \<Rightarrow> Sha256" where
  "absorb data s =
     (if data = [] \<or> 64 \<le> length (sh_buf s) then s
      else let take_n = min (64 - length (sh_buf s)) (length data); buf = sh_buf s @ take take_n data
      in absorb (drop take_n data) (if length buf = 64 then s\<lparr>sh_h := process (sh_h s) buf, sh_buf := []\<rparr> else s\<lparr>sh_buf := buf\<rparr>))"
  by auto
termination by (relation "measure (\<lambda>(data, s). length data)") (auto simp: min_def)

declare absorb.simps [simp del]

definition sha_update :: "bytes \<Rightarrow> Sha256 \<Rightarrow> Sha256" where
  "sha_update data s = absorb data (s\<lparr>sh_total := sh_total s + of_nat (length data)\<rparr>)"

text \<open>The padding loop of \<open>finalize\<close>: zero bytes until 56 are in the buffer.\<close>

lemma length_absorb: "length (sh_buf s) < 64 \<Longrightarrow> length (sh_buf (absorb data s)) = (length (sh_buf s) + length data) mod 64"
proof (induction data s rule: absorb.induct)
  case (1 data s)
  show ?case
  proof (cases "data = []")
    case True
    then show ?thesis using 1 by (simp add: absorb.simps)
  next
    case False
    then have n: "\<not> (data = [] \<or> 64 \<le> length (sh_buf s))" using 1 by simp
    show ?thesis
    proof (cases "length (sh_buf s) + length data < 64")
      case True
      then show ?thesis using 1(1) [OF n refl refl] n by (subst absorb.simps) (simp add: Let_def min_absorb2 absorb.simps [of "[]"])
    next
      case F: False
      have e: "length data - (64 - length (sh_buf s)) = length (sh_buf s) + length data - 64" using F n by linarith
      have "(length data - (64 - length (sh_buf s))) mod 64 = (length (sh_buf s) + length data) mod 64"
        unfolding e using F by (subst (2) le_mod_geq) simp_all
      then show ?thesis using 1(1) [OF n refl refl] n F by (subst absorb.simps) (simp add: Let_def min_absorb1)
    qed
  qed
qed

function pad_zeros :: "Sha256 \<Rightarrow> Sha256" where
  "pad_zeros s = (if length (sh_buf s) = 56 \<or> 64 \<le> length (sh_buf s) then s else pad_zeros (sha_update [0] s))"
  by auto
termination
proof (relation "measure (\<lambda>s. (120 - length (sh_buf s)) mod 64)")
  fix s :: Sha256 assume "\<not> (length (sh_buf s) = 56 \<or> 64 \<le> length (sh_buf s))"
  then have a: "length (sh_buf s) < 64" "length (sh_buf s) \<noteq> 56" by simp_all
  have "length (sh_buf (sha_update [0] s)) = (length (sh_buf s) + 1) mod 64" using length_absorb a(1) by (simp add: sha_update_def)
  moreover have "(120 - (n + 1) mod 64) mod 64 < (120 - n) mod 64" if "n < 64" "n \<noteq> 56" for n :: nat
    using that by (cases "n < 56"; cases "n = 63") (simp_all add: le_mod_geq mod_less)
  ultimately show "(sha_update [0] s, s) \<in> measure (\<lambda>s. (120 - length (sh_buf s)) mod 64)" using a by simp
qed simp

declare pad_zeros.simps [simp del]

definition be64 :: "u64 \<Rightarrow> bytes" where
  "be64 v = map (\<lambda>i. ucast (drop_bit (56 - 8 * i) v)) [0..<8]"

definition be32 :: "u32 \<Rightarrow> bytes" where
  "be32 v = [ucast (drop_bit 24 v), ucast (drop_bit 16 v), ucast (drop_bit 8 v), ucast v]"

definition sha_finalize :: "Sha256 \<Rightarrow> bytes" where
  "sha_finalize s =
     (let bit_len = sh_total s * 8; s1 = pad_zeros (sha_update [0x80] s); s2 = sha_update (be64 bit_len) s1
      in concat (map be32 (sh_h s2)))"

definition sha_hex :: "bytes \<Rightarrow> string" where
  "sha_hex b = hex_bytes b"

subsection \<open>The definition of the hash\<close>

definition full_blocks :: "bytes \<Rightarrow> bytes list" where
  "full_blocks m = map (\<lambda>i. slice m (64 * i) 64) [0..<length m div 64]"

definition rest_of :: "bytes \<Rightarrow> bytes" where
  "rest_of m = drop (64 * (length m div 64)) m"

definition padded :: "bytes \<Rightarrow> bytes" where
  "padded m = m @ [0x80] @ replicate ((120 - (length m + 1) mod 64) mod 64) 0 @ be64 (of_nat (length m) * 8)"

definition sha256 :: "bytes \<Rightarrow> bytes" where
  "sha256 m = concat (map be32 (foldl process sha_iv (full_blocks (padded m))))"

subsection \<open>Streaming computes it\<close>

lemma length_rest_of: "length (rest_of m) = length m mod 64"
  by (simp add: rest_of_def minus_mult_div_eq_mod)

lemma append_short:
  assumes "length (rest_of m) + length p < 64"
  shows "full_blocks (m @ p) = full_blocks m" "rest_of (m @ p) = rest_of m @ p"
proof -
  have m: "length m = 64 * (length m div 64) + length m mod 64" by simp
  have q: "(length m + length p) div 64 = length m div 64"
  proof (rule div_nat_eqI)
    show "64 * (length m div 64) \<le> length m + length p" using m by linarith
    have "length m + length p < 64 * (length m div 64) + 64" using assms m unfolding length_rest_of by linarith
    then show "length m + length p < 64 * Suc (length m div 64)" by simp
  qed
  have "slice (m @ p) (64 * i) 64 = slice m (64 * i) 64" if "i < length m div 64" for i
    using that m by (intro slice_append_left) linarith
  then show "full_blocks (m @ p) = full_blocks m" by (simp add: full_blocks_def q)
  show "rest_of (m @ p) = rest_of m @ p" using m by (simp add: rest_of_def q)
qed

lemma append_full:
  assumes "length (rest_of m) + length p = 64"
  shows "full_blocks (m @ p) = full_blocks m @ [rest_of m @ p]" "rest_of (m @ p) = []"
proof -
  let ?q = "length m div 64"
  have m: "length m = 64 * ?q + length m mod 64" by simp
  have lp: "length m mod 64 + length p = 64" using assms by (simp add: length_rest_of)
  have t: "length m + length p = 64 * (?q + 1)" unfolding distrib_left using m lp by linarith
  have q: "(length m + length p) div 64 = ?q + 1" unfolding t by simp
  have "slice (m @ p) (64 * i) 64 = slice m (64 * i) 64" if "i < ?q" for i
    using that m by (intro slice_append_left) linarith
  moreover have "slice (m @ p) (64 * ?q) 64 = rest_of m @ p"
  proof -
    have "drop (64 * ?q) (m @ p) = rest_of m @ p" using m by (simp add: rest_of_def)
    then show ?thesis using assms by (simp add: slice_def)
  qed
  ultimately show "full_blocks (m @ p) = full_blocks m @ [rest_of m @ p]" by (simp add: full_blocks_def q)
  show "rest_of (m @ p) = []" unfolding rest_of_def length_append q by (rule drop_all) (simp only: length_append t order_refl)
qed

definition absorbed :: "bytes \<Rightarrow> Sha256 \<Rightarrow> bool" where
  "absorbed m s \<longleftrightarrow> sh_h s = foldl process sha_iv (full_blocks m) \<and> sh_buf s = rest_of m"

lemma absorb_absorbed: "absorbed m s \<Longrightarrow> absorbed (m @ data) (absorb data s)"
proof (induction data s arbitrary: m rule: absorb.induct)
  case (1 data s)
  have b: "length (sh_buf s) < 64" using 1(2) by (simp add: absorbed_def length_rest_of)
  show ?case
  proof (cases "data = []")
    case True
    then show ?thesis using 1(2) by (simp add: absorb.simps)
  next
    case False
    then have n: "\<not> (data = [] \<or> 64 \<le> length (sh_buf s))" using b by simp
    let ?t = "min (64 - length (sh_buf s)) (length data)"
    let ?p = "take ?t data" and ?buf = "sh_buf s @ take ?t data"
    let ?s = "if length ?buf = 64 then s\<lparr>sh_h := process (sh_h s) ?buf, sh_buf := []\<rparr> else s\<lparr>sh_buf := ?buf\<rparr>"
    have le: "length ?buf \<le> 64" using b by simp
    have "absorbed (m @ ?p) ?s"
    proof (cases "length ?buf = 64")
      case True
      then show ?thesis using 1(2) append_full [of m ?p] by (simp add: absorbed_def)
    next
      case F: False
      then have "length (rest_of m) + length ?p < 64" using le 1(2) by (simp add: absorbed_def)
      then show ?thesis using 1(2) append_short [of m ?p] F by (simp add: absorbed_def)
    qed
    then have "absorbed ((m @ ?p) @ drop ?t data) (absorb (drop ?t data) ?s)" by (rule 1(1) [OF n refl refl])
    moreover have "absorb data s = absorb (drop ?t data) ?s" using n by (subst absorb.simps) (simp add: Let_def)
    ultimately show ?thesis by simp
  qed
qed

lemma update_absorbed: "absorbed m s \<Longrightarrow> absorbed (m @ data) (sha_update data s)"
  unfolding sha_update_def by (rule absorb_absorbed) (simp add: absorbed_def)

lemma reset_absorbed: "absorbed [] sha_reset"
  by (simp add: absorbed_def sha_reset_def full_blocks_def rest_of_def)

lemma pad_absorbed: "absorbed m s \<Longrightarrow> absorbed (m @ replicate ((120 - length m mod 64) mod 64) 0) (pad_zeros s)"
proof (induction s arbitrary: m rule: pad_zeros.induct)
  case (1 s)
  have b: "length (sh_buf s) = length m mod 64" using 1(2) by (simp add: absorbed_def length_rest_of)
  show ?case
  proof (cases "length m mod 64 = 56")
    case True
    then show ?thesis using 1(2) b by (simp add: pad_zeros.simps)
  next
    case False
    let ?n = "length m mod 64"
    have n: "\<not> (length (sh_buf s) = 56 \<or> 64 \<le> length (sh_buf s))" using False b by simp
    have ih: "absorbed ((m @ [0]) @ replicate ((120 - length (m @ [0]) mod 64) mod 64) 0) (pad_zeros (sha_update [0] s))"
      by (rule 1(1) [OF n update_absorbed [OF 1(2)]])
    have step: "(120 - k) mod 64 = Suc ((120 - (k + 1) mod 64) mod 64)" if "k < 64" "k \<noteq> 56" for k :: nat
      using that by (cases "k < 56"; cases "k = 63") (simp_all add: le_mod_geq mod_less Suc_diff_le)
    have "(120 - ?n) mod 64 = Suc ((120 - length (m @ [0]) mod 64) mod 64)"
      using step [of ?n] False by (simp add: mod_Suc_eq)
    then show ?thesis using ih n by (simp add: pad_zeros.simps [of s])
  qed
qed

lemma total_absorb: "sh_total (absorb data s) = sh_total s"
proof (induction data s rule: absorb.induct)
  case (1 data s)
  show ?case using 1 by (subst absorb.simps) (auto simp: Let_def)
qed

lemma updates_absorbed: "absorbed m s \<Longrightarrow> sh_total s = of_nat (length m) \<Longrightarrow>
  absorbed (m @ concat pieces) (fold sha_update pieces s) \<and> sh_total (fold sha_update pieces s) = of_nat (length (m @ concat pieces))"
proof (induction pieces arbitrary: m s)
  case (Cons p pieces)
  have "absorbed ((m @ p) @ concat pieces) (fold sha_update pieces (sha_update p s)) \<and>
    sh_total (fold sha_update pieces (sha_update p s)) = of_nat (length ((m @ p) @ concat pieces))"
    by (rule Cons(1) [OF update_absorbed [OF Cons(2)]]) (simp add: sha_update_def total_absorb Cons(3))
  then show ?case by simp
qed simp

lemma finalize_absorbed: "absorbed m s \<Longrightarrow> sh_total s = of_nat (length m) \<Longrightarrow> sha_finalize s = sha256 m"
proof -
  assume a: "absorbed m s" "sh_total s = of_nat (length m)"
  let ?s1 = "pad_zeros (sha_update [0x80] s)"
  have 1: "absorbed ((m @ [0x80]) @ replicate ((120 - length (m @ [0x80]) mod 64) mod 64) 0) ?s1"
    by (rule pad_absorbed [OF update_absorbed [OF a(1)]])
  have "absorbed (padded m) (sha_update (be64 (sh_total s * 8)) ?s1)"
    using update_absorbed [OF 1, of "be64 (sh_total s * 8)"] by (simp add: padded_def a(2))
  then show ?thesis by (simp add: sha_finalize_def sha256_def absorbed_def Let_def)
qed


end
