(* ===== verification/Stio_Files.thy ===== *)
theory Stio_Files
  imports Stio_Sha256 Util_Atomic Codec_Chain
begin

section \<open>Safetensors files in and out\<close>

text \<open>
  \<open>stio/src/st_writer.cpp\<close> and \<open>stio/src/st_source.cpp\<close>, and the part of \<open>apps/sfs/cmd/checkout.cpp\<close> that writes a
  file: the writer that \<open>sfs checkout\<close> streams a checkpoint into, and the reader that \<open>sfs commit\<close> takes one from. Files are a map
  from path names to contents; what the kernel decides is the argument \<open>E\<close>. The main results: a checkout that reports success has put a
  file with the recorded size and SHA-256 in place, a checkout of a readable manifest does succeed and is byte-exact, and a unit range is
  read from where the header says it is.
\<close>

subsection \<open>StWriter\<close>

record st_env =
  se_open_ok :: bool
  se_writes :: "nat \<Rightarrow> write_result list"
  se_fsync_ok :: bool
  se_remove_ok :: bool
  se_partial :: bytes
  se_rename_ok :: bool
  se_dirsync_ok :: bool

record StWriter =
  stw_tmp_path :: string
  stw_dest_path :: string
  stw_hasher :: Sha256
  stw_verify :: bool
  stw_written :: u64
  stw_expected_total :: u64
  stw_expected_sha256 :: string

text \<open>
  \<open>StWriter::create\<close>. The temporary file is opened with \<open>O_CREAT\<close> and neither \<open>O_EXCL\<close> nor \<open>O_TRUNC\<close>: one that is already there keeps its contents.
\<close>

definition writer_tmp_path :: "string \<Rightarrow> nat \<Rightarrow> string" where
  "writer_tmp_path dest pid = dest @ ''.sfs-tmp-'' @ dec_string pid"

definition st_create :: "st_env \<Rightarrow> nat \<Rightarrow> string \<Rightarrow> FileInfo \<Rightarrow> bool \<Rightarrow> files \<Rightarrow> (files \<times> StWriter) res" where
  "st_create E pid dest info verify fs =
     (let tmp = writer_tmp_path dest pid
      in if \<not> se_open_ok E then SFS_ERR Io dest
         else Ok ((if fs tmp = None then fs(tmp \<mapsto> []) else fs),
           \<lparr>stw_tmp_path = tmp, stw_dest_path = dest, stw_hasher = sha_reset, stw_verify = verify, stw_written = 0,
            stw_expected_total = fi_total_bytes info, stw_expected_sha256 = fi_sha256 info\<rparr>))"

text \<open>\<open>append\<close>; the kernel refuses offsets from \<open>2 ^ 63\<close> on.\<close>

definition st_append :: "st_env \<Rightarrow> files \<times> StWriter \<Rightarrow> bytes \<Rightarrow> (files \<times> StWriter) res" where
  "st_append E st data =
     (let (fs, w) = st
      in if data = [] then Ok (fs, w)
         else if 2 ^ 63 \<le> unat (stw_written w) + length data then SFS_ERR Io (stw_dest_path w)
         else case fs (stw_tmp_path w) of
           None \<Rightarrow> SFS_ERR Io (stw_dest_path w)
         | Some b \<Rightarrow>
             (case pwrite_all (se_writes E (unat (stw_written w))) b data (unat (stw_written w)) of
                (b', Value n) \<Rightarrow>
                  if n \<noteq> length data then SFS_ERR Io (stw_dest_path w)
                  else Ok (fs(stw_tmp_path w \<mapsto> b'),
                    w\<lparr>stw_hasher := (if stw_verify w then sha_update data (stw_hasher w) else stw_hasher w), stw_written := stw_written w + of_nat (length data)\<rparr>)
              | (b', Unexpected) \<Rightarrow> SFS_ERR Io (stw_dest_path w)
              | (b', Blocked) \<Rightarrow> Abort NoFuel))"

text \<open>The destructor of a writer whose descriptor is still open.\<close>

definition st_discard :: "st_env \<Rightarrow> StWriter \<Rightarrow> files \<Rightarrow> files" where
  "st_discard E w fs = (if se_remove_ok E then fs(stw_tmp_path w := None) else fs)"

definition st_finish :: "st_env \<Rightarrow> files \<times> StWriter \<Rightarrow> files \<times> unit res" where
  "st_finish E st =
     (let (fs, w) = st
      in if stw_written w \<noteq> stw_expected_total w then (st_discard E w fs, SFS_ERR MalformedObject [])
         else if \<not> se_fsync_ok E then (st_discard E w fs, SFS_ERR Io (stw_dest_path w))
         else if stw_verify w \<and> stw_expected_sha256 w \<noteq> [] \<and> sha_hex (sha_finalize (stw_hasher w)) \<noteq> stw_expected_sha256 w
         then (st_discard E w fs, SFS_ERR HashMismatch (stw_dest_path w))
         else if \<not> se_rename_ok E then (fs, SFS_ERR Io (stw_dest_path w))
         else let fs1 = fs(stw_tmp_path w := None, stw_dest_path w := fs (stw_tmp_path w))
         in if se_dirsync_ok E then (fs1, Ok ()) else (fs1, SFS_ERR Io (stw_dest_path w)))"

text \<open>
  The writing part of \<open>run_checkout\<close>. When \<open>reconstruct_file\<close> or \<open>append\<close> fails, the destructor removes the temporary file, the only one that was
  written; \<open>se_partial\<close> is what it holds where it cannot be removed.
\<close>

definition checkout_file :: "'j Ext \<Rightarrow> Isa \<Rightarrow> nat \<Rightarrow> ReadCtx \<Rightarrow> st_env \<Rightarrow> nat \<Rightarrow> string \<Rightarrow> Manifest \<Rightarrow> files \<Rightarrow> files \<times> unit res" where
  "checkout_file X isa fuel ctx E pid dest m fs =
     (case st_create E pid dest (m_file m) True fs of
        Ok (fs1, w) \<Rightarrow>
          (case reconstruct_file X isa fuel ctx (st_append E) (fs1, w) of
             Ok st \<Rightarrow> st_finish E st
           | Err e \<Rightarrow> (st_discard E w (fs1(stw_tmp_path w \<mapsto> se_partial E)), Err e)
           | Abort a \<Rightarrow> (fs1, Abort a))
      | Err e \<Rightarrow> (fs, Err e)
      | Abort a \<Rightarrow> (fs, Abort a))"

subsection \<open>What append writes\<close>

text \<open>The bytes \<open>s\<close> written from the start over a file that held \<open>old\<close>.\<close>

definition written_over :: "bytes \<Rightarrow> bytes \<Rightarrow> bytes" where
  "written_over old s = s @ drop (length s) old"

lemma overlay_over: "overlay (written_over old s) (length s) piece = written_over old (s @ piece)"
  by (simp add: overlay_def written_over_def add.commute)

lemma pwrite_loop_appends:
  "pwrite_loop ws (written_over old (b @ take n data)) data (length b) n = (b', Value k) \<Longrightarrow> n \<le> length data \<Longrightarrow>
   b' = written_over old (b @ take k data) \<and> k \<le> length data"
proof (induction ws arbitrary: n)
  case Nil
  then show ?case by (auto simp: pwrite_loop.simps split: if_splits)
next
  case (Cons w ws)
  have step: "b' = written_over old (b @ take k data) \<and> k \<le> length data"
    if e: "pwrite_loop ws (overlay (written_over old (b @ take n data)) (length b + n) (take j (drop n data))) data (length b) (n + length (take j (drop n data))) = (b', Value k)" for j
  proof -
    let ?m = "length (take j (drop n data))"
    have l: "length (b @ take n data) = length b + n" using Cons(3) by simp
    have "overlay (written_over old (b @ take n data)) (length b + n) (take j (drop n data)) = written_over old (b @ take (n + ?m) data)"
      using overlay_over [of old "b @ take n data"] unfolding l by (simp add: take_add min_def)
    then show ?thesis using Cons(1) [of "n + ?m"] Cons(3) e by simp
  qed
  show ?case
  proof (cases "length data \<le> n")
    case True
    then show ?thesis using Cons(2,3) by (auto simp: pwrite_loop.simps [of "w # ws"])
  next
    case False
    then show ?thesis using Cons step by (cases w) (auto simp: pwrite_loop.simps [of "_ # ws"] Let_def split: if_splits)
  qed
qed

lemma pwrite_all_append:
  "pwrite_all ws (written_over old b) data (length b) = (b', Value (length data)) \<Longrightarrow> b' = written_over old (b @ data)"
  using pwrite_loop_appends [of ws old b 0 data b' "length data"] by (simp add: pwrite_all_def)

lemma pwrite_loop_all:
  assumes "WriteError \<notin> set ws" "Wrote 0 \<notin> set ws" "length data \<le> n + sum_list (map accepted ws)"
  shows "\<exists>b' k. pwrite_loop ws b data off n = (b', Value k) \<and> length data \<le> k"
  using assms
proof (induction ws arbitrary: n b)
  case Nil
  then show ?case by (simp add: pwrite_loop.simps)
next
  case (Cons w ws)
  show ?case
  proof (cases "length data \<le> n")
    case True
    then show ?thesis by (simp add: pwrite_loop.simps)
  next
    case False
    show ?thesis
    proof (cases w)
      case (Wrote j)
      let ?m = "length (take j (drop n data))"
      have "take j (drop n data) \<noteq> []" using False Cons(3) Wrote by (cases j) auto
      moreover have "length data \<le> n + ?m + sum_list (map accepted ws)" using Cons(4) Wrote False by auto
      ultimately show ?thesis using Cons(1) [of "n + ?m"] Cons(2,3) False Wrote by (simp add: pwrite_loop.simps [of "_ # ws"] Let_def)
    qed (use Cons False in \<open>auto simp: pwrite_loop.simps [of "_ # ws"]\<close>)
  qed
qed

text \<open>The kernel takes every write of up to \<open>n\<close> bytes in the end.\<close>

definition accepts :: "nat \<Rightarrow> st_env \<Rightarrow> bool" where
  "accepts n E \<longleftrightarrow> (\<forall>off. WriteError \<notin> set (se_writes E off) \<and> Wrote 0 \<notin> set (se_writes E off) \<and> n \<le> sum_list (map accepted (se_writes E off)))"

text \<open>A writer that has been given the bytes \<open>s\<close>: they are in the temporary file, over what was in it.\<close>

definition holds_bytes :: "bytes \<Rightarrow> files \<Rightarrow> StWriter \<Rightarrow> bytes \<Rightarrow> files \<times> StWriter \<Rightarrow> bool" where
  "holds_bytes old fs0 w0 s st \<longleftrightarrow> length s < 2 ^ 63 \<and>
     (\<exists>hh. st = (fs0(stw_tmp_path w0 \<mapsto> written_over old s), w0\<lparr>stw_written := of_nat (length s), stw_hasher := hh\<rparr>) \<and>
       absorbed s hh \<and> sh_total hh = of_nat (length s))"

lemma unat_small: "length s < 2 ^ 63 \<Longrightarrow> unat (of_nat (length s) :: u64) = length s"
  by (simp add: unat_of_nat take_bit_nat_eq_self)

lemma append_holds:
  assumes "holds_bytes old fs0 w0 s st" "st_append E st data = Ok st'" "stw_verify w0"
  shows "holds_bytes old fs0 w0 (s @ data) st'"
proof (cases "data = []")
  case True
  then show ?thesis using assms by (simp add: st_append_def case_prod_beta)
next
  case False
  obtain hh where h: "length s < 2 ^ 63"
    "st = (fs0(stw_tmp_path w0 \<mapsto> written_over old s), w0\<lparr>stw_written := of_nat (length s), stw_hasher := hh\<rparr>)"
    "absorbed s hh" "sh_total hh = of_nat (length s)" using assms(1) by (auto simp: holds_bytes_def)
  note u = unat_small [OF h(1)]
  obtain b' n where p: "pwrite_all (se_writes E (length s)) (written_over old s) data (length s) = (b', n)"
    by (cases "pwrite_all (se_writes E (length s)) (written_over old s) data (length s)")
  have ok: "n = Value (length data)" "length s + length data < 2 ^ 63"
    "st' = (fs0(stw_tmp_path w0 \<mapsto> b'), w0\<lparr>stw_written := of_nat (length s) + of_nat (length data), stw_hasher := sha_update data hh\<rparr>)"
    using assms(2,3) False unfolding h(2) st_append_def Let_def prod.case
    by (auto simp: u p split: if_splits expected.splits)
  have b': "b' = written_over old (s @ data)" using pwrite_all_append p ok(1) by blast
  show ?thesis unfolding holds_bytes_def ok(3) b'
    using ok(2) h(4) update_absorbed [OF h(3), of data] by (auto simp: sha_update_def total_absorb)
qed

lemma append_succeeds:
  assumes "holds_bytes old fs0 w0 s st" "accepts n E" "length data \<le> n" "length s + length data < 2 ^ 63"
  shows "\<exists>st'. st_append E st data = Ok st'"
proof (cases "data = []")
  case False
  obtain hh where h: "length s < 2 ^ 63"
    "st = (fs0(stw_tmp_path w0 \<mapsto> written_over old s), w0\<lparr>stw_written := of_nat (length s), stw_hasher := hh\<rparr>)"
    using assms(1) by (auto simp: holds_bytes_def)
  have a: "WriteError \<notin> set (se_writes E (length s))" "Wrote 0 \<notin> set (se_writes E (length s))" "length data \<le> 0 + sum_list (map accepted (se_writes E (length s)))"
    using assms(2,3) unfolding accepts_def by (auto intro: order_trans)
  obtain b' k where p: "pwrite_loop (se_writes E (length s)) (written_over old s) data (length s) 0 = (b', Value k)" "length data \<le> k"
    using pwrite_loop_all [OF a] by blast
  have "k = length data" using pwrite_loop_appends [of "se_writes E (length s)" old s 0 data b' k] p by simp
  then show ?thesis using False assms(4) p unfolding h(2) st_append_def by (simp add: unat_small [OF h(1)] pwrite_all_def)
qed (simp add: st_append_def case_prod_beta)

subsection \<open>Streaming into a writer\<close>

text \<open>An invariant of the sink is an invariant of everything \<open>reconstruct_file\<close> does.\<close>

lemma stream_entry_invariant:
  assumes "stream_entry sink read grp nbytes d (buf, s) = Ok (buf', s')" "P s" "\<And>s b s'. P s \<Longrightarrow> sink s b = Ok s' \<Longrightarrow> P s'"
  shows "P s'"
  using assms(1,2)
proof (induction "nbytes - d" arbitrary: d buf s rule: less_induct)
  case less
  show ?case
  proof (cases "nbytes \<le> d")
    case True
    then show ?thesis using less by (simp add: stream_entry.simps)
  next
    case False
    let ?want = "min kStreamChunk (nbytes - d)"
    obtain b n s1 where "sink s b = Ok s1" and rec: "stream_entry sink read grp nbytes (d + ?want) (memcpy_at buf 0 b, s1) = Ok (buf', s')"
      using less(2) False unfolding stream_entry.simps [of sink read grp nbytes d] by (auto simp: Let_def split: if_splits)
    then have "P s1" using assms(3) less(3) by blast
    moreover have "nbytes - (d + ?want) < nbytes - d" using False by (simp add: kStreamChunk_def)
    ultimately show ?thesis using less(1) rec by blast
  qed
qed

lemma reconstruct_invariant:
  assumes "reconstruct_file X isa fuel ctx sink s = Ok s'" "P s" "\<And>s b s'. P s \<Longrightarrow> sink s b = Ok s' \<Longrightarrow> P s'"
  shows "P s'"
proof -
  obtain m blocks header s1 buf where "rc_manifest ctx = Some m" "sink s header = Ok s1"
    and f: "fold_res (\<lambda>entry st. case find_group m (be_group entry) of
                None \<Rightarrow> SFS_ERR MalformedObject (be_group entry)
              | Some _ \<Rightarrow> stream_entry sink (read_range X isa fuel ctx (be_group entry)) (be_group entry) (unat (be_nbytes entry)) 0 st)
            (m_buffer m) (replicate kStreamChunk 0, s1) = Ok (buf, s')"
    using assms(1) unfolding reconstruct_file_def by (auto split: option.splits)
  have s1: "P s1" using \<open>sink s header = Ok s1\<close> assms(2,3) by blast
  have step: "P (snd st')" if "P (snd st)"
    "(case find_group m (be_group entry) of
        None \<Rightarrow> SFS_ERR MalformedObject (be_group entry)
      | Some _ \<Rightarrow> stream_entry sink (read_range X isa fuel ctx (be_group entry)) (be_group entry) (unat (be_nbytes entry)) 0 st) = Ok st'" for entry st st'
  proof -
    obtain b1 t1 b2 t2 where st: "st = (b1, t1)" "st' = (b2, t2)" by (cases st, cases st')
    have "stream_entry sink (read_range X isa fuel ctx (be_group entry)) (be_group entry) (unat (be_nbytes entry)) 0 (b1, t1) = Ok (b2, t2)"
      using that(2) unfolding st by (simp split: option.splits)
    from stream_entry_invariant [OF this _ assms(3)] that(1) show ?thesis unfolding st by simp
  qed
  have "P (snd (buf, s'))"
    by (rule fold_res_invariant [where P="\<lambda>st. P (snd st)", OF f]) (use s1 step in \<open>simp_all\<close>)
  then show ?thesis by simp
qed

text \<open>A sink that follows the list of bytes it was given, as long as there is room for them.\<close>

lemma length_window: "length (fst (window T off out)) = length out"
  by (simp add: window_def Let_def memcpy_at_def slice_def min_def)

lemma stream_entry_sim:
  assumes "stream_entry (\<lambda>s b. Ok (s @ b)) read grp nbytes d (buf, s) = Ok (buf', s')" "R s w"
    and "\<And>s b w. R s w \<Longrightarrow> length b \<le> kStreamChunk \<Longrightarrow> length s + length b < N \<Longrightarrow> \<exists>w'. sink w b = Ok w' \<and> R (s @ b) w'"
    and "reads_as read T" "nbytes \<le> length T" "length T < 2 ^ 62" "length s' < N" "length buf = kStreamChunk"
  shows "\<exists>w'. stream_entry sink read grp nbytes d (buf, w) = Ok (buf', w') \<and> R s' w'"
  using assms(1,2,8)
proof (induction "nbytes - d" arbitrary: d buf s w rule: less_induct)
  case less
  show ?case
  proof (cases "nbytes \<le> d")
    case True
    then show ?thesis using less by (simp add: stream_entry.simps)
  next
    case False
    let ?want = "min kStreamChunk (nbytes - d)"
    obtain b where r: "read (of_nat d) (take ?want buf) = Ok (b, of_nat ?want)"
      and rec: "stream_entry (\<lambda>s b. Ok (s @ b)) read grp nbytes (d + ?want) (memcpy_at buf 0 b, s @ b) = Ok (buf', s')"
      using less(2) False unfolding stream_entry.simps [of _ read grp nbytes d] by (auto simp: Let_def split: if_splits)
    have u: "unat (of_nat d :: u64) = d" using False assms(5,6) by (simp add: unat_of_nat take_bit_nat_eq_self)
    have "read (of_nat d) (take ?want buf) = Ok (window T (of_nat d) (take ?want buf))"
      using assms(4,5,6) False less(4) unfolding reads_as_def by (simp add: u kStreamChunk_def)
    then have "b = fst (window T (of_nat d) (take ?want buf))" using r by (metis fst_conv res.inject(1))
    then have lb: "length b \<le> kStreamChunk" using length_window [of T "of_nat d" "take ?want buf"] by simp
    have "length (s @ b) \<le> length s'"
      using stream_entry_invariant [OF rec, of "\<lambda>t. length (s @ b) \<le> length t"] by fastforce
    then obtain w1 where w1: "sink w b = Ok w1" "R (s @ b) w1" using assms(3) [OF less(3) lb] assms(7) by auto
    have "nbytes - (d + ?want) < nbytes - d" using False by (simp add: kStreamChunk_def)
    from less(1) [OF this rec w1(2)] obtain w' where
      "stream_entry sink read grp nbytes (d + ?want) (memcpy_at buf 0 b, w1) = Ok (buf', w')" "R s' w'"
      using lb less(4) by (auto simp: memcpy_at_def)
    then show ?thesis using r w1(1) False by (simp add: stream_entry.simps [of sink read grp nbytes d] Let_def)
  qed
qed

subsection \<open>Checking out a file\<close>

definition stale_temp :: "files \<Rightarrow> string \<Rightarrow> nat \<Rightarrow> bytes" where
  "stale_temp fs dest pid = (case fs (writer_tmp_path dest pid) of None \<Rightarrow> [] | Some b \<Rightarrow> b)"

lemma tmp_not_dest [simp]: "writer_tmp_path dest pid \<noteq> dest" "dest \<noteq> writer_tmp_path dest pid"
  by (auto simp: writer_tmp_path_def)

lemma create_holds:
  assumes "st_create E pid dest info v fs = Ok (fs1, w)"
  shows "holds_bytes (stale_temp fs dest pid) fs w [] (fs1, w)" "stw_tmp_path w = writer_tmp_path dest pid" "stw_dest_path w = dest"
    "stw_verify w = v" "stw_expected_total w = fi_total_bytes info" "stw_expected_sha256 w = fi_sha256 info"
  using assms reset_absorbed
  by (auto simp: st_create_def holds_bytes_def Let_def written_over_def stale_temp_def sha_reset_def fun_upd_idem split: if_splits option.splits)

lemma reconstruct_holds:
  assumes "reconstruct_file X isa fuel ctx (st_append E) st = Ok st'" "holds_bytes old fs w [] st" "stw_verify w"
  shows "\<exists>s. holds_bytes old fs w s st'"
  by (rule reconstruct_invariant [OF assms(1), where P="\<lambda>st. \<exists>s. holds_bytes old fs w s st"]) (use assms(2,3) append_holds in blast)+

lemma finish_holds:
  assumes "holds_bytes old fs w s st" "stw_verify w" "stw_tmp_path w \<noteq> stw_dest_path w" "st_finish E st = (fs', r)"
  shows "(r = Ok () \<longrightarrow> fs' = fs(stw_tmp_path w := None, stw_dest_path w \<mapsto> written_over old s) \<and> length s = unat (stw_expected_total w) \<and>
        (stw_expected_sha256 w \<noteq> [] \<longrightarrow> sha_hex (sha256 s) = stw_expected_sha256 w)) \<and>
    (r \<noteq> Ok () \<longrightarrow> se_dirsync_ok E \<longrightarrow> fs' (stw_dest_path w) = fs (stw_dest_path w)) \<and>
    (\<forall>p. p \<notin> {stw_tmp_path w, stw_dest_path w} \<longrightarrow> fs' p = fs p)"
proof -
  obtain hh where h: "length s < 2 ^ 63" "st = (fs(stw_tmp_path w \<mapsto> written_over old s), w\<lparr>stw_written := of_nat (length s), stw_hasher := hh\<rparr>)"
    "absorbed s hh" "sh_total hh = of_nat (length s)" using assms(1) by (auto simp: holds_bytes_def)
  have sha: "sha_finalize hh = sha256 s" by (rule finalize_absorbed [OF h(3,4)])
  have u: "length s = unat (stw_expected_total w)" if "of_nat (length s) = stw_expected_total w"
    unfolding that [symmetric] by (simp add: unat_small [OF h(1)])
  show ?thesis
    using assms(2,3,4) u unfolding h(2) st_finish_def
    by (auto simp: sha st_discard_def Let_def fun_upd_twist split: if_splits)
qed

lemma checkout_facts:
  assumes "checkout_file X isa fuel ctx E pid dest m fs = (fs', r)"
  shows "(r = Ok () \<longrightarrow> (\<exists>s. fs' dest = Some (s @ drop (length s) (stale_temp fs dest pid)) \<and> length s = unat (fi_total_bytes (m_file m)) \<and>
        (fi_sha256 (m_file m) \<noteq> [] \<longrightarrow> sha_hex (sha256 s) = fi_sha256 (m_file m)) \<and> fs' (writer_tmp_path dest pid) = None)) \<and>
    (r \<noteq> Ok () \<longrightarrow> se_dirsync_ok E \<longrightarrow> fs' dest = fs dest) \<and>
    (\<forall>p. p \<notin> {writer_tmp_path dest pid, dest} \<longrightarrow> fs' p = fs p)"
proof (cases "st_create E pid dest (m_file m) True fs")
  case (Ok c)
  obtain fs1 w where c: "c = (fs1, w)" by (cases c)
  note w = create_holds [OF Ok [unfolded c]]
  have fs1: "fs1 p = fs p" if "p \<noteq> writer_tmp_path dest pid" for p
    using w(1,2) that by (auto simp: holds_bytes_def)
  show ?thesis
  proof (cases "reconstruct_file X isa fuel ctx (st_append E) (fs1, w)")
    case R: (Ok st)
    obtain s where s: "holds_bytes (stale_temp fs dest pid) fs w s st" using reconstruct_holds [OF R w(1)] w(4) by blast
    have "st_finish E st = (fs', r)" using assms Ok c R by (simp add: checkout_file_def)
    from finish_holds [OF s _ _ this] w show ?thesis by (auto simp: written_over_def intro!: exI [of _ s])
  next
    case (Err e)
    then show ?thesis using assms Ok c fs1 w by (auto simp: checkout_file_def st_discard_def)
  next
    case (Abort a)
    then show ?thesis using assms Ok c fs1 w by (auto simp: checkout_file_def)
  qed
qed (use assms in \<open>auto simp: checkout_file_def\<close>)

text \<open>
  Note: whatever the disk and the stored objects do, a checkout that reports success has put a file in place that starts with as many
  bytes as the manifest records, with the recorded SHA-256; it is exactly those bytes when there was no temporary file of that name
  before, and otherwise what that file held beyond them follows. A checkout that fails leaves the destination as it was, unless only
  the last step, syncing the directory, failed. No file but the destination and the temporary one changes.
\<close>

theorem checkout_verified:
  assumes "checkout_file X isa fuel ctx E pid dest m fs = (fs', r)"
  shows "(r = Ok () \<longrightarrow> (\<exists>s. fs' dest = Some (s @ drop (length s) (stale_temp fs dest pid)) \<and> length s = unat (fi_total_bytes (m_file m)) \<and>
        (fi_sha256 (m_file m) \<noteq> [] \<longrightarrow> sha_hex (sha256 s) = fi_sha256 (m_file m)) \<and> fs' (writer_tmp_path dest pid) = None)) \<and>
    (r \<noteq> Ok () \<longrightarrow> se_dirsync_ok E \<longrightarrow> fs' dest = fs dest) \<and>
    (\<forall>p. p \<notin> {writer_tmp_path dest pid, dest} \<longrightarrow> fs' p = fs p)"
  by (rule checkout_facts [OF assms])

lemma stream_entries_into:
  assumes "zstd_ok X" "rc_manifest ctx = Some m" "list_all2 (buffer_holds X ctx fuel) es Ts" "length buf = kStreamChunk"
    and "R s w" "length (s @ concat Ts) < N"
    and step: "\<And>s b w. R s w \<Longrightarrow> length b \<le> kStreamChunk \<Longrightarrow> length s + length b < N \<Longrightarrow> \<exists>w'. sink w b = Ok w' \<and> R (s @ b) w'"
  shows "\<exists>buf' w'. fold_res (\<lambda>entry st.
      case find_group m (be_group entry) of
        None \<Rightarrow> SFS_ERR MalformedObject (be_group entry)
      | Some _ \<Rightarrow> stream_entry sink (read_range X isa fuel ctx (be_group entry)) (be_group entry)
                   (unat (be_nbytes entry)) 0 st) es (buf, w) = Ok (buf', w') \<and> R (s @ concat Ts) w'"
  using assms(3-6)
proof (induction es Ts arbitrary: buf s w rule: list_all2_induct)
  case (Cons e es T Ts)
  let ?read = "read_range X isa fuel ctx (be_group e)"
  obtain d where d: "d < fuel" "holds_group X ctx (be_group e) T d" and T: "length T = unat (be_nbytes e)" "length T < 2 ^ 62"
    using Cons.hyps(1) by (auto simp: buffer_holds_def)
  obtain g where g: "find_group m (be_group e) = Some g" using holds_group_found [OF d(2) assms(2)] by blast
  have r: "reads_as ?read T" using holds_group_reads [OF assms(1) d(2,1)] by (simp add: read_range_def [abs_def])
  obtain buf' where b: "length buf' = kStreamChunk"
    "stream_entry (\<lambda>s b. Ok (s @ b)) ?read (be_group e) (unat (be_nbytes e)) 0 (buf, s) = Ok (buf', s @ T)"
    using stream_entry_appends [OF r T(2), of 0 buf "be_group e" s] Cons.prems T(1) by auto
  obtain w1 where w1: "stream_entry sink ?read (be_group e) (unat (be_nbytes e)) 0 (buf, w) = Ok (buf', w1)" "R (s @ T) w1"
    using stream_entry_sim [where R=R and N=N and sink=sink, OF b(2) Cons.prems(2) step r _ T(2) _ Cons.prems(1)] T(1) Cons.prems(3) by auto
  then show ?case using Cons.IH [OF b(1) w1(2)] Cons.prems(3) g by simp
qed auto

text \<open>What the manifest records is what the objects hold.\<close>

definition manifest_records :: "Manifest \<Rightarrow> bytes \<Rightarrow> bool" where
  "manifest_records m F \<longleftrightarrow> fi_total_bytes (m_file m) = of_nat (length F) \<and> length F < 2 ^ 63 \<and>
     (fi_sha256 (m_file m) = [] \<or> fi_sha256 (m_file m) = sha_hex (sha256 F))"

definition kernel_obliges :: "nat \<Rightarrow> st_env \<Rightarrow> bool" where
  "kernel_obliges n E \<longleftrightarrow> se_open_ok E \<and> accepts n E \<and> se_fsync_ok E \<and> se_rename_ok E \<and> se_dirsync_ok E"

lemma finish_succeeds:
  assumes "holds_bytes old fs w s st" "kernel_obliges n E" "stw_expected_total w = of_nat (length s)"
    "stw_expected_sha256 w = [] \<or> stw_expected_sha256 w = sha_hex (sha256 s)" "stw_tmp_path w \<noteq> stw_dest_path w"
  shows "st_finish E st = (fs(stw_tmp_path w := None, stw_dest_path w \<mapsto> written_over old s), Ok ())"
proof -
  obtain hh where h: "st = (fs(stw_tmp_path w \<mapsto> written_over old s), w\<lparr>stw_written := of_nat (length s), stw_hasher := hh\<rparr>)"
    "absorbed s hh" "sh_total hh = of_nat (length s)" using assms(1) by (auto simp: holds_bytes_def)
  then show ?thesis using assms(2-5) finalize_absorbed [OF h(2,3)] by (auto simp: st_finish_def kernel_obliges_def Let_def)
qed

lemma checkout_runs:
  assumes "zstd_ok X" "rc_manifest ctx = Some m" "rc_blocks ctx = Some blocks"
    and "bi_get blocks (fi_header_block (m_file m)) KHeader = Ok H"
    and "list_all2 (buffer_holds X ctx fuel) (m_buffer m) Ts"
    and "manifest_records m (H @ concat Ts)" "kernel_obliges (max kStreamChunk (length H)) E"
  shows "checkout_file X isa fuel ctx E pid dest m fs =
    (fs(writer_tmp_path dest pid := None, dest \<mapsto> written_over (stale_temp fs dest pid) (H @ concat Ts)), Ok ())"
proof -
  obtain fs1 w where c: "st_create E pid dest (m_file m) True fs = Ok (fs1, w)"
    using assms(7) by (auto simp: st_create_def Let_def kernel_obliges_def)
  note w = create_holds [OF c]
  let ?R = "holds_bytes (stale_temp fs dest pid) fs w"
  have acc: "accepts (max kStreamChunk (length H)) E" using assms(7) by (simp add: kernel_obliges_def)
  have step: "\<exists>w'. st_append E st b = Ok w' \<and> ?R (s @ b) w'" if "?R s st" "length b \<le> max kStreamChunk (length H)" "length s + length b < 2 ^ 63" for s b st
    using append_succeeds [OF that(1) acc that(2,3)] append_holds [OF that(1)] w(4) by blast
  have len: "length (H @ concat Ts) < 2 ^ 63" using assms(6) by (simp add: manifest_records_def)
  obtain st1 where st1: "st_append E (fs1, w) H = Ok st1" "?R H st1"
    using step [of "[]" "(fs1, w)" H] w(1) len by auto
  obtain buf st2 where st2: "fold_res (\<lambda>entry st.
      case find_group m (be_group entry) of
        None \<Rightarrow> SFS_ERR MalformedObject (be_group entry)
      | Some _ \<Rightarrow> stream_entry (st_append E) (read_range X isa fuel ctx (be_group entry)) (be_group entry)
                   (unat (be_nbytes entry)) 0 st) (m_buffer m) (replicate kStreamChunk 0, st1) = Ok (buf, st2)" "?R (H @ concat Ts) st2"
    using stream_entries_into [where R="?R" and N="2 ^ 63" and sink="st_append E" and buf="replicate kStreamChunk 0" and isa=isa, OF assms(1,2,5) _ st1(2) len]
      step by (metis (no_types, lifting) length_replicate max.coboundedI1)
  have "reconstruct_file X isa fuel ctx (st_append E) (fs1, w) = Ok st2"
    using st1(1) st2(1) assms(2-4) by (simp add: reconstruct_file_def)
  moreover have "st_finish E st2 = (fs(writer_tmp_path dest pid := None, dest \<mapsto> written_over (stale_temp fs dest pid) (H @ concat Ts)), Ok ())"
    using finish_succeeds [OF st2(2) assms(7)] assms(6) w by (auto simp: manifest_records_def)
  ultimately show ?thesis using c by (simp add: checkout_file_def)
qed

text \<open>
  C6: a checkout from objects that hold the checkpoint does succeed, however the kernel cuts the writes up, and the file in place is
  the checkpoint byte for byte: the header block, then every tensor in buffer order, rebuilt through whatever chain of deltas stores it.
\<close>

theorem checkout_exact:
  assumes "zstd_ok X" "rc_manifest ctx = Some m" "rc_blocks ctx = Some blocks"
    and "bi_get blocks (fi_header_block (m_file m)) KHeader = Ok H"
    and "list_all2 (buffer_holds X ctx fuel) (m_buffer m) Ts"
    and "manifest_records m (H @ concat Ts)" "kernel_obliges (max kStreamChunk (length H)) E" "fs (writer_tmp_path dest pid) = None"
  shows "checkout_file X isa fuel ctx E pid dest m fs = (fs(dest \<mapsto> H @ concat Ts), Ok ())"
  using checkout_runs [OF assms(1-7), of isa pid dest fs] assms(8) by (simp add: stale_temp_def written_over_def fun_upd_idem)

definition kind_env :: st_env where
  "kind_env = \<lparr>se_open_ok = True, se_writes = (\<lambda>off. [Eintr, Wrote 1, Wrote kStreamChunk]), se_fsync_ok = True, se_remove_ok = True,
     se_partial = [], se_rename_ok = True, se_dirsync_ok = True\<rparr>"

lemma example_buffer: "list_all2 (buffer_holds example_X example_ctx 2) (m_buffer (chain_manifest example_delta)) [example_target]"
proof -
  have "\<exists>d < 2. holds_group example_X example_ctx ''w'' example_target d"
    using example_holds by (intro exI [of _ 1]) simp
  then show ?thesis by (auto simp: buffer_holds_def chain_manifest_def example_target_def)
qed

theorem checkout_exact_witness:
  "checkout_file example_X Scalar 2 example_ctx kind_env 77 ''out.safetensors'' (chain_manifest example_delta) Map.empty =
     ([''out.safetensors'' \<mapsto> [42, 5, 6, 7, 8]], Ok ())"
  using checkout_exact [OF _ _ _ _ example_buffer, of example_blocks "[42]" kind_env Map.empty "''out.safetensors''" 77 Scalar]
  by (simp add: example_X_def toy_zstd_ok example_ctx_def example_blocks_def example_target_def chain_manifest_def manifest_records_def
      kernel_obliges_def kind_env_def accepts_def kStreamChunk_def)

theorem checkout_verified_witness:
  "\<exists>fs' s. checkout_file example_X Scalar 2 example_ctx kind_env 77 ''out'' (chain_manifest example_delta) [writer_tmp_path ''out'' 77 \<mapsto> replicate 9 3] = (fs', Ok ()) \<and>
     fs' ''out'' = Some (s @ replicate 4 3) \<and> length s = 5"
proof -
  let ?fs = "[writer_tmp_path ''out'' 77 \<mapsto> replicate 9 (3 :: byte)]"
  obtain fs' where run: "checkout_file example_X Scalar 2 example_ctx kind_env 77 ''out'' (chain_manifest example_delta) ?fs = (fs', Ok ())"
    using checkout_runs [OF _ _ _ _ example_buffer, of example_blocks "[42]" kind_env Scalar 77 "''out''" ?fs]
    by (simp add: example_X_def toy_zstd_ok example_ctx_def example_blocks_def example_target_def chain_manifest_def manifest_records_def
        kernel_obliges_def kind_env_def accepts_def kStreamChunk_def)
  obtain s where s: "fs' ''out'' = Some (s @ drop (length s) (replicate 9 3))" "length s = 5"
    using checkout_verified [OF run] by (auto simp: stale_temp_def chain_manifest_def)
  then show ?thesis using run by (auto simp: numeral_eq_Suc)
qed

end
