(* ===== verification/Align_Graph.thy ===== *)
theory Align_Graph
  imports Core_Tensor
begin

section \<open>Union-find over tensor axes\<close>

text \<open>
  \<open>align/src/graph.cpp\<close>: the forest from which permutation groups are read off. A node is an axis of a tensor; \<open>find\<close> halves paths
  while it climbs, \<open>unite\<close> links by rank, \<open>finalize\<close> turns every tree into a group. Handles, dimensions and ranks are natural numbers. \<open>find\<close> carries
  fuel, one more than there are nodes, which is enough for every forest the operations build; an index out of range is \<open>Abort UB\<close>. The
  order in which \<open>finalize\<close> meets the trees, that of an unordered map, is the argument \<open>order\<close>. The locale \<open>grouping\<close> is
  the contract the topology parser relies on; the groups of the final topology are the connected components of what was united.
\<close>

datatype AxisKey = AxisKey (ak_tensor: string) (ak_dim: nat)

record Node =
  nd_key :: AxisKey
  nd_len :: u64
  nd_parent :: nat
  nd_rank :: nat
  nd_pinned :: bool

record AxisUnionFind =
  uf_nodes :: "Node list"
  uf_index :: "AxisKey \<rightharpoonup> nat"

definition uf_empty :: AxisUnionFind where
  "uf_empty = \<lparr>uf_nodes = [], uf_index = Map.empty\<rparr>"

definition uf_add :: "AxisUnionFind \<Rightarrow> AxisKey \<Rightarrow> u64 \<Rightarrow> AxisUnionFind \<times> nat" where
  "uf_add uf key len =
     (case uf_index uf key of
        Some h \<Rightarrow> (uf, h)
      | None \<Rightarrow>
          let h = length (uf_nodes uf)
          in (\<lparr>uf_nodes = uf_nodes uf @ [\<lparr>nd_key = key, nd_len = len, nd_parent = h, nd_rank = 0, nd_pinned = False\<rparr>],
              uf_index = (uf_index uf)(key \<mapsto> h)\<rparr>, h))"

fun find_loop :: "nat \<Rightarrow> Node list \<Rightarrow> nat \<Rightarrow> (Node list \<times> nat) res" where
  "find_loop 0 ns h = Abort NoFuel"
| "find_loop (Suc n) ns h =
     (if length ns \<le> h then Abort UB
      else if nd_parent (ns ! h) = h then Ok (ns, h)
      else if length ns \<le> nd_parent (ns ! h) then Abort UB
      else let p = nd_parent (ns ! nd_parent (ns ! h))
           in find_loop n (ns[h := (ns ! h)\<lparr>nd_parent := p\<rparr>]) p)"

definition uf_find :: "Node list \<Rightarrow> nat \<Rightarrow> (Node list \<times> nat) res" where
  "uf_find ns h = find_loop (Suc (length ns)) ns h"

definition link_roots :: "Node list \<Rightarrow> nat \<Rightarrow> nat \<Rightarrow> Node list" where
  "link_roots ns ra0 rb0 =
     (let (ra, rb) = if nd_rank (ns ! ra0) < nd_rank (ns ! rb0) then (rb0, ra0) else (ra0, rb0);
          ns1 = ns[rb := (ns ! rb)\<lparr>nd_parent := ra\<rparr>];
          ns2 = if nd_rank (ns1 ! ra) = nd_rank (ns1 ! rb) then ns1[ra := (ns1 ! ra)\<lparr>nd_rank := nd_rank (ns1 ! ra) + 1\<rparr>] else ns1
      in ns2[ra := (ns2 ! ra)\<lparr>nd_pinned := nd_pinned (ns2 ! ra) \<or> nd_pinned (ns2 ! rb)\<rparr>])"

definition uf_unite :: "AxisUnionFind \<Rightarrow> nat \<Rightarrow> nat \<Rightarrow> AxisUnionFind res" where
  "uf_unite uf a b =
     SFS_TRY (uf_find (uf_nodes uf) a) (\<lambda>(ns1, ra).
     SFS_TRY (uf_find ns1 b) (\<lambda>(ns2, rb).
     Ok (uf\<lparr>uf_nodes := if ra = rb then ns2 else link_roots ns2 ra rb\<rparr>)))"

definition uf_pin :: "AxisUnionFind \<Rightarrow> nat \<Rightarrow> AxisUnionFind res" where
  "uf_pin uf h = SFS_TRY (uf_find (uf_nodes uf) h) (\<lambda>(ns, r). Ok (uf\<lparr>uf_nodes := ns[r := (ns ! r)\<lparr>nd_pinned := True\<rparr>]\<rparr>))"

text \<open>\<open>finalize\<close>: the roots of all nodes, a group for each root, then a binding for each node.\<close>

fun find_all :: "Node list \<Rightarrow> nat list \<Rightarrow> (Node list \<times> nat list) res" where
  "find_all ns [] = Ok (ns, [])"
| "find_all ns (i # is) = SFS_TRY (uf_find ns i) (\<lambda>(ns, r). SFS_TRY (find_all ns is) (\<lambda>(ns, rs). Ok (ns, r # rs)))"

definition group_of_members :: "Node list \<Rightarrow> nat list \<Rightarrow> PermGroup" where
  "group_of_members ns members =
     \<lparr>pg_size = ucast (foldl (\<lambda>acc m. min acc (nd_len (ns ! m))) (- 1) members), pinned = foldl (\<lambda>acc m. acc \<or> nd_pinned (ns ! m)) False members\<rparr>"

definition group_name :: "nat \<Rightarrow> string" where
  "group_name k = ''g'' @ dec_string k"

definition push_axis :: "string \<Rightarrow> AxisBinding \<Rightarrow> (string \<times> AxisBinding list) list \<Rightarrow> (string \<times> AxisBinding list) list" where
  "push_axis t b tensors =
     (if map_of tensors t = None then tensors @ [(t, [b])] else map (\<lambda>(u, bs). (u, if u = t then bs @ [b] else bs)) tensors)"

fun bind_axes :: "(string \<times> PermGroup) list \<Rightarrow> (nat \<times> string) list \<Rightarrow> Node list \<Rightarrow> nat list \<Rightarrow> (string \<times> AxisBinding list) list \<Rightarrow> (string \<times> AxisBinding list) list res" where
  "bind_axes groups names ns [] tensors = Ok tensors"
| "bind_axes groups names ns (i # is) tensors =
     SFS_TRY (uf_find ns i) (\<lambda>(ns, r).
     case map_of names r of
       None \<Rightarrow> Abort Throw
     | Some gname \<Rightarrow>
         (case map_of groups gname of
            None \<Rightarrow> Abort Throw
          | Some g \<Rightarrow>
              let node = ns ! i; gsize = ucast (pg_size g) :: u64
              in if gsize = 0 \<or> nd_len node mod gsize \<noteq> 0 then SFS_ERR BlockFactorMismatch (ak_tensor (nd_key node))
                 else bind_axes groups names ns is
                   (push_axis (ak_tensor (nd_key node)) \<lparr>ax_dim = ak_dim (nd_key node), ax_group = gname, ax_block = ucast (nd_len node div gsize)\<rparr> tensors)))"

definition uf_finalize :: "(nat list \<Rightarrow> nat list) \<Rightarrow> AxisUnionFind \<Rightarrow> Topology res" where
  "uf_finalize order uf =
     SFS_TRY (find_all (uf_nodes uf) [0..<length (uf_nodes uf)]) (\<lambda>(ns, roots).
     let rs = order (remdups roots);
         groups = map (\<lambda>(k, r). (group_name k, group_of_members ns (filter (\<lambda>i. roots ! i = r) [0..<length roots]))) (zip [0..<length rs] rs);
         names = map (\<lambda>(k, r). (r, group_name k)) (zip [0..<length rs] rs)
     in SFS_TRY (bind_axes groups names ns [0..<length ns] []) (\<lambda>tensors. Ok \<lparr>topo_groups = groups, topo_tensors = tensors\<rparr>))"

subsection \<open>Forests\<close>

definition uf_ok :: "Node list \<Rightarrow> bool" where
  "uf_ok ns \<longleftrightarrow> (\<forall>h < length ns. nd_parent (ns ! h) < length ns \<and>
     (nd_parent (ns ! h) \<noteq> h \<longrightarrow> nd_rank (ns ! h) < nd_rank (ns ! nd_parent (ns ! h))))"

inductive leads :: "Node list \<Rightarrow> nat \<Rightarrow> nat \<Rightarrow> bool" for ns where
  root: "h < length ns \<Longrightarrow> nd_parent (ns ! h) = h \<Longrightarrow> leads ns h h"
| up: "h < length ns \<Longrightarrow> nd_parent (ns ! h) \<noteq> h \<Longrightarrow> leads ns (nd_parent (ns ! h)) r \<Longrightarrow> leads ns h r"

lemma leads_det: "leads ns h r \<Longrightarrow> leads ns h r' \<Longrightarrow> r' = r"
proof (induction arbitrary: r' rule: leads.induct)
  case (root h)
  from root(3) show ?case using root(2) by (cases rule: leads.cases) auto
next
  case (up h r)
  from up(5) show ?case using up by (cases rule: leads.cases) auto
qed

lemma leads_parent:
  assumes "x < length ns"
  shows "leads ns (nd_parent (ns ! x)) = leads ns x"
proof (cases "nd_parent (ns ! x) = x")
  case False
  show ?thesis
  proof (intro ext iffI)
    fix s assume "leads ns x s"
    then show "leads ns (nd_parent (ns ! x)) s" using False by (cases rule: leads.cases) auto
  qed (rule leads.up [OF assms False])
qed simp

lemma leads_root: "leads ns h r \<Longrightarrow> h < length ns \<and> r < length ns \<and> nd_parent (ns ! r) = r"
  by (induction rule: leads.induct) auto

definition above :: "Node list \<Rightarrow> nat \<Rightarrow> nat" where
  "above ns h = card {i. i < length ns \<and> nd_rank (ns ! h) < nd_rank (ns ! i)}"

lemma above_less: "i < length ns \<Longrightarrow> nd_rank (ns ! h) < nd_rank (ns ! i) \<Longrightarrow> above ns i < above ns h"
  unfolding above_def by (rule psubset_card_mono) auto

lemma above_bound: "h < length ns \<Longrightarrow> above ns h < length ns"
proof -
  assume h: "h < length ns"
  have "above ns h < card {i. i < length ns}" unfolding above_def by (rule psubset_card_mono) (use h in auto)
  then show ?thesis by simp
qed

lemma leads_total: "uf_ok ns \<Longrightarrow> h < length ns \<Longrightarrow> \<exists>r. leads ns h r"
proof (induction "above ns h" arbitrary: h rule: less_induct)
  case less
  show ?case
  proof (cases "nd_parent (ns ! h) = h")
    case True
    then show ?thesis using leads.root less(3) by blast
  next
    case False
    let ?p = "nd_parent (ns ! h)"
    have p: "?p < length ns" "nd_rank (ns ! h) < nd_rank (ns ! ?p)" using less(2,3) False by (auto simp: uf_ok_def)
    obtain r where "leads ns ?p r" using less(1) [OF above_less [OF p] less(2) p(1)] by blast
    then show ?thesis using leads.up [OF less(3) False] by blast
  qed
qed

text \<open>What compressing paths keeps: everything but the parents, and where they lead.\<close>

definition strip :: "Node list \<Rightarrow> Node list" where
  "strip ns = map (\<lambda>n. n\<lparr>nd_parent := 0\<rparr>) ns"

definition compressed :: "Node list \<Rightarrow> Node list \<Rightarrow> bool" where
  "compressed ns ns' \<longleftrightarrow> uf_ok ns' \<and> leads ns' = leads ns \<and> strip ns' = strip ns"

lemma strip_length: "strip ns' = strip ns \<Longrightarrow> length ns' = length ns"
  unfolding strip_def by (metis length_map)

lemma strip_nth:
  assumes "strip ns' = strip ns" "i < length ns"
  shows "nd_key (ns' ! i) = nd_key (ns ! i)" "nd_len (ns' ! i) = nd_len (ns ! i)" "nd_rank (ns' ! i) = nd_rank (ns ! i)" "nd_pinned (ns' ! i) = nd_pinned (ns ! i)"
proof -
  have "(strip ns') ! i = (strip ns) ! i" using assms(1) by simp
  then have e: "(ns' ! i)\<lparr>nd_parent := 0\<rparr> = (ns ! i)\<lparr>nd_parent := 0\<rparr>" using assms(2) strip_length [OF assms(1)] by (simp add: strip_def)
  show "nd_key (ns' ! i) = nd_key (ns ! i)" using arg_cong [OF e, of nd_key] by simp
  show "nd_len (ns' ! i) = nd_len (ns ! i)" using arg_cong [OF e, of nd_len] by simp
  show "nd_rank (ns' ! i) = nd_rank (ns ! i)" using arg_cong [OF e, of nd_rank] by simp
  show "nd_pinned (ns' ! i) = nd_pinned (ns ! i)" using arg_cong [OF e, of nd_pinned] by simp
qed

lemma leads_eqI:
  assumes "uf_ok ns" "length ns' = length ns" "\<And>x r. leads ns x r \<Longrightarrow> leads ns' x r"
  shows "leads ns' = leads ns"
proof (intro ext iffI)
  fix x r assume l: "leads ns' x r"
  then have "x < length ns" using leads_root assms(2) by metis
  then obtain r' where "leads ns x r'" using leads_total [OF assms(1)] by blast
  then show "leads ns x r" using assms(3) leads_det l by metis
qed (rule assms(3))

lemma halve_compressed:
  assumes "uf_ok ns" "h < length ns" "nd_parent (ns ! h) \<noteq> h"
  defines "p \<equiv> nd_parent (ns ! nd_parent (ns ! h))"
  defines "ns' \<equiv> ns[h := (ns ! h)\<lparr>nd_parent := p\<rparr>]"
  shows "compressed ns ns'" "leads ns h = leads ns p" "p < length ns" "nd_rank (ns ! h) < nd_rank (ns ! p)"
proof -
  let ?q = "nd_parent (ns ! h)"
  have q: "?q < length ns" "nd_rank (ns ! h) < nd_rank (ns ! ?q)" using assms(1-3) by (auto simp: uf_ok_def)
  have p: "p < length ns" "nd_rank (ns ! ?q) \<le> nd_rank (ns ! p)" using assms(1) q(1) unfolding p_def uf_ok_def by (auto simp: order_le_less)
  then have r: "nd_rank (ns ! h) < nd_rank (ns ! p)" using q(2) by simp
  have ph: "p \<noteq> h" using r by auto
  have n: "ns' ! i = (if i = h then (ns ! h)\<lparr>nd_parent := p\<rparr> else ns ! i)" if "i < length ns" for i using that by (simp add: ns'_def)
  have len: "length ns' = length ns" by (simp add: ns'_def)
  have ok: "uf_ok ns'" unfolding uf_ok_def len
  proof (intro allI impI)
    fix i assume i: "i < length ns"
    have o: "nd_parent (ns ! i) < length ns" "nd_parent (ns ! i) \<noteq> i \<Longrightarrow> nd_rank (ns ! i) < nd_rank (ns ! nd_parent (ns ! i))"
      using assms(1) i by (auto simp: uf_ok_def)
    have rk: "nd_rank (ns' ! j) = nd_rank (ns ! j)" if "j < length ns" for j using n [OF that] by simp
    show "nd_parent (ns' ! i) < length ns \<and> (nd_parent (ns' ! i) \<noteq> i \<longrightarrow> nd_rank (ns' ! i) < nd_rank (ns' ! nd_parent (ns' ! i)))"
      using n [OF i] rk [OF i] rk [OF o(1)] rk [OF p(1)] o p(1) r by (cases "i = h") simp_all
  qed
  have st: "strip ns' = strip ns" by (rule nth_equalityI) (auto simp: strip_def len n)
  have "leads ns' x s" if "leads ns x s" for x s
    using that
  proof (induction rule: leads.induct)
    case (root x)
    then have "x \<noteq> h" using assms(3) by auto
    then show ?case using leads.root [of x ns'] root len n [of x] by simp
  next
    case (up x s)
    show ?case
    proof (cases "x = h")
      case False
      then show ?thesis using leads.up [of x ns' s] up len n [of x] by auto
    next
      case True
      have "leads ns' ?q s" using up(4) True by simp
      moreover have "ns' ! ?q = ns ! ?q" using n [OF q(1)] assms(3) by simp
      ultimately have "leads ns' p s" using leads_parent [of ?q ns'] q(1) len by (simp add: p_def)
      then show ?thesis using leads.up [of h ns' s] True up(1) ph len n [of h] by auto
    qed
  qed
  then have "leads ns' = leads ns" using leads_eqI [OF assms(1) len] by blast
  then show "compressed ns ns'" using ok st by (simp add: compressed_def)
  show "p < length ns" "nd_rank (ns ! h) < nd_rank (ns ! p)" using p r by auto
  show "leads ns h = leads ns p" using leads_parent [OF assms(2)] leads_parent [OF q(1)] by (simp add: p_def)
qed

lemma find_loop_correct:
  assumes "uf_ok ns" "h < length ns" "above ns h < fuel"
  shows "\<exists>ns' r. find_loop fuel ns h = Ok (ns', r) \<and> leads ns h r \<and> compressed ns ns'"
  using assms
proof (induction fuel arbitrary: ns h)
  case (Suc n)
  show ?case
  proof (cases "nd_parent (ns ! h) = h")
    case True
    then show ?thesis using Suc(2,3) leads.root by (auto simp: compressed_def)
  next
    case False
    define p where "p = nd_parent (ns ! nd_parent (ns ! h))"
    define ns1 where "ns1 = ns[h := (ns ! h)\<lparr>nd_parent := p\<rparr>]"
    note h = halve_compressed [OF Suc(2,3) False, folded p_def, folded ns1_def]
    have ok: "uf_ok ns1" "leads ns1 = leads ns" "strip ns1 = strip ns" using h(1) by (auto simp: compressed_def)
    have len: "length ns1 = length ns" by (rule strip_length [OF ok(3)])
    have "above ns1 p = above ns p" unfolding above_def len using strip_nth(3) [OF ok(3)] h(3) by (metis (no_types, lifting))
    also have "\<dots> < n" using above_less [OF h(3,4)] Suc(4) by simp
    finally obtain ns' r where r: "find_loop n ns1 p = Ok (ns', r)" "leads ns1 p r" "compressed ns1 ns'"
      using Suc(1) [OF ok(1), of p] h(3) len by auto
    have "nd_parent (ns ! h) < length ns" using Suc(2,3) by (simp add: uf_ok_def)
    then have "find_loop (Suc n) ns h = Ok (ns', r)" using Suc(3) False r(1) by (simp add: Let_def p_def ns1_def)
    then show ?thesis using r(2,3) ok h(2) by (auto simp: compressed_def)
  qed
qed simp

lemma uf_find_correct:
  assumes "uf_ok ns" "h < length ns"
  shows "\<exists>ns' r. uf_find ns h = Ok (ns', r) \<and> leads ns h r \<and> compressed ns ns'"
  unfolding uf_find_def by (rule find_loop_correct [OF assms less_SucI [OF above_bound [OF assms(2)]]])

definition rep :: "Node list \<Rightarrow> nat \<Rightarrow> nat" where
  "rep ns h = (case uf_find ns h of Ok (_, r) \<Rightarrow> r | _ \<Rightarrow> h)"

lemma leads_rep:
  assumes "uf_ok ns"
  shows "leads ns h r \<longleftrightarrow> h < length ns \<and> r = rep ns h"
proof
  assume l: "leads ns h r"
  then have h: "h < length ns" using leads_root by blast
  obtain ns' r' where f: "uf_find ns h = Ok (ns', r')" "leads ns h r'" using uf_find_correct [OF assms h] by blast
  then have "r' = r" using leads_det [OF l] by simp
  then show "h < length ns \<and> r = rep ns h" using h f(1) by (simp add: rep_def)
next
  assume h: "h < length ns \<and> r = rep ns h"
  then obtain ns' r' where "uf_find ns h = Ok (ns', r')" "leads ns h r'" using uf_find_correct [OF assms, of h] by blast
  then show "leads ns h r" using h by (simp add: rep_def)
qed

lemma rep_bound:
  assumes "uf_ok ns" "h < length ns"
  shows "rep ns h < length ns" "nd_parent (ns ! rep ns h) = rep ns h" "rep ns (rep ns h) = rep ns h"
proof -
  have l: "leads ns h (rep ns h)" using leads_rep [OF assms(1)] assms(2) by simp
  show r: "rep ns h < length ns" "nd_parent (ns ! rep ns h) = rep ns h" using leads_root [OF l] by simp_all
  have "leads ns (rep ns h) (rep ns h)" using leads.root [OF r] .
  then show "rep ns (rep ns h) = rep ns h" using leads_rep [OF assms(1), of "rep ns h" "rep ns h"] by simp
qed

lemma uf_find_rep:
  assumes "uf_ok ns" "h < length ns"
  obtains ns' where "uf_find ns h = Ok (ns', rep ns h)" "compressed ns ns'"
  using uf_find_correct [OF assms] leads_rep [OF assms(1)] by auto

lemma compressed_rep:
  assumes "uf_ok ns" "compressed ns ns'" "h < length ns"
  shows "rep ns' h = rep ns h"
proof -
  have "leads ns h (rep ns h)" using leads_rep [OF assms(1)] assms(3) by simp
  then have "leads ns' h (rep ns h)" using assms(2) by (simp add: compressed_def)
  then show ?thesis using leads_rep [of ns'] assms(2) by (simp add: compressed_def)
qed

lemma compressed_trans: "compressed a b \<Longrightarrow> compressed b c \<Longrightarrow> compressed a c"
  unfolding compressed_def by metis

lemma compressed_refl: "uf_ok ns \<Longrightarrow> compressed ns ns"
  by (simp add: compressed_def)

lemma compressed_ok:
  assumes "compressed ns ns'"
  shows "uf_ok ns'" "length ns' = length ns"
  using assms strip_length [of ns' ns] by (simp_all add: compressed_def)

subsection \<open>Linking\<close>

lemma link_facts:
  assumes "uf_ok ns" "ra0 < length ns" "rb0 < length ns" "nd_parent (ns ! ra0) = ra0" "nd_parent (ns ! rb0) = rb0" "ra0 \<noteq> rb0"
  shows "\<exists>ra rb. {ra, rb} = {ra0, rb0} \<and> ra \<noteq> rb \<and> length (link_roots ns ra0 rb0) = length ns \<and> nd_rank (ns ! rb) \<le> nd_rank (ns ! ra) \<and>
    (\<forall>i < length ns. nd_parent (link_roots ns ra0 rb0 ! i) = (if i = rb then ra else nd_parent (ns ! i)) \<and>
      nd_rank (link_roots ns ra0 rb0 ! i) = (if i = ra \<and> nd_rank (ns ! ra) = nd_rank (ns ! rb) then Suc (nd_rank (ns ! ra)) else nd_rank (ns ! i)) \<and>
      nd_pinned (link_roots ns ra0 rb0 ! i) = (if i = ra then nd_pinned (ns ! ra) \<or> nd_pinned (ns ! rb) else nd_pinned (ns ! i)) \<and>
      nd_key (link_roots ns ra0 rb0 ! i) = nd_key (ns ! i) \<and> nd_len (link_roots ns ra0 rb0 ! i) = nd_len (ns ! i))"
proof (cases "nd_rank (ns ! ra0) < nd_rank (ns ! rb0)")
  case True
  then show ?thesis using assms by - (rule exI [of _ rb0], rule exI [of _ ra0], auto simp: link_roots_def nth_list_update Let_def)
next
  case False
  then show ?thesis using assms by - (rule exI [of _ ra0], rule exI [of _ rb0], auto simp: link_roots_def nth_list_update Let_def)
qed

lemma link_rep:
  assumes "uf_ok ns" "ra0 < length ns" "rb0 < length ns" "nd_parent (ns ! ra0) = ra0" "nd_parent (ns ! rb0) = rb0" "ra0 \<noteq> rb0"
  defines "ns' \<equiv> link_roots ns ra0 rb0"
  shows "uf_ok ns' \<and> length ns' = length ns \<and> (\<exists>ra \<in> {ra0, rb0}.
      (\<forall>x < length ns. rep ns' x = (if rep ns x \<in> {ra0, rb0} then ra else rep ns x)) \<and>
      (\<forall>i < length ns. nd_pinned (ns' ! i) = (if i = ra then nd_pinned (ns ! ra0) \<or> nd_pinned (ns ! rb0) else nd_pinned (ns ! i)) \<and>
         nd_key (ns' ! i) = nd_key (ns ! i) \<and> nd_len (ns' ! i) = nd_len (ns ! i)))"
proof -
  obtain ra rb where r: "{ra, rb} = {ra0, rb0}" "ra \<noteq> rb" "length ns' = length ns" "nd_rank (ns ! rb) \<le> nd_rank (ns ! ra)"
    and n: "\<And>i. i < length ns \<Longrightarrow> nd_parent (ns' ! i) = (if i = rb then ra else nd_parent (ns ! i)) \<and>
      nd_rank (ns' ! i) = (if i = ra \<and> nd_rank (ns ! ra) = nd_rank (ns ! rb) then Suc (nd_rank (ns ! ra)) else nd_rank (ns ! i)) \<and>
      nd_pinned (ns' ! i) = (if i = ra then nd_pinned (ns ! ra) \<or> nd_pinned (ns ! rb) else nd_pinned (ns ! i)) \<and>
      nd_key (ns' ! i) = nd_key (ns ! i) \<and> nd_len (ns' ! i) = nd_len (ns ! i)"
    using link_facts [OF assms(1-6)] unfolding ns'_def by blast
  have ab: "ra < length ns" "rb < length ns" "nd_parent (ns ! ra) = ra" "nd_parent (ns ! rb) = rb" using r(1) assms(2-5) by auto
  have ok: "uf_ok ns'" unfolding uf_ok_def r(3)
  proof (intro allI impI)
    fix i assume i: "i < length ns"
    have o: "nd_parent (ns ! i) < length ns" "nd_parent (ns ! i) \<noteq> i \<Longrightarrow> nd_rank (ns ! i) < nd_rank (ns ! nd_parent (ns ! i))"
      using assms(1) i by (auto simp: uf_ok_def)
    show "nd_parent (ns' ! i) < length ns \<and> (nd_parent (ns' ! i) \<noteq> i \<longrightarrow> nd_rank (ns' ! i) < nd_rank (ns' ! nd_parent (ns' ! i)))"
    proof (cases "i = rb")
      case True
      then show ?thesis using n [OF i] n [OF ab(1)] r(2,4) ab by auto
    next
      case False
      then show ?thesis using n [OF i] n [OF o(1)] o ab(3) by auto
    qed
  qed
  have lead: "leads ns' x (if s \<in> {ra, rb} then ra else s)" if "leads ns x s" for x s
    using that
  proof (induction rule: leads.induct)
    case (root x)
    have ra: "leads ns' ra ra" using n [OF ab(1)] ab r(2,3) by (intro leads.root) auto
    show ?case
    proof (cases "x = rb")
      case True
      then show ?thesis using leads.up [of x ns' ra] ra n [OF root(1)] root r(2,3) by simp
    next
      case False
      then show ?thesis using leads.root [of x ns'] n [OF root(1)] root r(3) by simp
    qed
  next
    case (up x s)
    then have "x \<noteq> rb" using ab by auto
    then show ?case using leads.up [of x ns' "if s \<in> {ra, rb} then ra else s"] n [OF up(1)] up r(3) by simp
  qed
  have "rep ns' x = (if rep ns x \<in> {ra0, rb0} then ra else rep ns x)" if x: "x < length ns" for x
    using lead [of x "rep ns x"] x unfolding leads_rep [OF ok] leads_rep [OF assms(1)] r(1) [symmetric] by simp
  moreover have "nd_pinned (ns ! ra) \<or> nd_pinned (ns ! rb) \<longleftrightarrow> nd_pinned (ns ! ra0) \<or> nd_pinned (ns ! rb0)" "ra \<in> {ra0, rb0}"
    using r(1) by (auto simp: doubleton_eq_iff)
  ultimately show ?thesis using ok r(3) n by (intro conjI bexI [of _ ra]) auto
qed

subsection \<open>The contract of the operations\<close>

definition pin_ok :: "Node list \<Rightarrow> bool" where
  "pin_ok ns \<longleftrightarrow> (\<forall>h < length ns. nd_pinned (ns ! h) \<longrightarrow> nd_pinned (ns ! rep ns h))"

definition index_ok :: "AxisUnionFind \<Rightarrow> bool" where
  "index_ok uf \<longleftrightarrow> (\<forall>k h. uf_index uf k = Some h \<longleftrightarrow> h < length (uf_nodes uf) \<and> nd_key (uf_nodes uf ! h) = k)"

definition uf_wf :: "AxisUnionFind \<Rightarrow> bool" where
  "uf_wf uf \<longleftrightarrow> uf_ok (uf_nodes uf) \<and> pin_ok (uf_nodes uf) \<and> index_ok uf"

definition uf_count :: "AxisUnionFind \<Rightarrow> nat" where
  "uf_count uf = length (uf_nodes uf)"

definition same_tree :: "AxisUnionFind \<Rightarrow> nat \<Rightarrow> nat \<Rightarrow> bool" where
  "same_tree uf x y \<longleftrightarrow> x < uf_count uf \<and> y < uf_count uf \<and> rep (uf_nodes uf) x = rep (uf_nodes uf) y"

definition tree_pinned :: "AxisUnionFind \<Rightarrow> nat \<Rightarrow> bool" where
  "tree_pinned uf x \<longleftrightarrow> x < uf_count uf \<and> nd_pinned (uf_nodes uf ! rep (uf_nodes uf) x)"

text \<open>
  A structure that groups numbered items: what \<open>unite\<close> joins, \<open>pin\<close> marks the whole group of its argument, \<open>add\<close> gives a known key its
  old number and a new key a group of its own.
\<close>

locale grouping =
  fixes ok :: "'s \<Rightarrow> bool" and count :: "'s \<Rightarrow> nat" and key :: "'s \<Rightarrow> nat \<Rightarrow> 'k" and same :: "'s \<Rightarrow> nat \<Rightarrow> nat \<Rightarrow> bool" and fixed :: "'s \<Rightarrow> nat \<Rightarrow> bool"
    and add :: "'s \<Rightarrow> 'k \<Rightarrow> 'l \<Rightarrow> 's \<times> nat" and unite :: "'s \<Rightarrow> nat \<Rightarrow> nat \<Rightarrow> 's res" and pin :: "'s \<Rightarrow> nat \<Rightarrow> 's res"
  assumes same_refl: "same s x x \<longleftrightarrow> x < count s"
    and same_sym: "same s x y \<Longrightarrow> same s y x"
    and same_trans: "same s x y \<Longrightarrow> same s y z \<Longrightarrow> same s x z"
    and fixed_bound: "fixed s x \<Longrightarrow> x < count s"
    and fixed_same: "fixed s x \<Longrightarrow> same s x y \<Longrightarrow> fixed s y"
    and add_law: "ok s \<Longrightarrow> add s k l = (s', h) \<Longrightarrow> ok s' \<and> count s \<le> count s' \<and> h < count s' \<and> key s' h = k \<and>
          (\<forall>x < count s. key s' x = key s x) \<and> (\<forall>x y. same s' x y \<longleftrightarrow> same s x y \<or> x = y \<and> count s \<le> x \<and> x < count s') \<and>
          (\<forall>x. fixed s' x \<longleftrightarrow> fixed s x)"
    and unite_law: "ok s \<Longrightarrow> a < count s \<Longrightarrow> b < count s \<Longrightarrow> \<exists>s'. unite s a b = Ok s' \<and> ok s' \<and> count s' = count s \<and> key s' = key s \<and>
          (\<forall>x y. same s' x y \<longleftrightarrow> same s x y \<or> same s x a \<and> same s b y \<or> same s x b \<and> same s a y) \<and>
          (\<forall>x. fixed s' x \<longleftrightarrow> fixed s x \<or> same s x a \<and> fixed s b \<or> same s x b \<and> fixed s a)"
    and pin_law: "ok s \<Longrightarrow> a < count s \<Longrightarrow> \<exists>s'. pin s a = Ok s' \<and> ok s' \<and> count s' = count s \<and> key s' = key s \<and>
          (\<forall>x y. same s' x y \<longleftrightarrow> same s x y) \<and> (\<forall>x. fixed s' x \<longleftrightarrow> fixed s x \<or> same s x a)"

datatype ('k, 'l) uf_op = OpAdd 'k 'l | OpUnite nat nat | OpPin nat

fun run_ops :: "('s \<Rightarrow> 'k \<Rightarrow> 'l \<Rightarrow> 's \<times> nat) \<Rightarrow> ('s \<Rightarrow> nat \<Rightarrow> nat \<Rightarrow> 's res) \<Rightarrow> ('s \<Rightarrow> nat \<Rightarrow> 's res) \<Rightarrow> ('k, 'l) uf_op list \<Rightarrow> 's \<Rightarrow> 's res" where
  "run_ops add unite pin [] s = Ok s"
| "run_ops add unite pin (OpAdd k l # ops) s = run_ops add unite pin ops (fst (add s k l))"
| "run_ops add unite pin (OpUnite a b # ops) s = SFS_TRY (unite s a b) (run_ops add unite pin ops)"
| "run_ops add unite pin (OpPin a # ops) s = SFS_TRY (pin s a) (run_ops add unite pin ops)"

text \<open>The handles an operation is given were handed out before it.\<close>

fun handles_known :: "('s \<Rightarrow> 'k \<Rightarrow> 'l \<Rightarrow> 's \<times> nat) \<Rightarrow> ('s \<Rightarrow> nat \<Rightarrow> nat \<Rightarrow> 's res) \<Rightarrow> ('s \<Rightarrow> nat \<Rightarrow> 's res) \<Rightarrow> ('s \<Rightarrow> nat) \<Rightarrow> ('k, 'l) uf_op list \<Rightarrow> 's \<Rightarrow> bool" where
  "handles_known add unite pin count [] s \<longleftrightarrow> True"
| "handles_known add unite pin count (OpAdd k l # ops) s \<longleftrightarrow> handles_known add unite pin count ops (fst (add s k l))"
| "handles_known add unite pin count (OpUnite a b # ops) s \<longleftrightarrow> a < count s \<and> b < count s \<and>
     (case unite s a b of Ok s' \<Rightarrow> handles_known add unite pin count ops s' | _ \<Rightarrow> True)"
| "handles_known add unite pin count (OpPin a # ops) s \<longleftrightarrow> a < count s \<and>
     (case pin s a of Ok s' \<Rightarrow> handles_known add unite pin count ops s' | _ \<Rightarrow> True)"

text \<open>What a sequence of operations has to achieve: items are together when a chain of united pairs connects them.\<close>

definition links :: "('k, 'l) uf_op list \<Rightarrow> (nat \<times> nat) set" where
  "links ops = {(a, b). OpUnite a b \<in> set ops \<or> OpUnite b a \<in> set ops}"

definition pins :: "('k, 'l) uf_op list \<Rightarrow> nat set" where
  "pins ops = {a. OpPin a \<in> set ops}"

lemma links_simps [simp]:
  "links [] = {}" "links (OpAdd k l # ops) = links ops" "links (OpPin a # ops) = links ops"
  "links (OpUnite a b # ops) = insert (a, b) (insert (b, a) (links ops))"
  by (auto simp: links_def)

lemma pins_simps [simp]:
  "pins [] = {}" "pins (OpAdd k l # ops) = pins ops" "pins (OpPin a # ops) = insert a (pins ops)" "pins (OpUnite a b # ops) = pins ops"
  by (auto simp: pins_def)

context grouping
begin

definition together :: "'s \<Rightarrow> ('k, 'l) uf_op list \<Rightarrow> (nat \<times> nat) set" where
  "together s ops = ({(x, y). same s x y} \<union> links ops)\<^sup>*"

lemma together_nil: "(x, y) \<in> together s [] \<Longrightarrow> x = y \<or> same s x y"
  unfolding together_def by (induction rule: rtrancl_induct) (auto intro: same_trans)

lemma same_together: "same s x y \<Longrightarrow> (x, y) \<in> together s ops"
  by (auto simp: together_def)

lemma together_trans: "(x, y) \<in> together s ops \<Longrightarrow> (y, z) \<in> together s ops \<Longrightarrow> (x, z) \<in> together s ops"
  by (simp add: together_def)

lemma together_add:
  assumes "ok s" "add s k l = (s', h)"
  shows "together s' ops = together s ops"
proof -
  have e: "same s' x y \<longleftrightarrow> same s x y \<or> x = y \<and> count s \<le> x \<and> x < count s'" for x y using add_law [OF assms] by blast
  show ?thesis unfolding together_def by (rule rtrancl_subset) (auto simp: e)
qed

lemma together_unite:
  assumes "a < count s" "b < count s" "\<And>x y. same s' x y \<longleftrightarrow> same s x y \<or> same s x a \<and> same s b y \<or> same s x b \<and> same s a y"
  shows "together s' ops = together s (OpUnite a b # ops)"
proof -
  have ab: "(a, b) \<in> together s (OpUnite a b # ops)" "(b, a) \<in> together s (OpUnite a b # ops)"
    unfolding together_def by (rule r_into_rtrancl, simp)+
  have "(x, y) \<in> together s (OpUnite a b # ops)" if "same s' x y" for x y
    using that assms(3) ab same_together together_trans by metis
  moreover have "links ops \<subseteq> together s (OpUnite a b # ops)" unfolding together_def by auto
  ultimately show ?thesis using assms same_refl unfolding together_def
    by (intro rtrancl_subset) auto
qed

text \<open>Everything the operations do, seen from a state: the relation they start from, closed under the united pairs.\<close>

lemma run_ops_groups:
  assumes "ok s" "handles_known add unite pin count ops s"
  shows "\<exists>s'. run_ops add unite pin ops s = Ok s' \<and> ok s' \<and> count s \<le> count s' \<and> (\<forall>x < count s. key s' x = key s x) \<and>
    (\<forall>x y. same s' x y \<longleftrightarrow> x < count s' \<and> y < count s' \<and> (x, y) \<in> together s ops) \<and>
    (\<forall>x. fixed s' x \<longleftrightarrow> x < count s' \<and> (\<exists>p. (fixed s p \<or> p \<in> pins ops) \<and> (x, p) \<in> together s ops))"
  using assms
proof (induction ops arbitrary: s)
  case Nil
  have c1: "same s x y \<longleftrightarrow> x < count s \<and> y < count s \<and> (x, y) \<in> together s []" for x y
    using together_nil [of x y s] same_together [of s x y] same_refl same_sym same_trans by metis
  have "fixed s x \<longleftrightarrow> x < count s \<and> (\<exists>p. fixed s p \<and> (x, p) \<in> together s [])" for x
    using together_nil [of x _ s] same_together [of s x x] same_refl same_sym fixed_same fixed_bound by metis
  note f = this
  have c2: "fixed s x \<longleftrightarrow> x < count s \<and> (\<exists>p. (fixed s p \<or> p \<in> pins []) \<and> (x, p) \<in> together s [])" for x
    unfolding pins_simps empty_iff simp_thms by (rule f)
  show ?case by (intro exI [of _ s] conjI allI impI c1 c2) (simp_all add: Nil(1))
next
  case (Cons op ops)
  show ?case
  proof (cases op)
    case (OpAdd k l)
    obtain s1 h where a: "add s k l = (s1, h)" by (cases "add s k l")
    note law = add_law [OF Cons(2) a]
    have fx: "fixed s1 = fixed s" using law by auto
    obtain s' where s': "run_ops add unite pin ops s1 = Ok s'" "ok s'" "count s1 \<le> count s'" "\<forall>x < count s1. key s' x = key s1 x"
      "\<forall>x y. same s' x y \<longleftrightarrow> x < count s' \<and> y < count s' \<and> (x, y) \<in> together s1 ops"
      "\<forall>x. fixed s' x \<longleftrightarrow> x < count s' \<and> (\<exists>p. (fixed s1 p \<or> p \<in> pins ops) \<and> (x, p) \<in> together s1 ops)"
      using Cons(1) [of s1] law Cons(3) OpAdd a by auto
    have t: "together s1 ops = together s (op # ops)" unfolding together_add [OF Cons(2) a] OpAdd by (simp add: together_def)
    show ?thesis using s' law unfolding t fx by (intro exI [of _ s']) (auto simp: OpAdd a)
  next
    case (OpUnite a b)
    then have ab: "a < count s" "b < count s" using Cons(3) by auto
    obtain s1 where s1: "unite s a b = Ok s1" "ok s1" "count s1 = count s" "key s1 = key s"
      "\<And>x y. same s1 x y \<longleftrightarrow> same s x y \<or> same s x a \<and> same s b y \<or> same s x b \<and> same s a y"
      "\<And>x. fixed s1 x \<longleftrightarrow> fixed s x \<or> same s x a \<and> fixed s b \<or> same s x b \<and> fixed s a" using unite_law [OF Cons(2) ab] by blast
    obtain s' where s': "run_ops add unite pin ops s1 = Ok s'" "ok s'" "count s1 \<le> count s'" "\<forall>x < count s1. key s' x = key s1 x"
      "\<forall>x y. same s' x y \<longleftrightarrow> x < count s' \<and> y < count s' \<and> (x, y) \<in> together s1 ops"
      "\<forall>x. fixed s' x \<longleftrightarrow> x < count s' \<and> (\<exists>p. (fixed s1 p \<or> p \<in> pins ops) \<and> (x, p) \<in> together s1 ops)"
      using Cons(1) [of s1] s1(1,2) Cons(3) OpUnite by auto
    have t: "together s1 ops = together s (op # ops)" unfolding OpUnite by (rule together_unite [OF ab s1(5)])
    have reach: "\<exists>q. fixed s q \<and> (p, q) \<in> together s1 ops" if f: "fixed s1 p" for p
    proof -
      consider "fixed s p" | "same s p a" "fixed s b" | "same s p b" "fixed s a" using s1(6) f by blast
      then show ?thesis
      proof cases
        case 1
        then show ?thesis by (auto simp: together_def)
      next
        case 2
        then have "same s1 p b" using s1(5) same_refl ab(2) by blast
        then show ?thesis using same_together 2 by blast
      next
        case 3
        then have "same s1 p a" using s1(5) same_refl ab(1) by blast
        then show ?thesis using same_together 3 by blast
      qed
    qed
    have "(\<exists>p. (fixed s1 p \<or> p \<in> pins ops) \<and> (x, p) \<in> together s1 ops) \<longleftrightarrow> (\<exists>p. (fixed s p \<or> p \<in> pins ops) \<and> (x, p) \<in> together s1 ops)" for x
      using reach together_trans [of x _ s1 ops] s1(6) by blast
    then show ?thesis using s' s1(1-4) unfolding t by (intro exI [of _ s']) (auto simp: OpUnite)
  next
    case (OpPin a)
    then have ab: "a < count s" using Cons(3) by auto
    obtain s1 where s1: "pin s a = Ok s1" "ok s1" "count s1 = count s" "key s1 = key s"
      "\<And>x y. same s1 x y \<longleftrightarrow> same s x y" "\<And>x. fixed s1 x \<longleftrightarrow> fixed s x \<or> same s x a" using pin_law [OF Cons(2) ab] by blast
    obtain s' where s': "run_ops add unite pin ops s1 = Ok s'" "ok s'" "count s1 \<le> count s'" "\<forall>x < count s1. key s' x = key s1 x"
      "\<forall>x y. same s' x y \<longleftrightarrow> x < count s' \<and> y < count s' \<and> (x, y) \<in> together s1 ops"
      "\<forall>x. fixed s' x \<longleftrightarrow> x < count s' \<and> (\<exists>p. (fixed s1 p \<or> p \<in> pins ops) \<and> (x, p) \<in> together s1 ops)"
      using Cons(1) [of s1] s1(1,2) Cons(3) OpPin by auto
    have t: "together s1 ops = together s (op # ops)" unfolding OpPin by (simp add: together_def s1(5))
    have "(\<exists>p. (fixed s1 p \<or> p \<in> pins ops) \<and> (x, p) \<in> together s1 ops) \<longleftrightarrow> (\<exists>p. (fixed s p \<or> p \<in> insert a (pins ops)) \<and> (x, p) \<in> together s1 ops)" for x
      using s1(6) same_together [of s1 _ _ ops] together_trans [of x _ s1 ops] same_refl ab s1(5) by (metis insert_iff)
    then show ?thesis using s' s1(1-4) unfolding t by (intro exI [of _ s']) (auto simp: OpPin)
  qed
qed

end

definition node_key :: "AxisUnionFind \<Rightarrow> nat \<Rightarrow> AxisKey" where
  "node_key uf x = (if x < uf_count uf then nd_key (uf_nodes uf ! x) else AxisKey [] 0)"

lemma add_law_uf:
  assumes "uf_wf uf" "uf_add uf k l = (uf', h)"
  shows "uf_wf uf' \<and> uf_count uf \<le> uf_count uf' \<and> h < uf_count uf' \<and> node_key uf' h = k \<and>
    (\<forall>x < uf_count uf. node_key uf' x = node_key uf x) \<and>
    (\<forall>x y. same_tree uf' x y \<longleftrightarrow> same_tree uf x y \<or> x = y \<and> uf_count uf \<le> x \<and> x < uf_count uf') \<and> (\<forall>x. tree_pinned uf' x \<longleftrightarrow> tree_pinned uf x)"
proof (cases "uf_index uf k")
  case (Some i)
  then show ?thesis using assms by (auto simp: uf_add_def uf_wf_def index_ok_def node_key_def uf_count_def)
next
  case None
  define ns where "ns = uf_nodes uf"
  define n where "n = length ns"
  define new where "new = \<lparr>nd_key = k, nd_len = l, nd_parent = n, nd_rank = 0, nd_pinned = False\<rparr>"
  have uf': "uf' = \<lparr>uf_nodes = ns @ [new], uf_index = (uf_index uf)(k \<mapsto> n)\<rparr>" and h: "h = n"
    using assms(2) None by (auto simp: uf_add_def Let_def ns_def n_def new_def)
  have wf: "uf_ok ns" "pin_ok ns" "index_ok uf" using assms(1) by (auto simp: uf_wf_def ns_def)
  have nth: "(ns @ [new]) ! i = (if i < n then ns ! i else new)" if "i < Suc n" for i using that by (auto simp: nth_append n_def)
  have ok: "uf_ok (ns @ [new])" using wf(1) by (auto simp: uf_ok_def nth_append new_def n_def less_Suc_eq)
  have lead: "leads (ns @ [new]) x r" if "leads ns x r" for x r
    using that
  proof (induction rule: leads.induct)
    case (root x)
    then show ?case using leads.root [of x "ns @ [new]"] by (simp add: nth_append)
  next
    case (up x r)
    then show ?case using leads.up [of x "ns @ [new]" r] by (simp add: nth_append)
  qed
  have old: "rep (ns @ [new]) x = rep ns x" if "x < n" for x
    using lead [of x "rep ns x"] that unfolding leads_rep [OF ok] leads_rep [OF wf(1)] by (simp add: n_def)
  have newrep: "rep (ns @ [new]) n = n"
    using leads.root [of n "ns @ [new]"] unfolding leads_rep [OF ok] by (simp add: n_def new_def nth_append)
  have bound: "rep ns x < n" if "x < n" for x using rep_bound(1) [OF wf(1)] that by (simp add: n_def)
  have pin: "pin_ok (ns @ [new])" unfolding pin_ok_def
  proof (intro allI impI)
    fix x assume x: "x < length (ns @ [new])" and p: "nd_pinned ((ns @ [new]) ! x)"
    then have x: "x < n" using p by (auto simp: nth_append new_def n_def less_Suc_eq split: if_splits)
    then show "nd_pinned ((ns @ [new]) ! rep (ns @ [new]) x)" using wf(2) p bound [OF x] by (simp add: old nth pin_ok_def n_def nth_append)
  qed
  have idx: "index_ok uf'" unfolding index_ok_def
  proof (intro allI)
    fix k' h'
    have o: "uf_index uf k' = Some h' \<longleftrightarrow> h' < n \<and> nd_key (ns ! h') = k'" for k' h' using wf(3) by (auto simp: index_ok_def ns_def n_def)
    have "nd_key (ns ! i) \<noteq> k" if "i < n" for i using o [of k i] None that by auto
    then show "uf_index uf' k' = Some h' \<longleftrightarrow> h' < length (uf_nodes uf') \<and> nd_key (uf_nodes uf' ! h') = k'"
      using o [of k' h'] by (auto simp: uf' nth_append new_def n_def less_Suc_eq)
  qed
  have nodes': "uf_nodes uf' = ns @ [new]" "uf_nodes uf = ns" by (simp_all add: uf' ns_def)
  have cnt: "uf_count uf' = Suc n" "uf_count uf = n" by (auto simp: uf_count_def uf' n_def ns_def)
  have st: "same_tree uf' x y \<longleftrightarrow> same_tree uf x y \<or> x = y \<and> uf_count uf \<le> x \<and> x < uf_count uf'" for x y
    unfolding same_tree_def cnt nodes' using old [of x] old [of y] newrep bound [of x] bound [of y]
    by (cases "x < n"; cases "y < n") (auto simp: less_Suc_eq)
  have pn: "tree_pinned uf' x \<longleftrightarrow> tree_pinned uf x" for x
  proof -
    have "nd_pinned ((ns @ [new]) ! i) \<longleftrightarrow> i < n \<and> nd_pinned (ns ! i)" if "i < Suc n" for i using nth [OF that] by (simp add: new_def)
    then show ?thesis
      unfolding tree_pinned_def cnt nodes' using old [of x] newrep bound [of x] by (cases "x < n") (auto simp: less_Suc_eq)
  qed
  have "uf_wf uf'" using ok pin idx by (simp add: uf_wf_def nodes')
  moreover have "node_key uf' h = k" "\<forall>x < uf_count uf. node_key uf' x = node_key uf x"
    using nth [of n] by (auto simp: node_key_def cnt nodes' nth h) (simp add: new_def)
  ultimately show ?thesis using st pn h cnt by auto
qed

lemma find_state:
  assumes "uf_wf uf" "h < uf_count uf"
  obtains ns' where "uf_find (uf_nodes uf) h = Ok (ns', rep (uf_nodes uf) h)" "compressed (uf_nodes uf) ns'" "uf_ok ns'" "length ns' = uf_count uf"
    "\<And>x. x < uf_count uf \<Longrightarrow> rep ns' x = rep (uf_nodes uf) x"
    "\<And>x. x < uf_count uf \<Longrightarrow> nd_pinned (ns' ! x) = nd_pinned (uf_nodes uf ! x) \<and> nd_key (ns' ! x) = nd_key (uf_nodes uf ! x)"
proof -
  have ok: "uf_ok (uf_nodes uf)" using assms(1) by (simp add: uf_wf_def)
  obtain ns' where f: "uf_find (uf_nodes uf) h = Ok (ns', rep (uf_nodes uf) h)" "compressed (uf_nodes uf) ns'"
    using uf_find_rep [OF ok] assms(2) unfolding uf_count_def by metis
  have st: "strip ns' = strip (uf_nodes uf)" using f(2) by (simp add: compressed_def)
  show thesis
    by (rule that [OF f]) (use compressed_ok [OF f(2)] compressed_rep [OF ok f(2)] strip_nth [OF st] in \<open>auto simp: uf_count_def\<close>)
qed

lemma index_ok_nodes:
  assumes "index_ok uf" "length ns = uf_count uf" "\<And>x. x < uf_count uf \<Longrightarrow> nd_key (ns ! x) = nd_key (uf_nodes uf ! x)"
  shows "index_ok (uf\<lparr>uf_nodes := ns\<rparr>)" "node_key (uf\<lparr>uf_nodes := ns\<rparr>) = node_key uf" "uf_count (uf\<lparr>uf_nodes := ns\<rparr>) = uf_count uf"
  using assms by (auto simp: index_ok_def node_key_def uf_count_def fun_eq_iff)

lemma pin_law_uf:
  assumes "uf_wf uf" "a < uf_count uf"
  shows "\<exists>uf'. uf_pin uf a = Ok uf' \<and> uf_wf uf' \<and> uf_count uf' = uf_count uf \<and> node_key uf' = node_key uf \<and>
    (\<forall>x y. same_tree uf' x y \<longleftrightarrow> same_tree uf x y) \<and> (\<forall>x. tree_pinned uf' x \<longleftrightarrow> tree_pinned uf x \<or> same_tree uf x a)"
proof -
  define n where "n = uf_count uf"
  define ns where "ns = uf_nodes uf"
  have wf: "uf_ok ns" "pin_ok ns" "index_ok uf" "length ns = n" using assms(1) by (auto simp: uf_wf_def ns_def n_def uf_count_def)
  obtain ns1 where f: "uf_find ns a = Ok (ns1, rep ns a)" "uf_ok ns1" "length ns1 = n" "\<And>x. x < n \<Longrightarrow> rep ns1 x = rep ns x"
    "\<And>x. x < n \<Longrightarrow> nd_pinned (ns1 ! x) = nd_pinned (ns ! x) \<and> nd_key (ns1 ! x) = nd_key (ns ! x)"
    using find_state [OF assms] unfolding n_def ns_def by metis
  define r where "r = rep ns a"
  define ns2 where "ns2 = ns1[r := (ns1 ! r)\<lparr>nd_pinned := True\<rparr>]"
  have r: "r < n" "rep ns r = r" using rep_bound [OF wf(1)] assms(2) wf(4) by (simp_all add: r_def n_def)
  have nth: "nd_parent (ns2 ! i) = nd_parent (ns1 ! i)" "nd_rank (ns2 ! i) = nd_rank (ns1 ! i)" "nd_key (ns2 ! i) = nd_key (ns1 ! i)"
    "nd_pinned (ns2 ! i) = (i = r \<or> nd_pinned (ns1 ! i))" if "i < n" for i
    using that f(3) r(1) by (auto simp: ns2_def nth_list_update)
  have len: "length ns2 = n" using f(3) by (simp add: ns2_def)
  have ok: "uf_ok ns2" unfolding uf_ok_def len
  proof (intro allI impI)
    fix i assume i: "i < n"
    then have "nd_parent (ns1 ! i) < n" using f(2,3) by (auto simp: uf_ok_def)
    then show "nd_parent (ns2 ! i) < n \<and> (nd_parent (ns2 ! i) \<noteq> i \<longrightarrow> nd_rank (ns2 ! i) < nd_rank (ns2 ! nd_parent (ns2 ! i)))"
      using f(2,3) i by (simp add: nth uf_ok_def)
  qed
  have "leads ns2 x s" if "leads ns1 x s" for x s
    using that
  proof (induction rule: leads.induct)
    case (root x)
    then show ?case using leads.root [of x ns2] nth(1) [of x] f(3) len by simp
  next
    case (up x s)
    then show ?case using leads.up [of x ns2 s] nth(1) [of x] f(3) len by simp
  qed
  then have "leads ns2 = leads ns1" using leads_eqI [OF f(2)] len f(3) by simp
  then have rp: "rep ns2 x = rep ns x" if "x < n" for x using leads_rep [OF ok] leads_rep [OF f(2)] f(3,4) that len by (metis (full_types))
  have bound: "rep ns x < n" if "x < n" for x using rep_bound(1) [OF wf(1)] that wf(4) by simp
  have pin: "pin_ok ns2" unfolding pin_ok_def len using wf(2) r by (auto simp: nth f(5) rp bound pin_ok_def wf(4))
  define uf' where "uf' = uf\<lparr>uf_nodes := ns2\<rparr>"
  have nodes: "uf_nodes uf' = ns2" by (simp add: uf'_def)
  have cnt: "uf_count uf' = n" using len by (simp add: uf_count_def nodes)
  note idx = index_ok_nodes [OF wf(3), of ns2, folded uf'_def n_def, OF len]
  have keys: "nd_key (ns2 ! x) = nd_key (uf_nodes uf ! x)" if "x < n" for x using nth(3) [OF that] f(5) [OF that] by (simp add: ns_def)
  have wf': "uf_wf uf'" using ok pin idx(1) [OF keys] by (simp add: uf_wf_def nodes)
  have "uf_pin uf a = Ok uf'" using f(1) by (simp add: uf_pin_def ns_def r_def ns2_def uf'_def)
  moreover have "same_tree uf' x y \<longleftrightarrow> same_tree uf x y" for x y
    unfolding same_tree_def cnt n_def [symmetric] nodes using rp by (auto simp: ns_def)
  moreover have "tree_pinned uf' x \<longleftrightarrow> tree_pinned uf x \<or> same_tree uf x a" for x
    unfolding tree_pinned_def same_tree_def cnt n_def [symmetric] nodes ns_def [symmetric] r_def [symmetric]
    using rp [of x] bound [of x] assms(2) by (auto simp: nth f(5) n_def)
  ultimately show ?thesis using wf' idx(2) [OF keys] cnt by (auto simp: n_def)
qed

lemma unite_law_uf:
  assumes "uf_wf uf" "a < uf_count uf" "b < uf_count uf"
  shows "\<exists>uf'. uf_unite uf a b = Ok uf' \<and> uf_wf uf' \<and> uf_count uf' = uf_count uf \<and> node_key uf' = node_key uf \<and>
    (\<forall>x y. same_tree uf' x y \<longleftrightarrow> same_tree uf x y \<or> same_tree uf x a \<and> same_tree uf b y \<or> same_tree uf x b \<and> same_tree uf a y) \<and>
    (\<forall>x. tree_pinned uf' x \<longleftrightarrow> tree_pinned uf x \<or> same_tree uf x a \<and> tree_pinned uf b \<or> same_tree uf x b \<and> tree_pinned uf a)"
proof -
  define n where "n = uf_count uf"
  define ns where "ns = uf_nodes uf"
  have wf: "uf_ok ns" "pin_ok ns" "index_ok uf" "length ns = n" using assms(1) by (auto simp: uf_wf_def ns_def n_def uf_count_def)
  have ab: "a < n" "b < n" using assms(2,3) by (simp_all add: n_def)
  obtain ns1 where f1: "uf_find ns a = Ok (ns1, rep ns a)" "compressed ns ns1" using uf_find_rep [OF wf(1)] ab(1) wf(4) by metis
  note c1 = compressed_ok [OF f1(2)]
  obtain ns2 where f2: "uf_find ns1 b = Ok (ns2, rep ns1 b)" "compressed ns1 ns2" using uf_find_rep [OF c1(1)] ab(2) wf(4) c1(2) by metis
  have c: "compressed ns ns2" by (rule compressed_trans [OF f1(2) f2(2)])
  note ok2 = compressed_ok [OF c]
  have rp: "rep ns2 x = rep ns x" if "x < n" for x using compressed_rep [OF wf(1) c] that wf(4) by simp
  have rb: "rep ns1 b = rep ns b" using compressed_rep [OF wf(1) f1(2)] ab(2) wf(4) by simp
  have st: "strip ns2 = strip ns" using c by (simp add: compressed_def)
  have pk: "nd_pinned (ns2 ! x) = nd_pinned (ns ! x)" "nd_key (ns2 ! x) = nd_key (ns ! x)" if "x < n" for x
    using strip_nth [OF st] that wf(4) by simp_all
  have bound: "rep ns x < n" if "x < n" for x using rep_bound(1) [OF wf(1)] that wf(4) by simp
  have len2: "length ns2 = n" using ok2(2) wf(4) by simp
  define ns3 where "ns3 = (if rep ns a = rep ns b then ns2 else link_roots ns2 (rep ns a) (rep ns b))"
  have run: "uf_unite uf a b = Ok (uf\<lparr>uf_nodes := ns3\<rparr>)" using f1(1) f2(1) by (simp add: uf_unite_def ns_def ns3_def rb [unfolded ns_def])
  have facts: "uf_ok ns3 \<and> length ns3 = n \<and> (\<exists>w \<in> {rep ns a, rep ns b}.
      (\<forall>x < n. rep ns3 x = (if rep ns x \<in> {rep ns a, rep ns b} then w else rep ns x)) \<and>
      (\<forall>i < n. nd_pinned (ns3 ! i) = (if i = w then nd_pinned (ns ! rep ns a) \<or> nd_pinned (ns ! rep ns b) else nd_pinned (ns ! i)) \<and>
         nd_key (ns3 ! i) = nd_key (ns ! i)))"
  proof (cases "rep ns a = rep ns b")
    case True
    then show ?thesis using ok2(1) len2 rp pk by (auto simp: ns3_def)
  next
    case False
    have "nd_parent (ns2 ! rep ns x) = rep ns x" if "x < n" for x
      using rep_bound(2) [OF ok2(1), of x] that len2 rp by simp
    then have L: "uf_ok ns3 \<and> length ns3 = n \<and> (\<exists>w \<in> {rep ns a, rep ns b}.
        (\<forall>x < n. rep ns3 x = (if rep ns2 x \<in> {rep ns a, rep ns b} then w else rep ns2 x)) \<and>
        (\<forall>i < n. nd_pinned (ns3 ! i) = (if i = w then nd_pinned (ns2 ! rep ns a) \<or> nd_pinned (ns2 ! rep ns b) else nd_pinned (ns2 ! i)) \<and>
           nd_key (ns3 ! i) = nd_key (ns2 ! i) \<and> nd_len (ns3 ! i) = nd_len (ns2 ! i)))"
      using link_rep [OF ok2(1), of "rep ns a" "rep ns b", unfolded len2] False bound ab by (simp add: ns3_def)
    have "nd_pinned (ns2 ! rep ns a) = nd_pinned (ns ! rep ns a)" "nd_pinned (ns2 ! rep ns b) = nd_pinned (ns ! rep ns b)"
      using pk(1) bound ab by auto
    with L show ?thesis using rp pk by (elim conjE bexE) (intro conjI bexI, auto)
  qed
  then obtain w where ok3: "uf_ok ns3" "length ns3 = n" and w: "w \<in> {rep ns a, rep ns b}"
    and r3: "\<And>x. x < n \<Longrightarrow> rep ns3 x = (if rep ns x \<in> {rep ns a, rep ns b} then w else rep ns x)"
    and p3: "\<And>i. i < n \<Longrightarrow> nd_pinned (ns3 ! i) = (if i = w then nd_pinned (ns ! rep ns a) \<or> nd_pinned (ns ! rep ns b) else nd_pinned (ns ! i)) \<and>
         nd_key (ns3 ! i) = nd_key (ns ! i)" by blast
  have wn: "w < n" using w bound ab by auto
  define uf' where "uf' = uf\<lparr>uf_nodes := ns3\<rparr>"
  have nodes: "uf_nodes uf' = ns3" by (simp add: uf'_def)
  have cnt: "uf_count uf' = n" using ok3(2) by (simp add: uf_count_def nodes)
  have rootpin: "nd_pinned (ns3 ! rep ns3 x) \<longleftrightarrow> (if rep ns x \<in> {rep ns a, rep ns b} then nd_pinned (ns ! rep ns a) \<or> nd_pinned (ns ! rep ns b)
      else nd_pinned (ns ! rep ns x))" if "x < n" for x
    using r3 [OF that] p3 [OF wn] p3 [OF bound [OF that]] w by auto
  have "pin_ok ns3" unfolding pin_ok_def ok3(2)
  proof (intro allI impI)
    fix x assume x: "x < n" and p: "nd_pinned (ns3 ! x)"
    have o: "nd_pinned (ns ! y) \<Longrightarrow> nd_pinned (ns ! rep ns y)" if "y < n" for y using wf(2,4) that by (simp add: pin_ok_def)
    have rw: "rep ns w = w" using w rep_bound(3) [OF wf(1)] ab wf(4) by auto
    show "nd_pinned (ns3 ! rep ns3 x)" using p p3 [OF x] o [OF x] rootpin [OF x] w rw by (auto split: if_splits)
  qed
  moreover have keys: "nd_key (ns3 ! x) = nd_key (uf_nodes uf ! x)" if "x < uf_count uf" for x using p3 that by (simp add: ns_def n_def)
  note idx = index_ok_nodes [OF wf(3) _ keys, folded uf'_def]
  ultimately have wf': "uf_wf uf'" "node_key uf' = node_key uf" using ok3 idx(1,2) by (simp_all add: uf_wf_def nodes n_def)
  moreover have "same_tree uf' x y \<longleftrightarrow> same_tree uf x y \<or> same_tree uf x a \<and> same_tree uf b y \<or> same_tree uf x b \<and> same_tree uf a y" for x y
    unfolding same_tree_def cnt n_def [symmetric] nodes ns_def [symmetric] using r3 [of x] r3 [of y] w ab by (auto split: if_splits)
  moreover have "tree_pinned uf' x \<longleftrightarrow> tree_pinned uf x \<or> same_tree uf x a \<and> tree_pinned uf b \<or> same_tree uf x b \<and> tree_pinned uf a" for x
    unfolding same_tree_def tree_pinned_def cnt n_def [symmetric] nodes ns_def [symmetric] using rootpin [of x] ab by (auto split: if_splits)
  ultimately show ?thesis using run cnt by (auto simp: uf'_def n_def)
qed

interpretation axes: grouping uf_wf uf_count node_key same_tree tree_pinned uf_add uf_unite uf_pin
proof (unfold_locales, goal_cases)
  case (6 s k l s' h)
  then show ?case by (rule add_law_uf)
next
  case (7 s a b)
  then show ?case by (rule unite_law_uf)
next
  case (8 s a)
  then show ?case by (rule pin_law_uf)
qed (auto simp: same_tree_def tree_pinned_def)

subsection \<open>From trees to groups\<close>

lemma find_all_correct:
  assumes "uf_ok ns" "\<forall>i \<in> set is. i < length ns"
  shows "\<exists>ns'. find_all ns is = Ok (ns', map (rep ns) is) \<and> compressed ns ns'"
  using assms
proof (induction "is" arbitrary: ns)
  case Nil
  then show ?case by (simp add: compressed_refl)
next
  case (Cons i "is")
  obtain ns1 where f: "uf_find ns i = Ok (ns1, rep ns i)" "compressed ns ns1" using uf_find_rep [OF Cons(2)] Cons(3) by auto
  note c = compressed_ok [OF f(2)]
  obtain ns' where r: "find_all ns1 is = Ok (ns', map (rep ns1) is)" "compressed ns1 ns'" using Cons(1) [OF c(1)] Cons(3) c(2) by auto
  have "map (rep ns1) is = map (rep ns) is" using compressed_rep [OF Cons(2) f(2)] Cons(3) by simp
  then show ?case using f r compressed_trans [OF f(2) r(2)] by simp
qed

definition has_axis :: "(string \<times> AxisBinding list) list \<Rightarrow> string \<Rightarrow> AxisBinding \<Rightarrow> bool" where
  "has_axis tensors t b \<longleftrightarrow> (\<exists>axes. map_of tensors t = Some axes \<and> b \<in> set axes)"

lemma map_of_extend: "map_of (map (\<lambda>(u, bs). (u, if u = t then bs @ [b] else bs)) ts) u = map_option (\<lambda>bs. if u = t then bs @ [b] else bs) (map_of ts u)"
  by (induction ts) auto

lemma has_axis_push: "has_axis (push_axis t b ts) u c \<longleftrightarrow> has_axis ts u c \<or> u = t \<and> c = b"
  by (auto simp: has_axis_def push_axis_def map_of_extend map_add_def split: option.splits if_splits)

definition axis_for :: "Node list \<Rightarrow> string \<Rightarrow> PermGroup \<Rightarrow> nat \<Rightarrow> AxisBinding" where
  "axis_for ns gname g i = \<lparr>ax_dim = ak_dim (nd_key (ns ! i)), ax_group = gname, ax_block = ucast (nd_len (ns ! i) div ucast (pg_size g))\<rparr>"

definition divides_axis :: "Node list \<Rightarrow> PermGroup \<Rightarrow> nat \<Rightarrow> bool" where
  "divides_axis ns g i \<longleftrightarrow> pg_size g \<noteq> 0 \<and> nd_len (ns ! i) mod ucast (pg_size g) = 0"

lemma ucast_ucast_id_u32: "ucast (ucast (w :: u32) :: u64) = w"
  by (simp add: ucast_up_ucast_id is_up)

lemma bind_axes_correct:
  assumes "uf_ok ns" "\<And>i. i \<in> set is \<Longrightarrow> i < length ns \<and> map_of names (rep ns i) = Some (nm i) \<and> map_of groups (nm i) = Some (g i)"
  shows "(if \<forall>i \<in> set is. divides_axis ns (g i) i
      then \<exists>ts. bind_axes groups names ns is tensors = Ok ts \<and>
        (\<forall>t b. has_axis ts t b \<longleftrightarrow> has_axis tensors t b \<or> (\<exists>i \<in> set is. t = ak_tensor (nd_key (ns ! i)) \<and> b = axis_for ns (nm i) (g i) i))
      else \<exists>c. bind_axes groups names ns is tensors = SFS_ERR BlockFactorMismatch c)"
  using assms
proof (induction "is" arbitrary: ns tensors)
  case Nil
  then show ?case by simp
next
  case (Cons i "is")
  have i: "i < length ns" "map_of names (rep ns i) = Some (nm i)" "map_of groups (nm i) = Some (g i)" using Cons(3) by auto
  obtain ns1 where f: "uf_find ns i = Ok (ns1, rep ns i)" "compressed ns ns1" using uf_find_rep [OF Cons(2) i(1)] by metis
  note c = compressed_ok [OF f(2)]
  have st: "strip ns1 = strip ns" using f(2) by (simp add: compressed_def)
  have keep: "nd_key (ns1 ! j) = nd_key (ns ! j)" "nd_len (ns1 ! j) = nd_len (ns ! j)" if "j < length ns" for j
    using strip_nth [OF st that] by simp_all
  have eq: "divides_axis ns1 (g j) j = divides_axis ns (g j) j" "axis_for ns1 (nm j) (g j) j = axis_for ns (nm j) (g j) j"
    "nd_key (ns1 ! j) = nd_key (ns ! j)" if "j \<in> set (i # is)" for j
    using keep [of j] Cons(3) [OF that] by (simp_all add: divides_axis_def axis_for_def)
  have z: "(ucast (pg_size (g i)) :: u64) = 0 \<longleftrightarrow> pg_size (g i) = 0" by (metis ucast_0 ucast_ucast_id_u32)
  show ?case
  proof (cases "divides_axis ns (g i) i")
    case False
    then have "\<exists>c. bind_axes groups names ns (i # is) tensors = SFS_ERR BlockFactorMismatch c"
      using f(1) i keep [OF i(1)] by (auto simp: divides_axis_def Let_def z)
    then show ?thesis using False by auto
  next
    case True
    let ?ts = "push_axis (ak_tensor (nd_key (ns ! i))) (axis_for ns (nm i) (g i) i) tensors"
    have step: "bind_axes groups names ns (i # is) tensors = bind_axes groups names ns1 is ?ts"
      using True f(1) i keep [OF i(1)] by (auto simp: divides_axis_def axis_for_def Let_def z)
    have ih: "if \<forall>j \<in> set is. divides_axis ns1 (g j) j
      then \<exists>ts. bind_axes groups names ns1 is ?ts = Ok ts \<and>
        (\<forall>t b. has_axis ts t b \<longleftrightarrow> has_axis ?ts t b \<or> (\<exists>j \<in> set is. t = ak_tensor (nd_key (ns1 ! j)) \<and> b = axis_for ns1 (nm j) (g j) j))
      else \<exists>c. bind_axes groups names ns1 is ?ts = SFS_ERR BlockFactorMismatch c"
      using Cons(3) compressed_rep [OF Cons(2) f(2)] c(2) by (intro Cons(1) [OF c(1)]) auto
    have all: "(\<forall>j \<in> set is. divides_axis ns1 (g j) j) \<longleftrightarrow> (\<forall>j \<in> set (i # is). divides_axis ns (g j) j)" using eq(1) True by auto
    show ?thesis
    proof (cases "\<forall>j \<in> set (i # is). divides_axis ns (g j) j")
      case A: True
      then obtain ts where ts: "bind_axes groups names ns1 is ?ts = Ok ts"
        "\<And>t b. has_axis ts t b \<longleftrightarrow> has_axis ?ts t b \<or> (\<exists>j \<in> set is. t = ak_tensor (nd_key (ns1 ! j)) \<and> b = axis_for ns1 (nm j) (g j) j)"
        using ih all by auto
      have "has_axis ts t b \<longleftrightarrow> has_axis tensors t b \<or> (\<exists>j \<in> set (i # is). t = ak_tensor (nd_key (ns ! j)) \<and> b = axis_for ns (nm j) (g j) j)" for t b
        unfolding ts(2) has_axis_push using eq(2,3) by auto
      then show ?thesis using A ts(1) step by auto
    next
      case A: False
      then show ?thesis using ih all step by auto
    qed
  qed
qed

definition orders :: "(nat list \<Rightarrow> nat list) \<Rightarrow> bool" where
  "orders order \<longleftrightarrow> (\<forall>xs. distinct xs \<longrightarrow> distinct (order xs) \<and> set (order xs) = set xs)"

lemma group_name_inj: "group_name k = group_name j \<longleftrightarrow> k = j"
  using dec_string_inj by (auto simp: group_name_def)

lemma map_of_numbered:
  assumes "distinct rs" "k < length rs"
  shows "map_of (map (\<lambda>(k, r). (r, group_name k)) (zip [0..<length rs] rs)) (rs ! k) = Some (group_name k)"
    "map_of (map (\<lambda>(k, r). (group_name k, G r)) (zip [0..<length rs] rs)) (group_name k) = Some (G (rs ! k))"
proof -
  let ?z = "zip [0..<length rs] rs"
  have mem: "(k, rs ! k) \<in> set ?z" using assms(2) by (force simp: set_zip)
  have "map fst (map (\<lambda>(k, r). (r, group_name k)) ?z) = rs" by (simp add: comp_def case_prod_beta map_snd_zip)
  then have "distinct (map fst (map (\<lambda>(k, r). (r, group_name k)) ?z))" using assms(1) by simp
  then show "map_of (map (\<lambda>(k, r). (r, group_name k)) ?z) (rs ! k) = Some (group_name k)"
    using mem by (intro map_of_is_SomeI) force+
  have "map fst (map (\<lambda>(k, r). (group_name k, G r)) ?z) = map group_name [0..<length rs]"
    by (rule nth_equalityI) simp_all
  then have "distinct (map fst (map (\<lambda>(k, r). (group_name k, G r)) ?z))" by (simp add: distinct_map inj_on_def group_name_inj)
  then show "map_of (map (\<lambda>(k, r). (group_name k, G r)) ?z) (group_name k) = Some (G (rs ! k))"
    using mem by (intro map_of_is_SomeI) force+
qed

lemma foldl_or: "foldl (\<lambda>acc m. acc \<or> P m) b ms \<longleftrightarrow> b \<or> (\<exists>m \<in> set ms. P m)"
  by (induction ms arbitrary: b) auto

lemma foldl_min: "foldl (\<lambda>acc m. min acc (f m)) b ms = Min (insert b (f ` set ms))" for f :: "nat \<Rightarrow> u64"
proof (induction ms arbitrary: b)
  case (Cons m ms)
  have "Min (insert (min b (f m)) (f ` set ms)) = Min (insert b (insert (f m) (f ` set ms)))"
    by (cases "set ms = {}") (simp_all add: min.assoc)
  then show ?case using Cons by simp
qed simp

lemma foldl_min_max: "ms \<noteq> [] \<Longrightarrow> foldl (\<lambda>acc m. min acc (f m)) (- 1) ms = Min (f ` set ms)" for f :: "nat \<Rightarrow> u64"
  by (simp add: foldl_min min_absorb2)

text \<open>The members of the group of \<open>i\<close>, its unit count and whether it is pinned.\<close>

definition component_group :: "AxisUnionFind \<Rightarrow> nat \<Rightarrow> PermGroup" where
  "component_group uf i = \<lparr>pg_size = ucast (Min ((\<lambda>j. nd_len (uf_nodes uf ! j)) ` {j. same_tree uf i j})), pinned = tree_pinned uf i\<rparr>"

lemma group_of_component:
  assumes "uf_wf uf" "i < uf_count uf" "compressed (uf_nodes uf) ns"
  shows "group_of_members ns (filter (\<lambda>j. map (rep (uf_nodes uf)) [0..<uf_count uf] ! j = rep (uf_nodes uf) i) [0..<length (map (rep (uf_nodes uf)) [0..<uf_count uf])]) =
    component_group uf i"
proof -
  let ?ns = "uf_nodes uf"
  let ?ms = "filter (\<lambda>j. map (rep ?ns) [0..<uf_count uf] ! j = rep ?ns i) [0..<length (map (rep ?ns) [0..<uf_count uf])]"
  have wf: "uf_ok ?ns" "pin_ok ?ns" using assms(1) by (auto simp: uf_wf_def)
  have ms: "set ?ms = {j. same_tree uf i j}" using assms(2) by (auto simp: same_tree_def)
  have st: "strip ns = strip ?ns" using assms(3) by (simp add: compressed_def)
  have keep: "nd_len (ns ! j) = nd_len (?ns ! j)" "nd_pinned (ns ! j) = nd_pinned (?ns ! j)" if "same_tree uf i j" for j
    using strip_nth [OF st, of j] that by (auto simp: same_tree_def uf_count_def)
  have ne: "?ms \<noteq> []" using ms assms(2) by (auto simp: same_tree_def filter_empty_conv)
  have "(\<lambda>m. nd_len (ns ! m)) ` set ?ms = (\<lambda>m. nd_len (?ns ! m)) ` {j. same_tree uf i j}" unfolding ms using keep(1) by auto
  then have size_eq: "foldl (\<lambda>acc m. min acc (nd_len (ns ! m))) (- 1) ?ms = Min ((\<lambda>m. nd_len (?ns ! m)) ` {j. same_tree uf i j})"
    using foldl_min_max [OF ne, of "\<lambda>m. nd_len (ns ! m)"] by simp
  have root: "same_tree uf i (rep ?ns i)" using rep_bound [OF wf(1)] assms(2) by (auto simp: same_tree_def uf_count_def)
  have "(\<exists>m \<in> set ?ms. nd_pinned (ns ! m)) \<longleftrightarrow> (\<exists>m. same_tree uf i m \<and> nd_pinned (?ns ! m))" unfolding ms using keep(2) by auto
  also have "\<dots> \<longleftrightarrow> tree_pinned uf i"
    using wf(2) root by (auto simp: pin_ok_def same_tree_def tree_pinned_def uf_count_def)
  finally show ?thesis unfolding group_of_members_def component_group_def size_eq foldl_or by simp
qed

lemma finalize_correct:
  assumes "uf_wf uf" "orders order"
  shows "\<exists>gname. (\<forall>i < uf_count uf. \<forall>j < uf_count uf. gname i = gname j \<longleftrightarrow> same_tree uf i j) \<and>
    (if \<forall>i < uf_count uf. divides_axis (uf_nodes uf) (component_group uf i) i
     then \<exists>topo. uf_finalize order uf = Ok topo \<and>
       (\<forall>i < uf_count uf. topo_find_group topo (gname i) = Some (component_group uf i)) \<and>
       (\<forall>t b. has_axis (topo_tensors topo) t b \<longleftrightarrow>
         (\<exists>i < uf_count uf. t = ak_tensor (node_key uf i) \<and> b = axis_for (uf_nodes uf) (gname i) (component_group uf i) i))
     else \<exists>c. uf_finalize order uf = SFS_ERR BlockFactorMismatch c)"
proof -
  let ?ns = "uf_nodes uf" and ?n = "uf_count uf"
  have wf: "uf_ok ?ns" "length ?ns = ?n" using assms(1) by (auto simp: uf_wf_def uf_count_def)
  define roots where "roots = map (rep ?ns) [0..<?n]"
  obtain ns where fa: "find_all ?ns [0..<?n] = Ok (ns, roots)" "compressed ?ns ns"
    using find_all_correct [OF wf(1), of "[0..<?n]"] wf(2) unfolding roots_def by auto
  note c = compressed_ok [OF fa(2)]
  define rs where "rs = order (remdups roots)"
  have rs: "distinct rs" "set rs = set roots" using assms(2) by (auto simp: orders_def rs_def)
  define pos where "pos i = (SOME k. k < length rs \<and> rs ! k = rep ?ns i)" for i
  have pos: "pos i < length rs" "rs ! pos i = rep ?ns i" if "i < ?n" for i
  proof -
    have "rep ?ns i \<in> set rs" using that rs(2) by (auto simp: roots_def)
    then have "\<exists>k. k < length rs \<and> rs ! k = rep ?ns i" by (auto simp: in_set_conv_nth)
    from someI_ex [OF this] show "pos i < length rs" "rs ! pos i = rep ?ns i" by (auto simp: pos_def)
  qed
  define gname where "gname i = group_name (pos i)" for i
  have g: "gname i = gname j \<longleftrightarrow> same_tree uf i j" if "i < ?n" "j < ?n" for i j
    using pos [OF that(1)] pos [OF that(2)] rs(1) that by (auto simp: gname_def group_name_inj same_tree_def) (metis nth_eq_iff_index_eq)
  define G where "G r = group_of_members ns (filter (\<lambda>i. roots ! i = r) [0..<length roots])" for r
  have G: "G (rep ?ns i) = component_group uf i" if "i < ?n" for i
    unfolding G_def roots_def by (rule group_of_component [OF assms(1) that fa(2)])
  define groups where "groups = map (\<lambda>(k, r). (group_name k, G r)) (zip [0..<length rs] rs)"
  define names where "names = map (\<lambda>(k, r). (r, group_name k)) (zip [0..<length rs] rs)"
  have look: "map_of names (rep ?ns i) = Some (gname i)" "map_of groups (gname i) = Some (component_group uf i)" if "i < ?n" for i
    using map_of_numbered(1) [OF rs(1) pos(1) [OF that]] map_of_numbered(2) [OF rs(1) pos(1) [OF that], of G] pos(2) [OF that] G [OF that]
    by (simp_all add: names_def groups_def gname_def)
  have st: "strip ns = strip ?ns" using fa(2) by (simp add: compressed_def)
  have keep: "nd_key (ns ! j) = nd_key (?ns ! j)" "nd_len (ns ! j) = nd_len (?ns ! j)" if "j < ?n" for j
    using strip_nth [OF st, of j] that wf(2) by simp_all
  have eq: "divides_axis ns (component_group uf i) i = divides_axis ?ns (component_group uf i) i"
    "axis_for ns (gname i) (component_group uf i) i = axis_for ?ns (gname i) (component_group uf i) i" if "i < ?n" for i
    using keep [OF that] by (simp_all add: divides_axis_def axis_for_def)
  have bind: "if \<forall>i \<in> set [0..<?n]. divides_axis ns (component_group uf i) i
      then \<exists>ts. bind_axes groups names ns [0..<?n] [] = Ok ts \<and>
        (\<forall>t b. has_axis ts t b \<longleftrightarrow> has_axis [] t b \<or> (\<exists>i \<in> set [0..<?n]. t = ak_tensor (nd_key (ns ! i)) \<and> b = axis_for ns (gname i) (component_group uf i) i))
      else \<exists>c. bind_axes groups names ns [0..<?n] [] = SFS_ERR BlockFactorMismatch c"
    by (rule bind_axes_correct [OF c(1)]) (use look compressed_rep [OF wf(1) fa(2)] wf(2) c(2) in auto)
  have fin: "uf_finalize order uf = SFS_TRY (bind_axes groups names ns [0..<?n] []) (\<lambda>tensors. Ok \<lparr>topo_groups = groups, topo_tensors = tensors\<rparr>)"
    using fa(1) c(2) wf(2) by (simp add: uf_finalize_def Let_def rs_def groups_def names_def G_def)
  have none: "\<not> has_axis [] t b" for t b by (simp add: has_axis_def)
  have key: "node_key uf i = nd_key (ns ! i)" if "i < ?n" for i using keep(1) [OF that] that by (simp add: node_key_def)
  show ?thesis
  proof (intro exI [of _ gname] conjI allI impI g)
    show "if \<forall>i < ?n. divides_axis ?ns (component_group uf i) i
     then \<exists>topo. uf_finalize order uf = Ok topo \<and>
       (\<forall>i < ?n. topo_find_group topo (gname i) = Some (component_group uf i)) \<and>
       (\<forall>t b. has_axis (topo_tensors topo) t b \<longleftrightarrow>
         (\<exists>i < ?n. t = ak_tensor (node_key uf i) \<and> b = axis_for ?ns (gname i) (component_group uf i) i))
     else \<exists>c. uf_finalize order uf = SFS_ERR BlockFactorMismatch c"
    proof (cases "\<forall>i < ?n. divides_axis ?ns (component_group uf i) i")
      case True
      then have "\<forall>i \<in> set [0..<?n]. divides_axis ns (component_group uf i) i" using eq(1) by simp
      then obtain ts where ts: "bind_axes groups names ns [0..<?n] [] = Ok ts"
        "\<And>t b. has_axis ts t b \<longleftrightarrow> (\<exists>i \<in> set [0..<?n]. t = ak_tensor (nd_key (ns ! i)) \<and> b = axis_for ns (gname i) (component_group uf i) i)"
        using bind none by auto
      have "has_axis ts t b \<longleftrightarrow> (\<exists>i < ?n. t = ak_tensor (node_key uf i) \<and> b = axis_for ?ns (gname i) (component_group uf i) i)" for t b
        unfolding ts(2) using eq(2) key by (metis (no_types, lifting) atLeast0LessThan atLeast_upt lessThan_iff)
      then show ?thesis using True fin ts(1) look(2) by (simp add: topo_find_group_def)
    next
      case False
      then have "\<not> (\<forall>i \<in> set [0..<?n]. divides_axis ns (component_group uf i) i)" using eq(1) by auto
      then obtain e where "bind_axes groups names ns [0..<?n] [] = SFS_ERR BlockFactorMismatch e" using bind by (auto split: if_splits)
      then show ?thesis using False fin by auto
    qed
  qed
qed

text \<open>
  C8: for every sequence of registering, uniting and pinning axes, run on the forest with path halving and union by rank: nothing runs out
  of bounds or forever, and \<open>finalize\<close> gives two axes the same group exactly when a chain of united pairs connects them; a group is
  pinned exactly when one of its axes was; its unit count is the smallest axis length (to 32 bits), each axis is bound to its group
  with the block factor that makes up its length, and nothing else is bound. When some axis is not a multiple of its group's
  unit count the result is \<open>BlockFactorMismatch\<close>.
\<close>

theorem topology_groups_are_components:
  assumes "handles_known uf_add uf_unite uf_pin uf_count ops uf_empty" "orders order"
  shows "\<exists>uf gname. run_ops uf_add uf_unite uf_pin ops uf_empty = Ok uf \<and>
    (\<forall>i < uf_count uf. \<forall>j < uf_count uf. gname i = gname j \<longleftrightarrow> (i, j) \<in> (links ops)\<^sup>*) \<and>
    (\<forall>i < uf_count uf. pinned (component_group uf i) \<longleftrightarrow> (\<exists>p \<in> pins ops. (i, p) \<in> (links ops)\<^sup>*)) \<and>
    (if \<forall>i < uf_count uf. divides_axis (uf_nodes uf) (component_group uf i) i
     then \<exists>topo. uf_finalize order uf = Ok topo \<and>
       (\<forall>i < uf_count uf. topo_find_group topo (gname i) = Some (component_group uf i)) \<and>
       (\<forall>t b. has_axis (topo_tensors topo) t b \<longleftrightarrow>
         (\<exists>i < uf_count uf. t = ak_tensor (node_key uf i) \<and> b = axis_for (uf_nodes uf) (gname i) (component_group uf i) i))
     else \<exists>c. uf_finalize order uf = SFS_ERR BlockFactorMismatch c)"
proof -
  have e: "uf_wf uf_empty" "uf_count uf_empty = 0" by (simp_all add: uf_wf_def uf_empty_def uf_ok_def pin_ok_def index_ok_def uf_count_def)
  have t: "axes.together uf_empty ops = (links ops)\<^sup>*" by (simp add: axes.together_def same_tree_def e)
  have np: "\<not> tree_pinned uf_empty p" for p by (simp add: tree_pinned_def e)
  obtain uf where uf: "run_ops uf_add uf_unite uf_pin ops uf_empty = Ok uf" "uf_wf uf"
    "\<And>x y. same_tree uf x y \<longleftrightarrow> x < uf_count uf \<and> y < uf_count uf \<and> (x, y) \<in> (links ops)\<^sup>*"
    "\<And>x. tree_pinned uf x \<longleftrightarrow> x < uf_count uf \<and> (\<exists>p. p \<in> pins ops \<and> (x, p) \<in> (links ops)\<^sup>*)"
    using axes.run_ops_groups [OF e(1) assms(1)] unfolding t by (auto simp: np)
  have p: "pinned (component_group uf i) \<longleftrightarrow> (\<exists>p \<in> pins ops. (i, p) \<in> (links ops)\<^sup>*)" if "i < uf_count uf" for i
    using uf(4) [of i] that by (auto simp: component_group_def)
  obtain gname where g: "\<And>i j. i < uf_count uf \<Longrightarrow> j < uf_count uf \<Longrightarrow> gname i = gname j \<longleftrightarrow> same_tree uf i j"
    and fin: "if \<forall>i < uf_count uf. divides_axis (uf_nodes uf) (component_group uf i) i
     then \<exists>topo. uf_finalize order uf = Ok topo \<and>
       (\<forall>i < uf_count uf. topo_find_group topo (gname i) = Some (component_group uf i)) \<and>
       (\<forall>t b. has_axis (topo_tensors topo) t b \<longleftrightarrow>
         (\<exists>i < uf_count uf. t = ak_tensor (node_key uf i) \<and> b = axis_for (uf_nodes uf) (gname i) (component_group uf i) i))
     else \<exists>c. uf_finalize order uf = SFS_ERR BlockFactorMismatch c" using finalize_correct [OF uf(2) assms(2)] by blast
  show ?thesis
    by (rule exI [of _ uf], rule exI [of _ gname]) (use uf(1,3) g p fin in \<open>auto simp del: split_paired_Ex\<close>)
qed

definition conv_ops :: "(AxisKey, u64) uf_op list" where
  "conv_ops = [OpAdd (AxisKey ''0.weight'' 0) 4, OpAdd (AxisKey ''0.weight'' 1) 3, OpPin 1, OpAdd (AxisKey ''0.bias'' 0) 4, OpUnite 2 0,
     OpAdd (AxisKey ''3.weight'' 0) 10, OpAdd (AxisKey ''3.weight'' 1) 16, OpUnite 4 0, OpPin 3]"

theorem topology_groups_are_components_witness:
  "\<exists>uf gname. run_ops uf_add uf_unite uf_pin conv_ops uf_empty = Ok uf \<and> gname (4 :: nat) = (gname 2 :: string) \<and> gname 1 \<noteq> gname 4"
proof -
  have k: "handles_known uf_add uf_unite uf_pin uf_count conv_ops uf_empty"
    by (simp add: conv_ops_def uf_add_def uf_unite_def uf_pin_def uf_empty_def uf_find_def uf_count_def link_roots_def)
  have o: "orders rev" by (simp add: orders_def)
  have c: "run_ops uf_add uf_unite uf_pin conv_ops uf_empty = Ok uf \<Longrightarrow> uf_count uf = 5" for uf
    by (auto simp: conv_ops_def uf_add_def uf_unite_def uf_pin_def uf_empty_def uf_find_def uf_count_def link_roots_def)
  have l: "(4, 2) \<in> (links conv_ops)\<^sup>*"
    by (rule converse_rtrancl_into_rtrancl [of _ 0], simp add: conv_ops_def, rule r_into_rtrancl, simp add: conv_ops_def)
  obtain uf gname where run: "run_ops uf_add uf_unite uf_pin conv_ops uf_empty = Ok uf"
    and g: "\<forall>i < uf_count uf. \<forall>j < uf_count uf. gname i = (gname j :: string) \<longleftrightarrow> (i, j) \<in> (links conv_ops)\<^sup>*"
    using topology_groups_are_components [OF k o] by blast
  have far: "y = 1" if "(1, y) \<in> (links conv_ops)\<^sup>*" for y
    using that by (induction rule: rtrancl_induct) (auto simp: conv_ops_def)
  have "gname 4 = gname 2" "gname 1 \<noteq> gname 4" using g [rule_format, of 4 2] g [rule_format, of 1 4] far [of 4] c [OF run] l by auto
  then show ?thesis using run by blast
qed

end
