(* ===== verification/Align_Topology.thy ===== *)
theory Align_Topology
  imports Align_Graph Format_Manifest "HOL-Library.Signed_Division"
begin

section \<open>The topology parser\<close>

text \<open>
  \<open>align/src/topology_parser.cpp\<close>: from a \<open>config.json\<close> and the shapes of a checkpoint to permutation groups. The checkpoint is an \<open>ITensorSource\<close>, of which
  only \<open>meta\<close> and \<open>buffer_layout\<close> are asked. \<open>gi\<close> is \<open>json::get<std::int64_t>\<close> of the JSON library. Signed arithmetic that leaves
  64 bits, and a division by zero, are \<open>Abort UB\<close>; an exception nobody catches is \<open>Abort Throw\<close>. The optional diagnostics are not modelled.
  The main results: every tensor of the file has its axis 0 in a group, whatever the configuration says, the features that enter the first layer and
  the classes that leave the last one are pinned, and a bias is permuted with its layer.
\<close>

record ShapeSource =
  ts_meta :: "string \<Rightarrow> TensorMeta option"
  ts_layout :: "BufferEntry list"

record BuildState =
  bs_uf :: AxisUnionFind
  bs_handle :: "AxisKey \<rightharpoonup> nat"
  bs_touched :: "string list"

definition register_axis :: "BuildState \<Rightarrow> string \<Rightarrow> nat \<Rightarrow> u64 \<Rightarrow> BuildState \<times> nat" where
  "register_axis st tensor dim len =
     (case bs_handle st (AxisKey tensor dim) of
        Some h \<Rightarrow> (st\<lparr>bs_touched := tensor # bs_touched st\<rparr>, h)
      | None \<Rightarrow>
          let (uf, h) = uf_add (bs_uf st) (AxisKey tensor dim) len
          in (\<lparr>bs_uf = uf, bs_handle = (bs_handle st)(AxisKey tensor dim \<mapsto> h), bs_touched = tensor # bs_touched st\<rparr>, h))"

definition bs_unite :: "nat \<Rightarrow> nat \<Rightarrow> BuildState \<Rightarrow> BuildState res" where
  "bs_unite a b st = SFS_TRY (uf_unite (bs_uf st) a b) (\<lambda>uf. Ok (st\<lparr>bs_uf := uf\<rparr>))"

definition bs_pin :: "nat \<Rightarrow> BuildState \<Rightarrow> BuildState res" where
  "bs_pin h st = SFS_TRY (uf_pin (bs_uf st) h) (\<lambda>uf. Ok (st\<lparr>bs_uf := uf\<rparr>))"

text \<open>Signed 64-bit results.\<close>

definition i64 :: "int \<Rightarrow> int res" where
  "i64 v = (if - (2 ^ 63) \<le> v \<and> v < 2 ^ 63 then Ok v else Abort UB)"

definition i64_div :: "int \<Rightarrow> int \<Rightarrow> int res" where
  "i64_div a b = (if b = 0 then Abort UB else i64 (a sdiv b))"

definition as_hw :: "'j Ext \<Rightarrow> ('j \<Rightarrow> int option) \<Rightarrow> 'j \<Rightarrow> (int \<times> int) res" where
  "as_hw X gi v =
     (if j_is_array X v then
        (case json_elems X v of
           a # b # _ \<Rightarrow> SFS_TRY (thrown (gi a)) (\<lambda>h. SFS_TRY (thrown (gi b)) (\<lambda>w. Ok (h, w)))
         | _ \<Rightarrow> Abort Throw)
      else SFS_TRY (thrown (gi v)) (\<lambda>n. Ok (n, n)))"

definition hw_field :: "'j Ext \<Rightarrow> ('j \<Rightarrow> int option) \<Rightarrow> 'j \<Rightarrow> string \<Rightarrow> int \<times> int \<Rightarrow> (int \<times> int) res" where
  "hw_field X gi layer k d = (if j_contains X layer k then SFS_TRY (json_at X layer k) (as_hw X gi) else Ok d)"

definition conv_extent :: "int \<Rightarrow> int \<Rightarrow> int \<Rightarrow> int \<Rightarrow> int res" where
  "conv_extent h p k s = SFS_TRY (i64 (2 * p)) (\<lambda>pp. SFS_TRY (i64 (h + pp)) (\<lambda>a. SFS_TRY (i64 (a - k)) (\<lambda>b. SFS_TRY (i64_div b s) (\<lambda>q. i64 (q + 1)))))"

definition conv2d_output_hw :: "'j Ext \<Rightarrow> ('j \<Rightarrow> int option) \<Rightarrow> int \<Rightarrow> int \<Rightarrow> 'j \<Rightarrow> (int \<times> int) res" where
  "conv2d_output_hw X gi h w layer =
     SFS_TRY (SFS_TRY (json_at X layer ''kernel_size'') (as_hw X gi)) (\<lambda>(kh, kw).
     SFS_TRY (hw_field X gi layer ''stride'' (1, 1)) (\<lambda>(sh, sw).
     SFS_TRY (hw_field X gi layer ''padding'' (0, 0)) (\<lambda>(ph, pw).
     SFS_TRY (conv_extent h ph kh sh) (\<lambda>h2. SFS_TRY (conv_extent w pw kw sw) (\<lambda>w2. Ok (h2, w2))))))"

definition maxpool2d_output_hw :: "'j Ext \<Rightarrow> ('j \<Rightarrow> int option) \<Rightarrow> int \<Rightarrow> int \<Rightarrow> 'j \<Rightarrow> (int \<times> int) res" where
  "maxpool2d_output_hw X gi h w layer =
     SFS_TRY (SFS_TRY (json_at X layer ''kernel_size'') (as_hw X gi)) (\<lambda>(kh, kw).
     SFS_TRY (hw_field X gi layer ''stride'' (kh, kw)) (\<lambda>(sh, sw).
     SFS_TRY (conv_extent h 0 kh sh) (\<lambda>h2. SFS_TRY (conv_extent w 0 kw sw) (\<lambda>w2. Ok (h2, w2)))))"

definition require_meta :: "ShapeSource \<Rightarrow> string \<Rightarrow> TensorMeta res" where
  "require_meta src name = (case ts_meta src name of None \<Rightarrow> SFS_ERR TopologyIncomplete name | Some m \<Rightarrow> Ok m)"

text \<open>\<open>shape.at(0)\<close>.\<close>

definition shape_at0 :: "TensorMeta \<Rightarrow> u64 res" where
  "shape_at0 m = (case tm_shape m of [] \<Rightarrow> Abort Throw | d # _ \<Rightarrow> Ok d)"

text \<open>\<open>walk_layers\<close>: the type of a layer, the branch for layers with weights, the branch for normalisation, and the loop. \<open>spatial\<close> is tracked but decides nothing.\<close>

definition layer_type :: "'j Ext \<Rightarrow> 'j \<Rightarrow> string res" where
  "layer_type X layer = json_value X (j_get_str X) layer ''type'' []"

abbreviation parametrised :: "string \<Rightarrow> bool" where
  "parametrised t \<equiv> t = ''linear'' \<or> t = ''conv2d''"

type_synonym walk = "BuildState \<times> nat option \<times> int list"

definition weight_layer :: "'j Ext \<Rightarrow> ('j \<Rightarrow> int option) \<Rightarrow> ShapeSource \<Rightarrow> bool \<Rightarrow> nat \<Rightarrow> nat \<Rightarrow> string \<Rightarrow> 'j \<Rightarrow> walk \<Rightarrow> walk res" where
  "weight_layer X gi src strict last_idx idx t layer = (\<lambda>(st, current_axis, spatial).
     let pre = dec_string idx; weight = pre @ ''.weight''; bias = pre @ ''.bias''
     in SFS_TRY (require_meta src weight) (\<lambda>wmeta.
        if length (tm_shape wmeta) < 2 then SFS_ERR TopologyParse weight
        else let (st, out_handle) = register_axis st weight 0 (tm_shape wmeta ! 0);
                 (st, in_handle) = register_axis st weight 1 (tm_shape wmeta ! 1)
        in SFS_TRY (case current_axis of
                      Some c \<Rightarrow> bs_unite in_handle c st
                    | None \<Rightarrow> if strict then bs_pin in_handle st else Ok st) (\<lambda>st.
           SFS_TRY (case ts_meta src bias of
                      None \<Rightarrow> Ok st
                    | Some bmeta \<Rightarrow> SFS_TRY (shape_at0 bmeta) (\<lambda>len.
                        let (st, bias_handle) = register_axis st bias 0 len in bs_unite bias_handle out_handle st)) (\<lambda>st.
           SFS_TRY (if idx = last_idx then bs_pin out_handle st else Ok st) (\<lambda>st.
           SFS_TRY (if t = ''linear'' then Ok [sint (tm_shape wmeta ! 0)]
                    else case spatial of
                      [c, h, w] \<Rightarrow> SFS_TRY (conv2d_output_hw X gi h w layer) (\<lambda>(h2, w2). Ok [sint (tm_shape wmeta ! 0), h2, w2])
                    | _ \<Rightarrow> Ok []) (\<lambda>spatial.
           Ok (st, Some out_handle, spatial)))))))"

fun norm_axes :: "ShapeSource \<Rightarrow> nat \<Rightarrow> string \<Rightarrow> string list \<Rightarrow> BuildState \<Rightarrow> BuildState res" where
  "norm_axes src c pre [] st = Ok st"
| "norm_axes src c pre (suffix # rest) st =
     (case ts_meta src (pre @ suffix) of
        None \<Rightarrow> norm_axes src c pre rest st
      | Some m \<Rightarrow> SFS_TRY (shape_at0 m) (\<lambda>len.
          let (st, h) = register_axis st (pre @ suffix) 0 len
          in SFS_TRY (bs_unite h c st) (norm_axes src c pre rest)))"

definition walk_layer :: "'j Ext \<Rightarrow> ('j \<Rightarrow> int option) \<Rightarrow> ShapeSource \<Rightarrow> bool \<Rightarrow> nat \<Rightarrow> nat \<Rightarrow> 'j \<Rightarrow> walk \<Rightarrow> walk res" where
  "walk_layer X gi src strict last_idx idx layer = (\<lambda>(st, current_axis, spatial).
     SFS_TRY (layer_type X layer) (\<lambda>t.
     let pre = dec_string idx
     in if t = [] then SFS_ERR TopologyParse pre
        else if parametrised t then weight_layer X gi src strict last_idx idx t layer (st, current_axis, spatial)
        else if t = ''batchnorm2d'' \<or> t = ''layernorm'' then
          (case current_axis of
             None \<Rightarrow> SFS_ERR TopologyParse pre
           | Some c \<Rightarrow> SFS_TRY (norm_axes src c pre [''.weight'', ''.bias'', ''.running_mean'', ''.running_var''] st) (\<lambda>st. Ok (st, current_axis, spatial)))
        else if t = ''maxpool2d'' then
          (case spatial of
             [c, h, w] \<Rightarrow> SFS_TRY (maxpool2d_output_hw X gi h w layer) (\<lambda>(h2, w2). Ok (st, current_axis, [c, h2, w2]))
           | _ \<Rightarrow> Ok (st, current_axis, spatial))
        else if t = ''flatten'' then
          (case spatial of
             [c, h, w] \<Rightarrow> SFS_TRY (i64 (c * h)) (\<lambda>ch. SFS_TRY (i64 (ch * w)) (\<lambda>n. Ok (st, current_axis, [n])))
           | _ \<Rightarrow> Ok (st, current_axis, spatial))
        else if t \<in> {''relu'', ''dropout'', ''avgpool2d'', ''adaptiveavgpool2d''} then Ok (st, current_axis, spatial)
        else if strict then SFS_ERR TopologyParse (pre @ '': '' @ t)
        else Ok (st, current_axis, spatial)))"

fun layer_loop :: "'j Ext \<Rightarrow> ('j \<Rightarrow> int option) \<Rightarrow> ShapeSource \<Rightarrow> bool \<Rightarrow> nat \<Rightarrow> nat \<Rightarrow> 'j list \<Rightarrow> walk \<Rightarrow> walk res" where
  "layer_loop X gi src strict last_idx idx [] w = Ok w"
| "layer_loop X gi src strict last_idx idx (layer # ls) w =
     SFS_TRY (walk_layer X gi src strict last_idx idx layer w) (layer_loop X gi src strict last_idx (Suc idx) ls)"

text \<open>\<open>layers[i]\<close> of a value that is not an array throws; there is nothing to index in an empty one.\<close>

definition walk_layers :: "'j Ext \<Rightarrow> ('j \<Rightarrow> int option) \<Rightarrow> ShapeSource \<Rightarrow> 'j \<Rightarrow> int list option \<Rightarrow> bool \<Rightarrow> BuildState \<Rightarrow> BuildState res" where
  "walk_layers X gi src layers input_shape strict st =
     (let ls = json_elems X layers
      in if ls \<noteq> [] \<and> \<not> j_is_array X layers then Abort Throw
         else SFS_TRY (map_res (layer_type X) ls) (\<lambda>ts.
           let param_indices = filter (\<lambda>i. parametrised (ts ! i)) [0..<length ts]
           in if param_indices = [] then SFS_ERR TopologyParse []
              else SFS_TRY (layer_loop X gi src strict (last param_indices) 0 ls (st, None, case input_shape of Some s \<Rightarrow> s | None \<Rightarrow> []))
                (\<lambda>(st, _). Ok st)))"

text \<open>\<open>parse_topology\<close>: the coverage rule is the loop over the tensors that the configuration did not touch.\<close>

fun cover_axes :: "ShapeSource \<Rightarrow> BufferEntry list \<Rightarrow> BuildState \<Rightarrow> BuildState res" where
  "cover_axes src [] st = Ok st"
| "cover_axes src (e # es) st =
     (if be_tensor e \<in> set (bs_touched st) then cover_axes src es st
      else case ts_meta src (be_tensor e) of
        None \<Rightarrow> cover_axes src es st
      | Some m \<Rightarrow>
          if tm_shape m = [] then cover_axes src es st
          else let (st, h) = register_axis st (be_tensor e) 0 (tm_shape m ! 0)
               in SFS_TRY (bs_pin h st) (cover_axes src es))"

definition shapes_of :: "ShapeSource \<Rightarrow> string \<Rightarrow> u64 list option" where
  "shapes_of src t = (if t \<in> be_tensor ` set (ts_layout src) then map_option tm_shape (ts_meta src t) else None)"

definition bs_empty :: BuildState where
  "bs_empty = \<lparr>bs_uf = uf_empty, bs_handle = Map.empty, bs_touched = []\<rparr>"

definition read_config :: "'j Ext \<Rightarrow> ('j \<Rightarrow> int option) \<Rightarrow> ShapeSource \<Rightarrow> bytes \<Rightarrow> bool \<Rightarrow> BuildState res" where
  "read_config X gi src config_json strict =
     (if config_json = [] then Ok bs_empty
      else case j_parse X config_json of
        None \<Rightarrow> SFS_ERR TopologyParse []
      | Some cfg \<Rightarrow>
          if \<not> j_contains X cfg ''layers'' then SFS_ERR TopologyParse []
          else SFS_TRY (if j_contains X cfg ''input_shape''
                        then SFS_TRY (json_at X cfg ''input_shape'') (\<lambda>v.
                             if \<not> j_is_array X v then Abort Throw
                             else SFS_TRY (map_res (\<lambda>e. thrown (gi e)) (json_elems X v)) (\<lambda>s. Ok (Some s)))
                        else Ok None) (\<lambda>input_shape.
               SFS_TRY (json_at X cfg ''layers'') (\<lambda>layers. walk_layers X gi src layers input_shape strict bs_empty)))"

definition parse_topology :: "'j Ext \<Rightarrow> ('j \<Rightarrow> int option) \<Rightarrow> (nat list \<Rightarrow> nat list) \<Rightarrow> ShapeSource \<Rightarrow> bytes \<Rightarrow> bool \<Rightarrow> Topology res" where
  "parse_topology X gi order src config_json strict =
     SFS_TRY (read_config X gi src config_json strict) (\<lambda>st.
     SFS_TRY (cover_axes src (ts_layout src) st) (\<lambda>st.
     SFS_TRY (uf_finalize order (bs_uf st)) (\<lambda>topo.
     SFS_TRY (topology_validate topo (shapes_of src)) (\<lambda>_. Ok topo))))"

subsection \<open>What every step keeps\<close>

definition st_ok :: "BuildState \<Rightarrow> bool" where
  "st_ok st \<longleftrightarrow> uf_wf (bs_uf st) \<and> (\<forall>k h. bs_handle st k = Some h \<longrightarrow> h < uf_count (bs_uf st) \<and> node_key (bs_uf st) h = k) \<and>
     (\<forall>t \<in> set (bs_touched st). bs_handle st (AxisKey t 0) \<noteq> None)"

definition grows :: "BuildState \<Rightarrow> BuildState \<Rightarrow> bool" where
  "grows st st' \<longleftrightarrow> st_ok st' \<and> bs_handle st \<subseteq>\<^sub>m bs_handle st' \<and> uf_count (bs_uf st) \<le> uf_count (bs_uf st') \<and>
     (\<forall>x y. same_tree (bs_uf st) x y \<longrightarrow> same_tree (bs_uf st') x y) \<and> (\<forall>x. tree_pinned (bs_uf st) x \<longrightarrow> tree_pinned (bs_uf st') x) \<and>
     set (bs_touched st) \<subseteq> set (bs_touched st')"

lemma grows_refl: "st_ok st \<Longrightarrow> grows st st"
  by (simp add: grows_def)

lemma grows_trans: "grows a b \<Longrightarrow> grows b c \<Longrightarrow> grows a c"
  unfolding grows_def by (meson map_le_trans order_trans)

lemma grows_ok: "grows a b \<Longrightarrow> st_ok b"
  by (simp add: grows_def)

lemma grows_handle: "grows a b \<Longrightarrow> bs_handle a k = Some h \<Longrightarrow> bs_handle b k = Some h"
  unfolding grows_def map_le_def by (metis domI)

lemma register_grows:
  assumes "st_ok st" "dim = 0 \<or> bs_handle st (AxisKey t 0) \<noteq> None" "register_axis st t dim len = (st', h)"
  shows "grows st st'" "bs_handle st' (AxisKey t dim) = Some h" "h < uf_count (bs_uf st')" "t \<in> set (bs_touched st')"
proof -
  have ok: "uf_wf (bs_uf st)" and hd: "\<And>k h. bs_handle st k = Some h \<Longrightarrow> h < uf_count (bs_uf st) \<and> node_key (bs_uf st) h = k"
    using assms(1) by (auto simp: st_ok_def)
  have "grows st st' \<and> bs_handle st' (AxisKey t dim) = Some h \<and> h < uf_count (bs_uf st') \<and> t \<in> set (bs_touched st')"
  proof (cases "bs_handle st (AxisKey t dim)")
    case (Some i)
    then show ?thesis using assms hd [OF Some] by (auto simp: register_axis_def grows_def st_ok_def)
  next
    case None
    obtain uf' i where u: "uf_add (bs_uf st) (AxisKey t dim) len = (uf', i)" by (cases "uf_add (bs_uf st) (AxisKey t dim) len")
    note law = axes.add_law [OF ok u]
    have st': "st' = \<lparr>bs_uf = uf', bs_handle = (bs_handle st)(AxisKey t dim \<mapsto> i), bs_touched = t # bs_touched st\<rparr>" "h = i"
      using assms(3) None u by (auto simp: register_axis_def)
    have "st_ok st'" unfolding st_ok_def st'(1) BuildState.simps
    proof (intro conjI allI impI ballI)
      show "uf_wf uf'" using law by blast
    next
      fix k j assume "((bs_handle st)(AxisKey t dim \<mapsto> i)) k = Some j"
      then show "j < uf_count uf'" "node_key uf' j = k" using law hd [of k j] by (auto split: if_splits)
    next
      fix u assume "u \<in> set (t # bs_touched st)"
      then show "((bs_handle st)(AxisKey t dim \<mapsto> i)) (AxisKey u 0) \<noteq> None" using assms(1,2) by (auto simp: st_ok_def)
    qed
    then show ?thesis using law st' None by (auto simp: grows_def map_le_def)
  qed
  then show "grows st st'" "bs_handle st' (AxisKey t dim) = Some h" "h < uf_count (bs_uf st')" "t \<in> set (bs_touched st')" by auto
qed

lemma unite_grows:
  assumes "st_ok st" "a < uf_count (bs_uf st)" "b < uf_count (bs_uf st)"
  shows "\<exists>st'. bs_unite a b st = Ok st' \<and> grows st st' \<and> same_tree (bs_uf st') a b"
proof -
  have ok: "uf_wf (bs_uf st)" using assms(1) by (simp add: st_ok_def)
  obtain uf' where u: "uf_unite (bs_uf st) a b = Ok uf'" "uf_wf uf'" "uf_count uf' = uf_count (bs_uf st)" "node_key uf' = node_key (bs_uf st)"
    "\<forall>x y. same_tree uf' x y \<longleftrightarrow> same_tree (bs_uf st) x y \<or> same_tree (bs_uf st) x a \<and> same_tree (bs_uf st) b y \<or> same_tree (bs_uf st) x b \<and> same_tree (bs_uf st) a y"
    "\<forall>x. tree_pinned uf' x \<longleftrightarrow> tree_pinned (bs_uf st) x \<or> same_tree (bs_uf st) x a \<and> tree_pinned (bs_uf st) b \<or> same_tree (bs_uf st) x b \<and> tree_pinned (bs_uf st) a"
    using axes.unite_law [OF ok assms(2,3)] by blast
  have "same_tree uf' a b" using u(5) axes.same_refl [of "bs_uf st"] assms(2,3) by blast
  then show ?thesis using u assms(1) by (auto simp: bs_unite_def grows_def st_ok_def)
qed

lemma pin_grows:
  assumes "st_ok st" "a < uf_count (bs_uf st)"
  shows "\<exists>st'. bs_pin a st = Ok st' \<and> grows st st' \<and> tree_pinned (bs_uf st') a"
proof -
  have ok: "uf_wf (bs_uf st)" using assms(1) by (simp add: st_ok_def)
  obtain uf' where u: "uf_pin (bs_uf st) a = Ok uf'" "uf_wf uf'" "uf_count uf' = uf_count (bs_uf st)" "node_key uf' = node_key (bs_uf st)"
    "\<forall>x y. same_tree uf' x y \<longleftrightarrow> same_tree (bs_uf st) x y" "\<forall>x. tree_pinned uf' x \<longleftrightarrow> tree_pinned (bs_uf st) x \<or> same_tree (bs_uf st) x a"
    using axes.pin_law [OF ok assms(2)] by blast
  have "tree_pinned uf' a" using u(6) axes.same_refl [of "bs_uf st"] assms(2) by blast
  then show ?thesis using u assms(1) by (auto simp: bs_pin_def grows_def st_ok_def)
qed

definition pinned_axis :: "BuildState \<Rightarrow> string \<Rightarrow> nat \<Rightarrow> bool" where
  "pinned_axis st t d \<longleftrightarrow> (\<exists>h. bs_handle st (AxisKey t d) = Some h \<and> tree_pinned (bs_uf st) h)"

definition joined_axes :: "BuildState \<Rightarrow> string \<Rightarrow> nat \<Rightarrow> string \<Rightarrow> nat \<Rightarrow> bool" where
  "joined_axes st t d t' d' \<longleftrightarrow> (\<exists>h h'. bs_handle st (AxisKey t d) = Some h \<and> bs_handle st (AxisKey t' d') = Some h' \<and> same_tree (bs_uf st) h h')"

lemma grows_pinned: "grows a b \<Longrightarrow> pinned_axis a t d \<Longrightarrow> pinned_axis b t d"
  unfolding pinned_axis_def using grows_handle by (metis grows_def)

lemma grows_joined: "grows a b \<Longrightarrow> joined_axes a t d t' d' \<Longrightarrow> joined_axes b t d t' d'"
  unfolding joined_axes_def using grows_handle by (metis grows_def)

abbreviation weight_name :: "nat \<Rightarrow> string" where "weight_name idx \<equiv> dec_string idx @ ''.weight''"
abbreviation bias_name :: "nat \<Rightarrow> string" where "bias_name idx \<equiv> dec_string idx @ ''.bias''"

text \<open>A layer with weights: what it pins and what it joins.\<close>

lemma weight_layer_facts:
  assumes "weight_layer X gi src strict last_idx idx t layer (st, cur, sp) = Ok (st', cur', sp')" "st_ok st" "\<forall>c. cur = Some c \<longrightarrow> c < uf_count (bs_uf st)"
  shows "grows st st' \<and> (\<exists>i out. cur' = Some out \<and> bs_handle st' (AxisKey (weight_name idx) 0) = Some out \<and> bs_handle st' (AxisKey (weight_name idx) 1) = Some i \<and>
    (case cur of Some c \<Rightarrow> same_tree (bs_uf st') i c | None \<Rightarrow> strict \<longrightarrow> tree_pinned (bs_uf st') i) \<and>
    (ts_meta src (bias_name idx) \<noteq> None \<longrightarrow> joined_axes st' (bias_name idx) 0 (weight_name idx) 0) \<and>
    (idx = last_idx \<longrightarrow> tree_pinned (bs_uf st') out))"
proof -
  obtain wmeta where wm: "ts_meta src (weight_name idx) = Some wmeta" "2 \<le> length (tm_shape wmeta)"
    using assms(1) by (auto simp: weight_layer_def require_meta_def Let_def split: option.splits if_splits)
  obtain st1 out where r1: "register_axis st (weight_name idx) 0 (tm_shape wmeta ! 0) = (st1, out)" by (metis surj_pair)
  note g1 = register_grows [OF assms(2) _ r1, simplified]
  obtain st2 i where r2: "register_axis st1 (weight_name idx) 1 (tm_shape wmeta ! 1) = (st2, i)" by (metis surj_pair)
  note g2 = register_grows [OF grows_ok [OF g1(1)] _ r2, simplified, OF exI, OF g1(2)]
  have out2: "bs_handle st2 (AxisKey (weight_name idx) 0) = Some out" by (rule grows_handle [OF g2(1) g1(2)])
  note g02 = grows_trans [OF g1(1) g2(1)]
  obtain st3 where s3: "(case cur of Some c \<Rightarrow> bs_unite i c st2 | None \<Rightarrow> if strict then bs_pin i st2 else Ok st2) = Ok st3"
    "grows st2 st3" "case cur of Some c \<Rightarrow> same_tree (bs_uf st3) i c | None \<Rightarrow> strict \<longrightarrow> tree_pinned (bs_uf st3) i"
  proof (cases cur)
    case None
    then show ?thesis using that pin_grows [OF grows_ok [OF g2(1)] g2(3)] grows_refl [OF grows_ok [OF g2(1)]] by (cases strict) auto
  next
    case (Some c)
    have "c < uf_count (bs_uf st2)" using assms(3) Some g02 by (auto simp: grows_def)
    then show ?thesis using that unite_grows [OF grows_ok [OF g2(1)] g2(3)] Some by auto
  qed
  obtain st4 where s4: "(case ts_meta src (bias_name idx) of None \<Rightarrow> Ok st3
      | Some bmeta \<Rightarrow> SFS_TRY (shape_at0 bmeta) (\<lambda>len. let (st, bh) = register_axis st3 (bias_name idx) 0 len in bs_unite bh out st)) = Ok st4"
    using assms(1) wm r1 r2 s3(1) by (auto simp: weight_layer_def require_meta_def Let_def split: option.splits)
  have out3: "bs_handle st3 (AxisKey (weight_name idx) 0) = Some out" by (rule grows_handle [OF s3(2) out2])
  have g34: "grows st3 st4 \<and> (ts_meta src (bias_name idx) \<noteq> None \<longrightarrow> joined_axes st4 (bias_name idx) 0 (weight_name idx) 0)"
  proof (cases "ts_meta src (bias_name idx)")
    case None
    then show ?thesis using s4 grows_refl [OF grows_ok [OF s3(2)]] by simp
  next
    case (Some bm)
    then obtain len where "shape_at0 bm = Ok len" using s4 by auto
    obtain st3' bh where r: "register_axis st3 (bias_name idx) 0 len = (st3', bh)" by (metis surj_pair)
    note g = register_grows [OF grows_ok [OF s3(2)] _ r, simplified]
    have o: "bs_handle st3' (AxisKey (weight_name idx) 0) = Some out" by (rule grows_handle [OF g(1) out3])
    then have "out < uf_count (bs_uf st3')" using grows_ok [OF g(1)] by (simp add: st_ok_def)
    then obtain st5 where u: "bs_unite bh out st3' = Ok st5" "grows st3' st5" "same_tree (bs_uf st5) bh out" using unite_grows [OF grows_ok [OF g(1)] g(3)] by blast
    have "st5 = st4" using s4 Some \<open>shape_at0 bm = Ok len\<close> r u(1) by simp
    then show ?thesis using grows_trans [OF g(1) u(2)] u grows_handle [OF u(2)] g(2) o by (auto simp: joined_axes_def)
  qed
  have out4: "bs_handle st4 (AxisKey (weight_name idx) 0) = Some out" using grows_handle g34 out3 by blast
  then have "out < uf_count (bs_uf st4)" using g34 grows_ok by (auto simp: st_ok_def)
  then obtain st5 where s5: "(if idx = last_idx then bs_pin out st4 else Ok st4) = Ok st5" "grows st4 st5" "idx = last_idx \<longrightarrow> tree_pinned (bs_uf st5) out"
    using pin_grows [of st4 out] g34 grows_ok grows_refl by (metis (no_types, lifting))
  have fin: "st' = st5" "cur' = Some out"
    using assms(1) wm r1 r2 s3(1) s4 s5(1) by (auto simp: weight_layer_def require_meta_def Let_def)
  have g25: "grows st2 st5" using s3(2) g34 s5(2) grows_trans by blast
  have g35: "grows st3 st5" using g34 s5(2) grows_trans by blast
  show ?thesis unfolding fin using grows_trans [OF g02 g25] grows_handle [OF g25] out2 g2(2) s3(3) g35 g34 grows_joined [OF s5(2)] s5(3)
    by (auto simp: grows_def split: option.splits)
qed

lemma norm_axes_grows:
  "norm_axes src c pre sufs st = Ok st' \<Longrightarrow> st_ok st \<Longrightarrow> c < uf_count (bs_uf st) \<Longrightarrow> grows st st'"
proof (induction sufs arbitrary: st)
  case Nil
  then show ?case by (simp add: grows_refl)
next
  case (Cons suf sufs)
  show ?case
  proof (cases "ts_meta src (pre @ suf)")
    case None
    then show ?thesis using Cons by simp
  next
    case (Some m)
    obtain len where len: "shape_at0 m = Ok len" using Cons(2) Some by auto
    obtain st1 h where r: "register_axis st (pre @ suf) 0 len = (st1, h)" by (metis surj_pair)
    note g = register_grows [OF Cons(3) _ r, simplified]
    have c: "c < uf_count (bs_uf st1)" using g(1) Cons(4) by (auto simp: grows_def)
    obtain st2 where u: "bs_unite h c st1 = Ok st2" "grows st1 st2" using unite_grows [OF grows_ok [OF g(1)] g(3) c] by blast
    have "grows st2 st'" using Cons(1) [of st2] Cons(2) Some len r u c by (auto simp: grows_def)
    then show ?thesis using g(1) u(2) grows_trans by blast
  qed
qed

lemma walk_layer_facts:
  assumes "walk_layer X gi src strict last_idx idx layer (st, cur, sp) = Ok (st', cur', sp')" "st_ok st" "\<forall>c. cur = Some c \<longrightarrow> c < uf_count (bs_uf st)"
    "layer_type X layer = Ok t"
  shows "grows st st'"
    and "\<not> parametrised t \<Longrightarrow> cur' = cur"
    and "parametrised t \<Longrightarrow> weight_layer X gi src strict last_idx idx t layer (st, cur, sp) = Ok (st', cur', sp')"
proof -
  show w: "weight_layer X gi src strict last_idx idx t layer (st, cur, sp) = Ok (st', cur', sp')" if "parametrised t"
    using assms(1,4) that by (auto simp: walk_layer_def Let_def)
  have "grows st st' \<and> cur' = cur" if np: "\<not> parametrised t"
  proof (cases "t = ''batchnorm2d'' \<or> t = ''layernorm''")
    case True
    let ?norm = "\<lambda>c. norm_axes src c (dec_string idx) [''.weight'', ''.bias'', ''.running_mean'', ''.running_var''] st"
    have e: "walk_layer X gi src strict last_idx idx layer (st, cur, sp) =
      (case cur of None \<Rightarrow> SFS_ERR TopologyParse (dec_string idx) | Some c \<Rightarrow> SFS_TRY (?norm c) (\<lambda>st. Ok (st, cur, sp)))"
      using assms(4) True unfolding walk_layer_def prod.case by (elim disjE) (simp_all add: Let_def del: norm_axes.simps)
    obtain c where "cur = Some c" "SFS_TRY (?norm c) (\<lambda>st. Ok (st, cur, sp)) = Ok (st', cur', sp')" using assms(1) unfolding e by (cases cur) simp_all
    then have "cur = Some c" "?norm c = Ok st'" "cur' = cur" by (cases "?norm c"; simp)+
    then show ?thesis using norm_axes_grows assms(2,3) by blast
  next
    case False
    consider "t = ''maxpool2d''" | "t = ''flatten''" | "t \<noteq> ''maxpool2d''" "t \<noteq> ''flatten''" by blast
    then have "st' = st \<and> cur' = cur"
    proof cases
      case 1
      then show ?thesis using assms(1,4) by (auto simp: walk_layer_def split: list.splits)
    next
      case 2
      then show ?thesis using assms(1,4) by (auto simp: walk_layer_def split: list.splits)
    next
      case 3
      then show ?thesis using assms(1,4) np False unfolding walk_layer_def prod.case by (simp add: Let_def split: if_split_asm)
    qed
    then show ?thesis using grows_refl assms(2) by simp
  qed
  then show "grows st st'" "\<not> parametrised t \<Longrightarrow> cur' = cur"
    using weight_layer_facts [OF w assms(2,3)] by blast+
qed

text \<open>The layers with weights of a configuration, and what holds for each of them once the walk is over.\<close>

definition layer_is :: "'j Ext \<Rightarrow> 'j list \<Rightarrow> nat \<Rightarrow> bool" where
  "layer_is X ls i \<longleftrightarrow> i < length ls \<and> (\<exists>t. layer_type X (ls ! i) = Ok t \<and> parametrised t)"

definition entry_fixed :: "bool \<Rightarrow> BuildState \<Rightarrow> nat option \<Rightarrow> nat \<Rightarrow> bool" where
  "entry_fixed strict st cur idx \<longleftrightarrow> (case cur of
     None \<Rightarrow> strict \<longrightarrow> pinned_axis st (weight_name idx) 1
   | Some c \<Rightarrow> \<exists>h. bs_handle st (AxisKey (weight_name idx) 1) = Some h \<and> same_tree (bs_uf st) h c)"

definition layer_done :: "ShapeSource \<Rightarrow> nat \<Rightarrow> BuildState \<Rightarrow> nat \<Rightarrow> bool" where
  "layer_done src last_idx st idx \<longleftrightarrow> (ts_meta src (bias_name idx) \<noteq> None \<longrightarrow> joined_axes st (bias_name idx) 0 (weight_name idx) 0) \<and>
     (idx = last_idx \<longrightarrow> pinned_axis st (weight_name idx) 0)"

lemma layer_loop_facts:
  assumes "layer_loop X gi src strict last_idx idx ls (st, cur, sp) = Ok (st', cur', sp')" "st_ok st" "\<forall>c. cur = Some c \<longrightarrow> c < uf_count (bs_uf st)"
    "\<And>l. l \<in> set ls \<Longrightarrow> \<exists>t. layer_type X l = Ok t"
  shows "grows st st' \<and> (\<forall>i. layer_is X ls i \<longrightarrow> layer_done src last_idx st' (idx + i) \<and>
      ((\<forall>j < i. \<not> layer_is X ls j) \<longrightarrow> entry_fixed strict st' cur (idx + i)) \<and>
      (\<forall>j < i. layer_is X ls j \<and> (\<forall>k. j < k \<and> k < i \<longrightarrow> \<not> layer_is X ls k) \<longrightarrow> joined_axes st' (weight_name (idx + i)) 1 (weight_name (idx + j)) 0))"
  using assms
proof (induction ls arbitrary: idx st cur sp)
  case Nil
  then show ?case by (simp add: grows_refl layer_is_def)
next
  case (Cons l ls)
  obtain st1 cur1 sp1 where s1: "walk_layer X gi src strict last_idx idx l (st, cur, sp) = Ok (st1, cur1, sp1)"
    and loop: "layer_loop X gi src strict last_idx (Suc idx) ls (st1, cur1, sp1) = Ok (st', cur', sp')"
    using Cons(2) by (auto split: prod.splits)
  obtain t where t: "layer_type X l = Ok t" using Cons(5) by auto
  note w = walk_layer_facts [OF s1 Cons(3,4) t]
  have wf: "grows st st1 \<and> (\<exists>i out. cur1 = Some out \<and> bs_handle st1 (AxisKey (weight_name idx) 0) = Some out \<and> bs_handle st1 (AxisKey (weight_name idx) 1) = Some i \<and>
    (case cur of Some c \<Rightarrow> same_tree (bs_uf st1) i c | None \<Rightarrow> strict \<longrightarrow> tree_pinned (bs_uf st1) i) \<and>
    (ts_meta src (bias_name idx) \<noteq> None \<longrightarrow> joined_axes st1 (bias_name idx) 0 (weight_name idx) 0) \<and>
    (idx = last_idx \<longrightarrow> tree_pinned (bs_uf st1) out))" if "parametrised t"
    using weight_layer_facts [OF w(3) [OF that] Cons(3,4)] by blast
  have ok1: "st_ok st1" by (rule grows_ok [OF w(1)])
  have "c < uf_count (bs_uf st1)" if "cur1 = Some c" for c
  proof (cases "parametrised t")
    case True
    then show ?thesis using wf [OF True] that ok1 by (auto simp: st_ok_def)
  next
    case False
    then show ?thesis using w(1,2) that Cons(4) by (auto simp: grows_def)
  qed
  then have c1: "\<forall>c. cur1 = Some c \<longrightarrow> c < uf_count (bs_uf st1)" by blast
  have IH: "grows st1 st'"
    "\<And>i. layer_is X ls i \<Longrightarrow> layer_done src last_idx st' (Suc idx + i)"
    "\<And>i. layer_is X ls i \<Longrightarrow> \<forall>j < i. \<not> layer_is X ls j \<Longrightarrow> entry_fixed strict st' cur1 (Suc idx + i)"
    "\<And>i j. layer_is X ls i \<Longrightarrow> j < i \<Longrightarrow> layer_is X ls j \<Longrightarrow> \<forall>k. j < k \<and> k < i \<longrightarrow> \<not> layer_is X ls k \<Longrightarrow>
       joined_axes st' (weight_name (Suc idx + i)) 1 (weight_name (Suc idx + j)) 0"
    using Cons(1) [OF loop ok1 c1] Cons(5) by auto
  have is0: "layer_is X (l # ls) 0 \<longleftrightarrow> parametrised t" using t by (auto simp: layer_is_def)
  have isS: "layer_is X (l # ls) (Suc i) \<longleftrightarrow> layer_is X ls i" for i by (auto simp: layer_is_def)
  have h': "bs_handle st' k = Some h" if "bs_handle st1 k = Some h" for k h by (rule grows_handle [OF IH(1) that])
  have main: "layer_done src last_idx st' (idx + i) \<and> ((\<forall>j < i. \<not> layer_is X (l # ls) j) \<longrightarrow> entry_fixed strict st' cur (idx + i)) \<and>
      (\<forall>j < i. layer_is X (l # ls) j \<and> (\<forall>k. j < k \<and> k < i \<longrightarrow> \<not> layer_is X (l # ls) k) \<longrightarrow> joined_axes st' (weight_name (idx + i)) 1 (weight_name (idx + j)) 0)"
    if i: "layer_is X (l # ls) i" for i
  proof (cases i)
    case 0
    then have p: "parametrised t" using i is0 by simp
    obtain ih out where f: "cur1 = Some out" "bs_handle st1 (AxisKey (weight_name idx) 0) = Some out" "bs_handle st1 (AxisKey (weight_name idx) 1) = Some ih"
      "case cur of Some c \<Rightarrow> same_tree (bs_uf st1) ih c | None \<Rightarrow> strict \<longrightarrow> tree_pinned (bs_uf st1) ih"
      "ts_meta src (bias_name idx) \<noteq> None \<longrightarrow> joined_axes st1 (bias_name idx) 0 (weight_name idx) 0"
      "idx = last_idx \<longrightarrow> tree_pinned (bs_uf st1) out" using wf [OF p] by blast
    have "layer_done src last_idx st' idx"
      using f(2,5,6) grows_joined [OF IH(1)] grows_pinned [OF IH(1)] by (auto simp: layer_done_def pinned_axis_def intro: h')
    moreover have "entry_fixed strict st' cur idx"
      using f(3,4) h' IH(1) by (auto simp: entry_fixed_def pinned_axis_def grows_def split: option.splits)
    ultimately show ?thesis using 0 by simp
  next
    case (Suc k)
    have k: "layer_is X ls k" using i Suc isS by simp
    have ent: "entry_fixed strict st' cur (idx + i)" if no: "\<forall>j < i. \<not> layer_is X (l # ls) j"
    proof -
      have "\<not> parametrised t" "\<forall>j < k. \<not> layer_is X ls j" using no [rule_format, of 0] no [rule_format, of "Suc _"] Suc is0 isS by auto
      then show ?thesis using IH(3) [OF k] w(2) Suc by simp
    qed
    have jn: "joined_axes st' (weight_name (idx + i)) 1 (weight_name (idx + j)) 0"
      if j: "j < i" "layer_is X (l # ls) j" "\<forall>m. j < m \<and> m < i \<longrightarrow> \<not> layer_is X (l # ls) m" for j
    proof (cases j)
      case 0
      then have p: "parametrised t" using j(2) is0 by simp
      obtain ih out where f: "cur1 = Some out" "bs_handle st1 (AxisKey (weight_name idx) 0) = Some out" using wf [OF p] by blast
      have "\<forall>m < k. \<not> layer_is X ls m" using j(3) 0 Suc isS by auto
      then show ?thesis using IH(3) [OF k] f h' 0 Suc by (auto simp: entry_fixed_def joined_axes_def)
    next
      case J: (Suc m)
      have "\<forall>x. m < x \<and> x < k \<longrightarrow> \<not> layer_is X ls x" using j(3) J Suc isS by auto
      then show ?thesis using IH(4) [OF k] j(1,2) J Suc isS by auto
    qed
    show ?thesis using IH(2) [OF k] ent jn Suc by auto
  qed
  then show ?case using grows_trans [OF w(1) IH(1)] by blast
qed

lemma cover_axes_facts:
  assumes "cover_axes src es st = Ok st'" "st_ok st"
  shows "grows st st' \<and> (\<forall>e \<in> set es. \<forall>m. ts_meta src (be_tensor e) = Some m \<and> tm_shape m \<noteq> [] \<longrightarrow>
      be_tensor e \<in> set (bs_touched st') \<and> (be_tensor e \<notin> set (bs_touched st) \<longrightarrow> pinned_axis st' (be_tensor e) 0))"
  using assms
proof (induction es arbitrary: st)
  case Nil
  then show ?case by (simp add: grows_refl)
next
  case (Cons e es)
  consider (skip) "cover_axes src es st = Ok st'" "be_tensor e \<in> set (bs_touched st) \<or> (\<forall>m. ts_meta src (be_tensor e) = Some m \<longrightarrow> tm_shape m = [])"
    | (new) m where "ts_meta src (be_tensor e) = Some m" "tm_shape m \<noteq> []" "be_tensor e \<notin> set (bs_touched st)"
    using Cons(2) by (auto split: if_splits option.splits)
  then show ?case
  proof cases
    case skip
    then show ?thesis using Cons(1) [OF skip(1) Cons(3)] by (auto simp: grows_def)
  next
    case new
    obtain st1 h where r: "register_axis st (be_tensor e) 0 (tm_shape m ! 0) = (st1, h)" by (metis surj_pair)
    note g = register_grows [OF Cons(3) _ r, simplified]
    obtain st2 where p: "bs_pin h st1 = Ok st2" "grows st1 st2" "tree_pinned (bs_uf st2) h" using pin_grows [OF grows_ok [OF g(1)] g(3)] by blast
    have loop: "cover_axes src es st2 = Ok st'" using Cons(2) new r p(1) by simp
    note ih = Cons(1) [OF loop grows_ok [OF p(2)]]
    have pn: "pinned_axis st2 (be_tensor e) 0" using grows_handle [OF p(2) g(2)] p(3) by (auto simp: pinned_axis_def)
    have t: "set (bs_touched st2) = insert (be_tensor e) (set (bs_touched st))"
      using r p(1) by (auto simp: register_axis_def bs_pin_def Let_def split: option.splits prod.splits)
    have g': "grows st st'" using g(1) p(2) ih grows_trans by blast
    have pe: "pinned_axis st' (be_tensor e) 0" using grows_pinned ih pn by blast
    show ?thesis
    proof (intro conjI ballI allI impI g')
      fix e' m' assume e': "e' \<in> set (e # es)" "ts_meta src (be_tensor e') = Some m' \<and> tm_shape m' \<noteq> []"
      show "be_tensor e' \<in> set (bs_touched st')"
        using e' ih t by (cases "e' = e") (auto simp: grows_def)
      assume nt: "be_tensor e' \<notin> set (bs_touched st)"
      show "pinned_axis st' (be_tensor e') 0"
        using e' ih t nt pe by (cases "be_tensor e' = be_tensor e") auto
    qed
  qed
qed

subsection \<open>The parsed topology\<close>

definition axis_group :: "Topology \<Rightarrow> string \<Rightarrow> nat \<Rightarrow> string \<Rightarrow> bool" where
  "axis_group topo t d n \<longleftrightarrow> (\<exists>b. has_axis (topo_tensors topo) t b \<and> ax_dim b = d \<and> ax_group b = n)"

text \<open>An axis that is in one group, which is pinned; two axes that are in one and the same group.\<close>

definition axis_pinned :: "Topology \<Rightarrow> string \<Rightarrow> nat \<Rightarrow> bool" where
  "axis_pinned topo t d \<longleftrightarrow> (\<exists>n g. axis_group topo t d = (=) n \<and> topo_find_group topo n = Some g \<and> pinned g)"

definition axes_share :: "Topology \<Rightarrow> string \<Rightarrow> nat \<Rightarrow> string \<Rightarrow> nat \<Rightarrow> bool" where
  "axes_share topo t d t' d' \<longleftrightarrow> (\<exists>n. axis_group topo t d = (=) n \<and> axis_group topo t' d' = (=) n)"

lemma finalize_axes:
  assumes "st_ok st" "orders order" "uf_finalize order (bs_uf st) = Ok topo"
  shows "\<exists>G. (\<forall>t d h. bs_handle st (AxisKey t d) = Some h \<longrightarrow> axis_group topo t d = (=) (G h)) \<and>
    (\<forall>h < uf_count (bs_uf st). \<exists>g. topo_find_group topo (G h) = Some g \<and> pinned g = tree_pinned (bs_uf st) h) \<and>
    (\<forall>h h'. same_tree (bs_uf st) h h' \<longrightarrow> G h = G h')"
proof -
  let ?uf = "bs_uf st"
  have wf: "uf_wf ?uf" using assms(1) by (simp add: st_ok_def)
  obtain G where G: "\<forall>i < uf_count ?uf. \<forall>j < uf_count ?uf. G i = G j \<longleftrightarrow> same_tree ?uf i j"
    and fin: "\<forall>i < uf_count ?uf. topo_find_group topo (G i) = Some (component_group ?uf i)"
    and ax: "\<forall>t b. has_axis (topo_tensors topo) t b \<longleftrightarrow>
         (\<exists>i < uf_count ?uf. t = ak_tensor (node_key ?uf i) \<and> b = axis_for (uf_nodes ?uf) (G i) (component_group ?uf i) i)"
  proof -
    obtain G where G: "\<forall>i < uf_count ?uf. \<forall>j < uf_count ?uf. G i = G j \<longleftrightarrow> same_tree ?uf i j"
      and F: "if \<forall>i < uf_count ?uf. divides_axis (uf_nodes ?uf) (component_group ?uf i) i
       then \<exists>topo. uf_finalize order ?uf = Ok topo \<and>
         (\<forall>i < uf_count ?uf. topo_find_group topo (G i) = Some (component_group ?uf i)) \<and>
         (\<forall>t b. has_axis (topo_tensors topo) t b \<longleftrightarrow>
           (\<exists>i < uf_count ?uf. t = ak_tensor (node_key ?uf i) \<and> b = axis_for (uf_nodes ?uf) (G i) (component_group ?uf i) i))
       else \<exists>c. uf_finalize order ?uf = SFS_ERR BlockFactorMismatch c"
      using finalize_correct [OF wf assms(2)] by blast
    have "\<forall>i < uf_count ?uf. divides_axis (uf_nodes ?uf) (component_group ?uf i) i" using F assms(3) by (simp split: if_split_asm)
    then show thesis using F G assms(3) by (intro that [OF G]) simp_all
  qed
  have one: "axis_group topo t d = (=) (G h)" if h: "bs_handle st (AxisKey t d) = Some h" for t d h
  proof -
    have k: "h < uf_count ?uf" "node_key ?uf h = AxisKey t d" using assms(1) h by (auto simp: st_ok_def)
    have uniq: "i = h" if "i < uf_count ?uf" "node_key ?uf i = AxisKey t d" for i
    proof -
      have idx: "\<And>k j. uf_index ?uf k = Some j \<longleftrightarrow> j < uf_count ?uf \<and> node_key ?uf j = k" using wf by (auto simp: uf_wf_def index_ok_def node_key_def uf_count_def)
      show ?thesis using idx [of "AxisKey t d" i] idx [of "AxisKey t d" h] that k by simp
    qed
    have e: "axis_group topo t d n \<longleftrightarrow> (\<exists>i < uf_count ?uf. node_key ?uf i = AxisKey t d \<and> n = G i)" for n
    proof -
      have d: "ax_dim (axis_for (uf_nodes ?uf) (G i) g i) = ak_dim (node_key ?uf i)" "ax_group (axis_for (uf_nodes ?uf) (G i) g i) = G i" if "i < uf_count ?uf" for i g
        using that by (simp_all add: axis_for_def node_key_def)
      have k: "node_key ?uf i = AxisKey t d \<longleftrightarrow> t = ak_tensor (node_key ?uf i) \<and> ak_dim (node_key ?uf i) = d" for i by (cases "node_key ?uf i") auto
      show ?thesis unfolding axis_group_def ax [rule_format] k using d by metis
    qed
    show ?thesis
    proof (intro ext iffI)
      fix n assume "axis_group topo t d n"
      then obtain i where i: "i < uf_count ?uf" "node_key ?uf i = AxisKey t d" "n = G i" unfolding e by blast
      then show "G h = n" using uniq [OF i(1,2)] by simp
    next
      fix n assume "G h = n"
      then show "axis_group topo t d n" unfolding e using k by blast
    qed
  qed
  show ?thesis
    by (rule exI [of _ G]) (use one fin G in \<open>auto simp: component_group_def same_tree_def\<close>)
qed

lemma parse_topology_stages:
  assumes "parse_topology X gi order src config_json strict = Ok topo"
  obtains st0 st where "read_config X gi src config_json strict = Ok st0" "cover_axes src (ts_layout src) st0 = Ok st"
    "uf_finalize order (bs_uf st) = Ok topo" "topology_validate topo (shapes_of src) = Ok ()"
  using assms unfolding parse_topology_def SFS_TRY_Ok_iff by auto

lemma empty_ok: "st_ok bs_empty"
  by (simp add: st_ok_def bs_empty_def uf_empty_def uf_wf_def uf_ok_def pin_ok_def index_ok_def uf_count_def)

text \<open>A configuration that is read: the layers it lists and the walk over them.\<close>

lemma read_config_walk:
  assumes "read_config X gi src config_json strict = Ok st" "config_json \<noteq> []"
  obtains cfg layers ts sp w where "j_parse X config_json = Some cfg" "j_at X cfg ''layers'' = Some layers" "map_res (layer_type X) (json_elems X layers) = Ok ts"
    "filter (\<lambda>i. parametrised (ts ! i)) [0..<length ts] \<noteq> []"
    "layer_loop X gi src strict (last (filter (\<lambda>i. parametrised (ts ! i)) [0..<length ts])) 0 (json_elems X layers) (bs_empty, None, sp) = Ok (st, w)"
proof -
  obtain cfg inp layers where c: "j_parse X config_json = Some cfg" "j_at X cfg ''layers'' = Some layers" "walk_layers X gi src layers inp strict bs_empty = Ok st"
    using assms unfolding read_config_def json_at_def by (auto simp: SFS_TRY_Ok_iff split: option.splits if_splits)
  obtain ts w where "map_res (layer_type X) (json_elems X layers) = Ok ts"
    "filter (\<lambda>i. parametrised (ts ! i)) [0..<length ts] \<noteq> []"
    "layer_loop X gi src strict (last (filter (\<lambda>i. parametrised (ts ! i)) [0..<length ts])) 0 (json_elems X layers)
       (bs_empty, None, case inp of Some s \<Rightarrow> s | None \<Rightarrow> []) = Ok (st, w)"
    using c(3) unfolding walk_layers_def Let_def by (auto simp: SFS_TRY_Ok_iff split: if_splits)
  then show thesis using that c(1,2) by blast
qed

lemma types_known: "map_res (layer_type X) ls = Ok ts \<Longrightarrow> l \<in> set ls \<Longrightarrow> \<exists>t. layer_type X l = Ok t"
  unfolding map_res_Ok by (auto simp: list_all2_conv_all_nth in_set_conv_nth)

lemma layer_is_types: "map_res (layer_type X) ls = Ok ts \<Longrightarrow> layer_is X ls i \<longleftrightarrow> i \<in> set (filter (\<lambda>i. parametrised (ts ! i)) [0..<length ts])"
  unfolding map_res_Ok layer_is_def by (auto simp: list_all2_conv_all_nth)

lemma read_config_grows:
  assumes "read_config X gi src config_json strict = Ok st"
  shows "st_ok st"
proof (cases "config_json = []")
  case True
  then show ?thesis using assms empty_ok by (simp add: read_config_def)
next
  case False
  obtain ts ls lst sp w where t: "map_res (layer_type X) ls = Ok ts" and w: "layer_loop X gi src strict lst 0 ls (bs_empty, None, sp) = Ok (st, fst w, snd w)"
    by (rule read_config_walk [OF assms False]) simp
  have "grows bs_empty st" using layer_loop_facts [OF w empty_ok] types_known [OF t] by simp
  then show ?thesis by (rule grows_ok)
qed

lemma sorted_last_max: "sorted xs \<Longrightarrow> x \<in> set xs \<Longrightarrow> x \<le> last xs" for x :: nat
  by (induction xs) (auto simp: last_in_set)

lemma parsed_state:
  assumes "parse_topology X gi order src config_json strict = Ok topo" "orders order"
  obtains st0 st where "read_config X gi src config_json strict = Ok st0" "grows st0 st" "cover_axes src (ts_layout src) st0 = Ok st"
    "\<And>t d. pinned_axis st t d \<Longrightarrow> axis_pinned topo t d" "\<And>t d t' d'. joined_axes st t d t' d' \<Longrightarrow> axes_share topo t d t' d'"
    "\<And>t. t \<in> set (bs_touched st) \<Longrightarrow> \<exists>n. axis_group topo t 0 = (=) n" "topology_validate topo (shapes_of src) = Ok ()"
proof -
  obtain st0 st where s: "read_config X gi src config_json strict = Ok st0" "cover_axes src (ts_layout src) st0 = Ok st"
    "uf_finalize order (bs_uf st) = Ok topo" "topology_validate topo (shapes_of src) = Ok ()" by (rule parse_topology_stages [OF assms(1)])
  have g: "grows st0 st" using cover_axes_facts [OF s(2) read_config_grows [OF s(1)]] by blast
  note ok = grows_ok [OF g]
  obtain G where G: "\<forall>t d h. bs_handle st (AxisKey t d) = Some h \<longrightarrow> axis_group topo t d = (=) (G h)"
    "\<forall>h < uf_count (bs_uf st). \<exists>g. topo_find_group topo (G h) = Some g \<and> pinned g = tree_pinned (bs_uf st) h"
    "\<forall>h h'. same_tree (bs_uf st) h h' \<longrightarrow> G h = G h'" using finalize_axes [OF ok assms(2) s(3)] by blast
  show thesis
  proof (rule that [OF s(1) g s(2) _ _ _ s(4)])
    show "axis_pinned topo t d" if p: "pinned_axis st t d" for t d
    proof -
      obtain h where h: "bs_handle st (AxisKey t d) = Some h" "tree_pinned (bs_uf st) h" using p by (auto simp: pinned_axis_def)
      have "h < uf_count (bs_uf st)" using h(2) by (simp add: tree_pinned_def)
      then obtain g where "topo_find_group topo (G h) = Some g" "pinned g" using G(2) h(2) by blast
      then show ?thesis using G(1) h(1) by (auto simp: axis_pinned_def)
    qed
    show "axes_share topo t d t' d'" if j: "joined_axes st t d t' d'" for t d t' d'
    proof -
      obtain h h' where h: "bs_handle st (AxisKey t d) = Some h" "bs_handle st (AxisKey t' d') = Some h'" "same_tree (bs_uf st) h h'"
        using j by (auto simp: joined_axes_def)
      have "G h = G h'" using G(3) h(3) by blast
      then show ?thesis using G(1) h(1,2) by (auto simp: axes_share_def)
    qed
    show "\<exists>n. axis_group topo t 0 = (=) n" if t: "t \<in> set (bs_touched st)" for t
    proof -
      obtain h where "bs_handle st (AxisKey t 0) = Some h" using ok t by (auto simp: st_ok_def)
      then show ?thesis using G(1) by blast
    qed
  qed
qed

text \<open>
  C35: whatever the configuration names or leaves out, in a topology that the parser returns every tensor of the file that has an
  axis has its axis 0 in exactly one group, and every axis of it that is bound has the length its group's unit count and its block
  factor give; so a permutation of the group never misses part of the tensor. When the configuration is empty that group is pinned.
\<close>

theorem parse_topology_covers:
  assumes "parse_topology X gi order src config_json strict = Ok topo" "orders order"
    and "e \<in> set (ts_layout src)" "ts_meta src (be_tensor e) = Some m" "tm_shape m \<noteq> []"
  shows "(\<exists>n. axis_group topo (be_tensor e) 0 = (=) n) \<and> (\<forall>b. has_axis (topo_tensors topo) (be_tensor e) b \<longrightarrow> axis_ok topo (tm_shape m) b) \<and>
    (config_json = [] \<longrightarrow> axis_pinned topo (be_tensor e) 0)"
proof -
  obtain st0 st where s: "read_config X gi src config_json strict = Ok st0" "cover_axes src (ts_layout src) st0 = Ok st"
    and p: "\<And>t d. pinned_axis st t d \<Longrightarrow> axis_pinned topo t d" and t: "\<And>t. t \<in> set (bs_touched st) \<Longrightarrow> \<exists>n. axis_group topo t 0 = (=) n"
    and v: "topology_validate topo (shapes_of src) = Ok ()" by (rule parsed_state [OF assms(1,2)]) blast
  note c = cover_axes_facts [OF s(2) read_config_grows [OF s(1)]]
  have touched: "be_tensor e \<in> set (bs_touched st)" using c assms(3-5) by blast
  have sh: "shapes_of src (be_tensor e) = Some (tm_shape m)" using assms(3,4) by (auto simp: shapes_of_def)
  have "axis_ok topo (tm_shape m) b" if b: "has_axis (topo_tensors topo) (be_tensor e) b" for b
  proof -
    obtain axes where "(be_tensor e, axes) \<in> set (topo_tensors topo)" "b \<in> set axes" using b by (auto simp: has_axis_def dest: map_of_SomeD)
    then show ?thesis using v sh unfolding topology_validate_Ok by fastforce
  qed
  moreover have "axis_pinned topo (be_tensor e) 0" if "config_json = []"
  proof -
    have "be_tensor e \<notin> set (bs_touched st0)" using s(1) that by (auto simp: read_config_def bs_empty_def)
    then show ?thesis using p c assms(3-5) by blast
  qed
  ultimately show ?thesis using t [OF touched] by blast
qed

text \<open>
  C15: in a topology parsed from a configuration, in strict mode: the input axis of the first layer with weights is pinned, the output axis of
  the last one is pinned (class identity is fixed), a bias is in the group of its layer's output, and the input of every
  layer with weights is in the group of the output of the layer with weights before it.
\<close>

theorem parse_topology_pins:
  assumes "parse_topology X gi order src config_json True = Ok topo" "orders order" "config_json \<noteq> []"
    and "j_parse X config_json = Some cfg" "j_at X cfg ''layers'' = Some layers" "layer_is X (json_elems X layers) i"
  shows "(\<not> (\<exists>j < i. layer_is X (json_elems X layers) j) \<longrightarrow> axis_pinned topo (weight_name i) 1) \<and>
    (\<not> (\<exists>j > i. layer_is X (json_elems X layers) j) \<longrightarrow> axis_pinned topo (weight_name i) 0) \<and>
    (ts_meta src (bias_name i) \<noteq> None \<longrightarrow> axes_share topo (bias_name i) 0 (weight_name i) 0) \<and>
    (\<forall>j < i. layer_is X (json_elems X layers) j \<and> \<not> (\<exists>k. j < k \<and> k < i \<and> layer_is X (json_elems X layers) k) \<longrightarrow>
      axes_share topo (weight_name i) 1 (weight_name j) 0)"
proof -
  let ?ls = "json_elems X layers"
  obtain st0 st where s: "read_config X gi src config_json True = Ok st0" "grows st0 st"
    and p: "\<And>t d. pinned_axis st t d \<Longrightarrow> axis_pinned topo t d" and j: "\<And>t d t' d'. joined_axes st t d t' d' \<Longrightarrow> axes_share topo t d t' d'"
    by (rule parsed_state [OF assms(1,2)]) blast
  obtain cfg' layers' ts sp w where c: "j_parse X config_json = Some cfg'" "j_at X cfg' ''layers'' = Some layers'" "map_res (layer_type X) (json_elems X layers') = Ok ts"
    "filter (\<lambda>i. parametrised (ts ! i)) [0..<length ts] \<noteq> []"
    "layer_loop X gi src True (last (filter (\<lambda>i. parametrised (ts ! i)) [0..<length ts])) 0 (json_elems X layers') (bs_empty, None, sp) = Ok (st0, fst w, snd w)"
    by (rule read_config_walk [OF s(1) assms(3)]) simp
  have same: "layers' = layers" using assms(4,5) c(1,2) by simp
  note c = c [unfolded same]
  let ?ps = "filter (\<lambda>i. parametrised (ts ! i)) [0..<length ts]"
  have f: "layer_done src (last ?ps) st0 i \<and> ((\<forall>j < i. \<not> layer_is X ?ls j) \<longrightarrow> entry_fixed True st0 None i) \<and>
      (\<forall>j < i. layer_is X ?ls j \<and> (\<forall>k. j < k \<and> k < i \<longrightarrow> \<not> layer_is X ?ls k) \<longrightarrow> joined_axes st0 (weight_name i) 1 (weight_name j) 0)"
    using layer_loop_facts [OF c(5) empty_ok] types_known [OF c(3)] assms(6) by simp
  have lst: "i = last ?ps" if no: "\<not> (\<exists>j > i. layer_is X ?ls j)"
  proof -
    have "i \<in> set ?ps" using layer_is_types [OF c(3)] assms(6) by blast
    moreover have "\<forall>j \<in> set ?ps. j \<le> i" using no layer_is_types [OF c(3)] by (meson linorder_not_less)
    moreover have "sorted ?ps" by (simp add: sorted_wrt_filter)
    moreover have "i \<le> last ?ps" using calculation(1,3) by (simp only: sorted_last_max)
    ultimately show ?thesis using c(4) by (meson last_in_set le_antisym)
  qed
  have d: "layer_done src (last ?ps) st0 i" using f by simp
  have "axis_pinned topo (weight_name i) 1" if "\<not> (\<exists>j < i. layer_is X ?ls j)"
    using f that p grows_pinned [OF s(2)] by (auto simp: entry_fixed_def)
  moreover have "axis_pinned topo (weight_name i) 0" if "\<not> (\<exists>j > i. layer_is X ?ls j)"
    using d lst [OF that] p grows_pinned [OF s(2)] by (simp add: layer_done_def)
  moreover have "axes_share topo (bias_name i) 0 (weight_name i) 0" if "ts_meta src (bias_name i) \<noteq> None"
    using d that j grows_joined [OF s(2)] by (simp add: layer_done_def)
  moreover have "axes_share topo (weight_name i) 1 (weight_name k) 0" if "k < i" "layer_is X ?ls k" "\<not> (\<exists>m. k < m \<and> m < i \<and> layer_is X ?ls m)" for k
    using f that j grows_joined [OF s(2)] by auto
  ultimately show ?thesis by blast
qed

section \<open>A concrete configuration\<close>

definition mlp_config :: toy_json where
  "mlp_config = TObj [(''layers'', TArr [TObj [(''type'', TStr ''linear'')]])]"

definition mlp_meta :: "string \<Rightarrow> u64 list \<Rightarrow> TensorMeta" where
  "mlp_meta name shape = \<lparr>shape_owner = name, tm_shape = shape, tm_dtype = F16, data_off = 0, tm_nbytes = 0\<rparr>"

definition mlp_source :: ShapeSource where
  "mlp_source = \<lparr>ts_meta = map_of [(''0.weight'', mlp_meta ''0.weight'' [2, 3]), (''0.bias'', mlp_meta ''0.bias'' [2])],
     ts_layout = map (\<lambda>n. \<lparr>be_tensor = n, be_off = 0, be_nbytes = 0, be_group = n\<rparr>) [''0.weight'', ''0.bias'']\<rparr>"

abbreviation mlp_X :: "toy_json Ext" where "mlp_X \<equiv> toy_ext mlp_config"

definition mlp_nodes :: "Node list" where
  "mlp_nodes = [\<lparr>nd_key = AxisKey ''0.weight'' 0, nd_len = 2, nd_parent = 2, nd_rank = 0, nd_pinned = False\<rparr>,
     \<lparr>nd_key = AxisKey ''0.weight'' 1, nd_len = 3, nd_parent = 1, nd_rank = 0, nd_pinned = True\<rparr>,
     \<lparr>nd_key = AxisKey ''0.bias'' 0, nd_len = 2, nd_parent = 2, nd_rank = 1, nd_pinned = True\<rparr>]"

definition mlp_topology :: Topology where
  "mlp_topology = \<lparr>topo_groups = [(''g0'', \<lparr>pg_size = 3, pinned = True\<rparr>), (''g1'', \<lparr>pg_size = 2, pinned = True\<rparr>)],
     topo_tensors = [(''0.weight'', [\<lparr>ax_dim = 0, ax_group = ''g1'', ax_block = 1\<rparr>, \<lparr>ax_dim = 1, ax_group = ''g0'', ax_block = 1\<rparr>]),
       (''0.bias'', [\<lparr>ax_dim = 0, ax_group = ''g1'', ax_block = 1\<rparr>])]\<rparr>"

lemma dec_string_0: "dec_string 0 = ''0''"
  by code_simp

lemma mlp_layer: "layer_type mlp_X (TObj [(''type'', TStr ''linear'')]) = Ok ''linear''"
  by (simp add: layer_type_def json_value_def json_at_def toy_ext_def)

lemma mlp_elems: "json_elems mlp_X (TArr xs) = xs" "j_is_array mlp_X (TArr xs)"
  by (simp_all add: json_elems_def toy_ext_def comp_def)

lemma mlp_weight: "\<exists>st c. weight_layer mlp_X (\<lambda>_. None) mlp_source True 0 0 ''linear'' layer (bs_empty, None, []) = Ok (st, c) \<and>
    uf_nodes (bs_uf st) = mlp_nodes \<and> bs_touched st = [''0.bias'', ''0.weight'', ''0.weight'']"
  by (simp add: weight_layer_def require_meta_def dec_string_0 Let_def mlp_source_def mlp_meta_def register_axis_def bs_empty_def uf_empty_def uf_add_def
      bs_unite_def bs_pin_def uf_unite_def uf_pin_def uf_find_def link_roots_def shape_at0_def mlp_nodes_def)

lemma mlp_finalize: "uf_nodes uf = mlp_nodes \<Longrightarrow> uf_finalize id uf = Ok mlp_topology"
proof -
  assume n: "uf_nodes uf = mlp_nodes"
  have "uf_finalize id \<lparr>uf_nodes = mlp_nodes, uf_index = Map.empty\<rparr> = Ok mlp_topology" by code_simp
  then show ?thesis using n by (simp add: uf_finalize_def)
qed

lemma mlp_validate: "topology_validate mlp_topology (shapes_of mlp_source) = Ok ()"
  by code_simp

lemma mlp_parses: "parse_topology mlp_X (\<lambda>_. None) id mlp_source [1] True = Ok mlp_topology"
proof -
  let ?l = "TObj [(''type'', TStr ''linear'')]"
  obtain st c where w: "weight_layer mlp_X (\<lambda>_. None) mlp_source True 0 0 ''linear'' ?l (bs_empty, None, []) = Ok (st, c)"
    "uf_nodes (bs_uf st) = mlp_nodes" "bs_touched st = [''0.bias'', ''0.weight'', ''0.weight'']" using mlp_weight by blast
  have "walk_layer mlp_X (\<lambda>_. None) mlp_source True 0 0 ?l (bs_empty, None, []) = Ok (st, c)"
    using w(1) by (simp add: walk_layer_def mlp_layer)
  then have "walk_layers mlp_X (\<lambda>_. None) mlp_source (TArr [?l]) None True bs_empty = Ok st"
    by (simp add: walk_layers_def mlp_elems mlp_layer)
  moreover have "j_parse mlp_X [1] = Some mlp_config" "j_contains mlp_X mlp_config k \<longleftrightarrow> k = ''layers''" "json_at mlp_X mlp_config ''layers'' = Ok (TArr [?l])" for k
    by (simp_all add: toy_ext_def mlp_config_def json_at_def)
  ultimately have r: "read_config mlp_X (\<lambda>_. None) mlp_source [1] True = Ok st" by (simp add: read_config_def)
  have "cover_axes mlp_source (ts_layout mlp_source) st = Ok st" using w(3) by (simp add: mlp_source_def)
  then show ?thesis using r mlp_finalize [OF w(2)] mlp_validate by (simp add: parse_topology_def)
qed

lemma id_orders: "orders id"
  by (simp add: orders_def)

theorem parse_topology_covers_witness: "\<exists>n. axis_group mlp_topology ''0.bias'' 0 = (=) n"
  using parse_topology_covers [OF mlp_parses id_orders, of "\<lparr>be_tensor = ''0.bias'', be_off = 0, be_nbytes = 0, be_group = ''0.bias''\<rparr>" "mlp_meta ''0.bias'' [2]"]
  by (simp add: mlp_source_def mlp_meta_def)

theorem parse_topology_pins_witness:
  "axis_pinned mlp_topology ''0.weight'' 0 \<and> axis_pinned mlp_topology ''0.weight'' 1 \<and> axes_share mlp_topology ''0.bias'' 0 ''0.weight'' 0"
proof -
  let ?l = "TObj [(''type'', TStr ''linear'')]"
  have c: "j_parse mlp_X [1] = Some mlp_config" "j_at mlp_X mlp_config ''layers'' = Some (TArr [?l])" by (simp_all add: toy_ext_def mlp_config_def)
  have l: "layer_is mlp_X (json_elems mlp_X (TArr [?l])) j \<longleftrightarrow> j = 0" for j by (auto simp: layer_is_def mlp_elems mlp_layer)
  have "ts_meta mlp_source ''0.bias'' \<noteq> None" by (simp add: mlp_source_def)
  then show ?thesis using parse_topology_pins [OF mlp_parses id_orders _ c, of 0] by (simp add: l dec_string_0)
qed

end
