(* ===== verification/App_Checkout.thy ===== *)
theory App_Checkout
  imports Stio_Files Align_Topology Store_Commits Core_Config
begin

section \<open>sfs checkout\<close>

text \<open>
  \<open>apps/sfs/cmd/checkout.cpp\<close> and \<open>apps/sfs/header_only_source.hpp\<close>: the whole command, from finding the repository to the file in place. The repository is the
  object store, the refs and the user's files; what the operating system decides is \<open>E\<close>, with \<open>ce_objects\<close> the listing of the object directory.
  The result is the exit status; what is printed is not modelled. Reading through the caches of \<open>CommitStore\<close> and \<open>ManifestStore\<close> is
  \<open>manifest_for\<close>, started with the caches as they are after the commit and its manifest were read. \<open>fuel\<close> bounds the recursion of \<open>rev_parse\<close> and of delta chains.
\<close>

text \<open>\<open>HeaderOnlyTensorSource\<close> answers \<open>meta\<close> and \<open>buffer_layout\<close> from a parsed header.\<close>

definition header_source :: "StHeader \<Rightarrow> ShapeSource" where
  "header_source h = \<lparr>ts_meta = map_of (st_tensors h), ts_layout = buffer_layout h\<rparr>"

definition load_commit_topology :: "'j Ext \<Rightarrow> ('j \<Rightarrow> int option) \<Rightarrow> (nat list \<Rightarrow> nat list) \<Rightarrow> files \<Rightarrow> Commit \<Rightarrow> Manifest \<Rightarrow> Topology option res" where
  "load_commit_topology X gi order fs c m =
     (case loose_get X fs (fi_header_block (m_file m)) KHeader of
        Abort a \<Rightarrow> Abort a
      | Err _ \<Rightarrow> Ok None
      | Ok header_bytes \<Rightarrow>
          (case parse_st_header X header_bytes of
             Abort a \<Rightarrow> Abort a
           | Err _ \<Rightarrow> Ok None
           | Ok st_header \<Rightarrow>
               (case loose_get X fs (c_topology c) KTopology of
                  Abort a \<Rightarrow> Abort a
                | Err _ \<Rightarrow> Ok None
                | Ok topo_bytes \<Rightarrow>
                    (case parse_topology X gi order (header_source st_header) topo_bytes True of
                       Abort a \<Rightarrow> Abort a
                     | Err _ \<Rightarrow> Ok None
                     | Ok topo \<Rightarrow> Ok (Some topo)))))"

record cmd_env =
  ce_cwd :: "comps option"
  ce_exists :: "comps \<Rightarrow> bool"
  ce_config :: "string option"
  ce_floats :: Float_Ops
  ce_objects :: "(string \<times> string) list"
  ce_head_write :: bool
  ce_writer :: st_env
  ce_pid :: nat

record repo =
  rp_store :: files
  rp_refs :: RefFiles
  rp_files :: files

text \<open>How the command ends: with status 0 and its message, or with an error's status.\<close>

datatype cmd_outcome = Success | Failure int

primrec exit_status :: "cmd_outcome \<Rightarrow> int" where
  "exit_status Success = 0"
| "exit_status (Failure n) = n"

definition names_branch :: "RefFiles \<Rightarrow> string \<Rightarrow> bool" where
  "names_branch R revision \<longleftrightarrow> list_ex (\<lambda>h. ref_name h = refs_prefix @ revision \<or> ref_name h = revision) (list_heads R)"

text \<open>Moving HEAD: to the branch, or to the revision itself.\<close>

definition checkout_head :: "nat \<Rightarrow> (string \<times> string) list \<Rightarrow> bool \<Rightarrow> string \<Rightarrow> RefFiles \<Rightarrow> RefFiles \<times> Oid res" where
  "checkout_head fuel objs w revision R =
     (if names_branch R revision then
        (case resolve fuel objs R (refs_prefix @ revision) of
           Ok tip \<Rightarrow> (case set_head_symbolic R w (refs_prefix @ revision) of
                        (R', Ok _) \<Rightarrow> (R', Ok tip)
                      | (R', Err e) \<Rightarrow> (R', Err e)
                      | (R', Abort a) \<Rightarrow> (R', Abort a))
         | Err e \<Rightarrow> (R, Err e)
         | Abort a \<Rightarrow> (R, Abort a))
      else
        (case rev_parse fuel objs R revision of
           Ok r \<Rightarrow> (case set_head_detached R w r of
                      (R', Ok _) \<Rightarrow> (R', Ok r)
                    | (R', Err e) \<Rightarrow> (R', Err e)
                    | (R', Abort a) \<Rightarrow> (R', Abort a))
         | Err e \<Rightarrow> (R, Err e)
         | Abort a \<Rightarrow> (R, Abort a)))"

definition checkout_output :: "'j Ext \<Rightarrow> ('j \<Rightarrow> int option) \<Rightarrow> (nat list \<Rightarrow> nat list) \<Rightarrow> Isa \<Rightarrow> nat \<Rightarrow> cmd_env \<Rightarrow> u32 \<Rightarrow> string \<Rightarrow>
    commit_cache \<Rightarrow> manifest_cache \<Rightarrow> Commit \<Rightarrow> Manifest \<Rightarrow> files \<Rightarrow> files \<Rightarrow> files \<times> unit res" where
  "checkout_output X gi order isa fuel E depth output cc mc c m store out =
     (case load_commit_topology X gi order store c m of
        Ok topology \<Rightarrow>
          checkout_file X isa fuel \<lparr>rc_blocks = Some (loose_blocks X store), rc_manifest = Some m,
              rc_history = Some (\<lambda>coid. snd (manifest_for X store cc mc coid)), rc_max_depth = depth, rc_topology = topology\<rparr>
            (ce_writer E) (ce_pid E) output m out
      | Err e \<Rightarrow> (out, Err e)
      | Abort a \<Rightarrow> (out, Abort a))"

text \<open>The status of a step that failed, or of the command when it did not.\<close>

definition status_of :: "unit res \<Rightarrow> cmd_outcome res" where
  "status_of r = (case r of Ok _ \<Rightarrow> Ok Success | Err e \<Rightarrow> Ok (Failure (exit_code e)) | Abort a \<Rightarrow> Abort a)"

definition run_checkout :: "'j Ext \<Rightarrow> ('j \<Rightarrow> int option) \<Rightarrow> (nat list \<Rightarrow> nat list) \<Rightarrow> Isa \<Rightarrow> nat \<Rightarrow> cmd_env \<Rightarrow> string \<Rightarrow> string \<Rightarrow> repo \<Rightarrow> repo \<times> cmd_outcome res" where
  "run_checkout X gi order isa fuel E revision output rp =
     (case discover (ce_exists E) (ce_cwd E) of
        Abort a \<Rightarrow> (rp, Abort a)
      | Err _ \<Rightarrow> (rp, Ok (Failure 3))
      | Ok root \<Rightarrow>
     (case config_load (ce_floats E) (ce_config E) of
        Abort a \<Rightarrow> (rp, Abort a)
      | Err e \<Rightarrow> (rp, Ok (Failure (exit_code e)))
      | Ok cfg \<Rightarrow>
     (case checkout_head fuel (ce_objects E) (ce_head_write E) revision (rp_refs rp) of
        (R', Abort a) \<Rightarrow> (rp\<lparr>rp_refs := R'\<rparr>, Abort a)
      | (R', Err e) \<Rightarrow> (rp\<lparr>rp_refs := R'\<rparr>, Ok (Failure (exit_code e)))
      | (R', Ok target) \<Rightarrow>
     (let rp' = rp\<lparr>rp_refs := R'\<rparr>
      in case commit_read X (rp_store rp) Map.empty target of
        (_, Abort a) \<Rightarrow> (rp', Abort a)
      | (_, Err e) \<Rightarrow> (rp', Ok (Failure (exit_code e)))
      | (cc, Ok c) \<Rightarrow>
     (case manifest_read X (rp_store rp) Map.empty (c_manifest c) of
        (_, Abort a) \<Rightarrow> (rp', Abort a)
      | (_, Err e) \<Rightarrow> (rp', Ok (Failure (exit_code e)))
      | (mc, Ok m) \<Rightarrow>
         if output = [] then (rp', Ok Success)
         else let (out, r) = checkout_output X gi order isa fuel E (max_chain_depth cfg) output cc mc c m (rp_store rp) (rp_files rp)
              in (rp'\<lparr>rp_files := out\<rparr>, status_of r))))))"

subsection \<open>Moving HEAD\<close>

lemma read_head_wf: "read_head R = Ok h \<Longrightarrow> hd_detached h = Some oid \<Longrightarrow> wf_oid oid"
  by (auto simp: read_head_def Let_def dest: oid_parse_wf split: option.splits if_splits)

lemma resolve_abbrev_wf: "resolve_abbrev objs spec = Ok oid \<Longrightarrow> wf_oid oid"
proof -
  assume "resolve_abbrev objs spec = Ok oid"
  then have "List.map_filter (matches_abbrev (drop 3 spec)) objs = [oid]" by (auto simp: resolve_abbrev_def split: list.splits)
  then have "oid \<in> set (List.map_filter (matches_abbrev (drop 3 spec)) objs)" by simp
  then obtain x where "matches_abbrev (drop 3 spec) x = Some oid" by (auto simp: map_filter_def)
  then show ?thesis by (cases x) (auto simp: matches_abbrev_def dest: oid_parse_wf split: if_splits res.splits)
qed

lemma rev_parse_wf: "rev_parse n objs R spec = Ok oid \<Longrightarrow> wf_oid oid"
proof (induction n objs R spec rule: rev_parse.induct)
  case (2 n objs R spec)
  then show ?case
    by (auto simp: SFS_TRY_Ok_iff dest: oid_parse_wf resolve_abbrev_wf read_head_wf split: if_splits option.splits)
qed simp

lemma rev_parse_name: "spec \<noteq> ''HEAD'' \<Longrightarrow> rev_parse fuel objs R spec = Ok oid \<Longrightarrow> rev_parse (Suc n) objs (R\<lparr>rf_head := h\<rparr>) spec = Ok oid"
proof -
  assume a: "spec \<noteq> ''HEAD''" "rev_parse fuel objs R spec = Ok oid"
  have d: "is_dir (R\<lparr>rf_head := h\<rparr>) p = is_dir R p" for p by (simp add: is_dir_def)
  have e: "ref_exists (R\<lparr>rf_head := h\<rparr>) p = ref_exists R p" "read_trimmed (R\<lparr>rf_head := h\<rparr>) p = read_trimmed R p" for p
    using d by (simp_all add: ref_exists_def read_trimmed_def)
  obtain k where k: "fuel = Suc k" using a(2) by (cases fuel) auto
  have "rev_parse (Suc n) objs (R\<lparr>rf_head := h\<rparr>) spec = rev_parse (Suc k) objs R spec" using a(1) by (simp add: e)
  then show ?thesis using a(2) k by simp
qed

lemma checkout_head_facts:
  assumes "checkout_head fuel objs w revision R = (R', r)"
  shows "rf_heads R' = rf_heads R"
    and "\<And>target. r = Ok target \<Longrightarrow> revision = [] \<or> last revision \<notin> {CHR 0x0A, CHR 0x0D} \<Longrightarrow>
      resolve 2 objs R' ''HEAD'' = Ok target \<and>
      read_head R' = Ok (if names_branch R revision then \<lparr>hd_symbolic = Some (refs_prefix @ revision), hd_detached = None\<rparr>
                         else \<lparr>hd_symbolic = None, hd_detached = Some target\<rparr>)"
proof -
  show "rf_heads R' = rf_heads R"
    using assms by (auto simp: checkout_head_def set_head_symbolic_def set_head_detached_def set_head_def split: res.splits if_splits)
  fix target assume r: "r = Ok target" and rev: "revision = [] \<or> last revision \<notin> {CHR 0x0A, CHR 0x0D}"
  show "resolve 2 objs R' ''HEAD'' = Ok target \<and>
      read_head R' = Ok (if names_branch R revision then \<lparr>hd_symbolic = Some (refs_prefix @ revision), hd_detached = None\<rparr>
                         else \<lparr>hd_symbolic = None, hd_detached = Some target\<rparr>)"
  proof (cases "names_branch R revision")
    case True
    have t: "rev_parse fuel objs R (refs_prefix @ revision) = Ok target" "R' = R\<lparr>rf_head := Some ((''ref: '' @ refs_prefix @ revision) @ Store_Refs.newline)\<rparr>"
      using assms r True by (auto simp: checkout_head_def resolve_def set_head_symbolic_def set_head_def split: res.splits if_splits)
    have "trim_eol ((''ref: '' @ refs_prefix @ revision) @ Store_Refs.newline) = ''ref: '' @ refs_prefix @ revision"
      by (rule trim_eol_newline) (use rev in auto)
    then have h: "read_head R' = Ok \<lparr>hd_symbolic = Some (refs_prefix @ revision), hd_detached = None\<rparr>" unfolding t(2) by (simp add: read_head_def)
    have "rev_parse (Suc 0) objs R' (refs_prefix @ revision) = Ok target" unfolding t(2) by (rule rev_parse_name [OF _ t(1)]) simp
    then have "rev_parse (Suc (Suc 0)) objs R' ''HEAD'' = Ok target" using h by (simp add: rev_parse.simps(2) [of "Suc 0"] del: rev_parse.simps)
    then show ?thesis using h True by (simp add: resolve_def numeral_2_eq_2 del: rev_parse.simps)
  next
    case False
    have t: "rev_parse fuel objs R revision = Ok target" "R' = R\<lparr>rf_head := Some (oid_to_string target @ Store_Refs.newline)\<rparr>"
      using assms r False by (auto simp: checkout_head_def set_head_detached_def set_head_def split: res.splits if_splits)
    have wf: "wf_oid target" by (rule rev_parse_wf [OF t(1)])
    have "take 5 (oid_to_string target) \<noteq> ''ref: ''" by (simp add: oid_to_string_def)
    then have h: "read_head R' = Ok \<lparr>hd_symbolic = None, hd_detached = Some target\<rparr>" unfolding t(2) using wf by (simp add: read_head_def)
    then show ?thesis using False by (simp add: resolve_def numeral_2_eq_2)
  qed
qed

subsection \<open>The command\<close>

lemma run_checkout_ends:
  assumes "run_checkout X gi order isa fuel E revision output rp = (rp', r)"
  obtains (stopped) R' where "rp' = rp\<lparr>rp_refs := R'\<rparr>" "rf_heads R' = rf_heads (rp_refs rp)" "r \<noteq> Ok Success"
  | (ran) R' target cc c mc m depth where "checkout_head fuel (ce_objects E) (ce_head_write E) revision (rp_refs rp) = (R', Ok target)"
      "load_commit X (rp_store rp) target = Ok c" "load_manifest X (rp_store rp) (c_manifest c) = Ok m"
      "if output = [] then rp' = rp\<lparr>rp_refs := R'\<rparr> \<and> r = Ok Success
       else \<exists>out q. checkout_output X gi order isa fuel E depth output cc mc c m (rp_store rp) (rp_files rp) = (out, q) \<and>
         rp' = rp\<lparr>rp_refs := R', rp_files := out\<rparr> \<and> r = status_of q"
proof -
  obtain R' h where h: "checkout_head fuel (ce_objects E) (ce_head_write E) revision (rp_refs rp) = (R', h)" by (metis surj_pair)
  note hd = checkout_head_facts(1) [OF h]
  show thesis
  proof (cases "discover (ce_exists E) (ce_cwd E)")
    case (Err e)
    then show thesis using assms by (intro stopped [of "rp_refs rp"]) (auto simp: run_checkout_def)
  next
    case (Abort e)
    then show thesis using assms by (intro stopped [of "rp_refs rp"]) (auto simp: run_checkout_def)
  next
    case D: (Ok root)
    show thesis
    proof (cases "config_load (ce_floats E) (ce_config E)")
      case (Err e)
      then show thesis using assms D by (intro stopped [of "rp_refs rp"]) (auto simp: run_checkout_def)
    next
      case (Abort e)
      then show thesis using assms D by (intro stopped [of "rp_refs rp"]) (auto simp: run_checkout_def)
    next
      case C: (Ok cfg)
      show thesis
      proof (cases h)
        case (Err e)
        then show thesis using assms D C h by (intro stopped [OF _ hd]) (auto simp: run_checkout_def)
      next
        case (Abort e)
        then show thesis using assms D C h by (intro stopped [OF _ hd]) (auto simp: run_checkout_def)
      next
        case H: (Ok target)
        obtain cc rc where rc: "commit_read X (rp_store rp) Map.empty target = (cc, rc)" by (metis surj_pair)
        have rc': "rc = load_commit X (rp_store rp) target"
          using rc by (auto simp: commit_read_def cached_read_def split: res.splits)
        show thesis
        proof (cases rc)
          case (Err e)
          then show thesis using assms D C h H rc by (intro stopped [OF _ hd]) (auto simp: run_checkout_def)
        next
          case (Abort e)
          then show thesis using assms D C h H rc by (intro stopped [OF _ hd]) (auto simp: run_checkout_def)
        next
          case K: (Ok c)
          obtain mc rm where rm: "manifest_read X (rp_store rp) Map.empty (c_manifest c) = (mc, rm)" by (metis surj_pair)
          have rm': "rm = load_manifest X (rp_store rp) (c_manifest c)"
            using rm by (auto simp: manifest_read_def cached_read_def split: res.splits)
          show thesis
          proof (cases rm)
            case (Err e)
            then show thesis using assms D C h H rc K rm by (intro stopped [OF _ hd]) (auto simp: run_checkout_def)
          next
            case (Abort e)
            then show thesis using assms D C h H rc K rm by (intro stopped [OF _ hd]) (auto simp: run_checkout_def)
          next
            case M: (Ok m)
            obtain out q where o: "checkout_output X gi order isa fuel E (max_chain_depth cfg) output cc mc c m (rp_store rp) (rp_files rp) = (out, q)"
              by (metis surj_pair)
            show thesis
            proof (rule ran [of R' target c m "max_chain_depth cfg" cc mc])
              show "if output = [] then rp' = rp\<lparr>rp_refs := R'\<rparr> \<and> r = Ok Success
                else \<exists>out q. checkout_output X gi order isa fuel E (max_chain_depth cfg) output cc mc c m (rp_store rp) (rp_files rp) = (out, q) \<and>
                  rp' = rp\<lparr>rp_refs := R', rp_files := out\<rparr> \<and> r = status_of q"
                using assms D C h H rc K rm M o by (auto simp: run_checkout_def)
            qed (use h H rc' K rm' M in simp_all)
          qed
        qed
      qed
    qed
  qed
qed

text \<open>
  C7: what \<open>sfs checkout\<close> does, whatever the disk and the stored objects do. It never changes an object or a branch, and no file but its output and the temporary
  file next to it. When it succeeds, HEAD resolves to a commit whose record and manifest are stored under their own hashes, HEAD is
  the branch when the argument names one and that very commit otherwise, and the output, if one was asked for, starts with exactly the bytes the
  manifest's size and SHA-256 describe. When it fails, the output is as it was, unless only the last sync failed.
\<close>

theorem run_checkout_correct:
  assumes "run_checkout X gi order isa fuel E revision output rp = (rp', r)" "revision = [] \<or> last revision \<notin> {CHR 0x0A, CHR 0x0D}"
  shows "rp_store rp' = rp_store rp \<and> rf_heads (rp_refs rp') = rf_heads (rp_refs rp) \<and>
    (\<forall>p. p \<notin> {output, writer_tmp_path output (ce_pid E)} \<longrightarrow> rp_files rp' p = rp_files rp p) \<and>
    (r \<noteq> Ok Success \<longrightarrow> se_dirsync_ok (ce_writer E) \<longrightarrow> rp_files rp' output = rp_files rp output) \<and>
    (r = Ok Success \<longrightarrow> (\<exists>target c m s. resolve 2 (ce_objects E) (rp_refs rp') ''HEAD'' = Ok target \<and>
       load_commit X (rp_store rp) target = Ok c \<and> load_manifest X (rp_store rp) (c_manifest c) = Ok m \<and>
       read_head (rp_refs rp') = Ok (if names_branch (rp_refs rp) revision then \<lparr>hd_symbolic = Some (refs_prefix @ revision), hd_detached = None\<rparr>
                         else \<lparr>hd_symbolic = None, hd_detached = Some target\<rparr>) \<and>
       (if output = [] then rp_files rp' = rp_files rp
        else rp_files rp' output = Some (s @ drop (length s) (stale_temp (rp_files rp) output (ce_pid E))) \<and> length s = unat (fi_total_bytes (m_file m)) \<and>
          (fi_sha256 (m_file m) \<noteq> [] \<longrightarrow> sha_hex (sha256 s) = fi_sha256 (m_file m)))))"
proof (cases rule: run_checkout_ends [OF assms(1)])
  case (1 R')
  then show ?thesis by simp
next
  case (2 R' target cc c mc m depth)
  note hd = checkout_head_facts [OF 2(1)]
  note head = hd(2) [OF refl assms(2)]
  show ?thesis
  proof (cases "output = []")
    case True
    then have e: "rp' = rp\<lparr>rp_refs := R'\<rparr>" "r = Ok Success" using 2(4) by simp_all
    show ?thesis unfolding e using hd(1) head 2(2,3) True by auto
  next
    case False
    then obtain out q where o: "checkout_output X gi order isa fuel E depth output cc mc c m (rp_store rp) (rp_files rp) = (out, q)"
      "rp' = rp\<lparr>rp_refs := R', rp_files := out\<rparr>" "r = status_of q" using 2(4) by auto
    have out: "(q = Ok () \<longrightarrow> (\<exists>s. out output = Some (s @ drop (length s) (stale_temp (rp_files rp) output (ce_pid E))) \<and> length s = unat (fi_total_bytes (m_file m)) \<and>
        (fi_sha256 (m_file m) \<noteq> [] \<longrightarrow> sha_hex (sha256 s) = fi_sha256 (m_file m)))) \<and>
      (q \<noteq> Ok () \<longrightarrow> se_dirsync_ok (ce_writer E) \<longrightarrow> out output = rp_files rp output) \<and>
      (\<forall>p. p \<notin> {writer_tmp_path output (ce_pid E), output} \<longrightarrow> out p = rp_files rp p)"
    proof (cases "load_commit_topology X gi order (rp_store rp) c m")
      case (Ok topo)
      then have "checkout_file X isa fuel \<lparr>rc_blocks = Some (loose_blocks X (rp_store rp)), rc_manifest = Some m,
          rc_history = Some (\<lambda>coid. snd (manifest_for X (rp_store rp) cc mc coid)), rc_max_depth = depth, rc_topology = topo\<rparr>
          (ce_writer E) (ce_pid E) output m (rp_files rp) = (out, q)" using o(1) by (simp add: checkout_output_def)
      from checkout_facts [OF this] show ?thesis by blast
    qed (use o(1) in \<open>auto simp: checkout_output_def\<close>)
    have st: "r = Ok Success \<longleftrightarrow> q = Ok ()" unfolding o(3) by (cases q) (auto simp: status_of_def)
    show ?thesis unfolding o(2) using hd(1) head 2(2,3) False out st by auto
  qed
qed

text \<open>
  A branch with a slash in its name is not listed by \<open>list_heads\<close>: checking it out never switches to it but detaches HEAD at its tip.
\<close>

lemma slash_not_listed: "CHR ''/'' \<in> set revision \<Longrightarrow> \<not> names_branch R revision"
  by (auto simp: names_branch_def list_heads_def list_ex_iff map_filter_def split: if_splits res.splits)

lemma nested_branch_detaches:
  assumes "CHR ''/'' \<in> set revision" "checkout_head fuel objs w revision R = (R', Ok target)"
    "last revision \<notin> {CHR 0x0A, CHR 0x0D}"
  shows "read_head R' = Ok \<lparr>hd_symbolic = None, hd_detached = Some target\<rparr>"
  using checkout_head_facts(2) [OF assms(2) refl] slash_not_listed [OF assms(1)] assms(3) by simp

text \<open>HEAD moves before anything is read: it stays where the argument points when the commit cannot be read.\<close>

lemma head_moves_first:
  assumes "discover (ce_exists E) (ce_cwd E) = Ok root" "config_load (ce_floats E) (ce_config E) = Ok cfg"
    and "checkout_head fuel (ce_objects E) (ce_head_write E) revision (rp_refs rp) = (R', Ok target)" "load_commit X (rp_store rp) target = Err e"
  shows "run_checkout X gi order isa fuel E revision output rp = (rp\<lparr>rp_refs := R'\<rparr>, Ok (Failure (exit_code e)))"
  using assms by (simp add: run_checkout_def commit_read_def cached_read_def)

section \<open>A concrete checkout\<close>

definition example_cmd :: cmd_env where
  "example_cmd = \<lparr>ce_cwd = Some [''repo''], ce_exists = (\<lambda>p. p = dot [''repo'']), ce_config = None, ce_floats = toy_floats, ce_objects = [],
     ce_head_write = True, ce_writer = kind_env, ce_pid = 77\<rparr>"

definition example_repo :: repo where
  "example_repo = \<lparr>rp_store = example_files,
     rp_refs = \<lparr>rf_head = None, rf_heads = [(''main'', oid_to_string root_addr @ Store_Refs.newline)]\<rparr>, rp_files = Map.empty\<rparr>"

lemma root_addr_wf: "wf_oid root_addr"
  using compute_oid_wf [OF example_libs_ok(2), unfolded example_libs_ok(3)] by blast

lemma example_branch: "names_branch (rp_refs example_repo) ''main''"
  using root_addr_wf by (simp add: names_branch_def list_heads_def example_repo_def map_filter_def)

theorem run_checkout_correct_witness:
  "\<exists>rp' target c. run_checkout example_libs (\<lambda>_. None) id Scalar 2 example_cmd ''main'' [] example_repo = (rp', Ok Success) \<and>
     resolve 2 [] (rp_refs rp') ''HEAD'' = Ok target \<and> load_commit example_libs example_files target = Ok c"
proof -
  have tip: "resolve 2 [] (rp_refs example_repo) ''refs/heads/main'' = Ok root_addr"
    using root_addr_wf by (simp add: resolve_def example_repo_def numeral_2_eq_2 branch_ref_path_def ref_exists_def read_trimmed_def)
  obtain R' where h: "checkout_head 2 [] True ''main'' (rp_refs example_repo) = (R', Ok root_addr)"
    using example_branch tip by (simp add: checkout_head_def set_head_symbolic_def set_head_def)
  note l = files_of_loads [OF example_manifest_wf validate_example_manifest]
  have d: "discover (ce_exists example_cmd) (ce_cwd example_cmd) = Ok [''repo'']"
    by (simp add: discover_def example_cmd_def discover_loop.simps)
  have "\<exists>rp'. run_checkout example_libs (\<lambda>_. None) id Scalar 2 example_cmd ''main'' [] example_repo = (rp', Ok Success)"
    using d h l(1,2) by (simp add: run_checkout_def) (simp add: example_cmd_def config_load_def commit_read_def manifest_read_def cached_read_def example_repo_def root_commit_def)
  then obtain rp' where run: "run_checkout example_libs (\<lambda>_. None) id Scalar 2 example_cmd ''main'' [] example_repo = (rp', Ok Success)" by blast
  obtain target c where "resolve 2 (ce_objects example_cmd) (rp_refs rp') ''HEAD'' = Ok target" "load_commit example_libs (rp_store example_repo) target = Ok c"
    using run_checkout_correct [OF run] by auto
  then show ?thesis using run by (auto simp: example_cmd_def example_repo_def)
qed

end
