(* ===== verification/Spec2Isabelle.thy ===== *)
theory Spec2Isabelle
  imports Codec_Encode Store_Journal Store_Gc Store_Merge Store_Verify Store_Readback Mount_Fs Util_Atomic Store_Lock Net_Sync Stio_Source App_Checkout
begin

text \<open>
  SynapseFS is a version store for model checkpoints (safetensors files). A commit points at a manifest, the manifest describes
  one file as a header block and a list of tensor groups, and a group is stored either in full or as a delta against the same group of
  an earlier commit. Everything is an immutable object named by the BLAKE3 hash of its framed bytes; only branch refs and \<open>HEAD\<close> change. This development
  models the program's own code under \<open>src/modules\<close> and the checkout command, and proves what makes it a version store: what was committed is what is read back, from any state of the
  disk either the right bytes come back or an error does, history is never lost, and the maintenance operations keep it so.

  \<^bold>\<open>Conventions.\<close> A call ends in \<open>'a res\<close> (\<open>Core_Error\<close>): \<open>Ok\<close> and \<open>Err\<close> are the two sides of the code's \<open>Result\<close>, \<open>Abort\<close> is an uncaught exception
  (\<open>Throw\<close>), an access outside a buffer (\<open>UB\<close>) or a model recursion out of fuel (\<open>NoFuel\<close>). Machine integers are words of their width and wrap as in the code;
  \<open>std::size_t\<close> lengths of buffers in memory are naturals. A byte buffer is a list of 8-bit words, and a function that fills a span returns the filled list. BLAKE3, zstd and the JSON library
  are the fields of the record \<open>Ext\<close> (\<open>External\<close>), an argument \<open>X\<close>; what the code relies on of them is stated by \<open>blake3_ok\<close>, \<open>zstd_ok\<close>
  and \<open>json_ok\<close>, and \<open>toy_ext\<close> satisfies all three. Whether a write, a removal or a lock succeeds is a Boolean argument; where more of the operating system
  matters (how a kernel cuts up a read or a write, which directory sync fails) it is a record of its decisions (\<open>io_env\<close>, \<open>st_env\<close>, \<open>source_env\<close>, \<open>net_env\<close>, \<open>cmd_env\<close>).
  The order in which an unordered map is traversed is an argument, with the hypothesis that it meets every key once.

  \<^bold>\<open>Theories, in the order of the layers.\<close>
  \<^item> \<open>Prelude\<close>: slices, copies, little-endian and decimal text, word lemmas; the collections \<open>slice_simps\<close> and \<open>le_simps\<close>.
  \<^item> \<open>Core_Error\<close>, \<open>External\<close>, \<open>Core_Oid\<close>, \<open>Core_Tensor\<close> (\<open>core/src\<close>): the error taxonomy, object ids with their hash frames and text forms, dtypes, unit runs,
    permutations and the topology; \<open>Core_Config\<close> the configuration file (with a model of \<open>stoull\<close>; printing and parsing of doubles is the argument \<open>Float_Ops\<close>), the paths of a repository and the search for its root. Frames are injective, ids round-trip through text and fan-out paths, validated axes expand to permutations.
  \<^item> \<open>Format_Object\<close>, \<open>Format_Diff\<close>, \<open>Format_Manifest\<close> (\<open>format/src\<close>): the container of a loose object with its chunk digests, the diff artifact with its header, frame index and permutation,
    and the canonical JSON of commits, manifests and trees. Every parser returns what was written and accepts only canonical bytes; the buffer layout and the frame index tile what they describe.
  \<^item> \<open>Codec_Residual\<close>, \<open>Codec_Gather\<close> (\<open>codec/src\<close>): the XOR and zig-zag kernels, scalar, AVX2 and AVX-512, the byte-plane and bit-shuffle transforms, and the gathering of permuted units. The vector kernels equal the
    scalar ones, and applying a residual undoes computing it.
  \<^item> \<open>Store_Loose\<close> (\<open>store/src/loose.cpp\<close>, \<open>block_store.cpp\<close>): objects as files. The locale \<open>content_store\<close> is the contract of a content-addressed store; it is interpreted on the loose store. The streaming writer
    leaves the same file as \<open>put\<close>.
  \<^item> \<open>Codec_Reconstruct\<close>, \<open>Codec_Chain\<close>, \<open>Codec_Encode\<close> (\<open>codec/src/reconstruct.cpp\<close>, \<open>compress.cpp\<close>, \<open>diff_encoder.cpp\<close>): the read path through chains of deltas and the encoder. \<open>Codec_Chain\<close> defines what it means that a chain
    of artifacts holds given bytes (\<open>holds_group\<close>) and shows that \<open>read_range\<close> implements plain reading of them, that it returns only what the frame digests seal, and that it ends; \<open>Codec_Encode\<close> shows that what \<open>encode_group\<close> writes is read back.
  \<^item> \<open>Store_Dag\<close> (\<open>store/src/dag.cpp\<close>): ancestry, merge bases, the time-ordered walk, reachable objects and negotiation probes, over a reader of commits. The locale \<open>commit_source\<close> is what the walks need of it. The rule \<open>walk_commits_rule\<close> is
    the one induction over the walk; garbage collection and verification both use it.
  \<^item> \<open>Store_Refs\<close> (\<open>refs.cpp\<close>): branch files and HEAD; the locale \<open>cas_register\<close> is the compare-and-swap contract, interpreted on \<open>RefStore::update\<close>.
  \<^item> \<open>Store_Commits\<close> (\<open>commit_store.cpp\<close>, \<open>manifest_store.cpp\<close>): the typed stores with their caches; the locale \<open>read_through\<close> shows once that a cache cannot be observed and is interpreted on both. It also interprets
    \<open>commit_source\<close> on stored commits, which gives the results on walks for the real store.
  \<^item> \<open>Store_Journal\<close> (\<open>journal.cpp\<close>, end of \<open>apps/sfs/cmd/merge.cpp\<close>): the record codec, recovery, and a machine (\<open>publish_step\<close>) for a merge that may crash between any two changes of the disk.
  \<^item> \<open>Store_Gc\<close>, \<open>Store_Merge\<close>, \<open>Store_Verify\<close> (\<open>gc.cpp\<close>, \<open>merge_logic.cpp\<close>, \<open>verify.cpp\<close>): the maintenance operations on top of them.
  \<^item> \<open>Store_Planner\<close>, \<open>Store_Readback\<close> (\<open>commit_planner.cpp\<close>, \<open>codec/src/snapshot_policy.cpp\<close>): which groups become deltas and the pass that downgrades those whose dependencies do not; the comparison of two doubles is a field of the configuration.
    The locale \<open>audited_store\<close> extends \<open>content_store\<close> and is interpreted on the loose store; whatever the planner stores reads back.
  \<^item> \<open>Util_Atomic\<close> (\<open>util/src/atomic_io.cpp\<close>, \<open>file.cpp\<close>): the system calls of an atomic write on a disk that can crash, with a history for every directory entry. The locale \<open>file_writer\<close> is the contract of a durable write, interpreted on \<open>atomic_write\<close> and \<open>atomic_write_v\<close>.
    The Boolean of \<open>loose_put\<close> and \<open>ref_update\<close> stands for the failures before its rename. A call the environment never answers is \<open>Blocked\<close>.
  \<^item> \<open>Store_Lock\<close> (\<open>lockfile.cpp\<close>): acquiring and releasing the repository lock as steps of any number of interleaved processes over a table of advisory locks.
  \<^item> \<open>Mount_Cache\<close>, \<open>Mount_Fs\<close> (\<open>mount/src/blockcache.cpp\<close>, \<open>inode.cpp\<close>, \<open>fs.cpp\<close>, \<open>fuse_ll.cpp\<close>): the frame cache with its heap of entries, run by interleaved requests (\<open>alloc\<close> chooses addresses), and the file system view: interval table, read path, read-ahead and the FUSE handlers.
    A read of the mounted file is a read of the file that checkout writes; leases see the content of their key.
  \<^item> \<open>Net_Sync\<close> (\<open>net/src/synapse_sync.cpp\<close>): the synchronisation protocol as functions on byte streams; what the inventory's JSON looks like is the argument \<open>Json_Inv\<close>. Arbitrary peers cannot plant an object under a wrong name, and a pull connected to a server copies what the server has.
  \<^item> \<open>Stio_Sha256\<close>, \<open>Stio_Files\<close>, \<open>Stio_Source\<close> (\<open>stio/src\<close>): SHA-256 against its definition in FIPS 180-4, the writer that checkout streams into, and the reader that commit takes a file from.
  \<^item> \<open>Align_Graph\<close>, \<open>Align_Topology\<close> (\<open>align/src/graph.cpp\<close>, \<open>topology_parser.cpp\<close>): the union-find over tensor axes and the parser that feeds it. The locale \<open>grouping\<close> is the contract between the two, interpreted on \<open>AxisUnionFind\<close>; the parser's results use only its laws.
  \<^item> \<open>App_Checkout\<close> (\<open>apps/sfs/cmd/checkout.cpp\<close>, \<open>header_only_source.hpp\<close>): the command, composed of the operations above.
  \<^item> This theory: the composition of reader and checkout, that a file taken in through \<open>StSource\<close> comes out of \<open>sfs checkout\<close> byte for byte.

  \<^bold>\<open>Fuel.\<close> Three recursions of the code are bounded only by the data. \<open>read_range\<close> follows delta bases: fuel above the chain length is enough (\<open>read_range_chain\<close>), and when the recorded depths decrease along the bases, fuel above \<open>max_depth\<close>
  never runs out (\<open>read_range_terminates\<close>). The walks over commits visit each commit once: twice the number of commits plus two is enough for the searches, the number of commits plus one for the walk. \<open>rev_parse\<close> needs two units, except
  on a HEAD that points at HEAD (\<open>rev_parse_terminates\<close>). \<open>find\<close> of the union-find has one unit more than there are nodes, enough for every forest the operations build. All other loops are total functions; \<open>have_probe\<close> ends because its 32-bit stride wraps to zero.

  \<^bold>\<open>Not modelled, and why.\<close> The matcher (\<open>align/src\<close> without the two files above) is floating-point optimisation whose result is only a hint: the encoder round trip is proved for every permutation. The commands other than checkout parse arguments and print around
  modelled operations; the CLI library they use is vendored. The daemon process (forking, signals, the libfuse loop), memory mapping, logging and CPU detection are calls of the operating system and the processor. Benchmarks and tests are left aside. The clock, human-readable
  error texts, diagnostics and mutexes are not modelled; a lock-protected access is one step. An output path of checkout inside \<open>.synapsefs\<close> is outside the model, which keeps objects, refs and the user's files apart.

  The findings recorded beside this development name the theorems that show them, among them 64-bit sums that wrap before a bounds check, a cache entry used after it was freed, a peer that chooses the paths it writes to, a checkout that keeps the tail of a stale temporary file,
  a merge base that is not a lowest common ancestor, and a merge strategy that brings deleted groups back.
\<close>

section \<open>From file to file\<close>

text \<open>
  C1: what goes in comes out. A safetensors file that \<open>StSource\<close> accepts, whose header block is stored verbatim, whose tensors are held by groups, in full or as
  chains of deltas, and whose size and streamed SHA-256 are in the manifest, is what \<open>sfs checkout\<close> writes, byte for byte, and the
  checkout does succeed, however the kernel cuts the writes up.
\<close>

theorem committed_file_checks_out:
  assumes "st_source_open X E path (Some f) use_mmap = Ok s" "length f < 2 ^ 63"
    and "unat (header_extent (ss_header s)) + layout_bytes (ss_layout s) < 2 ^ 64"
    and "zstd_ok X" "rc_manifest ctx = Some m" "rc_blocks ctx = Some blocks"
    and "bi_get blocks (fi_header_block (m_file m)) KHeader = Ok (ss_header_prefix s)"
    and "list_all2 (buffer_holds X ctx fuel) (m_buffer m) (map (entry_bytes f) (ss_layout s))"
    and "fi_total_bytes (m_file m) = ss_total_bytes s" "concat pieces = f" "fi_sha256 (m_file m) = sha_hex (sha_finalize (fold sha_update pieces sha_reset))"
    and "kernel_obliges (max kStreamChunk (length f)) W" "fs (writer_tmp_path dest pid) = None"
  shows "checkout_file X isa fuel ctx W pid dest m fs = (fs(dest \<mapsto> f), Ok ())"
proof -
  have whole: "ss_header_prefix s @ concat (map (entry_bytes f) (ss_layout s)) = f" by (rule source_pieces [OF assms(1-3)])
  have "absorbed (concat pieces) (fold sha_update pieces sha_reset) \<and> sh_total (fold sha_update pieces sha_reset) = of_nat (length (concat pieces))"
    using updates_absorbed [OF reset_absorbed, of pieces] by (simp add: sha_reset_def)
  then have sha: "sha_finalize (fold sha_update pieces sha_reset) = sha256 f" unfolding assms(10) by (intro finalize_absorbed) simp_all
  have rec: "manifest_records m f"
    using assms(2,9,11) sha source_open_facts(4) [OF assms(1,2)] by (simp add: manifest_records_def)
  have "length (ss_header_prefix s) \<le> length f" using arg_cong [OF whole, of length] by simp
  then have k: "kernel_obliges (max kStreamChunk (length (ss_header_prefix s))) W"
    using assms(12) unfolding kernel_obliges_def accepts_def by (meson max.mono order_refl order_trans)
  have "checkout_file X isa fuel ctx W pid dest m fs =
    (fs(writer_tmp_path dest pid := None, dest \<mapsto> written_over (stale_temp fs dest pid) f), Ok ())"
    using checkout_runs [OF assms(4-8) _ k, of isa pid dest fs] rec unfolding whole by simp
  then show ?thesis using assms(13) by (simp add: stale_temp_def written_over_def fun_upd_idem)
qed

definition round_manifest :: Manifest where
  "round_manifest = \<lparr>m_version = 1, m_hash_algo = ''blake3'',
     m_file = \<lparr>fi_name = ''m'', fi_header_block = replicate 32 7, fi_total_bytes = 15, fi_sha256 = sha_hex (sha_finalize (fold sha_update [example_st_file] sha_reset))\<rparr>,
     m_buffer = [\<lparr>be_tensor = ''w'', be_off = 9, be_nbytes = 6, be_group = ''w''\<rparr>], m_groups = [(''w'', example_full)]\<rparr>"

definition round_blocks :: BlockIf where
  "round_blocks = \<lparr>bi_get = (\<lambda>oid k. Ok [1, 0, 0, 0, 0, 0, 0, 0, 1]), bi_read_range = (\<lambda>oid k off out. Ok (window [10, 11, 12, 13, 14, 15] off out))\<rparr>"

definition round_ctx :: ReadCtx where
  "round_ctx = \<lparr>rc_blocks = Some round_blocks, rc_manifest = Some round_manifest, rc_history = None, rc_max_depth = 5, rc_topology = None\<rparr>"

lemma round_holds: "holds_group (toy_ext example_st_json) round_ctx ''w'' [10, 11, 12, 13, 14, 15] 0"
  by (rule holds_group.full [where g = example_full and oid = "replicate 32 8" and blocks = round_blocks and m = round_manifest])
    (simp_all add: round_ctx_def round_manifest_def round_blocks_def example_full_def find_group_def reads_as_def)

theorem committed_file_checks_out_witness:
  "checkout_file (toy_ext example_st_json) Scalar 1 round_ctx kind_env 77 ''out'' round_manifest Map.empty = ([''out'' \<mapsto> example_st_file], Ok ())"
proof -
  obtain s where s: "st_source_open (toy_ext example_st_json) example_reads ''m'' (Some example_st_file) False = Ok s"
    "ss_header s = example_st_header" "ss_layout s = buffer_layout example_st_header" "ss_header_prefix s = [1, 0, 0, 0, 0, 0, 0, 0, 1]" "ss_total_bytes s = 15"
    using example_open by simp
  have lay: "buffer_layout example_st_header = [\<lparr>be_tensor = ''w'', be_off = 9, be_nbytes = 6, be_group = ''w''\<rparr>]"
    by (simp add: example_st_header_def buffer_layout_def)
  have len: "length example_st_file = 15" "entry_bytes example_st_file \<lparr>be_tensor = ''w'', be_off = 9, be_nbytes = 6, be_group = ''w''\<rparr> = [10, 11, 12, 13, 14, 15]"
    by (simp_all add: example_st_file_def entry_bytes_def slice_def)
  have b: "list_all2 (buffer_holds (toy_ext example_st_json) round_ctx 1) (m_buffer round_manifest) (map (entry_bytes example_st_file) (ss_layout s))"
    using round_holds by (auto simp: s lay len buffer_holds_def round_manifest_def)
  have k: "kernel_obliges (max kStreamChunk (length example_st_file)) kind_env"
    by (simp add: kernel_obliges_def kind_env_def accepts_def len kStreamChunk_def)
  have ext: "unat (header_extent (ss_header s)) + layout_bytes (ss_layout s) < 2 ^ 64"
    unfolding s(2,3) lay layout_bytes_def by (simp add: example_st_header_def)
  show ?thesis
    by (rule committed_file_checks_out [OF s(1) _ ext _ _ _ _ b _ _ _ k, where blocks = round_blocks and pieces = "[example_st_file]"])
      (simp_all add: s(4,5) len toy_zstd_ok round_ctx_def round_blocks_def round_manifest_def)
qed
end
